(* ===== verification/Prelude.thy ===== *)
theory Prelude
  imports Main "HOL-Library.Word"
begin

text \<open>
  Shared vocabulary of the development: the fixed-width integers of the kernel, byte arrays,
  the faults a C++ operation can run into, the byte order of packed structures, and the loops
  the sources write over and over (copy a run of bytes, overwrite part of a buffer).
  Generic facts are collected in the named collections \<open>byte_simps\<close> (conversion between
  bytes and 16-bit fields) and \<open>array_simps\<close> (copies and writes into arrays).
\<close>

unbundle bit_operations_syntax

named_theorems byte_simps "conversion between bytes and 16-bit fields"
named_theorems array_simps "copies into and writes into fixed-size arrays"

type_synonym u8 = "8 word"
type_synonym u16 = "16 word"
type_synonym u32 = "32 word"
type_synonym u64 = "64 word"

text \<open>
  A byte array. A pointer that the code compares with \<open>nullptr\<close> is a \<open>bytes option\<close>,
  with \<open>None\<close> for the null pointer.
\<close>

type_synonym bytes = "u8 list"
type_synonym pointer = "bytes option"

text \<open>
  What can go wrong in a C++ operation and is not a return value: a write or a read outside an
  array, a failed \<open>ASSERT\<close> or \<open>KPANIC\<close>, or an operation C++ leaves undefined (a division by zero, a
  shift by the width or more). Operations that can end so have a result of the sum
  type \<open>'a outcome\<close>.
\<close>

datatype fault = OutOfBounds | Panic string | Undefined

type_synonym 'a outcome = "fault + 'a"

definition bind_outcome :: "'a outcome \<Rightarrow> ('a \<Rightarrow> 'b outcome) \<Rightarrow> 'b outcome" where
  "bind_outcome x f = (case x of Inl e \<Rightarrow> Inl e | Inr a \<Rightarrow> f a)"

definition assert_that :: "bool \<Rightarrow> string \<Rightarrow> unit outcome" where
  "assert_that b msg = (if b then Inr () else Inl (Panic msg))"

section \<open>Bytes and 16-bit fields\<close>

lemma u8_bound: "unat (x :: u8) < 256"
  using unsigned_less [of x, where ?'a = nat] by simp

lemma u16_bound: "unat (x :: u16) < 65536"
  using unsigned_less [of x, where ?'a = nat] by simp

lemma u32_bound: "unat (x :: u32) < 4294967296"
  using unsigned_less [of x, where ?'a = nat] by simp

lemma unat_ucast_up:
  "LENGTH('a) \<le> LENGTH('b) \<Longrightarrow> unat (ucast (x :: 'a::len word) :: 'b::len word) = unat x"
  by (simp add: unsigned_ucast_eq take_bit_nat_eq_self_iff order.strict_trans2 [OF unsigned_less])

text \<open>A number below \<open>2 ^ n\<close> has no bits from position \<open>n\<close> on.\<close>

lemma bit_below:
  fixes w :: "'a::len word"
  assumes "bit w k" and "unat w < 2 ^ n"
  shows "k < n"
proof (rule ccontr)
  assume "\<not> k < n"
  have "bit (unat w) k"
    using assms(1) by (simp add: bit_unsigned_iff)
  then have "unat w div 2 ^ k \<noteq> 0"
    by (metis bit_iff_odd even_zero)
  then have "2 ^ k \<le> unat w"
    by (simp add: div_eq_0_iff)
  moreover have "(2 :: nat) ^ n \<le> 2 ^ k"
    using \<open>\<not> k < n\<close> by (intro power_increasing) simp_all
  ultimately show False
    using assms(2) by linarith
qed

lemma unat_add_of_nat: "unat a + n < 2 ^ 64 \<Longrightarrow> unat (a + word_of_nat n :: u64) = unat a + n"
  by (simp add: unat_word_ariths unat_of_nat mod_simps)

text \<open>Rounding down to a multiple of the page size.\<close>

lemma and_not_page: "unat (v AND NOT (4096 - 1) :: u64) = unat v div 4096 * 4096"
proof -
  have "v AND NOT (4096 - 1) = push_bit 12 (drop_bit 12 v)"
  proof (rule bit_word_eqI)
    fix k
    have m: "(4096 - 1 :: u64) = mask 12"
      by (simp add: mask_eq_exp_minus_1)
    show "bit (v AND NOT (4096 - 1)) k = bit (push_bit 12 (drop_bit 12 v)) k" if "k < LENGTH(64)"
      unfolding m using that by (auto simp: bit_and_iff bit_not_iff bit_mask_iff bit_push_bit_iff bit_drop_bit_eq)
  qed
  moreover have "unat (drop_bit 12 v) = unat v div 4096"
    by (simp add: drop_bit_eq_div unat_div)
  moreover have "unat v div 4096 * 4096 < 2 ^ 64"
    using unsigned_less [of v, where 'a = nat] by (intro order.strict_trans1 [OF div_times_less_eq_dividend]) simp
  ultimately show ?thesis
    by (simp add: push_bit_eq_mult unat_word_ariths)
qed

text \<open>
  A \<open>uint16_t\<close> member of a packed structure as the little-endian CPU reads and writes it:
  the byte at the lower address is the low one.
\<close>

definition le16 :: "u8 \<Rightarrow> u8 \<Rightarrow> u16" where
  "le16 lo hi = push_bit 8 (ucast hi) OR ucast lo"

definition lo8 :: "u16 \<Rightarrow> u8" where
  "lo8 x = ucast x"

definition hi8 :: "u16 \<Rightarrow> u8" where
  "hi8 x = ucast (drop_bit 8 x)"

definition le16_bytes :: "u16 \<Rightarrow> bytes" where
  "le16_bytes x = [lo8 x, hi8 x]"

lemma lo8_le16 [simp, byte_simps]: "lo8 (le16 a b) = a"
  unfolding lo8_def le16_def
  by (rule bit_word_eqI) (auto simp: bit_simps)

lemma hi8_le16 [simp, byte_simps]: "hi8 (le16 a b) = b"
  unfolding hi8_def le16_def
  by (rule bit_word_eqI) (auto simp: bit_simps dest: bit_imp_le_length)

lemma le16_lo8_hi8 [simp, byte_simps]: "le16 (lo8 x) (hi8 x) = x"
  unfolding lo8_def hi8_def le16_def
  by (rule bit_word_eqI) (auto simp: bit_simps le_less_Suc_eq not_less)

lemma le16_eq_iff [simp]: "le16 a b = le16 c d \<longleftrightarrow> a = c \<and> b = d"
  by (metis hi8_le16 lo8_le16)

lemma u16_cases: obtains a b where "x = le16 a b"
  by (metis le16_lo8_hi8)

lemma length_le16_bytes [simp]: "length (le16_bytes x) = 2"
  by (simp add: le16_bytes_def)

section \<open>Copies and writes\<close>

text \<open>
  \<open>for (i = 0; i < n; i++) dst[i] = src[i];\<close>: the loop of \<open>copy_bytes\<close>, which
  \<^verbatim>\<open>net_proto.cc\<close>, \<^verbatim>\<open>udp.cc\<close>, \<^verbatim>\<open>arp_cache.cc\<close> and \<^verbatim>\<open>net_chat.cc\<close> each define.
\<close>

fun copy_loop :: "nat \<Rightarrow> nat \<Rightarrow> 'a list \<Rightarrow> 'a list \<Rightarrow> 'a list" where
  "copy_loop i 0 dst src = dst"
| "copy_loop i (Suc k) dst src = copy_loop (Suc i) k (dst[i := src ! i]) src"

definition copy_bytes :: "'a list \<Rightarrow> 'a list \<Rightarrow> nat \<Rightarrow> 'a list" where
  "copy_bytes dst src n = copy_loop 0 n dst src"

text \<open>Overwriting the part of a buffer that starts at an offset.\<close>

definition write_at :: "nat \<Rightarrow> 'a list \<Rightarrow> 'a list \<Rightarrow> 'a list" where
  "write_at off bs buf = take off buf @ bs @ drop (off + length bs) buf"

text \<open>A checked write: the result is \<open>OutOfBounds\<close> when it would leave the buffer.\<close>

definition store_at :: "nat \<Rightarrow> 'a list \<Rightarrow> 'a list \<Rightarrow> 'a list outcome" where
  "store_at off bs buf =
     (if off + length bs \<le> length buf then Inr (write_at off bs buf) else Inl OutOfBounds)"

definition segment :: "nat \<Rightarrow> nat \<Rightarrow> 'a list \<Rightarrow> 'a list" where
  "segment off n bs = take n (drop off bs)"

lemma copy_loop_eq:
  assumes "i + k \<le> length dst" and "i + k \<le> length src"
  shows "copy_loop i k dst src = take i dst @ segment i k src @ drop (i + k) dst"
  using assms
proof (induction k arbitrary: i dst)
  case 0
  then show ?case by (simp add: segment_def)
next
  case (Suc k)
  have "copy_loop (Suc i) k (dst[i := src ! i]) src
      = take (Suc i) (dst[i := src ! i]) @ segment (Suc i) k src @ drop (Suc i + k) dst"
    using Suc by simp
  moreover have "take (Suc i) (dst[i := src ! i]) = take i dst @ [src ! i]"
    using Suc.prems by (simp add: take_Suc_conv_app_nth)
  moreover have "src ! i # segment (Suc i) k src = segment i (Suc k) src"
    using Suc.prems by (simp add: segment_def Cons_nth_drop_Suc [symmetric])
  ultimately show ?case by simp
qed

lemma copy_bytes_eq [array_simps]:
  "n \<le> length dst \<Longrightarrow> n \<le> length src \<Longrightarrow> copy_bytes dst src n = take n src @ drop n dst"
  by (simp add: copy_bytes_def copy_loop_eq segment_def)

lemma copy_bytes_all [simp]:
  "length dst = n \<Longrightarrow> length src = n \<Longrightarrow> copy_bytes dst src n = src"
  by (simp add: copy_bytes_eq)

lemma length_copy_loop [simp]: "length (copy_loop i k dst src) = length dst"
  by (induction k arbitrary: i dst) simp_all

lemma length_copy_bytes [simp]: "length (copy_bytes dst src n) = length dst"
  by (simp add: copy_bytes_def)

lemma length_write_at [simp]:
  "off + length bs \<le> length buf \<Longrightarrow> length (write_at off bs buf) = length buf"
  by (simp add: write_at_def)

lemma length_segment [simp]: "length (segment off n bs) = min n (length bs - off)"
  by (simp add: segment_def min.commute)

lemma segment_append_left [array_simps]:
  "off + n \<le> length xs \<Longrightarrow> segment off n (xs @ ys) = segment off n xs"
  by (simp add: segment_def)

lemma segment_append_right [array_simps]:
  "length xs \<le> off \<Longrightarrow> segment off n (xs @ ys) = segment (off - length xs) n ys"
  by (simp add: segment_def)

lemma segment_all [array_simps]: "length xs = n \<Longrightarrow> segment 0 n xs = xs"
  by (simp add: segment_def)

lemma store_at_Inr_iff:
  "store_at off bs buf = Inr buf' \<longleftrightarrow>
     off + length bs \<le> length buf \<and> buf' = write_at off bs buf"
  by (auto simp: store_at_def)

lemma bind_outcome_simps [simp]:
  "bind_outcome (Inr a) f = f a"
  "bind_outcome (Inl e) f = Inl e"
  by (simp_all add: bind_outcome_def)

lemma bind_outcome_Inr_iff:
  "bind_outcome x f = Inr b \<longleftrightarrow> (\<exists>a. x = Inr a \<and> f a = Inr b)"
  by (cases x) simp_all

lemma assert_that_simps [simp]:
  "assert_that True msg = Inr ()"
  "assert_that False msg = Inl (Panic msg)"
  by (simp_all add: assert_that_def)

section \<open>Lists\<close>

text \<open>
  \<open>for (i = 0; i < n; ++i) if (P(i)) return i;\<close> is \<open>find P [0..<n]\<close>, with \<open>None\<close> where the
  code falls through (and where it returns -1 to its caller).
\<close>

lemma find_upt_Some_iff:
  "find P [0..<n] = Some i \<longleftrightarrow> i < n \<and> P i \<and> (\<forall>j < i. \<not> P j)"
  by (auto simp: find_Some_iff)

lemma find_upt_SomeD: "find P [0..<n] = Some i \<Longrightarrow> i < n \<and> P i"
  by (simp add: find_upt_Some_iff)

lemma find_upt_None_iff: "find P [0..<n] = None \<longleftrightarrow> (\<forall>i < n. \<not> P i)"
  by (auto simp: find_None_iff)

lemma find_upt_unique:
  assumes "i < n" and "P i" and "\<And>j. j < n \<Longrightarrow> P j \<Longrightarrow> j = i"
  shows "find P [0..<n] = Some i"
  unfolding find_upt_Some_iff using assms by (metis order.strict_trans nat_neq_iff)

text \<open>A loop that keeps the first index with the least value seen so far.\<close>

lemma fold_argmin:
  fixes f :: "nat \<Rightarrow> 'a::linorder"
  defines "r \<equiv> \<lambda>xs m. fold (\<lambda>i m. if f i < f m then i else m) xs m"
  shows "r xs m \<in> set (m # xs) \<and> (\<forall>x \<in> set (m # xs). f (r xs m) \<le> f x)"
  unfolding r_def
proof (induction xs arbitrary: m)
  case Nil
  then show ?case by simp
next
  case (Cons x xs)
  show ?case
  proof (cases "f x < f m")
    case True
    with Cons [of x] show ?thesis by (auto intro: order.trans less_imp_le)
  next
    case False
    with Cons [of m] show ?thesis by (auto intro: order.trans simp: not_less)
  qed
qed

lemma card_minus_one_le:
  assumes "A - {x} \<subseteq> B" and "finite B"
  shows "card A - 1 \<le> card B"
proof -
  have "card A - 1 \<le> card (A - {x})"
    by (simp add: card_Diff_singleton_if)
  also have "\<dots> \<le> card B"
    using assms by (intro card_mono)
  finally show ?thesis .
qed

lemma list4_cases:
  assumes "length xs = 4"
  obtains a b c d where "xs = [a, b, c, d]"
  using assms by (auto simp: numeral_eq_Suc length_Suc_conv)

lemma list6_cases:
  assumes "length xs = 6"
  obtains a b c d e f where "xs = [a, b, c, d, e, f]"
  using assms by (auto simp: numeral_eq_Suc length_Suc_conv)

lemma list8_cases:
  assumes "length xs = 8"
  obtains a b c d e f g h where "xs = [a, b, c, d, e, f, g, h]"
  using assms by (auto simp: numeral_eq_Suc length_Suc_conv)

text \<open>
  \<open>for (i = 0; i < n; ++i) out[i] = f(src[i]);\<close>
\<close>

lemma fold_update_map:
  assumes "n \<le> length out" and "n \<le> length src"
  shows "fold (\<lambda>i out. out[i := f (src ! i)]) [0..<n] out = map f (take n src) @ drop n out"
  using assms
proof (induction n)
  case (Suc n)
  then have "fold (\<lambda>i out. out[i := f (src ! i)]) [0..<Suc n] out =
      (map f (take n src) @ drop n out)[n := f (src ! n)]"
    by simp
  also have "\<dots> = map f (take n src) @ (drop n out)[0 := f (src ! n)]"
    using Suc.prems by (simp add: list_update_append)
  also have "(drop n out)[0 := f (src ! n)] = f (src ! n) # drop (Suc n) out"
    using Suc.prems by (simp add: Cons_nth_drop_Suc [symmetric])
  finally show ?case
    using Suc.prems by (simp add: take_Suc_conv_app_nth)
qed simp

section \<open>Strings\<close>

text \<open>The string a character array holds: what comes before its first NUL.\<close>

definition cstr :: "bytes \<Rightarrow> bytes" where
  "cstr str = takeWhile (\<lambda>ch. ch \<noteq> 0) str"

definition terminated :: "bytes \<Rightarrow> bool" where
  "terminated str \<longleftrightarrow> 0 \<in> set str"

lemma terminated_cstr: "terminated str \<Longrightarrow> length (cstr str) < length str \<and> str ! length (cstr str) = 0"
proof -
  assume "terminated str"
  then have "length (cstr str) < length str"
    unfolding terminated_def cstr_def by (induction str) auto
  then show ?thesis
    using nth_length_takeWhile [of "\<lambda>ch. ch \<noteq> 0" str] by (auto simp: cstr_def)
qed

lemma cstr_nth: "i < length (cstr str) \<Longrightarrow> str ! i \<noteq> 0"
  unfolding cstr_def by (metis (mono_tags, lifting) nth_mem set_takeWhileD takeWhile_nth)

lemma cstr_prefix: "take (length (cstr str)) str = cstr str"
  by (simp add: cstr_def takeWhile_eq_take [symmetric])

lemma cstr_map_zero: "0 \<notin> set xs \<Longrightarrow> cstr (xs @ 0 # ys) = xs"
  by (auto simp: cstr_def takeWhile_append)

end
