(* ===== verification/Checksum.thy ===== *)
theory Checksum
  imports Prelude
begin

text \<open>
  The byte-order helper and the Internet checksum of \<^verbatim>\<open>net_proto.cc\<close>, with the arithmetic that
  makes it work: the 32-bit accumulator does not wrap on data of a frame's size, the fold loop
  ends, the result is the one's complement of the sum modulo 65535, and storing the computed
  checksum into the field that was zero while it was computed makes the data check out.
\<close>

section \<open>The code\<close>

definition bswap16 :: "u16 \<Rightarrow> u16" where
  "bswap16 x = drop_bit 8 x OR push_bit 8 x"

text \<open>
  The two summing steps of \<open>checksum16\<close>: the loop over the 16-bit words, high byte first, and
  the leftover byte padded on the right. \<open>sum\<close> is a \<open>uint32_t\<close>.
\<close>

fun checksum_words :: "u32 \<Rightarrow> bytes \<Rightarrow> u32" where
  "checksum_words s (a # b # rest) =
     checksum_words (s + ucast ((push_bit 8 (ucast a) OR ucast b) :: u16)) rest"
| "checksum_words s [a] = s + ucast (push_bit 8 (ucast a) :: u16)"
| "checksum_words s [] = s"

text \<open>\<open>while (sum >> 16) sum = (sum & 0xFFFF) + (sum >> 16);\<close>\<close>

lemma and_ffff_unat: "unat (s AND 0xFFFF :: u32) = unat s mod 65536"
proof -
  have "s AND 0xFFFF = take_bit 16 s"
    by (simp add: take_bit_eq_mask mask_numeral)
  then show ?thesis
    by (simp add: take_bit_eq_mod unat_mod)
qed

lemma drop16_unat: "unat (drop_bit 16 s :: u32) = unat s div 65536"
  by (simp add: drop_bit_eq_div unat_div)

lemma fold_step_unat:
  "unat ((s AND 0xFFFF) + drop_bit 16 s :: u32) = unat s mod 65536 + unat s div 65536"
proof -
  have "unat s < 4294967296"
    by (rule u32_bound)
  then have "unat s mod 65536 + unat s div 65536 < 2 ^ LENGTH(32)"
    by simp
  then show ?thesis
    by (simp add: unat_word_ariths and_ffff_unat drop16_unat)
qed

function checksum_fold :: "u32 \<Rightarrow> u32" where
  "checksum_fold s =
     (if drop_bit 16 s \<noteq> 0 then checksum_fold ((s AND 0xFFFF) + drop_bit 16 s) else s)"
  by pat_completeness auto
termination
proof (relation "measure unat")
  fix s :: u32
  assume "drop_bit 16 s \<noteq> 0"
  then have "unat s div 65536 \<noteq> 0"
    using drop16_unat [of s] by (metis unat_eq_zero)
  moreover have "unat s = 65536 * (unat s div 65536) + unat s mod 65536"
    by simp
  ultimately have "unat s mod 65536 + unat s div 65536 < unat s"
    by linarith
  then show "((s AND 0xFFFF) + drop_bit 16 s, s) \<in> measure unat"
    by (simp add: fold_step_unat)
qed simp

declare checksum_fold.simps [simp del]

definition checksum16 :: "bytes \<Rightarrow> u16" where
  "checksum16 data = ucast (NOT (checksum_fold (checksum_words 0 data)))"

section \<open>Byte order\<close>

lemma bswap16_le16 [simp, byte_simps]: "bswap16 (le16 a b) = le16 b a"
  unfolding bswap16_def le16_def
  by (rule bit_word_eqI) (auto simp: bit_simps dest: bit_imp_le_length)

lemma bswap16_bswap16 [simp, byte_simps]: "bswap16 (bswap16 x) = x"
  by (rule u16_cases [of x]) simp

lemma bswap16_eq_iff [simp]: "bswap16 x = bswap16 y \<longleftrightarrow> x = y"
  by (metis bswap16_bswap16)

lemma lo8_bswap16 [simp, byte_simps]: "lo8 (bswap16 x) = hi8 x"
  by (rule u16_cases [of x]) simp

lemma hi8_bswap16 [simp, byte_simps]: "hi8 (bswap16 x) = lo8 x"
  by (rule u16_cases [of x]) simp

section \<open>The checksum as arithmetic\<close>

lemma unat_le16: "unat (le16 lo hi) = 256 * unat hi + unat lo"
proof -
  have disj: "push_bit 8 (ucast hi) AND (ucast lo :: u16) = 0"
    by (rule bit_word_eqI) (auto simp: bit_simps dest: bit_imp_le_length)
  then have "le16 lo hi = push_bit 8 (ucast hi) + ucast lo"
    by (simp add: le16_def disjunctive_add_eq_or)
  moreover have "256 * unat hi + unat lo < 65536"
    using u8_bound [of hi] u8_bound [of lo] by simp
  ultimately show ?thesis
    by (simp add: push_bit_eq_mult unat_word_ariths unat_ucast_up mult.commute)
qed

text \<open>The sum of the 16-bit words of the data as a natural number.\<close>

fun sum_words :: "bytes \<Rightarrow> nat" where
  "sum_words (a # b # rest) = 256 * unat a + unat b + sum_words rest"
| "sum_words [a] = 256 * unat a"
| "sum_words [] = 0"

lemma be_word_unat:
  "unat ((push_bit 8 (ucast a) OR ucast b) :: u16) = 256 * unat (a :: u8) + unat (b :: u8)"
  using unat_le16 [of b a] by (simp add: le16_def)

lemma be_pad_unat: "unat (push_bit 8 (ucast a) :: u16) = 256 * unat (a :: u8)"
  using be_word_unat [of a 0] by simp

lemma sum_words_bound: "sum_words bs \<le> 65535 * ((length bs + 1) div 2)"
proof (induction bs rule: sum_words.induct)
  case (1 a b rest)
  have "256 * unat a + unat b \<le> 65535"
    using u8_bound [of a] u8_bound [of b] by simp
  with 1 show ?case by simp
next
  case (2 a)
  then show ?case using u8_bound [of a] by simp
qed simp

lemma checksum_words_unat:
  "unat s + sum_words bs < 2 ^ 32 \<Longrightarrow> unat (checksum_words s bs) = unat s + sum_words bs"
proof (induction s bs rule: checksum_words.induct)
  case (1 s a b rest)
  have step: "unat (s + ucast ((push_bit 8 (ucast a) OR ucast b) :: u16)) =
      unat s + (256 * unat a + unat b)"
    using 1(2) by (simp add: unat_word_ariths unat_ucast_up be_word_unat)
  show ?case
    using 1(1) 1(2) step by simp
next
  case (2 s a)
  then show ?case
    by (simp add: unat_word_ariths unat_ucast_up be_pad_unat)
qed simp

text \<open>
  What the fold loop computes: the representative of the sum modulo 65535 in \<open>0..65535\<close> that is
  0 only for the sum 0.
\<close>

definition ones_residue :: "nat \<Rightarrow> nat" where
  "ones_residue n = (if n = 0 then 0 else if n mod 65535 = 0 then 65535 else n mod 65535)"

lemma ones_residue_step: "ones_residue (n mod 65536 + n div 65536) = ones_residue n"
proof -
  have split: "n = 65535 * (n div 65536) + (n div 65536 + n mod 65536)"
    by simp
  have "(n mod 65536 + n div 65536) mod 65535 = n mod 65535"
    by (subst (3) split, subst mod_mult_self4) (simp add: add.commute)
  moreover have "n mod 65536 + n div 65536 = 0 \<longleftrightarrow> n = 0"
    using split by auto
  ultimately show ?thesis
    by (simp add: ones_residue_def)
qed

lemma ones_residue_small: "n < 65536 \<Longrightarrow> ones_residue n = n"
  by (cases "n = 65535") (auto simp: ones_residue_def)

lemma checksum_fold_unat: "unat (checksum_fold s) = ones_residue (unat s)"
proof (induction s rule: checksum_fold.induct)
  case (1 s)
  show ?case
  proof (cases "drop_bit 16 s = 0")
    case True
    then have "unat s < 65536"
      using drop16_unat [of s] by (simp add: div_eq_0_iff)
    with True show ?thesis
      by (simp add: checksum_fold.simps ones_residue_small)
  next
    case False
    with 1 have "unat (checksum_fold ((s AND 0xFFFF) + drop_bit 16 s)) =
        ones_residue (unat ((s AND 0xFFFF) + drop_bit 16 s))"
      by simp
    also have "\<dots> = ones_residue (unat s)"
      by (simp only: fold_step_unat ones_residue_step)
    finally show ?thesis
      using False by (simp add: checksum_fold.simps [of s])
  qed
qed

lemma ones_residue_le: "ones_residue n \<le> 65535"
  by (auto simp: ones_residue_def intro: less_imp_le order.trans [OF mod_le_divisor])

lemma ucast_not_unat:
  assumes "unat (s :: u32) \<le> 65535"
  shows "unat (ucast (NOT s) :: u16) = 65535 - unat s"
proof -
  have "ucast (NOT s) = NOT (ucast s :: u16)"
    by (rule bit_word_eqI) (simp add: bit_simps)
  moreover have "unat (ucast s :: u16) = unat s"
    using assms by (simp add: unsigned_ucast_eq take_bit_eq_mod)
  moreover have "unat (NOT x) = 65535 - unat x" for x :: u16
  proof -
    have "NOT x = - 1 - x"
      by (simp add: not_eq_complement)
    moreover have "unat (- 1 :: u16) = 65535"
      by (simp add: unsigned_minus_1_eq_mask mask_numeral)
    ultimately show ?thesis
      by (simp add: unat_sub)
  qed
  ultimately show ?thesis by simp
qed

text \<open>Data of at most 65536 bytes cannot make the 32-bit accumulator wrap.\<close>

lemma sum_words_no_wrap:
  assumes "length bs \<le> 65536"
  shows "sum_words bs < 2 ^ 32"
proof -
  have "sum_words bs \<le> 65535 * ((length bs + 1) div 2)"
    by (rule sum_words_bound)
  also have "\<dots> \<le> 65535 * 32768"
    using assms by (intro mult_le_mono) auto
  finally show ?thesis by simp
qed

lemma checksum16_unat:
  assumes "length bs \<le> 65536"
  shows "unat (checksum16 bs) = 65535 - ones_residue (sum_words bs)"
proof -
  have "unat (checksum_fold (checksum_words 0 bs)) = ones_residue (sum_words bs)"
    using sum_words_no_wrap [OF assms]
    by (simp add: checksum_fold_unat checksum_words_unat)
  then show ?thesis
    by (simp add: checksum16_def ucast_not_unat ones_residue_le)
qed

lemma checksum16_zero_iff:
  assumes "length bs \<le> 65536"
  shows "checksum16 bs = 0 \<longleftrightarrow> 0 < sum_words bs \<and> sum_words bs mod 65535 = 0"
proof -
  have "checksum16 bs = 0 \<longleftrightarrow> ones_residue (sum_words bs) = 65535"
    using checksum16_unat [OF assms] ones_residue_le [of "sum_words bs"]
    by (auto simp flip: unat_eq_zero)
  also have "\<dots> \<longleftrightarrow> 0 < sum_words bs \<and> sum_words bs mod 65535 = 0"
    by (auto simp: ones_residue_def dest: mod_less_divisor [of 65535])
  finally show ?thesis .
qed

lemma sum_words_append:
  "even (length xs) \<Longrightarrow> sum_words (xs @ ys) = sum_words xs + sum_words ys"
  by (induction xs rule: sum_words.induct) simp_all

text \<open>
  Filling in the checksum: with the field zero while the checksum is computed, and the result
  stored high byte first at an even offset, the data check out.
\<close>

lemma checksum16_filled:
  assumes "even (length pre)" and "length pre + length post \<le> 65534"
    and that: "c = checksum16 (pre @ 0 # 0 # post)"
  shows "checksum16 (pre @ hi8 c # lo8 c # post) = 0"
proof -
  define S where "S = sum_words pre + sum_words post"
  have "unat c = 256 * unat (hi8 c) + unat (lo8 c)"
    using unat_le16 [of "lo8 c" "hi8 c"] by simp
  then have sum: "sum_words (pre @ hi8 c # lo8 c # post) = S + unat c"
    using assms(1) by (simp add: sum_words_append S_def)
  have "sum_words (pre @ 0 # 0 # post) = S"
    using assms(1) by (simp add: sum_words_append S_def)
  then have c: "unat c = 65535 - ones_residue S"
    using checksum16_unat [of "pre @ 0 # 0 # post"] assms(2) that by simp
  have "0 < S + unat c \<and> (S + unat c) mod 65535 = 0"
  proof (cases "S mod 65535 = 0")
    case True
    then show ?thesis
      by (cases "S = 0") (simp_all add: c ones_residue_def)
  next
    case False
    then have "unat c = 65535 - S mod 65535"
      by (auto simp: c ones_residue_def)
    moreover have "S = 65535 * (S div 65535) + S mod 65535" and "S mod 65535 < 65535"
      by simp_all
    ultimately have "S + unat c = 65535 * (S div 65535) + 65535"
      by linarith
    with False show ?thesis by simp
  qed
  with sum show ?thesis
    using checksum16_zero_iff [of "pre @ hi8 c # lo8 c # post"] assms(2) by simp
qed

text \<open>
  Data that check out stop doing so when one word changes, unless 0 and 0xFFFF, the two
  representations of zero, are exchanged.
\<close>

definition word_at :: "u8 \<Rightarrow> u8 \<Rightarrow> nat" where
  "word_at a b = 256 * unat a + unat b"

lemma word_at_le: "word_at a b \<le> 65535"
  using u8_bound [of a] u8_bound [of b] by (simp add: word_at_def)

lemma cong_65535:
  assumes "x \<le> 65535" and "y \<le> 65535" and "(s + x) mod 65535 = 0" and "(s + y) mod 65535 = (0::nat)"
    and "x \<noteq> y"
  shows "{x, y} = {0, 65535}"
proof -
  have "65535 dvd (s + x)" "65535 dvd (s + y)"
    using assms(3,4) by (simp_all add: mod_eq_0_iff_dvd)
  moreover have "s + x - (s + y) = x - y" "s + y - (s + x) = y - x"
    by simp_all
  ultimately have "65535 dvd (x - y)" "65535 dvd (y - x)"
    by (metis dvd_diff_nat)+
  then have d: "y < x \<longrightarrow> 65535 \<le> x - y" "x < y \<longrightarrow> 65535 \<le> y - x"
    by (auto dest: dvd_imp_le)
  consider "x < y" | "y < x"
    using assms(5) by linarith
  then show ?thesis
  proof cases
    case 1
    then have "x = 0" "y = 65535"
      using assms(1,2) d by linarith+
    then show ?thesis by simp
  next
    case 2
    then have "y = 0" "x = 65535"
      using assms(1,2) d by linarith+
    then show ?thesis by (simp add: insert_commute)
  qed
qed

lemma checksum16_one_word:
  assumes "even (length pre)" and "length pre + length post \<le> 60000"
    and "checksum16 (pre @ [a, b] @ post) = 0"
    and "word_at a b \<noteq> word_at c d" and "{word_at a b, word_at c d} \<noteq> {0, 65535}"
  shows "checksum16 (pre @ [c, d] @ post) \<noteq> 0"
proof
  assume z: "checksum16 (pre @ [c, d] @ post) = 0"
  have sum: "sum_words (pre @ [x, y] @ post) = sum_words pre + sum_words post + word_at x y" for x y
    using assms(1) by (simp add: sum_words_append word_at_def)
  have "(sum_words pre + sum_words post + word_at a b) mod 65535 = 0"
    "(sum_words pre + sum_words post + word_at c d) mod 65535 = 0"
    using assms(2,3) z checksum16_zero_iff [of "pre @ [a, b] @ post"] checksum16_zero_iff [of "pre @ [c, d] @ post"]
    by (simp_all only: sum) simp_all
  from cong_65535 [OF word_at_le word_at_le this assms(4)] assms(5) show False
    by contradiction
qed

section \<open>Properties\<close>

text \<open>
  C21. On data of up to 65536 bytes the 32-bit accumulator of \<open>checksum16\<close> does not wrap and the
  result is the one's complement of the one's complement sum of the big-endian 16-bit words
  (an odd last byte padded with a zero), as RFC 1071 defines it.
\<close>

theorem checksum16_ones_complement:
  assumes "length bs \<le> 65536"
  shows "unat (checksum16 bs) = 65535 - ones_residue (sum_words bs)"
  by (rule checksum16_unat [OF assms])

theorem checksum16_ones_complement_witness:
  "unat (checksum16 [0x45, 0x00, 0x01]) = 65535 - ones_residue (sum_words [0x45, 0x00, 0x01]) \<and>
   sum_words [0x45, 0x00, 0x01] = 17920"
  using checksum16_ones_complement [of "[0x45, 0x00, 0x01]"] by simp

text \<open>
  Storing the checksum, high byte first, in an even-aligned field that was zero while it was
  computed makes the whole data check to zero: what the senders write is what the receivers accept.
\<close>

theorem checksum16_fill_verifies:
  assumes "even (length pre)" and "length pre + length post \<le> 65534"
    and "c = checksum16 (pre @ 0 # 0 # post)"
  shows "checksum16 (pre @ hi8 c # lo8 c # post) = 0"
  by (rule checksum16_filled [OF assms])

theorem checksum16_fill_verifies_witness:
  "checksum16 ([0x45, 0x00] @ hi8 (checksum16 [0x45, 0x00, 0, 0, 7]) #
     lo8 (checksum16 [0x45, 0x00, 0, 0, 7]) # [7]) = 0"
  using checksum16_fill_verifies [of "[0x45, 0x00]" "[7]" "checksum16 [0x45, 0x00, 0, 0, 7]"]
  by simp

end
