(* ===== verification/Packets.thy ===== *)
theory Packets
  imports Checksum
begin

text \<open>
  The packed packet structures of \<^verbatim>\<open>ethernet.h\<close>, \<^verbatim>\<open>arp.h\<close>, \<^verbatim>\<open>ipv4.h\<close>, \<^verbatim>\<open>icmp.h\<close> and
  \<^verbatim>\<open>udp.h\<close>. The code overlays them on byte buffers with \<open>reinterpret_cast\<close>; here reading such a
  structure from the bytes at a pointer is a decoder and writing one is an encoder. 16-bit members
  hold what the little-endian CPU reads, so network values pass through \<open>bswap16\<close> exactly where
  the code calls it. The locale \<open>wire_format\<close> states what a layout promises, and every structure
  is an interpretation of it.
\<close>

section \<open>Constants\<close>

definition ETH_TYPE_ARP :: u16 where "ETH_TYPE_ARP = 0x0806"
definition ETH_TYPE_IPV4 :: u16 where "ETH_TYPE_IPV4 = 0x0800"

definition ARP_HTYPE_ETHERNET :: u16 where "ARP_HTYPE_ETHERNET = 1"
definition ARP_PTYPE_IPV4 :: u16 where "ARP_PTYPE_IPV4 = 0x0800"
definition ARP_OP_REQUEST :: u16 where "ARP_OP_REQUEST = 1"
definition ARP_OP_REPLY :: u16 where "ARP_OP_REPLY = 2"

definition IPV4_PROTO_ICMP :: u8 where "IPV4_PROTO_ICMP = 1"
definition IPV4_PROTO_UDP :: u8 where "IPV4_PROTO_UDP = 17"

definition ICMP_ECHO_REPLY :: u8 where "ICMP_ECHO_REPLY = 0"
definition ICMP_ECHO_REQUEST :: u8 where "ICMP_ECHO_REQUEST = 8"

lemmas packet_constants =
  ETH_TYPE_ARP_def ETH_TYPE_IPV4_def ARP_HTYPE_ETHERNET_def ARP_PTYPE_IPV4_def
  ARP_OP_REQUEST_def ARP_OP_REPLY_def IPV4_PROTO_ICMP_def IPV4_PROTO_UDP_def
  ICMP_ECHO_REPLY_def ICMP_ECHO_REQUEST_def

section \<open>Structures and their layout\<close>

record EthernetHeader =
  eth_dst :: bytes
  eth_src :: bytes
  ether_type :: u16

definition sizeof_EthernetHeader :: nat where "sizeof_EthernetHeader = 14"

definition read_EthernetHeader :: "bytes \<Rightarrow> EthernetHeader" where
  "read_EthernetHeader p =
     \<lparr>eth_dst = segment 0 6 p, eth_src = segment 6 6 p, ether_type = le16 (p ! 12) (p ! 13)\<rparr>"

definition write_EthernetHeader :: "EthernetHeader \<Rightarrow> bytes" where
  "write_EthernetHeader h = eth_dst h @ eth_src h @ le16_bytes (ether_type h)"

definition wf_EthernetHeader :: "EthernetHeader \<Rightarrow> bool" where
  "wf_EthernetHeader h \<longleftrightarrow> length (eth_dst h) = 6 \<and> length (eth_src h) = 6"

record ArpPacket =
  htype :: u16
  ptype :: u16
  hlen :: u8
  plen :: u8
  oper :: u16
  sha :: bytes
  spa :: bytes
  tha :: bytes
  tpa :: bytes

definition sizeof_ArpPacket :: nat where "sizeof_ArpPacket = 28"

definition read_ArpPacket :: "bytes \<Rightarrow> ArpPacket" where
  "read_ArpPacket p =
     \<lparr>htype = le16 (p ! 0) (p ! 1), ptype = le16 (p ! 2) (p ! 3), hlen = p ! 4, plen = p ! 5,
      oper = le16 (p ! 6) (p ! 7), sha = segment 8 6 p, spa = segment 14 4 p,
      tha = segment 18 6 p, tpa = segment 24 4 p\<rparr>"

definition write_ArpPacket :: "ArpPacket \<Rightarrow> bytes" where
  "write_ArpPacket a =
     le16_bytes (htype a) @ le16_bytes (ptype a) @ [hlen a, plen a] @ le16_bytes (oper a) @
     sha a @ spa a @ tha a @ tpa a"

definition wf_ArpPacket :: "ArpPacket \<Rightarrow> bool" where
  "wf_ArpPacket a \<longleftrightarrow>
     length (sha a) = 6 \<and> length (spa a) = 4 \<and> length (tha a) = 6 \<and> length (tpa a) = 4"

record Ipv4Header =
  version_ihl :: u8
  tos :: u8
  total_length :: u16
  identification :: u16
  flags_fragment :: u16
  ttl :: u8
  protocol :: u8
  header_checksum :: u16
  src_ip :: bytes
  dst_ip :: bytes

definition sizeof_Ipv4Header :: nat where "sizeof_Ipv4Header = 20"

definition read_Ipv4Header :: "bytes \<Rightarrow> Ipv4Header" where
  "read_Ipv4Header p =
     \<lparr>version_ihl = p ! 0, tos = p ! 1, total_length = le16 (p ! 2) (p ! 3),
      identification = le16 (p ! 4) (p ! 5), flags_fragment = le16 (p ! 6) (p ! 7),
      ttl = p ! 8, protocol = p ! 9, header_checksum = le16 (p ! 10) (p ! 11),
      src_ip = segment 12 4 p, dst_ip = segment 16 4 p\<rparr>"

definition write_Ipv4Header :: "Ipv4Header \<Rightarrow> bytes" where
  "write_Ipv4Header h =
     [version_ihl h, tos h] @ le16_bytes (total_length h) @ le16_bytes (identification h) @
     le16_bytes (flags_fragment h) @ [ttl h, protocol h] @ le16_bytes (header_checksum h) @
     src_ip h @ dst_ip h"

definition wf_Ipv4Header :: "Ipv4Header \<Rightarrow> bool" where
  "wf_Ipv4Header h \<longleftrightarrow> length (src_ip h) = 4 \<and> length (dst_ip h) = 4"

record IcmpEchoHeader =
  icmp_type :: u8
  icmp_code :: u8
  icmp_checksum :: u16
  icmp_identifier :: u16
  icmp_sequence :: u16

definition sizeof_IcmpEchoHeader :: nat where "sizeof_IcmpEchoHeader = 8"

definition read_IcmpEchoHeader :: "bytes \<Rightarrow> IcmpEchoHeader" where
  "read_IcmpEchoHeader p =
     \<lparr>icmp_type = p ! 0, icmp_code = p ! 1, icmp_checksum = le16 (p ! 2) (p ! 3),
      icmp_identifier = le16 (p ! 4) (p ! 5), icmp_sequence = le16 (p ! 6) (p ! 7)\<rparr>"

definition write_IcmpEchoHeader :: "IcmpEchoHeader \<Rightarrow> bytes" where
  "write_IcmpEchoHeader h =
     [icmp_type h, icmp_code h] @ le16_bytes (icmp_checksum h) @ le16_bytes (icmp_identifier h) @
     le16_bytes (icmp_sequence h)"

record UdpHeader =
  udp_src_port :: u16
  udp_dst_port :: u16
  udp_length :: u16
  udp_checksum :: u16

definition sizeof_UdpHeader :: nat where "sizeof_UdpHeader = 8"

definition read_UdpHeader :: "bytes \<Rightarrow> UdpHeader" where
  "read_UdpHeader p =
     \<lparr>udp_src_port = le16 (p ! 0) (p ! 1), udp_dst_port = le16 (p ! 2) (p ! 3),
      udp_length = le16 (p ! 4) (p ! 5), udp_checksum = le16 (p ! 6) (p ! 7)\<rparr>"

definition write_UdpHeader :: "UdpHeader \<Rightarrow> bytes" where
  "write_UdpHeader h =
     le16_bytes (udp_src_port h) @ le16_bytes (udp_dst_port h) @ le16_bytes (udp_length h) @
     le16_bytes (udp_checksum h)"

lemmas sizeof_defs =
  sizeof_EthernetHeader_def sizeof_ArpPacket_def sizeof_Ipv4Header_def
  sizeof_IcmpEchoHeader_def sizeof_UdpHeader_def

section \<open>What a layout promises\<close>

locale wire_format =
  fixes encode :: "'a \<Rightarrow> bytes"
    and decode :: "bytes \<Rightarrow> 'a"
    and wf :: "'a \<Rightarrow> bool"
    and width :: nat
  assumes length_encode: "wf x \<Longrightarrow> length (encode x) = width"
    and decode_encode: "wf x \<Longrightarrow> decode (encode x @ rest) = x"
    and encode_decode: "width \<le> length bs \<Longrightarrow> encode (decode bs) = take width bs"
    and wf_decode: "width \<le> length bs \<Longrightarrow> wf (decode bs)"
begin

lemma encode_inject: "wf x \<Longrightarrow> wf y \<Longrightarrow> encode x = encode y \<Longrightarrow> x = y"
  by (metis append_Nil2 decode_encode)

lemma decode_prefix:
  assumes "width \<le> length bs"
  shows "decode (bs @ rest) = decode bs"
proof -
  have "decode (encode (decode bs) @ drop width bs @ rest) = decode bs"
    by (rule decode_encode) (rule wf_decode [OF assms])
  moreover have "encode (decode bs) @ drop width bs @ rest = bs @ rest"
    using assms by (simp add: encode_decode)
  ultimately show ?thesis by simp
qed

lemma decode_roundtrip:
  assumes "width \<le> length bs"
  shows "encode (decode bs) @ drop width bs = bs"
  using assms by (simp add: encode_decode)

end

lemma take_as_nths:
  "n \<le> length bs \<Longrightarrow> take n bs = map (\<lambda>i. bs ! i) [0..<n]"
  by (rule nth_equalityI) simp_all

lemma segment_as_nths:
  "off + n \<le> length bs \<Longrightarrow> segment off n bs = map (\<lambda>i. bs ! (off + i)) [0..<n]"
  by (rule nth_equalityI) (simp_all add: segment_def)

interpretation ethernet: wire_format write_EthernetHeader read_EthernetHeader
  wf_EthernetHeader sizeof_EthernetHeader
proof
  fix x :: EthernetHeader and rest
  assume "wf_EthernetHeader x"
  then show "length (write_EthernetHeader x) = sizeof_EthernetHeader"
    and "read_EthernetHeader (write_EthernetHeader x @ rest) = x"
    by (auto simp: wf_EthernetHeader_def write_EthernetHeader_def read_EthernetHeader_def
        sizeof_EthernetHeader_def le16_bytes_def segment_def elim!: list6_cases)
next
  fix bs :: bytes
  assume "sizeof_EthernetHeader \<le> length bs"
  then show "write_EthernetHeader (read_EthernetHeader bs) = take sizeof_EthernetHeader bs"
    and "wf_EthernetHeader (read_EthernetHeader bs)"
    by (simp_all add: write_EthernetHeader_def read_EthernetHeader_def wf_EthernetHeader_def
        sizeof_EthernetHeader_def le16_bytes_def segment_as_nths take_as_nths upt_conv_Cons numeral_eq_Suc)
qed

interpretation arp: wire_format write_ArpPacket read_ArpPacket wf_ArpPacket sizeof_ArpPacket
proof
  fix x :: ArpPacket and rest
  assume "wf_ArpPacket x"
  then show "length (write_ArpPacket x) = sizeof_ArpPacket"
    and "read_ArpPacket (write_ArpPacket x @ rest) = x"
    by (auto simp: wf_ArpPacket_def write_ArpPacket_def read_ArpPacket_def
        sizeof_ArpPacket_def le16_bytes_def segment_def elim!: list6_cases list4_cases)
next
  fix bs :: bytes
  assume "sizeof_ArpPacket \<le> length bs"
  then show "write_ArpPacket (read_ArpPacket bs) = take sizeof_ArpPacket bs"
    and "wf_ArpPacket (read_ArpPacket bs)"
    by (simp_all add: write_ArpPacket_def read_ArpPacket_def wf_ArpPacket_def
        sizeof_ArpPacket_def le16_bytes_def segment_as_nths take_as_nths upt_conv_Cons numeral_eq_Suc)
qed

interpretation ipv4: wire_format write_Ipv4Header read_Ipv4Header wf_Ipv4Header sizeof_Ipv4Header
proof
  fix x :: Ipv4Header and rest
  assume "wf_Ipv4Header x"
  then show "length (write_Ipv4Header x) = sizeof_Ipv4Header"
    and "read_Ipv4Header (write_Ipv4Header x @ rest) = x"
    by (auto simp: wf_Ipv4Header_def write_Ipv4Header_def read_Ipv4Header_def
        sizeof_Ipv4Header_def le16_bytes_def segment_def elim!: list4_cases)
next
  fix bs :: bytes
  assume "sizeof_Ipv4Header \<le> length bs"
  then show "write_Ipv4Header (read_Ipv4Header bs) = take sizeof_Ipv4Header bs"
    and "wf_Ipv4Header (read_Ipv4Header bs)"
    by (simp_all add: write_Ipv4Header_def read_Ipv4Header_def wf_Ipv4Header_def
        sizeof_Ipv4Header_def le16_bytes_def segment_as_nths take_as_nths upt_conv_Cons numeral_eq_Suc)
qed

interpretation icmp: wire_format write_IcmpEchoHeader read_IcmpEchoHeader
  "\<lambda>_. True" sizeof_IcmpEchoHeader
proof
  fix x :: IcmpEchoHeader and rest
  show "length (write_IcmpEchoHeader x) = sizeof_IcmpEchoHeader"
    and "read_IcmpEchoHeader (write_IcmpEchoHeader x @ rest) = x"
    by (simp_all add: write_IcmpEchoHeader_def read_IcmpEchoHeader_def
        sizeof_IcmpEchoHeader_def le16_bytes_def)
next
  fix bs :: bytes
  assume "sizeof_IcmpEchoHeader \<le> length bs"
  then show "write_IcmpEchoHeader (read_IcmpEchoHeader bs) = take sizeof_IcmpEchoHeader bs"
    by (simp add: write_IcmpEchoHeader_def read_IcmpEchoHeader_def
        sizeof_IcmpEchoHeader_def le16_bytes_def take_as_nths upt_conv_Cons numeral_eq_Suc)
qed simp

interpretation udp: wire_format write_UdpHeader read_UdpHeader "\<lambda>_. True" sizeof_UdpHeader
proof
  fix x :: UdpHeader and rest
  show "length (write_UdpHeader x) = sizeof_UdpHeader"
    and "read_UdpHeader (write_UdpHeader x @ rest) = x"
    by (simp_all add: write_UdpHeader_def read_UdpHeader_def sizeof_UdpHeader_def le16_bytes_def)
next
  fix bs :: bytes
  assume "sizeof_UdpHeader \<le> length bs"
  then show "write_UdpHeader (read_UdpHeader bs) = take sizeof_UdpHeader bs"
    by (simp add: write_UdpHeader_def read_UdpHeader_def sizeof_UdpHeader_def le16_bytes_def
        take_as_nths upt_conv_Cons numeral_eq_Suc)
qed simp

section \<open>Checksums in headers\<close>

text \<open>
  A header whose checksum member was computed over the bytes with that member zero, and swapped
  into network order, checks out, whatever follows it (options or payload).
\<close>

lemma ipv4_checksum_filled:
  assumes "wf_Ipv4Header h" and "length rest \<le> 60000"
  shows "checksum16 (write_Ipv4Header
      (h\<lparr>header_checksum := bswap16 (checksum16 (write_Ipv4Header (h\<lparr>header_checksum := 0\<rparr>) @ rest))\<rparr>)
    @ rest) = 0"
proof -
  define pre where "pre = [version_ihl h, tos h] @ le16_bytes (total_length h) @
    le16_bytes (identification h) @ le16_bytes (flags_fragment h) @ [ttl h, protocol h]"
  define post where "post = src_ip h @ dst_ip h @ rest"
  have split: "write_Ipv4Header (h\<lparr>header_checksum := bswap16 c\<rparr>) @ rest = pre @ hi8 c # lo8 c # post" for c
    by (simp add: write_Ipv4Header_def pre_def post_def le16_bytes_def)
  have zero: "write_Ipv4Header (h\<lparr>header_checksum := 0\<rparr>) @ rest = pre @ 0 # 0 # post"
    using split [of 0] by (simp add: bswap16_def hi8_def lo8_def)
  have len: "even (length pre)" "length pre + length post \<le> 65534"
    using assms by (simp_all add: pre_def post_def wf_Ipv4Header_def)
  show ?thesis
    unfolding split zero by (rule checksum16_filled [OF len refl])
qed

lemma icmp_checksum_filled:
  assumes "length rest \<le> 60000"
  shows "checksum16 (write_IcmpEchoHeader
      (h\<lparr>icmp_checksum := bswap16 (checksum16 (write_IcmpEchoHeader (h\<lparr>icmp_checksum := 0\<rparr>) @ rest))\<rparr>)
    @ rest) = 0"
proof -
  define post where "post = le16_bytes (icmp_identifier h) @ le16_bytes (icmp_sequence h) @ rest"
  have split: "write_IcmpEchoHeader (h\<lparr>icmp_checksum := bswap16 c\<rparr>) @ rest =
      [icmp_type h, icmp_code h] @ hi8 c # lo8 c # post" for c
    by (simp add: write_IcmpEchoHeader_def post_def le16_bytes_def)
  have zero: "write_IcmpEchoHeader (h\<lparr>icmp_checksum := 0\<rparr>) @ rest = [icmp_type h, icmp_code h] @ 0 # 0 # post"
    using split [of 0] by (simp add: bswap16_def hi8_def lo8_def)
  have "length [icmp_type h, icmp_code h] + length post \<le> 65534"
    using assms by (simp add: post_def)
  then show ?thesis
    unfolding split zero by (intro checksum16_filled [OF _ _ refl]) simp_all
qed

section \<open>Properties\<close>

text \<open>
  Every packed structure round-trips: reading the bytes just written, whatever follows them,
  gives the structure back, and writing what was read from a long enough buffer reproduces its
  first bytes.
\<close>

theorem packet_roundtrip:
  assumes "wf_EthernetHeader e" and "wf_ArpPacket a" and "wf_Ipv4Header i"
    and "28 \<le> length bs"
  shows "read_EthernetHeader (write_EthernetHeader e @ rest) = e \<and>
    read_ArpPacket (write_ArpPacket a @ rest) = a \<and>
    read_Ipv4Header (write_Ipv4Header i @ rest) = i \<and>
    read_IcmpEchoHeader (write_IcmpEchoHeader c @ rest) = c \<and>
    read_UdpHeader (write_UdpHeader u @ rest) = u \<and>
    write_EthernetHeader (read_EthernetHeader bs) = take 14 bs \<and>
    write_ArpPacket (read_ArpPacket bs) = take 28 bs \<and>
    write_Ipv4Header (read_Ipv4Header bs) = take 20 bs \<and>
    write_IcmpEchoHeader (read_IcmpEchoHeader bs) = take 8 bs \<and>
    write_UdpHeader (read_UdpHeader bs) = take 8 bs"
  using assms ethernet.decode_encode arp.decode_encode ipv4.decode_encode icmp.decode_encode
    udp.decode_encode ethernet.encode_decode [of bs] arp.encode_decode [of bs]
    ipv4.encode_decode [of bs] icmp.encode_decode [of bs] udp.encode_decode [of bs]
  by (simp add: sizeof_defs)

theorem packet_roundtrip_witness:
  "write_ArpPacket (read_ArpPacket (replicate 28 7)) = replicate 28 7"
  using packet_roundtrip [of "\<lparr>eth_dst = replicate 6 0, eth_src = replicate 6 0, ether_type = 0\<rparr>"
      "read_ArpPacket (replicate 28 0)" "read_Ipv4Header (replicate 20 0)" "replicate 28 7"]
    arp.wf_decode [of "replicate 28 0"] ipv4.wf_decode [of "replicate 20 0"]
  by (simp add: wf_EthernetHeader_def sizeof_defs)

end
