(* ===== verification/Arp_Cache.thy ===== *)
theory Arp_Cache
  imports Prelude
begin

text \<open>
  The fixed-size ARP cache of \<^verbatim>\<open>arp_cache.cc\<close>: eight entries and a clock that stamps every
  insertion and every lookup hit. The public operations take \<open>g_arp_cache_lock\<close> for their whole
  body, so each is one atomic step. The lemmas show that the cache refines a finite map from IP
  to MAC addresses with room for eight entries and least-recently-used eviction; the locale
  \<open>resolver\<close> is the contract the IPv4 sender relies on.
\<close>

section \<open>State and operations\<close>

definition ARP_CACHE_CAPACITY :: nat where "ARP_CACHE_CAPACITY = 8"

record ArpEntry =
  arp_valid :: bool
  arp_ip :: bytes
  arp_mac :: bytes
  last_seen :: u64

record arp_cache =
  g_arp_cache :: "ArpEntry list"
  g_arp_cache_clock :: u64

text \<open>A value-initialised entry, \<open>ArpEntry{}\<close>.\<close>

definition empty_entry :: ArpEntry where
  "empty_entry = \<lparr>arp_valid = False, arp_ip = replicate 4 0, arp_mac = replicate 6 0, last_seen = 0\<rparr>"

definition bytes_equal :: "bytes \<Rightarrow> bytes \<Rightarrow> nat \<Rightarrow> bool" where
  "bytes_equal lhs rhs n \<longleftrightarrow> list_all (\<lambda>i. lhs ! i = rhs ! i) [0..<n]"

definition find_entry_locked :: "arp_cache \<Rightarrow> bytes \<Rightarrow> nat option" where
  "find_entry_locked c ip =
     find (\<lambda>i. arp_valid (g_arp_cache c ! i) \<and> bytes_equal (arp_ip (g_arp_cache c ! i)) ip 4)
       [0..<ARP_CACHE_CAPACITY]"

text \<open>The second loop of \<open>choose_insert_slot_locked\<close>: the first entry with the least stamp.\<close>

definition oldest_slot :: "arp_cache \<Rightarrow> nat" where
  "oldest_slot c =
     fold (\<lambda>i oldest. if last_seen (g_arp_cache c ! i) < last_seen (g_arp_cache c ! oldest)
                      then i else oldest)
       [1..<ARP_CACHE_CAPACITY] 0"

definition choose_insert_slot_locked :: "arp_cache \<Rightarrow> nat" where
  "choose_insert_slot_locked c =
     (case find (\<lambda>i. \<not> arp_valid (g_arp_cache c ! i)) [0..<ARP_CACHE_CAPACITY] of
        Some i \<Rightarrow> i
      | None \<Rightarrow> oldest_slot c)"

definition arp_cache_reset :: "arp_cache \<Rightarrow> arp_cache" where
  "arp_cache_reset c =
     \<lparr>g_arp_cache = fold (\<lambda>i es. es[i := empty_entry]) [0..<ARP_CACHE_CAPACITY] (g_arp_cache c),
      g_arp_cache_clock = 0\<rparr>"

definition arp_cache_insert :: "pointer \<Rightarrow> pointer \<Rightarrow> arp_cache \<Rightarrow> arp_cache" where
  "arp_cache_insert ip_ptr mac_ptr c =
     (case (ip_ptr, mac_ptr) of
        (Some ip, Some mac) \<Rightarrow>
          let slot = (case find_entry_locked c ip of
                        Some i \<Rightarrow> i
                      | None \<Rightarrow> choose_insert_slot_locked c);
              e = g_arp_cache c ! slot;
              clock = g_arp_cache_clock c + 1
          in \<lparr>g_arp_cache = (g_arp_cache c)[slot :=
                \<lparr>arp_valid = True, arp_ip = copy_bytes (arp_ip e) ip 4,
                 arp_mac = copy_bytes (arp_mac e) mac 6, last_seen = clock\<rparr>],
              g_arp_cache_clock = clock\<rparr>
      | _ \<Rightarrow> c)"

text \<open>
  The result of a lookup is the returned flag with the bytes written to \<open>mac_out\<close>: \<open>None\<close> is
  \<open>false\<close> with \<open>mac_out\<close> untouched.
\<close>

definition arp_cache_lookup :: "pointer \<Rightarrow> pointer \<Rightarrow> arp_cache \<Rightarrow> bytes option \<times> arp_cache" where
  "arp_cache_lookup ip_ptr mac_out c =
     (case (ip_ptr, mac_out) of
        (Some ip, Some out) \<Rightarrow>
          (case find_entry_locked c ip of
             None \<Rightarrow> (None, c)
           | Some slot \<Rightarrow>
               let e = g_arp_cache c ! slot;
                   clock = g_arp_cache_clock c + 1
               in (Some (copy_bytes out (arp_mac e) 6),
                   \<lparr>g_arp_cache = (g_arp_cache c)[slot := e\<lparr>last_seen := clock\<rparr>],
                    g_arp_cache_clock = clock\<rparr>))
      | _ \<Rightarrow> (None, c))"

definition arp_cache_snapshot :: "nat \<Rightarrow> ArpEntry option \<Rightarrow> arp_cache \<Rightarrow> ArpEntry option" where
  "arp_cache_snapshot index out c =
     (if out = None \<or> index \<ge> ARP_CACHE_CAPACITY then None else Some (g_arp_cache c ! index))"

section \<open>Invariants\<close>

definition wf_entry :: "ArpEntry \<Rightarrow> bool" where
  "wf_entry e \<longleftrightarrow> length (arp_ip e) = 4 \<and> length (arp_mac e) = 6"

text \<open>
  The structural invariant: eight well-formed entries, no IP address held by two valid ones.
\<close>

definition arp_inv :: "arp_cache \<Rightarrow> bool" where
  "arp_inv c \<longleftrightarrow>
     length (g_arp_cache c) = 8 \<and> (\<forall>e \<in> set (g_arp_cache c). wf_entry e) \<and>
     (\<forall>i < 8. \<forall>j < 8. i \<noteq> j \<longrightarrow> arp_valid (g_arp_cache c ! i) \<longrightarrow> arp_valid (g_arp_cache c ! j) \<longrightarrow>
        arp_ip (g_arp_cache c ! i) \<noteq> arp_ip (g_arp_cache c ! j))"

text \<open>The recency invariant: no stamp is ahead of the clock and valid entries have distinct stamps.\<close>

definition arp_recency :: "arp_cache \<Rightarrow> bool" where
  "arp_recency c \<longleftrightarrow>
     (\<forall>i < 8. last_seen (g_arp_cache c ! i) \<le> g_arp_cache_clock c) \<and>
     (\<forall>i < 8. \<forall>j < 8. i \<noteq> j \<longrightarrow> arp_valid (g_arp_cache c ! i) \<longrightarrow> arp_valid (g_arp_cache c ! j) \<longrightarrow>
        last_seen (g_arp_cache c ! i) \<noteq> last_seen (g_arp_cache c ! j))"

text \<open>The map the cache represents, and whether every entry is in use.\<close>

definition arp_map :: "arp_cache \<Rightarrow> bytes \<Rightarrow> bytes option" where
  "arp_map c ip = map_option (\<lambda>i. arp_mac (g_arp_cache c ! i)) (find_entry_locked c ip)"

definition arp_full :: "arp_cache \<Rightarrow> bool" where
  "arp_full c \<longleftrightarrow> list_all arp_valid (g_arp_cache c)"

lemma bytes_equal_iff:
  "length xs = n \<Longrightarrow> length ys = n \<Longrightarrow> bytes_equal xs ys n \<longleftrightarrow> xs = ys"
  by (auto simp: bytes_equal_def list_all_iff intro: nth_equalityI)

lemma arp_inv_wf: "arp_inv c \<Longrightarrow> i < 8 \<Longrightarrow> wf_entry (g_arp_cache c ! i)"
  by (simp add: arp_inv_def)

lemma arp_inv_len [simp]: "arp_inv c \<Longrightarrow> length (g_arp_cache c) = 8"
  by (simp add: arp_inv_def)

lemma arp_inv_unique:
  assumes "arp_inv c" and "i < 8" and "j < 8" and "i \<noteq> j"
    and "arp_valid (g_arp_cache c ! i)" and "arp_valid (g_arp_cache c ! j)"
  shows "arp_ip (g_arp_cache c ! i) \<noteq> arp_ip (g_arp_cache c ! j)"
  using assms by (simp add: arp_inv_def)

lemma arp_match_iff:
  assumes "arp_inv c" and "length ip = 4" and "i < 8"
  shows "bytes_equal (arp_ip (g_arp_cache c ! i)) ip 4 \<longleftrightarrow> arp_ip (g_arp_cache c ! i) = ip"
  using arp_inv_wf [OF assms(1,3)] assms(2) by (simp add: wf_entry_def bytes_equal_iff)

lemma find_entry_Some:
  assumes "arp_inv c" and "length ip = 4" and "find_entry_locked c ip = Some i"
  shows "i < 8" and "arp_valid (g_arp_cache c ! i)" and "arp_ip (g_arp_cache c ! i) = ip"
  using assms find_upt_SomeD [OF assms(3) [unfolded find_entry_locked_def]]
  by (auto simp: ARP_CACHE_CAPACITY_def arp_match_iff)

lemma find_entry_SomeI:
  assumes "arp_inv c" and "length ip = 4" and "i < 8"
    and "arp_valid (g_arp_cache c ! i)" and "arp_ip (g_arp_cache c ! i) = ip"
  shows "find_entry_locked c ip = Some i"
  unfolding find_entry_locked_def
  using assms arp_inv_unique [OF assms(1) _ assms(3)]
  by (intro find_upt_unique) (auto simp: ARP_CACHE_CAPACITY_def arp_match_iff)

lemma find_entry_None_iff:
  assumes "arp_inv c" and "length ip = 4"
  shows "find_entry_locked c ip = None \<longleftrightarrow>
    (\<forall>i < 8. arp_valid (g_arp_cache c ! i) \<longrightarrow> arp_ip (g_arp_cache c ! i) \<noteq> ip)"
  unfolding find_entry_locked_def
  using assms by (auto simp: find_upt_None_iff ARP_CACHE_CAPACITY_def arp_match_iff)

section \<open>Storing an entry\<close>

lemma arp_inv_store:
  assumes "arp_inv c" and "i < 8" and "wf_entry e"
    and fresh: "\<And>j. j < 8 \<Longrightarrow> j \<noteq> i \<Longrightarrow> arp_valid (g_arp_cache c ! j) \<Longrightarrow>
      arp_ip (g_arp_cache c ! j) \<noteq> arp_ip e"
  shows "arp_inv \<lparr>g_arp_cache = (g_arp_cache c)[i := e], g_arp_cache_clock = k\<rparr>"
proof -
  have "length (g_arp_cache c) = 8"
    using assms(1) by simp
  moreover have "\<forall>x \<in> set (g_arp_cache c). wf_entry x"
    using assms(1) by (simp add: arp_inv_def)
  then have "\<forall>x \<in> set ((g_arp_cache c)[i := e]). wf_entry x"
    using assms(3) set_update_subset_insert [of "g_arp_cache c" i e] by blast
  moreover have "arp_ip ((g_arp_cache c)[i := e] ! j) \<noteq> arp_ip ((g_arp_cache c)[i := e] ! k)"
    if "j < 8" "k < 8" "j \<noteq> k"
    and "arp_valid ((g_arp_cache c)[i := e] ! j)" "arp_valid ((g_arp_cache c)[i := e] ! k)" for j k
    using that assms(1,2) fresh [of j] fresh [of k] arp_inv_unique [of c j k]
    by (cases "j = i"; cases "k = i") (auto simp: nth_list_update)
  ultimately show ?thesis
    by (simp add: arp_inv_def)
qed

lemma arp_map_store:
  assumes inv: "arp_inv c" and inv': "arp_inv c'" and "i < 8" and "arp_valid e" and "length ip = 4"
    and c': "g_arp_cache c' = (g_arp_cache c)[i := e]"
  shows "arp_map c' ip =
    (if ip = arp_ip e then Some (arp_mac e)
     else if arp_valid (g_arp_cache c ! i) \<and> ip = arp_ip (g_arp_cache c ! i) then None
     else arp_map c ip)"
proof -
  have get: "g_arp_cache c' ! j = (if j = i then e else g_arp_cache c ! j)" if "j < 8" for j
    using that inv assms(3) by (simp add: c' nth_list_update)
  show ?thesis
  proof (cases "ip = arp_ip e")
    case True
    then have "find_entry_locked c' ip = Some i"
      using inv' assms(3-5) get by (intro find_entry_SomeI) auto
    with True get assms(3) show ?thesis by (simp add: arp_map_def)
  next
    case False
    show ?thesis
    proof (cases "find_entry_locked c ip")
      case None
      then have "find_entry_locked c' ip = None"
        unfolding find_entry_None_iff [OF inv assms(5)] find_entry_None_iff [OF inv' assms(5)]
        using False get by auto
      with None False show ?thesis by (simp add: arp_map_def)
    next
      case (Some j)
      note hit = find_entry_Some [OF inv assms(5) Some]
      show ?thesis
      proof (cases "j = i")
        case True
        have "find_entry_locked c' ip = None"
          unfolding find_entry_None_iff [OF inv' assms(5)]
          using hit True False get arp_inv_unique [OF inv _ hit(1)] by (auto split: if_splits)
        with hit True False show ?thesis by (simp add: arp_map_def)
      next
        case j: False
        have "find_entry_locked c' ip = Some j"
          using hit j get inv' assms(5) by (intro find_entry_SomeI) auto
        moreover have "\<not> (arp_valid (g_arp_cache c ! i) \<and> ip = arp_ip (g_arp_cache c ! i))"
          using hit j arp_inv_unique [OF inv hit(1) assms(3)] by auto
        ultimately show ?thesis
          using False Some j hit get by (simp add: arp_map_def)
      qed
    qed
  qed
qed

section \<open>Choosing a slot\<close>

lemma oldest_slot_least:
  "oldest_slot c < 8 \<and>
   (\<forall>j < 8. last_seen (g_arp_cache c ! oldest_slot c) \<le> last_seen (g_arp_cache c ! j))"
proof -
  have set8: "set (0 # [1..<8]) = {0..<8::nat}"
    by auto
  show ?thesis
    using fold_argmin [where xs = "[1..<8]" and m = 0 and f = "\<lambda>i. last_seen (g_arp_cache c ! i)"]
    unfolding set8 oldest_slot_def ARP_CACHE_CAPACITY_def by auto
qed

lemma choose_insert_slot:
  shows choose_insert_slot_lt: "choose_insert_slot_locked c < 8"
    and choose_insert_slot_free:
      "\<exists>i < 8. \<not> arp_valid (g_arp_cache c ! i) \<Longrightarrow>
         \<not> arp_valid (g_arp_cache c ! choose_insert_slot_locked c)"
    and choose_insert_slot_full:
      "\<forall>i < 8. arp_valid (g_arp_cache c ! i) \<Longrightarrow> choose_insert_slot_locked c = oldest_slot c"
  using oldest_slot_least [of c]
  by (auto simp: choose_insert_slot_locked_def ARP_CACHE_CAPACITY_def
      find_upt_None_iff dest: find_upt_SomeD split: option.split)

definition insert_slot :: "arp_cache \<Rightarrow> bytes \<Rightarrow> nat" where
  "insert_slot c ip =
     (case find_entry_locked c ip of Some i \<Rightarrow> i | None \<Rightarrow> choose_insert_slot_locked c)"

lemma insert_slot_facts:
  assumes "arp_inv c" and "length ip = 4"
  shows insert_slot_lt: "insert_slot c ip < 8"
    and insert_slot_fresh: "j < 8 \<Longrightarrow> j \<noteq> insert_slot c ip \<Longrightarrow> arp_valid (g_arp_cache c ! j) \<Longrightarrow>
      arp_ip (g_arp_cache c ! j) \<noteq> ip"
proof -
  show "insert_slot c ip < 8"
    using find_entry_Some(1) [OF assms] choose_insert_slot_lt [of c]
    by (auto simp: insert_slot_def split: option.split)
  show "arp_ip (g_arp_cache c ! j) \<noteq> ip"
    if "j < 8" "j \<noteq> insert_slot c ip" "arp_valid (g_arp_cache c ! j)"
    using that find_entry_SomeI [OF assms, of j] by (auto simp: insert_slot_def)
qed

lemma arp_cache_insert_store:
  assumes "arp_inv c" and "length ip = 4" and "length mac = 6"
  shows "arp_cache_insert (Some ip) (Some mac) c =
    \<lparr>g_arp_cache = (g_arp_cache c)[insert_slot c ip :=
        \<lparr>arp_valid = True, arp_ip = ip, arp_mac = mac, last_seen = g_arp_cache_clock c + 1\<rparr>],
     g_arp_cache_clock = g_arp_cache_clock c + 1\<rparr>"
  using arp_inv_wf [OF assms(1) insert_slot_lt [OF assms(1,2)]] assms(2,3)
  by (simp add: arp_cache_insert_def Let_def insert_slot_def [symmetric] wf_entry_def)

section \<open>Invariant and map of every operation\<close>

lemma arp_cache_insert_inv:
  assumes "arp_inv c" and "length ip = 4" and "length mac = 6"
  shows "arp_inv (arp_cache_insert (Some ip) (Some mac) c)"
  unfolding arp_cache_insert_store [OF assms]
  using assms insert_slot_facts [OF assms(1,2)]
  by (intro arp_inv_store) (auto simp: wf_entry_def)

lemma arp_cache_insert_null [simp]:
  "arp_cache_insert None q c = c" "arp_cache_insert p None c = c"
  by (auto simp: arp_cache_insert_def split: option.splits)

lemma arp_cache_insert_map:
  assumes "arp_inv c" and "length ip = 4" and "length mac = 6" and "length x = 4"
  shows "arp_map (arp_cache_insert (Some ip) (Some mac) c) x =
    (if x = ip then Some mac
     else if arp_valid (g_arp_cache c ! insert_slot c ip) \<and>
             x = arp_ip (g_arp_cache c ! insert_slot c ip) then None
     else arp_map c x)"
  using arp_map_store [OF assms(1) arp_cache_insert_inv [OF assms(1-3)]
      insert_slot_lt [OF assms(1,2)] _ assms(4)] arp_cache_insert_store [OF assms(1-3)]
  by simp

lemma arp_cache_lookup_hit:
  assumes "arp_inv c" and "length ip = 4" and "length out = 6"
    and "find_entry_locked c ip = Some i"
  shows "arp_cache_lookup (Some ip) (Some out) c =
    (Some (arp_mac (g_arp_cache c ! i)),
     \<lparr>g_arp_cache = (g_arp_cache c)[i := (g_arp_cache c ! i)\<lparr>last_seen := g_arp_cache_clock c + 1\<rparr>],
      g_arp_cache_clock = g_arp_cache_clock c + 1\<rparr>)"
  using arp_inv_wf [OF assms(1) find_entry_Some(1) [OF assms(1,2,4)]] assms(3,4)
  by (simp add: arp_cache_lookup_def Let_def wf_entry_def)

lemma arp_cache_lookup_result:
  assumes "arp_inv c" and "length ip = 4" and "length out = 6"
  shows "fst (arp_cache_lookup (Some ip) (Some out) c) = arp_map c ip"
proof (cases "find_entry_locked c ip")
  case None
  then show ?thesis by (simp add: arp_cache_lookup_def arp_map_def)
next
  case (Some i)
  then show ?thesis using arp_cache_lookup_hit [OF assms Some] by (simp add: arp_map_def)
qed

lemma arp_cache_lookup_inv:
  assumes "arp_inv c" and "length ip = 4" and "length out = 6"
  shows "arp_inv (snd (arp_cache_lookup (Some ip) (Some out) c))"
proof (cases "find_entry_locked c ip")
  case None
  then show ?thesis using assms(1) by (simp add: arp_cache_lookup_def)
next
  case (Some i)
  note hit = find_entry_Some [OF assms(1,2) Some]
  have "arp_inv \<lparr>g_arp_cache = (g_arp_cache c)[i := (g_arp_cache c ! i)\<lparr>last_seen := k\<rparr>],
      g_arp_cache_clock = k\<rparr>" for k
    using hit assms(1) arp_inv_wf [OF assms(1) hit(1)] arp_inv_unique [OF assms(1) _ hit(1)]
    by (intro arp_inv_store) (auto simp: wf_entry_def)
  then show ?thesis
    by (simp add: arp_cache_lookup_hit [OF assms Some])
qed

lemma arp_cache_lookup_map:
  assumes "arp_inv c" and "length ip = 4" and "length out = 6" and "length x = 4"
  shows "arp_map (snd (arp_cache_lookup (Some ip) (Some out) c)) x = arp_map c x"
proof (cases "find_entry_locked c ip")
  case None
  then show ?thesis by (simp add: arp_cache_lookup_def)
next
  case (Some i)
  note hit = find_entry_Some [OF assms(1,2) Some]
  have "arp_map (snd (arp_cache_lookup (Some ip) (Some out) c)) x =
    (if x = ip then Some (arp_mac (g_arp_cache c ! i)) else arp_map c x)"
    using arp_map_store [OF assms(1) arp_cache_lookup_inv [OF assms(1-3)] hit(1) _ assms(4)]
      arp_cache_lookup_hit [OF assms(1-3) Some] hit by simp
  with Some show ?thesis by (simp add: arp_map_def)
qed

lemma arp_cache_reset_eq:
  "length (g_arp_cache c) = 8 \<Longrightarrow>
   arp_cache_reset c = \<lparr>g_arp_cache = replicate 8 empty_entry, g_arp_cache_clock = 0\<rparr>"
  by (rule list8_cases [of "g_arp_cache c"])
    (simp_all add: arp_cache_reset_def ARP_CACHE_CAPACITY_def upt_conv_Cons numeral_eq_Suc)

lemma arp_reset_inv: "arp_inv \<lparr>g_arp_cache = replicate 8 empty_entry, g_arp_cache_clock = k\<rparr>"
  by (simp add: arp_inv_def wf_entry_def empty_entry_def)

lemma arp_reset_map:
  "length ip = 4 \<Longrightarrow> arp_map \<lparr>g_arp_cache = replicate 8 empty_entry, g_arp_cache_clock = k\<rparr> ip = None"
  using find_entry_None_iff [OF arp_reset_inv] by (simp add: arp_map_def empty_entry_def)

section \<open>Recency\<close>

lemma clock_tick:
  assumes "unat (k :: u64) + 1 < 2 ^ 64"
  shows "unat (k + 1) = unat k + 1"
  using assms by (simp add: unat_word_ariths)

lemma arp_recency_stamp:
  assumes "arp_recency c" and "length (g_arp_cache c) = 8" and "i < 8"
    and "unat (g_arp_cache_clock c) + 1 < 2 ^ 64"
    and "last_seen e = g_arp_cache_clock c + 1"
  shows "arp_recency \<lparr>g_arp_cache = (g_arp_cache c)[i := e],
    g_arp_cache_clock = g_arp_cache_clock c + 1\<rparr>"
proof -
  have older: "last_seen (g_arp_cache c ! j) < g_arp_cache_clock c + 1" if "j < 8" for j
    using assms(1,4) that clock_tick [OF assms(4)]
    by (auto simp: arp_recency_def word_le_nat_alt word_less_nat_alt)
  have fresh: "last_seen (g_arp_cache c ! j) \<noteq> last_seen e"
    "last_seen e \<noteq> last_seen (g_arp_cache c ! j)" if "j < 8" for j
    using older [OF that] assms(5) by auto
  show ?thesis
    using assms(1-3) assms(5) [symmetric] fresh less_imp_le [OF older]
    by (auto simp: arp_recency_def nth_list_update)
qed

lemma arp_cache_insert_recency:
  assumes "arp_inv c" and "arp_recency c" and "length ip = 4" and "length mac = 6"
    and "unat (g_arp_cache_clock c) + 1 < 2 ^ 64"
  shows "arp_recency (arp_cache_insert (Some ip) (Some mac) c)"
  unfolding arp_cache_insert_store [OF assms(1,3,4)]
  using assms insert_slot_lt [OF assms(1,3)] by (intro arp_recency_stamp) auto

lemma arp_cache_lookup_recency:
  assumes "arp_inv c" and "arp_recency c" and "length ip = 4" and "length out = 6"
    and "unat (g_arp_cache_clock c) + 1 < 2 ^ 64"
  shows "arp_recency (snd (arp_cache_lookup (Some ip) (Some out) c))"
proof (cases "find_entry_locked c ip")
  case None
  then show ?thesis using assms by (simp add: arp_cache_lookup_def)
next
  case (Some i)
  then show ?thesis
    using assms find_entry_Some(1) [OF assms(1,3) Some]
    by (simp add: arp_cache_lookup_hit [OF assms(1,3,4) Some] arp_recency_stamp)
qed

text \<open>
  The slots an insertion takes before slot \<open>i\<close>: free ones and ones seen longer ago.
\<close>

definition taken_before :: "arp_cache \<Rightarrow> nat \<Rightarrow> nat set" where
  "taken_before c i = {j. j < 8 \<and> j \<noteq> i \<and>
     (\<not> arp_valid (g_arp_cache c ! j) \<or> last_seen (g_arp_cache c ! j) < last_seen (g_arp_cache c ! i))}"

lemma finite_taken_before [simp]: "finite (taken_before c i)"
  by (simp add: taken_before_def)

lemma insert_slot_avoids:
  assumes "arp_inv c" and "length x = 4" and "i < 8"
    and "arp_valid (g_arp_cache c ! i)" and "arp_ip (g_arp_cache c ! i) \<noteq> x"
    and "taken_before c i \<noteq> {}"
  shows "insert_slot c x \<noteq> i"
proof (cases "find_entry_locked c x")
  case (Some j)
  then show ?thesis
    using find_entry_Some(3) [OF assms(1,2) Some] assms(5) by (auto simp: insert_slot_def)
next
  case None
  then have slot: "insert_slot c x = choose_insert_slot_locked c"
    by (simp add: insert_slot_def)
  show ?thesis
  proof (cases "\<exists>j < 8. \<not> arp_valid (g_arp_cache c ! j)")
    case True
    then show ?thesis
      using choose_insert_slot_free [OF True] assms(4) slot by auto
  next
    case False
    then have "insert_slot c x = oldest_slot c"
      using slot choose_insert_slot_full [of c] by simp
    moreover obtain j where "j < 8" "last_seen (g_arp_cache c ! j) < last_seen (g_arp_cache c ! i)"
      using assms(6) False by (auto simp: taken_before_def)
    moreover have "last_seen (g_arp_cache c ! oldest_slot c) \<le> last_seen (g_arp_cache c ! j)"
      using oldest_slot_least [of c] \<open>j < 8\<close> by blast
    ultimately show ?thesis by auto
  qed
qed

text \<open>Slot \<open>i\<close> holds the pair and outlives \<open>k\<close> further insertions.\<close>

definition sheltered :: "nat \<Rightarrow> nat \<Rightarrow> bytes \<Rightarrow> bytes \<Rightarrow> arp_cache \<Rightarrow> bool" where
  "sheltered k i ip mac c \<longleftrightarrow>
     arp_inv c \<and> i < 8 \<and> arp_valid (g_arp_cache c ! i) \<and> arp_ip (g_arp_cache c ! i) = ip \<and>
     arp_mac (g_arp_cache c ! i) = mac \<and> k \<le> card (taken_before c i)"

lemma sheltered_insert:
  assumes sh: "sheltered (Suc k) i ip mac c" and x: "length x = 4" "length m = 6" "x \<noteq> ip"
  shows "sheltered k i ip mac (arp_cache_insert (Some x) (Some m) c)"
proof -
  let ?c = "arp_cache_insert (Some x) (Some m) c" and ?s = "insert_slot c x"
  have inv: "arp_inv c" and i: "i < 8"
    using sh by (simp_all add: sheltered_def)
  have "taken_before c i \<noteq> {}"
    using sh by (auto simp: sheltered_def)
  then have s: "?s \<noteq> i" "?s < 8"
    using sh x insert_slot_avoids [of c x i] insert_slot_lt [of c x] by (auto simp: sheltered_def)
  have get: "g_arp_cache ?c ! j = g_arp_cache c ! j" if "j \<noteq> ?s" for j
    using that inv x by (simp add: arp_cache_insert_store)
  have "taken_before c i - {?s} \<subseteq> taken_before ?c i"
    using s get [of i] by (auto simp: taken_before_def get)
  then have "card (taken_before c i) - 1 \<le> card (taken_before ?c i)"
    by (rule card_minus_one_le [OF _ finite_taken_before])
  then show ?thesis
    using sh x s get [of i] arp_cache_insert_inv [OF inv x(1,2)] by (auto simp: sheltered_def)
qed

lemma sheltered_inserts:
  assumes "sheltered (length xs) i ip mac c"
    and "\<forall>(x, m) \<in> set xs. length x = 4 \<and> length m = 6 \<and> x \<noteq> ip"
  shows "sheltered 0 i ip mac (fold (\<lambda>(x, m). arp_cache_insert (Some x) (Some m)) xs c)"
  using assms by (induction xs arbitrary: c) (auto intro!: sheltered_insert)

lemma sheltered_after_insert:
  assumes "arp_inv c" and "arp_recency c" and "length ip = 4" and "length mac = 6"
    and "unat (g_arp_cache_clock c) + 1 < 2 ^ 64"
  shows "sheltered 7 (insert_slot c ip) ip mac (arp_cache_insert (Some ip) (Some mac) c)"
proof -
  let ?c = "arp_cache_insert (Some ip) (Some mac) c" and ?s = "insert_slot c ip"
  have s: "?s < 8" by (rule insert_slot_lt [OF assms(1,3)])
  have "j \<in> taken_before ?c ?s" if "j \<in> {0..<8} - {?s}" for j
    using that s assms clock_tick [OF assms(5)]
    by (auto simp: taken_before_def arp_cache_insert_store arp_recency_def
        word_le_nat_alt word_less_nat_alt)
  then have "{0..<8} - {?s} \<subseteq> taken_before ?c ?s"
    by (rule subsetI)
  then have "card ({0..<8} - {?s}) \<le> card (taken_before ?c ?s)"
    by (rule card_mono [OF finite_taken_before])
  then have "7 \<le> card (taken_before ?c ?s)"
    using s by simp
  then show ?thesis
    using assms s arp_cache_insert_inv [OF assms(1,3,4)]
    by (simp add: sheltered_def arp_cache_insert_store)
qed

lemma sheltered_map:
  assumes "sheltered k i ip mac c" and "length ip = 4"
  shows "arp_map c ip = Some mac"
  using assms find_entry_SomeI [of c ip i] by (simp add: sheltered_def arp_map_def)

section \<open>The contract of the IPv4 sender\<close>

locale resolver =
  fixes learn :: "bytes \<Rightarrow> bytes \<Rightarrow> 'c \<Rightarrow> 'c"
    and resolve :: "bytes \<Rightarrow> 'c \<Rightarrow> bytes option \<times> 'c"
    and invar :: "'c \<Rightarrow> bool"
    and binding :: "'c \<Rightarrow> bytes \<Rightarrow> bytes option"
  assumes learn_invar: "invar c \<Longrightarrow> length ip = 4 \<Longrightarrow> length mac = 6 \<Longrightarrow> invar (learn ip mac c)"
    and resolve_invar: "invar c \<Longrightarrow> length ip = 4 \<Longrightarrow> invar (snd (resolve ip c))"
    and learn_binding:
      "invar c \<Longrightarrow> length ip = 4 \<Longrightarrow> length mac = 6 \<Longrightarrow> binding (learn ip mac c) ip = Some mac"
    and resolve_result: "invar c \<Longrightarrow> length ip = 4 \<Longrightarrow> fst (resolve ip c) = binding c ip"
    and resolve_binding:
      "invar c \<Longrightarrow> length ip = 4 \<Longrightarrow> length x = 4 \<Longrightarrow> binding (snd (resolve ip c)) x = binding c x"
begin

lemma resolves_keep:
  assumes "invar c" and "\<forall>ip \<in> set ips. length ip = 4" and "length x = 4"
  shows "invar (fold (\<lambda>ip c. snd (resolve ip c)) ips c) \<and>
    binding (fold (\<lambda>ip c. snd (resolve ip c)) ips c) x = binding c x"
  using assms
  by (induction ips arbitrary: c) (auto simp: resolve_invar resolve_binding)

lemma resolve_after_learn:
  assumes "invar c" and "length ip = 4" and "length mac = 6" and "\<forall>x \<in> set ips. length x = 4"
  shows "fst (resolve ip (fold (\<lambda>ip c. snd (resolve ip c)) ips (learn ip mac c))) = Some mac"
  using assms resolves_keep [OF learn_invar [OF assms(1-3)] assms(4,2)]
  by (simp add: resolve_result learn_binding)

end

interpretation arp_resolver: resolver "\<lambda>ip mac. arp_cache_insert (Some ip) (Some mac)"
  "\<lambda>ip. arp_cache_lookup (Some ip) (Some (replicate 6 0))" arp_inv arp_map
  by unfold_locales
    (simp_all add: arp_cache_insert_inv arp_cache_insert_map arp_cache_lookup_inv
      arp_cache_lookup_result arp_cache_lookup_map)

section \<open>Properties\<close>

text \<open>
  C6. The cache refines a bounded map from IP to MAC addresses. Inserting keeps the invariant (no IP
  address is held twice), binds the address, and affects no other binding except that of the entry
  it replaces, which happens only when no entry is free; a lookup returns the binding, keeps the
  invariant and changes no binding.
\<close>

theorem arp_cache_refines_map:
  assumes "arp_inv c" and "length ip = 4" and "length mac = 6" and "length out = 6" and "length x = 4"
  shows "arp_inv (arp_cache_insert (Some ip) (Some mac) c) \<and>
    arp_map (arp_cache_insert (Some ip) (Some mac) c) ip = Some mac \<and>
    (x \<noteq> ip \<longrightarrow> \<not> arp_full c \<or> arp_map c ip \<noteq> None \<longrightarrow>
      arp_map (arp_cache_insert (Some ip) (Some mac) c) x = arp_map c x) \<and>
    fst (arp_cache_lookup (Some x) (Some out) c) = arp_map c x \<and>
    arp_inv (snd (arp_cache_lookup (Some ip) (Some out) c)) \<and>
    arp_map (snd (arp_cache_lookup (Some ip) (Some out) c)) x = arp_map c x"
proof -
  have "arp_map (arp_cache_insert (Some ip) (Some mac) c) x = arp_map c x"
    if "x \<noteq> ip" "\<not> arp_full c \<or> arp_map c ip \<noteq> None"
  proof -
    have "\<not> (arp_valid (g_arp_cache c ! insert_slot c ip) \<and>
        x = arp_ip (g_arp_cache c ! insert_slot c ip))"
    proof (cases "find_entry_locked c ip")
      case None
      then have "\<not> arp_full c"
        using that(2) by (simp add: arp_map_def)
      then have "\<exists>i < 8. \<not> arp_valid (g_arp_cache c ! i)"
        using assms(1) by (auto simp: arp_full_def list_all_length)
      then show ?thesis
        using None choose_insert_slot_free by (simp add: insert_slot_def)
    next
      case (Some i)
      then show ?thesis
        using that(1) find_entry_Some(3) [OF assms(1,2) Some] by (simp add: insert_slot_def)
    qed
    with that(1) show ?thesis
      using arp_cache_insert_map [OF assms(1-3,5)] by auto
  qed
  then show ?thesis
    using assms arp_cache_insert_inv arp_cache_insert_map [OF assms(1-3,2)] arp_cache_lookup_result
      arp_cache_lookup_inv arp_cache_lookup_map by simp
qed

theorem arp_cache_refines_map_witness:
  "arp_map (arp_cache_insert (Some [10, 0, 0, 2]) (Some [1, 2, 3, 4, 5, 6])
      \<lparr>g_arp_cache = replicate 8 empty_entry, g_arp_cache_clock = 0\<rparr>) [10, 0, 0, 2] =
    Some [1, 2, 3, 4, 5, 6]"
  using arp_cache_refines_map [OF arp_reset_inv, of "[10, 0, 0, 2]" "[1, 2, 3, 4, 5, 6]"
      "replicate 6 0" "[10, 0, 0, 2]" 0] by simp

text \<open>
  Least-recently-used eviction: a binding just inserted survives any seven further insertions
  of other addresses, whatever the cache held before, so a cache of eight entries never loses one
  of the last eight addresses it learnt.
\<close>

theorem arp_cache_survives_seven:
  assumes "arp_inv c" and "arp_recency c" and "unat (g_arp_cache_clock c) + 1 < 2 ^ 64"
    and "length ip = 4" and "length mac = 6"
    and "length xs \<le> 7" and "\<forall>(x, m) \<in> set xs. length x = 4 \<and> length m = 6 \<and> x \<noteq> ip"
  shows "arp_map (fold (\<lambda>(x, m). arp_cache_insert (Some x) (Some m)) xs
    (arp_cache_insert (Some ip) (Some mac) c)) ip = Some mac"
proof -
  have "sheltered (length xs) (insert_slot c ip) ip mac (arp_cache_insert (Some ip) (Some mac) c)"
    using sheltered_after_insert [OF assms(1,2,4,5,3)] assms(6) by (simp add: sheltered_def)
  then show ?thesis
    using assms(4,7) by (intro sheltered_map [OF sheltered_inserts])
qed

theorem arp_cache_survives_seven_witness:
  "arp_map (fold (\<lambda>(x, m). arp_cache_insert (Some x) (Some m))
      (map (\<lambda>k. ([10, 0, 1, k], replicate 6 k)) [1, 2, 3, 4, 5, 6, 7])
    (arp_cache_insert (Some [10, 0, 0, 2]) (Some (replicate 6 9))
      \<lparr>g_arp_cache = replicate 8 empty_entry, g_arp_cache_clock = 0\<rparr>)) [10, 0, 0, 2] =
    Some (replicate 6 9)"
  by (rule arp_cache_survives_seven [OF arp_reset_inv])
    (simp_all add: arp_recency_def empty_entry_def)

end
