(* ===== verification/Virtqueue.thy ===== *)
theory Virtqueue
  imports Prelude
begin

text \<open>
  The ring structures of \<^verbatim>\<open>virtio_net.h\<close> that the fake and the PCI backend share, and the
  arithmetic of free-running 16-bit ring indices: a position is the index modulo the queue size
  8, and because 8 divides 65536 positions stay consecutive when the index wraps.
\<close>

section \<open>Structures\<close>

definition VIRTIO_NET_QUEUE_SIZE :: nat where "VIRTIO_NET_QUEUE_SIZE = 8"
definition VIRTIO_NET_MAX_FRAME_SIZE :: nat where "VIRTIO_NET_MAX_FRAME_SIZE = 2048"
definition VIRTQ_DESC_F_NEXT :: u16 where "VIRTQ_DESC_F_NEXT = 1"
definition VIRTQ_DESC_F_WRITE :: u16 where "VIRTQ_DESC_F_WRITE = 2"

record VirtioNetDescriptor =
  desc_addr :: u64
  desc_len :: u32
  desc_flags :: u16
  desc_next :: u16

record VirtioNetAvailRing =
  avail_flags :: u16
  avail_idx :: u16
  avail_ring :: "u16 list"

record VirtioNetUsedElem =
  used_id :: u32
  used_len :: u32

record VirtioNetUsedRing =
  used_flags :: u16
  used_idx :: u16
  used_ring :: "VirtioNetUsedElem list"

text \<open>The value-initialised structures, \<open>T{}\<close>.\<close>

definition zero_desc :: VirtioNetDescriptor where
  "zero_desc = \<lparr>desc_addr = 0, desc_len = 0, desc_flags = 0, desc_next = 0\<rparr>"

definition zero_avail :: VirtioNetAvailRing where
  "zero_avail = \<lparr>avail_flags = 0, avail_idx = 0, avail_ring = replicate VIRTIO_NET_QUEUE_SIZE 0\<rparr>"

definition zero_used_elem :: VirtioNetUsedElem where
  "zero_used_elem = \<lparr>used_id = 0, used_len = 0\<rparr>"

definition zero_used :: VirtioNetUsedRing where
  "zero_used =
     \<lparr>used_flags = 0, used_idx = 0, used_ring = replicate VIRTIO_NET_QUEUE_SIZE zero_used_elem\<rparr>"

text \<open>
  Publishing a descriptor: \<open>avail.ring[avail.idx % 8] = slot; ++avail.idx;\<close> and completing one:
  \<open>used.ring[used.idx % 8] = {slot, len}; ++used.idx;\<close>.
\<close>

definition ring_pos :: "u16 \<Rightarrow> nat" where
  "ring_pos idx = unat idx mod VIRTIO_NET_QUEUE_SIZE"

definition push_avail :: "u16 \<Rightarrow> VirtioNetAvailRing \<Rightarrow> VirtioNetAvailRing" where
  "push_avail slot r =
     r\<lparr>avail_ring := (avail_ring r)[ring_pos (avail_idx r) := slot], avail_idx := avail_idx r + 1\<rparr>"

definition push_used :: "u32 \<Rightarrow> u32 \<Rightarrow> VirtioNetUsedRing \<Rightarrow> VirtioNetUsedRing" where
  "push_used slot n r =
     r\<lparr>used_ring := (used_ring r)[ring_pos (used_idx r) := \<lparr>used_id = slot, used_len = n\<rparr>],
       used_idx := used_idx r + 1\<rparr>"

text \<open>\<open>next_index\<close>: one position further in the circular queue.\<close>

definition next_index :: "u16 \<Rightarrow> u16" where
  "next_index idx = word_of_nat ((unat idx + 1) mod VIRTIO_NET_QUEUE_SIZE)"

section \<open>Free-running indices\<close>

text \<open>The entry \<open>j\<close> places after index \<open>c\<close>, and how many entries lie between two indices.\<close>

definition ring_at :: "'a list \<Rightarrow> u16 \<Rightarrow> nat \<Rightarrow> 'a" where
  "ring_at xs c j = xs ! ((unat c + j) mod 8)"

definition in_ring :: "u16 \<Rightarrow> u16 \<Rightarrow> nat" where
  "in_ring idx c = unat (idx - c)"

lemma unat_add_mod8: "unat (c + word_of_nat j :: u16) mod 8 = (unat c + j) mod 8"
proof -
  have "unat (c + word_of_nat j :: u16) = (unat c + j) mod 65536"
    by (simp add: unat_word_ariths unat_of_nat mod_simps)
  then show ?thesis
    by (simp add: mod_mod_cancel)
qed

lemma ring_pos_eq: "ring_pos c = unat c mod 8"
  by (simp add: ring_pos_def VIRTIO_NET_QUEUE_SIZE_def)

lemma ring_pos_lt [simp]: "ring_pos c < 8"
  by (simp add: ring_pos_eq)

lemma ring_at_0: "ring_at xs c 0 = xs ! ring_pos c"
  by (simp add: ring_at_def ring_pos_eq)

lemma ring_at_Suc: "ring_at xs (c + 1) j = ring_at xs c (Suc j)"
proof -
  have "(unat (c + 1) + j) mod 8 = (unat (c + 1) mod 8 + j) mod 8"
    by (simp add: mod_simps)
  also have "\<dots> = (unat c + Suc j) mod 8"
    using unat_add_mod8 [of c 1] by (simp add: mod_simps)
  finally show ?thesis
    by (simp add: ring_at_def)
qed

lemma idx_as_offset: "idx = c + word_of_nat (in_ring idx c)"
  by (simp add: in_ring_def)

lemma mod8_offset_neq: "j < k \<Longrightarrow> k < 8 \<Longrightarrow> (a + j) mod 8 \<noteq> (a + k) mod (8::nat)"
  using mod_eq_dvd_iff_nat [of "a + j" "a + k" 8] by (auto dest!: dvd_imp_le)

lemma ring_at_push:
  assumes "length xs = 8" and "in_ring idx c < 8" and "j \<le> in_ring idx c"
  shows "ring_at (xs[ring_pos idx := v]) c j = (if j = in_ring idx c then v else ring_at xs c j)"
proof -
  have pos: "ring_pos idx = (unat c + in_ring idx c) mod 8"
    unfolding ring_pos_eq by (subst idx_as_offset [of idx c]) (rule unat_add_mod8)
  show ?thesis
  proof (cases "j = in_ring idx c")
    case True
    then show ?thesis using assms by (simp add: ring_at_def pos)
  next
    case False
    then have "(unat c + j) mod 8 \<noteq> (unat c + in_ring idx c) mod 8"
      using assms by (intro mod8_offset_neq) auto
    then show ?thesis using False by (simp add: ring_at_def pos)
  qed
qed

lemma in_ring_push: "in_ring idx c < 65535 \<Longrightarrow> in_ring (idx + 1) c = Suc (in_ring idx c)"
proof -
  assume "in_ring idx c < 65535"
  then have "unat ((idx - c) + 1) = unat (idx - c) + 1"
    by (simp add: in_ring_def unat_word_ariths)
  then show ?thesis
    by (simp add: in_ring_def algebra_simps)
qed

lemma in_ring_pop: "idx \<noteq> c \<Longrightarrow> Suc (in_ring idx (c + 1)) = in_ring idx c"
proof -
  assume "idx \<noteq> c"
  then have "0 < unat (idx - c)"
    by (simp add: unat_gt_0)
  then have "unat (idx - c - 1) = unat (idx - c) - 1"
    by (intro unat_minus_one) auto
  with \<open>0 < unat (idx - c)\<close> show ?thesis
    by (simp add: in_ring_def diff_diff_eq)
qed

lemma in_ring_0_iff: "in_ring idx c = 0 \<longleftrightarrow> idx = c"
  by (auto simp: in_ring_def unat_eq_zero)

text \<open>The slot a completion names, as the code reads it: \<open>uint16_t(elem.id)\<close>.\<close>

definition elem_slot :: "VirtioNetUsedElem \<Rightarrow> nat" where
  "elem_slot e = unat (ucast (used_id e) :: u16)"

lemma elem_slot_new [simp]: "i < 8 \<Longrightarrow> elem_slot \<lparr>used_id = word_of_nat i, used_len = m\<rparr> = i"
  by (simp add: elem_slot_def unsigned_ucast_eq unat_of_nat take_bit_nat_eq_self)

end
