(* ===== verification/Virtio_Fake.thy ===== *)
theory Virtio_Fake
  imports Virtqueue
begin

text \<open>
  The driver state \<open>g_net\<close> of \<^verbatim>\<open>virtio_net.cc\<close> and the operations of the fake backend on it: ring
  reset, slot search, completion and reclaim of transmissions, injection of received frames.
  All of them run with \<open>g_net.lock\<close> held. The receive side refines a bounded FIFO queue of
  frames (locale \<open>frame_queue\<close>); the transmit side is idle between calls.
\<close>

section \<open>State\<close>

datatype BackendKind = Backend_None | Backend_Fake | Backend_Virtio

record FrameSlot =
  slot_data :: bytes
  slot_len :: u16
  occupied :: bool

text \<open>
  \<open>tx_slot_addr\<close> and \<open>rx_slot_addr\<close> are the addresses of the slots' data arrays, which the
  descriptors publish; the linker fixes them and no operation changes them.
\<close>

record NetState =
  backend :: BackendKind
  tx_desc :: "VirtioNetDescriptor list"
  rx_desc :: "VirtioNetDescriptor list"
  tx_avail :: VirtioNetAvailRing
  rx_avail :: VirtioNetAvailRing
  tx_used :: VirtioNetUsedRing
  rx_used :: VirtioNetUsedRing
  tx_slots :: "FrameSlot list"
  rx_slots :: "FrameSlot list"
  tx_next_probe :: u16
  tx_used_consume :: u16
  tx_pending :: u16
  rx_next_probe :: u16
  rx_used_consume :: u16
  rx_ready :: u16
  last_fake_tx :: bytes
  last_fake_tx_len :: u16
  last_fake_tx_valid :: bool
  tx_slot_addr :: "u64 list"
  rx_slot_addr :: "u64 list"

section \<open>Operations\<close>

definition reset_slot :: "FrameSlot \<Rightarrow> FrameSlot" where
  "reset_slot s = s\<lparr>slot_len := 0, occupied := False\<rparr>"

text \<open>The body of the loop of \<open>reset_rings_locked\<close>.\<close>

definition reset_ring_entry :: "nat \<Rightarrow> NetState \<Rightarrow> NetState" where
  "reset_ring_entry i s =
     s\<lparr>tx_slots := (tx_slots s)[i := reset_slot (tx_slots s ! i)],
       rx_slots := (rx_slots s)[i := reset_slot (rx_slots s ! i)],
       tx_desc := (tx_desc s)[i :=
         \<lparr>desc_addr = tx_slot_addr s ! i, desc_len = 0, desc_flags = 0, desc_next = 0\<rparr>],
       rx_desc := (rx_desc s)[i :=
         \<lparr>desc_addr = rx_slot_addr s ! i, desc_len = word_of_nat VIRTIO_NET_MAX_FRAME_SIZE,
          desc_flags = VIRTQ_DESC_F_WRITE, desc_next = 0\<rparr>],
       rx_avail := (rx_avail s)\<lparr>avail_ring := (avail_ring (rx_avail s))[i := word_of_nat i]\<rparr>\<rparr>"

definition reset_rings_locked :: "NetState \<Rightarrow> NetState" where
  "reset_rings_locked s =
     (let s1 = s\<lparr>tx_avail := zero_avail, rx_avail := zero_avail, tx_used := zero_used,
                 rx_used := zero_used, tx_next_probe := 0, tx_used_consume := 0, tx_pending := 0,
                 rx_next_probe := 0, rx_used_consume := 0, rx_ready := 0, last_fake_tx_len := 0,
                 last_fake_tx_valid := False\<rparr>;
          s2 = fold reset_ring_entry [0..<VIRTIO_NET_QUEUE_SIZE] s1
      in s2\<lparr>rx_avail := (rx_avail s2)\<lparr>avail_idx := word_of_nat VIRTIO_NET_QUEUE_SIZE\<rparr>\<rparr>)"

text \<open>The scan both slot searches make, from the probe position around the ring.\<close>

definition probe_slots :: "FrameSlot list \<Rightarrow> u16 \<Rightarrow> nat option" where
  "probe_slots slots start =
     map_option (\<lambda>scanned. (unat start + scanned) mod VIRTIO_NET_QUEUE_SIZE)
       (find (\<lambda>scanned. \<not> occupied (slots ! ((unat start + scanned) mod VIRTIO_NET_QUEUE_SIZE)))
         [0..<VIRTIO_NET_QUEUE_SIZE])"

definition find_free_tx_slot_locked :: "NetState \<Rightarrow> nat option \<times> NetState" where
  "find_free_tx_slot_locked s =
     (if unat (tx_pending s) \<ge> VIRTIO_NET_QUEUE_SIZE then (None, s)
      else case probe_slots (tx_slots s) (tx_next_probe s) of
             None \<Rightarrow> (None, s)
           | Some slot \<Rightarrow> (Some slot, s\<lparr>tx_next_probe := next_index (word_of_nat slot)\<rparr>))"

definition find_free_rx_slot_locked :: "NetState \<Rightarrow> nat option \<times> NetState" where
  "find_free_rx_slot_locked s =
     (if unat (rx_ready s) \<ge> VIRTIO_NET_QUEUE_SIZE then (None, s)
      else case probe_slots (rx_slots s) (rx_next_probe s) of
             None \<Rightarrow> (None, s)
           | Some slot \<Rightarrow> (Some slot, s\<lparr>rx_next_probe := next_index (word_of_nat slot)\<rparr>))"

text \<open>One iteration of \<open>reclaim_tx_locked\<close>, and the loop.\<close>

definition reclaim_tx_entry :: "NetState \<Rightarrow> NetState" where
  "reclaim_tx_entry s =
     (let slot = unat (ucast (used_id (used_ring (tx_used s) ! ring_pos (tx_used_consume s))) :: u16);
          s1 = (if slot < VIRTIO_NET_QUEUE_SIZE \<and> occupied (tx_slots s ! slot)
                then s\<lparr>tx_slots := (tx_slots s)[slot := reset_slot (tx_slots s ! slot)],
                       tx_desc := (tx_desc s)[slot := (tx_desc s ! slot)\<lparr>desc_len := 0\<rparr>],
                       tx_pending := (if tx_pending s > 0 then tx_pending s - 1 else tx_pending s)\<rparr>
                else s)
      in s1\<lparr>tx_used_consume := tx_used_consume s1 + 1\<rparr>)"

lemma reclaim_tx_entry_fields [simp]:
  "tx_used (reclaim_tx_entry s) = tx_used s"
  "tx_used_consume (reclaim_tx_entry s) = tx_used_consume s + 1"
  by (simp_all add: reclaim_tx_entry_def Let_def)

function reclaim_tx_locked :: "NetState \<Rightarrow> NetState" where
  "reclaim_tx_locked s =
     (if tx_used_consume s \<noteq> used_idx (tx_used s) then reclaim_tx_locked (reclaim_tx_entry s) else s)"
  by pat_completeness auto
termination
proof (relation "measure (\<lambda>s. in_ring (used_idx (tx_used s)) (tx_used_consume s))")
  fix s :: NetState
  assume "tx_used_consume s \<noteq> used_idx (tx_used s)"
  then show "(reclaim_tx_entry s, s) \<in>
      measure (\<lambda>s. in_ring (used_idx (tx_used s)) (tx_used_consume s))"
    using in_ring_pop [of "used_idx (tx_used s)" "tx_used_consume s"] by simp
qed simp

declare reclaim_tx_locked.simps [simp del]

definition complete_tx_locked :: "nat \<Rightarrow> nat \<Rightarrow> NetState \<Rightarrow> NetState" where
  "complete_tx_locked slot n s =
     s\<lparr>tx_used := push_used (word_of_nat slot) (word_of_nat n) (tx_used s)\<rparr>"

text \<open>
  The part of \<open>net_send_raw\<close> that fills a slot and publishes it, the part of \<open>net_recv_raw\<close> that
  recycles a consumed slot, and the part of \<open>net_fake_inject_rx\<close> that fills a slot and completes it.
\<close>

definition enqueue_tx :: "nat \<Rightarrow> bytes \<Rightarrow> nat \<Rightarrow> NetState \<Rightarrow> NetState" where
  "enqueue_tx slot data n s =
     s\<lparr>tx_slots := (tx_slots s)[slot :=
         \<lparr>slot_data = copy_bytes (slot_data (tx_slots s ! slot)) data n,
          slot_len = word_of_nat n, occupied = True\<rparr>],
       tx_desc := (tx_desc s)[slot :=
         \<lparr>desc_addr = tx_slot_addr s ! slot, desc_len = word_of_nat n, desc_flags = 0, desc_next = 0\<rparr>],
       tx_avail := push_avail (word_of_nat slot) (tx_avail s),
       tx_pending := tx_pending s + 1\<rparr>"

definition recycle_rx :: "nat \<Rightarrow> NetState \<Rightarrow> NetState" where
  "recycle_rx slot s =
     s\<lparr>rx_used_consume := rx_used_consume s + 1,
       rx_ready := (if rx_ready s > 0 then rx_ready s - 1 else rx_ready s),
       rx_avail := push_avail (word_of_nat slot) (rx_avail s),
       rx_slots := (rx_slots s)[slot := reset_slot (rx_slots s ! slot)],
       rx_desc := (rx_desc s)[slot :=
         \<lparr>desc_addr = rx_slot_addr s ! slot, desc_len = word_of_nat VIRTIO_NET_MAX_FRAME_SIZE,
          desc_flags = VIRTQ_DESC_F_WRITE, desc_next = 0\<rparr>]\<rparr>"

definition fill_rx :: "nat \<Rightarrow> bytes \<Rightarrow> nat \<Rightarrow> NetState \<Rightarrow> NetState" where
  "fill_rx slot data n s =
     s\<lparr>rx_slots := (rx_slots s)[slot :=
         \<lparr>slot_data = copy_bytes (slot_data (rx_slots s ! slot)) data n,
          slot_len = word_of_nat n, occupied = True\<rparr>],
       rx_desc := (rx_desc s)[slot :=
         \<lparr>desc_addr = rx_slot_addr s ! slot, desc_len = word_of_nat n,
          desc_flags = VIRTQ_DESC_F_WRITE, desc_next = 0\<rparr>],
       rx_used := push_used (word_of_nat slot) (word_of_nat n) (rx_used s),
       rx_ready := rx_ready s + 1\<rparr>"

definition net_fake_inject_rx :: "pointer \<Rightarrow> nat \<Rightarrow> NetState \<Rightarrow> bool \<times> NetState" where
  "net_fake_inject_rx ptr n s =
     (case ptr of
        None \<Rightarrow> (False, s)
      | Some data \<Rightarrow>
          if n = 0 \<or> n > VIRTIO_NET_MAX_FRAME_SIZE then (False, s)
          else if backend s \<noteq> Backend_Fake then (False, s)
          else (case find_free_rx_slot_locked s of
                  (None, s1) \<Rightarrow> (False, s1)
                | (Some slot, s1) \<Rightarrow>
                    (True, fill_rx slot data n s1)))"

definition net_copy_last_tx_for_test :: "pointer \<Rightarrow> nat option \<Rightarrow> NetState \<Rightarrow> (bytes \<times> nat) option" where
  "net_copy_last_tx_for_test out len_in_out s =
     (case (out, len_in_out) of
        (Some buf, Some n) \<Rightarrow>
          if \<not> last_fake_tx_valid s \<or> n < unat (last_fake_tx_len s) then None
          else Some (copy_bytes buf (last_fake_tx s) (unat (last_fake_tx_len s)),
                     unat (last_fake_tx_len s))
      | _ \<Rightarrow> None)"

section \<open>The receive ring as a queue of frames\<close>

definition rx_count :: "NetState \<Rightarrow> nat" where
  "rx_count s = in_ring (used_idx (rx_used s)) (rx_used_consume s)"

definition rx_elem :: "NetState \<Rightarrow> nat \<Rightarrow> VirtioNetUsedElem" where
  "rx_elem s j = ring_at (used_ring (rx_used s)) (rx_used_consume s) j"

definition elem_frame :: "NetState \<Rightarrow> VirtioNetUsedElem \<Rightarrow> bytes" where
  "elem_frame s e = take (unat (used_len e)) (slot_data (rx_slots s ! elem_slot e))"

definition rx_frames :: "NetState \<Rightarrow> bytes list" where
  "rx_frames s = map (\<lambda>j. elem_frame s (rx_elem s j)) [0..<rx_count s]"

definition wf_slots :: "FrameSlot list \<Rightarrow> bool" where
  "wf_slots xs \<longleftrightarrow> length xs = 8 \<and> (\<forall>i < 8. length (slot_data (xs ! i)) = 2048)"

text \<open>
  The ring holds at most eight completions, \<open>rx_ready\<close> counts them, they name distinct slots, and
  exactly the named slots are occupied.
\<close>

definition rx_inv :: "NetState \<Rightarrow> bool" where
  "rx_inv s \<longleftrightarrow>
     wf_slots (rx_slots s) \<and> length (used_ring (rx_used s)) = 8 \<and> length (rx_desc s) = 8 \<and>
     rx_count s \<le> 8 \<and> unat (rx_ready s) = rx_count s \<and>
     (\<forall>j < rx_count s. elem_slot (rx_elem s j) < 8 \<and> 0 < unat (used_len (rx_elem s j)) \<and>
        unat (used_len (rx_elem s j)) \<le> 2048) \<and>
     inj_on (\<lambda>j. elem_slot (rx_elem s j)) {0..<rx_count s} \<and>
     (\<forall>i < 8. occupied (rx_slots s ! i) \<longleftrightarrow> (\<exists>j < rx_count s. elem_slot (rx_elem s j) = i))"

lemma length_rx_frames [simp]: "length (rx_frames s) = rx_count s"
  by (simp add: rx_frames_def)

lemma rx_inv_slot_lt: "rx_inv s \<Longrightarrow> j < rx_count s \<Longrightarrow> elem_slot (rx_elem s j) < 8"
  by (simp add: rx_inv_def)

lemma probe_slots_Some:
  assumes "probe_slots xs st = Some i"
  shows "i < 8 \<and> \<not> occupied (xs ! i)"
  using assms
  by (auto simp: probe_slots_def VIRTIO_NET_QUEUE_SIZE_def dest: find_upt_SomeD)

lemma probe_slots_free:
  assumes "i < 8" and "\<not> occupied (xs ! i)"
  shows "\<exists>k. probe_slots xs st = Some k"
proof -
  define d where "d = (i + 8 - unat st mod 8) mod 8"
  have "(unat st + d) mod 8 = (unat st mod 8 + (i + 8 - unat st mod 8)) mod 8"
    unfolding d_def by (metis mod_add_eq mod_mod_trivial)
  also have "\<dots> = i"
    using assms(1) mod_less_divisor [of 8 "unat st"] by simp
  finally have "(unat st + d) mod 8 = i" .
  moreover have "d < 8"
    by (simp add: d_def)
  ultimately have "find (\<lambda>k. \<not> occupied (xs ! ((unat st + k) mod 8))) [0..<8] \<noteq> None"
    using assms(2) unfolding find_upt_None_iff by auto
  then show ?thesis
    by (auto simp: probe_slots_def VIRTIO_NET_QUEUE_SIZE_def)
qed

lemma rx_inv_free_slot:
  assumes "rx_inv s" and "rx_count s < 8"
  shows "\<exists>i < 8. \<not> occupied (rx_slots s ! i)"
proof (rule ccontr)
  assume "\<not> ?thesis"
  then have "{0..<8} \<subseteq> (\<lambda>j. elem_slot (rx_elem s j)) ` {0..<rx_count s}"
    using assms(1) by (fastforce simp: rx_inv_def)
  then have "card {0..<8::nat} \<le> card {0..<rx_count s}"
    by (meson card_image_le card_mono finite_atLeastLessThan finite_imageI le_trans)
  with assms(2) show False by simp
qed

lemma find_free_rx_slot:
  assumes "rx_inv s"
  shows find_free_rx_slot_room: "rx_count s < 8 \<Longrightarrow> \<exists>i p. find_free_rx_slot_locked s =
      (Some i, s\<lparr>rx_next_probe := p\<rparr>) \<and> i < 8 \<and> \<not> occupied (rx_slots s ! i)"
    and find_free_rx_slot_full: "rx_count s = 8 \<Longrightarrow> find_free_rx_slot_locked s = (None, s)"
proof -
  have ready: "unat (rx_ready s) = rx_count s"
    using assms by (simp add: rx_inv_def)
  show "\<exists>i p. find_free_rx_slot_locked s = (Some i, s\<lparr>rx_next_probe := p\<rparr>) \<and> i < 8 \<and>
      \<not> occupied (rx_slots s ! i)" if room: "rx_count s < 8"
  proof -
    obtain i where "i < 8" "\<not> occupied (rx_slots s ! i)"
      using rx_inv_free_slot [OF assms room] by auto
    then obtain k where "probe_slots (rx_slots s) (rx_next_probe s) = Some k"
      using probe_slots_free by blast
    then show ?thesis
      using room ready probe_slots_Some
      by (auto simp: find_free_rx_slot_locked_def VIRTIO_NET_QUEUE_SIZE_def)
  qed
  show "find_free_rx_slot_locked s = (None, s)" if "rx_count s = 8"
    using that ready by (simp add: find_free_rx_slot_locked_def VIRTIO_NET_QUEUE_SIZE_def)
qed

lemma inject_room:
  assumes "rx_inv s" and "rx_count s < 8" and "backend s = Backend_Fake" and "0 < n" and "n \<le> 2048"
  shows "\<exists>i p. net_fake_inject_rx (Some data) n s = (True, fill_rx i data n (s\<lparr>rx_next_probe := p\<rparr>)) \<and>
    i < 8 \<and> \<not> occupied (rx_slots s ! i)"
  using find_free_rx_slot_room [OF assms(1,2)] assms(3-5)
  by (fastforce simp: net_fake_inject_rx_def VIRTIO_NET_MAX_FRAME_SIZE_def)

lemma inject_full:
  assumes "rx_inv s" and "rx_count s = 8"
  shows "net_fake_inject_rx ptr n s = (False, s)"
  using find_free_rx_slot_full [OF assms]
  by (simp add: net_fake_inject_rx_def split: option.split)

lemma rx_probe_irrelevant [simp]:
  "rx_count (s\<lparr>rx_next_probe := p\<rparr>) = rx_count s"
  "rx_frames (s\<lparr>rx_next_probe := p\<rparr>) = rx_frames s"
  "rx_inv (s\<lparr>rx_next_probe := p\<rparr>) = rx_inv s"
  by (simp_all add: rx_count_def rx_frames_def rx_inv_def rx_elem_def elem_frame_def)

lemma rx_count_fill:
  assumes "rx_count s < 8"
  shows "rx_count (fill_rx i data n s) = Suc (rx_count s)"
  using assms in_ring_push [of "used_idx (rx_used s)" "rx_used_consume s"]
  by (simp add: rx_count_def fill_rx_def push_used_def)

lemma rx_elem_fill:
  assumes "rx_inv s" and "rx_count s < 8" and "j \<le> rx_count s"
  shows "rx_elem (fill_rx i data n s) j =
    (if j = rx_count s then \<lparr>used_id = word_of_nat i, used_len = word_of_nat n\<rparr> else rx_elem s j)"
  using assms ring_at_push [of "used_ring (rx_used s)" "used_idx (rx_used s)" "rx_used_consume s" j]
  by (simp add: rx_elem_def fill_rx_def push_used_def rx_inv_def rx_count_def)

text \<open>A free slot is named by no completion, so filling it changes no queued frame.\<close>

lemma rx_inv_free_unnamed:
  assumes "rx_inv s" and "i < 8" and "\<not> occupied (rx_slots s ! i)" and "j < rx_count s"
  shows "elem_slot (rx_elem s j) \<noteq> i"
  using assms by (auto simp: rx_inv_def)

lemma rx_frames_fill:
  assumes inv: "rx_inv s" and room: "rx_count s < 8" and i: "i < 8" "\<not> occupied (rx_slots s ! i)"
    and n: "n \<le> 2048" "n \<le> length data"
  shows "rx_frames (fill_rx i data n s) = rx_frames s @ [take n data]"
proof -
  let ?s = "fill_rx i data n s"
  have slots: "length (rx_slots s) = 8" "length (slot_data (rx_slots s ! i)) = 2048"
    using inv i by (simp_all add: rx_inv_def wf_slots_def)
  have old: "elem_frame ?s (rx_elem ?s j) = elem_frame s (rx_elem s j)" if "j < rx_count s" for j
    using that rx_inv_free_unnamed [OF inv i that] inv room
    by (simp add: rx_elem_fill elem_frame_def) (simp add: fill_rx_def)
  have new: "elem_frame ?s (rx_elem ?s (rx_count s)) = take n data"
    using inv room i n slots
    by (simp add: rx_elem_fill elem_frame_def unat_of_nat)
      (simp add: fill_rx_def copy_bytes_eq)
  show ?thesis
    using old new room by (simp add: rx_frames_def rx_count_fill)
qed

lemma rx_inv_fill:
  assumes inv: "rx_inv s" and room: "rx_count s < 8" and i: "i < 8" "\<not> occupied (rx_slots s ! i)"
    and n: "0 < n" "n \<le> 2048"
  shows "rx_inv (fill_rx i data n s)"
proof -
  let ?s = "fill_rx i data n s"
  have len: "length (rx_slots s) = 8"
    using inv by (simp add: rx_inv_def wf_slots_def)
  have fields: "wf_slots (rx_slots ?s)" "length (used_ring (rx_used ?s)) = 8" "length (rx_desc ?s) = 8"
    using inv i by (auto simp: rx_inv_def wf_slots_def fill_rx_def push_used_def nth_list_update)
  have ready: "unat (rx_ready ?s) = rx_count ?s"
    using inv room by (simp add: rx_count_fill) (simp add: fill_rx_def rx_inv_def unat_word_ariths)
  have elems: "elem_slot (rx_elem ?s j) < 8 \<and> 0 < unat (used_len (rx_elem ?s j)) \<and>
      unat (used_len (rx_elem ?s j)) \<le> 2048" if "j < rx_count ?s" for j
    using that inv room i n
    by (cases "j = rx_count s") (auto simp: rx_count_fill rx_elem_fill rx_inv_def unat_of_nat)
  have "inj_on (\<lambda>j. elem_slot (rx_elem s j)) {0..<rx_count s}"
    using inv by (simp add: rx_inv_def)
  then have inj: "inj_on (\<lambda>j. elem_slot (rx_elem ?s j)) {0..<rx_count ?s}"
    using rx_inv_free_unnamed [OF inv i] not_sym [OF rx_inv_free_unnamed [OF inv i]] inv room i
    by (auto simp: inj_on_def rx_count_fill rx_elem_fill less_Suc_eq)
  have occ: "occupied (rx_slots ?s ! k) \<longleftrightarrow> (\<exists>j < rx_count ?s. elem_slot (rx_elem ?s j) = k)"
    if "k < 8" for k
  proof -
    have "(\<exists>j < rx_count ?s. elem_slot (rx_elem ?s j) = k) \<longleftrightarrow>
        k = i \<or> (\<exists>j < rx_count s. elem_slot (rx_elem s j) = k)"
      using inv room i by (auto simp: rx_count_fill rx_elem_fill less_Suc_eq intro: exI [of _ "rx_count s"])
    moreover have "occupied (rx_slots ?s ! k) \<longleftrightarrow> k = i \<or> occupied (rx_slots s ! k)"
      using len i by (simp add: fill_rx_def nth_list_update)
    ultimately show ?thesis
      using inv that by (simp add: rx_inv_def)
  qed
  show ?thesis
    using fields ready elems inj occ room by (simp add: rx_inv_def rx_count_fill)
qed

lemma rx_count_recycle:
  assumes "0 < rx_count s"
  shows "Suc (rx_count (recycle_rx i s)) = rx_count s"
proof -
  have "used_idx (rx_used s) \<noteq> rx_used_consume s"
    using assms by (auto simp: rx_count_def in_ring_def)
  from in_ring_pop [OF this] show ?thesis
    by (simp add: rx_count_def recycle_rx_def)
qed

lemma rx_elem_recycle: "rx_elem (recycle_rx i s) j = rx_elem s (Suc j)"
  by (simp add: rx_elem_def recycle_rx_def ring_at_Suc)

lemma rx_inv_head_distinct:
  assumes "rx_inv s" and "Suc j < rx_count s"
  shows "elem_slot (rx_elem s (Suc j)) \<noteq> elem_slot (rx_elem s 0)"
proof -
  have "inj_on (\<lambda>j. elem_slot (rx_elem s j)) {0..<rx_count s}"
    using assms(1) by (simp add: rx_inv_def)
  from inj_onD [OF this, of "Suc j" 0] assms(2) show ?thesis
    by auto
qed

lemma recycle_slot_data [simp]:
  "length (rx_slots s) = 8 \<Longrightarrow> k < 8 \<Longrightarrow> slot_data (rx_slots (recycle_rx i s) ! k) = slot_data (rx_slots s ! k)"
  by (cases "k = i") (simp_all add: recycle_rx_def reset_slot_def)

lemma rx_frames_recycle:
  assumes inv: "rx_inv s" and ne: "0 < rx_count s"
  shows "rx_frames s = elem_frame s (rx_elem s 0) # rx_frames (recycle_rx (elem_slot (rx_elem s 0)) s)"
proof -
  let ?s = "recycle_rx (elem_slot (rx_elem s 0)) s"
  have "length (rx_slots s) = 8"
    using inv by (simp add: rx_inv_def wf_slots_def)
  then have "elem_frame ?s (rx_elem ?s j) = elem_frame s (rx_elem s (Suc j))"
    if "Suc j < rx_count s" for j
    using rx_inv_slot_lt [OF inv that] by (simp add: elem_frame_def rx_elem_recycle)
  then have "elem_frame ?s (rx_elem ?s j) = elem_frame s (rx_elem s (Suc j))"
    if "j < rx_count ?s" for j
    using that rx_count_recycle [OF ne] by (metis Suc_less_eq)
  then have "rx_frames ?s = map (\<lambda>j. elem_frame s (rx_elem s (Suc j))) [0..<rx_count ?s]"
    by (simp add: rx_frames_def)
  moreover have "rx_frames s = map (\<lambda>j. elem_frame s (rx_elem s j)) [0..<Suc (rx_count ?s)]"
    using rx_count_recycle [OF ne] by (simp add: rx_frames_def)
  ultimately show ?thesis
    by (simp add: upt_conv_Cons map_Suc_upt [symmetric] del: upt_Suc)
qed

lemma rx_inv_recycle:
  assumes inv: "rx_inv s" and ne: "0 < rx_count s"
  shows "rx_inv (recycle_rx (elem_slot (rx_elem s 0)) s)"
proof -
  let ?h = "elem_slot (rx_elem s 0)"
  let ?s = "recycle_rx ?h s"
  have h: "?h < 8" by (rule rx_inv_slot_lt [OF inv ne])
  have len: "length (rx_slots s) = 8"
    using inv by (simp add: rx_inv_def wf_slots_def)
  have cnt: "rx_count s = Suc (rx_count ?s)"
    using rx_count_recycle [OF ne] by simp
  have fields: "wf_slots (rx_slots ?s)" "length (used_ring (rx_used ?s)) = 8" "length (rx_desc ?s) = 8"
    using inv by (auto simp: rx_inv_def wf_slots_def) (auto simp: recycle_rx_def)
  have "unat (rx_ready s) = rx_count s"
    using inv by (simp add: rx_inv_def)
  then have ready: "unat (rx_ready ?s) = rx_count ?s"
    using cnt by (auto simp: recycle_rx_def unat_minus_one word_neq_0_conv [symmetric] unat_eq_zero)
  have "inj_on (\<lambda>j. elem_slot (rx_elem s j)) {0..<rx_count s}"
    using inv by (simp add: rx_inv_def)
  then have inj: "inj_on (\<lambda>j. elem_slot (rx_elem ?s j)) {0..<rx_count ?s}"
    unfolding rx_elem_recycle using cnt
    by (intro inj_onI) (auto dest!: inj_onD [where x = "Suc _" and y = "Suc _"])
  have occ: "occupied (rx_slots ?s ! k) \<longleftrightarrow> (\<exists>j < rx_count ?s. elem_slot (rx_elem ?s j) = k)"
    if "k < 8" for k
  proof -
    have "occupied (rx_slots ?s ! k) \<longleftrightarrow> k \<noteq> ?h \<and> occupied (rx_slots s ! k)"
      using len that h by (cases "k = ?h") (simp_all add: recycle_rx_def reset_slot_def)
    also have "\<dots> \<longleftrightarrow> k \<noteq> ?h \<and> (\<exists>j < rx_count s. elem_slot (rx_elem s j) = k)"
      using inv that by (simp add: rx_inv_def)
    also have "\<dots> \<longleftrightarrow> (\<exists>j < rx_count ?s. elem_slot (rx_elem s (Suc j)) = k)"
      using rx_inv_head_distinct [OF inv] by (auto simp: cnt Ex_less_Suc2)
    finally show ?thesis by (simp add: rx_elem_recycle)
  qed
  show ?thesis
    using fields ready inj occ inv cnt by (auto simp: rx_inv_def rx_elem_recycle)
qed

text \<open>The head of the ring as \<open>net_recv_raw\<close> reads it.\<close>

lemma rx_head_occupied:
  assumes "rx_inv s" and "0 < rx_count s"
  shows "occupied (rx_slots s ! elem_slot (rx_elem s 0))"
  using assms rx_inv_slot_lt [OF assms] by (auto simp: rx_inv_def)

section \<open>The transmit ring\<close>

text \<open>
  Between calls the fake backend has nothing in flight: every slot is free and every completion
  has been consumed.
\<close>

definition tx_idle :: "NetState \<Rightarrow> bool" where
  "tx_idle s \<longleftrightarrow>
     wf_slots (tx_slots s) \<and> length (used_ring (tx_used s)) = 8 \<and> length (tx_desc s) = 8 \<and>
     length (last_fake_tx s) = 2048 \<and>
     tx_used_consume s = used_idx (tx_used s) \<and> tx_pending s = 0 \<and>
     (\<forall>i < 8. \<not> occupied (tx_slots s ! i))"

lemma reclaim_tx_idle [simp]: "tx_idle s \<Longrightarrow> reclaim_tx_locked s = s"
  by (simp add: tx_idle_def reclaim_tx_locked.simps)

lemma find_free_tx_slot_idle:
  assumes "tx_idle s"
  shows "\<exists>i p. find_free_tx_slot_locked s = (Some i, s\<lparr>tx_next_probe := p\<rparr>) \<and> i < 8"
proof -
  obtain k where "probe_slots (tx_slots s) (tx_next_probe s) = Some k"
    using assms probe_slots_free [of 0 "tx_slots s"] by (fastforce simp: tx_idle_def)
  then show ?thesis
    using assms probe_slots_Some
    by (auto simp: find_free_tx_slot_locked_def tx_idle_def VIRTIO_NET_QUEUE_SIZE_def)
qed

lemma unat_ucast_slot: "i < 8 \<Longrightarrow> unat (ucast (word_of_nat i :: u32) :: u16) = i"
  by (simp add: unsigned_ucast_eq unat_of_nat take_bit_nat_eq_self)

text \<open>Sending, completing and reclaiming one frame leaves the transmit side idle again.\<close>

lemma tx_cycle_idle:
  assumes "tx_idle s" and "i < 8"
  shows "tx_idle (reclaim_tx_locked (complete_tx_locked i n (enqueue_tx i data n s)))"
proof -
  let ?s = "complete_tx_locked i n (enqueue_tx i data n s)"
  have "tx_used_consume ?s \<noteq> used_idx (tx_used ?s)"
    using assms by (simp add: complete_tx_locked_def enqueue_tx_def push_used_def tx_idle_def)
  then have "reclaim_tx_locked ?s = reclaim_tx_locked (reclaim_tx_entry ?s)"
    by (subst reclaim_tx_locked.simps) simp
  moreover have "tx_idle (reclaim_tx_entry ?s)"
    using assms
    by (auto simp: tx_idle_def wf_slots_def reclaim_tx_entry_def Let_def complete_tx_locked_def
        enqueue_tx_def push_used_def reset_slot_def unat_ucast_slot VIRTIO_NET_QUEUE_SIZE_def
        nth_list_update)
  ultimately show ?thesis by simp
qed

section \<open>Reset\<close>

text \<open>The sizes of the arrays of \<open>NetState\<close>, which no operation changes.\<close>

definition wf_net :: "NetState \<Rightarrow> bool" where
  "wf_net s \<longleftrightarrow>
     wf_slots (tx_slots s) \<and> wf_slots (rx_slots s) \<and> length (tx_desc s) = 8 \<and>
     length (rx_desc s) = 8 \<and> length (last_fake_tx s) = 2048"

lemma reset_ring_entry_frame [simp]:
  "tx_used (reset_ring_entry i s) = tx_used s"
  "rx_used (reset_ring_entry i s) = rx_used s"
  "tx_used_consume (reset_ring_entry i s) = tx_used_consume s"
  "rx_used_consume (reset_ring_entry i s) = rx_used_consume s"
  "tx_pending (reset_ring_entry i s) = tx_pending s"
  "rx_ready (reset_ring_entry i s) = rx_ready s"
  by (simp_all add: reset_ring_entry_def)

lemma reset_ring_entries_frame [simp]:
  "tx_used (fold reset_ring_entry is s) = tx_used s"
  "rx_used (fold reset_ring_entry is s) = rx_used s"
  "tx_used_consume (fold reset_ring_entry is s) = tx_used_consume s"
  "rx_used_consume (fold reset_ring_entry is s) = rx_used_consume s"
  "tx_pending (fold reset_ring_entry is s) = tx_pending s"
  "rx_ready (fold reset_ring_entry is s) = rx_ready s"
  by (induction "is" arbitrary: s) simp_all

lemma reset_ring_entries:
  assumes "wf_net s" and "n \<le> 8"
  shows "wf_net (fold reset_ring_entry [0..<n] s) \<and>
    (\<forall>i < n. \<not> occupied (tx_slots (fold reset_ring_entry [0..<n] s) ! i) \<and>
             \<not> occupied (rx_slots (fold reset_ring_entry [0..<n] s) ! i))"
  using assms(2)
proof (induction n)
  case 0
  then show ?case using assms(1) by simp
next
  case (Suc n)
  define t where "t = fold reset_ring_entry [0..<n] s"
  have IH: "wf_net t" "\<forall>i < n. \<not> occupied (tx_slots t ! i) \<and> \<not> occupied (rx_slots t ! i)"
    using Suc by (simp_all add: t_def)
  have len: "length (tx_slots t) = 8" "length (rx_slots t) = 8"
    using IH(1) by (simp_all add: wf_net_def wf_slots_def)
  have "wf_net (reset_ring_entry n t)"
    using IH(1) len Suc.prems
    by (auto simp: wf_net_def wf_slots_def reset_ring_entry_def reset_slot_def nth_list_update)
  moreover have "\<not> occupied (tx_slots (reset_ring_entry n t) ! i) \<and>
      \<not> occupied (rx_slots (reset_ring_entry n t) ! i)" if "i < Suc n" for i
    using that IH(2) len Suc.prems
    by (auto simp: reset_ring_entry_def reset_slot_def nth_list_update less_Suc_eq)
  ultimately show ?case
    by (simp add: t_def)
qed

lemma reset_rings:
  assumes "wf_net s"
  shows reset_rings_wf: "wf_net (reset_rings_locked s)"
    and reset_rings_tx: "tx_idle (reset_rings_locked s)"
    and reset_rings_rx: "rx_inv (reset_rings_locked s)"
    and reset_rings_empty: "rx_frames (reset_rings_locked s) = []"
proof -
  define s1 where "s1 = s\<lparr>tx_avail := zero_avail, rx_avail := zero_avail, tx_used := zero_used,
    rx_used := zero_used, tx_next_probe := 0, tx_used_consume := 0, tx_pending := 0,
    rx_next_probe := 0, rx_used_consume := 0, rx_ready := 0, last_fake_tx_len := 0,
    last_fake_tx_valid := False\<rparr>"
  define t where "t = fold reset_ring_entry [0..<8] s1"
  have "wf_net s1"
    using assms by (simp add: s1_def wf_net_def)
  then have wf: "wf_net t" and free: "\<forall>i < 8. \<not> occupied (tx_slots t ! i) \<and> \<not> occupied (rx_slots t ! i)"
    using reset_ring_entries [of s1 8] by (simp_all add: t_def)
  have r: "reset_rings_locked s = t\<lparr>rx_avail := (rx_avail t)\<lparr>avail_idx := 8\<rparr>\<rparr>"
    by (simp add: reset_rings_locked_def Let_def s1_def t_def VIRTIO_NET_QUEUE_SIZE_def)
  have used: "tx_used t = zero_used" "rx_used t = zero_used" "tx_used_consume t = 0"
    "rx_used_consume t = 0" "tx_pending t = 0" "rx_ready t = 0"
    by (simp_all add: t_def s1_def)
  have cnt: "rx_count (reset_rings_locked s) = 0"
    by (simp add: r rx_count_def used zero_used_def in_ring_def)
  show "wf_net (reset_rings_locked s)"
    using wf by (simp add: r wf_net_def)
  show "tx_idle (reset_rings_locked s)"
    using wf free used by (simp add: r tx_idle_def wf_net_def zero_used_def VIRTIO_NET_QUEUE_SIZE_def)
  show "rx_inv (reset_rings_locked s)"
    using wf free used cnt by (simp add: rx_inv_def)
      (simp add: r wf_net_def zero_used_def VIRTIO_NET_QUEUE_SIZE_def)
  show "rx_frames (reset_rings_locked s) = []"
    by (simp add: rx_frames_def cnt)
qed

end
