(* ===== verification/Pcie.thy ===== *)
theory Pcie
  imports Prelude
begin

text \<open>
  PCI configuration access, device search and bus enumeration of \<^verbatim>\<open>pcie.cc\<close>. The hardware behind
  the two configuration ports is a parameter \<open>cfg\<close>: the value \<open>inl(PCI_CONFIG_DATA)\<close> gives after
  the address was written with \<open>outl(PCI_CONFIG_ADDRESS, ...)\<close>. Writes are the list of port writes
  the code makes. The theorems show that the search finds the first matching function that the
  scan can reach and misses none.
\<close>

section \<open>Configuration addresses\<close>

definition PCI_CONFIG_ADDRESS :: u16 where "PCI_CONFIG_ADDRESS = 0xCF8"
definition PCI_CONFIG_DATA :: u16 where "PCI_CONFIG_DATA = 0xCFC"
definition PCI_MAX_BUSES :: nat where "PCI_MAX_BUSES = 256"
definition PCI_MAX_DEVICES :: nat where "PCI_MAX_DEVICES = 32"
definition PCI_MAX_FUNCTIONS :: nat where "PCI_MAX_FUNCTIONS = 8"

type_synonym config_space = "u32 \<Rightarrow> u32"
type_synonym port_write = "u16 \<times> u32"

definition pci_config_address :: "u8 \<Rightarrow> u8 \<Rightarrow> u8 \<Rightarrow> u8 \<Rightarrow> u32" where
  "pci_config_address bus device func offset =
     push_bit 31 1 OR push_bit 16 (ucast bus) OR push_bit 11 (ucast (device AND 0x1F)) OR
     push_bit 8 (ucast (func AND 0x07)) OR ucast (offset AND 0xFC)"

definition pci_config_read32 :: "config_space \<Rightarrow> u8 \<Rightarrow> u8 \<Rightarrow> u8 \<Rightarrow> u8 \<Rightarrow> u32" where
  "pci_config_read32 cfg bus device func offset = cfg (pci_config_address bus device func offset)"

definition pci_config_write32 :: "u8 \<Rightarrow> u8 \<Rightarrow> u8 \<Rightarrow> u8 \<Rightarrow> u32 \<Rightarrow> port_write list" where
  "pci_config_write32 bus device func offset v =
     [(PCI_CONFIG_ADDRESS, pci_config_address bus device func offset), (PCI_CONFIG_DATA, v)]"

definition pci_config_read16 :: "config_space \<Rightarrow> u8 \<Rightarrow> u8 \<Rightarrow> u8 \<Rightarrow> u8 \<Rightarrow> u16" where
  "pci_config_read16 cfg bus device func offset =
     ucast (drop_bit (unat (offset AND 2) * 8) (pci_config_read32 cfg bus device func offset))"

definition pci_config_read8 :: "config_space \<Rightarrow> u8 \<Rightarrow> u8 \<Rightarrow> u8 \<Rightarrow> u8 \<Rightarrow> u8" where
  "pci_config_read8 cfg bus device func offset =
     ucast (drop_bit (unat (offset AND 3) * 8) (pci_config_read32 cfg bus device func offset))"

section \<open>Functions\<close>

record PciFunction =
  pci_bus :: u8
  pci_device :: u8
  pci_function :: u8
  pci_vendor_id :: u16
  pci_device_id :: u16
  pci_class_code :: u8
  pci_subclass :: u8
  pci_prog_if :: u8
  pci_revision_id :: u8
  pci_header_type :: u8

text \<open>\<open>None\<close> is the result \<open>false\<close>: no function answers there.\<close>

definition read_function :: "config_space \<Rightarrow> u8 \<Rightarrow> u8 \<Rightarrow> u8 \<Rightarrow> PciFunction option" where
  "read_function cfg bus dev func =
     (let id_reg = pci_config_read32 cfg bus dev func 0x00;
          vendor_id = (ucast (id_reg AND 0xFFFF) :: u16)
      in if vendor_id = 0xFFFF then None
         else
           let class_reg = pci_config_read32 cfg bus dev func 0x08;
               header_dword = pci_config_read32 cfg bus dev func 0x0C
           in Some \<lparr>pci_bus = bus, pci_device = dev, pci_function = func,
                    pci_vendor_id = vendor_id,
                    pci_device_id = ucast (drop_bit 16 id_reg),
                    pci_class_code = ucast (drop_bit 24 class_reg AND 0xFF),
                    pci_subclass = ucast (drop_bit 16 class_reg AND 0xFF),
                    pci_prog_if = ucast (drop_bit 8 class_reg AND 0xFF),
                    pci_revision_id = ucast (class_reg AND 0xFF),
                    pci_header_type = ucast (drop_bit 16 header_dword AND 0x7F)\<rparr>)"

text \<open>\<open>raw_header_type & PCI_HEADER_TYPE_MULTIFUNCTION\<close>\<close>

definition is_multifunction :: "config_space \<Rightarrow> u8 \<Rightarrow> u8 \<Rightarrow> bool" where
  "is_multifunction cfg bus device \<longleftrightarrow>
     (ucast (drop_bit 16 (pci_config_read32 cfg bus device 0 0x0C) AND 0xFF) :: u8) AND 0x80 \<noteq> 0"

text \<open>
  \<open>parse_device_legacy\<close>: the functions it reports, none or one. \<open>Found device: ...\<close> is printed
  for each.
\<close>

definition parse_device_legacy :: "config_space \<Rightarrow> u8 \<Rightarrow> u8 \<Rightarrow> u8 \<Rightarrow> PciFunction list" where
  "parse_device_legacy cfg bus dev func =
     (case read_function cfg bus dev func of None \<Rightarrow> [] | Some info \<Rightarrow> [info])"

section \<open>Searching\<close>

text \<open>A loop that returns at the first iteration that has a result.\<close>

fun first_some :: "('a \<Rightarrow> 'b option) \<Rightarrow> 'a list \<Rightarrow> 'b option" where
  "first_some f [] = None"
| "first_some f (x # xs) = (case f x of None \<Rightarrow> first_some f xs | Some y \<Rightarrow> Some y)"

definition match_function :: "config_space \<Rightarrow> u16 \<Rightarrow> u16 \<Rightarrow> u8 \<Rightarrow> u8 \<Rightarrow> u8 \<Rightarrow> PciFunction option" where
  "match_function cfg vendor_id device_id bus device func =
     (case read_function cfg bus device func of
        None \<Rightarrow> None
      | Some info \<Rightarrow>
          if pci_vendor_id info = vendor_id \<and> pci_device_id info = device_id then Some info else None)"

text \<open>The body of the inner loop of \<open>pci_find_device\<close>.\<close>

definition find_in_slot :: "config_space \<Rightarrow> u16 \<Rightarrow> u16 \<Rightarrow> u8 \<Rightarrow> u8 \<Rightarrow> PciFunction option" where
  "find_in_slot cfg vendor_id device_id bus device =
     (case read_function cfg bus device 0 of
        None \<Rightarrow> None
      | Some info \<Rightarrow>
          if pci_vendor_id info = vendor_id \<and> pci_device_id info = device_id then Some info
          else if is_multifunction cfg bus device
          then first_some (\<lambda>f. match_function cfg vendor_id device_id bus device (word_of_nat f))
                 [1..<PCI_MAX_FUNCTIONS]
          else None)"

definition pci_find_device :: "config_space \<Rightarrow> u16 \<Rightarrow> u16 \<Rightarrow> PciFunction option" where
  "pci_find_device cfg vendor_id device_id =
     first_some (\<lambda>bus.
         first_some (\<lambda>device.
             find_in_slot cfg vendor_id device_id (word_of_nat bus) (word_of_nat device))
           [0..<PCI_MAX_DEVICES])
       [0..<PCI_MAX_BUSES]"

definition pci_find_virtio_net :: "config_space \<Rightarrow> PciFunction option" where
  "pci_find_virtio_net cfg = pci_find_device cfg 0x1AF4 0x1041"

section \<open>Base addresses and the command register\<close>

definition pci_read_bar :: "config_space \<Rightarrow> PciFunction \<Rightarrow> u8 \<Rightarrow> u64" where
  "pci_read_bar cfg fn bar_index =
     (if bar_index \<ge> 6 then 0
      else
        let offset = 0x10 + bar_index * 4;
            bar = pci_config_read32 cfg (pci_bus fn) (pci_device fn) (pci_function fn) offset
        in if bar AND 1 \<noteq> 0 then ucast (bar AND NOT 3)
           else
             let base = (ucast (bar AND NOT 0xF) :: u64);
                 type = drop_bit 1 bar AND 3
             in if type = 2 \<and> bar_index < 5
                then base OR push_bit 32 (ucast (pci_config_read32 cfg (pci_bus fn) (pci_device fn)
                       (pci_function fn) (offset + 4)))
                else base)"

definition pci_enable_mmio_and_bus_mastering :: "config_space \<Rightarrow> PciFunction \<Rightarrow> port_write list" where
  "pci_enable_mmio_and_bus_mastering cfg fn =
     (let command_status = pci_config_read32 cfg (pci_bus fn) (pci_device fn) (pci_function fn) 0x04;
          command = (ucast (command_status AND 0xFFFF) :: u16);
          command = command OR 2;
          command = command OR 4
      in pci_config_write32 (pci_bus fn) (pci_device fn) (pci_function fn) 0x04
           ((command_status AND 0xFFFF0000) OR ucast command))"

section \<open>Enumeration\<close>

definition mark_bus_visited :: "u8 \<Rightarrow> u8 list \<Rightarrow> u8 list" where
  "mark_bus_visited bus v =
     v[unat bus div 8 := v ! (unat bus div 8) OR push_bit (unat bus mod 8) 1]"

definition is_bus_visited :: "u8 \<Rightarrow> u8 list \<Rightarrow> bool" where
  "is_bus_visited bus v \<longleftrightarrow> v ! (unat bus div 8) AND push_bit (unat bus mod 8) 1 \<noteq> 0"

definition clear_bus_visited :: "u8 list \<Rightarrow> u8 list" where
  "clear_bus_visited v = fold (\<lambda>i v. v[i := 0]) [0..<PCI_MAX_BUSES div 8] v"

definition enumerate_slot :: "config_space \<Rightarrow> u8 \<Rightarrow> u8 \<Rightarrow> PciFunction list" where
  "enumerate_slot cfg bus device =
     (let found = parse_device_legacy cfg bus device 0
      in if found = [] then []
         else found @
           (if is_multifunction cfg bus device
            then concat (map (\<lambda>f. parse_device_legacy cfg bus device (word_of_nat f))
                   [1..<PCI_MAX_FUNCTIONS])
            else []))"

definition enumerate_bus :: "config_space \<Rightarrow> u8 \<Rightarrow> u8 list \<Rightarrow> PciFunction list \<times> u8 list" where
  "enumerate_bus cfg bus v =
     (if is_bus_visited bus v then ([], v)
      else (concat (map (\<lambda>device. enumerate_slot cfg bus (word_of_nat device)) [0..<PCI_MAX_DEVICES]),
            mark_bus_visited bus v))"

definition enum_pcie :: "config_space \<Rightarrow> u8 list \<Rightarrow> PciFunction list \<times> u8 list" where
  "enum_pcie cfg v = enumerate_bus cfg 0 (clear_bus_visited v)"

section \<open>Addresses are decodable\<close>

lemma and_masks:
  "x AND 0x1F = take_bit 5 (x :: u8)" "x AND 0x07 = take_bit 3 (x :: u8)"
  by (simp_all add: take_bit_eq_mask mask_numeral)

lemma config_address_bit:
  "bit (pci_config_address b d f off) n \<longleftrightarrow>
     n = 31 \<or> (16 \<le> n \<and> n < 24 \<and> bit b (n - 16)) \<or> (11 \<le> n \<and> n < 16 \<and> bit d (n - 11)) \<or>
     (8 \<le> n \<and> n < 11 \<and> bit f (n - 8)) \<or> (n < 8 \<and> bit (off AND 0xFC) n)"
proof -
  have b: "bit b k \<Longrightarrow> k < 8" and o8: "bit (off AND 0xFC) k \<Longrightarrow> k < 8" for k
    by (auto dest: bit_imp_le_length)
  have top: "bit (2147483648 :: u32) n \<longleftrightarrow> n = 31"
    using bit_exp_iff [where ?'a = u32, of 31 n] by (auto simp: possible_bit_word)
  define o' where "o' = off AND 0xFC"
  have "bit (pci_config_address b d f off) n \<longleftrightarrow>
     bit (2147483648 :: u32) n \<or> (n < 32 \<and> 16 \<le> n \<and> bit b (n - 16)) \<or>
     (n < 32 \<and> 11 \<le> n \<and> n - 11 < 5 \<and> bit d (n - 11)) \<or>
     (n < 32 \<and> 8 \<le> n \<and> n - 8 < 3 \<and> bit f (n - 8)) \<or> (n < 32 \<and> bit o' n)"
    unfolding pci_config_address_def and_masks o'_def [symmetric]
    by (cases "n < 32")
      (simp_all add: bit_or_iff bit_push_bit_iff bit_unsigned_iff bit_take_bit_iff top
        less_imp_diff_less conj_ac)
  moreover have "(n < 32 \<and> 16 \<le> n \<and> bit b (n - 16)) = (16 \<le> n \<and> n < 24 \<and> bit b (n - 16))"
    using b [of "n - 16"] by (cases "bit b (n - 16)") auto
  moreover have "(n < 32 \<and> bit o' n) = (n < 8 \<and> bit o' n)"
    using o8 [of n] by (cases "bit o' n") (auto simp: o'_def)
  moreover have "(n < 32 \<and> 11 \<le> n \<and> n - 11 < 5) = (11 \<le> n \<and> n < 16)"
    "(n < 32 \<and> 8 \<le> n \<and> n - 8 < 3) = (8 \<le> n \<and> n < 11)"
    by auto
  ultimately show ?thesis
    unfolding top o'_def by metis
qed

lemma config_address_fields:
  "ucast (drop_bit 16 (pci_config_address b d f off)) = b"
  "take_bit 5 (ucast (drop_bit 11 (pci_config_address b d f off))) = take_bit 5 (d :: u8)"
  "take_bit 3 (ucast (drop_bit 8 (pci_config_address b d f off))) = take_bit 3 (f :: u8)"
  "ucast (pci_config_address b d f off) = off AND 0xFC"
  by (rule bit_word_eqI; force simp: bit_unsigned_iff bit_drop_bit_eq bit_take_bit_iff config_address_bit)+

lemma config_address_inject:
  "pci_config_address b d f off = pci_config_address b' d' f' off' \<longleftrightarrow>
     b = b' \<and> d AND 0x1F = d' AND 0x1F \<and> f AND 0x07 = f' AND 0x07 \<and> off AND 0xFC = off' AND 0xFC"
  unfolding and_masks
  by (metis and_masks config_address_fields pci_config_address_def)

section \<open>What the search finds\<close>

lemma first_some_SomeD: "first_some f xs = Some y \<Longrightarrow> \<exists>x \<in> set xs. f x = Some y"
  by (induction xs) (auto split: option.splits)

lemma first_some_None_iff: "first_some f xs = None \<longleftrightarrow> (\<forall>x \<in> set xs. f x = None)"
  by (induction xs) (auto split: option.splits)

text \<open>
  The functions a scan can reach: function 0 of a slot, and the others when function 0 is present
  and says that the device has several.
\<close>

definition reachable_function :: "config_space \<Rightarrow> u8 \<Rightarrow> u8 \<Rightarrow> u8 \<Rightarrow> PciFunction \<Rightarrow> bool" where
  "reachable_function cfg bus dev func info \<longleftrightarrow>
     dev < 32 \<and> func < 8 \<and> read_function cfg bus dev func = Some info \<and>
     (func = 0 \<or> read_function cfg bus dev 0 \<noteq> None \<and> is_multifunction cfg bus dev)"

lemma read_function_fields:
  "read_function cfg bus dev func = Some info \<Longrightarrow>
     pci_bus info = bus \<and> pci_device info = dev \<and> pci_function info = func"
  by (auto simp: read_function_def Let_def split: if_splits)

lemma u8_as_nat: "unat (x :: u8) < n \<Longrightarrow> \<exists>k \<in> set [0..<n]. x = word_of_nat k"
  by (rule bexI [of _ "unat x"]) simp_all

lemma u8_less_numeral: "x < (n :: u8) \<longleftrightarrow> unat x < unat n"
  by (rule word_less_nat_alt)

lemma func_range:
  assumes "func < (8 :: u8)" and "func \<noteq> 0"
  shows "\<exists>k \<in> set [1..<8]. func = word_of_nat k"
proof -
  have "0 < unat func"
    using assms(2) by (simp add: unat_gt_0)
  then show ?thesis
    using assms(1) by (intro bexI [of _ "unat func"]) (auto simp: word_less_nat_alt)
qed

lemma find_in_slot_SomeD:
  assumes "find_in_slot cfg v d bus dev = Some info" and "dev < 32"
  shows "\<exists>func. reachable_function cfg bus dev func info \<and> pci_vendor_id info = v \<and> pci_device_id info = d"
proof (cases "read_function cfg bus dev 0")
  case None
  with assms show ?thesis by (simp add: find_in_slot_def)
next
  case (Some i0)
  show ?thesis
  proof (cases "pci_vendor_id i0 = v \<and> pci_device_id i0 = d")
    case True
    with Some assms show ?thesis
      by (auto simp: find_in_slot_def reachable_function_def intro!: exI [of _ 0])
  next
    case False
    with Some assms have multi: "is_multifunction cfg bus dev"
      and hit: "first_some (\<lambda>f. match_function cfg v d bus dev (word_of_nat f)) [1..<8] = Some info"
      by (auto simp: find_in_slot_def PCI_MAX_FUNCTIONS_def split: if_splits)
    obtain k where "k \<in> set [1..<8]" "match_function cfg v d bus dev (word_of_nat k) = Some info"
      using first_some_SomeD [OF hit] by auto
    moreover from this have "(word_of_nat k :: u8) < 8"
      by (simp add: word_less_nat_alt unat_of_nat)
    ultimately have "reachable_function cfg bus dev (word_of_nat k) info \<and> pci_vendor_id info = v \<and>
        pci_device_id info = d"
      using multi Some assms(2)
      by (simp add: reachable_function_def match_function_def split: option.splits if_splits)
    then show ?thesis by blast
  qed
qed

lemma find_in_slot_None:
  assumes "find_in_slot cfg v d bus dev = None" and "reachable_function cfg bus dev func info"
  shows "\<not> (pci_vendor_id info = v \<and> pci_device_id info = d)"
proof (cases "func = 0")
  case True
  with assms show ?thesis
    by (auto simp: find_in_slot_def reachable_function_def)
next
  case False
  with assms(2) obtain i0 where r: "read_function cfg bus dev 0 = Some i0" "is_multifunction cfg bus dev"
    "func < 8" "read_function cfg bus dev func = Some info"
    by (auto simp: reachable_function_def)
  then obtain k where "k \<in> set [1..<8]" "func = word_of_nat k"
    using func_range False by blast
  moreover have "\<forall>k \<in> set [1..<8]. match_function cfg v d bus dev (word_of_nat k) = None"
    using assms(1) r by (auto simp: find_in_slot_def first_some_None_iff PCI_MAX_FUNCTIONS_def split: if_splits)
  ultimately have "match_function cfg v d bus dev func = None"
    by auto
  then show ?thesis
    using r by (auto simp: match_function_def split: if_splits)
qed

section \<open>The visited bitmap\<close>

lemma byte_bit: "(x :: u8) AND push_bit k 1 \<noteq> 0 \<longleftrightarrow> k < 8 \<and> bit x k"
  by (auto simp: and_exp_eq_0_iff_not_bit push_bit_eq_mult dest: bit_imp_le_length)

lemma is_bus_visited_mark:
  assumes "length v = 32"
  shows "is_bus_visited c (mark_bus_visited b v) \<longleftrightarrow> c = b \<or> is_bus_visited c v"
proof -
  have lt: "unat b div 8 < 32" "unat c div 8 < 32"
    using u8_bound [of b] u8_bound [of c] by auto
  have "c = b \<longleftrightarrow> unat c div 8 = unat b div 8 \<and> unat c mod 8 = unat b mod 8"
    by (metis div_mult_mod_eq unsigned_word_eqI)
  then show ?thesis
    using lt assms unfolding is_bus_visited_def mark_bus_visited_def byte_bit
    by (cases "unat c div 8 = unat b div 8")
      (auto simp: bit_or_iff bit_exp_iff push_bit_eq_mult)
qed

lemma clear_prefix:
  "n \<le> length v \<Longrightarrow> fold (\<lambda>i v. v[i := 0]) [0..<n] v = replicate n 0 @ drop n v"
  by (induction n) (simp_all add: list_update_append replicate_append_same [symmetric]
      Cons_nth_drop_Suc [symmetric])

lemma clear_bus_visited_eq: "length v = 32 \<Longrightarrow> clear_bus_visited v = replicate 32 0"
  using clear_prefix [of 32 v] by (simp add: clear_bus_visited_def PCI_MAX_BUSES_def)

lemma not_visited_cleared: "\<not> is_bus_visited b (replicate 32 0)"
  using u8_bound [of b] by (simp add: is_bus_visited_def)

lemma set_enumerate_slot:
  assumes "dev < 32"
  shows "info \<in> set (enumerate_slot cfg bus dev) \<longleftrightarrow> (\<exists>func. reachable_function cfg bus dev func info)"
proof (cases "read_function cfg bus dev 0")
  case None
  then show ?thesis
    by (auto simp: enumerate_slot_def parse_device_legacy_def reachable_function_def)
next
  case (Some i0)
  have "info \<in> set (enumerate_slot cfg bus dev) \<longleftrightarrow> info = i0 \<or>
      is_multifunction cfg bus dev \<and> (\<exists>k \<in> set [1..<8]. read_function cfg bus dev (word_of_nat k) = Some info)"
    using Some by (auto simp: enumerate_slot_def parse_device_legacy_def PCI_MAX_FUNCTIONS_def
        split: option.splits intro: sym)
  also have "\<dots> \<longleftrightarrow> info = i0 \<or> is_multifunction cfg bus dev \<and>
      (\<exists>func < 8. func \<noteq> 0 \<and> read_function cfg bus dev func = Some info)"
  proof -
    have "(\<exists>k \<in> set [1..<8]. read_function cfg bus dev (word_of_nat k) = Some info) \<longleftrightarrow>
        (\<exists>func < 8. func \<noteq> 0 \<and> read_function cfg bus dev func = Some info)"
    proof
      assume "\<exists>k \<in> set [1..<8]. read_function cfg bus dev (word_of_nat k) = Some info"
      then obtain k where "1 \<le> k" "k < 8" "read_function cfg bus dev (word_of_nat k) = Some info"
        by auto
      moreover from this have "unat (word_of_nat k :: u8) = k"
        by (simp add: unat_of_nat)
      ultimately show "\<exists>func < 8. func \<noteq> 0 \<and> read_function cfg bus dev func = Some info"
        by (intro exI [of _ "word_of_nat k"]) (auto simp: word_less_nat_alt simp flip: unat_gt_0)
    qed (use func_range in blast)
    then show ?thesis by simp
  qed
  also have "\<dots> \<longleftrightarrow> (\<exists>func. reachable_function cfg bus dev func info)"
    using Some assms by (auto simp: reachable_function_def intro: exI [of _ 0])
  finally show ?thesis .
qed

lemma set_enumerate_bus:
  assumes "\<not> is_bus_visited bus v"
  shows "info \<in> set (fst (enumerate_bus cfg bus v)) \<longleftrightarrow>
    (\<exists>dev func. reachable_function cfg bus dev func info)"
proof -
  have "dev < 32 \<longleftrightarrow> (\<exists>k < 32. dev = word_of_nat k)" for dev :: u8
    by (auto simp: word_less_nat_alt unat_of_nat intro: exI [of _ "unat dev"])
  moreover have "info \<in> set (fst (enumerate_bus cfg bus v)) \<longleftrightarrow>
      (\<exists>k < 32. info \<in> set (enumerate_slot cfg bus (word_of_nat k)))"
    using assms by (auto simp: enumerate_bus_def PCI_MAX_DEVICES_def)
  ultimately have "info \<in> set (fst (enumerate_bus cfg bus v)) \<longleftrightarrow>
      (\<exists>dev < 32. info \<in> set (enumerate_slot cfg bus dev))"
    by metis
  also have "\<dots> \<longleftrightarrow> (\<exists>dev < 32. \<exists>func. reachable_function cfg bus dev func info)"
    using set_enumerate_slot by blast
  finally show ?thesis
    by (auto simp: reachable_function_def)
qed

lemma find_device_None_iff:
  "pci_find_device cfg v d = None \<longleftrightarrow>
     (\<forall>bus dev. dev < 32 \<longrightarrow> find_in_slot cfg v d bus dev = None)"
proof -
  have "pci_find_device cfg v d = None \<longleftrightarrow>
      (\<forall>b < 256. \<forall>k < 32. find_in_slot cfg v d (word_of_nat b) (word_of_nat k) = None)"
    by (auto simp: pci_find_device_def first_some_None_iff PCI_MAX_BUSES_def PCI_MAX_DEVICES_def)
  also have "\<dots> \<longleftrightarrow> (\<forall>bus dev. dev < 32 \<longrightarrow> find_in_slot cfg v d bus dev = None)"
  proof (intro iffI allI impI)
    fix bus dev :: u8
    assume all: "\<forall>b < 256. \<forall>k < 32. find_in_slot cfg v d (word_of_nat b) (word_of_nat k) = None"
      and "dev < 32"
    then have "unat dev < 32"
      by (simp add: word_less_nat_alt)
    then show "find_in_slot cfg v d bus dev = None"
      using all [rule_format, of "unat bus" "unat dev"] u8_bound [of bus] by simp
  next
    fix b k :: nat
    assume "\<forall>bus dev. dev < 32 \<longrightarrow> find_in_slot cfg v d bus dev = None" and "k < 32"
    then show "find_in_slot cfg v d (word_of_nat b) (word_of_nat k) = None"
      by (simp add: word_less_nat_alt unat_of_nat)
  qed
  finally show ?thesis .
qed

lemma find_device_SomeD:
  assumes "pci_find_device cfg v d = Some info"
  shows "\<exists>bus dev. dev < 32 \<and> find_in_slot cfg v d bus dev = Some info"
proof -
  obtain b k where "k < 32" "find_in_slot cfg v d (word_of_nat b) (word_of_nat k) = Some info"
    using assms by (auto simp: pci_find_device_def PCI_MAX_BUSES_def PCI_MAX_DEVICES_def
        dest!: first_some_SomeD)
  then show ?thesis
    by (intro exI [of _ "word_of_nat b"] exI [of _ "word_of_nat k"])
      (simp add: word_less_nat_alt unat_of_nat)
qed

lemma command_bits:
  "(cs AND 0xFFFF0000) OR ucast (((ucast (cs AND 0xFFFF) :: u16) OR 2) OR 4) = cs OR (6 :: u32)"
proof -
  have lo: "cs AND 0xFFFF = take_bit 16 cs"
    by (simp add: take_bit_eq_mask mask_numeral)
  have hi: "(0xFFFF0000 :: u32) = NOT (mask 16)"
    by (simp add: mask_numeral)
  have six: "(6 :: u32) = ucast ((2 :: u16) OR 4)"
    by simp
  have "bit ((2 :: u16) OR 4) n \<Longrightarrow> n < 16" for n
    by (auto dest: bit_imp_le_length)
  then show ?thesis
    unfolding lo hi six
    by (intro bit_word_eqI)
      (auto simp: bit_and_iff bit_or_iff bit_not_iff bit_mask_iff bit_unsigned_iff bit_take_bit_iff or.assoc
        simp del: or_numerals)
qed

section \<open>Properties\<close>

text \<open>
  The device search is sound and complete for what a scan can reach: a function it returns
  answers at the bus, device and function number it reports and has the requested identifiers;
  when it returns none, no reachable function of any of the 256 buses has them.
\<close>

theorem pci_find_device_correct:
  "case pci_find_device cfg v d of
     Some info \<Rightarrow> pci_vendor_id info = v \<and> pci_device_id info = d \<and>
       reachable_function cfg (pci_bus info) (pci_device info) (pci_function info) info
   | None \<Rightarrow> \<not> (\<exists>bus dev func info. reachable_function cfg bus dev func info \<and>
       pci_vendor_id info = v \<and> pci_device_id info = d)"
proof (cases "pci_find_device cfg v d")
  case None
  then have "find_in_slot cfg v d bus dev = None" if "reachable_function cfg bus dev func info"
    for bus dev func info
    using that by (simp add: find_device_None_iff reachable_function_def)
  then have "\<not> (\<exists>bus dev func info. reachable_function cfg bus dev func info \<and>
      pci_vendor_id info = v \<and> pci_device_id info = d)"
    using find_in_slot_None by metis
  then show ?thesis using None by simp
next
  case (Some info)
  then obtain bus dev func where "reachable_function cfg bus dev func info"
    "pci_vendor_id info = v" "pci_device_id info = d"
    using find_device_SomeD find_in_slot_SomeD by meson
  moreover from this have "pci_bus info = bus \<and> pci_device info = dev \<and> pci_function info = func"
    using read_function_fields by (auto simp: reachable_function_def)
  ultimately show ?thesis using Some by simp
qed

text \<open>
  Two configuration accesses reach the same register exactly when bus, device (modulo 32),
  function (modulo 8) and 4-byte register agree: no access is redirected to another function.
\<close>

theorem pci_config_address_inject:
  "pci_config_address b d f off = pci_config_address b' d' f' off' \<longleftrightarrow>
     b = b' \<and> d AND 0x1F = d' AND 0x1F \<and> f AND 0x07 = f' AND 0x07 \<and> off AND 0xFC = off' AND 0xFC"
  by (rule config_address_inject)

text \<open>
  \<open>enum_pcie\<close> reports exactly the reachable functions of bus 0 and marks that bus alone as
  visited. In particular a function behind a PCI-PCI bridge, on another bus, is never reported,
  although the comment on \<open>enumerate_bus\<close> says that bridges are followed.
\<close>

theorem enum_pcie_bus_zero:
  assumes "length v = 32"
  shows "(info \<in> set (fst (enum_pcie cfg v)) \<longleftrightarrow> (\<exists>dev func. reachable_function cfg 0 dev func info)) \<and>
    (is_bus_visited b (snd (enum_pcie cfg v)) \<longleftrightarrow> b = 0)"
  using set_enumerate_bus [OF not_visited_cleared] is_bus_visited_mark [of "replicate 32 0" b 0]
    not_visited_cleared
  by (simp add: enum_pcie_def clear_bus_visited_eq [OF assms]) (simp add: enumerate_bus_def)

theorem enum_pcie_bus_zero_witness:
  "is_bus_visited 0 (snd (enum_pcie (\<lambda>_. 0xFFFFFFFF) (replicate 32 7)))"
  using enum_pcie_bus_zero [of "replicate 32 7" undefined "\<lambda>_. 0xFFFFFFFF" 0] by simp

text \<open>
  Enabling a function rewrites its command and status register with the memory-space and
  bus-master bits set and every other bit, the status half included, as it was read.
\<close>

theorem pci_enable_sets_bits:
  "pci_enable_mmio_and_bus_mastering cfg fn =
     (let a = pci_config_address (pci_bus fn) (pci_device fn) (pci_function fn) 4
      in [(PCI_CONFIG_ADDRESS, a), (PCI_CONFIG_DATA, cfg a OR 6)])"
  by (simp add: pci_enable_mmio_and_bus_mastering_def pci_config_write32_def pci_config_read32_def
      Let_def command_bits del: or_numerals)

end
