(* ===== verification/Physmem.thy ===== *)
theory Physmem
  imports Prelude
begin

text \<open>
  The physical frame allocator of \<^verbatim>\<open>physmem.cc\<close> and \<^verbatim>\<open>physmem.h\<close>: page numbers and physical
  addresses, the free list, the free ranges of the boot memory map and the per-frame state that
  rejects double frees. \<open>alloc\<close> and \<open>free\<close> change the state under \<open>PhysMem::lock\<close>; the free list,
  threaded through the free frames themselves, is the list of its frames. The zeroing of an
  allocated frame is not part of this state. The theorems show that a tracked frame is never
  handed out twice without being freed in between.
\<close>

section \<open>Addresses\<close>

definition LOG_FRAME_SIZE :: nat where "LOG_FRAME_SIZE = 12"
definition FRAME_SIZE :: u64 where "FRAME_SIZE = push_bit 12 1"

definition PPN_MASK :: u64 where "PPN_MASK = 0xFFFFFFFFFFFF"

text \<open>\<open>PPN(uint64_t)\<close>, \<open>PPN(PA)\<close>, \<open>PA(PPN)\<close> and \<open>Offset(PA)\<close>.\<close>

definition PPN_of :: "u64 \<Rightarrow> u64" where "PPN_of val = val AND PPN_MASK"
definition PPN_of_PA :: "u64 \<Rightarrow> u64" where "PPN_of_PA pa = drop_bit LOG_FRAME_SIZE pa"
definition PA_of_PPN :: "u64 \<Rightarrow> u64" where "PA_of_PPN ppn = push_bit LOG_FRAME_SIZE ppn"
definition Offset_of_PA :: "u64 \<Rightarrow> u16" where "Offset_of_PA pa = ucast (pa AND 0xFFF)"
definition PA_of :: "u64 \<Rightarrow> u16 \<Rightarrow> u64" where
  "PA_of ppn off = push_bit LOG_FRAME_SIZE ppn OR ucast off"

section \<open>State and operations\<close>

datatype memmap_type = Usable | OtherMemory

record memmap_entry =
  mm_base :: u64
  mm_length :: u64
  mm_type :: memmap_type

record Range =
  range_base :: u64
  range_length :: u64

record PhysMem =
  avail_frames :: "u64 list"
  free_ranges :: "Range list"
  total_memory :: u64
  frame_state :: "u64 \<Rightarrow> u8"

definition MAX_TRACKED_PPN :: u64 where "MAX_TRACKED_PPN = 256 * 1024 * 1024 div FRAME_SIZE"

definition ppn_is_tracked :: "u64 \<Rightarrow> bool" where
  "ppn_is_tracked ppn \<longleftrightarrow> ppn < MAX_TRACKED_PPN"

text \<open>The boot loader's memory map is \<open>None\<close> where \<open>limine_memmap.response\<close> is null.\<close>

definition entry_covers :: "u64 \<Rightarrow> memmap_entry \<Rightarrow> bool" where
  "entry_covers pa e \<longleftrightarrow>
     mm_type e = Usable \<and> \<not> mm_length e < FRAME_SIZE \<and>
     \<not> mm_base e + mm_length e < mm_base e \<and>
     pa \<ge> mm_base e \<and> pa \<le> (mm_base e + mm_length e) - FRAME_SIZE"

definition pa_in_usable_range :: "memmap_entry list option \<Rightarrow> u64 \<Rightarrow> bool" where
  "pa_in_usable_range mm pa \<longleftrightarrow>
     (case mm of None \<Rightarrow> False | Some es \<Rightarrow> list_ex (entry_covers pa) es)"

definition add_range :: "memmap_entry \<Rightarrow> PhysMem \<Rightarrow> PhysMem" where
  "add_range e s =
     (if mm_type e = Usable
      then s\<lparr>free_ranges := \<lparr>range_base = mm_base e, range_length = mm_length e\<rparr> # free_ranges s,
             total_memory := total_memory s + mm_length e\<rparr>
      else s)"

definition PhysMem_init :: "memmap_entry list option \<Rightarrow> PhysMem" where
  "PhysMem_init mm =
     (let s = \<lparr>avail_frames = [], free_ranges = [], total_memory = 0, frame_state = (\<lambda>_. 0)\<rparr>
      in case mm of None \<Rightarrow> s | Some es \<Rightarrow> fold add_range es s)"

definition set_frame_state :: "u64 \<Rightarrow> u8 \<Rightarrow> PhysMem \<Rightarrow> PhysMem" where
  "set_frame_state ppn v s =
     (if ppn_is_tracked ppn then s\<lparr>frame_state := (frame_state s)(ppn := v)\<rparr> else s)"

definition PhysMem_alloc :: "PhysMem \<Rightarrow> (u64 \<times> PhysMem) outcome" where
  "PhysMem_alloc s =
     (case avail_frames s of
        ppn # rest \<Rightarrow> Inr (ppn, set_frame_state ppn 1 (s\<lparr>avail_frames := rest\<rparr>))
      | [] \<Rightarrow>
          (case free_ranges s of
             [] \<Rightarrow> Inl (Panic ''out of frames'')
           | r # rs \<Rightarrow>
               let pa = range_base r;
                   s1 = set_frame_state (PPN_of_PA pa) 1 s;
                   r1 = \<lparr>range_base = range_base r + FRAME_SIZE, range_length = range_length r - FRAME_SIZE\<rparr>
               in Inr (PPN_of_PA pa,
                       s1\<lparr>free_ranges := (if range_length r1 = 0 then rs else r1 # rs)\<rparr>)))"

definition PhysMem_free :: "memmap_entry list option \<Rightarrow> u64 \<Rightarrow> PhysMem \<Rightarrow> PhysMem" where
  "PhysMem_free mm ppn s =
     (if ppn = 0 then s
      else if \<not> pa_in_usable_range mm (PA_of_PPN ppn) then s
      else if ppn_is_tracked ppn \<and> frame_state s ppn \<noteq> 1 then s
      else (set_frame_state ppn 2 s)\<lparr>avail_frames := ppn # avail_frames s\<rparr>)"

section \<open>Frames of a range\<close>

lemma FRAME_SIZE_val: "FRAME_SIZE = 4096"
  by (simp add: FRAME_SIZE_def)

lemma MAX_TRACKED_val: "MAX_TRACKED_PPN = 65536"
  by (simp add: MAX_TRACKED_PPN_def FRAME_SIZE_val)

text \<open>The page numbers a range still has to give out.\<close>

definition range_frames :: "Range \<Rightarrow> nat list" where
  "range_frames r = [unat (range_base r) div 4096 ..< (unat (range_base r) + unat (range_length r)) div 4096]"

text \<open>A range of the boot memory map: whole frames, at least one, inside tracked memory.\<close>

definition wf_range :: "Range \<Rightarrow> bool" where
  "wf_range r \<longleftrightarrow>
     unat (range_base r) mod 4096 = 0 \<and> unat (range_length r) mod 4096 = 0 \<and>
     0 < unat (range_length r) \<and> unat (range_base r) + unat (range_length r) \<le> 2 ^ 28"

definition pool_frames :: "PhysMem \<Rightarrow> nat list" where
  "pool_frames s = map unat (avail_frames s) @ concat (map range_frames (free_ranges s))"

text \<open>
  The invariant: the frames on the free list and in the ranges are all different; listed frames
  are in state 2 and frames still in a range in state 0.
\<close>

definition phys_inv :: "PhysMem \<Rightarrow> bool" where
  "phys_inv s \<longleftrightarrow>
     (\<forall>r \<in> set (free_ranges s). wf_range r) \<and>
     distinct (pool_frames s) \<and>
     (\<forall>f \<in> set (avail_frames s). ppn_is_tracked f) \<and>
     (\<forall>f. ppn_is_tracked f \<longrightarrow> (frame_state s f = 2 \<longleftrightarrow> f \<in> set (avail_frames s))) \<and>
     (\<forall>r \<in> set (free_ranges s). \<forall>f \<in> set (range_frames r). frame_state s (word_of_nat f) = 0) \<and>
     (\<forall>f. frame_state s f \<in> {0, 1, 2})"

lemma PPN_of_PA_unat: "unat (PPN_of_PA pa) = unat pa div 4096"
  by (simp add: PPN_of_PA_def LOG_FRAME_SIZE_def drop_bit_eq_div unat_div)

lemma tracked_iff: "ppn_is_tracked f \<longleftrightarrow> unat f < 65536"
  by (simp add: ppn_is_tracked_def MAX_TRACKED_val word_less_nat_alt)

lemma range_frames_head:
  assumes "wf_range r"
  defines "r1 \<equiv> \<lparr>range_base = range_base r + FRAME_SIZE, range_length = range_length r - FRAME_SIZE\<rparr>"
  shows "range_frames r = unat (PPN_of_PA (range_base r)) # range_frames r1"
    and "range_length r1 \<noteq> 0 \<Longrightarrow> wf_range r1"
    and "range_length r1 = 0 \<Longrightarrow> range_frames r1 = []"
    and "ppn_is_tracked (PPN_of_PA (range_base r))"
proof -
  let ?b = "unat (range_base r)" and ?l = "unat (range_length r)"
  have w: "?b mod 4096 = 0" "?l mod 4096 = 0" "0 < ?l" "?b + ?l \<le> 2 ^ 28"
    using assms(1) by (simp_all add: wf_range_def)
  then have l: "4096 \<le> ?l" by (auto intro: ccontr)
  have b1: "unat (range_base r1) = ?b + 4096"
    using w l by (simp add: r1_def FRAME_SIZE_val unat_word_ariths)
  have l1: "unat (range_length r1) = ?l - 4096"
    using l by (simp add: r1_def FRAME_SIZE_val unat_sub word_le_nat_alt)
  have b4: "(?b + 4096) div 4096 = Suc (?b div 4096)"
    by simp
  have "?b div 4096 < (?b + ?l) div 4096"
    using div_le_mono [of "?b + 4096" "?b + ?l" 4096] l b4 by linarith
  moreover have "?b + 4096 + (?l - 4096) = ?b + ?l"
    using l by simp
  ultimately show "range_frames r = unat (PPN_of_PA (range_base r)) # range_frames r1"
    unfolding range_frames_def PPN_of_PA_unat b1 l1 by (simp only: b4 upt_conv_Cons)
  show "wf_range r1" if "range_length r1 \<noteq> 0"
    using that w l by (simp add: wf_range_def b1 l1 mod_add_self2 unat_gt_0 [symmetric] le_mod_geq)
  show "range_frames r1 = []" if "range_length r1 = 0"
    using that l1 by (simp add: range_frames_def)
  show "ppn_is_tracked (PPN_of_PA (range_base r))"
    using w l by (simp add: tracked_iff PPN_of_PA_unat)
qed

section \<open>Allocation and release keep the pool consistent\<close>

lemma unat_eqI: "unat x = unat y \<Longrightarrow> x = y"
  by (rule unsigned_word_eqI)

lemma unat_of_nat_u64: "k < 2 ^ 64 \<Longrightarrow> unat (word_of_nat k :: u64) = k"
  by (simp add: unat_of_nat)

lemma phys_inv_alloc_list:
  assumes "phys_inv s" and "avail_frames s = ppn # rest"
  shows "phys_inv (set_frame_state ppn 1 (s\<lparr>avail_frames := rest\<rparr>))"
proof -
  have d: "distinct (unat ppn # map unat rest @ concat (map range_frames (free_ranges s)))"
    and tr: "ppn_is_tracked ppn" and st: "frame_state s ppn = 2"
    using assms by (auto simp: phys_inv_def pool_frames_def)
  have "ppn \<notin> set rest"
    using d by auto
  moreover have "word_of_nat f \<noteq> ppn" if "r \<in> set (free_ranges s)" "f \<in> set (range_frames r)" for r f
  proof
    assume "word_of_nat f = ppn"
    then have "frame_state s ppn = 0"
      using assms(1) that by (auto simp: phys_inv_def)
    with st show False by simp
  qed
  ultimately show ?thesis
    using assms d tr by (auto simp: phys_inv_def set_frame_state_def pool_frames_def)
qed

lemma phys_inv_alloc_range:
  assumes inv: "phys_inv s" and r: "free_ranges s = r # rs"
  defines "r1 \<equiv> \<lparr>range_base = range_base r + FRAME_SIZE, range_length = range_length r - FRAME_SIZE\<rparr>"
  shows "frame_state s (PPN_of_PA (range_base r)) = 0"
    and "phys_inv ((set_frame_state (PPN_of_PA (range_base r)) 1 s)
      \<lparr>free_ranges := (if range_length r1 = 0 then rs else r1 # rs)\<rparr>)"
proof -
  let ?f = "PPN_of_PA (range_base r)"
  have "wf_range r"
    using inv r by (simp add: phys_inv_def)
  note h = range_frames_head [OF this, folded r1_def]
  have f: "unat ?f \<in> set (range_frames r)"
    by (simp add: h(1))
  then show st: "frame_state s ?f = 0"
    using inv r by (fastforce simp: phys_inv_def)
  define rs1 where "rs1 = (if range_length r1 = 0 then rs else r1 # rs)"
  have rf1: "concat (map range_frames rs1) = range_frames r1 @ concat (map range_frames rs)"
    using h(3) by (simp add: rs1_def)
  have d: "distinct (map unat (avail_frames s) @ unat ?f # concat (map range_frames rs1))"
    using inv r h(1) by (simp add: phys_inv_def pool_frames_def rf1)
  have sub: "set (range_frames x) \<subseteq> set (concat (map range_frames rs1))" if "x \<in> set rs1" for x
    using that by auto
  have other: "word_of_nat k \<noteq> ?f \<and> frame_state s (word_of_nat k) = 0"
    if "x \<in> set rs1" "k \<in> set (range_frames x)" for x k
  proof -
    have k: "k \<in> set (range_frames r1 @ concat (map range_frames rs))"
      using sub [OF that(1)] that(2) rf1 by auto
    then have z: "frame_state s (word_of_nat k) = 0"
      using inv r h(1) by (fastforce simp: phys_inv_def)
    have "k \<in> set (concat (map range_frames (free_ranges s)))"
      using k r h(1) by auto
    then obtain y where "y \<in> set (free_ranges s)" "k \<in> set (range_frames y)"
      by auto
    then have "k < 2 ^ 64"
      using inv by (auto simp: phys_inv_def range_frames_def wf_range_def)
    moreover have "k \<noteq> unat ?f"
      using d k rf1 by auto
    ultimately have "word_of_nat k \<noteq> ?f"
      using unat_of_nat_u64 [of k] by auto
    with z show ?thesis by simp
  qed
  have wf: "\<forall>x \<in> set rs1. wf_range x"
    using inv r h(2) by (auto simp: rs1_def phys_inv_def)
  show "phys_inv ((set_frame_state ?f 1 s)\<lparr>free_ranges := rs1\<rparr>)"
    using inv d wf other h(4) st
    by (auto simp: phys_inv_def set_frame_state_def pool_frames_def)
qed

lemma PhysMem_alloc_cases:
  assumes "phys_inv s" and "PhysMem_alloc s = Inr (ppn, s')"
  shows "phys_inv s' \<and> ppn_is_tracked ppn \<and> frame_state s ppn \<noteq> 1 \<and>
    frame_state s' = (frame_state s)(ppn := 1)"
proof (cases "avail_frames s")
  case (Cons f rest)
  then have eq: "ppn = f" "s' = set_frame_state f 1 (s\<lparr>avail_frames := rest\<rparr>)"
    using assms(2) by (auto simp: PhysMem_alloc_def)
  have "ppn_is_tracked f \<and> frame_state s f = 2"
    using assms(1) Cons by (simp add: phys_inv_def)
  then show "phys_inv s' \<and> ppn_is_tracked ppn \<and> frame_state s ppn \<noteq> 1 \<and>
      frame_state s' = (frame_state s)(ppn := 1)"
    using phys_inv_alloc_list [OF assms(1) Cons] eq by (simp add: set_frame_state_def)
next
  case Nil
  then obtain r rs where r: "free_ranges s = r # rs"
    using assms(2) by (auto simp: PhysMem_alloc_def split: list.splits)
  have wf: "wf_range r"
    using assms(1) r by (simp add: phys_inv_def)
  show "phys_inv s' \<and> ppn_is_tracked ppn \<and> frame_state s ppn \<noteq> 1 \<and>
      frame_state s' = (frame_state s)(ppn := 1)"
    using phys_inv_alloc_range [OF assms(1) r] range_frames_head(4) [OF wf] assms(2) Nil r
    by (auto simp: PhysMem_alloc_def Let_def set_frame_state_def)
qed

lemma phys_inv_free:
  assumes "phys_inv s" and "ppn_is_tracked ppn"
  shows "phys_inv (PhysMem_free mm ppn s)"
proof (cases "ppn = 0 \<or> \<not> pa_in_usable_range mm (PA_of_PPN ppn) \<or> frame_state s ppn \<noteq> 1")
  case True
  then show ?thesis using assms by (auto simp: PhysMem_free_def)
next
  case False
  then have st: "frame_state s ppn = 1" by simp
  then have "ppn \<notin> set (avail_frames s)"
    using assms by (auto simp: phys_inv_def)
  moreover have "word_of_nat f \<noteq> ppn" if "r \<in> set (free_ranges s)" "f \<in> set (range_frames r)" for r f
    using that assms(1) st by (fastforce simp: phys_inv_def)
  then have "unat ppn \<notin> set (concat (map range_frames (free_ranges s)))"
    by fastforce
  ultimately have "distinct (pool_frames (s\<lparr>avail_frames := ppn # avail_frames s\<rparr>))"
    using assms(1) by (auto simp: phys_inv_def pool_frames_def dest: unat_eqI)
  with assms False \<open>\<And>r f. r \<in> set (free_ranges s) \<Longrightarrow> f \<in> set (range_frames r) \<Longrightarrow> word_of_nat f \<noteq> ppn\<close>
  show ?thesis
    by (auto simp: PhysMem_free_def phys_inv_def set_frame_state_def pool_frames_def)
qed

section \<open>Runs of the allocator\<close>

text \<open>
  The boot memory map as the loader documents it: usable entries are whole frames, not empty and
  disjoint; the machine has at most 256 MB, so that every frame is tracked.
\<close>

definition entry_range :: "memmap_entry \<Rightarrow> Range" where
  "entry_range e = \<lparr>range_base = mm_base e, range_length = mm_length e\<rparr>"

definition wf_memmap :: "memmap_entry list \<Rightarrow> bool" where
  "wf_memmap es \<longleftrightarrow>
     (let rs = map entry_range (filter (\<lambda>e. mm_type e = Usable) es)
      in list_all wf_range rs \<and> distinct (concat (map range_frames rs)))"

lemma fold_add_range:
  "free_ranges (fold add_range es s) =
     rev (map entry_range (filter (\<lambda>e. mm_type e = Usable) es)) @ free_ranges s \<and>
   avail_frames (fold add_range es s) = avail_frames s \<and>
   frame_state (fold add_range es s) = frame_state s"
  by (induction es arbitrary: s) (simp_all add: add_range_def entry_range_def)

lemma distinct_concat_rev: "distinct (concat (rev xs)) \<longleftrightarrow> distinct (concat xs)"
  by (induction xs) auto

lemma phys_inv_init:
  assumes "wf_memmap es"
  shows "phys_inv (PhysMem_init (Some es))"
  using assms fold_add_range [of es]
  by (auto simp: PhysMem_init_def Let_def wf_memmap_def phys_inv_def pool_frames_def list_all_iff
      rev_map [symmetric] distinct_concat_rev simp flip: rev_concat)

text \<open>
  Runs from boot, with the set of frames that have been handed out and not been passed to
  \<open>free\<close> since.
\<close>

inductive phys_run :: "memmap_entry list \<Rightarrow> PhysMem \<Rightarrow> u64 set \<Rightarrow> bool"
  for es :: "memmap_entry list" where
  boot: "phys_run es (PhysMem_init (Some es)) {}"
| alloc: "phys_run es s H \<Longrightarrow> PhysMem_alloc s = Inr (ppn, s') \<Longrightarrow> phys_run es s' (insert ppn H)"
| free: "phys_run es s H \<Longrightarrow> ppn_is_tracked ppn \<Longrightarrow>
    phys_run es (PhysMem_free (Some es) ppn s) (H - {ppn})"

lemma phys_run_inv:
  assumes "phys_run es s H" and "wf_memmap es"
  shows "phys_inv s \<and> (\<forall>f \<in> H. frame_state s f = 1)"
  using assms(1)
proof induction
  case boot
  then show ?case using phys_inv_init [OF assms(2)] by simp
next
  case (alloc s H ppn s')
  then show ?case using PhysMem_alloc_cases [of s ppn s'] by auto
next
  case (free s H ppn)
  then show ?case
    using phys_inv_free by (auto simp: PhysMem_free_def set_frame_state_def)
qed

section \<open>Properties\<close>

text \<open>
  C20. No double allocation: in every run of allocations and frees from boot, double frees and
  frees of frames never handed out included, \<open>alloc\<close> only returns a frame that is not in use,
  whichever of the free list and the ranges it comes from.
\<close>

theorem alloc_never_in_use:
  assumes "wf_memmap es" and "phys_run es s H" and "PhysMem_alloc s = Inr (ppn, s')"
  shows "ppn \<notin> H \<and> ppn_is_tracked ppn \<and> phys_run es s' (insert ppn H)"
  using phys_run_inv [OF assms(2,1)] PhysMem_alloc_cases [OF _ assms(3)] assms(2,3)
  by (auto intro: phys_run.alloc)

text \<open>A boot memory map of two usable frames at 1 MB.\<close>

definition demo_memmap :: "memmap_entry list" where
  "demo_memmap = [\<lparr>mm_base = 0x100000, mm_length = 0x2000, mm_type = Usable\<rparr>]"

lemma demo_memmap_wf: "wf_memmap demo_memmap"
  by (simp add: demo_memmap_def wf_memmap_def entry_range_def wf_range_def range_frames_def)

theorem alloc_never_in_use_witness:
  "(case PhysMem_alloc (PhysMem_init (Some demo_memmap)) of
      Inl _ \<Rightarrow> False
    | Inr (ppn, s') \<Rightarrow> ppn = 256 \<and> ppn_is_tracked ppn \<and> phys_run demo_memmap s' {ppn})"
proof -
  obtain s' where a: "PhysMem_alloc (PhysMem_init (Some demo_memmap)) = Inr (256, s')"
    by (simp add: PhysMem_alloc_def PhysMem_init_def demo_memmap_def add_range_def Let_def
        PPN_of_PA_def LOG_FRAME_SIZE_def set_frame_state_def drop_bit_eq_div)
  with alloc_never_in_use [OF demo_memmap_wf phys_run.boot a] show ?thesis
    by simp
qed

end
