(* ===== verification/Virtio_Hw.thy ===== *)
theory Virtio_Hw
  imports Virtqueue Pcie Physmem
begin

text \<open>
  The virtio PCI backend of \<^verbatim>\<open>virtio_net.cc\<close>: \<open>g_hw\<close>, capability parsing, feature negotiation,
  queue set-up, and the transmit and receive rings shared with the device. The device is a
  parameter: \<open>rd\<close> and \<open>wr\<close> are the accesses to its registers, on a device state of any type \<open>'d\<close>,
  and its writes into the used rings are steps of their own. Queue and buffer pages come from the
  frame allocator and start zeroed, as \<open>PhysMem::alloc\<close> leaves them. The theorems show that the
  driver never touches a transmit buffer the device still owns.
\<close>

section \<open>State\<close>

definition k_virtio_hdr_size :: nat where "k_virtio_hdr_size = 12"
definition k_virtio_buffer_size :: nat where
  "k_virtio_buffer_size = k_virtio_hdr_size + VIRTIO_NET_MAX_FRAME_SIZE"

record VirtioNetHdr =
  vhdr_flags :: u8
  gso_type :: u8
  hdr_len :: u16
  gso_size :: u16
  csum_start :: u16
  csum_offset :: u16
  num_buffers :: u16

definition write_VirtioNetHdr :: "VirtioNetHdr \<Rightarrow> bytes" where
  "write_VirtioNetHdr h =
     [vhdr_flags h, gso_type h] @ le16_bytes (hdr_len h) @ le16_bytes (gso_size h) @
     le16_bytes (csum_start h) @ le16_bytes (csum_offset h) @ le16_bytes (num_buffers h)"

definition zero_hdr :: VirtioNetHdr where
  "zero_hdr = \<lparr>vhdr_flags = 0, gso_type = 0, hdr_len = 0, gso_size = 0, csum_start = 0,
     csum_offset = 0, num_buffers = 0\<rparr>"

record VirtioPciRegion =
  present :: bool
  region_bar :: u8
  region_offset :: u32
  region_length :: u32

record VirtioPciLayout =
  lay_common :: VirtioPciRegion
  lay_notify :: VirtioPciRegion
  lay_isr :: VirtioPciRegion
  lay_device :: VirtioPciRegion
  notify_multiplier :: u32

record VirtioBuffer =
  buf_data :: bytes
  buf_pa :: u64
  in_use :: bool
  buf_len :: u16

record VirtioQueue =
  q_desc :: "VirtioNetDescriptor list"
  q_avail :: VirtioNetAvailRing
  q_used :: VirtioNetUsedRing
  q_desc_pa :: u64
  q_avail_pa :: u64
  q_used_pa :: u64
  q_notify :: "u64 option"
  q_used_consume :: u16
  q_pending :: u16

text \<open>
  \<open>doorbell\<close> is not a member of the structure: it records the writes \<open>notify_queue\<close> makes to the
  device, newest first.
\<close>

record VirtioHwState =
  hw_ready :: bool
  hw_pci :: "PciFunction option"
  hw_layout :: VirtioPciLayout
  hw_common :: "u64 option"
  hw_device_cfg :: "u64 option"
  hw_rx :: VirtioQueue
  hw_tx :: VirtioQueue
  hw_rx_buffers :: "VirtioBuffer list"
  hw_tx_buffers :: "VirtioBuffer list"
  hw_mac :: bytes
  hw_features :: u64
  doorbell :: "(u64 \<times> u16) list"

definition zero_region :: VirtioPciRegion where
  "zero_region = \<lparr>present = False, region_bar = 0, region_offset = 0, region_length = 0\<rparr>"

definition zero_layout :: VirtioPciLayout where
  "zero_layout = \<lparr>lay_common = zero_region, lay_notify = zero_region, lay_isr = zero_region,
     lay_device = zero_region, notify_multiplier = 0\<rparr>"

definition zero_queue :: VirtioQueue where
  "zero_queue = \<lparr>q_desc = [], q_avail = zero_avail, q_used = zero_used, q_desc_pa = 0, q_avail_pa = 0,
     q_used_pa = 0, q_notify = None, q_used_consume = 0, q_pending = 0\<rparr>"

definition zero_buffer :: VirtioBuffer where
  "zero_buffer = \<lparr>buf_data = [], buf_pa = 0, in_use = False, buf_len = 0\<rparr>"

definition zero_hw :: "(u64 \<times> u16) list \<Rightarrow> VirtioHwState" where
  "zero_hw bells = \<lparr>hw_ready = False, hw_pci = None, hw_layout = zero_layout, hw_common = None,
     hw_device_cfg = None, hw_rx = zero_queue, hw_tx = zero_queue,
     hw_rx_buffers = replicate VIRTIO_NET_QUEUE_SIZE zero_buffer,
     hw_tx_buffers = replicate VIRTIO_NET_QUEUE_SIZE zero_buffer, hw_mac = replicate 6 0,
     hw_features = 0, doorbell = bells\<rparr>"

section \<open>Discovery of the register layout\<close>

definition map_pci_region ::
  "config_space \<Rightarrow> (u64 \<Rightarrow> u64 \<Rightarrow> u64) \<Rightarrow> PciFunction \<Rightarrow> VirtioPciRegion \<Rightarrow> u64 option" where
  "map_pci_region cfg map_mmio fn region =
     (if \<not> present region then None
      else let base = pci_read_bar cfg fn (region_bar region)
           in if base = 0 then None
              else Some (map_mmio (base + ucast (region_offset region)) (ucast (region_length region))))"

definition store_region :: "u8 \<Rightarrow> u32 \<Rightarrow> u32 \<Rightarrow> VirtioPciRegion" where
  "store_region bar offset len =
     \<lparr>present = True, region_bar = bar, region_offset = offset, region_length = len\<rparr>"

text \<open>One iteration of the capability loop, and the loop, which gives up after 48 capabilities.\<close>

definition parse_vendor_cap ::
  "config_space \<Rightarrow> PciFunction \<Rightarrow> u8 \<Rightarrow> VirtioPciLayout \<Rightarrow> VirtioPciLayout" where
  "parse_vendor_cap cfg fn cap layout =
     (let r8 = pci_config_read8 cfg (pci_bus fn) (pci_device fn) (pci_function fn);
          r32 = pci_config_read32 cfg (pci_bus fn) (pci_device fn) (pci_function fn);
          cfg_type = r8 (cap + 3);
          bar = r8 (cap + 4);
          offset = r32 (cap + 8);
          len = r32 (cap + 12)
      in if bar < 6 then
           if cfg_type = 1 then layout\<lparr>lay_common := store_region bar offset len\<rparr>
           else if cfg_type = 2
             then layout\<lparr>lay_notify := store_region bar offset len, notify_multiplier := r32 (cap + 16)\<rparr>
           else if cfg_type = 3 then layout\<lparr>lay_isr := store_region bar offset len\<rparr>
           else if cfg_type = 4 then layout\<lparr>lay_device := store_region bar offset len\<rparr>
           else layout
         else layout)"

fun parse_caps :: "config_space \<Rightarrow> PciFunction \<Rightarrow> nat \<Rightarrow> u8 \<Rightarrow> VirtioPciLayout \<Rightarrow> VirtioPciLayout" where
  "parse_caps cfg fn 0 cap layout = layout"
| "parse_caps cfg fn (Suc n) cap layout =
     (if cap = 0 then layout
      else
        let r8 = pci_config_read8 cfg (pci_bus fn) (pci_device fn) (pci_function fn);
            cap_id = r8 cap;
            next_cap = r8 (cap + 1) AND 0xFC;
            layout1 = (if cap_id = 0x09 then parse_vendor_cap cfg fn cap layout else layout)
        in parse_caps cfg fn n next_cap layout1)"

definition parse_virtio_pci_layout :: "config_space \<Rightarrow> PciFunction \<Rightarrow> bool \<times> VirtioPciLayout" where
  "parse_virtio_pci_layout cfg fn =
     (let cap = pci_config_read8 cfg (pci_bus fn) (pci_device fn) (pci_function fn) 0x34 AND 0xFC;
          layout = parse_caps cfg fn 48 cap zero_layout
      in (present (lay_common layout) \<and> present (lay_notify layout), layout))"

section \<open>Device registers\<close>

text \<open>The members of \<open>VirtioPciCommonCfg\<close> the driver uses, and the bytes of the device configuration.\<close>

datatype virtio_reg =
    Device_feature_select | Device_feature | Driver_feature_select | Driver_feature | Device_status
  | Queue_select | Queue_size | Queue_enable | Queue_notify_off | Queue_desc | Queue_driver
  | Queue_device | Device_cfg_byte nat

text \<open>Width of a register in bits; a read gives no more.\<close>

fun reg_width :: "virtio_reg \<Rightarrow> nat" where
  "reg_width Device_feature_select = 32"
| "reg_width Device_feature = 32"
| "reg_width Driver_feature_select = 32"
| "reg_width Driver_feature = 32"
| "reg_width Device_status = 8"
| "reg_width Queue_select = 16"
| "reg_width Queue_size = 16"
| "reg_width Queue_enable = 16"
| "reg_width Queue_notify_off = 16"
| "reg_width Queue_desc = 64"
| "reg_width Queue_driver = 64"
| "reg_width Queue_device = 64"
| "reg_width (Device_cfg_byte _) = 8"

type_synonym 'd reg_read = "virtio_reg \<Rightarrow> 'd \<Rightarrow> u64 \<times> 'd"
type_synonym 'd reg_write = "virtio_reg \<Rightarrow> u64 \<Rightarrow> 'd \<Rightarrow> 'd"

definition read_reg :: "'d reg_read \<Rightarrow> virtio_reg \<Rightarrow> 'd \<Rightarrow> u64 \<times> 'd" where
  "read_reg rd r d = (case rd r d of (v, d1) \<Rightarrow> (take_bit (reg_width r) v, d1))"

definition read_device_features :: "'d reg_read \<Rightarrow> 'd reg_write \<Rightarrow> 'd \<Rightarrow> u64 \<times> 'd" where
  "read_device_features rd wr d =
     (let (low, d1) = read_reg rd Device_feature (wr Device_feature_select 0 d);
          (high, d2) = read_reg rd Device_feature (wr Device_feature_select 1 d1)
      in (low OR push_bit 32 high, d2))"

definition write_driver_features :: "'d reg_write \<Rightarrow> u64 \<Rightarrow> 'd \<Rightarrow> 'd" where
  "write_driver_features wr features d =
     wr Driver_feature (take_bit 32 (drop_bit 32 features))
       (wr Driver_feature_select 1
         (wr Driver_feature (take_bit 32 features) (wr Driver_feature_select 0 d)))"

definition add_device_status :: "'d reg_read \<Rightarrow> 'd reg_write \<Rightarrow> u8 \<Rightarrow> 'd \<Rightarrow> 'd" where
  "add_device_status rd wr status d =
     (let (v, d1) = read_reg rd Device_status d in wr Device_status (v OR ucast status) d1)"

text \<open>The polling loop, with the number of reads still allowed.\<close>

fun reset_loop :: "'d reg_read \<Rightarrow> nat \<Rightarrow> 'd \<Rightarrow> bool \<times> 'd" where
  "reset_loop rd n d =
     (if n = 0 then (False, d)
      else let (v, d1) = read_reg rd Device_status d
           in if v = 0 then (True, d1) else reset_loop rd (n - 1) d1)"

declare reset_loop.simps [simp del]

definition wait_for_reset :: "'d reg_read \<Rightarrow> 'd \<Rightarrow> bool \<times> 'd" where
  "wait_for_reset rd d = reset_loop rd 1000000 d"

section \<open>Queue set-up\<close>

definition zero_page :: bytes where "zero_page = replicate 4096 0"

definition alloc_queue_pages :: "VirtioQueue \<Rightarrow> PhysMem \<Rightarrow> (VirtioQueue \<times> PhysMem) outcome" where
  "alloc_queue_pages queue m =
     bind_outcome (PhysMem_alloc m) (\<lambda>(desc_ppn, m1).
     bind_outcome (PhysMem_alloc m1) (\<lambda>(avail_ppn, m2).
     bind_outcome (PhysMem_alloc m2) (\<lambda>(used_ppn, m3).
       Inr (queue\<lparr>q_desc := replicate VIRTIO_NET_QUEUE_SIZE zero_desc, q_avail := zero_avail,
                  q_used := zero_used, q_desc_pa := PA_of_PPN desc_ppn,
                  q_avail_pa := PA_of_PPN avail_ppn, q_used_pa := PA_of_PPN used_ppn,
                  q_used_consume := 0, q_pending := 0\<rparr>, m3))))"

fun alloc_packet_buffers_loop ::
  "nat list \<Rightarrow> VirtioBuffer list \<Rightarrow> PhysMem \<Rightarrow> (VirtioBuffer list \<times> PhysMem) outcome" where
  "alloc_packet_buffers_loop [] bufs m = Inr (bufs, m)"
| "alloc_packet_buffers_loop (i # is) bufs m =
     bind_outcome (PhysMem_alloc m) (\<lambda>(ppn, m1).
       alloc_packet_buffers_loop is
         (bufs[i := \<lparr>buf_data = zero_page, buf_pa = PA_of_PPN ppn, in_use = False, buf_len = 0\<rparr>]) m1)"

definition alloc_packet_buffers ::
  "VirtioBuffer list \<Rightarrow> PhysMem \<Rightarrow> (VirtioBuffer list \<times> PhysMem) outcome" where
  "alloc_packet_buffers bufs m = alloc_packet_buffers_loop [0..<VIRTIO_NET_QUEUE_SIZE] bufs m"

definition setup_virtqueue ::
  "'d reg_read \<Rightarrow> 'd reg_write \<Rightarrow> u64 \<Rightarrow> u32 \<Rightarrow> u16 \<Rightarrow> VirtioQueue \<Rightarrow> PhysMem \<Rightarrow> 'd
     \<Rightarrow> (bool \<times> VirtioQueue \<times> PhysMem \<times> 'd) outcome" where
  "setup_virtqueue rd wr notify_base mult queue_index queue m d =
     (let (max_size, d1) = read_reg rd Queue_size (wr Queue_select (ucast queue_index) d)
      in if unat max_size < VIRTIO_NET_QUEUE_SIZE then Inr (False, queue, m, d1)
         else bind_outcome (alloc_queue_pages queue m) (\<lambda>(queue1, m1).
           let d2 = wr Queue_size (word_of_nat VIRTIO_NET_QUEUE_SIZE) d1;
               d3 = wr Queue_desc (q_desc_pa queue1) d2;
               d4 = wr Queue_driver (q_avail_pa queue1) d3;
               d5 = wr Queue_device (q_used_pa queue1) d4;
               (notify_off, d6) = read_reg rd Queue_notify_off d5;
               queue2 = queue1\<lparr>q_notify :=
                 Some (notify_base + ucast (ucast notify_off * mult :: u32))\<rparr>
           in Inr (True, queue2, m1, wr Queue_enable 1 d6)))"

definition notify_queue :: "VirtioQueue \<Rightarrow> u16 \<Rightarrow> VirtioHwState \<Rightarrow> VirtioHwState" where
  "notify_queue queue queue_index hw =
     (case q_notify queue of
        None \<Rightarrow> hw
      | Some a \<Rightarrow> hw\<lparr>doorbell := (a, queue_index) # doorbell hw\<rparr>)"

definition VIRTIO_NET_RX_QUEUE :: u16 where "VIRTIO_NET_RX_QUEUE = 0"
definition VIRTIO_NET_TX_QUEUE :: u16 where "VIRTIO_NET_TX_QUEUE = 1"

definition rx_descriptor :: "VirtioBuffer \<Rightarrow> VirtioNetDescriptor" where
  "rx_descriptor b = \<lparr>desc_addr = buf_pa b, desc_len = word_of_nat k_virtio_buffer_size,
     desc_flags = VIRTQ_DESC_F_WRITE, desc_next = 0\<rparr>"

definition init_rx_entry :: "nat \<Rightarrow> VirtioHwState \<Rightarrow> VirtioHwState" where
  "init_rx_entry i hw =
     (let b = (hw_rx_buffers hw ! i)\<lparr>in_use := True, buf_len := 0\<rparr>; q = hw_rx hw
      in hw\<lparr>hw_rx_buffers := (hw_rx_buffers hw)[i := b],
            hw_rx := q\<lparr>q_desc := (q_desc q)[i := rx_descriptor b],
                       q_avail := (q_avail q)\<lparr>avail_ring := (avail_ring (q_avail q))[i := word_of_nat i]\<rparr>\<rparr>\<rparr>)"

definition init_rx_buffers_locked :: "VirtioHwState \<Rightarrow> VirtioHwState" where
  "init_rx_buffers_locked hw =
     (let q = hw_rx hw;
          q0 = q\<lparr>q_avail := (q_avail q)\<lparr>avail_flags := 0, avail_idx := 0\<rparr>,
                 q_used := (q_used q)\<lparr>used_flags := 0, used_idx := 0\<rparr>, q_used_consume := 0\<rparr>;
          hw1 = fold init_rx_entry [0..<VIRTIO_NET_QUEUE_SIZE] (hw\<lparr>hw_rx := q0\<rparr>);
          q1 = hw_rx hw1;
          q2 = q1\<lparr>q_avail := (q_avail q1)\<lparr>avail_idx := word_of_nat VIRTIO_NET_QUEUE_SIZE\<rparr>\<rparr>
      in notify_queue q2 VIRTIO_NET_RX_QUEUE (hw1\<lparr>hw_rx := q2\<rparr>))"

definition init_tx_entry :: "nat \<Rightarrow> VirtioHwState \<Rightarrow> VirtioHwState" where
  "init_tx_entry i hw =
     (let b = (hw_tx_buffers hw ! i)\<lparr>in_use := False, buf_len := 0\<rparr>; q = hw_tx hw
      in hw\<lparr>hw_tx_buffers := (hw_tx_buffers hw)[i := b],
            hw_tx := q\<lparr>q_desc := (q_desc q)[i :=
              \<lparr>desc_addr = buf_pa b, desc_len = 0, desc_flags = 0, desc_next = 0\<rparr>]\<rparr>\<rparr>)"

definition init_tx_buffers_locked :: "VirtioHwState \<Rightarrow> VirtioHwState" where
  "init_tx_buffers_locked hw =
     (let q = hw_tx hw;
          q0 = q\<lparr>q_avail := (q_avail q)\<lparr>avail_flags := 0, avail_idx := 0\<rparr>,
                 q_used := (q_used q)\<lparr>used_flags := 0, used_idx := 0\<rparr>, q_used_consume := 0,
                 q_pending := 0\<rparr>
      in fold init_tx_entry [0..<VIRTIO_NET_QUEUE_SIZE] (hw\<lparr>hw_tx := q0\<rparr>))"

section \<open>Sending and receiving\<close>

definition reclaim_virtio_tx_entry :: "VirtioHwState \<Rightarrow> VirtioHwState" where
  "reclaim_virtio_tx_entry hw =
     (let q = hw_tx hw;
          slot = unat (ucast (used_id (used_ring (q_used q) ! ring_pos (q_used_consume q))) :: u16);
          hw1 = (if slot < VIRTIO_NET_QUEUE_SIZE \<and> in_use (hw_tx_buffers hw ! slot)
                 then hw\<lparr>hw_tx_buffers := (hw_tx_buffers hw)[slot :=
                           (hw_tx_buffers hw ! slot)\<lparr>in_use := False, buf_len := 0\<rparr>],
                         hw_tx := q\<lparr>q_pending := (if q_pending q > 0 then q_pending q - 1 else q_pending q)\<rparr>\<rparr>
                 else hw)
      in hw1\<lparr>hw_tx := (hw_tx hw1)\<lparr>q_used_consume := q_used_consume (hw_tx hw1) + 1\<rparr>\<rparr>)"

lemma reclaim_virtio_tx_entry_fields [simp]:
  "q_used (hw_tx (reclaim_virtio_tx_entry hw)) = q_used (hw_tx hw)"
  "q_used_consume (hw_tx (reclaim_virtio_tx_entry hw)) = q_used_consume (hw_tx hw) + 1"
  by (simp_all add: reclaim_virtio_tx_entry_def Let_def)

function reclaim_virtio_tx_locked :: "VirtioHwState \<Rightarrow> VirtioHwState" where
  "reclaim_virtio_tx_locked hw =
     (if q_used_consume (hw_tx hw) \<noteq> used_idx (q_used (hw_tx hw))
      then reclaim_virtio_tx_locked (reclaim_virtio_tx_entry hw) else hw)"
  by pat_completeness auto
termination
proof (relation "measure (\<lambda>hw. in_ring (used_idx (q_used (hw_tx hw))) (q_used_consume (hw_tx hw)))")
  fix hw :: VirtioHwState
  assume "q_used_consume (hw_tx hw) \<noteq> used_idx (q_used (hw_tx hw))"
  then show "(reclaim_virtio_tx_entry hw, hw) \<in>
      measure (\<lambda>hw. in_ring (used_idx (q_used (hw_tx hw))) (q_used_consume (hw_tx hw)))"
    using in_ring_pop [of "used_idx (q_used (hw_tx hw))" "q_used_consume (hw_tx hw)"] by simp
qed simp

declare reclaim_virtio_tx_locked.simps [simp del]

definition find_free_virtio_tx_slot_locked :: "VirtioHwState \<Rightarrow> nat option" where
  "find_free_virtio_tx_slot_locked hw =
     (if unat (q_pending (hw_tx hw)) \<ge> VIRTIO_NET_QUEUE_SIZE then None
      else find (\<lambda>i. \<not> in_use (hw_tx_buffers hw ! i)) [0..<VIRTIO_NET_QUEUE_SIZE])"

text \<open>The part of \<open>virtio_send_raw_locked\<close> that fills and publishes the chosen slot.\<close>

definition publish_virtio_tx :: "nat \<Rightarrow> bytes \<Rightarrow> nat \<Rightarrow> VirtioHwState \<Rightarrow> VirtioHwState" where
  "publish_virtio_tx slot data n hw =
     (let b = hw_tx_buffers hw ! slot;
          page = write_at k_virtio_hdr_size (take n data)
                   (write_at 0 (write_VirtioNetHdr zero_hdr) (buf_data b));
          total_len = k_virtio_hdr_size + n;
          b1 = b\<lparr>buf_data := page, in_use := True, buf_len := word_of_nat total_len\<rparr>;
          q = hw_tx hw;
          q1 = q\<lparr>q_desc := (q_desc q)[slot :=
                   \<lparr>desc_addr = buf_pa b, desc_len = word_of_nat total_len, desc_flags = 0, desc_next = 0\<rparr>],
                 q_avail := push_avail (word_of_nat slot) (q_avail q),
                 q_pending := q_pending q + 1\<rparr>
      in notify_queue q1 VIRTIO_NET_TX_QUEUE
           (hw\<lparr>hw_tx_buffers := (hw_tx_buffers hw)[slot := b1], hw_tx := q1\<rparr>))"

definition virtio_send_raw_locked :: "bytes \<Rightarrow> nat \<Rightarrow> VirtioHwState \<Rightarrow> bool \<times> VirtioHwState" where
  "virtio_send_raw_locked data n hw =
     (let hw1 = reclaim_virtio_tx_locked hw
      in case find_free_virtio_tx_slot_locked hw1 of
           None \<Rightarrow> (False, hw1)
         | Some slot \<Rightarrow> (True, publish_virtio_tx slot data n hw1))"

text \<open>
  The result of a receive is the returned \<open>int\<close>, the caller's buffer and the state; a device that
  reports more bytes than a buffer page holds makes the copy run out of bounds.
\<close>

definition virtio_recv_raw_locked ::
  "bytes \<Rightarrow> nat \<Rightarrow> VirtioHwState \<Rightarrow> (int \<times> bytes \<times> VirtioHwState) outcome" where
  "virtio_recv_raw_locked out max_len hw =
     (let q = hw_rx hw
      in if q_used_consume q = used_idx (q_used q) then Inr (0, out, hw)
         else
           let elem = used_ring (q_used q) ! ring_pos (q_used_consume q);
               slot = unat (ucast (used_id elem) :: u16);
               total_len = unat (used_len elem)
           in if slot \<ge> VIRTIO_NET_QUEUE_SIZE \<or> total_len < k_virtio_hdr_size
              then Inr (0, out, hw\<lparr>hw_rx := q\<lparr>q_used_consume := q_used_consume q + 1\<rparr>\<rparr>)
              else
                let frame_len = total_len - k_virtio_hdr_size; b = hw_rx_buffers hw ! slot
                in if frame_len > max_len then Inr (-1, out, hw)
                   else if total_len > length (buf_data b) then Inl OutOfBounds
                   else
                     bind_outcome (store_at 0 (segment k_virtio_hdr_size frame_len (buf_data b)) out) (\<lambda>out1.
                       let q1 = q\<lparr>q_desc := (q_desc q)[slot := rx_descriptor b],
                                  q_used_consume := q_used_consume q + 1,
                                  q_avail := push_avail (word_of_nat slot) (q_avail q)\<rparr>
                       in Inr (int frame_len, out1,
                            notify_queue q1 VIRTIO_NET_RX_QUEUE (hw\<lparr>hw_rx := q1\<rparr>))))"

section \<open>Ownership of transmit buffers\<close>

definition tx_done :: "VirtioHwState \<Rightarrow> nat" where
  "tx_done hw = in_ring (used_idx (q_used (hw_tx hw))) (q_used_consume (hw_tx hw))"

definition tx_done_slot :: "VirtioHwState \<Rightarrow> nat \<Rightarrow> nat" where
  "tx_done_slot hw j = elem_slot (ring_at (used_ring (q_used (hw_tx hw))) (q_used_consume (hw_tx hw)) j)"

text \<open>
  \<open>F\<close> is the set of slots the device owns: published and not yet completed. Completions not yet
  reclaimed name slots outside it, each once; a buffer is in use exactly when the device owns it or
  its completion waits to be reclaimed, and \<open>pending\<close> counts these buffers.
\<close>

definition hw_tx_inv :: "nat set \<Rightarrow> VirtioHwState \<Rightarrow> bool" where
  "hw_tx_inv F hw \<longleftrightarrow>
     length (hw_tx_buffers hw) = 8 \<and> (\<forall>i < 8. length (buf_data (hw_tx_buffers hw ! i)) = 4096) \<and>
     length (q_desc (hw_tx hw)) = 8 \<and> length (used_ring (q_used (hw_tx hw))) = 8 \<and>
     length (avail_ring (q_avail (hw_tx hw))) = 8 \<and> F \<subseteq> {0..<8} \<and>
     inj_on (tx_done_slot hw) {0..<tx_done hw} \<and>
     (\<forall>j < tx_done hw. tx_done_slot hw j < 8 \<and> tx_done_slot hw j \<notin> F) \<and>
     (\<forall>i < 8. in_use (hw_tx_buffers hw ! i) \<longleftrightarrow> i \<in> F \<or> (\<exists>j < tx_done hw. tx_done_slot hw j = i)) \<and>
     unat (q_pending (hw_tx hw)) = card F + tx_done hw"

lemma hw_tx_inv_card:
  assumes "hw_tx_inv F hw"
  shows "card F + tx_done hw \<le> 8"
proof -
  let ?D = "tx_done_slot hw ` {0..<tx_done hw}"
  have inj: "inj_on (tx_done_slot hw) {0..<tx_done hw}" and F: "F \<subseteq> {0..<8}"
    and D: "?D \<subseteq> {0..<8}" and disj: "F \<inter> ?D = {}"
    using assms by (auto simp: hw_tx_inv_def)
  have "card F + tx_done hw = card F + card ?D"
    using inj by (simp add: card_image)
  also have "\<dots> = card (F \<union> ?D)"
    using F disj by (simp add: card_Un_disjoint finite_subset [OF F])
  also have "\<dots> \<le> card {0..<8::nat}"
    using F D by (intro card_mono) auto
  finally show ?thesis by simp
qed

text \<open>What the device does on its own: complete a slot it owns.\<close>

definition device_complete_tx :: "nat \<Rightarrow> u32 \<Rightarrow> VirtioHwState \<Rightarrow> VirtioHwState" where
  "device_complete_tx slot n hw =
     hw\<lparr>hw_tx := (hw_tx hw)\<lparr>q_used := push_used (word_of_nat slot) n (q_used (hw_tx hw))\<rparr>\<rparr>"

lemma hw_tx_inv_complete:
  assumes inv: "hw_tx_inv F hw" and s: "s \<in> F"
  shows "hw_tx_inv (F - {s}) (device_complete_tx s n hw)"
proof -
  let ?hw = "device_complete_tx s n hw"
  have s8: "s < 8" and fin: "finite F"
    using inv s finite_subset [of F "{0..<8}"] by (auto simp: hw_tx_inv_def)
  have "0 < card F"
    using s fin by (auto simp: card_gt_0_iff)
  then have room: "tx_done hw < 8"
    using hw_tx_inv_card [OF inv] by simp
  have done1: "tx_done ?hw = Suc (tx_done hw)"
    using room in_ring_push [of "used_idx (q_used (hw_tx hw))" "q_used_consume (hw_tx hw)"]
    by (simp add: tx_done_def device_complete_tx_def push_used_def)
  have slot1: "tx_done_slot ?hw j = (if j = tx_done hw then s else tx_done_slot hw j)"
    if "j \<le> tx_done hw" for j
    using that room inv s8
      ring_at_push [of "used_ring (q_used (hw_tx hw))" "used_idx (q_used (hw_tx hw))"
        "q_used_consume (hw_tx hw)" j]
    by (simp add: tx_done_slot_def tx_done_def device_complete_tx_def push_used_def hw_tx_inv_def)
  have old: "tx_done_slot hw j \<noteq> s" if "j < tx_done hw" for j
    using inv s that by (auto simp: hw_tx_inv_def)
  have "inj_on (tx_done_slot hw) {0..<tx_done hw}"
    using inv by (simp add: hw_tx_inv_def)
  then have "inj_on (tx_done_slot ?hw) {0..<tx_done ?hw}"
    using old unfolding done1 by (auto simp: inj_on_def slot1 less_Suc_eq) metis
  moreover have "\<forall>j < tx_done ?hw. tx_done_slot ?hw j < 8 \<and> tx_done_slot ?hw j \<notin> F - {s}"
    using inv s8 by (auto simp: done1 slot1 less_Suc_eq hw_tx_inv_def)
  moreover have "(\<exists>j < tx_done ?hw. tx_done_slot ?hw j = i) \<longleftrightarrow> i = s \<or> (\<exists>j < tx_done hw. tx_done_slot hw j = i)" for i
    by (auto simp: done1 slot1 less_Suc_eq)
  moreover have "card (F - {s}) + tx_done ?hw = card F + tx_done hw"
    using s fin \<open>0 < card F\<close> by (simp add: done1)
  moreover have "hw_tx_buffers ?hw = hw_tx_buffers hw" "q_pending (hw_tx ?hw) = q_pending (hw_tx hw)"
    "q_desc (hw_tx ?hw) = q_desc (hw_tx hw)" "q_avail (hw_tx ?hw) = q_avail (hw_tx hw)"
    "length (used_ring (q_used (hw_tx ?hw))) = length (used_ring (q_used (hw_tx hw)))"
    by (simp_all add: device_complete_tx_def push_used_def)
  ultimately show ?thesis
    using inv s by (auto simp: hw_tx_inv_def)
qed

lemma tx_done_reclaim:
  assumes "0 < tx_done hw"
  shows "tx_done hw = Suc (tx_done (reclaim_virtio_tx_entry hw))"
    and "tx_done_slot (reclaim_virtio_tx_entry hw) j = tx_done_slot hw (Suc j)"
  using assms in_ring_pop [of "used_idx (q_used (hw_tx hw))" "q_used_consume (hw_tx hw)"]
  by (auto simp: tx_done_def tx_done_slot_def ring_at_Suc in_ring_0_iff simp flip: neq0_conv)

lemma reclaim_entry_eq:
  assumes inv: "hw_tx_inv F hw" and ne: "0 < tx_done hw"
  defines "h \<equiv> tx_done_slot hw 0"
  shows "h < 8" and "reclaim_virtio_tx_entry hw =
    hw\<lparr>hw_tx_buffers := (hw_tx_buffers hw)[h := (hw_tx_buffers hw ! h)\<lparr>in_use := False, buf_len := 0\<rparr>],
       hw_tx := (hw_tx hw)\<lparr>q_pending := q_pending (hw_tx hw) - 1,
                  q_used_consume := q_used_consume (hw_tx hw) + 1\<rparr>\<rparr>"
proof -
  show h8: "h < 8"
    using inv ne by (simp add: h_def hw_tx_inv_def)
  have slot: "unat (ucast (used_id (used_ring (q_used (hw_tx hw)) ! ring_pos (q_used_consume (hw_tx hw)))) :: u16) = h"
    by (simp add: h_def tx_done_slot_def ring_at_0 elem_slot_def)
  have "in_use (hw_tx_buffers hw ! h)"
    using inv ne h8 by (auto simp: h_def hw_tx_inv_def)
  moreover have "q_pending (hw_tx hw) > 0"
    using inv ne by (simp add: hw_tx_inv_def word_less_nat_alt)
  ultimately show "reclaim_virtio_tx_entry hw =
    hw\<lparr>hw_tx_buffers := (hw_tx_buffers hw)[h := (hw_tx_buffers hw ! h)\<lparr>in_use := False, buf_len := 0\<rparr>],
       hw_tx := (hw_tx hw)\<lparr>q_pending := q_pending (hw_tx hw) - 1,
                  q_used_consume := q_used_consume (hw_tx hw) + 1\<rparr>\<rparr>"
    using h8 by (simp add: reclaim_virtio_tx_entry_def Let_def slot VIRTIO_NET_QUEUE_SIZE_def)
qed

lemma hw_tx_inv_reclaim_entry:
  assumes inv: "hw_tx_inv F hw" and ne: "0 < tx_done hw"
  shows "hw_tx_inv F (reclaim_virtio_tx_entry hw)"
proof -
  let ?hw = "reclaim_virtio_tx_entry hw" and ?h = "tx_done_slot hw 0"
  note eq = reclaim_entry_eq [OF inv ne] and d = tx_done_reclaim [OF ne]
  have len: "length (hw_tx_buffers hw) = 8"
    using inv by (simp add: hw_tx_inv_def)
  have inj: "inj_on (tx_done_slot hw) {0..<tx_done hw}"
    using inv by (simp add: hw_tx_inv_def)
  then have later: "tx_done_slot hw (Suc j) \<noteq> ?h" if "Suc j < tx_done hw" for j
    using that inj_onD [of "tx_done_slot hw" "{0..<tx_done hw}" "Suc j" 0] by auto
  have "inj_on (tx_done_slot ?hw) {0..<tx_done ?hw}"
    using inj unfolding d(2) by (intro inj_onI) (auto simp: d(1) dest!: inj_onD [where x = "Suc _" and y = "Suc _"])
  moreover have "\<forall>j < tx_done ?hw. tx_done_slot ?hw j < 8 \<and> tx_done_slot ?hw j \<notin> F"
    using inv by (simp add: hw_tx_inv_def d)
  moreover have "in_use (hw_tx_buffers ?hw ! i) \<longleftrightarrow> i \<in> F \<or> (\<exists>j < tx_done ?hw. tx_done_slot ?hw j = i)"
    if i: "i < 8" for i
  proof -
    have "in_use (hw_tx_buffers ?hw ! i) \<longleftrightarrow> i \<noteq> ?h \<and> in_use (hw_tx_buffers hw ! i)"
      using i len eq(1) by (cases "i = ?h") (simp_all add: eq(2))
    also have "\<dots> \<longleftrightarrow> i \<noteq> ?h \<and> (i \<in> F \<or> (\<exists>j < tx_done hw. tx_done_slot hw j = i))"
      using inv i by (simp add: hw_tx_inv_def)
    also have "\<dots> \<longleftrightarrow> i \<in> F \<or> (\<exists>j < tx_done ?hw. tx_done_slot hw (Suc j) = i)"
      using inv ne later by (auto simp: d(1) Ex_less_Suc2 hw_tx_inv_def)
    finally show ?thesis by (simp add: d(2))
  qed
  moreover have "unat (q_pending (hw_tx ?hw)) = card F + tx_done ?hw"
  proof -
    have "unat (q_pending (hw_tx hw)) = card F + Suc (tx_done ?hw)"
      using inv d(1) by (simp add: hw_tx_inv_def)
    moreover from this have "q_pending (hw_tx hw) \<noteq> 0"
      by auto
    ultimately show ?thesis
      by (simp add: eq(2) unat_minus_one)
  qed
  moreover have "\<forall>i < 8. length (buf_data (hw_tx_buffers ?hw ! i)) = 4096"
    using inv eq(1) by (auto simp: eq(2) hw_tx_inv_def nth_list_update)
  moreover have "length (hw_tx_buffers ?hw) = 8" "length (q_desc (hw_tx ?hw)) = 8"
    "length (avail_ring (q_avail (hw_tx ?hw))) = 8" "length (used_ring (q_used (hw_tx ?hw))) = 8" "F \<subseteq> {0..<8}"
    using inv by (simp_all add: eq(2) hw_tx_inv_def)
  ultimately show ?thesis
    by (simp add: hw_tx_inv_def)
qed

text \<open>
  The reclaim loop ends with no completion left, keeps the invariant, and leaves the bytes of every
  buffer and everything about the slots the device owns as they were.
\<close>

lemma reclaim_virtio_tx:
  assumes "hw_tx_inv F hw"
  shows "hw_tx_inv F (reclaim_virtio_tx_locked hw) \<and> tx_done (reclaim_virtio_tx_locked hw) = 0 \<and>
    (\<forall>i < 8. buf_data (hw_tx_buffers (reclaim_virtio_tx_locked hw) ! i) = buf_data (hw_tx_buffers hw ! i)) \<and>
    (\<forall>i \<in> F. hw_tx_buffers (reclaim_virtio_tx_locked hw) ! i = hw_tx_buffers hw ! i) \<and>
    q_desc (hw_tx (reclaim_virtio_tx_locked hw)) = q_desc (hw_tx hw)"
  using assms
proof (induction hw rule: reclaim_virtio_tx_locked.induct)
  case (1 hw)
  show ?case
  proof (cases "tx_done hw = 0")
    case True
    then have "reclaim_virtio_tx_locked hw = hw"
      by (simp add: reclaim_virtio_tx_locked.simps [of hw] tx_done_def in_ring_0_iff)
    with 1 True show ?thesis by simp
  next
    case False
    then have ne: "0 < tx_done hw" "q_used_consume (hw_tx hw) \<noteq> used_idx (q_used (hw_tx hw))"
      by (auto simp: tx_done_def in_ring_0_iff simp flip: neq0_conv)
    note eq = reclaim_entry_eq [OF 1(2) ne(1)]
    have step: "reclaim_virtio_tx_locked hw = reclaim_virtio_tx_locked (reclaim_virtio_tx_entry hw)"
      using ne(2) by (simp add: reclaim_virtio_tx_locked.simps [of hw])
    have "tx_done_slot hw 0 \<notin> F" "length (hw_tx_buffers hw) = 8" "F \<subseteq> {0..<8}"
      using 1(2) ne(1) by (auto simp: hw_tx_inv_def)
    then have "\<forall>i \<in> F. hw_tx_buffers (reclaim_virtio_tx_entry hw) ! i = hw_tx_buffers hw ! i"
      and "\<forall>i < 8. buf_data (hw_tx_buffers (reclaim_virtio_tx_entry hw) ! i) = buf_data (hw_tx_buffers hw ! i)"
      and "q_desc (hw_tx (reclaim_virtio_tx_entry hw)) = q_desc (hw_tx hw)"
      using eq(1) by (auto simp: eq(2) nth_list_update)
    then show ?thesis
      using 1(1) [OF ne(2) hw_tx_inv_reclaim_entry [OF 1(2) ne(1)]] unfolding step by simp
  qed
qed

lemma notify_queue_fields [simp]:
  "hw_tx (notify_queue q k hw) = hw_tx hw" "hw_tx_buffers (notify_queue q k hw) = hw_tx_buffers hw"
  "hw_rx (notify_queue q k hw) = hw_rx hw" "hw_rx_buffers (notify_queue q k hw) = hw_rx_buffers hw"
  "hw_ready (notify_queue q k hw) = hw_ready hw"
  by (simp_all add: notify_queue_def split: option.split)

lemma length_write_VirtioNetHdr: "length (write_VirtioNetHdr h) = 12"
  by (simp add: write_VirtioNetHdr_def)

lemma hw_tx_inv_publish:
  assumes inv: "hw_tx_inv F hw" and "s < 8" and free: "\<not> in_use (hw_tx_buffers hw ! s)"
    and "n \<le> 2048" and "n \<le> length data"
  shows "s \<notin> F" and "hw_tx_inv (insert s F) (publish_virtio_tx s data n hw)"
proof -
  let ?hw = "publish_virtio_tx s data n hw"
  show s: "s \<notin> F"
    using inv free assms(2) by (auto simp: hw_tx_inv_def)
  have unnamed: "tx_done_slot hw j \<noteq> s" if "j < tx_done hw" for j
    using that inv free assms(2) by (auto simp: hw_tx_inv_def)
  have fin: "finite F"
    using inv by (auto simp: hw_tx_inv_def intro: finite_subset)
  have same: "tx_done ?hw = tx_done hw" "tx_done_slot ?hw = tx_done_slot hw"
    by (auto simp: fun_eq_iff tx_done_def tx_done_slot_def publish_virtio_tx_def Let_def)
  have "unat (q_pending (hw_tx hw)) \<le> 8"
    using hw_tx_inv_card [OF inv] inv by (simp add: hw_tx_inv_def)
  then have "unat (q_pending (hw_tx ?hw)) = Suc (unat (q_pending (hw_tx hw)))"
    by (simp add: publish_virtio_tx_def Let_def unat_word_ariths)
  moreover have "\<forall>i < 8. length (buf_data (hw_tx_buffers ?hw ! i)) = 4096"
    using inv assms(2,4,5) by (auto simp: publish_virtio_tx_def Let_def hw_tx_inv_def nth_list_update
        k_virtio_hdr_size_def length_write_VirtioNetHdr)
  moreover have "in_use (hw_tx_buffers ?hw ! i) \<longleftrightarrow> i = s \<or> in_use (hw_tx_buffers hw ! i)" if "i < 8" for i
    using that inv assms(2) by (auto simp: publish_virtio_tx_def Let_def hw_tx_inv_def nth_list_update)
  moreover have "length (hw_tx_buffers ?hw) = 8" "length (q_desc (hw_tx ?hw)) = 8"
    "length (avail_ring (q_avail (hw_tx ?hw))) = 8" "length (used_ring (q_used (hw_tx ?hw))) = 8"
    using inv by (simp_all add: publish_virtio_tx_def Let_def hw_tx_inv_def push_avail_def)
  ultimately show "hw_tx_inv (insert s F) ?hw"
    using inv s unnamed assms(2) fin by (auto simp: hw_tx_inv_def same)
qed

lemma find_free_virtio_tx:
  assumes inv: "hw_tx_inv F hw" and "tx_done hw = 0"
  shows "case find_free_virtio_tx_slot_locked hw of
      None \<Rightarrow> F = {0..<8}
    | Some s \<Rightarrow> s < 8 \<and> \<not> in_use (hw_tx_buffers hw ! s) \<and> s \<notin> F"
proof -
  have F: "F \<subseteq> {0..<8}" and use_iff: "\<And>i. i < 8 \<Longrightarrow> in_use (hw_tx_buffers hw ! i) \<longleftrightarrow> i \<in> F"
    and pending: "unat (q_pending (hw_tx hw)) = card F"
    using inv assms(2) by (auto simp: hw_tx_inv_def)
  show ?thesis
  proof (cases "find_free_virtio_tx_slot_locked hw")
    case None
    have "F = {0..<8}"
    proof (cases "card F \<ge> 8")
      case True
      then show ?thesis
        using F by (intro card_seteq) auto
    next
      case False
      then have "\<forall>i < 8. i \<in> F"
        using None pending use_iff
        by (auto simp: find_free_virtio_tx_slot_locked_def find_upt_None_iff VIRTIO_NET_QUEUE_SIZE_def)
      then show ?thesis using F by auto
    qed
    with None show ?thesis by simp
  next
    case (Some s)
    then have "s < 8 \<and> \<not> in_use (hw_tx_buffers hw ! s)"
      by (auto simp: find_free_virtio_tx_slot_locked_def VIRTIO_NET_QUEUE_SIZE_def
          dest: find_upt_SomeD split: if_splits)
    with Some use_iff show ?thesis by auto
  qed
qed

lemma publish_fields:
  assumes "hw_tx_inv F hw" and "s < 8" and "n \<le> 2048" and "n \<le> length data"
  shows "i \<noteq> s \<Longrightarrow> hw_tx_buffers (publish_virtio_tx s data n hw) ! i = hw_tx_buffers hw ! i"
    and "i \<noteq> s \<Longrightarrow> q_desc (hw_tx (publish_virtio_tx s data n hw)) ! i = q_desc (hw_tx hw) ! i"
    and "q_desc (hw_tx (publish_virtio_tx s data n hw)) ! s =
      \<lparr>desc_addr = buf_pa (hw_tx_buffers hw ! s), desc_len = word_of_nat (12 + n), desc_flags = 0,
       desc_next = 0\<rparr>"
    and "take (12 + n) (buf_data (hw_tx_buffers (publish_virtio_tx s data n hw) ! s)) =
      replicate 12 0 @ take n data"
  using assms
  by (simp_all add: publish_virtio_tx_def Let_def hw_tx_inv_def k_virtio_hdr_size_def write_at_def
      length_write_VirtioNetHdr)
    (simp add: write_VirtioNetHdr_def zero_hdr_def le16_bytes_def lo8_def hi8_def numeral_eq_Suc)

text \<open>
  \<open>init_tx_buffers_locked\<close> establishes the invariant on queue and buffer pages fresh from the
  allocator.
\<close>

definition fresh_tx :: "VirtioHwState \<Rightarrow> bool" where
  "fresh_tx hw \<longleftrightarrow>
     length (hw_tx_buffers hw) = 8 \<and> (\<forall>i < 8. length (buf_data (hw_tx_buffers hw ! i)) = 4096) \<and>
     length (q_desc (hw_tx hw)) = 8 \<and> length (used_ring (q_used (hw_tx hw))) = 8 \<and>
     length (avail_ring (q_avail (hw_tx hw))) = 8"

lemma init_tx_entries:
  assumes "fresh_tx hw" and "n \<le> 8"
  shows "fresh_tx (fold init_tx_entry [0..<n] hw) \<and>
    (\<forall>i < n. \<not> in_use (hw_tx_buffers (fold init_tx_entry [0..<n] hw) ! i)) \<and>
    q_used (hw_tx (fold init_tx_entry [0..<n] hw)) = q_used (hw_tx hw) \<and>
    q_used_consume (hw_tx (fold init_tx_entry [0..<n] hw)) = q_used_consume (hw_tx hw) \<and>
    q_pending (hw_tx (fold init_tx_entry [0..<n] hw)) = q_pending (hw_tx hw)"
  using assms(2)
proof (induction n)
  case (Suc n)
  then show ?case
    by (auto simp: init_tx_entry_def Let_def fresh_tx_def nth_list_update less_Suc_eq)
qed (use assms(1) in simp)

lemma hw_tx_inv_init:
  assumes "fresh_tx hw"
  shows "hw_tx_inv {} (init_tx_buffers_locked hw)"
proof -
  define hw0 where "hw0 = hw\<lparr>hw_tx := (hw_tx hw)\<lparr>q_avail := (q_avail (hw_tx hw))\<lparr>avail_flags := 0, avail_idx := 0\<rparr>,
    q_used := (q_used (hw_tx hw))\<lparr>used_flags := 0, used_idx := 0\<rparr>, q_used_consume := 0, q_pending := 0\<rparr>\<rparr>"
  have "fresh_tx hw0"
    using assms by (simp add: fresh_tx_def hw0_def)
  note e = init_tx_entries [OF this, of 8]
  have i: "init_tx_buffers_locked hw = fold init_tx_entry [0..<8] hw0"
    by (simp add: init_tx_buffers_locked_def Let_def hw0_def VIRTIO_NET_QUEUE_SIZE_def)
  define hw1 where "hw1 = init_tx_buffers_locked hw"
  have q: "fresh_tx hw1" "\<forall>i < 8. \<not> in_use (hw_tx_buffers hw1 ! i)" "q_pending (hw_tx hw1) = 0"
    "used_idx (q_used (hw_tx hw1)) = 0" "q_used_consume (hw_tx hw1) = 0"
    using e by (simp_all add: i hw1_def) (simp_all add: hw0_def)
  then have "tx_done hw1 = 0"
    by (simp add: tx_done_def in_ring_def)
  with q show ?thesis
    by (simp add: hw_tx_inv_def fresh_tx_def hw1_def [symmetric])
qed

text \<open>Steps of driver and device on the transmit side, and the states they reach.\<close>

inductive tx_reach :: "nat set \<Rightarrow> VirtioHwState \<Rightarrow> bool" where
  start: "hw_tx_inv {} hw \<Longrightarrow> tx_reach {} hw"
| device: "tx_reach F hw \<Longrightarrow> s \<in> F \<Longrightarrow> tx_reach (F - {s}) (device_complete_tx s n hw)"
| sent: "tx_reach F hw \<Longrightarrow> n \<le> 2048 \<Longrightarrow> n \<le> length data \<Longrightarrow>
    find_free_virtio_tx_slot_locked (reclaim_virtio_tx_locked hw) = Some s \<Longrightarrow>
    virtio_send_raw_locked data n hw = (True, hw') \<Longrightarrow> tx_reach (insert s F) hw'"
| ring_full: "tx_reach F hw \<Longrightarrow> virtio_send_raw_locked data n hw = (False, hw') \<Longrightarrow> tx_reach F hw'"

lemma tx_reach_inv: "tx_reach F hw \<Longrightarrow> hw_tx_inv F hw"
proof (induction rule: tx_reach.induct)
  case (sent F hw n data s hw')
  note r = reclaim_virtio_tx [OF sent.IH]
  have "s < 8 \<and> \<not> in_use (hw_tx_buffers (reclaim_virtio_tx_locked hw) ! s)"
    using find_free_virtio_tx [of F "reclaim_virtio_tx_locked hw"] r sent.hyps by simp
  then show ?case
    using hw_tx_inv_publish(2) [of F "reclaim_virtio_tx_locked hw" s n data] r sent.hyps
    by (simp add: virtio_send_raw_locked_def)
next
  case (ring_full F hw data n hw')
  then show ?case
    using reclaim_virtio_tx [OF ring_full.IH]
    by (auto simp: virtio_send_raw_locked_def Let_def split: option.splits)
qed (use hw_tx_inv_complete in auto)

section \<open>Properties\<close>

text \<open>
  C7. DMA safety of the transmit ring. In every interleaving of sends with completions by the
  device, a send fails only when the device owns all eight buffers; otherwise it publishes, in a
  slot the device does not own, a descriptor that covers exactly the virtio header followed by the
  frame, and no buffer and no descriptor the device owns changes.
\<close>

theorem virtio_send_dma_safe:
  assumes "tx_reach F hw" and "n \<le> 2048" and "n \<le> length data"
    and "virtio_send_raw_locked data n hw = (sent, hw')"
  shows "(sent \<longleftrightarrow> F \<noteq> {0..<8}) \<and>
    (\<forall>i \<in> F. hw_tx_buffers hw' ! i = hw_tx_buffers hw ! i \<and> q_desc (hw_tx hw') ! i = q_desc (hw_tx hw) ! i) \<and>
    (sent \<longrightarrow> (\<exists>s < 8. s \<notin> F \<and> tx_reach (insert s F) hw' \<and>
       desc_len (q_desc (hw_tx hw') ! s) = word_of_nat (12 + n) \<and>
       take (12 + n) (buf_data (hw_tx_buffers hw' ! s)) = replicate 12 0 @ take n data))"
proof -
  let ?r = "reclaim_virtio_tx_locked hw"
  note r = reclaim_virtio_tx [OF tx_reach_inv [OF assms(1)]]
  then have inv: "hw_tx_inv F ?r" "tx_done ?r = 0" by simp_all
  note free = find_free_virtio_tx [OF inv]
  show ?thesis
  proof (cases "find_free_virtio_tx_slot_locked ?r")
    case None
    then show ?thesis
      using assms(4) free r by (simp add: virtio_send_raw_locked_def)
  next
    case (Some s)
    then have eq: "sent" "hw' = publish_virtio_tx s data n ?r" and s: "s < 8" "s \<notin> F"
      using assms(4) free by (auto simp: virtio_send_raw_locked_def)
    have "tx_reach (insert s F) hw'"
      using tx_reach.sent [OF assms(1-3) Some] assms(4) eq(1) by simp
    moreover have "F \<noteq> {0..<8}"
      using s by auto
    moreover have "i \<noteq> s" if "i \<in> F" for i
      using that s by auto
    ultimately show ?thesis
      using eq s r publish_fields [OF inv(1) s(1) assms(2,3)] by auto
  qed
qed

definition demo_hw :: VirtioHwState where
  "demo_hw = (zero_hw [])\<lparr>
     hw_tx_buffers := replicate 8 (zero_buffer\<lparr>buf_data := zero_page\<rparr>),
     hw_tx := zero_queue\<lparr>q_desc := replicate 8 zero_desc\<rparr>\<rparr>"

lemma demo_hw_fresh: "fresh_tx demo_hw"
  by (simp add: fresh_tx_def demo_hw_def zero_page_def zero_queue_def zero_used_def zero_avail_def
      VIRTIO_NET_QUEUE_SIZE_def)

theorem virtio_send_dma_safe_witness:
  "fst (virtio_send_raw_locked [1, 2, 3] 3 (init_tx_buffers_locked demo_hw))"
  using virtio_send_dma_safe [OF tx_reach.start [OF hw_tx_inv_init [OF demo_hw_fresh]],
      of 3 "[1, 2, 3]" "fst (virtio_send_raw_locked [1, 2, 3] 3 (init_tx_buffers_locked demo_hw))"
      "snd (virtio_send_raw_locked [1, 2, 3] 3 (init_tx_buffers_locked demo_hw))"]
  by simp

end
