(* ===== verification/Net_Stats.thy ===== *)
theory Net_Stats
  imports Prelude "HOL-Library.Multiset"
begin

text \<open>
  The packet and drop counters of \<^verbatim>\<open>net_stats.cc\<close>. Counters are 64 bits wide and wrap. Every
  operation runs under \<open>g_stats_lock\<close>, so each is one atomic step on the counters.
\<close>

record NetStats =
  raw_rx :: u64
  raw_tx :: u64
  arp_rx :: u64
  arp_tx :: u64
  ipv4_rx :: u64
  ipv4_tx :: u64
  icmp_rx :: u64
  icmp_tx :: u64
  udp_rx :: u64
  udp_tx :: u64
  dropped_short :: u64
  dropped_bad_checksum :: u64
  dropped_not_for_me :: u64
  dropped_unknown_ethertype :: u64
  dropped_unknown_ipv4_protocol :: u64

datatype NetStatCounter =
    RawRx | RawTx | ArpRx | ArpTx | Ipv4Rx | Ipv4Tx | IcmpRx | IcmpTx | UdpRx | UdpTx
  | DroppedShort | DroppedBadChecksum | DroppedNotForMe | DroppedUnknownEthertype
  | DroppedUnknownIpv4Protocol

text \<open>
  \<open>counter_ref\<close> returns a reference into the structure: the value read through it, and the
  structure after a write through it.
\<close>

fun counter_ref :: "NetStats \<Rightarrow> NetStatCounter \<Rightarrow> u64" where
  "counter_ref s RawRx = raw_rx s"
| "counter_ref s RawTx = raw_tx s"
| "counter_ref s ArpRx = arp_rx s"
| "counter_ref s ArpTx = arp_tx s"
| "counter_ref s Ipv4Rx = ipv4_rx s"
| "counter_ref s Ipv4Tx = ipv4_tx s"
| "counter_ref s IcmpRx = icmp_rx s"
| "counter_ref s IcmpTx = icmp_tx s"
| "counter_ref s UdpRx = udp_rx s"
| "counter_ref s UdpTx = udp_tx s"
| "counter_ref s DroppedShort = dropped_short s"
| "counter_ref s DroppedBadChecksum = dropped_bad_checksum s"
| "counter_ref s DroppedNotForMe = dropped_not_for_me s"
| "counter_ref s DroppedUnknownEthertype = dropped_unknown_ethertype s"
| "counter_ref s DroppedUnknownIpv4Protocol = dropped_unknown_ipv4_protocol s"

fun counter_ref_write :: "NetStats \<Rightarrow> NetStatCounter \<Rightarrow> u64 \<Rightarrow> NetStats" where
  "counter_ref_write s RawRx v = s\<lparr>raw_rx := v\<rparr>"
| "counter_ref_write s RawTx v = s\<lparr>raw_tx := v\<rparr>"
| "counter_ref_write s ArpRx v = s\<lparr>arp_rx := v\<rparr>"
| "counter_ref_write s ArpTx v = s\<lparr>arp_tx := v\<rparr>"
| "counter_ref_write s Ipv4Rx v = s\<lparr>ipv4_rx := v\<rparr>"
| "counter_ref_write s Ipv4Tx v = s\<lparr>ipv4_tx := v\<rparr>"
| "counter_ref_write s IcmpRx v = s\<lparr>icmp_rx := v\<rparr>"
| "counter_ref_write s IcmpTx v = s\<lparr>icmp_tx := v\<rparr>"
| "counter_ref_write s UdpRx v = s\<lparr>udp_rx := v\<rparr>"
| "counter_ref_write s UdpTx v = s\<lparr>udp_tx := v\<rparr>"
| "counter_ref_write s DroppedShort v = s\<lparr>dropped_short := v\<rparr>"
| "counter_ref_write s DroppedBadChecksum v = s\<lparr>dropped_bad_checksum := v\<rparr>"
| "counter_ref_write s DroppedNotForMe v = s\<lparr>dropped_not_for_me := v\<rparr>"
| "counter_ref_write s DroppedUnknownEthertype v = s\<lparr>dropped_unknown_ethertype := v\<rparr>"
| "counter_ref_write s DroppedUnknownIpv4Protocol v = s\<lparr>dropped_unknown_ipv4_protocol := v\<rparr>"

definition net_stats_reset :: NetStats where
  "net_stats_reset =
     \<lparr>raw_rx = 0, raw_tx = 0, arp_rx = 0, arp_tx = 0, ipv4_rx = 0, ipv4_tx = 0, icmp_rx = 0,
      icmp_tx = 0, udp_rx = 0, udp_tx = 0, dropped_short = 0, dropped_bad_checksum = 0,
      dropped_not_for_me = 0, dropped_unknown_ethertype = 0, dropped_unknown_ipv4_protocol = 0\<rparr>"

definition net_stats_increment :: "NetStatCounter \<Rightarrow> NetStats \<Rightarrow> NetStats" where
  "net_stats_increment c s = counter_ref_write s c (counter_ref s c + 1)"

definition net_stats_snapshot :: "NetStats \<Rightarrow> NetStats" where
  "net_stats_snapshot s = s"

section \<open>Counters are independent\<close>

lemma counter_ref_write_get [simp]:
  "counter_ref (counter_ref_write s c v) d = (if d = c then v else counter_ref s d)"
  by (cases c; cases d) simp_all

lemma counter_increment [simp]:
  "counter_ref (net_stats_increment c s) d = counter_ref s d + (if d = c then 1 else 0)"
  by (simp add: net_stats_increment_def)

lemma counter_reset [simp]: "counter_ref net_stats_reset c = 0"
  by (cases c) (simp_all add: net_stats_reset_def)

lemma NetStats_eqI: "(\<And>c. counter_ref s c = counter_ref t c) \<Longrightarrow> s = t" for s t :: NetStats
  by (rule NetStats.equality)
    (metis counter_ref.simps | simp)+

lemma net_stats_increment_commute:
  "net_stats_increment c (net_stats_increment d s) = net_stats_increment d (net_stats_increment c s)"
  by (rule NetStats_eqI) simp

text \<open>Counting a sequence of events, in whatever order the lock serialises them.\<close>

definition count_events :: "NetStatCounter list \<Rightarrow> NetStats \<Rightarrow> NetStats" where
  "count_events cs s = fold net_stats_increment cs s"

lemma count_events_counter:
  "counter_ref (count_events cs s) c = counter_ref s c + of_nat (count_list cs c)"
  unfolding count_events_def by (induction cs arbitrary: s) (auto simp: algebra_simps)

section \<open>Properties\<close>

text \<open>
  Counters are independent and exact: after any sequence of increments each counter has grown
  by the number of its own events (modulo 2^64), and two sequences with the same events in
  different orders, as two cores may produce them, leave the same statistics.
\<close>

theorem net_stats_exact:
  assumes "mset cs = mset ds"
  shows "counter_ref (count_events cs s) c = counter_ref s c + of_nat (count_list cs c) \<and>
    count_events cs s = count_events ds s"
proof -
  have "count_list cs c = count_list ds c" for c
    using assms by (simp add: count_mset [symmetric])
  then show ?thesis
    by (auto simp: count_events_counter intro!: NetStats_eqI)
qed

theorem net_stats_exact_witness:
  "counter_ref (count_events [RawRx, ArpRx, RawRx] net_stats_reset) RawRx =
     counter_ref net_stats_reset RawRx + of_nat (count_list [RawRx, ArpRx, RawRx] RawRx) \<and>
   count_events [RawRx, ArpRx, RawRx] net_stats_reset = count_events [ArpRx, RawRx, RawRx] net_stats_reset"
  by (rule net_stats_exact) simp

end
