(* ===== verification/Virtio_Net.thy ===== *)
theory Virtio_Net
  imports Virtio_Fake Virtio_Hw Net_Stats
begin

text \<open>
  The public interface of \<^verbatim>\<open>virtio_net.cc\<close> over its two backends: initialisation, readiness, raw
  transmission and reception. Each operation runs under \<open>g_net.lock\<close> and is one step on the driver
  state. The receive side of the fake backend is an interpretation of the locale \<open>frame_queue\<close>:
  a FIFO of at most eight frames.
\<close>

section \<open>State and operations\<close>

record nic =
  g_net :: NetState
  g_hw :: VirtioHwState
  g_stats :: NetStats

definition count_stat :: "NetStatCounter \<Rightarrow> nic \<Rightarrow> nic" where
  "count_stat c n = n\<lparr>g_stats := net_stats_increment c (g_stats n)\<rparr>"

definition nic_ready :: "nic \<Rightarrow> bool" where
  "nic_ready n \<longleftrightarrow> hw_ready (g_hw n)"

definition nic_kick_tx :: "nic \<Rightarrow> nic" where
  "nic_kick_tx n = n\<lparr>g_hw := notify_queue (hw_tx (g_hw n)) VIRTIO_NET_TX_QUEUE (g_hw n)\<rparr>"

definition backend_ready_locked :: "nic \<Rightarrow> bool" where
  "backend_ready_locked n \<longleftrightarrow>
     (if backend (g_net n) = Backend_Fake then True
      else if backend (g_net n) = Backend_Virtio then nic_ready n
      else False)"

definition net_init_fake :: "nic \<Rightarrow> nic" where
  "net_init_fake n = n\<lparr>g_net := (reset_rings_locked (g_net n))\<lparr>backend := Backend_Fake\<rparr>\<rparr>"

definition net_shutdown_backend :: "nic \<Rightarrow> nic" where
  "net_shutdown_backend n = n\<lparr>g_net := (reset_rings_locked (g_net n))\<lparr>backend := Backend_None\<rparr>\<rparr>"

definition net_ready :: "nic \<Rightarrow> bool" where
  "net_ready n = backend_ready_locked n"

text \<open>
  The caller's buffer holds at least \<open>len\<close> bytes, as the C++ signature requires.
\<close>

definition net_send_raw :: "pointer \<Rightarrow> nat \<Rightarrow> nic \<Rightarrow> bool \<times> nic" where
  "net_send_raw ptr len n =
     (case ptr of
        None \<Rightarrow> (False, n)
      | Some data \<Rightarrow>
          if len = 0 \<or> len > VIRTIO_NET_MAX_FRAME_SIZE then (False, n)
          else if \<not> backend_ready_locked n then (False, n)
          else if backend (g_net n) = Backend_Virtio then
            (case virtio_send_raw_locked data len (g_hw n) of
               (sent, hw) \<Rightarrow> (sent, (if sent then count_stat RawTx else id) (n\<lparr>g_hw := hw\<rparr>)))
          else
            (case find_free_tx_slot_locked (reclaim_tx_locked (g_net n)) of
               (None, s1) \<Rightarrow> (False, n\<lparr>g_net := s1\<rparr>)
             | (Some slot, s1) \<Rightarrow>
                 let s2 = enqueue_tx slot data len s1
                 in if backend s2 = Backend_Fake then
                      let s3 = s2\<lparr>last_fake_tx := copy_bytes (last_fake_tx s2) data len,
                                  last_fake_tx_len := word_of_nat len, last_fake_tx_valid := True\<rparr>
                      in (True, count_stat RawTx (n\<lparr>g_net := reclaim_tx_locked (complete_tx_locked slot len s3)\<rparr>))
                    else (True, count_stat RawTx (nic_kick_tx (n\<lparr>g_net := s2\<rparr>)))))"

text \<open>The fake branch of \<open>net_recv_raw\<close>.\<close>

definition fake_recv_locked :: "bytes \<Rightarrow> nat \<Rightarrow> nic \<Rightarrow> (int \<times> bytes \<times> nic) outcome" where
  "fake_recv_locked out max_len n =
     (let s = g_net n
      in if rx_used_consume s = used_idx (rx_used s) then Inr (0, out, n)
         else
           let elem = used_ring (rx_used s) ! ring_pos (rx_used_consume s);
               slot = unat (ucast (used_id elem) :: u16);
               len = unat (used_len elem)
           in if slot \<ge> VIRTIO_NET_QUEUE_SIZE \<or> \<not> occupied (rx_slots s ! slot)
              then Inr (0, out, n\<lparr>g_net := s\<lparr>rx_used_consume := rx_used_consume s + 1\<rparr>\<rparr>)
              else if len > max_len then Inr (-1, out, n)
              else if len > length (slot_data (rx_slots s ! slot)) then Inl OutOfBounds
              else bind_outcome (store_at 0 (take len (slot_data (rx_slots s ! slot))) out) (\<lambda>out1.
                     Inr (int len, out1, count_stat RawRx (n\<lparr>g_net := recycle_rx slot s\<rparr>))))"

definition net_recv_raw :: "pointer \<Rightarrow> nat \<Rightarrow> nic \<Rightarrow> (int \<times> pointer \<times> nic) outcome" where
  "net_recv_raw ptr max_len n =
     (case ptr of
        None \<Rightarrow> Inr (-1, None, n)
      | Some out \<Rightarrow>
          if max_len = 0 then Inr (-1, Some out, n)
          else if \<not> backend_ready_locked n then Inr (0, Some out, n)
          else if backend (g_net n) = Backend_Virtio then
            bind_outcome (virtio_recv_raw_locked out max_len (g_hw n)) (\<lambda>(recv_len, out1, hw).
              Inr (recv_len, Some out1, (if recv_len > 0 then count_stat RawRx else id) (n\<lparr>g_hw := hw\<rparr>)))
          else
            bind_outcome (fake_recv_locked out max_len n) (\<lambda>(recv_len, out1, n1).
              Inr (recv_len, Some out1, n1)))"

text \<open>\<open>net_fake_inject_rx\<close> on the whole driver state.\<close>

definition inject_rx :: "pointer \<Rightarrow> nat \<Rightarrow> nic \<Rightarrow> bool \<times> nic" where
  "inject_rx ptr len n = (case net_fake_inject_rx ptr len (g_net n) of (ok, s) \<Rightarrow> (ok, n\<lparr>g_net := s\<rparr>))"

section \<open>Initialisation of the PCI backend\<close>

text \<open>
  Everything \<open>virtio_net_init_pci\<close> works on: the driver, the frame allocator, the device and the
  port writes made so far, newest last.
\<close>

record 'd pci_env =
  env_nic :: nic
  env_mem :: PhysMem
  env_dev :: 'd
  env_ports :: "port_write list"

definition VIRTIO_F_VERSION_1 :: u64 where "VIRTIO_F_VERSION_1 = push_bit 32 1"
definition VIRTIO_NET_F_MAC :: u64 where "VIRTIO_NET_F_MAC = push_bit 5 1"
definition VIRTIO_NET_F_STATUS :: u64 where "VIRTIO_NET_F_STATUS = push_bit 16 1"

definition wanted_features :: "u64 \<Rightarrow> u64" where
  "wanted_features offered =
     (let wanted = VIRTIO_F_VERSION_1;
          wanted = (if offered AND VIRTIO_NET_F_MAC \<noteq> 0 then wanted OR VIRTIO_NET_F_MAC else wanted);
          wanted = (if offered AND VIRTIO_NET_F_STATUS \<noteq> 0 then wanted OR VIRTIO_NET_F_STATUS else wanted)
      in wanted)"

fun read_mac :: "'d reg_read \<Rightarrow> nat list \<Rightarrow> bytes \<Rightarrow> 'd \<Rightarrow> bytes \<times> 'd" where
  "read_mac rd [] mac d = (mac, d)"
| "read_mac rd (i # is) mac d =
     (case read_reg rd (Device_cfg_byte i) d of (v, d1) \<Rightarrow> read_mac rd is (mac[i := ucast v]) d1)"

text \<open>
  The reset and feature negotiation, up to \<open>FEATURES_OK\<close>: the features agreed on, or \<open>None\<close> where
  the code returns \<open>false\<close>.
\<close>

definition negotiate :: "'d reg_read \<Rightarrow> 'd reg_write \<Rightarrow> 'd \<Rightarrow> u64 option \<times> 'd" where
  "negotiate rd wr d =
     (case wait_for_reset rd (wr Device_status 0 d) of
        (False, d1) \<Rightarrow> (None, d1)
      | (True, d1) \<Rightarrow>
          let d2 = add_device_status rd wr 2 (add_device_status rd wr 1 d1);
              (offered, d3) = read_device_features rd wr d2
          in if offered AND VIRTIO_F_VERSION_1 = 0 then (None, wr Device_status 128 d3)
             else
               let wanted = wanted_features offered;
                   d4 = add_device_status rd wr 8 (write_driver_features wr wanted d3);
                   (status, d5) = read_reg rd Device_status d4
               in if status AND 8 = 0 then (None, wr Device_status 128 d5) else (Some wanted, d5))"

text \<open>
  The rest of the initialisation: packet buffers, both queues, the rings, \<open>DRIVER_OK\<close>. The flag is
  false, with \<open>FAILED\<close> written to the device, when a queue is too small.
\<close>

definition bring_up_queues ::
  "'d reg_read \<Rightarrow> 'd reg_write \<Rightarrow> PciFunction \<Rightarrow> VirtioPciLayout \<Rightarrow> u64 \<Rightarrow> u64 \<Rightarrow> u64 option \<Rightarrow> u64 \<Rightarrow>
     VirtioHwState \<Rightarrow> PhysMem \<Rightarrow> 'd \<Rightarrow> (bool \<times> VirtioHwState \<times> PhysMem \<times> 'd) outcome" where
  "bring_up_queues rd wr fn layout common notify_base device_cfg wanted hw m d =
     bind_outcome (setup_virtqueue rd wr notify_base (notify_multiplier layout)
         VIRTIO_NET_RX_QUEUE (hw_rx hw) m d) (\<lambda>(ok1, rxq, m1, d1).
       let hw1 = hw\<lparr>hw_rx := rxq\<rparr>
       in if \<not> ok1 then Inr (False, hw1, m1, wr Device_status 128 d1)
          else bind_outcome (setup_virtqueue rd wr notify_base (notify_multiplier layout)
                   VIRTIO_NET_TX_QUEUE (hw_tx hw1) m1 d1) (\<lambda>(ok2, txq, m2, d2).
            let hw2 = hw1\<lparr>hw_tx := txq\<rparr>
            in if \<not> ok2 then Inr (False, hw2, m2, wr Device_status 128 d2)
               else
                 let hw3 = hw2\<lparr>hw_pci := Some fn, hw_layout := layout, hw_common := Some common,
                               hw_device_cfg := device_cfg, hw_features := wanted\<rparr>;
                     hw4 = init_rx_buffers_locked (init_tx_buffers_locked hw3);
                     d3 = add_device_status rd wr 4 d2
                 in Inr (True, hw4\<lparr>hw_ready := True\<rparr>, m2, d3)))"

definition bring_up ::
  "'d reg_read \<Rightarrow> 'd reg_write \<Rightarrow> PciFunction \<Rightarrow> VirtioPciLayout \<Rightarrow> u64 \<Rightarrow> u64 \<Rightarrow> u64 option \<Rightarrow> u64 \<Rightarrow>
     VirtioHwState \<Rightarrow> PhysMem \<Rightarrow> 'd \<Rightarrow> (bool \<times> VirtioHwState \<times> PhysMem \<times> 'd) outcome" where
  "bring_up rd wr fn layout common notify_base device_cfg wanted hw m d =
     (let (mac, d1) = (if wanted AND VIRTIO_NET_F_MAC \<noteq> 0 \<and> device_cfg \<noteq> None
                       then read_mac rd [0..<6] (hw_mac hw) d else (hw_mac hw, d));
          hw1 = hw\<lparr>hw_mac := mac\<rparr>
      in bind_outcome (alloc_packet_buffers (hw_rx_buffers hw1) m) (\<lambda>(rx_bufs, m1).
           let hw2 = hw1\<lparr>hw_rx_buffers := rx_bufs\<rparr>
           in bind_outcome (alloc_packet_buffers (hw_tx_buffers hw2) m1) (\<lambda>(tx_bufs, m2).
                bring_up_queues rd wr fn layout common notify_base device_cfg wanted
                  (hw2\<lparr>hw_tx_buffers := tx_bufs\<rparr>) m2 d1)))"

text \<open>Finding, enabling and mapping the device, with the port writes this makes.\<close>

definition discover ::
  "config_space \<Rightarrow> (u64 \<Rightarrow> u64 \<Rightarrow> u64) \<Rightarrow>
     port_write list \<times> (PciFunction \<times> VirtioPciLayout \<times> u64 \<times> u64 \<times> u64 option) option" where
  "discover cfg map_mmio =
     (case pci_find_virtio_net cfg of
        None \<Rightarrow> ([], None)
      | Some fn \<Rightarrow>
          let ports = pci_enable_mmio_and_bus_mastering cfg fn;
              (ok, layout) = parse_virtio_pci_layout cfg fn
          in if \<not> ok then (ports, None)
             else
               (case (map_pci_region cfg map_mmio fn (lay_common layout),
                      map_pci_region cfg map_mmio fn (lay_notify layout)) of
                  (Some common, Some notify_base) \<Rightarrow>
                    (ports, Some (fn, layout, common, notify_base,
                                  map_pci_region cfg map_mmio fn (lay_device layout)))
                | _ \<Rightarrow> (ports, None)))"

definition virtio_net_init_pci ::
  "config_space \<Rightarrow> (u64 \<Rightarrow> u64 \<Rightarrow> u64) \<Rightarrow> 'd reg_read \<Rightarrow> 'd reg_write \<Rightarrow> 'd pci_env \<Rightarrow>
     (bool \<times> 'd pci_env) outcome" where
  "virtio_net_init_pci cfg map_mmio rd wr e =
     (let n = env_nic e
      in if hw_ready (g_hw n)
         then Inr (True, e\<lparr>env_nic := n\<lparr>g_net := (g_net n)\<lparr>backend := Backend_Virtio\<rparr>\<rparr>\<rparr>)
         else
           let n1 = n\<lparr>g_hw := zero_hw (doorbell (g_hw n))\<rparr>;
               (ports, found) = discover cfg map_mmio;
               e1 = e\<lparr>env_nic := n1, env_ports := env_ports e @ ports\<rparr>
           in case found of
                None \<Rightarrow> Inr (False, e1)
              | Some (fn, layout, common, notify_base, device_cfg) \<Rightarrow>
                  (case negotiate rd wr (env_dev e1) of
                     (None, d1) \<Rightarrow> Inr (False, e1\<lparr>env_dev := d1\<rparr>)
                   | (Some wanted, d1) \<Rightarrow>
                       bind_outcome (bring_up rd wr fn layout common notify_base device_cfg wanted
                           (g_hw n1) (env_mem e1) d1) (\<lambda>(up, hw, m, d2).
                         let n2 = n1\<lparr>g_hw := hw\<rparr>;
                             n3 = (if up then n2\<lparr>g_net := (g_net n2)\<lparr>backend := Backend_Virtio\<rparr>\<rparr> else n2)
                         in Inr (up, e1\<lparr>env_nic := n3, env_mem := m, env_dev := d2\<rparr>))))"

section \<open>The fake backend as a queue of frames\<close>

primrec gets :: "('s \<Rightarrow> bytes option \<times> 's) \<Rightarrow> nat \<Rightarrow> 's \<Rightarrow> bytes option list \<times> 's" where
  "gets get 0 s = ([], s)"
| "gets get (Suc k) s = (case get s of (f, s1) \<Rightarrow> case gets get k s1 of (fs, s2) \<Rightarrow> (f # fs, s2))"

locale frame_queue =
  fixes put :: "bytes \<Rightarrow> 's \<Rightarrow> bool \<times> 's"
    and get :: "'s \<Rightarrow> bytes option \<times> 's"
    and invar :: "'s \<Rightarrow> bool"
    and frames :: "'s \<Rightarrow> bytes list"
    and fits :: "bytes \<Rightarrow> bool"
    and capacity :: nat
  assumes put_room: "invar s \<Longrightarrow> fits f \<Longrightarrow> length (frames s) < capacity \<Longrightarrow>
      \<exists>s'. put f s = (True, s') \<and> invar s' \<and> frames s' = frames s @ [f]"
    and put_full: "invar s \<Longrightarrow> length (frames s) = capacity \<Longrightarrow> put f s = (False, s)"
    and get_empty: "invar s \<Longrightarrow> frames s = [] \<Longrightarrow> get s = (None, s)"
    and get_head: "invar s \<Longrightarrow> frames s = f # fs \<Longrightarrow>
      \<exists>s'. get s = (Some f, s') \<and> invar s' \<and> frames s' = fs"
begin

lemma puts_append:
  assumes "invar s" and "\<forall>f \<in> set fs. fits f" and "length (frames s) + length fs \<le> capacity"
  shows "invar (fold (\<lambda>f s. snd (put f s)) fs s) \<and>
    frames (fold (\<lambda>f s. snd (put f s)) fs s) = frames s @ fs"
  using assms
proof (induction fs arbitrary: s)
  case (Cons f fs)
  obtain s' where s': "put f s = (True, s')" "invar s'" "frames s' = frames s @ [f]"
    using put_room [of s f] Cons.prems by auto
  then show ?case
    using Cons.IH [of s'] Cons.prems by simp
qed simp

lemma gets_all:
  assumes "invar s"
  shows "\<exists>s'. gets get (length (frames s)) s = (map Some (frames s), s') \<and> invar s' \<and> frames s' = []"
  using assms
proof (induction "frames s" arbitrary: s)
  case (Cons f fs)
  obtain s' where s': "get s = (Some f, s')" "invar s'" "frames s' = fs"
    using get_head [of s f fs] Cons by auto
  then show ?case
    using Cons.hyps(1) [of s'] Cons.hyps(2) [symmetric] by auto
qed simp

text \<open>Frames come out in the order in which they went in.\<close>

lemma fifo:
  assumes "invar s" and "frames s = []" and "\<forall>f \<in> set fs. fits f" and "length fs \<le> capacity"
  shows "fst (gets get (length fs) (fold (\<lambda>f s. snd (put f s)) fs s)) = map Some fs"
  using puts_append [OF assms(1,3)] assms(2,4) gets_all [of "fold (\<lambda>f s. snd (put f s)) fs s"]
  by auto

end

definition fake_inv :: "nic \<Rightarrow> bool" where
  "fake_inv n \<longleftrightarrow> backend (g_net n) = Backend_Fake \<and> rx_inv (g_net n) \<and> tx_idle (g_net n)"

text \<open>
  One receive with a buffer of the maximal frame size, as the poll loop makes it: the frame, or
  \<open>None\<close> when the result is not positive.
\<close>

definition recv_frame :: "nic \<Rightarrow> bytes option \<times> nic" where
  "recv_frame n =
     (case net_recv_raw (Some (replicate VIRTIO_NET_MAX_FRAME_SIZE 0)) VIRTIO_NET_MAX_FRAME_SIZE n of
        Inr (len, Some out, n1) \<Rightarrow> ((if len > 0 then Some (take (nat len) out) else None), n1)
      | _ \<Rightarrow> (None, n))"

definition frame_ok :: "bytes \<Rightarrow> bool" where
  "frame_ok f \<longleftrightarrow> 0 < length f \<and> length f \<le> VIRTIO_NET_MAX_FRAME_SIZE"

lemma backend_frame [simp]:
  "backend (fill_rx i data n s) = backend s" "backend (recycle_rx i s) = backend s"
  "backend (enqueue_tx i data n s) = backend s" "backend (complete_tx_locked i n s) = backend s"
  by (simp_all add: fill_rx_def recycle_rx_def enqueue_tx_def complete_tx_locked_def)

lemma tx_idle_rx_frame [simp]:
  "tx_idle (fill_rx i data n s) = tx_idle s" "tx_idle (recycle_rx i s) = tx_idle s"
  "tx_idle (s\<lparr>rx_next_probe := p\<rparr>) = tx_idle s"
  by (simp_all add: fill_rx_def recycle_rx_def tx_idle_def)

lemma inject_rx_room:
  assumes "fake_inv n" and "frame_ok f" and "length (rx_frames (g_net n)) < 8"
  shows "\<exists>n'. inject_rx (Some f) (length f) n = (True, n') \<and> fake_inv n' \<and>
    rx_frames (g_net n') = rx_frames (g_net n) @ [f]"
proof -
  let ?s = "g_net n"
  have inv: "rx_inv ?s" and room: "rx_count ?s < 8" and f: "0 < length f" "length f \<le> 2048"
    using assms by (simp_all add: fake_inv_def frame_ok_def VIRTIO_NET_MAX_FRAME_SIZE_def)
  obtain i p where i: "net_fake_inject_rx (Some f) (length f) ?s =
      (True, fill_rx i f (length f) (?s\<lparr>rx_next_probe := p\<rparr>))" "i < 8" "\<not> occupied (rx_slots ?s ! i)"
    using inject_room [OF inv room _ f, of f] assms(1) by (auto simp: fake_inv_def)
  let ?s1 = "?s\<lparr>rx_next_probe := p\<rparr>"
  have "rx_frames (fill_rx i f (length f) ?s1) = rx_frames ?s @ [f]"
    using rx_frames_fill [of ?s1 i "length f" f] inv room i f by simp
  moreover have "rx_inv (fill_rx i f (length f) ?s1)"
    using rx_inv_fill [of ?s1 i "length f" f] inv room i f by simp
  ultimately show ?thesis
    using i(1) assms(1) by (simp add: inject_rx_def fake_inv_def)
qed

lemma recv_frame_head:
  assumes "fake_inv n" and "rx_frames (g_net n) = f # fs"
  shows "recv_frame n = (Some f, count_stat RawRx
      (n\<lparr>g_net := recycle_rx (elem_slot (rx_elem (g_net n) 0)) (g_net n)\<rparr>))"
    and "rx_inv (recycle_rx (elem_slot (rx_elem (g_net n) 0)) (g_net n))"
    and "rx_frames (recycle_rx (elem_slot (rx_elem (g_net n) 0)) (g_net n)) = fs"
    and "0 < length f" and "length f \<le> 2048"
proof -
  let ?s = "g_net n" and ?e = "rx_elem (g_net n) 0"
  have inv: "rx_inv ?s" and ne: "0 < rx_count ?s"
    using assms length_rx_frames [of ?s] by (auto simp: fake_inv_def)
  have f: "f = elem_frame ?s ?e" and fs: "fs = rx_frames (recycle_rx (elem_slot ?e) ?s)"
    using rx_frames_recycle [OF inv ne] assms(2) by auto
  have len: "0 < unat (used_len ?e)" "unat (used_len ?e) \<le> 2048" "elem_slot ?e < 8"
    "length (slot_data (rx_slots ?s ! elem_slot ?e)) = 2048"
    using inv ne by (auto simp: rx_inv_def wf_slots_def)
  then have lf: "length f = unat (used_len ?e)"
    by (simp add: f elem_frame_def)
  have pos: "0 < uint (used_len ?e)"
  proof -
    have "(0 :: int) < int (unat (used_len ?e))"
      using len(1) by (simp only: of_nat_0_less_iff)
    then show ?thesis by simp
  qed
  have head: "used_ring (rx_used ?s) ! ring_pos (rx_used_consume ?s) = ?e"
    by (simp add: rx_elem_def ring_at_0)
  have slot: "unat (ucast (used_id ?e) :: u16) = elem_slot ?e"
    by (simp add: elem_slot_def)
  have "rx_used_consume ?s \<noteq> used_idx (rx_used ?s)"
    using ne by (auto simp: rx_count_def in_ring_0_iff simp flip: neq0_conv)
  then show "recv_frame n = (Some f, count_stat RawRx
      (n\<lparr>g_net := recycle_rx (elem_slot ?e) ?s\<rparr>))"
    using len pos rx_head_occupied [OF inv ne] assms(1)
    by (simp add: recv_frame_def net_recv_raw_def backend_ready_locked_def fake_inv_def fake_recv_locked_def
        Let_def head slot VIRTIO_NET_QUEUE_SIZE_def VIRTIO_NET_MAX_FRAME_SIZE_def store_at_def
        write_at_def f elem_frame_def)
  show "rx_inv (recycle_rx (elem_slot ?e) ?s)" "rx_frames (recycle_rx (elem_slot ?e) ?s) = fs"
    using rx_inv_recycle [OF inv ne] fs by simp_all
  show "0 < length f" "length f \<le> 2048"
    using len lf by simp_all
qed

lemma recv_frame_empty:
  assumes "fake_inv n" and "rx_frames (g_net n) = []"
  shows "recv_frame n = (None, n)"
proof -
  have "rx_count (g_net n) = 0"
    using assms(2) length_rx_frames [of "g_net n"] by simp
  then show ?thesis
    using assms(1) by (simp add: recv_frame_def net_recv_raw_def backend_ready_locked_def fake_inv_def
        fake_recv_locked_def rx_count_def in_ring_0_iff VIRTIO_NET_MAX_FRAME_SIZE_def)
qed

interpretation fake_rx: frame_queue "\<lambda>f. inject_rx (Some f) (length f)" recv_frame fake_inv
  "\<lambda>n. rx_frames (g_net n)" frame_ok 8
proof
  fix n :: nic and f :: bytes and fs
  assume inv: "fake_inv n"
  show "length (rx_frames (g_net n)) = 8 \<Longrightarrow> inject_rx (Some f) (length f) n = (False, n)"
    using inv inject_full [of "g_net n"] by (simp add: inject_rx_def fake_inv_def)
  show "rx_frames (g_net n) = f # fs \<Longrightarrow>
      \<exists>s'. recv_frame n = (Some f, s') \<and> fake_inv s' \<and> rx_frames (g_net s') = fs"
    using recv_frame_head [OF inv] inv by (simp add: fake_inv_def count_stat_def)
qed (use inject_rx_room recv_frame_empty in auto)

section \<open>Transmission on the fake backend\<close>

text \<open>Reclaiming transmissions touches nothing of the receive side and not the recorded frame.\<close>

lemma reclaim_tx_entry_frame:
  "backend (reclaim_tx_entry s) = backend s"
  "rx_slots (reclaim_tx_entry s) = rx_slots s" "rx_used (reclaim_tx_entry s) = rx_used s"
  "rx_used_consume (reclaim_tx_entry s) = rx_used_consume s" "rx_ready (reclaim_tx_entry s) = rx_ready s"
  "rx_desc (reclaim_tx_entry s) = rx_desc s"
  "last_fake_tx (reclaim_tx_entry s) = last_fake_tx s"
  "last_fake_tx_len (reclaim_tx_entry s) = last_fake_tx_len s"
  "last_fake_tx_valid (reclaim_tx_entry s) = last_fake_tx_valid s"
  by (simp_all add: reclaim_tx_entry_def Let_def)

lemma reclaim_tx_frame [simp]:
  "backend (reclaim_tx_locked s) = backend s"
  "rx_slots (reclaim_tx_locked s) = rx_slots s" "rx_used (reclaim_tx_locked s) = rx_used s"
  "rx_used_consume (reclaim_tx_locked s) = rx_used_consume s" "rx_ready (reclaim_tx_locked s) = rx_ready s"
  "rx_desc (reclaim_tx_locked s) = rx_desc s"
  "last_fake_tx (reclaim_tx_locked s) = last_fake_tx s"
  "last_fake_tx_len (reclaim_tx_locked s) = last_fake_tx_len s"
  "last_fake_tx_valid (reclaim_tx_locked s) = last_fake_tx_valid s"
  by (induction s rule: reclaim_tx_locked.induct;
      subst reclaim_tx_locked.simps; simp add: reclaim_tx_entry_frame)+

lemma rx_side_cong:
  assumes "rx_slots s' = rx_slots s" "rx_used s' = rx_used s" "rx_used_consume s' = rx_used_consume s"
    "rx_ready s' = rx_ready s" "rx_desc s' = rx_desc s"
  shows "rx_inv s' = rx_inv s" and "rx_frames s' = rx_frames s"
  using assms by (simp_all add: rx_inv_def rx_frames_def rx_count_def rx_elem_def elem_frame_def)

lemma net_send_raw_fake:
  assumes inv: "fake_inv n" and len: "0 < k" "k \<le> 2048" "k \<le> length data"
  shows "\<exists>s'. net_send_raw (Some data) k n = (True, count_stat RawTx (n\<lparr>g_net := s'\<rparr>)) \<and>
    fake_inv (n\<lparr>g_net := s'\<rparr>) \<and> rx_frames s' = rx_frames (g_net n) \<and>
    take k (last_fake_tx s') = take k data \<and> last_fake_tx_len s' = word_of_nat k \<and> last_fake_tx_valid s'"
proof -
  let ?s = "g_net n"
  have idle: "tx_idle ?s" and b: "backend ?s = Backend_Fake" and rx: "rx_inv ?s"
    using inv by (simp_all add: fake_inv_def)
  obtain i p where i: "find_free_tx_slot_locked ?s = (Some i, ?s\<lparr>tx_next_probe := p\<rparr>)" "i < 8"
    using find_free_tx_slot_idle [OF idle] by auto
  define s2 where "s2 = enqueue_tx i data k (?s\<lparr>tx_next_probe := p\<rparr>)"
  define u where "u = (\<lambda>s. s\<lparr>last_fake_tx := copy_bytes (last_fake_tx s) data k,
    last_fake_tx_len := word_of_nat k, last_fake_tx_valid := True\<rparr> :: NetState)"
  define s' where "s' = reclaim_tx_locked (complete_tx_locked i k (u s2))"
  have comm: "u s2 = enqueue_tx i data k (u (?s\<lparr>tx_next_probe := p\<rparr>))"
    by (simp add: s2_def u_def enqueue_tx_def)
  have l: "length (last_fake_tx ?s) = 2048"
    using idle by (simp add: tx_idle_def)
  have "tx_idle (u (?s\<lparr>tx_next_probe := p\<rparr>))"
    using idle by (simp add: tx_idle_def u_def)
  then have idle': "tx_idle s'"
    unfolding s'_def comm by (rule tx_cycle_idle [OF _ i(2)])
  have eq: "net_send_raw (Some data) k n = (True, count_stat RawTx (n\<lparr>g_net := s'\<rparr>))"
    using len b i reclaim_tx_idle [OF idle]
    by (simp add: net_send_raw_def VIRTIO_NET_MAX_FRAME_SIZE_def backend_ready_locked_def Let_def
        s2_def [symmetric] s'_def u_def)
      (simp add: s2_def b)?
  have same: "rx_slots s' = rx_slots ?s" "rx_used s' = rx_used ?s" "rx_used_consume s' = rx_used_consume ?s"
    "rx_ready s' = rx_ready ?s" "rx_desc s' = rx_desc ?s"
    by (simp_all add: s'_def complete_tx_locked_def u_def s2_def enqueue_tx_def)
  have rec: "take k (last_fake_tx s') = take k data \<and> last_fake_tx_len s' = word_of_nat k \<and> last_fake_tx_valid s'"
    using len l by (simp add: s'_def complete_tx_locked_def u_def s2_def enqueue_tx_def copy_bytes_eq)
  have "backend s' = Backend_Fake"
    using b by (simp add: s'_def complete_tx_locked_def u_def s2_def)
  then show ?thesis
    using eq rec idle' rx rx_side_cong [OF same] by (intro exI [of _ s']) (simp add: fake_inv_def)
qed

lemma init_fake_inv:
  assumes "wf_net (g_net n)"
  shows "fake_inv (net_init_fake n)" and "rx_frames (g_net (net_init_fake n)) = []"
  using reset_rings [OF assms] rx_side_cong [of "g_net (net_init_fake n)" "reset_rings_locked (g_net n)"]
  by (auto simp: fake_inv_def net_init_fake_def tx_idle_def)

section \<open>Bring-up of the PCI backend\<close>

lemma alloc_buffers_loop:
  assumes "alloc_packet_buffers_loop is bufs m = Inr (bufs', m')"
  shows "length bufs' = length bufs \<and>
    (\<forall>i \<in> set is. i < length bufs \<longrightarrow> length (buf_data (bufs' ! i)) = 4096) \<and>
    (\<forall>i. i \<notin> set is \<longrightarrow> bufs' ! i = bufs ! i)"
  using assms
proof (induction "is" arbitrary: bufs m)
  case (Cons i "is")
  then obtain ppn m1 where "alloc_packet_buffers_loop is
      (bufs[i := \<lparr>buf_data = zero_page, buf_pa = PA_of_PPN ppn, in_use = False, buf_len = 0\<rparr>]) m1 = Inr (bufs', m')"
    by (auto simp: bind_outcome_Inr_iff)
  from Cons.IH [OF this] show ?case
    by (cases "i \<in> set is") (auto simp: zero_page_def)
qed simp

lemma alloc_packet_buffers_pages:
  assumes "alloc_packet_buffers bufs m = Inr (bufs', m')" and "length bufs = 8"
  shows "length bufs' = 8 \<and> (\<forall>i < 8. length (buf_data (bufs' ! i)) = 4096)"
  using alloc_buffers_loop [OF assms(1) [unfolded alloc_packet_buffers_def]] assms(2)
  by (simp add: VIRTIO_NET_QUEUE_SIZE_def)

lemma setup_virtqueue_rings:
  assumes "setup_virtqueue rd wr base k qi q m d = Inr (True, q', m', d')"
  shows "q_desc q' = replicate 8 zero_desc \<and> q_avail q' = zero_avail \<and> q_used q' = zero_used \<and>
    q_notify q' \<noteq> None"
  using assms
  by (auto simp: setup_virtqueue_def alloc_queue_pages_def Let_def bind_outcome_Inr_iff
      VIRTIO_NET_QUEUE_SIZE_def case_prod_beta split: if_splits)

lemma init_rx_entry_frame:
  "hw_tx (init_rx_entry i hw) = hw_tx hw" "hw_tx_buffers (init_rx_entry i hw) = hw_tx_buffers hw"
  "hw_features (init_rx_entry i hw) = hw_features hw"
  by (simp_all add: init_rx_entry_def Let_def)

lemma init_rx_entries_frame:
  "hw_tx (fold init_rx_entry is hw) = hw_tx hw \<and>
   hw_tx_buffers (fold init_rx_entry is hw) = hw_tx_buffers hw \<and>
   hw_features (fold init_rx_entry is hw) = hw_features hw"
  by (induction "is" arbitrary: hw) (simp_all add: init_rx_entry_frame)

lemma notify_queue_features [simp]: "hw_features (notify_queue q k hw) = hw_features hw"
  by (simp add: notify_queue_def split: option.split)

lemma init_rx_frame [simp]:
  "hw_tx (init_rx_buffers_locked hw) = hw_tx hw"
  "hw_tx_buffers (init_rx_buffers_locked hw) = hw_tx_buffers hw"
  "hw_features (init_rx_buffers_locked hw) = hw_features hw"
  by (simp_all add: init_rx_buffers_locked_def Let_def init_rx_entries_frame)

lemma init_tx_entries_features: "hw_features (fold init_tx_entry is hw) = hw_features hw"
  by (induction "is" arbitrary: hw) (simp_all add: init_tx_entry_def Let_def)

lemma init_tx_features [simp]: "hw_features (init_tx_buffers_locked hw) = hw_features hw"
  by (simp add: init_tx_buffers_locked_def Let_def init_tx_entries_features)

lemma hw_tx_inv_cong:
  "hw_tx hw' = hw_tx hw \<Longrightarrow> hw_tx_buffers hw' = hw_tx_buffers hw \<Longrightarrow> hw_tx_inv F hw' = hw_tx_inv F hw"
  by (simp add: hw_tx_inv_def tx_done_def tx_done_slot_def [abs_def])

lemma init_ready_frame [simp]:
  "hw_ready (init_rx_buffers_locked hw) = hw_ready hw"
  "hw_ready (init_tx_buffers_locked hw) = hw_ready hw"
proof -
  have "hw_ready (fold init_rx_entry is hw) = hw_ready hw" for "is" hw
    by (induction "is" arbitrary: hw) (simp_all add: init_rx_entry_def Let_def)
  then show "hw_ready (init_rx_buffers_locked hw) = hw_ready hw"
    by (simp add: init_rx_buffers_locked_def Let_def)
  have "hw_ready (fold init_tx_entry is hw) = hw_ready hw" for "is" hw
    by (induction "is" arbitrary: hw) (simp_all add: init_tx_entry_def Let_def)
  then show "hw_ready (init_tx_buffers_locked hw) = hw_ready hw"
    by (simp add: init_tx_buffers_locked_def Let_def)
qed

lemma bring_up_queues_ready:
  assumes up: "bring_up_queues rd wr fn layout common base dcfg wanted hw m d = Inr (up, hw', m', d')"
    and "\<not> hw_ready hw" and bufs: "length (hw_tx_buffers hw) = 8"
      "\<forall>i < 8. length (buf_data (hw_tx_buffers hw ! i)) = 4096"
  shows "hw_ready hw' = up \<and> (up \<longrightarrow> hw_features hw' = wanted \<and> hw_tx_inv {} hw')"
proof -
  obtain ok1 rxq m1 d1 where rx: "setup_virtqueue rd wr base (notify_multiplier layout)
      VIRTIO_NET_RX_QUEUE (hw_rx hw) m d = Inr (ok1, rxq, m1, d1)"
    using up by (auto simp: bring_up_queues_def bind_outcome_Inr_iff)
  show ?thesis
  proof (cases ok1)
    case False
    then show ?thesis
      using up rx assms(2) by (auto simp: bring_up_queues_def Let_def)
  next
    case True
    then obtain ok2 txq m2 d2 where tx: "setup_virtqueue rd wr base (notify_multiplier layout)
        VIRTIO_NET_TX_QUEUE (hw_tx hw) m1 d1 = Inr (ok2, txq, m2, d2)"
      using up rx by (auto simp: bring_up_queues_def bind_outcome_Inr_iff Let_def)
    show ?thesis
    proof (cases ok2)
      case False
      then show ?thesis
        using up rx tx True assms(2) by (auto simp: bring_up_queues_def Let_def)
    next
      case ok2: True
      let ?hw3 = "hw\<lparr>hw_rx := rxq, hw_tx := txq, hw_pci := Some fn, hw_layout := layout,
        hw_common := Some common, hw_device_cfg := dcfg, hw_features := wanted\<rparr>"
      have eq: "up" "hw' = (init_rx_buffers_locked (init_tx_buffers_locked ?hw3))\<lparr>hw_ready := True\<rparr>"
        using up rx tx True ok2 by (auto simp: bring_up_queues_def Let_def)
      have "fresh_tx ?hw3"
        using bufs setup_virtqueue_rings [OF tx [unfolded eqTrueI [OF ok2]]]
        by (simp add: fresh_tx_def zero_used_def zero_avail_def VIRTIO_NET_QUEUE_SIZE_def)
      then have "hw_tx_inv {} (init_tx_buffers_locked ?hw3)"
        by (rule hw_tx_inv_init)
      then have "hw_tx_inv {} hw'"
        unfolding eq(2) by (subst hw_tx_inv_cong [of _ "init_tx_buffers_locked ?hw3"]) simp_all
      then show ?thesis using eq by simp
    qed
  qed
qed

lemma zero_hw_fields [simp]:
  "hw_ready (zero_hw bells) = False" "hw_mac (zero_hw bells) = replicate 6 0"
  "hw_rx_buffers (zero_hw bells) = replicate 8 zero_buffer"
  "hw_tx_buffers (zero_hw bells) = replicate 8 zero_buffer"
  by (simp_all add: zero_hw_def VIRTIO_NET_QUEUE_SIZE_def)

lemma bring_up_ready:
  assumes up: "bring_up rd wr fn layout common base dcfg wanted (zero_hw bells) m d = Inr (up, hw, m', d')"
  shows "hw_ready hw = up \<and> (up \<longrightarrow> hw_features hw = wanted \<and> hw_tx_inv {} hw)"
proof -
  obtain mac d1 where mac: "(if wanted AND VIRTIO_NET_F_MAC \<noteq> 0 \<and> dcfg \<noteq> None
      then read_mac rd [0..<6] (hw_mac (zero_hw bells)) d else (hw_mac (zero_hw bells), d)) = (mac, d1)"
    by (rule prod.exhaust)
  note up1 = up [unfolded bring_up_def mac Let_def prod.case]
  obtain rxb m1 where rxb: "alloc_packet_buffers (replicate 8 zero_buffer) m = Inr (rxb, m1)"
    using up1 by (auto simp: bind_outcome_Inr_iff)
  obtain txb m2 where txb: "alloc_packet_buffers (replicate 8 zero_buffer) m1 = Inr (txb, m2)"
    using up1 rxb by (auto simp: bind_outcome_Inr_iff)
  have "bring_up_queues rd wr fn layout common base dcfg wanted
      ((zero_hw bells)\<lparr>hw_mac := mac, hw_rx_buffers := rxb, hw_tx_buffers := txb\<rparr>) m2 d1 =
      Inr (up, hw, m', d')"
    using up1 rxb txb by simp
  then show ?thesis
    by (rule bring_up_queues_ready) (use alloc_packet_buffers_pages [OF txb] in simp_all)
qed

lemma wanted_sub_offered:
  "offered AND VIRTIO_F_VERSION_1 \<noteq> 0 \<Longrightarrow> wanted_features offered AND NOT offered = 0"
proof -
  have single: "offered AND push_bit k 1 \<noteq> 0 \<Longrightarrow> push_bit k 1 AND NOT offered = (0 :: u64)" for k
    by (rule bit_word_eqI) (auto simp: bit_simps and_exp_eq_0_iff_not_bit push_bit_eq_mult)
  assume "offered AND VIRTIO_F_VERSION_1 \<noteq> 0"
  then show ?thesis
    unfolding wanted_features_def Let_def VIRTIO_F_VERSION_1_def VIRTIO_NET_F_MAC_def VIRTIO_NET_F_STATUS_def
    by (simp add: single bit.conj_disj_distrib2 del: push_bit_of_1)
qed

lemma negotiate_features:
  assumes "negotiate rd wr d = (Some wanted, d')"
  shows "\<exists>offered d1 d2. read_device_features rd wr d1 = (offered, d2) \<and>
    offered AND VIRTIO_F_VERSION_1 \<noteq> 0 \<and> wanted = wanted_features offered"
proof -
  obtain ok d1 where w: "wait_for_reset rd (wr Device_status 0 d) = (ok, d1)"
    by (rule prod.exhaust)
  define d2 where "d2 = add_device_status rd wr 2 (add_device_status rd wr 1 d1)"
  obtain offered d3 where o: "read_device_features rd wr d2 = (offered, d3)"
    by (rule prod.exhaust)
  have "offered AND VIRTIO_F_VERSION_1 \<noteq> 0 \<and> wanted = wanted_features offered"
    using assms w o
    by (auto simp: negotiate_def Let_def d2_def [symmetric] case_prod_beta split: bool.splits if_splits)
  with o show ?thesis by blast
qed

section \<open>Properties\<close>

text \<open>
  The receive ring is a FIFO of eight frames across its index wrap: on a freshly initialised
  fake backend, up to eight injected frames are all accepted and come out of \<open>net_recv_raw\<close>
  unchanged and in order, and then nothing is left; a ninth frame is refused and changes nothing.
\<close>

theorem fake_rx_fifo:
  assumes "wf_net (g_net n)" and "\<forall>f \<in> set fs. frame_ok f" and "length fs \<le> 8"
  defines "n1 \<equiv> fold (\<lambda>f n. snd (inject_rx (Some f) (length f) n)) fs (net_init_fake n)"
  shows "fst (gets recv_frame (length fs) n1) = map Some fs \<and>
    fst (recv_frame (snd (gets recv_frame (length fs) n1))) = None \<and>
    (length fs = 8 \<longrightarrow> inject_rx (Some g) (length g) n1 = (False, n1))"
proof -
  note i = init_fake_inv [OF assms(1)]
  have n1: "fake_inv n1" "rx_frames (g_net n1) = fs"
    using fake_rx.puts_append [OF i(1) assms(2)] assms(3) i(2) by (simp_all add: n1_def)
  then obtain n2 where "gets recv_frame (length fs) n1 = (map Some fs, n2)" "fake_inv n2"
    "rx_frames (g_net n2) = []"
    using fake_rx.gets_all [OF n1(1)] by auto
  moreover have "length fs = 8 \<longrightarrow> inject_rx (Some g) (length g) n1 = (False, n1)"
    using fake_rx.put_full [OF n1(1)] n1(2) by blast
  ultimately show ?thesis
    using n1 fake_rx.get_empty by simp
qed

text \<open>The boot state of the driver: zeroed rings, no backend.\<close>

definition boot_slot :: FrameSlot where
  "boot_slot = \<lparr>slot_data = replicate 2048 0, slot_len = 0, occupied = False\<rparr>"

definition boot_net :: NetState where
  "boot_net = \<lparr>backend = Backend_None, tx_desc = replicate 8 zero_desc, rx_desc = replicate 8 zero_desc,
     tx_avail = zero_avail, rx_avail = zero_avail, tx_used = zero_used, rx_used = zero_used,
     tx_slots = replicate 8 boot_slot, rx_slots = replicate 8 boot_slot, tx_next_probe = 0,
     tx_used_consume = 0, tx_pending = 0, rx_next_probe = 0, rx_used_consume = 0, rx_ready = 0,
     last_fake_tx = replicate 2048 0, last_fake_tx_len = 0, last_fake_tx_valid = False,
     tx_slot_addr = replicate 8 0, rx_slot_addr = replicate 8 0\<rparr>"

definition boot_nic :: nic where
  "boot_nic = \<lparr>g_net = boot_net, g_hw = zero_hw [], g_stats = net_stats_reset\<rparr>"

lemma boot_nic_wf: "wf_net (g_net boot_nic)"
  by (simp add: boot_nic_def boot_net_def wf_net_def wf_slots_def boot_slot_def)

theorem fake_rx_fifo_witness:
  "fst (gets recv_frame 3 (fold (\<lambda>f n. snd (inject_rx (Some f) (length f) n))
     [[1], [2, 3], [4]] (net_init_fake boot_nic))) = [Some [1], Some [2, 3], Some [4]]"
  using fake_rx_fifo [OF boot_nic_wf, of "[[1], [2, 3], [4]]" "[]"]
  by (simp add: frame_ok_def VIRTIO_NET_MAX_FRAME_SIZE_def numeral_eq_Suc)

text \<open>
  Transmission on the fake backend: a frame of 1 to 2048 bytes is always accepted, is the frame
  \<open>net_copy_last_tx_for_test\<close> then returns, increments \<open>RawTx\<close> and no other counter, leaves
  the receive queue alone and leaves the transmit ring idle, so that sending never runs out of slots.
\<close>

theorem fake_send_delivers:
  assumes "fake_inv n" and "0 < length f" and "length f \<le> 2048" and "length out = 2048"
  shows "\<exists>n'. net_send_raw (Some f) (length f) n = (True, n') \<and> fake_inv n' \<and>
    g_stats n' = net_stats_increment RawTx (g_stats n) \<and>
    rx_frames (g_net n') = rx_frames (g_net n) \<and>
    (case net_copy_last_tx_for_test (Some out) (Some 2048) (g_net n') of
       None \<Rightarrow> False | Some (buf, k) \<Rightarrow> k = length f \<and> take k buf = f)"
proof -
  obtain s' where s': "net_send_raw (Some f) (length f) n = (True, count_stat RawTx (n\<lparr>g_net := s'\<rparr>))"
    "fake_inv (n\<lparr>g_net := s'\<rparr>)" "rx_frames s' = rx_frames (g_net n)"
    "take (length f) (last_fake_tx s') = f" "last_fake_tx_len s' = word_of_nat (length f)"
    "last_fake_tx_valid s'"
    using net_send_raw_fake [OF assms(1), of "length f" f] assms(2,3) by auto
  have k: "unat (last_fake_tx_len s') = length f"
    using assms(3) by (simp add: s'(5) unat_of_nat)
  have l: "length (last_fake_tx s') = 2048"
    using s'(2) by (simp add: fake_inv_def tx_idle_def)
  let ?n = "count_stat RawTx (n\<lparr>g_net := s'\<rparr>)"
  have "fake_inv ?n" "g_stats ?n = net_stats_increment RawTx (g_stats n)" "g_net ?n = s'"
    using s'(2) by (simp_all add: fake_inv_def count_stat_def)
  moreover have "net_copy_last_tx_for_test (Some out) (Some 2048) s' =
      Some (f @ drop (length f) out, length f)"
    using s'(4,6) k l assms(3,4) by (simp add: net_copy_last_tx_for_test_def copy_bytes_eq)
  ultimately show ?thesis
    using s'(1,3) by (intro exI [of _ ?n]) simp
qed

theorem fake_send_delivers_witness:
  "\<exists>n'. net_send_raw (Some [0xAA, 0xBB]) 2 (net_init_fake boot_nic) = (True, n') \<and> fake_inv n'"
  using fake_send_delivers [OF init_fake_inv(1) [OF boot_nic_wf], of "[0xAA, 0xBB]" "replicate 2048 0"]
  by (auto simp: numeral_2_eq_2)

text \<open>
  Every refusal of the raw interface leaves the whole driver state as it was: a null or empty
  buffer, a frame of more than 2048 bytes, a backend that is not ready.
\<close>

theorem raw_refusals:
  "net_send_raw None k n = (False, n) \<and> net_send_raw p 0 n = (False, n) \<and>
   net_send_raw p (2049 + k) n = (False, n) \<and>
   net_recv_raw None k n = Inr (-1, None, n) \<and> net_recv_raw (Some out) 0 n = Inr (-1, Some out, n) \<and>
   net_send_raw p k (net_shutdown_backend n) = (False, net_shutdown_backend n) \<and>
   net_recv_raw (Some out) (Suc k) (net_shutdown_backend n) = Inr (0, Some out, net_shutdown_backend n)"
  by (auto simp: net_send_raw_def net_recv_raw_def VIRTIO_NET_MAX_FRAME_SIZE_def backend_ready_locked_def
      net_shutdown_backend_def split: option.split)

text \<open>
  Bring-up of the PCI backend: when it reports success the driver is ready on the virtio
  backend, its transmit ring starts with no buffer owned by the device, and the features written
  back are a subset of those the device offered, \<open>VERSION_1\<close> among them; when it fails the driver
  is not ready and the fake backend's state, the backend in use included, is untouched.
\<close>

theorem virtio_init_contract:
  assumes "virtio_net_init_pci cfg map_mmio rd wr e = Inr (ok, e')"
    and "\<not> hw_ready (g_hw (env_nic e))"
  shows "net_ready (env_nic e'\<lparr>g_net := (g_net (env_nic e'))\<lparr>backend := Backend_Virtio\<rparr>\<rparr>) = ok \<and>
    (if ok then backend (g_net (env_nic e')) = Backend_Virtio \<and> tx_reach {} (g_hw (env_nic e')) \<and>
       (\<exists>offered. offered AND VIRTIO_F_VERSION_1 \<noteq> 0 \<and>
          hw_features (g_hw (env_nic e')) = wanted_features offered \<and>
          wanted_features offered AND NOT offered = 0)
     else g_net (env_nic e') = g_net (env_nic e))"
proof -
  let ?n = "env_nic e"
  let ?hw0 = "zero_hw (doorbell (g_hw ?n))"
  obtain ports found where disc: "discover cfg map_mmio = (ports, found)"
    by (rule prod.exhaust)
  have stuck: ?thesis if "\<not> ok" "g_hw (env_nic e') = ?hw0" "g_net (env_nic e') = g_net ?n"
    using that by (simp add: net_ready_def backend_ready_locked_def nic_ready_def)
  show ?thesis
  proof (cases found)
    case None
    then show ?thesis
      using assms disc by (intro stuck) (auto simp: virtio_net_init_pci_def Let_def)
  next
    case (Some x)
    obtain fn layout common base dcfg where x: "x = (fn, layout, common, base, dcfg)"
      by (rule prod_cases5)
    obtain w d1 where neg: "negotiate rd wr (env_dev e) = (w, d1)"
      by (rule prod.exhaust)
    show ?thesis
    proof (cases w)
      case None
      then show ?thesis
        using assms disc Some x neg by (intro stuck) (auto simp: virtio_net_init_pci_def Let_def)
    next
      case w: (Some wanted)
      then obtain up hw m d2 where b: "bring_up rd wr fn layout common base dcfg wanted ?hw0 (env_mem e) d1 =
          Inr (up, hw, m, d2)"
        using assms disc Some x neg by (auto simp: virtio_net_init_pci_def Let_def bind_outcome_Inr_iff)
      then have e': "ok = up" "g_hw (env_nic e') = hw" "g_net (env_nic e') =
          (if ok then (g_net ?n)\<lparr>backend := Backend_Virtio\<rparr> else g_net ?n)"
        using assms disc Some x neg w by (auto simp: virtio_net_init_pci_def Let_def)
      obtain offered where "offered AND VIRTIO_F_VERSION_1 \<noteq> 0" "wanted = wanted_features offered"
        using negotiate_features [OF neg [unfolded w]] by auto
      moreover from this have "wanted_features offered AND NOT offered = 0"
        by (intro wanted_sub_offered)
      ultimately show ?thesis
        using bring_up_ready [OF b] e' tx_reach.start [of hw]
        by (auto simp: net_ready_def backend_ready_locked_def nic_ready_def)
    qed
  qed
qed

subsection \<open>A device and a machine on which bring-up succeeds\<close>

text \<open>At least \<open>k\<close> frames can be allocated from the first free range.\<close>

definition plenty :: "nat \<Rightarrow> PhysMem \<Rightarrow> bool" where
  "plenty k m \<longleftrightarrow> avail_frames m = [] \<and> free_ranges m \<noteq> [] \<and>
     4096 * k < unat (range_length (hd (free_ranges m)))"

lemma plenty_alloc:
  assumes "plenty (Suc k) m"
  shows "\<exists>ppn m'. PhysMem_alloc m = Inr (ppn, m') \<and> plenty k m'"
proof -
  obtain r rs where r: "free_ranges m = r # rs"
    using assms by (auto simp: plenty_def neq_Nil_conv)
  have l: "4096 + 4096 * k < unat (range_length r)"
    using assms r by (simp add: plenty_def)
  then have "unat (range_length r - FRAME_SIZE) = unat (range_length r) - 4096"
    by (simp add: FRAME_SIZE_val unat_sub word_le_nat_alt)
  then have "4096 * k < unat (range_length r - FRAME_SIZE)" "range_length r - FRAME_SIZE \<noteq> 0"
    using l by (auto simp flip: unat_gt_0)
  then show ?thesis
    using assms r by (auto simp: PhysMem_alloc_def plenty_def Let_def set_frame_state_def)
qed

lemma plenty_buffers_loop:
  "plenty (k + length is) m \<Longrightarrow>
   \<exists>bufs' m'. alloc_packet_buffers_loop is bufs m = Inr (bufs', m') \<and> plenty k m'"
proof (induction "is" arbitrary: bufs m)
  case (Cons i "is")
  then obtain ppn m1 where "PhysMem_alloc m = Inr (ppn, m1)" "plenty (k + length is) m1"
    using plenty_alloc by fastforce
  then show ?case using Cons.IH by simp
qed simp

lemma plenty_buffers:
  "plenty (k + 8) m \<Longrightarrow> \<exists>bufs' m'. alloc_packet_buffers bufs m = Inr (bufs', m') \<and> plenty k m'"
  using plenty_buffers_loop [of k "[0..<8]"]
  by (simp add: alloc_packet_buffers_def VIRTIO_NET_QUEUE_SIZE_def)

lemma plenty_setup:
  assumes "plenty (k + 3) m" and size: "\<And>d. 8 \<le> unat (fst (read_reg rd Queue_size d))"
  shows "\<exists>q' m' d'. setup_virtqueue rd wr base mul qi q m d = Inr (True, q', m', d') \<and> plenty k m'"
proof -
  obtain p1 m1 where 1: "PhysMem_alloc m = Inr (p1, m1)" "plenty (k + 2) m1"
    using plenty_alloc [of "k + 2" m] assms(1) by (auto simp: numeral_eq_Suc)
  obtain p2 m2 where 2: "PhysMem_alloc m1 = Inr (p2, m2)" "plenty (k + 1) m2"
    using plenty_alloc [of "k + 1" m1] 1(2) by (auto simp: numeral_eq_Suc)
  obtain p3 m3 where 3: "PhysMem_alloc m2 = Inr (p3, m3)" "plenty k m3"
    using plenty_alloc [of k m2] 2(2) by auto
  have "\<not> unat (fst (read_reg rd Queue_size (wr Queue_select (ucast qi) d))) < VIRTIO_NET_QUEUE_SIZE"
    using size by (simp add: VIRTIO_NET_QUEUE_SIZE_def not_less)
  with 1 2 3 show ?thesis
    by (simp add: setup_virtqueue_def alloc_queue_pages_def case_prod_beta Let_def)
qed

lemma bring_up_succeeds:
  assumes "plenty 22 m" and size: "\<And>d. 8 \<le> unat (fst (read_reg rd Queue_size d))"
  shows "\<exists>hw m' d'. bring_up rd wr fn layout common base None wanted hw0 m d = Inr (True, hw, m', d')"
proof -
  obtain rxb m1 where 1: "alloc_packet_buffers (hw_rx_buffers hw0) m = Inr (rxb, m1)" "plenty 14 m1"
    using plenty_buffers [of 14 m "hw_rx_buffers hw0"] assms(1) by auto
  obtain txb m2 where 2: "alloc_packet_buffers (hw_tx_buffers hw0) m1 = Inr (txb, m2)" "plenty 6 m2"
    using plenty_buffers [of 6 m1 "hw_tx_buffers hw0"] 1(2) by auto
  obtain q1 m3 d1 where 3: "setup_virtqueue rd wr base (notify_multiplier layout) VIRTIO_NET_RX_QUEUE
      (hw_rx hw0) m2 d = Inr (True, q1, m3, d1)" "plenty 3 m3"
    using plenty_setup [of 3 m2 rd wr base "notify_multiplier layout" VIRTIO_NET_RX_QUEUE "hw_rx hw0" d]
      size 2(2) by auto
  obtain q2 m4 d2 where 4: "setup_virtqueue rd wr base (notify_multiplier layout) VIRTIO_NET_TX_QUEUE
      (hw_tx hw0) m3 d1 = Inr (True, q2, m4, d2)"
    using plenty_setup [of 0 m3 rd wr base "notify_multiplier layout" VIRTIO_NET_TX_QUEUE "hw_tx hw0" d1]
      size 3(2) by auto
  show ?thesis
    using 1 2 3 4 by (simp add: bring_up_def bring_up_queues_def Let_def)
qed

definition demo_cfg :: config_space where
  "demo_cfg a =
     (if a = 0x80000000 then 0x10411AF4 else if a = 0x80000010 then 0xFE000000
      else if a = 0x80000034 then 0x40 else if a = 0x80000040 then 0x01105009
      else if a = 0x80000050 then 0x02140009 else if a = 0x80000058 then 0x1000 else 0)"

text \<open>A device whose state is its status register.\<close>

fun demo_rd :: "u64 reg_read" where
  "demo_rd Device_status d = (d, d)"
| "demo_rd Device_feature d = (1, d)"
| "demo_rd Queue_size d = (256, d)"
| "demo_rd _ d = (0, d)"

fun demo_wr :: "u64 reg_write" where
  "demo_wr Device_status v d = v"
| "demo_wr _ v d = d"

definition demo_env :: "u64 pci_env" where
  "demo_env = \<lparr>env_nic = boot_nic,
     env_mem = PhysMem_init (Some [\<lparr>mm_base = 0x100000, mm_length = 0x20000, mm_type = Usable\<rparr>]),
     env_dev = 7, env_ports = []\<rparr>"

lemma demo_find: "pci_find_virtio_net demo_cfg = read_function demo_cfg 0 0 0 \<and>
    read_function demo_cfg 0 0 0 \<noteq> None"
  by (simp add: pci_find_virtio_net_def pci_find_device_def PCI_MAX_BUSES_def PCI_MAX_DEVICES_def
      upt_conv_Cons find_in_slot_def read_function_def pci_config_read32_def pci_config_address_def
      demo_cfg_def Let_def)

lemma demo_caps: "parse_virtio_pci_layout demo_cfg fn0 =
    (True, zero_layout\<lparr>lay_common := store_region 0 0 0, lay_notify := store_region 0 0x1000 0,
       notify_multiplier := 0\<rparr>)"
  if "pci_bus fn0 = 0" "pci_device fn0 = 0" "pci_function fn0 = 0"
proof -
  have "parse_caps demo_cfg fn0 (Suc (Suc (Suc n))) 0x40 zero_layout =
      zero_layout\<lparr>lay_common := store_region 0 0 0, lay_notify := store_region 0 0x1000 0,
        notify_multiplier := 0\<rparr>" for n
    using that
    by (simp add: pci_config_read8_def pci_config_read32_def pci_config_address_def demo_cfg_def
        parse_vendor_cap_def Let_def)
  from this [of 45] show ?thesis
    using that
    by (simp add: parse_virtio_pci_layout_def pci_config_read8_def pci_config_read32_def
        pci_config_address_def demo_cfg_def Let_def store_region_def)
qed

lemma demo_discover: "\<exists>ports fn layout common base.
    discover demo_cfg (\<lambda>pa len. pa) = (ports, Some (fn, layout, common, base, None))"
proof -
  obtain fn where fn: "pci_find_virtio_net demo_cfg = Some fn" "read_function demo_cfg 0 0 0 = Some fn"
    using demo_find by auto
  then have "pci_bus fn = 0" "pci_device fn = 0" "pci_function fn = 0"
    using read_function_fields [OF fn(2)] by auto
  with fn(1) show ?thesis
    by (simp add: discover_def demo_caps Let_def map_pci_region_def store_region_def zero_layout_def
        zero_region_def pci_read_bar_def pci_config_read32_def pci_config_address_def demo_cfg_def)
qed

lemma demo_negotiate: "\<exists>wanted d. negotiate demo_rd demo_wr d0 = (Some wanted, d)"
  by (simp add: negotiate_def wait_for_reset_def reset_loop.simps [of _ 1000000] read_reg_def Let_def
      add_device_status_def read_device_features_def write_driver_features_def VIRTIO_F_VERSION_1_def
      take_bit_eq_mask mask_numeral)

lemma demo_init: "\<exists>e'. virtio_net_init_pci demo_cfg (\<lambda>pa len. pa) demo_rd demo_wr demo_env = Inr (True, e')"
proof -
  obtain ports fn layout common base where d: "discover demo_cfg (\<lambda>pa len. pa) =
      (ports, Some (fn, layout, common, base, None))"
    using demo_discover by blast
  obtain wanted d1 where n: "negotiate demo_rd demo_wr (env_dev demo_env) = (Some wanted, d1)"
    using demo_negotiate by blast
  have "plenty 22 (env_mem demo_env)"
    by (simp add: demo_env_def PhysMem_init_def add_range_def plenty_def Let_def)
  moreover have "8 \<le> unat (fst (read_reg demo_rd Queue_size d))" for d
    by (simp add: read_reg_def take_bit_eq_mask mask_numeral)
  ultimately obtain hw m' d' where "bring_up demo_rd demo_wr fn layout common base None wanted
      (zero_hw (doorbell (g_hw boot_nic))) (env_mem demo_env) d1 = Inr (True, hw, m', d')"
    using bring_up_succeeds [of "env_mem demo_env" demo_rd] by blast
  then show ?thesis
    using d n by (simp add: virtio_net_init_pci_def Let_def demo_env_def)
qed

theorem virtio_init_contract_witness:
  "\<exists>e'. virtio_net_init_pci demo_cfg (\<lambda>pa len. pa) demo_rd demo_wr demo_env = Inr (True, e') \<and>
    backend (g_net (env_nic e')) = Backend_Virtio \<and> tx_reach {} (g_hw (env_nic e'))"
proof -
  obtain e' where e': "virtio_net_init_pci demo_cfg (\<lambda>pa len. pa) demo_rd demo_wr demo_env = Inr (True, e')"
    using demo_init by blast
  have "\<not> hw_ready (g_hw (env_nic demo_env))"
    by (simp add: demo_env_def boot_nic_def)
  from virtio_init_contract [OF e' this] e' show ?thesis
    by simp
qed

end
