(* ===== verification/Chat_Store.thy ===== *)
theory Chat_Store
  imports Prelude
begin

text \<open>
  The message store of \<^verbatim>\<open>net_chat.cc\<close>: sanitised messages, a ring of the last eight for the
  history and a ring of unread ones. Both rings are indexed by 8-bit counters modulo 8. The lemmas
  show that the inbox is a queue that drops its oldest entry when a ninth arrives, and the history
  the list of the last eight messages.
\<close>

section \<open>State\<close>

definition NET_CHAT_PORT :: u16 where "NET_CHAT_PORT = 4390"
definition NET_CHAT_TEXT_SIZE :: nat where "NET_CHAT_TEXT_SIZE = 128"
definition NET_CHAT_HISTORY_SIZE :: nat where "NET_CHAT_HISTORY_SIZE = 8"

text \<open>A \<open>char\<close> array is a list of bytes.\<close>

record ChatMessage =
  chat_valid :: bool
  chat_src_ip :: bytes
  chat_src_port :: u16
  chat_text :: bytes

record chat_store =
  g_history :: "ChatMessage list"
  g_inbox :: "ChatMessage list"
  g_history_next :: u8
  g_history_count :: u8
  g_inbox_read :: u8
  g_inbox_write :: u8
  g_inbox_count :: u8

definition empty_message :: ChatMessage where
  "empty_message = \<lparr>chat_valid = False, chat_src_ip = replicate 4 0, chat_src_port = 0,
     chat_text = replicate NET_CHAT_TEXT_SIZE 0\<rparr>"

section \<open>Operations\<close>

definition is_printable :: "u8 \<Rightarrow> bool" where
  "is_printable ch \<longleftrightarrow> ch \<ge> 32 \<and> ch \<le> 126"

definition sanitize_char :: "u8 \<Rightarrow> u8" where
  "sanitize_char ch = (if is_printable ch then ch else 46)"

text \<open>The results are the returned length and the output array; \<open>None\<close> is a null pointer.\<close>

definition sanitize_payload :: "pointer \<Rightarrow> bytes \<Rightarrow> nat \<times> pointer" where
  "sanitize_payload out_ptr payload =
     (case out_ptr of
        None \<Rightarrow> (0, None)
      | Some out \<Rightarrow>
          let limit = NET_CHAT_TEXT_SIZE - 1;
              to_copy = (if length payload < limit then length payload else limit);
              out1 = fold (\<lambda>i out. out[i := sanitize_char (payload ! i)]) [0..<to_copy] out
          in (to_copy, Some (out1[to_copy := 0])))"

text \<open>The \<open>while\<close> loop of \<open>sanitize_cstr\<close>.\<close>

function sanitize_cstr_loop :: "nat \<Rightarrow> bytes \<Rightarrow> bytes \<Rightarrow> nat \<times> bytes" where
  "sanitize_cstr_loop len text out =
     (if len < NET_CHAT_TEXT_SIZE - 1 \<and> text ! len \<noteq> 0
      then sanitize_cstr_loop (len + 1) text (out[len := sanitize_char (text ! len)])
      else (len, out))"
  by pat_completeness auto
termination by (relation "measure (\<lambda>(len, _, _). NET_CHAT_TEXT_SIZE - 1 - len)") auto

declare sanitize_cstr_loop.simps [simp del]

definition sanitize_cstr :: "pointer \<Rightarrow> pointer \<Rightarrow> nat \<times> pointer" where
  "sanitize_cstr out_ptr text_ptr =
     (case (out_ptr, text_ptr) of
        (Some out, Some text) \<Rightarrow>
          (case sanitize_cstr_loop 0 text out of (len, out1) \<Rightarrow> (len, Some (out1[len := 0])))
      | _ \<Rightarrow> (0, out_ptr))"

text \<open>\<open>uint8_t((i + 1) % NET_CHAT_HISTORY_SIZE)\<close>\<close>

definition ring_next :: "u8 \<Rightarrow> u8" where
  "ring_next i = word_of_nat ((unat i + 1) mod NET_CHAT_HISTORY_SIZE)"

definition store_message_locked :: "ChatMessage \<Rightarrow> chat_store \<Rightarrow> chat_store" where
  "store_message_locked m c =
     (let c1 = c\<lparr>g_history := (g_history c)[unat (g_history_next c) := m],
                 g_history_next := ring_next (g_history_next c)\<rparr>;
          c2 = (if unat (g_history_count c1) < NET_CHAT_HISTORY_SIZE
                then c1\<lparr>g_history_count := g_history_count c1 + 1\<rparr> else c1);
          c3 = (if unat (g_inbox_count c2) = NET_CHAT_HISTORY_SIZE
                then c2\<lparr>g_inbox_read := ring_next (g_inbox_read c2), g_inbox_count := g_inbox_count c2 - 1\<rparr>
                else c2)
      in c3\<lparr>g_inbox := (g_inbox c3)[unat (g_inbox_write c3) := m],
            g_inbox_write := ring_next (g_inbox_write c3), g_inbox_count := g_inbox_count c3 + 1\<rparr>)"

definition net_chat_reset :: "chat_store \<Rightarrow> chat_store" where
  "net_chat_reset c =
     \<lparr>g_history = fold (\<lambda>i xs. xs[i := empty_message]) [0..<NET_CHAT_HISTORY_SIZE] (g_history c),
      g_inbox = fold (\<lambda>i xs. xs[i := empty_message]) [0..<NET_CHAT_HISTORY_SIZE] (g_inbox c),
      g_history_next = 0, g_history_count = 0, g_inbox_read = 0, g_inbox_write = 0, g_inbox_count = 0\<rparr>"

text \<open>The message \<open>chat_udp_handler\<close> stores for a datagram.\<close>

definition chat_message :: "bytes \<Rightarrow> u16 \<Rightarrow> bytes \<Rightarrow> ChatMessage" where
  "chat_message src_ip src_port payload =
     (let m = empty_message\<lparr>chat_valid := True,
                chat_src_ip := copy_bytes (chat_src_ip empty_message) src_ip 4, chat_src_port := src_port\<rparr>
      in case sanitize_payload (Some (chat_text m)) payload of
           (_, Some text) \<Rightarrow> m\<lparr>chat_text := text\<rparr>
         | (_, None) \<Rightarrow> m)"

definition chat_udp_handler :: "bytes \<Rightarrow> u16 \<Rightarrow> bytes \<Rightarrow> chat_store \<Rightarrow> chat_store" where
  "chat_udp_handler src_ip src_port payload c =
     store_message_locked (chat_message src_ip src_port payload) c"

text \<open>The \<open>while\<close> loop of \<open>net_chat_recv\<close>.\<close>

function chat_copy_loop :: "nat \<Rightarrow> nat \<Rightarrow> bytes \<Rightarrow> bytes \<Rightarrow> nat \<times> bytes" where
  "chat_copy_loop max_len len text out =
     (if len + 1 < max_len \<and> text ! len \<noteq> 0
      then chat_copy_loop max_len (len + 1) text (out[len := text ! len])
      else (len, out))"
  by pat_completeness auto
termination by (relation "measure (\<lambda>(max_len, len, _, _). max_len - len)") auto

declare chat_copy_loop.simps [simp del]

text \<open>The caller's buffer holds at least \<open>max_len\<close> characters.\<close>

definition net_chat_recv :: "pointer \<Rightarrow> nat \<Rightarrow> chat_store \<Rightarrow> bool \<times> pointer \<times> chat_store" where
  "net_chat_recv out_ptr max_len c =
     (case out_ptr of
        None \<Rightarrow> (False, None, c)
      | Some out \<Rightarrow>
          if max_len = 0 then (False, Some out, c)
          else if g_inbox_count c = 0 then (False, Some (out[0 := 0]), c)
          else
            let r = unat (g_inbox_read c);
                message = g_inbox c ! r;
                c1 = c\<lparr>g_inbox := (g_inbox c)[r := empty_message],
                       g_inbox_read := ring_next (g_inbox_read c),
                       g_inbox_count := g_inbox_count c - 1\<rparr>
            in case chat_copy_loop max_len 0 (chat_text message) out of
                 (len, out1) \<Rightarrow> (True, Some (out1[len := 0]), c1))"

text \<open>The entries \<open>net_chat_print_history\<close> prints, in the order it prints them.\<close>

definition net_chat_print_history :: "chat_store \<Rightarrow> ChatMessage list" where
  "net_chat_print_history c =
     (let start = (if unat (g_history_count c) = NET_CHAT_HISTORY_SIZE then g_history_next c else 0)
      in filter chat_valid
           (map (\<lambda>i. g_history c ! ((unat start + i) mod NET_CHAT_HISTORY_SIZE))
              [0..<unat (g_history_count c)]))"

section \<open>The inbox as a queue\<close>

definition unread :: "chat_store \<Rightarrow> ChatMessage list" where
  "unread c = map (\<lambda>j. g_inbox c ! ((unat (g_inbox_read c) + j) mod 8)) [0..<unat (g_inbox_count c)]"

definition chat_inv :: "chat_store \<Rightarrow> bool" where
  "chat_inv c \<longleftrightarrow>
     length (g_inbox c) = 8 \<and> length (g_history c) = 8 \<and>
     unat (g_inbox_count c) \<le> 8 \<and> unat (g_inbox_read c) < 8 \<and>
     unat (g_inbox_write c) = (unat (g_inbox_read c) + unat (g_inbox_count c)) mod 8 \<and>
     unat (g_history_count c) \<le> 8 \<and> unat (g_history_next c) < 8 \<and>
     (unat (g_history_count c) < 8 \<longrightarrow> g_history_next c = g_history_count c)"

lemma unat_ring_next: "unat (ring_next i) = (unat i + 1) mod 8"
proof -
  have "(unat i + 1) mod 8 < 256"
    by (rule less_trans [of _ 8]) simp_all
  then show ?thesis
    by (simp add: ring_next_def NET_CHAT_HISTORY_SIZE_def unat_of_nat)
qed

lemma length_unread [simp]: "length (unread c) = unat (g_inbox_count c)"
  by (simp add: unread_def)

lemma ring8_pos_neq: "j < k \<Longrightarrow> k < 8 \<Longrightarrow> (a + j) mod 8 \<noteq> (a + k) mod (8::nat)"
  using mod_eq_dvd_iff_nat [of "a + j" "a + k" 8] by (auto dest!: dvd_imp_le)

text \<open>Appending to a ring of eight: the new entry comes last and the others stay.\<close>

lemma ring8_append:
  assumes "length xs = 8" and "n < 8" and "k = Suc n"
  shows "map (\<lambda>j. xs[(r + n) mod 8 := x] ! ((r + j) mod 8)) [0..<k] =
    map (\<lambda>j. xs ! ((r + j) mod 8)) [0..<n] @ [x]"
proof -
  have "xs[(r + n) mod 8 := x] ! ((r + j) mod 8) = xs ! ((r + j) mod 8)" if "j < n" for j
    using ring8_pos_neq [OF that assms(2), of r] by simp
  then show ?thesis
    using assms by simp
qed

text \<open>Dropping the head of a ring of eight.\<close>

lemma ring8_drop:
  assumes "k = Suc n"
  shows "map (\<lambda>j. xs ! (((r + 1) mod 8 + j) mod 8)) [0..<n] = tl (map (\<lambda>j. xs ! ((r + j) mod 8)) [0..<k])"
proof -
  have "((r + 1) mod 8 + j) mod 8 = (r + Suc j) mod 8" for j
    by (simp add: mod_simps)
  then show ?thesis
    by (simp add: assms upt_conv_Cons map_Suc_upt [symmetric] del: upt_Suc)
qed

definition history :: "chat_store \<Rightarrow> ChatMessage list" where
  "history c =
     (let start = (if unat (g_history_count c) = 8 then unat (g_history_next c) else 0)
      in map (\<lambda>j. g_history c ! ((start + j) mod 8)) [0..<unat (g_history_count c)])"

lemma length_history [simp]: "length (history c) = unat (g_history_count c)"
  by (simp add: history_def Let_def)

lemma unat_Suc8: "unat (x :: u8) \<le> 8 \<Longrightarrow> unat (x + 1) = Suc (unat x)"
  by (simp add: unat_word_ariths)

lemma unat_pred8: "unat (x :: u8) = Suc n \<Longrightarrow> unat (x - 1) = n"
  by (subst unat_minus_one) auto

text \<open>The state after a message is stored, with the counters read as numbers.\<close>

lemma store_message:
  fixes m :: ChatMessage
  assumes "chat_inv c"
  defines "c' \<equiv> store_message_locked m c"
  shows "g_history c' = (g_history c)[unat (g_history_next c) := m]"
    and "unat (g_history_next c') = (unat (g_history_next c) + 1) mod 8"
    and "unat (g_history_count c') = (if unat (g_history_count c) = 8 then 8 else Suc (unat (g_history_count c)))"
    and "g_inbox c' = (g_inbox c)[unat (g_inbox_write c) := m]"
    and "unat (g_inbox_write c') = (unat (g_inbox_write c) + 1) mod 8"
    and "unat (g_inbox_count c') = (if unat (g_inbox_count c) = 8 then 8 else Suc (unat (g_inbox_count c)))"
    and "unat (g_inbox_read c') =
      (if unat (g_inbox_count c) = 8 then (unat (g_inbox_read c) + 1) mod 8 else unat (g_inbox_read c))"
proof -
  have b: "unat (g_inbox_count c) \<le> 8" "unat (g_history_count c) \<le> 8"
    using assms(1) by (simp_all add: chat_inv_def)
  have pred: "unat (g_inbox_count c) = 8 \<Longrightarrow> unat (g_inbox_count c - 1 + 1) = 8"
    by simp
  show "g_history c' = (g_history c)[unat (g_history_next c) := m]"
    "unat (g_history_next c') = (unat (g_history_next c) + 1) mod 8"
    "unat (g_history_count c') = (if unat (g_history_count c) = 8 then 8 else Suc (unat (g_history_count c)))"
    "g_inbox c' = (g_inbox c)[unat (g_inbox_write c) := m]"
    "unat (g_inbox_write c') = (unat (g_inbox_write c) + 1) mod 8"
    "unat (g_inbox_count c') = (if unat (g_inbox_count c) = 8 then 8 else Suc (unat (g_inbox_count c)))"
    "unat (g_inbox_read c') =
      (if unat (g_inbox_count c) = 8 then (unat (g_inbox_read c) + 1) mod 8 else unat (g_inbox_read c))"
    using b unat_Suc8 [OF b(1)] unat_Suc8 [OF b(2)] pred
    by (auto simp: c'_def store_message_locked_def Let_def NET_CHAT_HISTORY_SIZE_def unat_ring_next)
qed

lemma store_message_inv:
  assumes inv: "chat_inv c"
  shows "chat_inv (store_message_locked m c)"
proof -
  note s = store_message [OF inv, of m]
  have w: "unat (g_inbox_write c) = (unat (g_inbox_read c) + unat (g_inbox_count c)) mod 8"
    using inv by (simp add: chat_inv_def)
  have "unat (g_inbox_write (store_message_locked m c)) =
      (unat (g_inbox_read (store_message_locked m c)) + unat (g_inbox_count (store_message_locked m c))) mod 8"
    unfolding s(5-7) w by presburger
  moreover have "unat (g_history_next c) = unat (g_history_count c)" if "unat (g_history_count c) < 8"
    using inv that by (simp add: chat_inv_def)
  then have "g_history_next (store_message_locked m c) = g_history_count (store_message_locked m c)"
    if "unat (g_history_count (store_message_locked m c)) < 8"
    using that inv unfolding word_unat_eq_iff s(2,3) by (auto simp: chat_inv_def split: if_splits)
  ultimately show ?thesis
    using inv s by (auto simp: chat_inv_def)
qed

lemma store_message_unread:
  assumes inv: "chat_inv c"
  shows "unread (store_message_locked m c) =
    (if length (unread c) = 8 then tl (unread c) else unread c) @ [m]"
proof -
  note s = store_message [OF inv, of m]
  let ?r = "unat (g_inbox_read c)" and ?n = "unat (g_inbox_count c)"
  have w: "unat (g_inbox_write c) = (?r + ?n) mod 8" and n: "?n \<le> 8" and len: "length (g_inbox c) = 8"
    using inv by (simp_all add: chat_inv_def)
  show ?thesis
  proof (cases "?n = 8")
    case True
    have w': "unat (g_inbox_write c) = ((?r + 1) mod 8 + 7) mod 8"
      using w True by presburger
    have "unread (store_message_locked m c) = map (\<lambda>j. (g_inbox c)[unat (g_inbox_write c) := m] !
        (((?r + 1) mod 8 + j) mod 8)) [0..<8]"
      by (simp only: unread_def s(4,6,7) True if_True refl)
    also have "\<dots> = map (\<lambda>j. g_inbox c ! (((?r + 1) mod 8 + j) mod 8)) [0..<7] @ [m]"
      unfolding w' by (rule ring8_append [OF len]) simp_all
    also have "map (\<lambda>j. g_inbox c ! (((?r + 1) mod 8 + j) mod 8)) [0..<7] = tl (unread c)"
      unfolding unread_def True by (rule ring8_drop) simp
    finally show ?thesis using True by simp
  next
    case False
    then show ?thesis
      using ring8_append [OF len _ refl, of ?n ?r m] n by (simp add: unread_def s(4,6,7) w del: upt_Suc)
  qed
qed

lemma store_message_history:
  assumes inv: "chat_inv c"
  shows "history (store_message_locked m c) =
    (if length (history c) = 8 then tl (history c) else history c) @ [m]"
proof -
  note s = store_message [OF inv, of m]
  let ?k = "unat (g_history_next c)" and ?n = "unat (g_history_count c)"
  have n: "?n \<le> 8" and k: "?k < 8" "?n < 8 \<Longrightarrow> ?k = ?n" and len: "length (g_history c) = 8"
    using inv by (auto simp: chat_inv_def)
  show ?thesis
  proof (cases "?n = 8")
    case True
    have k': "?k = ((?k + 1) mod 8 + 7) mod 8"
      using k(1) by presburger
    have "history (store_message_locked m c) = map (\<lambda>j. (g_history c)[?k := m] !
        (((?k + 1) mod 8 + j) mod 8)) [0..<8]"
      by (simp only: history_def Let_def s(1-3) True if_True refl)
    also have "\<dots> = map (\<lambda>j. g_history c ! (((?k + 1) mod 8 + j) mod 8)) [0..<7] @ [m]"
      by (subst k', rule ring8_append [OF len]) simp_all
    also have "map (\<lambda>j. g_history c ! (((?k + 1) mod 8 + j) mod 8)) [0..<7] = tl (history c)"
      unfolding history_def Let_def True if_True refl by (simp only: refl if_True, rule ring8_drop) simp
    finally show ?thesis using True by simp
  next
    case False
    then have "?n < 8" "?k = ?n" using n k by simp_all
    then have a: "map (\<lambda>j. (g_history c)[?k := m] ! (j mod 8)) [0..<Suc ?n] =
        map (\<lambda>j. g_history c ! (j mod 8)) [0..<?n] @ [m]"
      using ring8_append [OF len _ refl, of ?n 0 m] by simp
    show ?thesis
    proof (cases "Suc ?n = 8")
      case True
      then show ?thesis
        using a \<open>?k = ?n\<close> False by (simp add: history_def Let_def s(1-3))
    next
      case F: False
      then show ?thesis
        using a False by (simp add: history_def Let_def s(1-3) del: upt_Suc)
    qed
  qed
qed

section \<open>Both rings keep the last eight messages\<close>

text \<open>A bounded mailbox that drops its oldest entry when a new one arrives and it is full.\<close>

locale mailbox =
  fixes put :: "'m \<Rightarrow> 's \<Rightarrow> 's"
    and content :: "'s \<Rightarrow> 'm list"
    and invar :: "'s \<Rightarrow> bool"
    and capacity :: nat
  assumes put_invar: "invar s \<Longrightarrow> invar (put m s)"
    and put_content: "invar s \<Longrightarrow>
      content (put m s) = (if length (content s) = capacity then tl (content s) else content s) @ [m]"
    and capacity_pos: "0 < capacity"
begin

lemma puts_invar: "invar s \<Longrightarrow> invar (fold put ms s)"
  by (induction ms arbitrary: s) (simp_all add: put_invar)

text \<open>After any number of messages the content is what the last ones, up to the capacity, were.\<close>

lemma puts_content:
  assumes "invar s" and "length (content s) \<le> capacity"
  shows "content (fold put ms s) = drop (length (content s) + length ms - capacity) (content s @ ms)"
  using assms
proof (induction ms arbitrary: s)
  case (Cons m ms)
  let ?s = "put m s"
  have c: "content ?s = drop (length (content s) + 1 - capacity) (content s @ [m])"
    using Cons.prems capacity_pos by (auto simp: put_content drop_Suc Suc_diff_le not_le)
  then have "length (content ?s) \<le> capacity"
    using Cons.prems(2) capacity_pos by simp
  then have "content (fold put ms ?s) =
      drop (length (content ?s) + length ms - capacity) (content ?s @ ms)"
    using Cons.IH put_invar Cons.prems(1) by blast
  also have "\<dots> = drop (length (content s) + length (m # ms) - capacity) (content s @ m # ms)"
    unfolding c using Cons.prems(2) capacity_pos
    by (cases "length (content s) = capacity") (auto simp: drop_Suc Suc_diff_le)
  finally show ?case by simp
qed simp

end

interpretation inbox: mailbox store_message_locked unread chat_inv 8
  by unfold_locales (simp_all add: store_message_inv store_message_unread)

interpretation log: mailbox store_message_locked history chat_inv 8
  by unfold_locales (simp_all add: store_message_inv store_message_history)

section \<open>Texts\<close>

lemma sanitize_char_printable: "is_printable (sanitize_char ch)"
  by (simp add: sanitize_char_def is_printable_def)

lemma sanitize_char_nonzero [simp]: "sanitize_char ch \<noteq> 0"
  using sanitize_char_printable [of ch] by (auto simp: is_printable_def)

lemma sanitize_char_idem [simp]: "sanitize_char (sanitize_char ch) = sanitize_char ch"
  using sanitize_char_printable [of ch] by (simp add: sanitize_char_def)

lemma sanitize_printable: "is_printable ch \<Longrightarrow> sanitize_char ch = ch"
  by (simp add: sanitize_char_def)

lemma sanitize_payload_eq:
  assumes "length out = NET_CHAT_TEXT_SIZE"
  shows "sanitize_payload (Some out) payload =
    (min (length payload) 127,
     Some (map sanitize_char (take 127 payload) @ 0 # drop (Suc (min (length payload) 127)) out))"
proof -
  define n where "n = min (length payload) 127"
  have n: "n \<le> length out" "n \<le> length payload" "n < length out"
    using assms by (simp_all add: n_def NET_CHAT_TEXT_SIZE_def)
  have "(if length payload < 127 then length payload else 127) = n"
    by (auto simp: n_def)
  moreover have "(map sanitize_char (take n payload) @ drop n out)[n := 0] =
      map sanitize_char (take n payload) @ 0 # drop (Suc n) out"
    using n by (simp add: list_update_append Cons_nth_drop_Suc [symmetric])
  moreover have "take n payload = take 127 payload"
    by (simp add: n_def min_def)
  ultimately show ?thesis
    using fold_update_map [OF n(1,2), of sanitize_char]
    by (simp add: sanitize_payload_def Let_def NET_CHAT_TEXT_SIZE_def n_def)
qed

text \<open>The two character loops stop at the limit or at the NUL, whichever comes first.\<close>

lemma sanitize_cstr_loop_eq:
  assumes "terminated str" and "n = min 127 (length (cstr str))" and "len \<le> n" and "n \<le> length out"
  shows "sanitize_cstr_loop len str out =
    (n, take len out @ map sanitize_char (segment len (n - len) str) @ drop n out)"
  using assms(3,4)
proof (induction "n - len" arbitrary: len out)
  case 0
  then have "len = n" by simp
  moreover have "\<not> (n < 127 \<and> str ! n \<noteq> 0)"
    using terminated_cstr [OF assms(1)] assms(2) by (auto simp: min_def)
  ultimately show ?case
    by (cases "n < 127") (simp_all add: sanitize_cstr_loop.simps [of n] NET_CHAT_TEXT_SIZE_def segment_def)
next
  case (Suc k)
  then have lt: "len < n" by simp
  then have go: "len < 127 \<and> str ! len \<noteq> 0" and l: "len < length str"
    using assms(2) cstr_nth [of len str] terminated_cstr [OF assms(1)] by auto
  have seg: "segment len (n - len) str = str ! len # segment (len + 1) (n - (len + 1)) str"
    using lt l by (simp add: segment_def Cons_nth_drop_Suc [symmetric] Suc_diff_Suc [symmetric])
  let ?o = "out[len := sanitize_char (str ! len)]"
  have "sanitize_cstr_loop len str out = sanitize_cstr_loop (len + 1) str ?o"
    using go by (simp add: sanitize_cstr_loop.simps [of len] NET_CHAT_TEXT_SIZE_def)
  also have "\<dots> = (n, take (len + 1) ?o @ map sanitize_char (segment (len + 1) (n - (len + 1)) str) @ drop n ?o)"
    using Suc.hyps(1) [of "len + 1" ?o] Suc.hyps(2) Suc.prems lt by simp
  also have "take (len + 1) ?o = take len out @ [sanitize_char (str ! len)]"
    using Suc.prems lt by (simp add: take_Suc_conv_app_nth)
  also have "drop n ?o = drop n out"
    using lt by simp
  finally show ?case
    using seg by simp
qed

lemma chat_copy_loop_eq:
  assumes "terminated str" and "n = min (max_len - 1) (length (cstr str))" and "len \<le> n" and "n \<le> length out"
  shows "chat_copy_loop max_len len str out =
    (n, take len out @ segment len (n - len) str @ drop n out)"
  using assms(3,4)
proof (induction "n - len" arbitrary: len out)
  case 0
  then have "len = n" by simp
  moreover have "\<not> (n + 1 < max_len \<and> str ! n \<noteq> 0)"
    using terminated_cstr [OF assms(1)] assms(2) by (auto simp: min_def)
  ultimately show ?case
    by (cases "n + 1 < max_len") (simp_all add: chat_copy_loop.simps [of _ n] segment_def)
next
  case (Suc k)
  then have lt: "len < n" by simp
  then have go: "len + 1 < max_len \<and> str ! len \<noteq> 0" and l: "len < length str"
    using assms(2) cstr_nth [of len str] terminated_cstr [OF assms(1)] by auto
  have seg: "segment len (n - len) str = str ! len # segment (len + 1) (n - (len + 1)) str"
    using lt l by (simp add: segment_def Cons_nth_drop_Suc [symmetric] Suc_diff_Suc [symmetric])
  let ?o = "out[len := str ! len]"
  have "chat_copy_loop max_len len str out = chat_copy_loop max_len (len + 1) str ?o"
    using go by (simp add: chat_copy_loop.simps [of _ len])
  also have "\<dots> = (n, take (len + 1) ?o @ segment (len + 1) (n - (len + 1)) str @ drop n ?o)"
    using Suc.hyps(1) [of "len + 1" ?o] Suc.hyps(2) Suc.prems lt by simp
  also have "take (len + 1) ?o = take len out @ [str ! len]"
    using Suc.prems lt by (simp add: take_Suc_conv_app_nth)
  also have "drop n ?o = drop n out"
    using lt by simp
  finally show ?case
    using seg by simp
qed

lemma sanitize_cstr_eq:
  assumes "terminated str" and "length out = NET_CHAT_TEXT_SIZE"
  shows "sanitize_cstr (Some out) (Some str) =
    (min 127 (length (cstr str)),
     Some (map sanitize_char (take 127 (cstr str)) @ 0 # drop (Suc (min 127 (length (cstr str)))) out))"
proof -
  define n where "n = min 127 (length (cstr str))"
  have n: "n < length out" "n \<le> length (cstr str)"
    using assms(2) by (simp_all add: n_def NET_CHAT_TEXT_SIZE_def)
  have t: "take n str = take 127 (cstr str)"
    unfolding n_def by (metis cstr_prefix take_take)
  have "length (take n str) = n"
    using terminated_cstr [OF assms(1)] n by simp
  then have "(map sanitize_char (take n str) @ drop n out)[n := 0] =
      map sanitize_char (take n str) @ 0 # drop (Suc n) out"
    using n by (simp add: list_update_append Cons_nth_drop_Suc [symmetric])
  then show ?thesis
    using sanitize_cstr_loop_eq [OF assms(1) n_def, of 0 out] n(1) t
    by (simp add: sanitize_cstr_def segment_def flip: n_def)
qed

text \<open>Receiving pops the oldest unread message; the str is cut to the caller's buffer.\<close>

lemma net_chat_recv_pop:
  assumes inv: "chat_inv c" and u: "unread c = m # ms" and t: "terminated (chat_text m)"
    and len: "0 < max_len" "max_len \<le> length out"
  shows "\<exists>c' out'. net_chat_recv (Some out) max_len c = (True, Some out', c') \<and>
    cstr out' = take (max_len - 1) (cstr (chat_text m)) \<and>
    unread c' = ms \<and> chat_inv c' \<and> history c' = history c"
proof -
  let ?r = "unat (g_inbox_read c)"
  have n: "unat (g_inbox_count c) = Suc (length ms)"
    using u length_unread [of c] by simp
  have r8: "?r < 8" and l8: "length (g_inbox c) = 8" and n8: "unat (g_inbox_count c) \<le> 8"
    using inv by (simp_all add: chat_inv_def)
  have m: "g_inbox c ! ?r = m"
    using u r8 by (simp add: unread_def n upt_conv_Cons del: upt_Suc)
  define c1 where "c1 = c\<lparr>g_inbox := (g_inbox c)[?r := empty_message],
    g_inbox_read := ring_next (g_inbox_read c), g_inbox_count := g_inbox_count c - 1\<rparr>"
  have n1: "unat (g_inbox_count c1) = length ms"
    using unat_pred8 [OF n] by (simp add: c1_def)
  have "(g_inbox c)[?r := empty_message] ! ((?r + Suc j) mod 8) = g_inbox c ! ((?r + Suc j) mod 8)"
    if "j < length ms" for j
    using ring8_pos_neq [of 0 "Suc j" ?r] that n n8 r8 by simp
  then have "unread c1 = map (\<lambda>j. g_inbox c ! ((?r + Suc j) mod 8)) [0..<length ms]"
    unfolding unread_def n1 by (auto simp: c1_def unat_ring_next mod_simps)
  also have "\<dots> = tl (unread c)"
    unfolding unread_def n by (simp add: upt_conv_Cons map_Suc_upt [symmetric] del: upt_Suc)
  finally have u1: "unread c1 = ms"
    using u by simp
  have inv1: "chat_inv c1"
    using inv n n1 by (simp add: chat_inv_def c1_def unat_ring_next) presburger
  define k where "k = min (max_len - 1) (length (cstr (chat_text m)))"
  have k: "k < length out"
    using len by (simp add: k_def)
  have loop: "chat_copy_loop max_len 0 (chat_text m) out = (k, take k (chat_text m) @ drop k out)"
    using chat_copy_loop_eq [OF t k_def, of 0 out] k by (simp add: segment_def)
  have tk: "take k (chat_text m) = take (max_len - 1) (cstr (chat_text m))"
    unfolding k_def by (metis cstr_prefix min.commute take_take)
  have lk: "length (take k (chat_text m)) = k"
    using terminated_cstr [OF t] by (auto simp: k_def min_def)
  have "(take k (chat_text m) @ drop k out)[k := 0] = take k (chat_text m) @ 0 # drop (Suc k) out"
    using k lk by (simp add: list_update_append Cons_nth_drop_Suc [symmetric])
  moreover have "0 \<notin> set (take k (chat_text m))"
    unfolding tk by (auto simp: cstr_def dest!: in_set_takeD set_takeWhileD)
  ultimately have "cstr ((take k (chat_text m) @ drop k out)[k := 0]) = take (max_len - 1) (cstr (chat_text m))"
    by (simp add: cstr_map_zero tk)
  moreover have "net_chat_recv (Some out) max_len c =
      (True, Some ((take k (chat_text m) @ drop k out)[k := 0]), c1)"
    using len n by (auto simp: net_chat_recv_def Let_def m loop c1_def)
  moreover have "history c1 = history c"
    by (simp add: history_def c1_def)
  ultimately show ?thesis
    using u1 inv1 by auto
qed

lemma chat_message_text:
  "chat_text (chat_message ip port payload) =
     map sanitize_char (take 127 payload) @ replicate (128 - min (length payload) 127) 0"
proof -
  have "drop (Suc k) (replicate 128 (0::u8)) = replicate (127 - k) 0" for k
    by simp
  then show ?thesis
    using sanitize_payload_eq [of "replicate 128 0" payload]
    by (auto simp: chat_message_def Let_def empty_message_def NET_CHAT_TEXT_SIZE_def
        replicate_Suc [symmetric] Suc_diff_le simp del: replicate_Suc)
qed

lemma chat_message_terminated: "terminated (chat_text (chat_message ip port payload))"
  by (simp add: chat_message_text terminated_def)

lemma chat_message_cstr:
  "cstr (chat_text (chat_message ip port payload)) = map sanitize_char (take 127 payload)"
proof -
  have "128 - min (length payload) 127 = Suc (127 - min (length payload) 127)"
    by simp
  then show ?thesis
    unfolding chat_message_text by (simp add: cstr_map_zero image_iff)
qed

lemma fold_clear:
  "length xs = n \<Longrightarrow> fold (\<lambda>i xs. xs[i := x]) [0..<n] xs = replicate n x"
  using fold_update_map [of n xs "replicate n undefined" "\<lambda>_. x"] by (simp add: map_replicate_const)

lemma net_chat_reset_eq:
  assumes "length (g_history c) = 8" and "length (g_inbox c) = 8"
  shows "chat_inv (net_chat_reset c)" and "unread (net_chat_reset c) = []" and "history (net_chat_reset c) = []"
  using assms
  by (simp_all add: net_chat_reset_def chat_inv_def unread_def history_def fold_clear NET_CHAT_HISTORY_SIZE_def)

section \<open>Properties\<close>

text \<open>
  Both rings keep exactly the last eight messages in order of arrival, however many arrive
  after a reset: the inbox drops the oldest unread message when it is full, the history the oldest
  message, across every wrap of the indices.
\<close>

theorem chat_keeps_last_eight:
  fixes ms :: "ChatMessage list"
  assumes "length (g_history c) = 8" and "length (g_inbox c) = 8"
  defines "c' \<equiv> fold store_message_locked ms (net_chat_reset c)"
  shows "unread c' = drop (length ms - 8) ms \<and> history c' = drop (length ms - 8) ms \<and> chat_inv c'"
  using net_chat_reset_eq [OF assms(1,2)] inbox.puts_content [of "net_chat_reset c" ms]
    log.puts_content [of "net_chat_reset c" ms] inbox.puts_invar [of "net_chat_reset c" ms]
  by (simp add: c'_def)

definition boot_chat :: chat_store where
  "boot_chat = \<lparr>g_history = replicate 8 empty_message, g_inbox = replicate 8 empty_message,
     g_history_next = 0, g_history_count = 0, g_inbox_read = 0, g_inbox_write = 0, g_inbox_count = 0\<rparr>"

theorem chat_keeps_last_eight_witness:
  "unread (fold store_message_locked (map (\<lambda>k. chat_message [10, 0, 0, k] 4390 [65, k]) [1, 2, 3, 4, 5, 6, 7, 8, 9])
     (net_chat_reset boot_chat)) = map (\<lambda>k. chat_message [10, 0, 0, k] 4390 [65, k]) [2, 3, 4, 5, 6, 7, 8, 9]"
  using chat_keeps_last_eight [of boot_chat "map (\<lambda>k. chat_message [10, 0, 0, k] 4390 [65, k]) [1, 2, 3, 4, 5, 6, 7, 8, 9]"]
  by (simp add: boot_chat_def)

text \<open>
  Receiving a message returns the oldest unread one, its text cut to what fits the caller's
  buffer with the terminating NUL, removes it from the inbox and leaves the history as it is; with an
  empty inbox it returns false.
\<close>

theorem chat_recv_oldest:
  assumes "chat_inv c" and "0 < max_len" and "max_len \<le> length out"
    and "\<forall>m \<in> set (unread c). terminated (chat_text m)"
  shows "case unread c of
      [] \<Rightarrow> net_chat_recv (Some out) max_len c = (False, Some (out[0 := 0]), c)
    | m # ms \<Rightarrow> \<exists>out' c'. net_chat_recv (Some out) max_len c = (True, Some out', c') \<and>
        cstr out' = take (max_len - 1) (cstr (chat_text m)) \<and> unread c' = ms \<and>
        chat_inv c' \<and> history c' = history c"
proof (cases "unread c")
  case Nil
  then have "unat (g_inbox_count c) = 0"
    using length_unread [of c] by simp
  then show ?thesis
    using Nil assms(2) by (simp add: net_chat_recv_def unat_eq_zero)
next
  case (Cons m ms)
  then show ?thesis
    using net_chat_recv_pop [OF assms(1) Cons _ assms(2,3)] assms(4) by auto
qed

theorem chat_recv_oldest_witness:
  "\<exists>out' c'. net_chat_recv (Some (replicate 4 0)) 4
      (store_message_locked (chat_message [10, 0, 0, 1] 4390 [72, 101, 108, 108, 111]) boot_chat) =
        (True, Some out', c') \<and> cstr out' = [72, 101, 108] \<and> unread c' = []"
proof -
  let ?m = "chat_message [10, 0, 0, 1] 4390 [72, 101, 108, 108, 111]"
  have inv: "chat_inv boot_chat" "unread boot_chat = []"
    by (simp_all add: chat_inv_def boot_chat_def unread_def)
  then have u: "unread (store_message_locked ?m boot_chat) = [?m]"
    by (simp add: store_message_unread)
  have "take 3 (cstr (chat_text ?m)) = [72, 101, 108]"
    by (simp add: chat_message_cstr sanitize_char_def is_printable_def)
  then show ?thesis
    using chat_recv_oldest [OF store_message_inv [OF inv(1)], of 4 "replicate 4 0" ?m] u
      chat_message_terminated by auto
qed

text \<open>
  Whatever bytes a datagram carries, the stored chat text is a terminated string of at most
  127 printable characters: printable bytes of the payload unchanged, the others as dots.
\<close>

theorem chat_text_sanitised:
  "terminated (chat_text (chat_message ip port payload)) \<and>
   length (chat_text (chat_message ip port payload)) = 128 \<and>
   cstr (chat_text (chat_message ip port payload)) = map sanitize_char (take 127 payload) \<and>
   list_all is_printable (cstr (chat_text (chat_message ip port payload)))"
  using chat_message_cstr [of ip port payload] chat_message_terminated
  by (simp add: list_all_iff sanitize_char_printable) (simp add: chat_message_text)

end
