(* ===== verification/Udp_Table.thy ===== *)
theory Udp_Table
  imports Prelude
begin

text \<open>
  The port dispatch table of \<^verbatim>\<open>udp.cc\<close>: eight entries, first match wins, re-registration replaces
  the handler in place. The lemmas show that it is a finite map from ports to handlers with room
  for eight ports.
\<close>

definition UDP_HANDLER_CAPACITY :: nat where "UDP_HANDLER_CAPACITY = 8"

text \<open>
  The functions the kernel registers: the chat handler, and handlers of other callers, told apart
  by their address.
\<close>

datatype UdpHandler = Chat_Handler | Other_Handler u64

record UdpHandlerEntry =
  ue_valid :: bool
  ue_port :: u16
  ue_handler :: "UdpHandler option"

type_synonym udp_table = "UdpHandlerEntry list"

definition empty_handler_entry :: UdpHandlerEntry where
  "empty_handler_entry = \<lparr>ue_valid = False, ue_port = 0, ue_handler = None\<rparr>"

definition find_port :: "udp_table \<Rightarrow> u16 \<Rightarrow> nat option" where
  "find_port t port = find (\<lambda>i. ue_valid (t ! i) \<and> ue_port (t ! i) = port) [0..<UDP_HANDLER_CAPACITY]"

definition udp_register_handler :: "u16 \<Rightarrow> UdpHandler option \<Rightarrow> udp_table \<Rightarrow> bool \<times> udp_table" where
  "udp_register_handler port handler t =
     (if port = 0 \<or> handler = None then (False, t)
      else case find_port t port of
             Some i \<Rightarrow> (True, t[i := (t ! i)\<lparr>ue_handler := handler\<rparr>])
           | None \<Rightarrow>
               (case find (\<lambda>i. \<not> ue_valid (t ! i)) [0..<UDP_HANDLER_CAPACITY] of
                  Some i \<Rightarrow> (True, t[i := \<lparr>ue_valid = True, ue_port = port, ue_handler = handler\<rparr>])
                | None \<Rightarrow> (False, t)))"

definition udp_clear_handlers :: "udp_table \<Rightarrow> udp_table" where
  "udp_clear_handlers t = fold (\<lambda>i t. t[i := empty_handler_entry]) [0..<UDP_HANDLER_CAPACITY] t"

text \<open>The lookup loop of \<open>udp_handle_packet\<close>; \<open>None\<close> is the null handler.\<close>

definition lookup_handler :: "udp_table \<Rightarrow> u16 \<Rightarrow> UdpHandler option" where
  "lookup_handler t port =
     (case find_port t port of Some i \<Rightarrow> ue_handler (t ! i) | None \<Rightarrow> None)"

section \<open>The table as a map\<close>

definition udp_inv :: "udp_table \<Rightarrow> bool" where
  "udp_inv t \<longleftrightarrow>
     length t = 8 \<and> (\<forall>i < 8. ue_valid (t ! i) \<longrightarrow> ue_handler (t ! i) \<noteq> None \<and> ue_port (t ! i) \<noteq> 0) \<and>
     (\<forall>i < 8. \<forall>j < 8. i \<noteq> j \<longrightarrow> ue_valid (t ! i) \<longrightarrow> ue_valid (t ! j) \<longrightarrow> ue_port (t ! i) \<noteq> ue_port (t ! j))"

lemma find_port_Some: "find_port t port = Some i \<Longrightarrow> i < 8 \<and> ue_valid (t ! i) \<and> ue_port (t ! i) = port"
  by (auto simp: find_port_def UDP_HANDLER_CAPACITY_def dest: find_upt_SomeD)

lemma find_port_None_iff:
  "find_port t port = None \<longleftrightarrow> (\<forall>i < 8. ue_valid (t ! i) \<longrightarrow> ue_port (t ! i) \<noteq> port)"
  by (auto simp: find_port_def UDP_HANDLER_CAPACITY_def find_upt_None_iff)

lemma find_port_SomeI:
  assumes "udp_inv t" and "i < 8" and "ue_valid (t ! i)"
  shows "find_port t (ue_port (t ! i)) = Some i"
proof -
  have "j = i" if "j < 8" "ue_valid (t ! j) \<and> ue_port (t ! j) = ue_port (t ! i)" for j
    using assms that by (auto simp: udp_inv_def)
  then show ?thesis
    unfolding find_port_def UDP_HANDLER_CAPACITY_def using assms by (intro find_upt_unique) auto
qed

lemma lookup_handler_valid:
  "udp_inv t \<Longrightarrow> i < 8 \<Longrightarrow> ue_valid (t ! i) \<Longrightarrow> lookup_handler t (ue_port (t ! i)) = ue_handler (t ! i)"
  by (simp add: lookup_handler_def find_port_SomeI)

lemma lookup_handler_None_iff: "udp_inv t \<Longrightarrow> lookup_handler t port = None \<longleftrightarrow> find_port t port = None"
  using find_port_Some [of t port] by (auto simp: lookup_handler_def udp_inv_def split: option.splits)

text \<open>Storing an entry for a port no other valid entry has.\<close>

lemma udp_store:
  assumes inv: "udp_inv t" and "i < 8" and "ue_valid e" and "ue_handler e \<noteq> None" and "ue_port e \<noteq> 0"
    and fresh: "\<And>j. j < 8 \<Longrightarrow> j \<noteq> i \<Longrightarrow> ue_valid (t ! j) \<Longrightarrow> ue_port (t ! j) \<noteq> ue_port e"
    and old: "ue_valid (t ! i) \<Longrightarrow> ue_port (t ! i) = ue_port e"
  shows "udp_inv (t[i := e])" and "lookup_handler (t[i := e]) =
    (\<lambda>q. if q = ue_port e then ue_handler e else lookup_handler t q)"
proof -
  have len: "length t = 8"
    using inv by (simp add: udp_inv_def)
  have get: "t[i := e] ! j = (if j = i then e else t ! j)" if "j < 8" for j
    using that len by simp
  show inv': "udp_inv (t[i := e])"
    using inv assms(2-5) fresh by (auto simp: udp_inv_def get) (metis fresh)+
  show "lookup_handler (t[i := e]) = (\<lambda>q. if q = ue_port e then ue_handler e else lookup_handler t q)"
  proof
    fix q
    show "lookup_handler (t[i := e]) q = (if q = ue_port e then ue_handler e else lookup_handler t q)"
    proof (cases "q = ue_port e")
      case True
      then show ?thesis
        using lookup_handler_valid [OF inv' assms(2)] assms(2,3) by (simp add: get)
    next
      case False
      show ?thesis
      proof (cases "find_port t q")
        case None
        then have "find_port (t[i := e]) q = None"
          using False by (auto simp: find_port_None_iff get)
        with None False show ?thesis by (simp add: lookup_handler_def)
      next
        case (Some j)
        note j = find_port_Some [OF Some]
        then have "j \<noteq> i"
          using False old by auto
        then have "lookup_handler (t[i := e]) q = ue_handler (t ! j)"
          using lookup_handler_valid [OF inv', of j] j by (simp add: get)
        with Some False show ?thesis by (simp add: lookup_handler_def)
      qed
    qed
  qed
qed

lemma udp_register:
  assumes inv: "udp_inv t" and "udp_register_handler port handler t = (ok, t')"
  shows "udp_inv t'"
    and "ok \<Longrightarrow> port \<noteq> 0 \<and> handler \<noteq> None \<and>
      lookup_handler t' = (\<lambda>q. if q = port then handler else lookup_handler t q)"
    and "\<not> ok \<Longrightarrow> t' = t"
proof -
  have "udp_inv t' \<and> (if ok then port \<noteq> 0 \<and> handler \<noteq> None \<and>
      lookup_handler t' = (\<lambda>q. if q = port then handler else lookup_handler t q) else t' = t)"
  proof (cases "port = 0 \<or> handler = None")
    case True
    then show ?thesis using assms by (auto simp: udp_register_handler_def)
  next
    case ok: False
    show ?thesis
    proof (cases "find_port t port")
      case (Some i)
      note i = find_port_Some [OF Some]
      let ?e = "(t ! i)\<lparr>ue_handler := handler\<rparr>"
      have "ue_port (t ! j) \<noteq> port" if "j < 8" "j \<noteq> i" "ue_valid (t ! j)" for j
        using inv i that by (auto simp: udp_inv_def)
      then show ?thesis
        using udp_store [OF inv, of i ?e] i ok assms(2) Some by (auto simp: udp_register_handler_def)
    next
      case None
      note none = None [unfolded find_port_None_iff]
      show ?thesis
      proof (cases "find (\<lambda>i. \<not> ue_valid (t ! i)) [0..<8]")
        case None
        then show ?thesis
          using assms ok \<open>find_port t port = None\<close>
          by (auto simp: udp_register_handler_def UDP_HANDLER_CAPACITY_def)
      next
        case (Some i)
        let ?e = "\<lparr>ue_valid = True, ue_port = port, ue_handler = handler\<rparr>"
        have "i < 8" "\<not> ue_valid (t ! i)"
          using find_upt_SomeD [OF Some] by simp_all
        then show ?thesis
          using udp_store [OF inv, of i ?e] ok assms(2) Some none \<open>find_port t port = None\<close>
          by (auto simp: udp_register_handler_def UDP_HANDLER_CAPACITY_def)
      qed
    qed
  qed
  then show "udp_inv t'" "ok \<Longrightarrow> port \<noteq> 0 \<and> handler \<noteq> None \<and>
      lookup_handler t' = (\<lambda>q. if q = port then handler else lookup_handler t q)" "\<not> ok \<Longrightarrow> t' = t"
    by (auto split: if_splits)
qed

lemma udp_clear_eq: "length t = 8 \<Longrightarrow> udp_clear_handlers t = replicate 8 empty_handler_entry"
  using fold_update_map [of 8 t "replicate 8 undefined" "\<lambda>_. empty_handler_entry"]
  by (simp add: udp_clear_handlers_def UDP_HANDLER_CAPACITY_def map_replicate_const)

lemma udp_inv_clear: "udp_inv (replicate 8 empty_handler_entry)"
  by (simp add: udp_inv_def empty_handler_entry_def)

lemma lookup_clear: "lookup_handler (replicate 8 empty_handler_entry) port = None"
  unfolding lookup_handler_None_iff [OF udp_inv_clear] find_port_None_iff
  by (simp add: empty_handler_entry_def)

section \<open>Properties\<close>

text \<open>
  The handler table is a map from ports to handlers. Registering binds the port to the handler
  (replacing an earlier one) and changes no other port; it fails only for port 0, a null handler,
  or a new port when all eight entries are taken, and then changes nothing; clearing unbinds all.
\<close>

theorem udp_register_binds:
  assumes "udp_inv t" and "udp_register_handler port handler t = (ok, t')"
  shows "udp_inv t' \<and>
    (if ok then lookup_handler t' = (\<lambda>q. if q = port then handler else lookup_handler t q)
     else t' = t \<and> (port = 0 \<or> handler = None \<or> lookup_handler t port = None \<and> list_all ue_valid t)) \<and>
    lookup_handler (udp_clear_handlers t) port = None"
proof -
  have len: "length t = 8"
    using assms(1) by (simp add: udp_inv_def)
  have "port = 0 \<or> handler = None \<or> lookup_handler t port = None \<and> list_all ue_valid t" if "\<not> ok"
  proof (cases "port = 0 \<or> handler = None")
    case False
    then have "find_port t port = None" "find (\<lambda>i. \<not> ue_valid (t ! i)) [0..<8] = None"
      using that assms(2)
      by (auto simp: udp_register_handler_def UDP_HANDLER_CAPACITY_def split: option.splits)
    then show ?thesis
      using assms(1) len by (simp add: lookup_handler_None_iff find_upt_None_iff list_all_length)
  qed auto
  then show ?thesis
    using udp_register [OF assms] by (simp add: udp_clear_eq [OF len] lookup_clear)
qed

theorem udp_register_binds_witness:
  "lookup_handler (snd (udp_register_handler 4390 (Some Chat_Handler) (replicate 8 empty_handler_entry))) 4390 =
     Some Chat_Handler"
proof -
  let ?t = "replicate 8 empty_handler_entry"
  obtain ok t' where r: "udp_register_handler 4390 (Some Chat_Handler) ?t = (ok, t')"
    by (rule prod.exhaust)
  have "list_all ue_valid ?t = False"
    by (simp add: list_all_iff empty_handler_entry_def)
  with udp_register_binds [OF udp_inv_clear r] r show ?thesis
    by (auto split: if_splits)
qed

end
