(* ===== verification/Net_Tx.thy ===== *)
theory Net_Tx
  imports Packets Arp_Cache Virtio_Net Chat_Store Udp_Table
begin

text \<open>
  The state of the network stack as a whole, and the sending half of \<^verbatim>\<open>net_proto.cc\<close> and
  \<^verbatim>\<open>udp.cc\<close>: ARP requests, IPv4 packets and UDP datagrams. Every function of the stack that holds
  a lock holds it for one access to one component, so a function is a sequence of atomic steps on
  the components of this state. The lemmas give the exact bytes of the frames that go out.
\<close>

section \<open>State\<close>

text \<open>
  \<open>handler_calls\<close> records the calls of handlers outside this model, newest last: handler, source
  address, source port and payload.
\<close>

record net =
  g_my_mac :: bytes
  g_my_ip :: bytes
  net_nic :: nic
  net_arp :: arp_cache
  g_udp_handlers :: udp_table
  net_chat :: chat_store
  handler_calls :: "(u64 \<times> bytes \<times> u16 \<times> bytes) list"

definition stat :: "NetStatCounter \<Rightarrow> net \<Rightarrow> net" where
  "stat c s = s\<lparr>net_nic := count_stat c (net_nic s)\<rparr>"

definition send_raw :: "bytes \<Rightarrow> nat \<Rightarrow> net \<Rightarrow> bool \<times> net" where
  "send_raw frame len s =
     (case net_send_raw (Some frame) len (net_nic s) of (ok, n) \<Rightarrow> (ok, s\<lparr>net_nic := n\<rparr>))"

definition net_set_identity :: "pointer \<Rightarrow> pointer \<Rightarrow> net \<Rightarrow> net" where
  "net_set_identity mac_ptr ip_ptr s =
     (let s1 = (case mac_ptr of None \<Rightarrow> s | Some mac \<Rightarrow> s\<lparr>g_my_mac := copy_bytes (g_my_mac s) mac 6\<rparr>)
      in case ip_ptr of None \<Rightarrow> s1 | Some ip \<Rightarrow> s1\<lparr>g_my_ip := copy_bytes (g_my_ip s1) ip 4\<rparr>)"

section \<open>ARP requests\<close>

definition broadcast_mac :: bytes where "broadcast_mac = replicate 6 0xFF"

text \<open>The structures at the start of a zeroed buffer, before the code fills them.\<close>

definition zero_eth :: EthernetHeader where "zero_eth = read_EthernetHeader (replicate 14 0)"
definition zero_arp :: ArpPacket where "zero_arp = read_ArpPacket (replicate 28 0)"
definition zero_ip :: Ipv4Header where "zero_ip = read_Ipv4Header (replicate 20 0)"
definition zero_icmp :: IcmpEchoHeader where "zero_icmp = read_IcmpEchoHeader (replicate 8 0)"
definition zero_udp :: UdpHeader where "zero_udp = read_UdpHeader (replicate 8 0)"

definition arp_request_frame :: "bytes \<Rightarrow> net \<Rightarrow> bytes" where
  "arp_request_frame target_ip s =
     (let buf = replicate (sizeof_EthernetHeader + sizeof_ArpPacket) 0;
          out_eth = zero_eth\<lparr>eth_dst := copy_bytes (eth_dst zero_eth) broadcast_mac 6,
                             eth_src := copy_bytes (eth_src zero_eth) (g_my_mac s) 6,
                             ether_type := bswap16 ETH_TYPE_ARP\<rparr>;
          out_arp = zero_arp\<lparr>htype := bswap16 ARP_HTYPE_ETHERNET, ptype := bswap16 ARP_PTYPE_IPV4,
                             hlen := 6, plen := 4, oper := bswap16 ARP_OP_REQUEST,
                             sha := copy_bytes (sha zero_arp) (g_my_mac s) 6,
                             spa := copy_bytes (spa zero_arp) (g_my_ip s) 4,
                             tha := copy_bytes (tha zero_arp) (replicate 6 0) 6,
                             tpa := copy_bytes (tpa zero_arp) target_ip 4\<rparr>
      in write_at sizeof_EthernetHeader (write_ArpPacket out_arp)
           (write_at 0 (write_EthernetHeader out_eth) buf))"

definition net_send_arp_request :: "pointer \<Rightarrow> net \<Rightarrow> bool \<times> net" where
  "net_send_arp_request ip_ptr s =
     (case ip_ptr of
        None \<Rightarrow> (False, s)
      | Some target_ip \<Rightarrow>
          let request = arp_request_frame target_ip s
          in case send_raw request (length request) s of
               (False, s1) \<Rightarrow> (False, s1)
             | (True, s1) \<Rightarrow> (True, stat ArpTx s1))"

section \<open>IPv4 packets\<close>

text \<open>The frame \<open>net_send_ipv4\<close> builds once it knows the destination's MAC address.\<close>

definition ipv4_frame :: "bytes \<Rightarrow> bytes \<Rightarrow> u8 \<Rightarrow> bytes \<Rightarrow> nat \<Rightarrow> net \<Rightarrow> bytes" where
  "ipv4_frame dst_mac dst protocol_number payload payload_len s =
     (let frame0 = replicate VIRTIO_NET_MAX_FRAME_SIZE 0;
          eth = zero_eth\<lparr>eth_dst := copy_bytes (eth_dst zero_eth) dst_mac 6,
                         eth_src := copy_bytes (eth_src zero_eth) (g_my_mac s) 6,
                         ether_type := bswap16 ETH_TYPE_IPV4\<rparr>;
          frame1 = write_at 0 (write_EthernetHeader eth) frame0;
          ip = zero_ip\<lparr>version_ihl := 0x45, tos := 0,
                       total_length := bswap16 (word_of_nat (sizeof_Ipv4Header + payload_len)),
                       identification := bswap16 0x2222, flags_fragment := 0, ttl := 64,
                       protocol := protocol_number, header_checksum := 0,
                       src_ip := copy_bytes (src_ip zero_ip) (g_my_ip s) 4,
                       dst_ip := copy_bytes (dst_ip zero_ip) dst 4\<rparr>;
          frame2 = write_at sizeof_EthernetHeader (write_Ipv4Header ip) frame1;
          frame3 = write_at (sizeof_EthernetHeader + sizeof_Ipv4Header) (take payload_len payload) frame2;
          checksum = bswap16 (checksum16 (segment sizeof_EthernetHeader sizeof_Ipv4Header frame3))
      in write_at sizeof_EthernetHeader (write_Ipv4Header (ip\<lparr>header_checksum := checksum\<rparr>)) frame3)"

definition net_send_ipv4 :: "pointer \<Rightarrow> u8 \<Rightarrow> pointer \<Rightarrow> nat \<Rightarrow> net \<Rightarrow> bool \<times> net" where
  "net_send_ipv4 ip_ptr protocol_number payload_ptr payload_len s =
     (case ip_ptr of
        None \<Rightarrow> (False, s)
      | Some dst \<Rightarrow>
          if payload_ptr = None \<and> payload_len \<noteq> 0 then (False, s)
          else
            let ip_total_len = sizeof_Ipv4Header + payload_len;
                frame_len = sizeof_EthernetHeader + ip_total_len
            in if payload_len > VIRTIO_NET_MAX_FRAME_SIZE \<or> frame_len > VIRTIO_NET_MAX_FRAME_SIZE \<or>
                  ip_total_len > 0xFFFF then (False, s)
               else
                 (case arp_cache_lookup (Some dst) (Some (replicate 6 0)) (net_arp s) of
                    (None, arp1) \<Rightarrow>
                      (False, snd (net_send_arp_request (Some dst) (s\<lparr>net_arp := arp1\<rparr>)))
                  | (Some dst_mac, arp1) \<Rightarrow>
                      let s1 = s\<lparr>net_arp := arp1\<rparr>;
                          payload = (case payload_ptr of None \<Rightarrow> [] | Some p \<Rightarrow> p);
                          frame = ipv4_frame dst_mac dst protocol_number payload payload_len s1
                      in case send_raw frame frame_len s1 of
                           (False, s2) \<Rightarrow> (False, s2)
                         | (True, s2) \<Rightarrow> (True, stat Ipv4Tx s2)))"

section \<open>UDP datagrams\<close>

definition udp_datagram :: "u16 \<Rightarrow> u16 \<Rightarrow> bytes \<Rightarrow> nat \<Rightarrow> bytes" where
  "udp_datagram src_port dst_port payload payload_len =
     (let packet = replicate (sizeof_UdpHeader + 1472) 0;
          udp = zero_udp\<lparr>udp_src_port := bswap16 src_port, udp_dst_port := bswap16 dst_port,
                         udp_length := bswap16 (word_of_nat (sizeof_UdpHeader + payload_len)),
                         udp_checksum := 0\<rparr>
      in write_at sizeof_UdpHeader (take payload_len payload) (write_at 0 (write_UdpHeader udp) packet))"

definition udp_send_to :: "pointer \<Rightarrow> u16 \<Rightarrow> u16 \<Rightarrow> pointer \<Rightarrow> nat \<Rightarrow> net \<Rightarrow> bool \<times> net" where
  "udp_send_to ip_ptr src_port dst_port payload_ptr payload_len s =
     (if ip_ptr = None \<or> src_port = 0 \<or> dst_port = 0 \<or> (payload_ptr = None \<and> payload_len \<noteq> 0) \<or>
         payload_len > 0xFFFF - sizeof_UdpHeader then (False, s)
      else if payload_len > 1472 then (False, s)
      else
        let payload = (case payload_ptr of None \<Rightarrow> [] | Some p \<Rightarrow> p);
            packet = udp_datagram src_port dst_port payload payload_len
        in case net_send_ipv4 ip_ptr IPV4_PROTO_UDP (Some packet) (sizeof_UdpHeader + payload_len) s of
             (False, s1) \<Rightarrow> (False, s1)
           | (True, s1) \<Rightarrow> (True, stat UdpTx s1))"

section \<open>The bytes of the frames\<close>

text \<open>A well-formed identity.\<close>

definition wf_identity :: "net \<Rightarrow> bool" where
  "wf_identity s \<longleftrightarrow> length (g_my_mac s) = 6 \<and> length (g_my_ip s) = 4"

lemma zero_fields [simp]:
  "eth_dst zero_eth = replicate 6 0" "eth_src zero_eth = replicate 6 0"
  "sha zero_arp = replicate 6 0" "spa zero_arp = replicate 4 0"
  "tha zero_arp = replicate 6 0" "tpa zero_arp = replicate 4 0"
  "src_ip zero_ip = replicate 4 0" "dst_ip zero_ip = replicate 4 0"
  by (simp_all add: zero_eth_def zero_arp_def zero_ip_def read_EthernetHeader_def read_ArpPacket_def
      read_Ipv4Header_def segment_def)

text \<open>Filling every member of a structure leaves nothing of what was there before.\<close>

lemma fill_headers [simp]:
  "e\<lparr>eth_dst := d, eth_src := s, ether_type := t\<rparr> = \<lparr>eth_dst = d, eth_src = s, ether_type = t\<rparr>"
  "a\<lparr>htype := x1, ptype := x2, hlen := x3, plen := x4, oper := x5, sha := x6, spa := x7, tha := x8,
     tpa := x9\<rparr> = \<lparr>htype = x1, ptype = x2, hlen = x3, plen = x4, oper = x5, sha = x6, spa = x7,
     tha = x8, tpa = x9\<rparr>"
  "i\<lparr>version_ihl := y1, tos := y2, total_length := y3, identification := y4, flags_fragment := y5,
     ttl := y6, protocol := y7, header_checksum := y8, src_ip := y9, dst_ip := y10\<rparr> =
   \<lparr>version_ihl = y1, tos = y2, total_length = y3, identification = y4, flags_fragment = y5,
     ttl = y6, protocol = y7, header_checksum = y8, src_ip = y9, dst_ip = y10\<rparr>"
  "u\<lparr>udp_src_port := z1, udp_dst_port := z2, udp_length := z3, udp_checksum := z4\<rparr> =
   \<lparr>udp_src_port = z1, udp_dst_port = z2, udp_length = z3, udp_checksum = z4\<rparr>"
  "c\<lparr>icmp_type := w1, icmp_code := w2, icmp_checksum := w3, icmp_identifier := w4, icmp_sequence := w5\<rparr> =
   \<lparr>icmp_type = w1, icmp_code = w2, icmp_checksum = w3, icmp_identifier = w4, icmp_sequence = w5\<rparr>"
  by simp_all

lemma length_write_headers:
  "wf_EthernetHeader e \<Longrightarrow> length (write_EthernetHeader e) = 14"
  "wf_ArpPacket a \<Longrightarrow> length (write_ArpPacket a) = 28"
  "wf_Ipv4Header i \<Longrightarrow> length (write_Ipv4Header i) = 20"
  "length (write_IcmpEchoHeader c) = 8"
  "length (write_UdpHeader u) = 8"
  using ethernet.length_encode arp.length_encode ipv4.length_encode icmp.length_encode udp.length_encode
  by (simp_all add: sizeof_defs)

text \<open>Filling a buffer front to back.\<close>

lemma write_at_prefix:
  "length pre = off \<Longrightarrow> write_at off bs (pre @ rest) = pre @ bs @ drop (length bs) rest"
  by (simp add: write_at_def)

definition arp_packet :: "u16 \<Rightarrow> bytes \<Rightarrow> bytes \<Rightarrow> bytes \<Rightarrow> bytes \<Rightarrow> ArpPacket" where
  "arp_packet opcode smac sip tmac tip = \<lparr>htype = bswap16 ARP_HTYPE_ETHERNET,
     ptype = bswap16 ARP_PTYPE_IPV4, hlen = 6, plen = 4, oper = bswap16 opcode,
     sha = smac, spa = sip, tha = tmac, tpa = tip\<rparr>"

definition eth_header :: "bytes \<Rightarrow> bytes \<Rightarrow> u16 \<Rightarrow> EthernetHeader" where
  "eth_header dst src type = \<lparr>eth_dst = dst, eth_src = src, ether_type = bswap16 type\<rparr>"

lemma arp_request_frame_eq:
  assumes "wf_identity s" and "length target_ip = 4"
  shows "arp_request_frame target_ip s =
    write_EthernetHeader (eth_header broadcast_mac (g_my_mac s) ETH_TYPE_ARP) @
    write_ArpPacket (arp_packet ARP_OP_REQUEST (g_my_mac s) (g_my_ip s) (replicate 6 0) target_ip)"
proof -
  let ?e = "eth_header broadcast_mac (g_my_mac s) ETH_TYPE_ARP"
  let ?a = "arp_packet ARP_OP_REQUEST (g_my_mac s) (g_my_ip s) (replicate 6 0) target_ip"
  have "wf_EthernetHeader ?e" "wf_ArpPacket ?a"
    using assms by (simp_all add: wf_identity_def eth_header_def arp_packet_def wf_EthernetHeader_def
        wf_ArpPacket_def broadcast_mac_def)
  then have "length (write_EthernetHeader ?e) = 14" "length (write_ArpPacket ?a) = 28"
    by (simp_all add: length_write_headers)
  moreover have "arp_request_frame target_ip s =
      write_at 14 (write_ArpPacket ?a) (write_at 0 (write_EthernetHeader ?e) (replicate 42 0))"
    using assms by (simp add: arp_request_frame_def Let_def wf_identity_def broadcast_mac_def sizeof_defs
        eth_header_def arp_packet_def)
  ultimately show ?thesis
    by (simp add: write_at_def)
qed

definition ipv4_header :: "bytes \<Rightarrow> bytes \<Rightarrow> u8 \<Rightarrow> nat \<Rightarrow> Ipv4Header" where
  "ipv4_header src dst protocol_number payload_len =
     (let h = \<lparr>version_ihl = 0x45, tos = 0, total_length = bswap16 (word_of_nat (20 + payload_len)),
               identification = bswap16 0x2222, flags_fragment = 0, ttl = 64, protocol = protocol_number,
               header_checksum = 0, src_ip = src, dst_ip = dst\<rparr>
      in h\<lparr>header_checksum := bswap16 (checksum16 (write_Ipv4Header h))\<rparr>)"

lemma ipv4_header_refill:
  "ipv4_header src dst p n = (ipv4_header src dst p n)\<lparr>header_checksum := 0,
     header_checksum := bswap16 (checksum16 (write_Ipv4Header ((ipv4_header src dst p n)\<lparr>header_checksum := 0\<rparr>)))\<rparr>"
  by (rule Ipv4Header.equality) (simp_all add: ipv4_header_def Let_def)

lemma ipv4_header_fields [simp]:
  "version_ihl (ipv4_header src dst p n) = 0x45" "protocol (ipv4_header src dst p n) = p"
  "total_length (ipv4_header src dst p n) = bswap16 (word_of_nat (20 + n))"
  "src_ip (ipv4_header src dst p n) = src" "dst_ip (ipv4_header src dst p n) = dst"
  by (simp_all add: ipv4_header_def Let_def)

lemma wf_ipv4_header: "length src = 4 \<Longrightarrow> length dst = 4 \<Longrightarrow> wf_Ipv4Header (ipv4_header src dst p n)"
  by (simp add: wf_Ipv4Header_def)

lemma ipv4_header_valid:
  assumes "length src = 4" and "length dst = 4"
  shows "checksum16 (write_Ipv4Header (ipv4_header src dst p n)) = 0"
  using ipv4_checksum_filled [of "(ipv4_header src dst p n)\<lparr>header_checksum := 0\<rparr>" "[]"] assms
  by (simp add: ipv4_header_def Let_def wf_Ipv4Header_def)

lemma ipv4_frame_eq:
  assumes "wf_identity s" and "length mac = 6" and "length dst = 4" and "n \<le> length payload"
    and "34 + n \<le> 2048"
  shows "take (34 + n) (ipv4_frame mac dst p payload n s) =
    write_EthernetHeader (eth_header mac (g_my_mac s) ETH_TYPE_IPV4) @
    write_Ipv4Header (ipv4_header (g_my_ip s) dst p n) @ take n payload"
    and "length (ipv4_frame mac dst p payload n s) = 2048"
proof -
  let ?e = "eth_header mac (g_my_mac s) ETH_TYPE_IPV4" and ?h = "ipv4_header (g_my_ip s) dst p n"
  let ?hz = "?h\<lparr>header_checksum := 0\<rparr>"
  have id: "length (g_my_mac s) = 6" "length (g_my_ip s) = 4"
    using assms(1) by (simp_all add: wf_identity_def)
  have le: "length (write_EthernetHeader ?e) = 14"
    using id assms(2) by (simp add: length_write_headers eth_header_def wf_EthernetHeader_def)
  have li: "length (write_Ipv4Header ?h) = 20" "length (write_Ipv4Header ?hz) = 20"
    using id assms(3) by (simp_all add: length_write_headers wf_Ipv4Header_def)
  have h: "?h = ?hz\<lparr>header_checksum := bswap16 (checksum16 (write_Ipv4Header ?hz))\<rparr>"
    by (rule ipv4_header_refill)
  define frame3 where "frame3 = write_EthernetHeader ?e @ write_Ipv4Header ?hz @ take n payload @
    replicate (2048 - (34 + n)) 0"
  have f3: "write_at 34 (take n payload) (write_at 14 (write_Ipv4Header ?hz)
      (write_at 0 (write_EthernetHeader ?e) (replicate 2048 0))) = frame3"
    using le li assms(4,5) by (simp add: write_at_def frame3_def)
  have seg: "segment 14 20 frame3 = write_Ipv4Header ?hz"
    using le li by (simp add: frame3_def segment_def)
  have "ipv4_frame mac dst p payload n s =
      write_at 14 (write_Ipv4Header (?hz\<lparr>header_checksum := bswap16 (checksum16 (segment 14 20
        (write_at 34 (take n payload) (write_at 14 (write_Ipv4Header ?hz)
          (write_at 0 (write_EthernetHeader ?e) (replicate 2048 0))))))\<rparr>))
        (write_at 34 (take n payload) (write_at 14 (write_Ipv4Header ?hz)
          (write_at 0 (write_EthernetHeader ?e) (replicate 2048 0))))"
    using id assms(2,3)
    by (simp add: ipv4_frame_def Let_def sizeof_defs VIRTIO_NET_MAX_FRAME_SIZE_def eth_header_def
        ipv4_header_def)
  then have eq: "ipv4_frame mac dst p payload n s = write_at 14 (write_Ipv4Header ?h) frame3"
    unfolding f3 seg using h by simp
  then show "take (34 + n) (ipv4_frame mac dst p payload n s) =
      write_EthernetHeader ?e @ write_Ipv4Header ?h @ take n payload"
    "length (ipv4_frame mac dst p payload n s) = 2048"
    using le li assms(4,5) by (simp_all add: write_at_def frame3_def)
qed

text \<open>The UDP header of a datagram and the datagram's bytes.\<close>

definition udp_header :: "u16 \<Rightarrow> u16 \<Rightarrow> nat \<Rightarrow> UdpHeader" where
  "udp_header src_port dst_port n = \<lparr>udp_src_port = bswap16 src_port, udp_dst_port = bswap16 dst_port,
     udp_length = bswap16 (word_of_nat (8 + n)), udp_checksum = 0\<rparr>"

lemma udp_datagram_eq:
  assumes "n \<le> length payload" and "n \<le> 1472"
  shows "take (8 + n) (udp_datagram sp dp payload n) = write_UdpHeader (udp_header sp dp n) @ take n payload"
    and "length (udp_datagram sp dp payload n) = 1480"
proof -
  have "udp_datagram sp dp payload n =
      write_at 8 (take n payload) (write_at 0 (write_UdpHeader (udp_header sp dp n)) (replicate 1480 0))"
    by (simp add: udp_datagram_def Let_def sizeof_defs udp_header_def)
  then show "take (8 + n) (udp_datagram sp dp payload n) = write_UdpHeader (udp_header sp dp n) @ take n payload"
    "length (udp_datagram sp dp payload n) = 1480"
    using assms length_write_headers(5) [of "udp_header sp dp n"] by (simp_all add: write_at_def)
qed

end
