(* ===== verification/Net_Rx.thy ===== *)
theory Net_Rx
  imports Net_Tx
begin

text \<open>
  The receiving half of \<^verbatim>\<open>net_proto.cc\<close> and \<^verbatim>\<open>udp.cc\<close>: classification of a raw frame, the ARP
  responder, the IPv4 receiver with the ICMP echo responder, UDP dispatch, and the poll step. The
  ICMP reply is built in a buffer of 1514 bytes; a longer reply is the fault \<open>OutOfBounds\<close>. Log
  output is not modelled.
\<close>

section \<open>Helpers\<close>

definition ip_equals :: "bytes \<Rightarrow> bytes \<Rightarrow> bool" where
  "ip_equals a b \<longleftrightarrow> list_all (\<lambda>i. a ! i = b ! i) [0..<4]"

definition mac_is_broadcast :: "bytes \<Rightarrow> bool" where
  "mac_is_broadcast mac \<longleftrightarrow> list_all (\<lambda>i. mac ! i = 0xFF) [0..<6]"

definition mac_is_for_me :: "net \<Rightarrow> bytes \<Rightarrow> bool" where
  "mac_is_for_me s mac \<longleftrightarrow>
     mac_is_broadcast mac \<or> list_all (\<lambda>i. mac ! i = g_my_mac s ! i) [0..<6]"

definition ipv4_header_length :: "Ipv4Header \<Rightarrow> nat" where
  "ipv4_header_length ip = unat (version_ihl ip AND 0x0F) * 4"

definition ip_is_for_me :: "net \<Rightarrow> Ipv4Header \<Rightarrow> bool" where
  "ip_is_for_me s ip = ip_equals (dst_ip ip) (g_my_ip s)"

definition icmp_offset :: "Ipv4Header \<Rightarrow> nat" where
  "icmp_offset ip = sizeof_EthernetHeader + ipv4_header_length ip"

definition copy_ip_header_basic :: "net \<Rightarrow> Ipv4Header \<Rightarrow> Ipv4Header \<Rightarrow> Ipv4Header" where
  "copy_ip_header_basic s dst src =
     dst\<lparr>version_ihl := version_ihl src, tos := 0, total_length := total_length src,
         identification := identification src, flags_fragment := flags_fragment src, ttl := 64,
         protocol := protocol src, header_checksum := 0,
         src_ip := copy_bytes (src_ip dst) (g_my_ip s) 4,
         dst_ip := copy_bytes (dst_ip dst) (src_ip src) 4\<rparr>"

definition copy_eth_header_reply :: "net \<Rightarrow> EthernetHeader \<Rightarrow> EthernetHeader \<Rightarrow> EthernetHeader" where
  "copy_eth_header_reply s dst src =
     dst\<lparr>eth_dst := copy_bytes (eth_dst dst) (eth_src src) 6,
         eth_src := copy_bytes (eth_src dst) (g_my_mac s) 6, ether_type := ether_type src\<rparr>"

definition copy_icmp_echo_reply :: "IcmpEchoHeader \<Rightarrow> IcmpEchoHeader \<Rightarrow> IcmpEchoHeader" where
  "copy_icmp_echo_reply dst src =
     dst\<lparr>icmp_type := ICMP_ECHO_REPLY, icmp_code := 0, icmp_checksum := 0,
         icmp_identifier := icmp_identifier src, icmp_sequence := icmp_sequence src\<rparr>"

section \<open>UDP dispatch\<close>

definition call_handler :: "UdpHandler \<Rightarrow> bytes \<Rightarrow> u16 \<Rightarrow> bytes \<Rightarrow> net \<Rightarrow> net" where
  "call_handler h src src_port payload s =
     (case h of
        Chat_Handler \<Rightarrow> s\<lparr>net_chat := chat_udp_handler src src_port payload (net_chat s)\<rparr>
      | Other_Handler a \<Rightarrow> s\<lparr>handler_calls := handler_calls s @ [(a, src, src_port, payload)]\<rparr>)"

definition udp_handle_packet :: "pointer \<Rightarrow> pointer \<Rightarrow> nat \<Rightarrow> net \<Rightarrow> bool \<times> net" where
  "udp_handle_packet src_ptr data_ptr len s =
     (case (src_ptr, data_ptr) of
        (Some src, Some data) \<Rightarrow>
          if len < sizeof_UdpHeader then (False, stat DroppedShort s)
          else
            let udp = read_UdpHeader data;
                src_port = bswap16 (udp_src_port udp);
                dst_port = bswap16 (udp_dst_port udp);
                udp_len = unat (bswap16 (udp_length udp))
            in if udp_len < sizeof_UdpHeader \<or> udp_len > len then (False, stat DroppedShort s)
               else
                 (case lookup_handler (g_udp_handlers s) dst_port of
                    None \<Rightarrow> (False, s)
                  | Some h \<Rightarrow>
                      let payload = segment sizeof_UdpHeader (udp_len - sizeof_UdpHeader) data
                      in (True, call_handler h src src_port payload (stat UdpRx s)))
      | _ \<Rightarrow> (False, stat DroppedShort s))"

section \<open>ARP\<close>

definition arp_learn :: "ArpPacket \<Rightarrow> net \<Rightarrow> net" where
  "arp_learn a s =
     (if hlen a = 6 \<and> plen a = 4 \<and> bswap16 (htype a) = ARP_HTYPE_ETHERNET \<and>
         bswap16 (ptype a) = ARP_PTYPE_IPV4
      then s\<lparr>net_arp := arp_cache_insert (Some (spa a)) (Some (sha a)) (net_arp s)\<rparr> else s)"

definition arp_reply_frame :: "EthernetHeader \<Rightarrow> ArpPacket \<Rightarrow> net \<Rightarrow> bytes" where
  "arp_reply_frame eth a s =
     (let buf = replicate (sizeof_EthernetHeader + sizeof_ArpPacket) 0;
          out_eth = zero_eth\<lparr>eth_dst := copy_bytes (eth_dst zero_eth) (eth_src eth) 6,
                             eth_src := copy_bytes (eth_src zero_eth) (g_my_mac s) 6,
                             ether_type := bswap16 ETH_TYPE_ARP\<rparr>;
          out_arp = zero_arp\<lparr>htype := bswap16 ARP_HTYPE_ETHERNET, ptype := bswap16 ARP_PTYPE_IPV4,
                             hlen := 6, plen := 4, oper := bswap16 ARP_OP_REPLY,
                             sha := copy_bytes (sha zero_arp) (g_my_mac s) 6,
                             spa := copy_bytes (spa zero_arp) (g_my_ip s) 4,
                             tha := copy_bytes (tha zero_arp) (sha a) 6,
                             tpa := copy_bytes (tpa zero_arp) (spa a) 4\<rparr>
      in write_at sizeof_EthernetHeader (write_ArpPacket out_arp)
           (write_at 0 (write_EthernetHeader out_eth) buf))"

definition handle_arp :: "bytes \<Rightarrow> net \<Rightarrow> net" where
  "handle_arp data s =
     (if length data < sizeof_EthernetHeader + sizeof_ArpPacket then stat DroppedShort s
      else
        let eth = read_EthernetHeader data;
            a = read_ArpPacket (drop sizeof_EthernetHeader data);
            op = bswap16 (oper a);
            s1 = arp_learn a s
        in if op = ARP_OP_REPLY then stat ArpRx s1
           else if op \<noteq> ARP_OP_REQUEST then s1
           else if \<not> ip_equals (tpa a) (g_my_ip s1) then stat DroppedNotForMe s1
           else
             let s2 = stat ArpRx s1; reply = arp_reply_frame eth a s2
             in case send_raw reply (length reply) s2 of
                  (True, s3) \<Rightarrow> stat ArpTx s3
                | (False, s3) \<Rightarrow> s3)"

section \<open>IPv4 and ICMP\<close>

text \<open>
  The reply buffer after every step that builds it: Ethernet header, IPv4 header, ICMP header,
  payload, IPv4 checksum, ICMP checksum.
\<close>

definition icmp_reply_buffer ::
  "bytes \<Rightarrow> EthernetHeader \<Rightarrow> Ipv4Header \<Rightarrow> IcmpEchoHeader \<Rightarrow> nat \<Rightarrow> nat \<Rightarrow> net \<Rightarrow> bytes outcome" where
  "icmp_reply_buffer in_payload eth ip icmp ip_hdr_len icmp_len s =
     (let ip_off = sizeof_EthernetHeader;
          icmp_off = sizeof_EthernetHeader + ip_hdr_len;
          out_eth = copy_eth_header_reply s zero_eth eth;
          out_ip = copy_ip_header_basic s zero_ip ip;
          out_icmp = copy_icmp_echo_reply zero_icmp icmp
      in bind_outcome (store_at 0 (write_EthernetHeader out_eth) (replicate 1514 0)) (\<lambda>b1.
         bind_outcome (store_at ip_off (write_Ipv4Header out_ip) b1) (\<lambda>b2.
         bind_outcome (store_at icmp_off (write_IcmpEchoHeader out_icmp) b2) (\<lambda>b3.
         bind_outcome (store_at (icmp_off + sizeof_IcmpEchoHeader) in_payload b3) (\<lambda>b4.
         bind_outcome (store_at ip_off (write_Ipv4Header
             (out_ip\<lparr>header_checksum := bswap16 (checksum16 (segment ip_off ip_hdr_len b4))\<rparr>)) b4) (\<lambda>b5.
         store_at icmp_off (write_IcmpEchoHeader
             (out_icmp\<lparr>icmp_checksum := bswap16 (checksum16 (segment icmp_off icmp_len b5))\<rparr>)) b5))))))"

definition handle_icmp :: "bytes \<Rightarrow> nat \<Rightarrow> nat \<Rightarrow> net \<Rightarrow> net outcome" where
  "handle_icmp data ip_hdr_len ip_total_len s =
     (let eth = read_EthernetHeader data;
          ip = read_Ipv4Header (drop sizeof_EthernetHeader data)
      in if ip_total_len < ip_hdr_len + sizeof_IcmpEchoHeader then Inr (stat DroppedShort s)
         else
           let icmp_off = icmp_offset ip;
               icmp = read_IcmpEchoHeader (drop icmp_off data);
               icmp_len = ip_total_len - ip_hdr_len
           in if icmp_type icmp \<noteq> ICMP_ECHO_REQUEST then Inr s
              else if checksum16 (segment icmp_off icmp_len data) \<noteq> 0
              then Inr (stat DroppedBadChecksum s)
              else
                let s1 = stat IcmpRx s;
                    payload_len = icmp_len - sizeof_IcmpEchoHeader;
                    in_payload = segment (icmp_off + sizeof_IcmpEchoHeader) payload_len data;
                    reply_len = sizeof_EthernetHeader + ip_hdr_len + icmp_len
                in bind_outcome (icmp_reply_buffer in_payload eth ip icmp ip_hdr_len icmp_len s1) (\<lambda>reply.
                     case send_raw reply reply_len s1 of
                       (True, s2) \<Rightarrow> Inr (stat IcmpTx (stat Ipv4Tx s2))
                     | (False, s2) \<Rightarrow> Inr s2))"

definition handle_ipv4 :: "bytes \<Rightarrow> net \<Rightarrow> net outcome" where
  "handle_ipv4 data s =
     (let len = length data in
      if len < sizeof_EthernetHeader + sizeof_Ipv4Header then Inr (stat DroppedShort s)
      else
        let ip = read_Ipv4Header (drop sizeof_EthernetHeader data);
            ip_hdr_len = ipv4_header_length ip
        in if ip_hdr_len < sizeof_Ipv4Header then Inr (stat DroppedShort s)
           else if len < sizeof_EthernetHeader + ip_hdr_len then Inr (stat DroppedShort s)
           else if checksum16 (segment sizeof_EthernetHeader ip_hdr_len data) \<noteq> 0
             then Inr (stat DroppedBadChecksum s)
           else if \<not> ip_is_for_me s ip then Inr (stat DroppedNotForMe s)
           else
             let s1 = stat Ipv4Rx s;
                 ip_total_len = unat (bswap16 (total_length ip))
             in if ip_total_len < ip_hdr_len then Inr (stat DroppedShort s1)
                else if sizeof_EthernetHeader + ip_total_len > len then Inr (stat DroppedShort s1)
                else if protocol ip = IPV4_PROTO_UDP then
                  let udp_data = drop (sizeof_EthernetHeader + ip_hdr_len) data;
                      udp_len = ip_total_len - ip_hdr_len
                  in Inr (snd (udp_handle_packet (Some (src_ip ip)) (Some udp_data) udp_len s1))
                else if protocol ip \<noteq> IPV4_PROTO_ICMP then Inr (stat DroppedUnknownIpv4Protocol s1)
                else handle_icmp data ip_hdr_len ip_total_len s1)"

section \<open>Frames\<close>

definition net_handle_frame :: "bytes \<Rightarrow> net \<Rightarrow> net outcome" where
  "net_handle_frame data s =
     (if length data < sizeof_EthernetHeader then Inr (stat DroppedShort s)
      else
        let eth = read_EthernetHeader data
        in if \<not> mac_is_for_me s (eth_dst eth) then Inr (stat DroppedNotForMe s)
           else
             let type = bswap16 (ether_type eth)
             in if type = ETH_TYPE_ARP then Inr (handle_arp data s)
                else if type = ETH_TYPE_IPV4 then handle_ipv4 data s
                else Inr (stat DroppedUnknownEthertype s))"

definition net_poll_once :: "net \<Rightarrow> (bool \<times> net) outcome" where
  "net_poll_once s =
     bind_outcome (net_recv_raw (Some (replicate VIRTIO_NET_MAX_FRAME_SIZE 0)) VIRTIO_NET_MAX_FRAME_SIZE
         (net_nic s)) (\<lambda>(recv_len, frame_ptr, n).
       let s1 = s\<lparr>net_nic := n\<rparr>
       in if recv_len \<le> 0 then Inr (False, s1)
          else
            (case frame_ptr of
               None \<Rightarrow> Inr (False, s1)
             | Some frame \<Rightarrow>
                 bind_outcome (net_handle_frame (take (nat recv_len) frame) s1) (\<lambda>s2. Inr (True, s2))))"

end
