(* ===== verification/Net_Chat.thy ===== *)
theory Net_Chat
  imports Net_Rx
begin

text \<open>
  The chat interface of \<^verbatim>\<open>net_chat.cc\<close> over the whole stack: registration of the chat handler,
  sending and polling. Receiving and the message store are in \<open>Chat_Store\<close>.
\<close>

definition net_chat_init :: "net \<Rightarrow> bool \<times> net" where
  "net_chat_init s =
     (case udp_register_handler NET_CHAT_PORT (Some Chat_Handler) (g_udp_handlers s) of
        (ok, t) \<Rightarrow> (ok, s\<lparr>g_udp_handlers := t\<rparr>))"

definition net_chat_send :: "pointer \<Rightarrow> pointer \<Rightarrow> net \<Rightarrow> bool \<times> net" where
  "net_chat_send dst_ptr text_ptr s =
     (if dst_ptr = None \<or> text_ptr = None then (False, s)
      else
        case net_chat_init s of
          (False, s1) \<Rightarrow> (False, s1)
        | (True, s1) \<Rightarrow>
            (case sanitize_cstr (Some (replicate NET_CHAT_TEXT_SIZE 0)) text_ptr of
               (len, sanitized) \<Rightarrow>
                 if len = 0 then (False, s1)
                 else udp_send_to dst_ptr NET_CHAT_PORT NET_CHAT_PORT sanitized len s1))"

definition net_chat_poll :: "net \<Rightarrow> (bool \<times> net) outcome" where
  "net_chat_poll s =
     (case net_chat_init s of
        (False, s1) \<Rightarrow> Inr (False, s1)
      | (True, s1) \<Rightarrow> net_poll_once s1)"

end
