(* ===== verification/Net_Inv.thy ===== *)
theory Net_Inv
  imports Net_Chat
begin

text \<open>
  The invariant of the whole stack on the fake backend, and what every function does to it: the
  bytes put on the wire, the counters, the bindings learnt, and that no frame of ordinary size can
  make the receiver leave its buffers.
\<close>

section \<open>Invariant\<close>

definition net_inv :: "net \<Rightarrow> bool" where
  "net_inv s \<longleftrightarrow>
     wf_identity s \<and> fake_inv (net_nic s) \<and> arp_inv (net_arp s) \<and> udp_inv (g_udp_handlers s) \<and>
     chat_inv (net_chat s)"

text \<open>The frame sent last, as the fake backend records it.\<close>

definition last_tx :: "net \<Rightarrow> bytes" where
  "last_tx s = take (unat (last_fake_tx_len (g_net (net_nic s)))) (last_fake_tx (g_net (net_nic s)))"

abbreviation stats :: "net \<Rightarrow> NetStats" where "stats s \<equiv> g_stats (net_nic s)"

lemma stat_fields [simp]:
  "g_my_mac (stat c s) = g_my_mac s" "g_my_ip (stat c s) = g_my_ip s" "net_arp (stat c s) = net_arp s"
  "g_udp_handlers (stat c s) = g_udp_handlers s" "net_chat (stat c s) = net_chat s"
  "handler_calls (stat c s) = handler_calls s" "last_tx (stat c s) = last_tx s"
  "g_net (net_nic (stat c s)) = g_net (net_nic s)"
  "stats (stat c s) = net_stats_increment c (stats s)"
  by (simp_all add: stat_def count_stat_def last_tx_def)

lemma fake_inv_count [simp]: "fake_inv (count_stat c n) = fake_inv n"
  by (simp add: fake_inv_def count_stat_def)

lemma net_inv_stat [simp]: "net_inv (stat c s) = net_inv s"
  by (simp add: net_inv_def wf_identity_def) (simp add: stat_def)

text \<open>The frames waiting in the receive ring, and what no frame changes.\<close>

abbreviation rx_queue :: "net \<Rightarrow> bytes list" where "rx_queue s \<equiv> rx_frames (g_net (net_nic s))"

definition kept :: "net \<Rightarrow> net \<Rightarrow> bool" where
  "kept s s' \<longleftrightarrow> net_inv s' \<and> rx_queue s' = rx_queue s \<and> g_my_mac s' = g_my_mac s \<and> g_my_ip s' = g_my_ip s"

lemma kept_refl: "net_inv s \<Longrightarrow> kept s s"
  by (simp add: kept_def)

lemma kept_stat [simp]: "kept (stat c s) s' = kept s s'" "kept s (stat c s') = kept s s'"
  by (simp_all add: kept_def)

lemma kept_trans: "kept s s1 \<Longrightarrow> kept s1 s2 \<Longrightarrow> kept s s2"
  by (simp add: kept_def)

text \<open>Sending on the fake backend always works and records exactly the frame.\<close>

lemma send_raw_fake:
  assumes "net_inv s" and "0 < k" and "k \<le> 2048" and "k \<le> length frame"
  shows "\<exists>n. send_raw frame k s = (True, s\<lparr>net_nic := n\<rparr>) \<and> net_inv (s\<lparr>net_nic := n\<rparr>) \<and>
    kept s (s\<lparr>net_nic := n\<rparr>) \<and> last_tx (s\<lparr>net_nic := n\<rparr>) = take k frame \<and> g_stats n = net_stats_increment RawTx (stats s) \<and>
    rx_frames (g_net n) = rx_frames (g_net (net_nic s))"
proof -
  have inv: "fake_inv (net_nic s)"
    using assms(1) by (simp add: net_inv_def)
  obtain g where g: "net_send_raw (Some frame) k (net_nic s) =
      (True, count_stat RawTx ((net_nic s)\<lparr>g_net := g\<rparr>))" "fake_inv ((net_nic s)\<lparr>g_net := g\<rparr>)"
      "rx_frames g = rx_frames (g_net (net_nic s))" "take k (last_fake_tx g) = take k frame"
      "last_fake_tx_len g = word_of_nat k"
    using net_send_raw_fake [OF inv assms(2-4)] by auto
  have "unat (last_fake_tx_len g) = k"
    using assms(3) by (simp add: g(5) unat_of_nat)
  then show ?thesis
    using assms(1) g by (intro exI [of _ "count_stat RawTx ((net_nic s)\<lparr>g_net := g\<rparr>)"])
      (simp add: send_raw_def last_tx_def kept_def net_inv_def wf_identity_def count_stat_def fake_inv_def)
qed

section \<open>Reading frames back\<close>

lemma read_frame:
  assumes "wf_EthernetHeader e"
  shows "read_EthernetHeader (write_EthernetHeader e @ rest) = e"
    and "drop 14 (write_EthernetHeader e @ rest) = rest"
    and "length (write_EthernetHeader e @ rest) = 14 + length rest"
    and "drop (14 + k) (write_EthernetHeader e @ rest) = drop k rest"
    and "segment (14 + k) n (write_EthernetHeader e @ rest) = segment k n rest"
    and "segment 14 n (write_EthernetHeader e @ rest) = take n rest"
  using ethernet.decode_encode [OF assms] length_write_headers(1) [OF assms]
  by (simp_all add: segment_def drop_append)

lemma wf_eth_header: "length d = 6 \<Longrightarrow> length s = 6 \<Longrightarrow> wf_EthernetHeader (eth_header d s t)"
  by (simp add: wf_EthernetHeader_def eth_header_def)

lemma eth_header_fields [simp]:
  "eth_dst (eth_header d s t) = d" "eth_src (eth_header d s t) = s"
  "bswap16 (ether_type (eth_header d s t)) = t"
  by (simp_all add: eth_header_def)

lemma wf_arp_packet:
  "length sm = 6 \<Longrightarrow> length si = 4 \<Longrightarrow> length tm = 6 \<Longrightarrow> length ti = 4 \<Longrightarrow>
   wf_ArpPacket (arp_packet opcode sm si tm ti)"
  by (simp add: wf_ArpPacket_def arp_packet_def)

lemma mac_for_me:
  "wf_identity s \<Longrightarrow> mac_is_for_me s (g_my_mac s)"
  "mac_is_for_me s broadcast_mac"
  by (simp_all add: mac_is_for_me_def mac_is_broadcast_def broadcast_mac_def list_all_iff)

lemma ip_equals_iff: "length a = 4 \<Longrightarrow> length b = 4 \<Longrightarrow> ip_equals a b \<longleftrightarrow> a = b"
  using bytes_equal_iff [of a 4 b] by (simp add: ip_equals_def bytes_equal_def)

lemma net_handle_frame_arp:
  assumes "wf_EthernetHeader e" and "mac_is_for_me s (eth_dst e)" and "bswap16 (ether_type e) = ETH_TYPE_ARP"
  shows "net_handle_frame (write_EthernetHeader e @ rest) s = Inr (handle_arp (write_EthernetHeader e @ rest) s)"
  using assms read_frame [OF assms(1)] by (simp add: net_handle_frame_def sizeof_defs)

lemma net_handle_frame_ipv4:
  assumes "wf_EthernetHeader e" and "mac_is_for_me s (eth_dst e)" and "bswap16 (ether_type e) = ETH_TYPE_IPV4"
  shows "net_handle_frame (write_EthernetHeader e @ rest) s = handle_ipv4 (write_EthernetHeader e @ rest) s"
  using assms read_frame [OF assms(1)] by (simp add: net_handle_frame_def sizeof_defs packet_constants)

section \<open>ARP\<close>

lemma arp_reply_frame_eq:
  assumes "wf_identity s" and "length (eth_src e) = 6" and "length (sha a) = 6" and "length (spa a) = 4"
  shows "arp_reply_frame e a s =
    write_EthernetHeader (eth_header (eth_src e) (g_my_mac s) ETH_TYPE_ARP) @
    write_ArpPacket (arp_packet ARP_OP_REPLY (g_my_mac s) (g_my_ip s) (sha a) (spa a))"
proof -
  let ?e = "eth_header (eth_src e) (g_my_mac s) ETH_TYPE_ARP"
  let ?a = "arp_packet ARP_OP_REPLY (g_my_mac s) (g_my_ip s) (sha a) (spa a)"
  have "length (write_EthernetHeader ?e) = 14" "length (write_ArpPacket ?a) = 28"
    using assms by (simp_all add: length_write_headers wf_eth_header wf_arp_packet wf_identity_def)
  moreover have "arp_reply_frame e a s =
      write_at 14 (write_ArpPacket ?a) (write_at 0 (write_EthernetHeader ?e) (replicate 42 0))"
    using assms by (simp add: arp_reply_frame_def Let_def wf_identity_def sizeof_defs eth_header_def
        arp_packet_def)
  ultimately show ?thesis
    by (simp add: write_at_def)
qed

lemma arp_learn_inv:
  assumes "net_inv s" and "length (sha a) = 6" and "length (spa a) = 4"
  shows "net_inv (arp_learn a s)" and "wf_identity (arp_learn a s)"
  using assms arp_cache_insert_inv [of "net_arp s" "spa a" "sha a"]
  by (auto simp: arp_learn_def net_inv_def wf_identity_def)

lemma arp_learn_fields [simp]:
  "g_my_mac (arp_learn a s) = g_my_mac s" "g_my_ip (arp_learn a s) = g_my_ip s"
  "net_nic (arp_learn a s) = net_nic s" "last_tx (arp_learn a s) = last_tx s"
  "g_udp_handlers (arp_learn a s) = g_udp_handlers s" "net_chat (arp_learn a s) = net_chat s"
  "handler_calls (arp_learn a s) = handler_calls s"
  by (simp_all add: arp_learn_def last_tx_def)

lemma arp_packet_fields [simp]:
  "sha (arp_packet opcode smac sip tmac tip) = smac" "spa (arp_packet opcode smac sip tmac tip) = sip"
  "tpa (arp_packet opcode smac sip tmac tip) = tip" "bswap16 (oper (arp_packet opcode smac sip tmac tip)) = opcode"
  by (simp_all add: arp_packet_def)

lemma arp_packet_learn:
  "arp_learn (arp_packet opcode smac sip tmac tip) s =
     s\<lparr>net_arp := arp_cache_insert (Some sip) (Some smac) (net_arp s)\<rparr>"
  by (simp add: arp_learn_def arp_packet_def)

text \<open>Handling any ARP frame keeps the invariant.\<close>

lemma handle_arp_inv:
  assumes inv: "net_inv s"
  shows "kept s (handle_arp data s)"
proof (cases "length data < 42")
  case True
  then show ?thesis using inv by (simp add: handle_arp_def sizeof_defs kept_refl)
next
  case False
  let ?e = "read_EthernetHeader data" and ?a = "read_ArpPacket (drop 14 data)"
  have wf: "wf_EthernetHeader ?e" "wf_ArpPacket ?a"
    using False ethernet.wf_decode [of data] arp.wf_decode [of "drop 14 data"] by (simp_all add: sizeof_defs)
  then have len: "length (eth_src ?e) = 6" "length (sha ?a) = 6" "length (spa ?a) = 4"
    by (simp_all add: wf_EthernetHeader_def wf_ArpPacket_def)
  note l = arp_learn_inv [OF inv len(2,3)]
  let ?s = "stat ArpRx (arp_learn ?a s)"
  let ?reply = "arp_reply_frame ?e ?a ?s"
  have "length ?reply = 42"
    using arp_reply_frame_eq [of ?s ?e ?a] len inv
    by (simp add: length_write_headers wf_eth_header wf_arp_packet net_inv_def wf_identity_def)
  then obtain n where n: "send_raw ?reply (length ?reply) ?s = (True, ?s\<lparr>net_nic := n\<rparr>)" "kept ?s (?s\<lparr>net_nic := n\<rparr>)"
    using send_raw_fake [of ?s 42 ?reply] l(1) by auto
  have learn: "kept s (arp_learn ?a s)"
    using l(1) by (simp add: kept_def)
  then have "kept s (?s\<lparr>net_nic := n\<rparr>)"
    using n(2) by (auto intro: kept_trans)
  then show ?thesis
    using False n(1) learn inv by (simp add: handle_arp_def sizeof_defs Let_def)
qed

text \<open>A request for this host's address: the answer, and what is learnt.\<close>

lemma handle_arp_request:
  assumes inv: "net_inv s" and e: "wf_EthernetHeader e" and len: "length smac = 6" "length sip = 4" "length tmac = 6"
  defines "frame \<equiv> write_EthernetHeader e @ write_ArpPacket (arp_packet ARP_OP_REQUEST smac sip tmac (g_my_ip s))"
  shows "net_inv (handle_arp frame s)"
    and "last_tx (handle_arp frame s) =
      write_EthernetHeader (eth_header (eth_src e) (g_my_mac s) ETH_TYPE_ARP) @
      write_ArpPacket (arp_packet ARP_OP_REPLY (g_my_mac s) (g_my_ip s) smac sip)"
    and "net_arp (handle_arp frame s) = arp_cache_insert (Some sip) (Some smac) (net_arp s)"
    and "stats (handle_arp frame s) = count_events [ArpRx, RawTx, ArpTx] (stats s)"
    and "g_my_mac (handle_arp frame s) = g_my_mac s \<and> g_my_ip (handle_arp frame s) = g_my_ip s"
proof -
  let ?a = "arp_packet ARP_OP_REQUEST smac sip tmac (g_my_ip s)"
  have id: "length (g_my_mac s) = 6" "length (g_my_ip s) = 4"
    using inv by (simp_all add: net_inv_def wf_identity_def)
  have a: "wf_ArpPacket ?a"
    using len id by (simp add: wf_arp_packet)
  have r: "read_EthernetHeader frame = e" "read_ArpPacket (drop 14 frame) = ?a" "length frame = 42"
    using read_frame [OF e] arp.decode_encode [OF a, of "[]"] length_write_headers(2) [OF a]
    by (simp_all add: frame_def)
  have es: "length (eth_src e) = 6"
    using e by (simp add: wf_EthernetHeader_def)
  define s1 where "s1 = stat ArpRx (s\<lparr>net_arp := arp_cache_insert (Some sip) (Some smac) (net_arp s)\<rparr>)"
  have inv1: "net_inv s1"
    using arp_learn_inv(1) [OF inv, of ?a] len by (simp add: s1_def arp_packet_learn)
  let ?reply = "write_EthernetHeader (eth_header (eth_src e) (g_my_mac s) ETH_TYPE_ARP) @
      write_ArpPacket (arp_packet ARP_OP_REPLY (g_my_mac s) (g_my_ip s) smac sip)"
  have s1f: "g_my_mac s1 = g_my_mac s" "g_my_ip s1 = g_my_ip s"
    by (simp_all add: s1_def)
  have reply: "arp_reply_frame e ?a s1 = ?reply"
    using arp_reply_frame_eq [of s1 e ?a] es len inv1 s1f by (simp add: net_inv_def)
  have l42: "length ?reply = 42"
    using es len id by (simp add: length_write_headers wf_eth_header wf_arp_packet)
  obtain n where n: "send_raw ?reply 42 s1 = (True, s1\<lparr>net_nic := n\<rparr>)" "net_inv (s1\<lparr>net_nic := n\<rparr>)"
    "last_tx (s1\<lparr>net_nic := n\<rparr>) = take 42 ?reply" "g_stats n = net_stats_increment RawTx (stats s1)"
    using send_raw_fake [OF inv1, of 42 ?reply] l42 by auto
  have ops: "bswap16 (oper ?a) = ARP_OP_REQUEST" "ARP_OP_REQUEST \<noteq> ARP_OP_REPLY" "tpa ?a = g_my_ip s"
    by (simp_all add: packet_constants)
  have eq: "handle_arp frame s = stat ArpTx (s1\<lparr>net_nic := n\<rparr>)"
    using id ops l42 n(1) reply
    by (simp add: handle_arp_def sizeof_defs r Let_def arp_packet_learn ip_equals_iff s1_def [symmetric])
  show "net_inv (handle_arp frame s)" "last_tx (handle_arp frame s) = ?reply"
    "net_arp (handle_arp frame s) = arp_cache_insert (Some sip) (Some smac) (net_arp s)"
    "stats (handle_arp frame s) = count_events [ArpRx, RawTx, ArpTx] (stats s)"
    "g_my_mac (handle_arp frame s) = g_my_mac s \<and> g_my_ip (handle_arp frame s) = g_my_ip s"
    using n l42 unfolding eq by (simp_all add: s1_def count_events_def)
qed

text \<open>A reply only teaches the binding it carries.\<close>

lemma handle_arp_reply:
  assumes inv: "net_inv s" and e: "wf_EthernetHeader e" and len: "length smac = 6" "length sip = 4"
    "length tmac = 6" "length tip = 4"
  shows "handle_arp (write_EthernetHeader e @ write_ArpPacket (arp_packet ARP_OP_REPLY smac sip tmac tip)) s =
    stat ArpRx (s\<lparr>net_arp := arp_cache_insert (Some sip) (Some smac) (net_arp s)\<rparr>)"
proof -
  let ?a = "arp_packet ARP_OP_REPLY smac sip tmac tip"
  have a: "wf_ArpPacket ?a"
    using len by (simp add: wf_arp_packet)
  then show ?thesis
    using read_frame [OF e] arp.decode_encode [OF a, of "[]"] length_write_headers(2) [OF a]
    by (simp add: handle_arp_def sizeof_defs arp_packet_learn)
qed

lemma net_send_arp_request_frame:
  assumes inv: "net_inv s" and "length ip = 4"
  shows "\<exists>n. net_send_arp_request (Some ip) s = (True, stat ArpTx (s\<lparr>net_nic := n\<rparr>)) \<and>
    net_inv (s\<lparr>net_nic := n\<rparr>) \<and> g_stats n = net_stats_increment RawTx (stats s) \<and>
    last_tx (s\<lparr>net_nic := n\<rparr>) =
      write_EthernetHeader (eth_header broadcast_mac (g_my_mac s) ETH_TYPE_ARP) @
      write_ArpPacket (arp_packet ARP_OP_REQUEST (g_my_mac s) (g_my_ip s) (replicate 6 0) ip)"
proof -
  have id: "wf_identity s" "length (g_my_mac s) = 6" "length (g_my_ip s) = 4"
    using inv by (simp_all add: net_inv_def wf_identity_def)
  let ?f = "write_EthernetHeader (eth_header broadcast_mac (g_my_mac s) ETH_TYPE_ARP) @
      write_ArpPacket (arp_packet ARP_OP_REQUEST (g_my_mac s) (g_my_ip s) (replicate 6 0) ip)"
  have f: "arp_request_frame ip s = ?f" "length ?f = 42"
    using arp_request_frame_eq [OF id(1) assms(2)] id assms(2)
    by (simp_all add: length_write_headers wf_eth_header wf_arp_packet broadcast_mac_def)
  obtain n where "send_raw ?f 42 s = (True, s\<lparr>net_nic := n\<rparr>)" "net_inv (s\<lparr>net_nic := n\<rparr>)"
    "last_tx (s\<lparr>net_nic := n\<rparr>) = take 42 ?f" "g_stats n = net_stats_increment RawTx (stats s)"
    using send_raw_fake [OF inv, of 42 ?f] f(2) by auto
  then show ?thesis
    using f by (intro exI [of _ n]) (simp add: net_send_arp_request_def)
qed

section \<open>IPv4\<close>

text \<open>A packet as \<open>net_send_ipv4\<close> builds it, accepted by its destination.\<close>

lemma ipv4_header_length_45 [simp]: "ipv4_header_length (ipv4_header src dst p n) = 20"
  by (simp add: ipv4_header_length_def)

lemma handle_ipv4_accepts:
  assumes id: "wf_identity s" and e: "wf_EthernetHeader e" and src: "length src = 4" and n: "n \<le> 2014"
    and dst: "dst = g_my_ip s" and p: "length payload = n"
  shows "handle_ipv4 (write_EthernetHeader e @ write_Ipv4Header (ipv4_header src dst proto n) @ payload) s =
    (let s1 = stat Ipv4Rx s
     in if proto = IPV4_PROTO_UDP then Inr (snd (udp_handle_packet (Some src) (Some payload) n s1))
        else if proto \<noteq> IPV4_PROTO_ICMP then Inr (stat DroppedUnknownIpv4Protocol s1)
        else handle_icmp (write_EthernetHeader e @ write_Ipv4Header (ipv4_header src dst proto n) @ payload)
               20 (20 + n) s1)"
proof -
  let ?h = "ipv4_header src dst proto n"
  let ?d = "write_EthernetHeader e @ write_Ipv4Header ?h @ payload"
  have d4: "length dst = 4"
    using id dst by (simp add: wf_identity_def)
  have wf: "wf_Ipv4Header ?h"
    using src d4 by (simp add: wf_Ipv4Header_def)
  note rf = read_frame [OF e, where rest = "write_Ipv4Header ?h @ payload"]
  have lh: "length (write_Ipv4Header ?h) = 20"
    by (rule length_write_headers(3) [OF wf])
  have r: "read_Ipv4Header (drop 14 ?d) = ?h"
    using ipv4.decode_encode [OF wf] rf(2) by simp
  have c: "checksum16 (segment 14 20 ?d) = 0"
    using rf(6) [where n = 20] lh ipv4_header_valid [OF src d4] by simp
  have me: "ip_is_for_me s ?h"
    using d4 dst by (simp add: ip_is_for_me_def ip_equals_iff)
  have tl: "unat (bswap16 (total_length ?h)) = 20 + n"
    using n by (simp add: unat_word_ariths unat_of_nat)
  have dr: "drop 34 ?d = payload"
    using rf(4) [where k = 20] lh by simp
  have ld: "length ?d = 34 + n"
    using rf(3) lh p by simp
  define d where "d = ?d"
  note facts = c [folded d_def] dr [folded d_def] ld [folded d_def] r [folded d_def] me tl
  show ?thesis
    unfolding d_def [symmetric] using facts
    by (auto simp: handle_ipv4_def Let_def sizeof_defs)
qed

lemma arp_map_mac:
  assumes "arp_inv c" and "length ip = 4" and "arp_map c ip = Some mac"
  shows "length mac = 6"
proof -
  obtain i where i: "find_entry_locked c ip = Some i" "mac = arp_mac (g_arp_cache c ! i)"
    using assms(3) by (auto simp: arp_map_def)
  then show ?thesis
    using arp_inv_wf [OF assms(1) find_entry_Some(1) [OF assms(1,2) i(1)]] by (simp add: wf_entry_def)
qed

lemma net_send_ipv4_frame:
  assumes inv: "net_inv s" and ip: "length dst = 4" and hit: "arp_map (net_arp s) dst = Some mac"
    and n: "n \<le> length payload" "n \<le> 2014"
  shows "\<exists>nic arp1. net_send_ipv4 (Some dst) proto (Some payload) n s =
      (True, stat Ipv4Tx (s\<lparr>net_arp := arp1, net_nic := nic\<rparr>)) \<and>
    net_inv (s\<lparr>net_arp := arp1, net_nic := nic\<rparr>) \<and> g_stats nic = net_stats_increment RawTx (stats s) \<and>
    (\<forall>x. length x = 4 \<longrightarrow> arp_map arp1 x = arp_map (net_arp s) x) \<and>
    last_tx (s\<lparr>net_arp := arp1, net_nic := nic\<rparr>) =
      write_EthernetHeader (eth_header mac (g_my_mac s) ETH_TYPE_IPV4) @
      write_Ipv4Header (ipv4_header (g_my_ip s) dst proto n) @ take n payload"
proof -
  have ainv: "arp_inv (net_arp s)"
    using inv by (simp add: net_inv_def)
  obtain arp1 where l: "arp_cache_lookup (Some dst) (Some (replicate 6 0)) (net_arp s) = (Some mac, arp1)"
    and arp1: "arp_inv arp1" "\<forall>x. length x = 4 \<longrightarrow> arp_map arp1 x = arp_map (net_arp s) x"
    using arp_cache_lookup_result [OF ainv ip, of "replicate 6 0"] hit
      arp_cache_lookup_inv [OF ainv ip, of "replicate 6 0"] arp_cache_lookup_map [OF ainv ip, of "replicate 6 0"]
    by (cases "arp_cache_lookup (Some dst) (Some (replicate 6 0)) (net_arp s)") auto
  have mac6: "length mac = 6"
    by (rule arp_map_mac [OF ainv ip hit])
  define s1 where "s1 = s\<lparr>net_arp := arp1\<rparr>"
  have inv1: "net_inv s1" and s1: "g_my_mac s1 = g_my_mac s" "g_my_ip s1 = g_my_ip s" "net_nic s1 = net_nic s"
    using inv arp1(1) by (simp_all add: s1_def net_inv_def wf_identity_def)
  then have "wf_identity s1"
    by (simp add: net_inv_def)
  note f = ipv4_frame_eq [OF this mac6 ip n(1), of proto]
  let ?f = "ipv4_frame mac dst proto payload n s1"
  have "length ?f = 2048"
    using f(2) n by simp
  then obtain nic where nic: "send_raw ?f (34 + n) s1 = (True, s1\<lparr>net_nic := nic\<rparr>)" "net_inv (s1\<lparr>net_nic := nic\<rparr>)"
    "last_tx (s1\<lparr>net_nic := nic\<rparr>) = take (34 + n) ?f" "g_stats nic = net_stats_increment RawTx (stats s1)"
    using send_raw_fake [OF inv1, of "34 + n" ?f] n by auto
  have "net_send_ipv4 (Some dst) proto (Some payload) n s = (True, stat Ipv4Tx (s1\<lparr>net_nic := nic\<rparr>))"
    using n nic(1) by (simp add: net_send_ipv4_def sizeof_defs VIRTIO_NET_MAX_FRAME_SIZE_def Let_def l
        s1_def [symmetric])
  then show ?thesis
    using nic arp1 f(1) n s1 by (intro exI [of _ nic] exI [of _ arp1]) (simp add: s1_def)
qed

section \<open>UDP\<close>

lemma udp_send_to_frame:
  assumes inv: "net_inv s" and ip: "length dst = 4" and hit: "arp_map (net_arp s) dst = Some mac"
    and n: "n \<le> length payload" "n \<le> 1472" and ports: "sp \<noteq> 0" "dp \<noteq> 0"
  shows "\<exists>nic arp1. udp_send_to (Some dst) sp dp (Some payload) n s =
      (True, stat UdpTx (stat Ipv4Tx (s\<lparr>net_arp := arp1, net_nic := nic\<rparr>))) \<and>
    net_inv (s\<lparr>net_arp := arp1, net_nic := nic\<rparr>) \<and> g_stats nic = net_stats_increment RawTx (stats s) \<and>
    (\<forall>x. length x = 4 \<longrightarrow> arp_map arp1 x = arp_map (net_arp s) x) \<and>
    last_tx (s\<lparr>net_arp := arp1, net_nic := nic\<rparr>) =
      write_EthernetHeader (eth_header mac (g_my_mac s) ETH_TYPE_IPV4) @
      write_Ipv4Header (ipv4_header (g_my_ip s) dst IPV4_PROTO_UDP (8 + n)) @
      write_UdpHeader (udp_header sp dp n) @ take n payload"
proof -
  let ?p = "udp_datagram sp dp payload n"
  note d = udp_datagram_eq [OF n, of sp dp]
  obtain nic arp1 where "net_send_ipv4 (Some dst) IPV4_PROTO_UDP (Some ?p) (8 + n) s =
      (True, stat Ipv4Tx (s\<lparr>net_arp := arp1, net_nic := nic\<rparr>))"
    "net_inv (s\<lparr>net_arp := arp1, net_nic := nic\<rparr>)" "g_stats nic = net_stats_increment RawTx (stats s)"
    "\<forall>x. length x = 4 \<longrightarrow> arp_map arp1 x = arp_map (net_arp s) x"
    "last_tx (s\<lparr>net_arp := arp1, net_nic := nic\<rparr>) =
      write_EthernetHeader (eth_header mac (g_my_mac s) ETH_TYPE_IPV4) @
      write_Ipv4Header (ipv4_header (g_my_ip s) dst IPV4_PROTO_UDP (8 + n)) @ take (8 + n) ?p"
    using net_send_ipv4_frame [OF inv ip hit, of "8 + n" ?p IPV4_PROTO_UDP] d(2) n by auto
  then show ?thesis
    using n ports d(1) by (intro exI [of _ nic] exI [of _ arp1]) (simp add: udp_send_to_def sizeof_defs Let_def)
qed

lemma udp_handle_datagram:
  assumes "length src = 4" and "length payload = n" and "n \<le> 1472"
  shows "udp_handle_packet (Some src) (Some (write_UdpHeader (udp_header sp dp n) @ payload)) (8 + n) s =
    (case lookup_handler (g_udp_handlers s) dp of
       None \<Rightarrow> (False, s)
     | Some h \<Rightarrow> (True, call_handler h src sp payload (stat UdpRx s)))"
proof -
  let ?u = "udp_header sp dp n"
  have r: "read_UdpHeader (write_UdpHeader ?u @ payload) = ?u"
    using udp.decode_encode [of ?u payload] by simp
  have f: "bswap16 (udp_src_port ?u) = sp" "bswap16 (udp_dst_port ?u) = dp"
    "unat (bswap16 (udp_length ?u)) = 8 + n"
    using assms(3) by (simp_all add: udp_header_def unat_word_ariths unat_of_nat)
  have "segment 8 n (write_UdpHeader ?u @ payload) = payload"
    using assms(2) length_write_headers(5) [of ?u] by (simp add: segment_def)
  then show ?thesis
    by (cases "lookup_handler (g_udp_handlers s) dp")
      (simp_all add: udp_handle_packet_def sizeof_defs r f Let_def)
qed

lemma call_handler_inv: "net_inv s \<Longrightarrow> net_inv (call_handler h src port payload s)"
  by (simp add: call_handler_def net_inv_def wf_identity_def chat_udp_handler_def store_message_inv
      split: UdpHandler.split)

lemma call_handler_kept: "net_inv s \<Longrightarrow> kept s (call_handler h src port payload s)"
  using call_handler_inv [of s h src port payload]
  by (simp add: kept_def) (simp add: call_handler_def split: UdpHandler.split)

lemma udp_handle_inv: "net_inv s \<Longrightarrow> kept s (snd (udp_handle_packet src data n s))"
  using call_handler_kept [of "stat UdpRx s"]
  by (auto simp: udp_handle_packet_def Let_def kept_refl split: option.split)

section \<open>ICMP\<close>

definition reply_eth :: "net \<Rightarrow> EthernetHeader \<Rightarrow> EthernetHeader" where
  "reply_eth s e = \<lparr>eth_dst = eth_src e, eth_src = g_my_mac s, ether_type = ether_type e\<rparr>"

text \<open>The IPv4 and ICMP headers of an echo reply, checksums included.\<close>

definition reply_ip :: "net \<Rightarrow> Ipv4Header \<Rightarrow> nat \<Rightarrow> Ipv4Header" where
  "reply_ip s ip k =
     (let h = ip\<lparr>tos := 0, ttl := 64, header_checksum := 0, src_ip := g_my_ip s, dst_ip := src_ip ip\<rparr>
      in h\<lparr>header_checksum := bswap16 (checksum16 (write_Ipv4Header h @ replicate (k - 20) 0))\<rparr>)"

definition reply_icmp :: "IcmpEchoHeader \<Rightarrow> bytes \<Rightarrow> IcmpEchoHeader" where
  "reply_icmp c payload =
     (let h = c\<lparr>icmp_type := ICMP_ECHO_REPLY, icmp_code := 0, icmp_checksum := 0\<rparr>
      in h\<lparr>icmp_checksum := bswap16 (checksum16 (write_IcmpEchoHeader h @ payload))\<rparr>)"

lemma wf_reply_headers:
  assumes "wf_identity s" and "length (eth_src e) = 6" and "length (src_ip ip) = 4"
  shows "wf_EthernetHeader (reply_eth s e)" and "wf_Ipv4Header (reply_ip s ip k)"
  using assms by (simp_all add: wf_EthernetHeader_def wf_Ipv4Header_def reply_eth_def reply_ip_def
      wf_identity_def Let_def)

lemma reply_checksums:
  assumes "wf_identity s" and "length (src_ip ip) = 4" and "k \<le> 60" and "length payload \<le> 60000"
  shows "checksum16 (write_Ipv4Header (reply_ip s ip k) @ replicate (k - 20) 0) = 0"
    and "checksum16 (write_IcmpEchoHeader (reply_icmp c payload) @ payload) = 0"
proof -
  let ?h = "ip\<lparr>tos := 0, ttl := 64, header_checksum := 0, src_ip := g_my_ip s, dst_ip := src_ip ip\<rparr>"
  have "wf_Ipv4Header ?h"
    using assms by (simp add: wf_Ipv4Header_def wf_identity_def)
  moreover have z: "?h\<lparr>header_checksum := 0\<rparr> = ?h"
    by (cases ip) simp
  ultimately have "checksum16 (write_Ipv4Header (?h\<lparr>header_checksum := bswap16 (checksum16
      (write_Ipv4Header ?h @ replicate (k - 20) 0))\<rparr>) @ replicate (k - 20) 0) = 0"
    using ipv4_checksum_filled [of ?h "replicate (k - 20) 0", unfolded z] assms(3) by simp
  then show "checksum16 (write_Ipv4Header (reply_ip s ip k) @ replicate (k - 20) 0) = 0"
    unfolding reply_ip_def Let_def .
  show "checksum16 (write_IcmpEchoHeader (reply_icmp c payload) @ payload) = 0"
    using icmp_checksum_filled [OF assms(4), of "c\<lparr>icmp_type := ICMP_ECHO_REPLY, icmp_code := 0\<rparr>"]
    by (simp add: reply_icmp_def Let_def)
qed

text \<open>Filling in the checksums once more changes nothing.\<close>

lemma reply_ip_refill:
  "(reply_ip s ip k)\<lparr>header_checksum := bswap16 (checksum16
     (write_Ipv4Header ((reply_ip s ip k)\<lparr>header_checksum := 0\<rparr>) @ replicate (k - 20) 0))\<rparr> = reply_ip s ip k"
proof -
  let ?h = "ip\<lparr>tos := 0, ttl := 64, header_checksum := 0, src_ip := g_my_ip s, dst_ip := src_ip ip\<rparr>"
  have "(reply_ip s ip k)\<lparr>header_checksum := 0\<rparr> = ?h"
    unfolding reply_ip_def Let_def by (cases ip) simp
  then show ?thesis
    unfolding reply_ip_def Let_def by (cases ip) simp
qed

lemma reply_icmp_refill:
  "(reply_icmp c payload)\<lparr>icmp_checksum := bswap16 (checksum16
     (write_IcmpEchoHeader ((reply_icmp c payload)\<lparr>icmp_checksum := 0\<rparr>) @ payload))\<rparr> = reply_icmp c payload"
proof -
  let ?h = "c\<lparr>icmp_type := ICMP_ECHO_REPLY, icmp_code := 0, icmp_checksum := 0\<rparr>"
  have "(reply_icmp c payload)\<lparr>icmp_checksum := 0\<rparr> = ?h"
    unfolding reply_icmp_def Let_def by (cases c) simp
  then show ?thesis
    unfolding reply_icmp_def Let_def by (cases c) simp
qed

text \<open>Overwriting a part of a buffer that is split at that part.\<close>

lemma store_at_split:
  assumes "length pre = off" and "length old = length bs"
  shows "store_at off bs (pre @ old @ post) = Inr (pre @ bs @ post)"
  using assms by (simp add: store_at_def write_at_def)

lemma icmp_reply_buffer_fits:
  assumes id: "wf_identity s" and e: "length (eth_src e) = 6" and ip: "length (src_ip ip) = 4"
    and k: "20 \<le> k" and fits: "14 + k + (8 + length payload) \<le> 1514"
  shows "icmp_reply_buffer payload e ip c k (8 + length payload) s =
    Inr (write_EthernetHeader (reply_eth s e) @ write_Ipv4Header (reply_ip s ip k) @
      replicate (k - 20) 0 @ write_IcmpEchoHeader (reply_icmp c payload) @ payload @
      replicate (1514 - (14 + k + (8 + length payload))) 0)"
proof -
  define R where "R = replicate (1514 - (14 + k + (8 + length payload))) (0::u8)"
  let ?opt = "replicate (k - 20) (0::u8)"
  define E where "E = write_EthernetHeader (reply_eth s e)"
  define I where "I = write_Ipv4Header ((reply_ip s ip k)\<lparr>header_checksum := 0\<rparr>)"
  define I1 where "I1 = write_Ipv4Header (reply_ip s ip k)"
  define C where "C = write_IcmpEchoHeader ((reply_icmp c payload)\<lparr>icmp_checksum := 0\<rparr>)"
  define C1 where "C1 = write_IcmpEchoHeader (reply_icmp c payload)"
  note wf = wf_reply_headers(1) [OF id e ip] wf_reply_headers(2) [OF id e ip, of k]
  have len: "length E = 14" "length I = 20" "length I1 = 20" "length C = 8" "length C1 = 8"
    using wf by (simp_all add: E_def I_def I1_def C_def C1_def length_write_headers wf_Ipv4Header_def)
  have my: "length (g_my_mac s) = 6" "length (g_my_ip s) = 4"
    using id by (simp_all add: wf_identity_def)
  have heads: "copy_eth_header_reply s zero_eth e = reply_eth s e"
    "copy_ip_header_basic s zero_ip ip = (reply_ip s ip k)\<lparr>header_checksum := 0\<rparr>"
    "copy_icmp_echo_reply zero_icmp c = (reply_icmp c payload)\<lparr>icmp_checksum := 0\<rparr>"
    using my e ip by (simp_all add: copy_eth_header_reply_def reply_eth_def copy_ip_header_basic_def
        reply_ip_def copy_icmp_echo_reply_def reply_icmp_def Let_def)
  have zeros: "replicate 1514 (0::u8) = replicate 14 0 @ replicate 20 0 @ ?opt @ replicate 8 0 @
      replicate (length payload) 0 @ R"
    using k fits by (simp add: R_def replicate_add [symmetric])
  have b1: "store_at 0 E (replicate 1514 0) =
      Inr (E @ replicate 20 0 @ ?opt @ replicate 8 0 @ replicate (length payload) 0 @ R)"
    unfolding zeros using store_at_split [of "[]" 0 "replicate 14 0" E] len by simp
  have b2: "store_at 14 I (E @ replicate 20 0 @ ?opt @ replicate 8 0 @ replicate (length payload) 0 @ R) =
      Inr (E @ I @ ?opt @ replicate 8 0 @ replicate (length payload) 0 @ R)"
    using store_at_split [of E 14 "replicate 20 0" I] len by simp
  have b3: "store_at (14 + k) C (E @ I @ ?opt @ replicate 8 0 @ replicate (length payload) 0 @ R) =
      Inr (E @ I @ ?opt @ C @ replicate (length payload) 0 @ R)"
    using store_at_split [of "E @ I @ ?opt" "14 + k" "replicate 8 0" C] len k by simp
  have b4: "store_at (22 + k) payload (E @ I @ ?opt @ C @ replicate (length payload) 0 @ R) =
      Inr (E @ I @ ?opt @ C @ payload @ R)"
    using store_at_split [of "E @ I @ ?opt @ C" "22 + k" "replicate (length payload) 0" payload] len k by simp
  have s4: "segment 14 k (E @ I @ ?opt @ C @ payload @ R) = I @ ?opt"
    using len k by (simp add: segment_def)
  have i1: "write_Ipv4Header ((reply_ip s ip k)\<lparr>header_checksum := bswap16 (checksum16 (I @ ?opt))\<rparr>) = I1"
    unfolding I_def I1_def by (subst reply_ip_refill) simp
  have b5: "store_at 14 I1 (E @ I @ ?opt @ C @ payload @ R) = Inr (E @ I1 @ ?opt @ C @ payload @ R)"
    using store_at_split [of E 14 I I1] len by simp
  have s5: "segment (14 + k) (8 + length payload) (E @ I1 @ ?opt @ C @ payload @ R) = C @ payload"
    using len k by (simp add: segment_def)
  have c1: "write_IcmpEchoHeader ((reply_icmp c payload)\<lparr>icmp_checksum := bswap16 (checksum16 (C @ payload))\<rparr>) = C1"
    unfolding C_def C1_def by (subst reply_icmp_refill) simp
  have b6: "store_at (14 + k) C1 (E @ I1 @ ?opt @ C @ payload @ R) =
      Inr (E @ I1 @ ?opt @ C1 @ payload @ R)"
    using store_at_split [of "E @ I1 @ ?opt" "14 + k" C C1] len k by simp
  show ?thesis
    unfolding icmp_reply_buffer_def Let_def sizeof_defs heads R_def [symmetric]
    by (simp add: E_def [symmetric] I_def [symmetric] C_def [symmetric] b1 b2 b3 b4 s4 i1 b5 s5 c1 b6
        I1_def [symmetric] C1_def [symmetric])
qed

text \<open>A longer reply runs past the buffer.\<close>

lemma icmp_reply_buffer_overflow:
  assumes id: "wf_identity s" and e: "length (eth_src e) = 6" and ip: "length (src_ip ip) = 4"
    and k: "20 \<le> k" "k \<le> 60" and big: "1514 < 14 + k + (8 + length payload)"
  shows "icmp_reply_buffer payload e ip c k (8 + length payload) s = Inl OutOfBounds"
proof -
  have my: "length (g_my_mac s) = 6" "length (g_my_ip s) = 4"
    using id by (simp_all add: wf_identity_def)
  have heads: "copy_eth_header_reply s zero_eth e = reply_eth s e"
    "copy_ip_header_basic s zero_ip ip = (reply_ip s ip k)\<lparr>header_checksum := 0\<rparr>"
    using my e ip by (simp_all add: copy_eth_header_reply_def reply_eth_def copy_ip_header_basic_def
        reply_ip_def Let_def)
  note wf = wf_reply_headers(1) [OF id e ip] wf_reply_headers(2) [OF id e ip, of k]
  have len: "length (write_EthernetHeader (reply_eth s e)) = 14"
    "length (write_Ipv4Header ((reply_ip s ip k)\<lparr>header_checksum := 0\<rparr>)) = 20"
    using wf by (simp_all add: length_write_headers wf_Ipv4Header_def)
  show ?thesis
    unfolding icmp_reply_buffer_def Let_def sizeof_defs heads
    using len k big by (simp add: store_at_def length_write_headers)
qed


text \<open>What the responder answers, for any header length and any payload that fits.\<close>

definition echo_reply_frame :: "net \<Rightarrow> EthernetHeader \<Rightarrow> Ipv4Header \<Rightarrow> IcmpEchoHeader \<Rightarrow> nat \<Rightarrow> bytes \<Rightarrow> bytes" where
  "echo_reply_frame s e ip c k payload =
     write_EthernetHeader (reply_eth s e) @ write_Ipv4Header (reply_ip s ip k) @ replicate (k - 20) 0 @
     write_IcmpEchoHeader (reply_icmp c payload) @ payload"

lemma length_echo_reply_frame:
  assumes "wf_identity s" and "length (eth_src e) = 6" and "length (src_ip ip) = 4" and "20 \<le> k"
  shows "length (echo_reply_frame s e ip c k payload) = 14 + k + (8 + length payload)"
  using wf_reply_headers [OF assms(1-3)] assms(4)
  by (simp add: echo_reply_frame_def length_write_headers)

lemma reply_parts_stat [simp]:
  "reply_eth (stat c s) = reply_eth s" "reply_ip (stat c s) = reply_ip s"
  "echo_reply_frame (stat c s) = echo_reply_frame s" "wf_identity (stat c s) = wf_identity s"
  by (rule ext, simp add: reply_eth_def)
    (intro ext, simp add: reply_ip_def,
     intro ext, simp add: echo_reply_frame_def reply_eth_def reply_ip_def,
     simp add: wf_identity_def)

lemma ipv4_header_length_le: "ipv4_header_length h \<le> 60"
proof -
  have "version_ihl h AND 0x0F \<le> 0x0F"
    by (rule word_and_le1)
  then show ?thesis
    by (simp add: ipv4_header_length_def word_le_nat_alt)
qed

lemma wf_frame_headers:
  assumes "34 \<le> length data"
  shows "length (eth_src (read_EthernetHeader data)) = 6"
    and "length (src_ip (read_Ipv4Header (drop 14 data))) = 4"
  using assms ethernet.wf_decode [of data] ipv4.wf_decode [of "drop 14 data"]
  by (simp_all add: sizeof_defs wf_EthernetHeader_def wf_Ipv4Header_def)

lemma handle_icmp_echo:
  fixes data :: bytes and t :: nat
  defines "e \<equiv> read_EthernetHeader data" and "ip \<equiv> read_Ipv4Header (drop 14 data)"
  defines "k \<equiv> ipv4_header_length ip"
  defines "c \<equiv> read_IcmpEchoHeader (drop (14 + k) data)"
  defines "payload \<equiv> segment (22 + k) (t - k - 8) data"
  assumes inv: "net_inv s" and k: "20 \<le> k" and t: "k + 8 \<le> t" "14 + t \<le> length data"
    and echo: "icmp_type c = ICMP_ECHO_REQUEST" "checksum16 (segment (14 + k) (t - k) data) = 0"
  shows "1514 < 14 + t \<Longrightarrow> handle_icmp data k t s = Inl OutOfBounds"
    and "14 + t \<le> 1514 \<Longrightarrow> \<exists>n. handle_icmp data k t s =
        Inr (stat IcmpTx (stat Ipv4Tx ((stat IcmpRx s)\<lparr>net_nic := n\<rparr>))) \<and>
      kept s ((stat IcmpRx s)\<lparr>net_nic := n\<rparr>) \<and>
      g_stats n = net_stats_increment RawTx (stats (stat IcmpRx s)) \<and>
      last_tx ((stat IcmpRx s)\<lparr>net_nic := n\<rparr>) = echo_reply_frame s e ip c k payload"
proof -
  have id: "wf_identity (stat IcmpRx s)"
    using inv by (simp add: net_inv_def)
  have "34 \<le> length data"
    using k t by simp
  note wf = wf_frame_headers [OF this, folded e_def ip_def]
  have len: "length payload = t - k - 8"
    using t k by (simp add: payload_def segment_def)
  then have il: "t - k = 8 + length payload" and pl: "8 + length payload - 8 = length payload"
    using t by simp_all
  have seg: "segment (22 + k) (length payload) data = payload"
    unfolding len by (simp add: payload_def)
  have off: "icmp_offset ip = 14 + k"
    by (simp add: icmp_offset_def k_def sizeof_defs)
  have ops: "ICMP_ECHO_REQUEST \<noteq> ICMP_ECHO_REPLY"
    by (simp add: packet_constants)
  have eq: "handle_icmp data k t s =
      bind_outcome (icmp_reply_buffer payload e ip c k (8 + length payload) (stat IcmpRx s)) (\<lambda>reply.
        case send_raw reply (14 + k + (8 + length payload)) (stat IcmpRx s) of
          (True, s2) \<Rightarrow> Inr (stat IcmpTx (stat Ipv4Tx s2)) | (False, s2) \<Rightarrow> Inr s2)"
    using t echo unfolding handle_icmp_def Let_def sizeof_defs
      e_def [symmetric] ip_def [symmetric] off c_def [symmetric] il
    by (simp add: seg)
  have tot: "14 + k + (8 + length payload) = 14 + t"
    using il k t by simp
  show "handle_icmp data k t s = Inl OutOfBounds" if "1514 < 14 + t"
    using icmp_reply_buffer_overflow [OF id wf k ipv4_header_length_le [of ip, folded k_def], of payload c]
      that tot by (simp add: eq)
  assume fits: "14 + t \<le> 1514"
  let ?s = "stat IcmpRx s" and ?f = "echo_reply_frame s e ip c k payload"
  let ?b = "?f @ replicate (1514 - (14 + k + (8 + length payload))) 0"
  have buf: "icmp_reply_buffer payload e ip c k (8 + length payload) ?s = Inr ?b"
    using icmp_reply_buffer_fits [OF id wf k, of payload c] fits tot by (simp add: echo_reply_frame_def)
  have lf: "length ?f = 14 + t"
    using length_echo_reply_frame [OF id wf k, of c payload] tot by simp
  obtain n where "send_raw ?b (14 + t) ?s = (True, ?s\<lparr>net_nic := n\<rparr>)" "kept ?s (?s\<lparr>net_nic := n\<rparr>)"
    "last_tx (?s\<lparr>net_nic := n\<rparr>) = take (14 + t) ?b" "g_stats n = net_stats_increment RawTx (stats ?s)"
    using send_raw_fake [of ?s "14 + t" ?b] inv fits lf by auto
  then show "\<exists>n. handle_icmp data k t s = Inr (stat IcmpTx (stat Ipv4Tx (?s\<lparr>net_nic := n\<rparr>))) \<and>
      kept s (?s\<lparr>net_nic := n\<rparr>) \<and> g_stats n = net_stats_increment RawTx (stats ?s) \<and>
      last_tx (?s\<lparr>net_nic := n\<rparr>) = ?f"
    using lf by (intro exI [of _ n]) (simp add: eq buf tot)
qed

section \<open>Every frame\<close>

definition safe_outcome :: "net \<Rightarrow> nat \<Rightarrow> net outcome \<Rightarrow> bool" where
  "safe_outcome s len r =
     (case r of Inr s' \<Rightarrow> kept s s' | Inl f \<Rightarrow> f = OutOfBounds \<and> 1514 < len)"

lemma safe_outcome_Inr [simp]: "safe_outcome s len (Inr s') = kept s s'"
  by (simp add: safe_outcome_def)

lemma safe_outcome_stat [simp]: "safe_outcome (stat c s) len r = safe_outcome s len r"
  by (simp add: safe_outcome_def split: sum.split)

lemma handle_icmp_safe:
  assumes inv: "net_inv s" and k: "k = ipv4_header_length (read_Ipv4Header (drop 14 data))" "20 \<le> k"
    and t: "k \<le> t" "14 + t \<le> length data"
  shows "safe_outcome s (length data) (handle_icmp data k t s)"
proof (cases "k + 8 \<le> t \<and> icmp_type (read_IcmpEchoHeader (drop (14 + k) data)) = ICMP_ECHO_REQUEST \<and>
    checksum16 (segment (14 + k) (t - k) data) = 0")
  case False
  then show ?thesis
    using inv k(1) by (auto simp: handle_icmp_def Let_def sizeof_defs icmp_offset_def kept_refl)
next
  case True
  note h = handle_icmp_echo [OF inv, of data t]
  show ?thesis
  proof (cases "14 + t \<le> 1514")
    case True
    then obtain n where "handle_icmp data k t s =
        Inr (stat IcmpTx (stat Ipv4Tx ((stat IcmpRx s)\<lparr>net_nic := n\<rparr>)))" "kept s ((stat IcmpRx s)\<lparr>net_nic := n\<rparr>)"
      using h(2) \<open>k + 8 \<le> t \<and> _\<close> k t by auto
    then show ?thesis by simp
  next
    case big: False
    then have "handle_icmp data k t s = Inl OutOfBounds"
      using h(1) True k t by auto
    then show ?thesis
      using big t by (simp add: safe_outcome_def)
  qed
qed

lemma handle_ipv4_safe:
  assumes inv: "net_inv s"
  shows "safe_outcome s (length data) (handle_ipv4 data s)"
  using inv handle_icmp_safe [of "stat Ipv4Rx s" _ data] udp_handle_inv [of "stat Ipv4Rx s"]
  by (auto simp: handle_ipv4_def Let_def sizeof_defs kept_refl)

lemma net_handle_frame_safe:
  assumes "net_inv s"
  shows "safe_outcome s (length data) (net_handle_frame data s)"
  using assms handle_arp_inv [OF assms] handle_ipv4_safe [OF assms]
  by (simp add: net_handle_frame_def Let_def kept_refl)

end
