(* ===== verification/Net_Run.thy ===== *)
theory Net_Run
  imports Net_Inv
begin

text \<open>
  Runs of the stack: the operations its users call, as the steps of a machine, and what every
  sequence of them keeps. A pointer argument is either null or points to as many bytes as the
  function reads.
\<close>

section \<open>The poll step\<close>

lemma net_poll_once_recv:
  assumes "fake_inv (net_nic s)"
  shows "net_poll_once s =
    (case recv_frame (net_nic s) of
       (None, n) \<Rightarrow> Inr (False, s\<lparr>net_nic := n\<rparr>)
     | (Some f, n) \<Rightarrow> bind_outcome (net_handle_frame f (s\<lparr>net_nic := n\<rparr>)) (\<lambda>s2. Inr (True, s2)))"
proof (cases "rx_queue s")
  case Nil
  then have "rx_count (g_net (net_nic s)) = 0"
    using length_rx_frames [of "g_net (net_nic s)"] by simp
  then have "net_recv_raw (Some (replicate 2048 0)) 2048 (net_nic s) = Inr (0, Some (replicate 2048 0), net_nic s)"
    using assms by (simp add: net_recv_raw_def backend_ready_locked_def fake_inv_def fake_recv_locked_def
        rx_count_def in_ring_0_iff)
  then show ?thesis
    using recv_frame_empty [OF assms Nil]
    by (simp add: net_poll_once_def VIRTIO_NET_MAX_FRAME_SIZE_def)
next
  case (Cons f fs)
  obtain n where r: "recv_frame (net_nic s) = (Some f, n)"
    using recv_frame_head(1) [OF assms Cons] by blast
  then obtain len out where "net_recv_raw (Some (replicate VIRTIO_NET_MAX_FRAME_SIZE 0))
      VIRTIO_NET_MAX_FRAME_SIZE (net_nic s) = Inr (len, Some out, n)" "0 < len" "f = take (nat len) out"
    by (auto simp: recv_frame_def split: sum.splits option.splits if_splits)
  with r show ?thesis
    by (simp add: net_poll_once_def)
qed

lemma poll_empty: "net_inv s \<Longrightarrow> rx_queue s = [] \<Longrightarrow> net_poll_once s = Inr (False, s)"
  using net_poll_once_recv [of s] recv_frame_empty [of "net_nic s"] by (simp add: net_inv_def)

lemma poll_head:
  assumes inv: "net_inv s" and q: "rx_queue s = f # fs"
  shows "\<exists>n. net_poll_once s = bind_outcome (net_handle_frame f (s\<lparr>net_nic := n\<rparr>)) (\<lambda>s2. Inr (True, s2)) \<and>
    net_inv (s\<lparr>net_nic := n\<rparr>) \<and> rx_frames (g_net n) = fs \<and>
    g_stats n = net_stats_increment RawRx (stats s)"
proof -
  have f: "fake_inv (net_nic s)"
    using inv by (simp add: net_inv_def)
  note h = recv_frame_head [OF f q]
  let ?n = "count_stat RawRx ((net_nic s)\<lparr>g_net := recycle_rx (elem_slot (rx_elem (g_net (net_nic s)) 0))
      (g_net (net_nic s))\<rparr>)"
  have "fake_inv ?n"
    using h(2) f by (simp add: fake_inv_def count_stat_def)
  then have "net_inv (s\<lparr>net_nic := ?n\<rparr>)"
    using inv by (simp add: net_inv_def wf_identity_def)
  moreover have "net_poll_once s = bind_outcome (net_handle_frame f (s\<lparr>net_nic := ?n\<rparr>)) (\<lambda>s2. Inr (True, s2))"
    using net_poll_once_recv [OF f] h(1) by simp
  ultimately show ?thesis
    using h(3) by (intro exI [of _ ?n]) (simp add: count_stat_def)
qed

section \<open>Operations and runs\<close>

datatype net_op =
    Inject bytes
  | Poll
  | Send_Arp pointer
  | Send_Udp pointer u16 u16 pointer nat
  | Register u16 "UdpHandler option"
  | Clear_Handlers
  | Reset_Arp
  | Chat_Send pointer pointer
  | Chat_Poll
  | Chat_Recv pointer nat

fun net_step :: "net_op \<Rightarrow> net \<Rightarrow> net outcome" where
  "net_step (Inject f) s = Inr (s\<lparr>net_nic := snd (inject_rx (Some f) (length f) (net_nic s))\<rparr>)"
| "net_step Poll s = bind_outcome (net_poll_once s) (\<lambda>(_, s1). Inr s1)"
| "net_step (Send_Arp ip) s = Inr (snd (net_send_arp_request ip s))"
| "net_step (Send_Udp ip sp dp p n) s = Inr (snd (udp_send_to ip sp dp p n s))"
| "net_step (Register port h) s = Inr (s\<lparr>g_udp_handlers := snd (udp_register_handler port h (g_udp_handlers s))\<rparr>)"
| "net_step Clear_Handlers s = Inr (s\<lparr>g_udp_handlers := udp_clear_handlers (g_udp_handlers s)\<rparr>)"
| "net_step Reset_Arp s = Inr (s\<lparr>net_arp := arp_cache_reset (net_arp s)\<rparr>)"
| "net_step (Chat_Send ip str) s = Inr (snd (net_chat_send ip str s))"
| "net_step Chat_Poll s = bind_outcome (net_chat_poll s) (\<lambda>(_, s1). Inr s1)"
| "net_step (Chat_Recv out k) s = Inr (s\<lparr>net_chat := snd (snd (net_chat_recv out k (net_chat s)))\<rparr>)"

fun net_run :: "net_op list \<Rightarrow> net \<Rightarrow> net outcome" where
  "net_run [] s = Inr s"
| "net_run (c # cs) s = bind_outcome (net_step c s) (net_run cs)"

text \<open>Arguments as the signatures require them; frames of at most the size of an Ethernet frame.\<close>

definition ip_pointer :: "pointer \<Rightarrow> bool" where
  "ip_pointer p \<longleftrightarrow> (case p of None \<Rightarrow> True | Some ip \<Rightarrow> length ip = 4)"

definition covers :: "nat \<Rightarrow> pointer \<Rightarrow> bool" where
  "covers n p \<longleftrightarrow> (case p of None \<Rightarrow> True | Some bs \<Rightarrow> n \<le> length bs)"

fun wf_op :: "net_op \<Rightarrow> bool" where
  "wf_op (Inject f) = (length f \<le> 1514)"
| "wf_op (Send_Arp ip) = ip_pointer ip"
| "wf_op (Send_Udp ip _ _ p n) = (ip_pointer ip \<and> covers n p)"
| "wf_op (Chat_Send ip str) = (ip_pointer ip \<and> (case str of None \<Rightarrow> True | Some bs \<Rightarrow> terminated bs))"
| "wf_op (Chat_Recv out k) = covers k out"
| "wf_op _ = True"

definition run_inv :: "net \<Rightarrow> bool" where
  "run_inv s \<longleftrightarrow> net_inv s \<and> (\<forall>f \<in> set (rx_queue s). length f \<le> 1514)"

lemma run_inv_kept: "run_inv s \<Longrightarrow> kept s s' \<Longrightarrow> run_inv s'"
  by (simp add: run_inv_def kept_def)

section \<open>What each operation keeps\<close>

lemma kept_arp: "net_inv s \<Longrightarrow> arp_inv c \<Longrightarrow> kept s (s\<lparr>net_arp := c\<rparr>)"
  and kept_udp: "net_inv s \<Longrightarrow> udp_inv t \<Longrightarrow> kept s (s\<lparr>g_udp_handlers := t\<rparr>)"
  and kept_chat: "net_inv s \<Longrightarrow> chat_inv m \<Longrightarrow> kept s (s\<lparr>net_chat := m\<rparr>)"
  by (simp_all add: kept_def net_inv_def wf_identity_def)

lemma net_send_arp_request_kept:
  assumes "net_inv s" and "ip_pointer ip"
  shows "kept s (snd (net_send_arp_request ip s))"
proof (cases ip)
  case None
  then show ?thesis using assms by (simp add: net_send_arp_request_def kept_refl)
next
  case (Some a)
  then have "length a = 4"
    using assms(2) by (simp add: ip_pointer_def)
  then have "length (arp_request_frame a s) = 42"
    using assms(1) arp_request_frame_eq [of s a]
    by (simp add: length_write_headers wf_eth_header wf_arp_packet broadcast_mac_def net_inv_def wf_identity_def)
  then obtain n where "send_raw (arp_request_frame a s) 42 s = (True, s\<lparr>net_nic := n\<rparr>)" "kept s (s\<lparr>net_nic := n\<rparr>)"
    using send_raw_fake [OF assms(1), of 42 "arp_request_frame a s"] by auto
  then show ?thesis
    using Some \<open>length (arp_request_frame a s) = 42\<close> by (simp add: net_send_arp_request_def)
qed

lemma net_send_ipv4_kept:
  assumes inv: "net_inv s" and ip: "ip_pointer ip" and p: "covers n p"
  shows "kept s (snd (net_send_ipv4 ip proto p n s))"
proof (cases "ip = None \<or> p = None \<and> n \<noteq> 0 \<or> 2014 < n")
  case True
  then show ?thesis
    using inv by (cases ip) (auto simp: net_send_ipv4_def sizeof_defs VIRTIO_NET_MAX_FRAME_SIZE_def Let_def kept_refl)
next
  case False
  then obtain dst where dst: "ip = Some dst" "length dst = 4"
    using ip by (auto simp: ip_pointer_def)
  let ?q = "case p of None \<Rightarrow> [] | Some q \<Rightarrow> q"
  have q: "n \<le> length ?q" and nn: "\<not> (p = None \<and> n \<noteq> 0)" and n: "n \<le> 2014"
    using False p by (auto simp: covers_def split: option.splits)
  have ainv: "arp_inv (net_arp s)" and id: "wf_identity s"
    using inv by (simp_all add: net_inv_def)
  obtain r arp1 where l: "arp_cache_lookup (Some dst) (Some (replicate 6 0)) (net_arp s) = (r, arp1)"
    by (rule prod.exhaust)
  have arp1: "arp_inv arp1"
    using arp_cache_lookup_inv [OF ainv dst(2), of "replicate 6 0"] l by simp
  define s1 where "s1 = s\<lparr>net_arp := arp1\<rparr>"
  have k1: "kept s s1"
    using kept_arp [OF inv arp1] by (simp add: s1_def)
  then have inv1: "net_inv s1"
    by (simp add: kept_def)
  show ?thesis
  proof (cases r)
    case None
    then show ?thesis
      using net_send_arp_request_kept [OF inv1 ip] k1 n nn dst
      by (auto simp: net_send_ipv4_def sizeof_defs VIRTIO_NET_MAX_FRAME_SIZE_def Let_def l s1_def [symmetric]
          intro: kept_trans)
  next
    case (Some mac)
    then have "length mac = 6"
      using arp_cache_lookup_result [OF ainv dst(2), of "replicate 6 0"] l arp_map_mac [OF ainv dst(2)] by simp
    then have "length (ipv4_frame mac dst proto ?q n s1) = 2048"
      using ipv4_frame_eq(2) [of s1 mac dst n ?q proto] inv1 dst(2) q n by (simp add: net_inv_def)
    then obtain nic where "send_raw (ipv4_frame mac dst proto ?q n s1) (34 + n) s1 = (True, s1\<lparr>net_nic := nic\<rparr>)"
      "kept s1 (s1\<lparr>net_nic := nic\<rparr>)"
      using send_raw_fake [OF inv1, of "34 + n" "ipv4_frame mac dst proto ?q n s1"] n by auto
    then show ?thesis
      using k1 n nn dst Some
      by (auto simp: net_send_ipv4_def sizeof_defs VIRTIO_NET_MAX_FRAME_SIZE_def Let_def l s1_def [symmetric]
          intro: kept_trans)
  qed
qed

lemma udp_send_to_kept:
  assumes inv: "net_inv s" and "ip_pointer ip" and "covers n p"
  shows "kept s (snd (udp_send_to ip sp dp p n s))"
proof (cases "p = None \<and> n \<noteq> 0 \<or> 1472 < n")
  case True
  then show ?thesis
    using inv by (auto simp: udp_send_to_def kept_refl)
next
  case False
  let ?q = "case p of None \<Rightarrow> [] | Some q \<Rightarrow> q"
  let ?d = "udp_datagram sp dp ?q n"
  have "n \<le> length ?q"
    using False assms(3) by (auto simp: covers_def split: option.splits)
  then have "covers (8 + n) (Some ?d)"
    using udp_datagram_eq(2) [of n ?q sp dp] False by (simp add: covers_def)
  note k = net_send_ipv4_kept [OF inv assms(2) this, of IPV4_PROTO_UDP]
  then show ?thesis
    using inv by (auto simp: udp_send_to_def sizeof_defs Let_def kept_refl case_prod_beta split: bool.split)
qed

lemma net_chat_init_kept: "net_inv s \<Longrightarrow> kept s (snd (net_chat_init s))"
  using udp_register(1) [of "g_udp_handlers s", OF _ prod.collapse [symmetric], of NET_CHAT_PORT "Some Chat_Handler"]
    kept_udp [of s]
  by (simp add: net_chat_init_def case_prod_beta net_inv_def)

lemma net_chat_send_kept:
  assumes inv: "net_inv s" and ip: "ip_pointer ip" and t: "\<And>bs. str = Some bs \<Longrightarrow> terminated bs"
  shows "kept s (snd (net_chat_send ip str s))"
proof (cases "ip = None \<or> str = None")
  case True
  then show ?thesis using inv by (auto simp: net_chat_send_def kept_refl)
next
  case False
  then obtain bs where bs: "str = Some bs" "ip \<noteq> None"
    by auto
  obtain ok s1 where i: "net_chat_init s = (ok, s1)" and k1: "kept s s1"
    using net_chat_init_kept [OF inv] by (cases "net_chat_init s") simp
  then have inv1: "net_inv s1"
    by (simp add: kept_def)
  let ?n = "min 127 (length (cstr bs))"
  let ?o = "map sanitize_char (take 127 (cstr bs)) @ 0 # drop (Suc ?n) (replicate 128 0)"
  have "sanitize_cstr (Some (replicate NET_CHAT_TEXT_SIZE 0)) str = (?n, Some ?o)"
    using sanitize_cstr_eq [OF t [OF bs(1)], of "replicate NET_CHAT_TEXT_SIZE 0"] bs(1)
    by (simp add: NET_CHAT_TEXT_SIZE_def)
  moreover have "kept s1 (snd (udp_send_to ip NET_CHAT_PORT NET_CHAT_PORT (Some ?o) ?n s1))"
    by (rule udp_send_to_kept [OF inv1 ip]) (simp add: covers_def)
  ultimately show ?thesis
    using bs i k1 by (auto simp: net_chat_send_def intro: kept_trans split: bool.split)
qed

lemma net_chat_recv_inv:
  assumes "chat_inv c"
  shows "chat_inv (snd (snd (net_chat_recv out k c)))"
proof -
  have "chat_inv (c\<lparr>g_inbox := (g_inbox c)[unat (g_inbox_read c) := empty_message],
      g_inbox_read := ring_next (g_inbox_read c), g_inbox_count := g_inbox_count c - 1\<rparr>)" if ne: "g_inbox_count c \<noteq> 0"
  proof -
    obtain m where m: "unat (g_inbox_count c) = Suc m"
      using ne by (metis not0_implies_Suc unat_eq_zero)
    then show ?thesis
      using assms unat_pred8 [OF m] by (simp add: chat_inv_def unat_ring_next) presburger
  qed
  then show ?thesis
    using assms by (auto simp: net_chat_recv_def Let_def case_prod_beta split: option.split)
qed

lemma inject_run_inv:
  assumes inv: "run_inv s" and f: "length f \<le> 1514"
  shows "run_inv (s\<lparr>net_nic := snd (inject_rx (Some f) (length f) (net_nic s))\<rparr>)"
proof -
  have fi: "fake_inv (net_nic s)" and rx: "rx_inv (g_net (net_nic s))" and ninv: "net_inv s"
    using inv by (simp_all add: run_inv_def net_inv_def fake_inv_def)
  have "rx_count (g_net (net_nic s)) \<le> 8"
    using rx by (simp add: rx_inv_def)
  then consider "length f = 0" | "rx_count (g_net (net_nic s)) = 8" | "frame_ok f" "length (rx_queue s) < 8"
    using f by (cases "length f = 0") (auto simp: frame_ok_def VIRTIO_NET_MAX_FRAME_SIZE_def le_less)
  then show ?thesis
  proof cases
    case 3
    then obtain n' where "inject_rx (Some f) (length f) (net_nic s) = (True, n')" "fake_inv n'"
      "rx_frames (g_net n') = rx_queue s @ [f]"
      using inject_rx_room [OF fi] by auto
    then show ?thesis
      using inv f by (auto simp: run_inv_def net_inv_def wf_identity_def)
  next
    case 2
    then show ?thesis
      using inv inject_full [OF rx, of "Some f"] by (simp add: inject_rx_def)
  next
    case 1
    then show ?thesis
      using inv by (simp add: inject_rx_def net_fake_inject_rx_def)
  qed
qed

lemma poll_run_inv:
  assumes inv: "run_inv s"
  shows "\<exists>b s'. net_poll_once s = Inr (b, s') \<and> run_inv s'"
proof (cases "rx_queue s")
  case Nil
  then show ?thesis
    using poll_empty [of s] inv by (auto simp: run_inv_def)
next
  case (Cons f fs)
  then obtain n where n: "net_poll_once s = bind_outcome (net_handle_frame f (s\<lparr>net_nic := n\<rparr>)) (\<lambda>s2. Inr (True, s2))"
    "net_inv (s\<lparr>net_nic := n\<rparr>)" "rx_frames (g_net n) = fs"
    using poll_head [of s] inv by (auto simp: run_inv_def)
  have r: "run_inv (s\<lparr>net_nic := n\<rparr>)" and f: "length f \<le> 1514"
    using n inv Cons by (simp_all add: run_inv_def)
  then obtain s' where "net_handle_frame f (s\<lparr>net_nic := n\<rparr>) = Inr s'" "kept (s\<lparr>net_nic := n\<rparr>) s'"
    using net_handle_frame_safe [OF n(2), of f] by (auto simp: safe_outcome_def split: sum.splits)
  then show ?thesis
    using n(1) run_inv_kept [OF r] by auto
qed

lemma chat_poll_run_inv:
  assumes inv: "run_inv s"
  shows "\<exists>b s'. net_chat_poll s = Inr (b, s') \<and> run_inv s'"
proof -
  obtain ok s1 where i: "net_chat_init s = (ok, s1)" and "kept s s1"
    using net_chat_init_kept [of s] inv by (cases "net_chat_init s") (simp add: run_inv_def)
  then show ?thesis
    using poll_run_inv [OF run_inv_kept [OF inv]] run_inv_kept [OF inv]
    by (cases ok) (auto simp: net_chat_poll_def)
qed

lemma net_step_inv:
  assumes inv: "run_inv s" and wf: "wf_op c"
  shows "\<exists>s'. net_step c s = Inr s' \<and> run_inv s'"
proof -
  have ninv: "net_inv s"
    using inv by (simp add: run_inv_def)
  then have parts: "arp_inv (net_arp s)" "udp_inv (g_udp_handlers s)" "chat_inv (net_chat s)"
    by (simp_all add: net_inv_def)
  note keep = run_inv_kept [OF inv]
  show ?thesis
  proof (cases c)
    case (Register port h)
    then show ?thesis
      using keep [OF kept_udp [OF ninv udp_register(1) [OF parts(2) prod.collapse [symmetric]]]] by simp
  next
    case Clear_Handlers
    have "udp_inv (udp_clear_handlers (g_udp_handlers s))"
      using parts(2) udp_clear_eq [of "g_udp_handlers s"] udp_inv_clear by (simp add: udp_inv_def)
    then show ?thesis
      using Clear_Handlers keep [OF kept_udp [OF ninv]] by simp
  next
    case Reset_Arp
    have "arp_inv (arp_cache_reset (net_arp s))"
      using arp_cache_reset_eq [of "net_arp s"] arp_reset_inv parts(1) by simp
    then show ?thesis
      using Reset_Arp keep [OF kept_arp [OF ninv]] by simp
  next
    case Poll
    then show ?thesis using poll_run_inv [OF inv] by auto
  next
    case Chat_Poll
    then show ?thesis using chat_poll_run_inv [OF inv] by auto
  next
    case (Chat_Send ip str)
    then have "ip_pointer ip" "\<And>bs. str = Some bs \<Longrightarrow> terminated bs"
      using wf by auto
    then show ?thesis
      using keep [OF net_chat_send_kept [OF ninv]] Chat_Send by auto
  next
    case (Chat_Recv out k)
    then show ?thesis
      using keep [OF kept_chat [OF ninv net_chat_recv_inv [OF parts(3)]]] by simp
  qed (use wf inject_run_inv [OF inv] keep [OF net_send_arp_request_kept [OF ninv]]
      keep [OF udp_send_to_kept [OF ninv]] in auto)
qed

lemma net_run_inv:
  "run_inv s \<Longrightarrow> list_all wf_op cs \<Longrightarrow> \<exists>s'. net_run cs s = Inr s' \<and> run_inv s'"
proof (induction cs arbitrary: s)
  case (Cons c cs)
  then obtain s1 where "net_step c s = Inr s1" "run_inv s1"
    using net_step_inv [of s c] by auto
  with Cons show ?case by simp
qed simp

end
