(* ===== verification/Hosts.thy ===== *)
theory Hosts
  imports Net_Run
begin

text \<open>
  Hosts on one link: the state of a freshly started host on the fake backend, the frames a remote
  sender puts on the wire, and what the receiver makes of them. The theorems of the root theory
  compose these lemmas.
\<close>

section \<open>A freshly started host\<close>

definition host :: "bytes \<Rightarrow> bytes \<Rightarrow> net" where
  "host mac ip = net_set_identity (Some mac) (Some ip)
     \<lparr>g_my_mac = replicate 6 0, g_my_ip = replicate 4 0, net_nic = net_init_fake boot_nic,
      net_arp = \<lparr>g_arp_cache = replicate 8 empty_entry, g_arp_cache_clock = 0\<rparr>,
      g_udp_handlers = replicate 8 empty_handler_entry, net_chat = boot_chat, handler_calls = []\<rparr>"

lemma boot_chat_inv: "chat_inv boot_chat" "unread boot_chat = []"
  by (simp_all add: chat_inv_def boot_chat_def unread_def)

lemma host_fields:
  assumes "length mac = 6" and "length ip = 4"
  shows "g_my_mac (host mac ip) = mac" "g_my_ip (host mac ip) = ip"
    "net_nic (host mac ip) = net_init_fake boot_nic" "net_chat (host mac ip) = boot_chat"
    "g_udp_handlers (host mac ip) = replicate 8 empty_handler_entry"
    "net_arp (host mac ip) = \<lparr>g_arp_cache = replicate 8 empty_entry, g_arp_cache_clock = 0\<rparr>"
    "handler_calls (host mac ip) = []"
  using assms by (simp_all add: host_def net_set_identity_def)

lemma host_queue:
  assumes "length mac = 6" and "length ip = 4"
  shows "rx_queue (host mac ip) = []"
  using init_fake_inv(2) [OF boot_nic_wf] by (simp add: host_fields [OF assms])

lemma host_inv:
  assumes "length mac = 6" and "length ip = 4"
  shows "run_inv (host mac ip)" and "net_inv (host mac ip)"
  using assms init_fake_inv(1) [OF boot_nic_wf] arp_reset_inv udp_inv_clear boot_chat_inv
    host_queue [OF assms]
  by (simp_all add: run_inv_def net_inv_def wf_identity_def host_fields)

section \<open>Echo requests\<close>

definition icmp_request :: "u16 \<Rightarrow> u16 \<Rightarrow> bytes \<Rightarrow> IcmpEchoHeader" where
  "icmp_request ident seqno payload =
     (let h = \<lparr>icmp_type = ICMP_ECHO_REQUEST, icmp_code = 0, icmp_checksum = 0,
               icmp_identifier = ident, icmp_sequence = seqno\<rparr>
      in h\<lparr>icmp_checksum := bswap16 (checksum16 (write_IcmpEchoHeader h @ payload))\<rparr>)"

text \<open>An echo request as a host with the given addresses sends it to \<open>s\<close>.\<close>

definition echo_request :: "bytes \<Rightarrow> bytes \<Rightarrow> u16 \<Rightarrow> u16 \<Rightarrow> bytes \<Rightarrow> net \<Rightarrow> bytes" where
  "echo_request mac ip ident seqno payload s =
     write_EthernetHeader (eth_header (g_my_mac s) mac ETH_TYPE_IPV4) @
     write_Ipv4Header (ipv4_header ip (g_my_ip s) IPV4_PROTO_ICMP (8 + length payload)) @
     write_IcmpEchoHeader (icmp_request ident seqno payload) @ payload"

lemma icmp_request_valid:
  "length payload \<le> 60000 \<Longrightarrow>
   checksum16 (write_IcmpEchoHeader (icmp_request ident seqno payload) @ payload) = 0"
  using icmp_checksum_filled [of payload "\<lparr>icmp_type = ICMP_ECHO_REQUEST, icmp_code = 0, icmp_checksum = 0,
      icmp_identifier = ident, icmp_sequence = seqno\<rparr>"]
  by (simp add: icmp_request_def Let_def)

lemma icmp_request_fields [simp]:
  "icmp_type (icmp_request ident seqno payload) = ICMP_ECHO_REQUEST"
  "icmp_identifier (icmp_request ident seqno payload) = ident"
  "icmp_sequence (icmp_request ident seqno payload) = seqno"
  by (simp_all add: icmp_request_def Let_def)

lemma net_handle_ipv4_frame:
  assumes inv: "net_inv s" and mac: "length mac = 6" and ip: "length ip = 4" and n: "length data \<le> 2014"
  shows "net_handle_frame (write_EthernetHeader (eth_header (g_my_mac s) mac ETH_TYPE_IPV4) @
      write_Ipv4Header (ipv4_header ip (g_my_ip s) proto (length data)) @ data) s =
    (let s1 = stat Ipv4Rx s
     in if proto = IPV4_PROTO_UDP then Inr (snd (udp_handle_packet (Some ip) (Some data) (length data) s1))
        else if proto \<noteq> IPV4_PROTO_ICMP then Inr (stat DroppedUnknownIpv4Protocol s1)
        else handle_icmp (write_EthernetHeader (eth_header (g_my_mac s) mac ETH_TYPE_IPV4) @
               write_Ipv4Header (ipv4_header ip (g_my_ip s) proto (length data)) @ data)
               20 (20 + length data) s1)"
proof -
  have id: "wf_identity s"
    using inv by (simp add: net_inv_def)
  have e: "wf_EthernetHeader (eth_header (g_my_mac s) mac ETH_TYPE_IPV4)"
    using id mac by (simp add: wf_eth_header wf_identity_def)
  have "net_handle_frame (write_EthernetHeader (eth_header (g_my_mac s) mac ETH_TYPE_IPV4) @
      write_Ipv4Header (ipv4_header ip (g_my_ip s) proto (length data)) @ data) s =
    handle_ipv4 (write_EthernetHeader (eth_header (g_my_mac s) mac ETH_TYPE_IPV4) @
      write_Ipv4Header (ipv4_header ip (g_my_ip s) proto (length data)) @ data) s"
    using net_handle_frame_ipv4 [OF e] mac_for_me(1) [OF id] by simp
  then show ?thesis
    using handle_ipv4_accepts [OF id e ip n refl refl, of proto] by simp
qed

lemma echo_request_parts:
  fixes ident seqno :: u16 and payload :: bytes
  assumes inv: "net_inv s" and mac: "length mac = 6" and ip: "length ip = 4"
  defines "f \<equiv> echo_request mac ip ident seqno payload s"
  shows "length f = 42 + length payload"
    and "read_EthernetHeader f = eth_header (g_my_mac s) mac ETH_TYPE_IPV4"
    and "read_Ipv4Header (drop 14 f) = ipv4_header ip (g_my_ip s) IPV4_PROTO_ICMP (8 + length payload)"
    and "read_IcmpEchoHeader (drop 34 f) = icmp_request ident seqno payload"
    and "segment 34 (8 + length payload) f =
      write_IcmpEchoHeader (icmp_request ident seqno payload) @ payload"
    and "segment 42 (length payload) f = payload"
proof -
  let ?e = "eth_header (g_my_mac s) mac ETH_TYPE_IPV4"
  let ?h = "ipv4_header ip (g_my_ip s) IPV4_PROTO_ICMP (8 + length payload)"
  let ?c = "icmp_request ident seqno payload"
  have id: "length (g_my_mac s) = 6" "length (g_my_ip s) = 4"
    using inv by (simp_all add: net_inv_def wf_identity_def)
  have wf: "wf_EthernetHeader ?e" "wf_Ipv4Header ?h"
    using id mac ip by (simp_all add: wf_eth_header wf_ipv4_header)
  have len: "length (write_EthernetHeader ?e) = 14" "length (write_Ipv4Header ?h) = 20"
    "length (write_IcmpEchoHeader ?c) = 8"
    using wf by (simp_all add: length_write_headers)
  have d14: "drop 14 f = write_Ipv4Header ?h @ write_IcmpEchoHeader ?c @ payload"
    and d34: "drop 34 f = write_IcmpEchoHeader ?c @ payload"
    and d42: "drop 42 f = payload"
    using len by (simp_all add: f_def echo_request_def)
  show "length f = 42 + length payload"
    using len by (simp add: f_def echo_request_def)
  show "read_EthernetHeader f = ?e"
    unfolding f_def echo_request_def by (rule read_frame(1) [OF wf(1)])
  show "read_Ipv4Header (drop 14 f) = ?h"
    unfolding d14 by (rule ipv4.decode_encode [OF wf(2)])
  show "read_IcmpEchoHeader (drop 34 f) = ?c"
    using icmp.decode_encode [of ?c payload] by (simp add: d34)
  show "segment 34 (8 + length payload) f = write_IcmpEchoHeader ?c @ payload"
    "segment 42 (length payload) f = payload"
    using len by (simp_all add: segment_def d34 d42)
qed

text \<open>The two outcomes of an echo request: an answer, or a reply buffer that is too small.\<close>

lemma echo_request_outcome:
  fixes ident seqno :: u16
  assumes inv: "net_inv s" and mac: "length mac = 6" and ip: "length ip = 4" and n: "length payload \<le> 2006"
  defines "f \<equiv> echo_request mac ip ident seqno payload s"
  defines "h \<equiv> ipv4_header ip (g_my_ip s) IPV4_PROTO_ICMP (8 + length payload)"
  shows "1472 < length payload \<Longrightarrow> net_handle_frame f s = Inl OutOfBounds"
    and "length payload \<le> 1472 \<Longrightarrow> \<exists>s'. net_handle_frame f s = Inr s' \<and> kept s s' \<and>
      stats s' = count_events [Ipv4Rx, IcmpRx, RawTx, Ipv4Tx, IcmpTx] (stats s) \<and>
      net_arp s' = net_arp s \<and> net_chat s' = net_chat s \<and> handler_calls s' = handler_calls s \<and>
      last_tx s' = echo_reply_frame s (eth_header (g_my_mac s) mac ETH_TYPE_IPV4) h
        (icmp_request ident seqno payload) 20 payload"
proof -
  let ?data = "write_IcmpEchoHeader (icmp_request ident seqno payload) @ payload"
  let ?s1 = "stat Ipv4Rx s"
  note parts = echo_request_parts [OF inv mac ip, where ident = ident and seqno = seqno and payload = payload, folded f_def]
  have ld: "length ?data = 8 + length payload"
    by (simp add: length_write_headers)
  have protos: "IPV4_PROTO_ICMP \<noteq> IPV4_PROTO_UDP"
    by (simp add: packet_constants)
  have eq: "net_handle_frame f s = handle_icmp f 20 (28 + length payload) ?s1"
    using net_handle_ipv4_frame [OF inv mac ip, of ?data IPV4_PROTO_ICMP, unfolded ld] n protos
    by (simp add: f_def echo_request_def)
  have h: "read_Ipv4Header (drop 14 f) = h" "ipv4_header_length h = 20"
    using parts(3) by (simp_all add: h_def)
  have sum: "checksum16 (segment 34 (8 + length payload) f) = 0"
    using icmp_request_valid [of payload] n by (simp add: parts(5))
  have inv1: "net_inv ?s1"
    using inv by simp
  note echo = handle_icmp_echo [OF inv1, of f "28 + length payload"]
  show "net_handle_frame f s = Inl OutOfBounds" if "1472 < length payload"
    using echo(1) that parts sum by (simp add: h eq)
  assume small: "length payload \<le> 1472"
  then obtain n where "handle_icmp f 20 (28 + length payload) ?s1 =
      Inr (stat IcmpTx (stat Ipv4Tx ((stat IcmpRx ?s1)\<lparr>net_nic := n\<rparr>)))"
    "kept ?s1 ((stat IcmpRx ?s1)\<lparr>net_nic := n\<rparr>)"
    "g_stats n = net_stats_increment RawTx (stats (stat IcmpRx ?s1))"
    "last_tx ((stat IcmpRx ?s1)\<lparr>net_nic := n\<rparr>) = echo_reply_frame s (eth_header (g_my_mac s) mac ETH_TYPE_IPV4) h
        (icmp_request ident seqno payload) 20 payload"
    using echo(2) parts sum by (auto simp: h)
  then show "\<exists>s'. net_handle_frame f s = Inr s' \<and> kept s s' \<and>
      stats s' = count_events [Ipv4Rx, IcmpRx, RawTx, Ipv4Tx, IcmpTx] (stats s) \<and>
      net_arp s' = net_arp s \<and> net_chat s' = net_chat s \<and> handler_calls s' = handler_calls s \<and>
      last_tx s' = echo_reply_frame s (eth_header (g_my_mac s) mac ETH_TYPE_IPV4) h
        (icmp_request ident seqno payload) 20 payload"
    by (intro exI [of _ "stat IcmpTx (stat Ipv4Tx ((stat IcmpRx ?s1)\<lparr>net_nic := n\<rparr>))"])
      (simp add: eq count_events_def)
qed

text \<open>Reading the reply as its receiver does.\<close>

lemma echo_reply_parts:
  fixes c :: IcmpEchoHeader and payload :: bytes
  assumes id: "wf_identity s" and e: "length (eth_src e) = 6" and ip: "length (src_ip h) = 4"
  defines "r \<equiv> echo_reply_frame s e h c 20 payload"
  shows "read_EthernetHeader r = reply_eth s e" and "read_Ipv4Header (drop 14 r) = reply_ip s h 20"
    and "segment 14 20 r = write_Ipv4Header (reply_ip s h 20)"
    and "read_IcmpEchoHeader (drop 34 r) = reply_icmp c payload"
    and "drop 34 r = write_IcmpEchoHeader (reply_icmp c payload) @ payload"
    and "drop 42 r = payload"
proof -
  note wf = wf_reply_headers(1) [OF id e ip] wf_reply_headers(2) [OF id e ip, of 20]
  have len: "length (write_EthernetHeader (reply_eth s e)) = 14" "length (write_Ipv4Header (reply_ip s h 20)) = 20"
    "length (write_IcmpEchoHeader (reply_icmp c payload)) = 8"
    using wf by (simp_all add: length_write_headers)
  have d14: "drop 14 r = write_Ipv4Header (reply_ip s h 20) @ write_IcmpEchoHeader (reply_icmp c payload) @ payload"
    and d34: "drop 34 r = write_IcmpEchoHeader (reply_icmp c payload) @ payload"
    and d42: "drop 42 r = payload"
    using len by (simp_all add: r_def echo_reply_frame_def)
  show "read_EthernetHeader r = reply_eth s e"
    unfolding r_def echo_reply_frame_def by (rule read_frame(1) [OF wf(1)])
  show "read_Ipv4Header (drop 14 r) = reply_ip s h 20"
    unfolding d14 by (rule ipv4.decode_encode [OF wf(2)])
  show "segment 14 20 r = write_Ipv4Header (reply_ip s h 20)"
    using len by (simp add: segment_def d14)
  show "read_IcmpEchoHeader (drop 34 r) = reply_icmp c payload"
    using icmp.decode_encode [of "reply_icmp c payload" payload] by (simp add: d34)
  show "drop 34 r = write_IcmpEchoHeader (reply_icmp c payload) @ payload" "drop 42 r = payload"
    by (rule d34, rule d42)
qed

lemma reply_fields:
  "eth_dst (reply_eth s e) = eth_src e" "eth_src (reply_eth s e) = g_my_mac s"
  "ether_type (reply_eth s e) = ether_type e"
  "src_ip (reply_ip s h k) = g_my_ip s" "dst_ip (reply_ip s h k) = src_ip h" "ttl (reply_ip s h k) = 64"
  "total_length (reply_ip s h k) = total_length h" "protocol (reply_ip s h k) = protocol h"
  "icmp_type (reply_icmp c p) = ICMP_ECHO_REPLY" "icmp_code (reply_icmp c p) = 0"
  "icmp_identifier (reply_icmp c p) = icmp_identifier c" "icmp_sequence (reply_icmp c p) = icmp_sequence c"
  by (simp_all add: reply_eth_def reply_ip_def reply_icmp_def Let_def)

section \<open>ARP and UDP between two hosts\<close>

lemma wf_request_header: "length mac = 6 \<Longrightarrow> wf_EthernetHeader (eth_header broadcast_mac mac ETH_TYPE_ARP)"
  by (simp add: wf_eth_header broadcast_mac_def)

text \<open>\<open>b\<close> answers the request of \<open>a\<close>; then both know each other.\<close>

lemma arp_dialogue:
  assumes a: "net_inv a" and b: "net_inv b"
    and req: "last_tx a1 = write_EthernetHeader (eth_header broadcast_mac (g_my_mac a) ETH_TYPE_ARP) @
      write_ArpPacket (arp_packet ARP_OP_REQUEST (g_my_mac a) (g_my_ip a) (replicate 6 0) (g_my_ip b))"
    and a1: "kept a a1"
  shows "\<exists>b1 a2. net_handle_frame (last_tx a1) b = Inr b1 \<and> net_handle_frame (last_tx b1) a1 = Inr a2 \<and>
    net_inv b1 \<and> kept a1 a2 \<and>
    g_my_mac b1 = g_my_mac b \<and> g_my_ip b1 = g_my_ip b \<and>
    net_arp b1 = arp_cache_insert (Some (g_my_ip a)) (Some (g_my_mac a)) (net_arp b) \<and>
    a2 = stat ArpRx (a1\<lparr>net_arp := arp_cache_insert (Some (g_my_ip b)) (Some (g_my_mac b)) (net_arp a1)\<rparr>) \<and>
    g_udp_handlers b1 = g_udp_handlers b \<and> net_chat b1 = net_chat b \<and>
    stats b1 = count_events [ArpRx, RawTx, ArpTx] (stats b)"
proof -
  have ida: "length (g_my_mac a) = 6" "length (g_my_ip a) = 4"
    and idb: "length (g_my_mac b) = 6" "length (g_my_ip b) = 4"
    using a b by (simp_all add: net_inv_def wf_identity_def)
  let ?e = "eth_header broadcast_mac (g_my_mac a) ETH_TYPE_ARP"
  let ?req = "write_EthernetHeader ?e @
      write_ArpPacket (arp_packet ARP_OP_REQUEST (g_my_mac a) (g_my_ip a) (replicate 6 0) (g_my_ip b))"
  define b1 where "b1 = handle_arp ?req b"
  have e: "wf_EthernetHeader ?e"
    by (rule wf_request_header [OF ida(1)])
  note h = handle_arp_request [OF b e ida, of "replicate 6 0", folded b1_def]
  have r1: "net_handle_frame (last_tx a1) b = Inr b1"
    unfolding req b1_def using net_handle_frame_arp [OF e] mac_for_me(2) by simp
  let ?f = "eth_header (g_my_mac a) (g_my_mac b) ETH_TYPE_ARP"
  have f: "wf_EthernetHeader ?f"
    using ida idb by (simp add: wf_eth_header)
  have inv1: "net_inv a1" and my: "g_my_mac a1 = g_my_mac a" "g_my_ip a1 = g_my_ip a"
    using a1 by (simp_all add: kept_def)
  have me: "mac_is_for_me a1 (g_my_mac a)"
    using mac_for_me(1) [of a1] inv1 my by (simp add: net_inv_def)
  define a2 where "a2 = handle_arp (last_tx b1) a1"
  have r2: "net_handle_frame (last_tx b1) a1 = Inr a2"
    unfolding a2_def using h(2) net_handle_frame_arp [OF f] me by simp
  have a2: "a2 = stat ArpRx (a1\<lparr>net_arp := arp_cache_insert (Some (g_my_ip b)) (Some (g_my_mac b)) (net_arp a1)\<rparr>)"
    unfolding a2_def using h(2) handle_arp_reply [OF inv1 f idb ida] by simp
  have "kept a1 a2"
    unfolding a2_def by (rule handle_arp_inv [OF inv1])
  moreover have "g_udp_handlers b1 = g_udp_handlers b \<and> net_chat b1 = net_chat b"
    unfolding b1_def by (simp add: handle_arp_def Let_def send_raw_def case_prod_beta split: bool.split)
  ultimately show ?thesis
    using r1 r2 a2 h by (intro exI [of _ b1] exI [of _ a2]) simp
qed

lemma learnt:
  assumes "net_inv s" and "length ip = 4" and "length mac = 6"
  shows "arp_map (arp_cache_insert (Some ip) (Some mac) (net_arp s)) ip = Some mac"
  using arp_cache_insert_map [OF _ assms(2,3,2), of "net_arp s"] assms(1) by (simp add: net_inv_def)

text \<open>A datagram \<open>a\<close> sends once it knows \<open>b\<close>, and what \<open>b\<close> does with it.\<close>

lemma udp_delivery:
  assumes a: "net_inv a" and b: "net_inv b" and hit: "arp_map (net_arp a) (g_my_ip b) = Some (g_my_mac b)"
    and n: "n \<le> length payload" "n \<le> 1472" and ports: "sp \<noteq> 0" "dp \<noteq> 0"
  shows "\<exists>a1 b1. udp_send_to (Some (g_my_ip b)) sp dp (Some payload) n a = (True, a1) \<and> kept a a1 \<and>
    stats a1 = count_events [RawTx, Ipv4Tx, UdpTx] (stats a) \<and>
    length (last_tx a1) = 42 + n \<and>
    (\<forall>s. net_inv s \<longrightarrow> g_my_mac s = g_my_mac b \<longrightarrow> g_my_ip s = g_my_ip b \<longrightarrow>
      net_handle_frame (last_tx a1) s = Inr (case lookup_handler (g_udp_handlers s) dp of
        None \<Rightarrow> stat Ipv4Rx s
      | Some h \<Rightarrow> call_handler h (g_my_ip a) sp (take n payload) (stat UdpRx (stat Ipv4Rx s))))"
proof -
  have ida: "length (g_my_mac a) = 6" "length (g_my_ip a) = 4"
    and idb: "length (g_my_mac b) = 6" "length (g_my_ip b) = 4"
    using a b by (simp_all add: net_inv_def wf_identity_def)
  let ?u = "write_UdpHeader (udp_header sp dp n) @ take n payload"
  have lu: "length ?u = 8 + n"
    using n by (simp add: length_write_headers)
  obtain nic arp1 where s: "udp_send_to (Some (g_my_ip b)) sp dp (Some payload) n a =
      (True, stat UdpTx (stat Ipv4Tx (a\<lparr>net_arp := arp1, net_nic := nic\<rparr>)))"
    "g_stats nic = net_stats_increment RawTx (stats a)"
    "last_tx (a\<lparr>net_arp := arp1, net_nic := nic\<rparr>) =
      write_EthernetHeader (eth_header (g_my_mac b) (g_my_mac a) ETH_TYPE_IPV4) @
      write_Ipv4Header (ipv4_header (g_my_ip a) (g_my_ip b) IPV4_PROTO_UDP (8 + n)) @ ?u"
    using udp_send_to_frame [OF a idb(2) hit n ports] by auto
  let ?a1 = "stat UdpTx (stat Ipv4Tx (a\<lparr>net_arp := arp1, net_nic := nic\<rparr>))"
  have kept: "kept a ?a1"
    using udp_send_to_kept [OF a, of "Some (g_my_ip b)" n "Some payload" sp dp] s(1) idb n
    by (simp add: ip_pointer_def covers_def)
  have frame: "last_tx ?a1 = write_EthernetHeader (eth_header (g_my_mac b) (g_my_mac a) ETH_TYPE_IPV4) @
      write_Ipv4Header (ipv4_header (g_my_ip a) (g_my_ip b) IPV4_PROTO_UDP (8 + n)) @ ?u"
    using s(3) by simp
  have "length (last_tx ?a1) = 42 + n"
    unfolding frame using ida idb n by (simp add: length_write_headers wf_eth_header wf_ipv4_header)
  moreover have "net_handle_frame (last_tx ?a1) s = Inr (case lookup_handler (g_udp_handlers s) dp of
        None \<Rightarrow> stat Ipv4Rx s
      | Some h \<Rightarrow> call_handler h (g_my_ip a) sp (take n payload) (stat UdpRx (stat Ipv4Rx s)))"
    if s: "net_inv s" "g_my_mac s = g_my_mac b" "g_my_ip s = g_my_ip b" for s
  proof -
    have "net_handle_frame (last_tx ?a1) s =
        Inr (snd (udp_handle_packet (Some (g_my_ip a)) (Some ?u) (8 + n) (stat Ipv4Rx s)))"
      unfolding frame using net_handle_ipv4_frame [OF s(1) ida, of ?u IPV4_PROTO_UDP, unfolded lu] n s
      by simp
    then show ?thesis
      using udp_handle_datagram [OF ida(2), of "take n payload" n sp dp "stat Ipv4Rx s"] n
      by (simp split: option.split)
  qed
  ultimately show ?thesis
    using s(1,2) kept by (intro exI [of _ ?a1]) (simp add: count_events_def)
qed

text \<open>Without a binding the packet is dropped and the address asked for.\<close>

lemma ipv4_miss:
  assumes inv: "net_inv s" and ip: "length dst = 4" and miss: "arp_map (net_arp s) dst = None"
    and n: "n \<le> 2014" "\<not> (p = None \<and> n \<noteq> 0)"
  shows "\<exists>s'. net_send_ipv4 (Some dst) proto p n s = (False, s') \<and> kept s s' \<and>
    (\<forall>x. length x = 4 \<longrightarrow> arp_map (net_arp s') x = arp_map (net_arp s) x) \<and>
    stats s' = count_events [RawTx, ArpTx] (stats s) \<and>
    g_udp_handlers s' = g_udp_handlers s \<and> net_chat s' = net_chat s \<and>
    last_tx s' = write_EthernetHeader (eth_header broadcast_mac (g_my_mac s) ETH_TYPE_ARP) @
      write_ArpPacket (arp_packet ARP_OP_REQUEST (g_my_mac s) (g_my_ip s) (replicate 6 0) dst)"
proof -
  have ainv: "arp_inv (net_arp s)"
    using inv by (simp add: net_inv_def)
  obtain arp1 where l: "arp_cache_lookup (Some dst) (Some (replicate 6 0)) (net_arp s) = (None, arp1)"
    and arp1: "arp_inv arp1" "\<forall>x. length x = 4 \<longrightarrow> arp_map arp1 x = arp_map (net_arp s) x"
    using arp_cache_lookup_result [OF ainv ip, of "replicate 6 0"] miss
      arp_cache_lookup_inv [OF ainv ip, of "replicate 6 0"] arp_cache_lookup_map [OF ainv ip, of "replicate 6 0"]
    by (cases "arp_cache_lookup (Some dst) (Some (replicate 6 0)) (net_arp s)") auto
  define s1 where "s1 = s\<lparr>net_arp := arp1\<rparr>"
  have k1: "kept s s1"
    using kept_arp [OF inv arp1(1)] by (simp add: s1_def)
  then have inv1: "net_inv s1" "g_my_mac s1 = g_my_mac s" "g_my_ip s1 = g_my_ip s"
    by (simp_all add: kept_def)
  obtain nic where nic: "net_send_arp_request (Some dst) s1 = (True, stat ArpTx (s1\<lparr>net_nic := nic\<rparr>))"
    "g_stats nic = net_stats_increment RawTx (stats s1)"
    "last_tx (s1\<lparr>net_nic := nic\<rparr>) = write_EthernetHeader (eth_header broadcast_mac (g_my_mac s) ETH_TYPE_ARP) @
      write_ArpPacket (arp_packet ARP_OP_REQUEST (g_my_mac s) (g_my_ip s) (replicate 6 0) dst)"
    using net_send_arp_request_frame [OF inv1(1) ip] inv1 by auto
  have "kept s1 (stat ArpTx (s1\<lparr>net_nic := nic\<rparr>))"
    using net_send_arp_request_kept [OF inv1(1), of "Some dst"] nic(1) ip by (simp add: ip_pointer_def)
  then have "kept s (stat ArpTx (s1\<lparr>net_nic := nic\<rparr>))"
    by (rule kept_trans [OF k1])
  moreover have "net_send_ipv4 (Some dst) proto p n s = (False, stat ArpTx (s1\<lparr>net_nic := nic\<rparr>))"
    using n nic(1) by (auto simp: net_send_ipv4_def sizeof_defs VIRTIO_NET_MAX_FRAME_SIZE_def Let_def l
        s1_def [symmetric])
  ultimately show ?thesis
    using nic arp1 by (intro exI [of _ "stat ArpTx (s1\<lparr>net_nic := nic\<rparr>)"]) (simp add: s1_def count_events_def)
qed

end
