(* ===== verification/Heap.thy ===== *)
theory Heap
  imports Prelude "HOL-Library.Multiset"
begin

text \<open>
  The kernel heap, \<^verbatim>\<open>heap.cc\<close>: an array of 64-bit words cut into blocks with boundary tags, the
  available blocks in a doubly linked list threaded through them. The state is the module's static
  variables and the words of the array; an access outside the array is \<open>OutOfBounds\<close>. Each operation is
  one step, since the code holds its lock throughout.
\<close>

section \<open>The code\<close>

record heap =
  h_base :: u64
  h_array :: "u64 list"
  h_len :: u64
  h_safe :: bool
  h_avail :: u64
  n_malloc :: u64
  n_free :: u64
  n_leak :: u64

definition static_heap :: "bool \<Rightarrow> heap" where
  "static_heap s = \<lparr>h_base = 0, h_array = [], h_len = 0, h_safe = s, h_avail = 0, n_malloc = 0, n_free = 0, n_leak = 0\<rparr>"

definition aread :: "heap \<Rightarrow> u64 \<Rightarrow> u64 outcome" where
  "aread h i = (if unat i < length (h_array h) then Inr (h_array h ! unat i) else Inl OutOfBounds)"

definition awrite :: "u64 \<Rightarrow> u64 \<Rightarrow> heap \<Rightarrow> heap outcome" where
  "awrite i x h =
     (if unat i < length (h_array h) then Inr (h\<lparr>h_array := (h_array h)[unat i := x]\<rparr>) else Inl OutOfBounds)"

definition taken_word :: "u64 \<Rightarrow> bool" where "taken_word w \<longleftrightarrow> w AND 1 \<noteq> 0"
definition size_word :: "u64 \<Rightarrow> u64" where "size_word w = w AND NOT 1"

definition isTaken :: "heap \<Rightarrow> u64 \<Rightarrow> bool outcome" where
  "isTaken h i = bind_outcome (aread h i) (\<lambda>w. Inr (taken_word w))"
definition isAvail :: "heap \<Rightarrow> u64 \<Rightarrow> bool outcome" where
  "isAvail h i = bind_outcome (aread h i) (\<lambda>w. Inr (\<not> taken_word w))"
definition block_size :: "heap \<Rightarrow> u64 \<Rightarrow> u64 outcome" where
  "block_size h i = bind_outcome (aread h i) (\<lambda>w. Inr (size_word w))"

definition headerFromFooter :: "heap \<Rightarrow> u64 \<Rightarrow> u64 outcome" where
  "headerFromFooter h i = bind_outcome (block_size h i) (\<lambda>sz. Inr (i - sz + 1))"
definition footerFromHeader :: "heap \<Rightarrow> u64 \<Rightarrow> u64 outcome" where
  "footerFromHeader h i = bind_outcome (block_size h i) (\<lambda>sz. Inr (i + sz - 1))"

definition sanity :: "heap \<Rightarrow> u64 \<Rightarrow> u64 outcome" where
  "sanity h i =
     (if h_safe h then
        if i = 0 then Inr 0
        else if i \<ge> h_len h then Inl (Panic ''bad header index ?'')
        else
          bind_outcome (footerFromHeader h i) (\<lambda>footer.
            if footer \<ge> h_len h then Inl (Panic ''bad footer index ?'')
            else
              bind_outcome (aread h i) (\<lambda>hv.
              bind_outcome (aread h footer) (\<lambda>fv.
                if hv \<noteq> fv then Inl (Panic ''bad block at ?, hv:? fv:?'') else Inr i)))
      else Inr i)"

definition left_block :: "heap \<Rightarrow> u64 \<Rightarrow> u64 outcome" where
  "left_block h i = bind_outcome (headerFromFooter h (i - 1)) (sanity h)"
definition right_block :: "heap \<Rightarrow> u64 \<Rightarrow> u64 outcome" where
  "right_block h i = bind_outcome (block_size h i) (\<lambda>sz. sanity h (i + sz))"
definition next_block :: "heap \<Rightarrow> u64 \<Rightarrow> u64 outcome" where
  "next_block h i = bind_outcome (aread h (i + 1)) (sanity h)"
definition prev_block :: "heap \<Rightarrow> u64 \<Rightarrow> u64 outcome" where
  "prev_block h i = bind_outcome (aread h (i + 2)) (sanity h)"
definition setNext :: "u64 \<Rightarrow> u64 \<Rightarrow> heap \<Rightarrow> heap outcome" where "setNext i x h = awrite (i + 1) x h"
definition setPrev :: "u64 \<Rightarrow> u64 \<Rightarrow> heap \<Rightarrow> heap outcome" where "setPrev i x h = awrite (i + 2) x h"

definition remove_block :: "u64 \<Rightarrow> heap \<Rightarrow> heap outcome" where
  "remove_block i h =
     bind_outcome (prev_block h i) (\<lambda>prevIndex.
     bind_outcome (next_block h i) (\<lambda>nextIndex.
     bind_outcome (if prevIndex = 0 then Inr (h\<lparr>h_avail := nextIndex\<rparr>) else setNext prevIndex nextIndex h) (\<lambda>h1.
       if nextIndex \<noteq> 0 then setPrev nextIndex prevIndex h1 else Inr h1)))"

definition makeAvail :: "u64 \<Rightarrow> u64 \<Rightarrow> heap \<Rightarrow> heap outcome" where
  "makeAvail i entry_count h =
     bind_outcome (assert_that (entry_count AND 1 = 0) ''(entry_count & 1) == 0'') (\<lambda>_.
     bind_outcome (awrite i entry_count h) (\<lambda>h1.
     bind_outcome (footerFromHeader h1 i) (\<lambda>footer.
     bind_outcome (awrite footer entry_count h1) (\<lambda>h2.
     bind_outcome (setNext i (h_avail h2) h2) (\<lambda>h3.
     bind_outcome (setPrev i 0 h3) (\<lambda>h4.
     bind_outcome (if h_avail h4 \<noteq> 0 then setPrev (h_avail h4) i h4 else Inr h4) (\<lambda>h5.
       Inr (h5\<lparr>h_avail := i\<rparr>))))))))"

definition makeTaken :: "u64 \<Rightarrow> u64 \<Rightarrow> heap \<Rightarrow> heap outcome" where
  "makeTaken i entry_count h =
     bind_outcome (assert_that (entry_count AND 1 = 0) ''(entry_count & 1) == 0'') (\<lambda>_.
     bind_outcome (awrite i (entry_count + 1) h) (\<lambda>h1.
     bind_outcome (footerFromHeader h1 i) (\<lambda>footer.
       awrite footer (entry_count + 1) h1)))"

text \<open>Whether the message about leaks is printed.\<close>

definition check_leaks :: "heap \<Rightarrow> bool" where
  "check_leaks h \<longleftrightarrow> n_free h + n_leak h \<noteq> n_malloc h"

definition leak :: "bool \<Rightarrow> heap \<Rightarrow> heap" where
  "leak flag h = (if flag then h\<lparr>n_leak := n_leak h + 1\<rparr> else h)"

text \<open>\<open>mem\<close> is the memory from the aligned base on, as words.\<close>

definition heap_init :: "u64 \<Rightarrow> u64 \<Rightarrow> u64 list \<Rightarrow> heap \<Rightarrow> heap outcome" where
  "heap_init base bytes0 mem h =
     (let alignedBase = (base + 8 + 15) div 16 * 16 - 8
      in bind_outcome (assert_that (alignedBase mod 16 = 8) ''(alignedBase % 16) == 8'') (\<lambda>_.
         bind_outcome (assert_that (alignedBase \<ge> base) ''alignedBase >= base'') (\<lambda>_.
         let delta = alignedBase - base
         in bind_outcome (assert_that (delta < 16) ''delta < 16'') (\<lambda>_.
            bind_outcome (assert_that (bytes0 \<ge> delta) ''bytes >= delta'') (\<lambda>_.
            let bytes1 = (bytes0 - delta) div 16 * 16
            in bind_outcome (assert_that (bytes1 mod 16 = 0) ''(bytes % 16) == 0'') (\<lambda>_.
               bind_outcome (assert_that (bytes1 > 64) ''bytes > 64'') (\<lambda>_.
               let len = bytes1 div 8;
                   h1 = h\<lparr>h_base := alignedBase, h_array := take (unat len) mem, h_len := len\<rparr>
               in bind_outcome (makeTaken 0 2 h1) (\<lambda>h2.
                  bind_outcome (makeAvail 2 (len - 4) h2) (\<lambda>h3.
                    makeTaken (len - 2) 2 h3)))))))))"

text \<open>
  The search loop of \<open>malloc\<close>: it walks the list, keeps the smallest block that fits and stops at an
  exact fit or after 20 candidates. The result is \<open>mx\<close> and \<open>it\<close>; \<open>None\<close> is a loop that does not end.
\<close>

partial_function (option) search :: "heap \<Rightarrow> u64 \<Rightarrow> int \<Rightarrow> u64 \<Rightarrow> u64 \<Rightarrow> u64 \<Rightarrow> (u64 \<times> u64) outcome option" where
  "search h entries countDown p mx it =
     (if p \<noteq> 0 then
        (case bind_outcome (isTaken h p) (\<lambda>t. bind_outcome (block_size h p) (\<lambda>sz. Inr (t, sz))) of
           Inl e \<Rightarrow> Some (Inl e)
         | Inr (t, sz) \<Rightarrow>
             if t then Some (Inl (Panic ''block is taken in malloc ?''))
             else
               let fits = sz \<ge> entries;
                   mx' = (if fits \<and> sz < mx then sz else mx);
                   it' = (if fits \<and> sz < mx then p else it);
                   countDown' = (if fits then countDown - 1 else countDown)
               in if fits \<and> (countDown' = 0 \<or> sz = entries) then Some (Inr (mx', it'))
                  else (case next_block h p of
                          Inl e \<Rightarrow> Some (Inl e)
                        | Inr p' \<Rightarrow> search h entries countDown' p' mx' it'))
      else Some (Inr (mx, it)))"

definition to_int :: "u64 \<Rightarrow> int" where
  "to_int x = sint (ucast x :: u32)"

definition entries_for :: "u64 \<Rightarrow> u64" where
  "entries_for bytes =
     (let entries = (bytes + 7) div 8 + 2;
          entries = (if entries < 4 then 4 else entries)
      in if entries AND 1 \<noteq> 0 then entries + 1 else entries)"

text \<open>Taking the block the search found.\<close>

definition take_block :: "u64 \<Rightarrow> u64 \<Rightarrow> u64 \<Rightarrow> heap \<Rightarrow> (u64 \<times> heap) outcome" where
  "take_block entries mx it h =
     (if it \<noteq> 0 then
        bind_outcome (remove_block it h) (\<lambda>h1.
        let extra = to_int (mx - entries)
        in bind_outcome
             (if extra \<ge> 4 then
                bind_outcome (makeTaken it entries h1) (\<lambda>h2. makeAvail (it + entries) (word_of_int extra) h2)
              else makeTaken it mx h1) (\<lambda>h3.
           let res = h_base h3 + 8 * (it + 1)
           in Inr (res, if res \<noteq> 0 then h3\<lparr>n_malloc := n_malloc h3 + 1\<rparr> else h3)))
      else Inr (0, h))"

definition malloc :: "u64 \<Rightarrow> heap \<Rightarrow> (u64 \<times> heap) outcome option" where
  "malloc bytes h =
     (if bytes = 0 then Some (Inr (h_base h, h))
      else
        let entries = entries_for bytes
        in map_option (\<lambda>r. bind_outcome r (\<lambda>(mx, it). take_block entries mx it h))
             (search h entries 20 (h_avail h) (- 1) 0))"

text \<open>The two halves of \<open>free\<close>: absorbing the left neighbour if it is available, then the right one.\<close>

definition absorb_left :: "u64 \<Rightarrow> int \<Rightarrow> u64 \<Rightarrow> heap \<Rightarrow> bool \<Rightarrow> (int \<times> int \<times> heap) outcome" where
  "absorb_left idx sz leftIndex h left_avail =
     (if left_avail then
        bind_outcome (remove_block leftIndex h) (\<lambda>h1.
        bind_outcome (block_size h1 leftIndex) (\<lambda>left_size.
          Inr (to_int leftIndex, to_int (word_of_int sz + left_size), h1)))
      else Inr (to_int idx, sz, h))"

definition absorb_right :: "int \<Rightarrow> u64 \<Rightarrow> heap \<Rightarrow> bool \<Rightarrow> (int \<times> heap) outcome" where
  "absorb_right sz rightIndex h right_avail =
     (if right_avail then
        bind_outcome (remove_block rightIndex h) (\<lambda>h2.
        bind_outcome (block_size h2 rightIndex) (\<lambda>right_size.
          Inr (to_int (word_of_int sz + right_size), h2)))
      else Inr (sz, h))"

definition free_block :: "u64 \<Rightarrow> heap \<Rightarrow> heap outcome" where
  "free_block p h =
     (if p = 0 then Inr h
      else if p = h_base h then Inr h
      else
        let h0 = h\<lparr>n_free := n_free h + 1\<rparr>;
            idx = word_of_int (to_int ((p - h_base h) div 8 - 1))
        in bind_outcome (sanity h0 idx) (\<lambda>_.
           bind_outcome (isAvail h0 idx) (\<lambda>_.
           bind_outcome (block_size h0 idx) (\<lambda>size_idx.
           bind_outcome (left_block h0 idx) (\<lambda>l.
           bind_outcome (right_block h0 idx) (\<lambda>r.
           let leftIndex = word_of_int (to_int l); rightIndex = word_of_int (to_int r)
           in bind_outcome (isAvail h0 leftIndex) (\<lambda>left_avail.
              bind_outcome (absorb_left idx (to_int size_idx) leftIndex h0 left_avail) (\<lambda>(idx1, sz1, h1).
              bind_outcome (isAvail h1 rightIndex) (\<lambda>right_avail.
              bind_outcome (absorb_right sz1 rightIndex h1 right_avail) (\<lambda>(sz2, h2).
                makeAvail (word_of_int idx1) (word_of_int sz2) h2))))))))))"

text \<open>\<open>operator new\<close> and \<open>operator delete\<close>.\<close>

definition operator_new :: "u64 \<Rightarrow> heap \<Rightarrow> (u64 \<times> heap) outcome option" where
  "operator_new bytes h =
     map_option (\<lambda>r. bind_outcome r (\<lambda>(p, h').
       if p = 0 then Inl (Panic ''out of memory'') else Inr (p, h'))) (malloc bytes h)"

definition operator_delete :: "u64 \<Rightarrow> heap \<Rightarrow> heap outcome" where
  "operator_delete p h = free_block p h"

section \<open>Layout\<close>

text \<open>
  The heap as a list of blocks in address order, each with its size in words and whether it is taken,
  and the list of the available blocks' indices.
\<close>

type_synonym blocks = "(nat \<times> bool) list"

definition extent :: "blocks \<Rightarrow> nat" where "extent bl = sum_list (map fst bl)"

definition tag :: "nat \<Rightarrow> bool \<Rightarrow> u64" where "tag n t = word_of_nat n + (if t then 1 else 0)"

definition wf_block :: "nat \<times> bool \<Rightarrow> bool" where
  "wf_block b \<longleftrightarrow> even (fst b) \<and> 2 \<le> fst b \<and> (snd b \<or> 4 \<le> fst b)"

fun tagged :: "u64 list \<Rightarrow> nat \<Rightarrow> blocks \<Rightarrow> bool" where
  "tagged a k [] \<longleftrightarrow> True"
| "tagged a k ((n, t) # bl) \<longleftrightarrow> a ! k = tag n t \<and> a ! (k + n - 1) = tag n t \<and> tagged a (k + n) bl"

fun free_starts :: "nat \<Rightarrow> blocks \<Rightarrow> nat list" where
  "free_starts k [] = []"
| "free_starts k ((n, t) # bl) = (if t then [] else [k]) @ free_starts (k + n) bl"

text \<open>The words of the available blocks.\<close>

fun free_words :: "nat \<Rightarrow> blocks \<Rightarrow> nat set" where
  "free_words k [] = {}"
| "free_words k ((n, t) # bl) = (if t then {} else {k..<k + n}) \<union> free_words (k + n) bl"

text \<open>The links of a part of the list, between the index before it and the index after it.\<close>

fun links :: "u64 list \<Rightarrow> nat \<Rightarrow> nat list \<Rightarrow> nat \<Rightarrow> bool" where
  "links a p [] q \<longleftrightarrow> True"
| "links a p (i # is) q \<longleftrightarrow> a ! (i + 2) = word_of_nat p \<and> a ! (i + 1) = word_of_nat (hd (is @ [q])) \<and> links a i is q"

lemma extent_simps [simp]:
  "extent [] = 0" "extent (b # bl) = fst b + extent bl" "extent (bl @ bl') = extent bl + extent bl'"
  by (simp_all add: extent_def)

lemma tagged_append: "tagged a k (xs @ ys) \<longleftrightarrow> tagged a k xs \<and> tagged a (k + extent xs) ys"
  by (induction a k xs rule: tagged.induct) (auto simp: add.assoc)

lemma free_starts_append: "free_starts k (xs @ ys) = free_starts k xs @ free_starts (k + extent xs) ys"
  by (induction k xs rule: free_starts.induct) (auto simp: add.assoc)

lemma free_words_append: "free_words k (xs @ ys) = free_words k xs \<union> free_words (k + extent xs) ys"
  by (induction k xs rule: free_words.induct) (auto simp: add.assoc)

lemma links_append: "links a p (is @ js) q \<longleftrightarrow> links a p is (hd (js @ [q])) \<and> links a (last (p # is)) js q"
  by (induction a p "is" q rule: links.induct) (auto simp: hd_append)

text \<open>Writes elsewhere keep tags and links.\<close>

lemma tagged_frame:
  "\<forall>p. k \<le> p \<and> p < k + extent bl \<longrightarrow> a' ! p = a ! p \<Longrightarrow> \<forall>b \<in> set bl. 1 \<le> fst b \<Longrightarrow> tagged a' k bl = tagged a k bl"
proof (induction a k bl rule: tagged.induct)
  case (2 a k n t bl)
  have "1 \<le> n"
    using 2(3) by simp
  then have "k \<le> k + n - 1" "k + n - 1 < k + extent ((n, t) # bl)" "k < k + extent ((n, t) # bl)"
    by (simp_all add: less_diff_conv2)
  then have "a' ! k = a ! k" "a' ! (k + n - 1) = a ! (k + n - 1)"
    using 2(2) by blast+
  with 2 show ?case
    by simp
qed simp

lemma links_frame:
  "\<forall>i \<in> set is. a' ! (i + 1) = a ! (i + 1) \<and> a' ! (i + 2) = a ! (i + 2) \<Longrightarrow> links a' p is q = links a p is q"
  by (induction a p "is" q rule: links.induct) auto

lemma free_starts_bounds:
  "i \<in> set (free_starts k bl) \<Longrightarrow> \<forall>b \<in> set bl. wf_block b \<Longrightarrow> k \<le> i \<and> i + 4 \<le> k + extent bl"
  by (induction k bl rule: free_starts.induct) (fastforce simp: wf_block_def split: if_splits)+

lemma free_starts_even:
  "i \<in> set (free_starts k bl) \<Longrightarrow> \<forall>b \<in> set bl. wf_block b \<Longrightarrow> even k \<Longrightarrow> even i"
  by (induction k bl rule: free_starts.induct) (auto simp: wf_block_def split: if_splits)

lemma distinct_free_starts: "\<forall>b \<in> set bl. wf_block b \<Longrightarrow> distinct (free_starts k bl)"
proof (induction k bl rule: free_starts.induct)
  case (2 k n t bl)
  then show ?case
    using free_starts_bounds [of k "k + n" bl] by (auto simp: wf_block_def)
qed simp

lemma free_starts_split:
  "i \<in> set (free_starts k bl) \<Longrightarrow> \<exists>xs n ys. bl = xs @ (n, False) # ys \<and> i = k + extent xs"
proof (induction k bl rule: free_starts.induct)
  case (2 k n t bl)
  show ?case
  proof (cases "\<not> t \<and> i = k")
    case True
    then show ?thesis by (intro exI [of _ "[]"]) simp
  next
    case False
    then obtain xs m ys where "bl = xs @ (m, False) # ys" "i = k + n + extent xs"
      using 2 by (auto split: if_splits)
    then show ?thesis by (intro exI [of _ "(n, t) # xs"]) simp
  qed
qed simp

text \<open>A write to the links of an available block is no write to a tag.\<close>

lemma tagged_link_update:
  "\<forall>b \<in> set bl. wf_block b \<Longrightarrow> i \<in> set (free_starts k bl) \<Longrightarrow> j = 1 \<or> j = 2 \<Longrightarrow>
    tagged (a[i + j := x]) k bl = tagged a k bl"
proof (induction a k bl rule: tagged.induct)
  case (2 a k n t bl)
  have n: "2 \<le> n" "t \<or> 4 \<le> n" and wf: "\<forall>b \<in> set bl. wf_block b"
    using 2(2) by (auto simp: wf_block_def)
  show ?case
  proof (cases "\<not> t \<and> i = k")
    case True
    then have "tagged (a[i + j := x]) (k + n) bl = tagged a (k + n) bl"
      using n wf 2(4) by (intro tagged_frame) (auto simp: wf_block_def)
    then show ?thesis
      using True n 2(4) by auto
  next
    case False
    then have i: "i \<in> set (free_starts (k + n) bl)"
      using 2(3) by (auto split: if_splits)
    then have "k + n \<le> i"
      using free_starts_bounds wf by blast
    then show ?thesis
      using 2(1) [OF wf i 2(4)] 2(4) n by auto
  qed
qed simp


section \<open>Words as indices\<close>

lemma unat_index: "i < 2 ^ 31 \<Longrightarrow> unat (word_of_nat i :: u64) = i"
  by (simp add: unat_of_nat)

lemma even_word: "even n \<Longrightarrow> even (word_of_nat n :: u64)"
  by (metis dvd_def of_nat_mult of_nat_numeral)

lemma not_bit_0: "\<not> bit (w :: u64) 0 \<longleftrightarrow> even w"
  by (simp add: bit_0)

lemma tag_or: "even n \<Longrightarrow> tag n t = word_of_nat n OR (if t then 1 else 0)"
  using even_word [of n] by (auto simp: tag_def bit_1_iff bit_0 intro!: disjunctive_add)

lemma taken_word_tag [simp]: "even n \<Longrightarrow> taken_word (tag n t) \<longleftrightarrow> t"
  using even_word [of n] by (auto simp: taken_word_def tag_def and_one_eq even_iff_mod_2_eq_zero [symmetric] odd_iff_mod_2_eq_one)

lemma size_word_tag [simp]: "even n \<Longrightarrow> size_word (tag n t) = word_of_nat n"
  unfolding size_word_def
proof (rule bit_word_eqI)
  fix k
  assume "even n"
  then show "bit (tag n t AND NOT 1) k = bit (word_of_nat n :: u64) k" if "k < LENGTH(64)"
    using that even_word [of n, folded not_bit_0]
    by (cases k) (simp_all add: tag_or bit_and_iff bit_or_iff bit_not_iff bit_1_iff del: bit_0)
qed

lemma even_word_and: "even n \<Longrightarrow> (word_of_nat n :: u64) AND 1 = 0"
  using even_word [of n] by (simp add: and_one_eq even_iff_mod_2_eq_zero)

lemma to_int_index: "i < 2 ^ 31 \<Longrightarrow> to_int (word_of_nat i) = int i"
  by (simp add: to_int_def unsigned_of_nat signed_of_nat take_bit_nat_eq_self signed_take_bit_int_eq_self)

section \<open>Reading and writing by index\<close>

abbreviation small :: "heap \<Rightarrow> bool" where "small h \<equiv> length (h_array h) < 2 ^ 31"

lemma aread_index: "small h \<Longrightarrow> i < length (h_array h) \<Longrightarrow> aread h (word_of_nat i) = Inr (h_array h ! i)"
  by (simp add: aread_def unat_index)

lemma awrite_index: "small h \<Longrightarrow> i < length (h_array h) \<Longrightarrow>
    awrite (word_of_nat i) x h = Inr (h\<lparr>h_array := (h_array h)[i := x]\<rparr>)"
  by (simp add: awrite_def unat_index)

lemma aread_plus: "small h \<Longrightarrow> i + j < length (h_array h) \<Longrightarrow>
    aread h (word_of_nat i + word_of_nat j) = Inr (h_array h ! (i + j))"
  using aread_index [of h "i + j"] by simp

lemma awrite_plus: "small h \<Longrightarrow> i + j < length (h_array h) \<Longrightarrow>
    awrite (word_of_nat i + word_of_nat j) x h = Inr (h\<lparr>h_array := (h_array h)[i + j := x]\<rparr>)"
  using awrite_index [of h "i + j"] by simp

lemma awrite_footer:
  assumes "small h" and "i + m \<le> length (h_array h)" and "1 \<le> m"
  shows "awrite (word_of_nat i + word_of_nat m - 1) x h = Inr (h\<lparr>h_array := (h_array h)[i + m - 1 := x]\<rparr>)"
  using assms awrite_index [of h "i + m - 1"] by (simp add: of_nat_diff)

lemma footer_index:
  assumes "small h" and "i < length (h_array h)" and "h_array h ! i = tag m t" and "even m" and "1 \<le> m"
  shows "footerFromHeader h (word_of_nat i) = Inr (word_of_nat i + word_of_nat m - 1)"
  using assms by (simp add: footerFromHeader_def block_size_def aread_index)

lemma makeTaken_index:
  assumes "small h" and "i + m \<le> length (h_array h)" and "even m" and "2 \<le> m"
  shows "makeTaken (word_of_nat i) (word_of_nat m) h =
    Inr (h\<lparr>h_array := (h_array h)[i := tag m True, i + m - 1 := tag m True]\<rparr>)"
  using assms by (simp add: makeTaken_def even_word_and awrite_index awrite_footer footer_index [of _ i m True] tag_def)

lemma makeAvail_index:
  assumes "small h" and "i + m \<le> length (h_array h)" and "even m" and "4 \<le> m"
    and "h_avail h = word_of_nat (hd (fl @ [0]))" and "\<forall>j \<in> set fl. 0 < j \<and> j + 2 < length (h_array h)"
  shows "makeAvail (word_of_nat i) (word_of_nat m) h =
    Inr (h\<lparr>h_array := (let a = (h_array h)[i := tag m False, i + m - 1 := tag m False,
                            i + 1 := h_avail h, i + 2 := 0]
                     in if fl = [] then a else a[hd fl + 2 := word_of_nat i]),
           h_avail := word_of_nat i\<rparr>)"
proof -
  have w: "setNext (word_of_nat i) x g = Inr (g\<lparr>h_array := (h_array g)[i + 1 := x]\<rparr>)"
    "setPrev (word_of_nat i) x g = Inr (g\<lparr>h_array := (h_array g)[i + 2 := x]\<rparr>)"
    if "small g" "i + 2 < length (h_array g)" for x i g
    using that awrite_plus [of g i 1 x] awrite_plus [of g i 2 x] by (simp_all add: setNext_def setPrev_def)
  show ?thesis
  proof (cases fl)
    case Nil
    with assms show ?thesis
      by (simp add: makeAvail_def even_word_and awrite_index awrite_footer footer_index [of _ i m False] tag_def w Let_def)
  next
    case (Cons j js)
    have "(word_of_nat j :: u64) \<noteq> 0"
      using unat_index [of j] assms(1,6) Cons by auto
    with assms Cons show ?thesis
      by (simp add: makeAvail_def even_word_and awrite_index awrite_footer footer_index [of _ i m False] tag_def w Let_def)
  qed
qed


section \<open>The list of available blocks\<close>

lemma links_update: "\<forall>i \<in> set is. k \<noteq> i + 1 \<and> k \<noteq> i + 2 \<Longrightarrow> links (a[k := x]) p is q = links a p is q"
  by (rule links_frame) auto

lemma links_set_next:
  assumes "links a p (us @ [u]) q" and "distinct (us @ [u])" and "\<forall>i \<in> set (us @ [u]). even i" and "u + 1 < length a"
  shows "links (a[u + 1 := word_of_nat q']) p (us @ [u]) q'"
proof -
  have "u + 1 \<noteq> i + 1 \<and> u + 1 \<noteq> i + 2" if "i \<in> set us" for i
  proof -
    have "even (i + 2)" "odd (u + 1)" "i \<noteq> u"
      using assms(2,3) that by auto
    then show ?thesis
      by (metis add_right_cancel)
  qed
  then have "links (a[u + 1 := word_of_nat q']) p us u = links a p us u"
    by (intro links_update) blast
  with assms show ?thesis
    by (simp add: links_append)
qed

lemma links_set_prev:
  assumes "links a p (v # vs) q" and "distinct (v # vs)" and "\<forall>i \<in> set (v # vs). even i" and "v + 2 < length a"
  shows "links (a[v + 2 := word_of_nat p']) p' (v # vs) q"
proof -
  have "v + 2 \<noteq> i + 1 \<and> v + 2 \<noteq> i + 2" if "i \<in> set vs" for i
  proof -
    have "odd (i + 1)" "even (v + 2)" "i \<noteq> v"
      using assms(2,3) that by auto
    then show ?thesis
      by (metis add_right_cancel)
  qed
  then have "links (a[v + 2 := word_of_nat p']) v vs q = links a v vs q"
    by (intro links_update) blast
  with assms show ?thesis
    by simp
qed

definition unlink :: "nat list \<Rightarrow> nat list \<Rightarrow> u64 list \<Rightarrow> u64 list" where
  "unlink us vs a =
     (let a' = (if us = [] then a else a[last us + 1 := word_of_nat (hd (vs @ [0]))])
      in if vs = [] then a' else a'[hd vs + 2 := word_of_nat (last (0 # us))])"

lemma slots_apart:
  fixes us vs :: "nat list"
  assumes "distinct (us @ vs)" and "\<forall>i \<in> set (us @ vs). even i" and "i \<in> set us" and "v \<in> set vs"
  shows "v + 2 \<noteq> i + 1" "v + 2 \<noteq> i + 2" "i + 1 \<noteq> v + 1" "i + 1 \<noteq> v + 2"
proof -
  have "even (v + 2)" "odd (i + 1)" "i \<noteq> v"
    using assms by auto
  then show "v + 2 \<noteq> i + 1" "v + 2 \<noteq> i + 2" "i + 1 \<noteq> v + 1" "i + 1 \<noteq> v + 2"
    by (metis, simp, simp, metis)
qed

lemma links_unlink:
  assumes l: "links a 0 (us @ i # vs) 0" and d: "distinct (us @ i # vs)"
    and e: "\<forall>j \<in> set (us @ i # vs). even j \<and> j + 2 < length a"
  shows "links (unlink us vs a) 0 (us @ vs) 0"
proof -
  define a1 where "a1 = (if us = [] then a else a[last us + 1 := word_of_nat (hd (vs @ [0]))])"
  have parts: "links a 0 us i" "links a i vs 0"
    using l by (simp_all add: links_append)
  have apart: "v + 2 \<noteq> j + 1" "v + 2 \<noteq> j + 2" "j + 1 \<noteq> v + 1" "j + 1 \<noteq> v + 2" if "j \<in> set us" "v \<in> set vs" for j v
    using slots_apart [of us vs j v] d e that by auto
  have us: "links a1 0 us (hd (vs @ [0]))"
  proof (cases us rule: rev_cases)
    case (snoc us' u)
    then show ?thesis
      using links_set_next [of a 0 us' u i "hd (vs @ [0])"] parts d e by (auto simp: a1_def)
  qed simp
  have vs: "links a1 i vs 0"
  proof (cases "us = []")
    case False
    then have "last us \<in> set us"
      by simp
    then have "\<forall>v \<in> set vs. last us + 1 \<noteq> v + 1 \<and> last us + 1 \<noteq> v + 2"
      using apart by blast
    with False parts show ?thesis
      by (simp add: a1_def links_update)
  qed (simp add: a1_def parts)
  show ?thesis
  proof (cases vs)
    case Nil
    then have "unlink us vs a = a1"
      by (simp add: unlink_def a1_def)
    with us Nil show ?thesis
      by simp
  next
    case (Cons v vs')
    have "length a1 = length a"
      by (simp add: a1_def)
    then have "links (a1[v + 2 := word_of_nat (last (0 # us))]) (last (0 # us)) (v # vs') 0"
      using vs d e Cons by (intro links_set_prev [of a1 i]) auto
    moreover have "\<forall>j \<in> set us. v + 2 \<noteq> j + 1 \<and> v + 2 \<noteq> j + 2"
      using apart Cons by simp
    then have "links (a1[v + 2 := word_of_nat (last (0 # us))]) 0 us v"
      using us Cons by (simp add: links_update)
    moreover have "unlink us vs a = a1[v + 2 := word_of_nat (last (0 # us))]"
      by (simp add: unlink_def a1_def Cons)
    ultimately show ?thesis
      using Cons by (simp add: links_append)
  qed
qed

lemma length_unlink [simp]: "length (unlink us vs a) = length a"
  by (simp add: unlink_def Let_def)

lemma unlink_frame:
  assumes "\<forall>j \<in> set (us @ vs). k \<noteq> j + 1 \<and> k \<noteq> j + 2"
  shows "unlink us vs a ! k = a ! k"
proof -
  have "us \<noteq> [] \<Longrightarrow> k \<noteq> last us + 1" "vs \<noteq> [] \<Longrightarrow> k \<noteq> hd vs + 2"
    using assms by simp_all
  then show ?thesis
    by (auto simp: unlink_def Let_def nth_list_update)
qed


section \<open>Layout and list of a state\<close>

definition heap_layout :: "heap \<Rightarrow> blocks \<Rightarrow> bool" where
  "heap_layout h bl \<longleftrightarrow>
     small h \<and> unat (h_len h) = length (h_array h) \<and> extent bl = length (h_array h) \<and>
     (\<forall>b \<in> set bl. wf_block b) \<and>
     (\<exists>ms. bl = (2, True) # ms @ [(2, True)] \<and> (\<forall>b \<in> set ms. 4 \<le> fst b)) \<and> tagged (h_array h) 0 bl"

definition free_list :: "heap \<Rightarrow> nat list \<Rightarrow> bool" where
  "free_list h fl \<longleftrightarrow> links (h_array h) 0 fl 0 \<and> h_avail h = word_of_nat (hd (fl @ [0]))"

lemma layout_block:
  assumes "heap_layout h (xs @ (n, t) # ys)"
  shows "extent xs + n \<le> length (h_array h)" and "even n" and "2 \<le> n" and "\<not> t \<Longrightarrow> 4 \<le> n" and "small h"
    and "h_array h ! extent xs = tag n t" and "h_array h ! (extent xs + n - 1) = tag n t"
  using assms by (auto simp: heap_layout_def wf_block_def tagged_append)

lemma sanity_zero: "sanity h 0 = Inr 0"
  by (simp add: sanity_def)

lemma sanity_block:
  assumes lay: "heap_layout h (xs @ (n, t) # ys)"
  shows "sanity h (word_of_nat (extent xs)) = Inr (word_of_nat (extent xs))"
proof -
  let ?i = "extent xs"
  note B = layout_block [OF lay]
  have len: "unat (h_len h) = length (h_array h)"
    using lay by (simp add: heap_layout_def)
  define f where "f = ?i + n - 1"
  have "word_of_nat ?i + word_of_nat n - 1 = (word_of_nat f :: u64)"
    using B(3) by (simp add: of_nat_diff f_def)
  then have foot: "footerFromHeader h (word_of_nat ?i) = Inr (word_of_nat f)"
    using footer_index [of h ?i n t] B by simp
  have bound: "?i < length (h_array h)" "f < length (h_array h)"
    using B(1,3) by (simp_all add: f_def)
  then have ui: "unat (word_of_nat ?i :: u64) = ?i" "unat (word_of_nat f :: u64) = f"
    using B(5) by (simp_all add: unat_index)
  then have "\<not> h_len h \<le> word_of_nat ?i" "\<not> h_len h \<le> word_of_nat f"
    unfolding word_le_nat_alt len ui using bound by simp_all
  moreover have "aread h (word_of_nat ?i) = Inr (tag n t)" "aread h (word_of_nat f) = Inr (tag n t)"
    using B(5-7) bound by (simp_all add: aread_index f_def)
  ultimately show ?thesis
    by (simp add: sanity_def foot)
qed

lemma free_list_members:
  assumes lay: "heap_layout h bl" and sub: "set fl \<subseteq> set (free_starts 0 bl)"
  shows "\<forall>i \<in> set fl. even i \<and> 0 < i \<and> i + 4 \<le> length (h_array h)"
proof -
  have wf: "\<forall>b \<in> set bl. wf_block b" and ext: "extent bl = length (h_array h)"
    using lay by (auto simp: heap_layout_def)
  obtain ms where "bl = (2, True) # ms"
    using lay by (auto simp: heap_layout_def)
  then have "0 \<notin> set (free_starts 0 bl)"
    using free_starts_bounds [of 0 2 ms] wf by (auto simp: numeral_2_eq_2)
  moreover have "even i \<and> i + 4 \<le> length (h_array h)" if "i \<in> set (free_starts 0 bl)" for i
    using free_starts_even [OF that wf] free_starts_bounds [OF that wf] ext by simp
  ultimately show ?thesis
    using sub by (metis gr0I subsetD)
qed

lemma sanity_member:
  assumes "heap_layout h bl" and "set fl \<subseteq> set (free_starts 0 bl)" and "i = 0 \<or> i \<in> set fl"
  shows "sanity h (word_of_nat i) = Inr (word_of_nat i)"
proof (cases "i = 0")
  case False
  then obtain xs n ys where "bl = xs @ (n, False) # ys" "i = extent xs"
    using assms free_starts_split [of i 0 bl] by auto
  with assms(1) show ?thesis
    using sanity_block by blast
qed (simp add: sanity_zero)

lemma hd_append_in: "hd (vs @ [x]) = x \<or> hd (vs @ [x]) \<in> set vs"
  by (cases vs) auto

lemma last_cons_in: "last (x # us) = x \<or> last (x # us) \<in> set us"
  by (cases us rule: rev_cases) auto

lemma neighbours:
  assumes lay: "heap_layout h bl" and sub: "set (us @ i # vs) \<subseteq> set (free_starts 0 bl)"
    and l: "links (h_array h) 0 (us @ i # vs) 0"
  shows "next_block h (word_of_nat i) = Inr (word_of_nat (hd (vs @ [0])))"
    and "prev_block h (word_of_nat i) = Inr (word_of_nat (last (0 # us)))"
proof -
  have i: "i + 4 \<le> length (h_array h)" and sm: "small h"
    using free_list_members [OF lay sub] lay by (auto simp: heap_layout_def)
  have w: "h_array h ! (i + 1) = word_of_nat (hd (vs @ [0]))" "h_array h ! (i + 2) = word_of_nat (last (0 # us))"
    using l by (simp_all add: links_append)
  have "sanity h (word_of_nat (hd (vs @ [0]))) = Inr (word_of_nat (hd (vs @ [0])))"
    "sanity h (word_of_nat (last (0 # us))) = Inr (word_of_nat (last (0 # us)))"
    using sanity_member [OF lay sub] hd_append_in [of vs 0] last_cons_in [of 0 us] by auto
  with w i sm show "next_block h (word_of_nat i) = Inr (word_of_nat (hd (vs @ [0])))"
    "prev_block h (word_of_nat i) = Inr (word_of_nat (last (0 # us)))"
    using aread_plus [of h i 1] aread_plus [of h i 2] by (simp_all add: next_block_def prev_block_def)
qed

lemma remove_block_index:
  assumes lay: "heap_layout h bl" and sub: "set (us @ i # vs) \<subseteq> set (free_starts 0 bl)"
    and fl: "free_list h (us @ i # vs)"
  shows "remove_block (word_of_nat i) h =
    Inr (h\<lparr>h_array := unlink us vs (h_array h), h_avail := word_of_nat (hd (us @ vs @ [0]))\<rparr>)"
proof -
  have sm: "small h"
    using lay by (simp add: heap_layout_def)
  have nz: "(word_of_nat j :: u64) \<noteq> 0" "j + 2 < length (h_array h)" if "j \<in> set (us @ i # vs)" for j
  proof -
    have j: "0 < j" "j + 4 \<le> length (h_array h)"
      using free_list_members [OF lay sub] that by blast+
    then have "unat (word_of_nat j :: u64) = j"
      using sm by (simp add: unat_index)
    with j show "(word_of_nat j :: u64) \<noteq> 0" "j + 2 < length (h_array h)"
      by (metis less_irrefl unat_0, simp)
  qed
  note N = neighbours [OF lay sub] 
  have l: "links (h_array h) 0 (us @ i # vs) 0" "h_avail h = word_of_nat (hd (us @ [i]))"
    using fl by (simp_all add: free_list_def hd_append)
  have set1: "setNext (word_of_nat j) x g = Inr (g\<lparr>h_array := (h_array g)[j + 1 := x]\<rparr>)"
    "setPrev (word_of_nat j) x g = Inr (g\<lparr>h_array := (h_array g)[j + 2 := x]\<rparr>)"
    if "j \<in> set (us @ i # vs)" "length (h_array g) = length (h_array h)" for j x g
    using that nz(2) [of j] sm awrite_plus [of g j 1 x] awrite_plus [of g j 2 x] by (simp_all add: setNext_def setPrev_def)
  have step1: "(if word_of_nat (last (0 # us)) = (0 :: u64) then Inr (h\<lparr>h_avail := word_of_nat (hd (vs @ [0]))\<rparr>)
      else setNext (word_of_nat (last (0 # us))) (word_of_nat (hd (vs @ [0]))) h) =
      Inr (h\<lparr>h_array := (if us = [] then h_array h else (h_array h)[last us + 1 := word_of_nat (hd (vs @ [0]))]),
             h_avail := word_of_nat (hd (us @ vs @ [0]))\<rparr>)"
  proof (cases "us = []")
    case False
    then have "last us \<in> set (us @ i # vs)"
      by simp
    with False nz(1) [OF this] set1 [OF this] l(2) show ?thesis
      by simp
  qed simp
  have step2: "(if word_of_nat (hd (vs @ [0])) \<noteq> (0 :: u64)
      then setPrev (word_of_nat (hd (vs @ [0]))) (word_of_nat (last (0 # us))) g else Inr g) =
      Inr (g\<lparr>h_array := (if vs = [] then h_array g else (h_array g)[hd vs + 2 := word_of_nat (last (0 # us))])\<rparr>)"
    if "length (h_array g) = length (h_array h)" for g
  proof (cases "vs = []")
    case False
    then have "hd vs \<in> set (us @ i # vs)"
      by simp
    with False nz(1) [OF this] set1 [OF this] that show ?thesis
      by simp
  qed simp
  show ?thesis
    unfolding remove_block_def N [OF l(1)] bind_outcome_simps step1
    by (subst step2) (simp_all add: unlink_def)
qed


section \<open>Placing a block\<close>

lemma wf_block_pos: "wf_block b \<Longrightarrow> 1 \<le> fst b"
  by (simp add: wf_block_def)

lemma place_tags:
  assumes "tagged a 0 xs" and "tagged a (extent xs + n) ys" and "\<forall>b \<in> set (xs @ ys). wf_block b"
    and "1 \<le> m" and "m \<le> n" and "extent xs + m \<le> length a"
  shows "tagged (a[extent xs := tag m t, extent xs + m - 1 := tag m t]) 0 (xs @ [(m, t)])"
    and "tagged (a[extent xs := tag m t, extent xs + m - 1 := tag m t]) (extent xs + n) ys"
proof -
  let ?a = "a[extent xs := tag m t, extent xs + m - 1 := tag m t]"
  have one: "\<forall>b \<in> set xs. 1 \<le> fst b" "\<forall>b \<in> set ys. 1 \<le> fst b"
    using assms(3) wf_block_pos by auto
  have "tagged ?a 0 xs = tagged a 0 xs" "tagged ?a (extent xs + n) ys = tagged a (extent xs + n) ys"
    using assms(4,5) one by (auto intro!: tagged_frame)
  moreover have "?a ! extent xs = tag m t" "?a ! (extent xs + m - 1) = tag m t"
    using assms(4,6) by (simp_all add: nth_list_update)
  ultimately show "tagged ?a 0 (xs @ [(m, t)])" "tagged ?a (extent xs + n) ys"
    using assms(1,2) by (simp_all add: tagged_append)
qed

lemma free_start_outside:
  assumes "j \<in> set (free_starts 0 (xs @ (n, t) # ys))" and "j \<noteq> extent xs" and "\<forall>b \<in> set (xs @ ys). wf_block b"
  shows "j + 2 < extent xs \<or> extent xs + n \<le> j"
  using assms free_starts_bounds [of j 0 xs] free_starts_bounds [of j "extent xs + n" ys]
  by (auto simp: free_starts_append split: if_splits)

lemma links_outside:
  "\<forall>j \<in> set is. j + 2 < i \<or> i + n \<le> j \<Longrightarrow> i \<le> k \<Longrightarrow> k < i + n \<Longrightarrow> links (a[k := x]) p is q = links a p is q"
  by (rule links_update) fastforce

lemma makeAvail_push:
  assumes sm: "small g" and tags: "tagged (h_array g) 0 xs" "tagged (h_array g) (extent xs + m) ys"
    and wf: "\<forall>b \<in> set (xs @ (m, False) # ys). wf_block b"
    and len: "extent xs + m + extent ys = length (h_array g)"
    and fl: "free_list g fl" "distinct fl" "extent xs \<notin> set fl" "0 \<notin> set fl"
    and sub: "set fl \<subseteq> set (free_starts 0 (xs @ (m, False) # ys))"
  shows "\<exists>a'. makeAvail (word_of_nat (extent xs)) (word_of_nat m) g =
      Inr (g\<lparr>h_array := a', h_avail := word_of_nat (extent xs)\<rparr>) \<and>
    length a' = length (h_array g) \<and> tagged a' 0 (xs @ (m, False) # ys) \<and> links a' 0 (extent xs # fl) 0 \<and>
    (\<forall>k. k \<notin> {extent xs..<extent xs + m} \<longrightarrow> (\<forall>j \<in> set fl. k \<noteq> j + 2) \<longrightarrow> a' ! k = h_array g ! k)"
proof -
  let ?i = "extent xs" and ?bl = "xs @ (m, False) # ys"
  have m: "even m" "4 \<le> m"
    using wf by (auto simp: wf_block_def)
  define a1 where "a1 = (h_array g)[?i := tag m False, ?i + m - 1 := tag m False]"
  define a2 where "a2 = a1[?i + 1 := h_avail g, ?i + 2 := 0]"
  define a' where "a' = (if fl = [] then a2 else a2[hd fl + 2 := word_of_nat ?i])"
  have bounds: "\<forall>j \<in> set fl. 0 < j \<and> even j \<and> j + 2 < length (h_array g)"
  proof
    fix j
    assume "j \<in> set fl"
    then have "j \<in> set (free_starts 0 ?bl)" "j \<noteq> 0"
      using sub fl(4) by (blast, metis)
    then show "0 < j \<and> even j \<and> j + 2 < length (h_array g)"
      using free_starts_bounds [OF _ wf] free_starts_even [OF _ wf] len by force
  qed
  have out: "\<forall>j \<in> set fl. j + 2 < ?i \<or> ?i + m \<le> j"
  proof
    fix j
    assume j: "j \<in> set fl"
    then have "j \<noteq> ?i"
      using fl(3) by blast
    then show "j + 2 < ?i \<or> ?i + m \<le> j"
      using free_start_outside [of j xs m False ys] sub j wf by auto
  qed
  have mk: "makeAvail (word_of_nat ?i) (word_of_nat m) g = Inr (g\<lparr>h_array := a', h_avail := word_of_nat ?i\<rparr>)"
    using makeAvail_index [of g ?i m fl] sm len m fl(1) bounds
    by (simp add: a'_def a2_def a1_def Let_def free_list_def)
  have ifree: "?i \<in> set (free_starts 0 ?bl)"
    by (simp add: free_starts_append)
  have "tagged a1 0 (xs @ [(m, False)])" "tagged a1 (?i + m) ys"
    using place_tags [of "h_array g" xs m ys m False] tags wf m len by (simp_all add: a1_def)
  then have "tagged a1 0 ?bl"
    by (simp add: tagged_append)
  then have "tagged a2 0 ?bl"
    by (simp only: a2_def tagged_link_update [OF wf ifree] simp_thms)
  then have tagged': "tagged a' 0 ?bl"
    using tagged_link_update [OF wf, of "hd fl" 0 2 a2] sub by (cases fl) (auto simp: a'_def)
  have la: "length a2 = length (h_array g)"
    by (simp add: a2_def a1_def)
  have i2: "?i + 2 < length (h_array g)"
    using m len by simp
  have "links a2 0 fl 0 = links (h_array g) 0 fl 0"
    unfolding a2_def a1_def using m
    by (simp add: links_outside [OF out])
  then have l2: "links a2 0 fl 0"
    using fl(1) by (simp add: free_list_def)
  have "links a' ?i fl 0"
  proof (cases fl)
    case (Cons j js)
    then show ?thesis
      using links_set_prev [of a2 0 j js 0 ?i] l2 fl(2) bounds la by (simp add: a'_def)
  qed simp
  moreover have "a' ! (?i + 2) = 0" "a' ! (?i + 1) = word_of_nat (hd (fl @ [0]))"
  proof -
    have "fl \<noteq> [] \<Longrightarrow> hd fl + 2 \<noteq> ?i + 1 \<and> hd fl + 2 \<noteq> ?i + 2"
      using out m by (cases fl) auto
    then show "a' ! (?i + 2) = 0" "a' ! (?i + 1) = word_of_nat (hd (fl @ [0]))"
      using i2 fl(1) by (auto simp: a'_def a2_def a1_def free_list_def nth_list_update)
  qed
  ultimately have links': "links a' 0 (?i # fl) 0"
    by simp
  have "a' ! k = h_array g ! k" if "k \<notin> {?i..<?i + m}" "\<forall>j \<in> set fl. k \<noteq> j + 2" for k
  proof -
    have "fl \<noteq> [] \<Longrightarrow> k \<noteq> hd fl + 2"
      using that(2) by simp
    then show ?thesis
      using that(1) m by (auto simp: a'_def a2_def a1_def nth_list_update_neq)
  qed
  with mk la tagged' links' show ?thesis
    by (intro exI [of _ a']) (auto simp: a'_def)
qed


section \<open>The invariant\<close>

text \<open>
  The array is tiled by tagged blocks between two taken ones, no two available blocks are adjacent, the
  list holds exactly the available blocks, and the heap is aligned and does not wrap around.
\<close>

definition coalesced :: "blocks \<Rightarrow> bool" where
  "coalesced bl \<longleftrightarrow> successively (\<lambda>b c. snd b \<or> snd c) bl"

definition heap_inv :: "heap \<Rightarrow> blocks \<Rightarrow> nat list \<Rightarrow> bool" where
  "heap_inv h bl fl \<longleftrightarrow>
     heap_layout h bl \<and> free_list h fl \<and> mset fl = mset (free_starts 0 bl) \<and> coalesced bl \<and>
     h_base h mod 16 = 8 \<and> unat (h_base h) + 8 * length (h_array h) \<le> 2 ^ 64"

lemma heap_inv_list:
  assumes "heap_inv h bl fl"
  shows "set fl = set (free_starts 0 bl)" and "distinct fl" and "0 \<notin> set fl"
    and "\<forall>i \<in> set fl. even i \<and> 0 < i \<and> i + 4 \<le> length (h_array h)"
proof -
  have m: "mset fl = mset (free_starts 0 bl)" and lay: "heap_layout h bl"
    using assms by (simp_all add: heap_inv_def)
  show s: "set fl = set (free_starts 0 bl)"
    using mset_eq_setD [OF m] .
  have "distinct (free_starts 0 bl)"
    using lay by (intro distinct_free_starts) (simp add: heap_layout_def)
  then show "distinct fl"
    using mset_eq_imp_distinct_iff [OF m] by simp
  show "\<forall>i \<in> set fl. even i \<and> 0 < i \<and> i + 4 \<le> length (h_array h)"
    using free_list_members [OF lay] s by blast
  then show "0 \<notin> set fl"
    by blast
qed

lemma free_words_start:
  "j \<in> set (free_starts k bl) \<Longrightarrow> \<forall>b \<in> set bl. wf_block b \<Longrightarrow> {j..<j + 4} \<subseteq> free_words k bl"
proof (induction k bl rule: free_words.induct)
  case (2 k n t bl)
  then show ?case
    by (auto simp: wf_block_def split: if_splits)
qed simp

lemma free_words_block: "{extent xs..<extent xs + n} \<subseteq> free_words 0 (xs @ (n, False) # ys)"
  by (auto simp: free_words_append)

lemma tagged_unlink:
  assumes "\<forall>b \<in> set bl. wf_block b" and "set (us @ vs) \<subseteq> set (free_starts k bl)"
  shows "tagged (unlink us vs a) k bl = tagged a k bl"
proof -
  have "us \<noteq> [] \<Longrightarrow> last us \<in> set (free_starts k bl)" "vs \<noteq> [] \<Longrightarrow> hd vs \<in> set (free_starts k bl)"
    using assms(2) by (auto simp: subset_iff)
  moreover have "tagged (b[Suc i := x]) k bl = tagged b k bl" "tagged (b[Suc (Suc i) := x]) k bl = tagged b k bl"
    if "i \<in> set (free_starts k bl)" for i b x
    using tagged_link_update [OF assms(1) that, of 1] tagged_link_update [OF assms(1) that, of 2] by simp_all
  ultimately show ?thesis
    by (auto simp: unlink_def Let_def)
qed

text \<open>Taking a block off the list.\<close>

lemma remove_inv:
  assumes lay: "heap_layout h (xs @ (n, False) # ys)" and fl: "free_list h fl" and d: "distinct fl"
    and sub: "set fl \<subseteq> set (free_starts 0 (xs @ (n, False) # ys))" and mem: "extent xs \<in> set fl"
  shows "\<exists>us vs. fl = us @ extent xs # vs \<and>
    remove_block (word_of_nat (extent xs)) h =
      Inr (h\<lparr>h_array := unlink us vs (h_array h), h_avail := word_of_nat (hd (us @ vs @ [0]))\<rparr>) \<and>
    tagged (unlink us vs (h_array h)) 0 (xs @ (n, False) # ys) \<and>
    links (unlink us vs (h_array h)) 0 (us @ vs) 0 \<and>
    (\<forall>j \<in> set (us @ vs). j + 2 < extent xs \<or> extent xs + n \<le> j) \<and>
    (\<forall>k. k \<notin> free_words 0 (xs @ (n, False) # ys) \<longrightarrow> unlink us vs (h_array h) ! k = h_array h ! k)"
proof -
  let ?bl = "xs @ (n, False) # ys"
  have wf: "\<forall>b \<in> set ?bl. wf_block b"
    using lay by (simp add: heap_layout_def)
  note M = free_list_members [OF lay sub]
  obtain us vs where split: "fl = us @ extent xs # vs"
    using mem by (meson split_list)
  have sub': "set (us @ extent xs # vs) \<subseteq> set (free_starts 0 ?bl)"
    using sub split by simp
  have wf': "\<forall>b \<in> set (xs @ ys). wf_block b"
    using wf by simp
  have out: "\<forall>j \<in> set (us @ vs). j + 2 < extent xs \<or> extent xs + n \<le> j"
  proof
    fix j
    assume j: "j \<in> set (us @ vs)"
    then have "j \<noteq> extent xs" "j \<in> set (free_starts 0 ?bl)"
      using d split sub' by (auto simp del: free_starts.simps)
    then show "j + 2 < extent xs \<or> extent xs + n \<le> j"
      using free_start_outside [OF _ _ wf'] by blast
  qed
  have tagged': "tagged (unlink us vs (h_array h)) 0 ?bl"
    using tagged_unlink [OF wf, of us vs 0 "h_array h"] sub' lay by (simp add: heap_layout_def)
  have M': "\<forall>j \<in> set (us @ extent xs # vs). even j \<and> j + 2 < length (h_array h)"
    using M split by fastforce
  have links': "links (unlink us vs (h_array h)) 0 (us @ vs) 0"
    using fl d M' split by (intro links_unlink [of _ us "extent xs"]) (auto simp: free_list_def)
  have "unlink us vs (h_array h) ! k = h_array h ! k" if k: "k \<notin> free_words 0 ?bl" for k
  proof (rule unlink_frame)
    show "\<forall>j \<in> set (us @ vs). k \<noteq> j + 1 \<and> k \<noteq> j + 2"
    proof
      fix j
      assume "j \<in> set (us @ vs)"
      then have "j \<in> set (free_starts 0 ?bl)"
        using sub' by auto
      from free_words_start [OF this wf] k show "k \<noteq> j + 1 \<and> k \<noteq> j + 2"
        by (auto simp: subset_iff)
    qed
  qed
  then show ?thesis
    using split remove_block_index [OF lay sub'] fl tagged' links' out by blast
qed


section \<open>Allocation\<close>

text \<open>What becomes of an available block of \<open>n\<close> words from which \<open>e\<close> are needed.\<close>

definition cut :: "nat \<Rightarrow> nat \<Rightarrow> blocks" where
  "cut n e = (if 4 \<le> n - e then [(e, True), (n - e, False)] else [(n, True)])"

lemma middle_block:
  assumes "xs @ b # ys = (2, True) # ms @ [(2, True)]" and "xs \<noteq> []" and "ys \<noteq> []"
  shows "\<exists>xs' ys'. xs = (2, True) # xs' \<and> ys = ys' @ [(2, True)] \<and> ms = xs' @ b # ys'"
proof -
  obtain xs' where xs: "xs = (2, True) # xs'"
    using assms by (cases xs) auto
  obtain ys' y where "ys = ys' @ [y]"
    using assms(3) by (cases ys rule: rev_cases) auto
  with assms(1) xs show ?thesis
    by auto
qed

lemma layout_middle:
  assumes "heap_layout h (xs @ (n, False) # ys)"
  shows "xs \<noteq> []" and "ys \<noteq> []"
proof -
  obtain ms where ms: "xs @ (n, False) # ys = (2, True) # ms @ [(2, True)]"
    using assms by (auto simp: heap_layout_def)
  show "xs \<noteq> []" using ms by auto
  then obtain xs' where "xs' @ (n, False) # ys = ms @ [(2, True)]"
    using ms by (cases xs) auto
  then show "ys \<noteq> []" by auto
qed

text \<open>Replacing inner blocks by others of the same extent.\<close>

lemma layout_replace:
  assumes lay: "heap_layout h (xs @ bs @ ys)" and ne: "xs \<noteq> []" "ys \<noteq> []" "bs \<noteq> []"
    and same: "h_len h' = h_len h" "length (h_array h') = length (h_array h)"
    and new: "tagged (h_array h') 0 (xs @ cs @ ys)" "extent cs = extent bs" "\<forall>b \<in> set cs. even (fst b) \<and> 4 \<le> fst b"
  shows "heap_layout h' (xs @ cs @ ys)"
proof -
  obtain ms where ms: "xs @ bs @ ys = (2, True) # ms @ [(2, True)]" "\<forall>b \<in> set ms. 4 \<le> fst b"
    using lay by (auto simp: heap_layout_def)
  obtain xs' where xs: "xs = (2, True) # xs'"
    using ms(1) ne(1) by (cases xs) auto
  obtain ys' y where ys: "ys = ys' @ [y]"
    using ne(2) by (cases ys rule: rev_cases) auto
  have "xs @ cs @ ys = (2, True) # (xs' @ cs @ ys') @ [(2, True)]" "ms = xs' @ bs @ ys'"
    using ms(1) xs ys by auto
  then have "\<exists>ms. xs @ cs @ ys = (2, True) # ms @ [(2, True)] \<and> (\<forall>b \<in> set ms. 4 \<le> fst b)"
    using ms(2) new(3) by (intro exI [of _ "xs' @ cs @ ys'"]) auto
  then show ?thesis
    using lay same new unfolding heap_layout_def by (auto simp: wf_block_def)
qed

lemma coalesced_replace:
  assumes "coalesced (xs @ (n, False) # ys)" and "bs \<noteq> []" and "coalesced bs"
  shows "coalesced (xs @ bs @ ys)"
  using assms unfolding coalesced_def
  by (auto simp: successively_append_iff successively_Cons hd_append split: if_splits)

lemma payload_address:
  assumes "heap_inv h bl fl" and "i + 1 < length (h_array h)"
  shows "unat (h_base h + 8 * (word_of_nat i + 1)) = unat (h_base h) + 8 * (i + 1)"
    and "h_base h + 8 * (word_of_nat i + 1) \<noteq> 0"
proof -
  define w :: u64 where "w = 8 * (word_of_nat i + 1)"
  have "w = word_of_nat (8 * (i + 1))"
    by (simp add: w_def)
  then have w: "unat w = 8 * (i + 1)"
    using assms by (simp only: heap_inv_def heap_layout_def unat_of_nat) simp
  then have "unat (h_base h + w) = unat (h_base h) + 8 * (i + 1)"
    using assms by (simp add: heap_inv_def unat_word_ariths)
  then show "unat (h_base h + 8 * (word_of_nat i + 1)) = unat (h_base h) + 8 * (i + 1)"
    by (simp only: w_def)
  then show "h_base h + 8 * (word_of_nat i + 1) \<noteq> 0"
    by (metis add_is_0 mult_is_0 unat_0 zero_neq_numeral zero_neq_one)
qed

lemma take_block_inv:
  assumes inv: "heap_inv h (xs @ (n, False) # ys) fl" and e: "even e" "4 \<le> e" "e \<le> n"
  shows "\<exists>h' fl'. take_block (word_of_nat e) (word_of_nat n) (word_of_nat (extent xs)) h =
      Inr (h_base h + 8 * (word_of_nat (extent xs) + 1), h') \<and>
    heap_inv h' (xs @ cut n e @ ys) fl' \<and> h_base h' = h_base h \<and>
    n_malloc h' = n_malloc h + 1 \<and> n_free h' = n_free h \<and> length (h_array h') = length (h_array h) \<and>
    (\<forall>k. k \<notin> free_words 0 (xs @ (n, False) # ys) \<longrightarrow> h_array h' ! k = h_array h ! k)"
proof -
  let ?bl = "xs @ (n, False) # ys" and ?i = "extent xs"
  have lay: "heap_layout h ?bl" and co: "coalesced ?bl" and wf: "\<forall>b \<in> set ?bl. wf_block b"
    using inv by (simp_all add: heap_inv_def heap_layout_def)
  note B = layout_block [OF lay] and L = heap_inv_list [OF inv]
  have i1: "?i + 1 < length (h_array h)"
    using B(1,3) by simp
  note P = payload_address [OF inv i1]
  have F: "free_list h fl" "distinct fl" "set fl \<subseteq> set (free_starts 0 ?bl)" "?i \<in> set fl"
    using inv L(1,2) by (simp_all add: heap_inv_def free_starts_append)
  obtain us vs where R: "fl = us @ ?i # vs"
    "remove_block (word_of_nat ?i) h =
      Inr (h\<lparr>h_array := unlink us vs (h_array h), h_avail := word_of_nat (hd (us @ vs @ [0]))\<rparr>)"
    "tagged (unlink us vs (h_array h)) 0 ?bl" "links (unlink us vs (h_array h)) 0 (us @ vs) 0"
    "\<forall>j \<in> set (us @ vs). j + 2 < ?i \<or> ?i + n \<le> j"
    "\<forall>k. k \<notin> free_words 0 ?bl \<longrightarrow> unlink us vs (h_array h) ! k = h_array h ! k"
    using remove_inv [OF lay F] by blast
  define h1 where "h1 = h\<lparr>h_array := unlink us vs (h_array h), h_avail := word_of_nat (hd (us @ vs @ [0]))\<rparr>"
  have mset': "mset (us @ vs) = mset (free_starts 0 xs @ free_starts (?i + n) ys)"
    using inv R(1) by (simp add: heap_inv_def free_starts_append)
  have nz: "word_of_nat ?i \<noteq> (0 :: u64)"
  proof -
    have "0 < ?i" "?i < 2 ^ 31"
      using L(4) R(1) i1 B(5) by auto
    then show ?thesis
      using unat_index [of ?i] by auto
  qed
  have small1: "small h1" "length (h_array h1) = length (h_array h)"
    using B(5) by (simp_all add: h1_def)
  have extra: "to_int (word_of_nat n - word_of_nat e) = int (n - e)"
    using e B(1,5) to_int_index [of "n - e"] by (simp add: of_nat_diff)
  have tags1: "tagged (h_array h1) 0 xs" "tagged (h_array h1) (?i + n) ys"
    using R(3) by (simp_all add: h1_def tagged_append)
  have frame1: "k \<notin> free_words 0 ?bl \<Longrightarrow> k < ?i \<or> ?i + n \<le> k" for k
    using free_words_block [of xs n ys] by (meson atLeastLessThan_iff not_le subsetD)
  show ?thesis
  proof (cases "4 \<le> n - e")
    case False
    define a where "a = (h_array h1)[?i := tag n True, ?i + n - 1 := tag n True]"
    define h' where "h' = h1\<lparr>h_array := a, n_malloc := n_malloc h + 1\<rparr>"
    have mk: "makeTaken (word_of_nat ?i) (word_of_nat n) h1 = Inr (h1\<lparr>h_array := a\<rparr>)"
      using makeTaken_index [of h1 ?i n] B small1 by (simp add: a_def)
    have "take_block (word_of_nat e) (word_of_nat n) (word_of_nat ?i) h =
        Inr (h_base h + 8 * (word_of_nat ?i + 1), h')"
      using nz R(2) mk False P(2) by (simp add: take_block_def Let_def extra h1_def h'_def)
    moreover have "heap_layout h' (xs @ [(n, True)] @ ys)"
    proof (rule layout_replace [of h xs "[(n, False)]"])
      have "tagged a 0 (xs @ [(n, True)])" "tagged a (?i + n) ys"
        using place_tags [OF tags1, of n True] wf B(1,3) small1 by (simp_all add: a_def)
      then show "tagged (h_array h') 0 (xs @ [(n, True)] @ ys)"
        by (simp add: h'_def tagged_append)
    qed (use B lay layout_middle [OF lay] in \<open>simp_all add: h'_def h1_def a_def\<close>)
    moreover have "links a 0 (us @ vs) 0"
      using R(4) B(3) by (simp add: a_def h1_def links_outside [OF R(5)])
    then have "free_list h' (us @ vs)"
      by (simp add: free_list_def h'_def h1_def)
    moreover have "coalesced (xs @ [(n, True)] @ ys)"
      using co by (intro coalesced_replace) (simp_all add: coalesced_def)
    moreover have "h_array h' ! k = h_array h ! k" if "k \<notin> free_words 0 ?bl" for k
    proof -
      have "?i \<noteq> k" "?i + n - 1 \<noteq> k"
        using frame1 [OF that] B(3) by auto
      then show ?thesis
        using R(6) that by (simp add: h'_def h1_def a_def)
    qed
    ultimately show ?thesis
      using inv mset' False
      by (intro exI [of _ h'] exI [of _ "us @ vs"])
        (simp add: heap_inv_def cut_def free_starts_append h'_def h1_def a_def)
  next
    case True
    define a where "a = (h_array h1)[?i := tag e True, ?i + e - 1 := tag e True]"
    define h2 where "h2 = h1\<lparr>h_array := a\<rparr>"
    let ?m = "n - e" and ?xs = "xs @ [(e, True)]"
    have ei: "extent ?xs = ?i + e"
      by simp
    have mk: "makeTaken (word_of_nat ?i) (word_of_nat e) h1 = Inr h2"
      using makeTaken_index [of h1 ?i e] B e small1 by (simp add: a_def h2_def)
    have P1: "tagged a 0 ?xs" "tagged a (?i + n) ys"
      using place_tags [OF tags1, of e True] wf B(1) e small1 by (simp_all add: a_def)
    have l2: "links a 0 (us @ vs) 0"
      using R(4) e by (simp add: a_def h1_def links_outside [OF R(5)])
    have sub: "set (us @ vs) \<subseteq> set (free_starts 0 (?xs @ (?m, False) # ys))"
      using mset_eq_setD [OF mset'] True e(3) by (auto simp: free_starts_append)
    have notin: "extent ?xs \<notin> set (us @ vs)"
    proof
      assume "extent ?xs \<in> set (us @ vs)"
      then have "extent ?xs + 2 < ?i \<or> ?i + n \<le> extent ?xs"
        using R(5) by blast
      then show False
        using True by simp
    qed
    have wf2: "\<forall>b \<in> set (?xs @ (?m, False) # ys). wf_block b"
      using wf e True B(2) by (auto simp: wf_block_def)
    have "extent ?xs + ?m + extent ys = length (h_array h2)"
      using lay e(3) small1 by (simp add: heap_layout_def h2_def a_def)
    moreover have "tagged (h_array h2) (extent ?xs + ?m) ys" "tagged (h_array h2) 0 ?xs" "small h2"
      using P1 e(3) small1 by (simp_all add: h2_def a_def)
    moreover have "free_list h2 (us @ vs)" "distinct (us @ vs)" "0 \<notin> set (us @ vs)"
      using l2 L R(1) by (auto simp: free_list_def h2_def h1_def)
    ultimately obtain a' where A: "makeAvail (word_of_nat (extent ?xs)) (word_of_nat ?m) h2 =
        Inr (h2\<lparr>h_array := a', h_avail := word_of_nat (extent ?xs)\<rparr>)"
      "length a' = length (h_array h2)" "tagged a' 0 (?xs @ (?m, False) # ys)" "links a' 0 (extent ?xs # us @ vs) 0"
      "\<forall>k. k \<notin> {extent ?xs..<extent ?xs + ?m} \<longrightarrow> (\<forall>j \<in> set (us @ vs). k \<noteq> j + 2) \<longrightarrow> a' ! k = h_array h2 ! k"
      using makeAvail_push [of h2 ?xs ?m ys "us @ vs"] wf2 notin sub by blast
    define h' where "h' = h2\<lparr>h_array := a', h_avail := word_of_nat (?i + e), n_malloc := n_malloc h + 1\<rparr>"
    have fit: "4 \<le> int n - int e"
      using True e(3) by linarith
    have "word_of_nat ?i + word_of_nat e = (word_of_nat (extent ?xs) :: u64)"
      by simp
    then have "take_block (word_of_nat e) (word_of_nat n) (word_of_nat ?i) h =
        Inr (h_base h + 8 * (word_of_nat ?i + 1), h')"
      using nz R(2) mk fit A(1) P(2) e(3)
      by (simp add: take_block_def Let_def extra h1_def h'_def h2_def del: of_nat_add)
    moreover have "heap_layout h' (xs @ [(e, True), (?m, False)] @ ys)"
    proof (rule layout_replace [of h xs "[(n, False)]"])
      show "tagged (h_array h') 0 (xs @ [(e, True), (?m, False)] @ ys)"
        using A(3) by (simp add: h'_def)
      show "length (h_array h') = length (h_array h)"
        using A(2) small1(2) by (simp add: h'_def h2_def a_def)
      show "\<forall>b \<in> set [(e, True), (?m, False)]. even (fst b) \<and> 4 \<le> fst b"
        using e True B(2) by simp
      show "extent [(e, True), (?m, False)] = extent [(n, False)]"
        using e(3) by simp
    qed (use lay layout_middle [OF lay] in \<open>simp_all add: h'_def h2_def h1_def\<close>)
    moreover have "free_list h' ((?i + e) # us @ vs)"
      using A(4) by (simp add: free_list_def h'_def h2_def)
    moreover have "coalesced (xs @ [(e, True), (?m, False)] @ ys)"
      using co by (intro coalesced_replace) (simp_all add: coalesced_def)
    moreover have "h_array h' ! k = h_array h ! k" if k: "k \<notin> free_words 0 ?bl" for k
    proof -
      have out: "k < ?i \<or> ?i + n \<le> k"
        using frame1 [OF k] .
      have "k \<noteq> j + 2" if "j \<in> set (us @ vs)" for j
      proof -
        have "j \<in> set (free_starts 0 ?bl)"
          using L(1) R(1) that by auto
        then show ?thesis
          using free_words_start [OF _ wf] k by (auto simp: subset_iff)
      qed
      moreover have "k \<notin> {extent ?xs..<extent ?xs + ?m}"
        using out e(3) by auto
      ultimately have "a' ! k = a ! k"
        using A(5) by (simp add: h2_def)
      moreover have "?i \<noteq> k" "?i + e - 1 \<noteq> k"
        using out e B(3) by auto
      ultimately show ?thesis
        using R(6) k by (simp add: h'_def a_def h1_def)
    qed
    ultimately show ?thesis
      using inv mset' True e(3) A(2)
      by (intro exI [of _ h'] exI [of _ "(?i + e) # us @ vs"])
        (simp add: heap_inv_def cut_def free_starts_append h'_def h2_def h1_def a_def)
  qed
qed


text \<open>The size of the block at an index.\<close>

definition size_at :: "heap \<Rightarrow> nat \<Rightarrow> nat" where
  "size_at h i = unat (h_array h ! i)"

lemma size_at_block:
  assumes "heap_layout h (xs @ (n, False) # ys)"
  shows "size_at h (extent xs) = n"
  using layout_block [OF assms] unat_index [of n] by (simp add: size_at_def tag_def)

text \<open>
  The search ends. What it returns is an available block that is large enough, and when it returns none
  then none is.
\<close>

lemma search_result:
  assumes lay: "heap_layout h bl" and sub: "set (us @ is) \<subseteq> set (free_starts 0 bl)"
    and l: "links (h_array h) 0 (us @ is) 0" and old: "it = 0 \<longrightarrow> mx = - 1"
  shows "\<exists>mx' it'. search h e c (word_of_nat (hd (is @ [0]))) mx it = Some (Inr (mx', it')) \<and>
    (it' = 0 \<longrightarrow> it = 0 \<and> (\<forall>i \<in> set is. size_at h i < unat e)) \<and>
    ((mx', it') = (mx, it) \<or> (\<exists>i \<in> set is. it' = word_of_nat i \<and> mx' = word_of_nat (size_at h i) \<and> unat e \<le> size_at h i))"
  using sub l old
proof (induction "is" arbitrary: us c mx it)
  case Nil
  then show ?case
    by (simp add: search.simps)
next
  case (Cons i "is")
  have "i \<in> set (free_starts 0 bl)"
    using Cons.prems(1) by simp
  then obtain xs n ys where bl: "bl = xs @ (n, False) # ys" "i = extent xs"
    using free_starts_split [of i 0 bl] by auto
  note B = layout_block [OF lay [unfolded bl(1)]]
  have sz: "size_at h i = n"
    using size_at_block lay bl by simp
  have mem: "0 < i" "i < length (h_array h)"
    using free_list_members [OF lay Cons.prems(1)] by auto
  then have nz: "word_of_nat i \<noteq> (0 :: u64)"
    using unat_index [of i] B(5) by auto
  have rd: "isTaken h (word_of_nat i) = Inr False" "block_size h (word_of_nat i) = Inr (word_of_nat n)"
    using B mem bl by (simp_all add: isTaken_def block_size_def aread_index)
  have nx: "next_block h (word_of_nat i) = Inr (word_of_nat (hd (is @ [0])))"
    using neighbours(1) [OF lay Cons.prems(1,2)] .
  have n: "unat (word_of_nat n :: u64) = n"
    using B(1,5) by (simp add: unat_index)
  define fits where "fits \<longleftrightarrow> e \<le> word_of_nat n"
  define mx1 where "mx1 = (if fits \<and> word_of_nat n < mx then word_of_nat n else mx)"
  define it1 where "it1 = (if fits \<and> word_of_nat n < mx then word_of_nat i else it)"
  define c1 where "c1 = (if fits then c - 1 else c)"
  have step: "search h e c (word_of_nat i) mx it =
      (if fits \<and> (c1 = 0 \<or> word_of_nat n = e) then Some (Inr (mx1, it1))
       else search h e c1 (word_of_nat (hd (is @ [0]))) mx1 it1)"
    using nz rd nx
    by (subst search.simps) (simp add: Let_def fits_def mx1_def it1_def c1_def)
  have "unat (- 1 :: u64) = 2 ^ 64 - 1"
    by (simp add: unsigned_minus_1_eq_mask mask_eq_exp_minus_1)
  then have "word_of_nat n < (- 1 :: u64)"
    using n B(1,5) by (simp add: word_less_nat_alt)
  then have first: "fits \<Longrightarrow> it1 \<noteq> 0"
    using Cons.prems(3) nz by (auto simp: it1_def)
  have fits': "fits \<longleftrightarrow> unat e \<le> size_at h i"
    using n sz by (simp add: fits_def word_le_nat_alt)
  have new: "(mx1, it1) = (mx, it) \<or> it1 = word_of_nat i \<and> mx1 = word_of_nat (size_at h i) \<and> unat e \<le> size_at h i"
    using sz fits' by (simp add: mx1_def it1_def)
  have old1: "it1 = 0 \<longrightarrow> mx1 = - 1"
    using first Cons.prems(3) by (auto simp: mx1_def it1_def)
  have it1: "it1 = 0 \<Longrightarrow> it = 0 \<and> size_at h i < unat e"
    using first fits' by (auto simp: it1_def split: if_splits)
  show ?case
  proof (cases "fits \<and> (c1 = 0 \<or> word_of_nat n = e)")
    case True
    then show ?thesis
      using step first new by (intro exI [of _ mx1] exI [of _ it1]) auto
  next
    case False
    define found where "found j a b \<longleftrightarrow> b = word_of_nat j \<and> a = word_of_nat (size_at h j) \<and> unat e \<le> size_at h j"
      for j and a b :: u64
    from Cons.IH [of "us @ [i]" it1 mx1 c1] Cons.prems(1,2) old1
    obtain mx' it' where R: "search h e c1 (word_of_nat (hd (is @ [0]))) mx1 it1 = Some (Inr (mx', it'))"
      "it' = 0 \<longrightarrow> it1 = 0 \<and> (\<forall>i \<in> set is. size_at h i < unat e)"
      "(mx', it') = (mx1, it1) \<or> (\<exists>j \<in> set is. found j mx' it')"
      unfolding found_def by auto
    have "(mx', it') = (mx, it) \<or> (\<exists>j \<in> set (i # is). found j mx' it')"
      using R(3) new [folded found_def] by auto
    moreover have "it' = 0 \<longrightarrow> it = 0 \<and> (\<forall>j \<in> set (i # is). size_at h j < unat e)"
      using R(2) it1 by auto
    moreover have "search h e c (word_of_nat (hd ((i # is) @ [0]))) mx it = Some (Inr (mx', it'))"
      using R(1) step False by (simp only: append_Cons list.sel if_False)
    ultimately show ?thesis
      unfolding found_def by blast
  qed
qed

text \<open>The size in words, with the two tags, of a block for a number of bytes.\<close>

definition words_needed :: "nat \<Rightarrow> nat" where
  "words_needed b = (let e = max 4 ((b + 7) div 8 + 2) in if odd e then e + 1 else e)"

lemma words_needed:
  "even (words_needed b)" "4 \<le> words_needed b" "b \<le> 8 * (words_needed b - 2)"
  "words_needed b = 4 \<or> 8 * (words_needed b - 2) < b + 16"
  by (auto simp: words_needed_def Let_def max_def split: if_splits)

lemma entries_for_exact:
  assumes "unat b < 2 ^ 64 - 7"
  shows "unat (entries_for b) = words_needed (unat b)"
proof -
  have 7: "unat (b + 7) = unat b + 7"
    using assms by (simp add: unat_word_ariths)
  then have "unat ((b + 7) div 8) = (unat b + 7) div 8"
    by (simp add: unat_div)
  moreover have "(unat b + 7) div 8 \<le> 2 ^ 61"
    using assms by simp
  ultimately have e: "unat ((b + 7) div 8 + 2) = (unat b + 7) div 8 + 2"
    by (simp add: unat_word_ariths)
  define e where "e = (if (b + 7) div 8 + 2 < 4 then 4 else (b + 7) div 8 + 2)"
  have ue: "unat e = max 4 ((unat b + 7) div 8 + 2)"
    using e by (auto simp: e_def word_less_nat_alt max_def)
  moreover have "unat e < 2 ^ 62"
    using ue \<open>(unat b + 7) div 8 \<le> 2 ^ 61\<close> by (simp add: max_def)
  then have "unat (e + 1) = unat e + 1"
    by (simp add: unat_word_ariths)
  moreover have "e AND 1 \<noteq> 0 \<longleftrightarrow> odd (unat e)"
    using even_word [of "unat e"] even_word [of "unat e + 1"]
    by (auto simp: and_one_eq even_iff_mod_2_eq_zero [symmetric])
  ultimately show ?thesis
    by (simp add: entries_for_def Let_def words_needed_def e_def [symmetric])
qed

lemma malloc_cases:
  assumes inv: "heap_inv h bl fl" and b: "b \<noteq> 0" "unat b < 2 ^ 64 - 7"
  shows "(\<forall>n. (n, False) \<in> set bl \<longrightarrow> n < words_needed (unat b)) \<and> malloc b h = Some (Inr (0, h)) \<or>
    (\<exists>xs n ys h' fl'. bl = xs @ (n, False) # ys \<and> words_needed (unat b) \<le> n \<and>
       malloc b h = Some (Inr (h_base h + 8 * (word_of_nat (extent xs) + 1), h')) \<and>
       heap_inv h' (xs @ cut n (words_needed (unat b)) @ ys) fl' \<and> h_base h' = h_base h \<and>
       n_malloc h' = n_malloc h + 1 \<and> n_free h' = n_free h \<and> length (h_array h') = length (h_array h) \<and>
       (\<forall>k. k \<notin> free_words 0 bl \<longrightarrow> h_array h' ! k = h_array h ! k))"
proof -
  let ?e = "words_needed (unat b)"
  note W = words_needed [of "unat b"] and E = entries_for_exact [OF b(2)]
  have lay: "heap_layout h bl" and fl: "free_list h fl" and set: "set fl = set (free_starts 0 bl)"
    using inv heap_inv_list(1) [OF inv] by (simp_all add: heap_inv_def)
  have size: "size_at h (extent xs) = n" if "bl = xs @ (n, False) # ys" for xs n ys
    using size_at_block lay that by blast
  obtain mx it where S: "search h (entries_for b) 20 (h_avail h) (- 1) 0 = Some (Inr (mx, it))"
    "it = 0 \<longrightarrow> (\<forall>i \<in> set fl. size_at h i < ?e)"
    "(mx, it) = (- 1, 0) \<or> (\<exists>i \<in> set fl. it = word_of_nat i \<and> mx = word_of_nat (size_at h i) \<and> ?e \<le> size_at h i)"
    using search_result [OF lay, of "[]" fl 0 "- 1" "entries_for b" 20] set fl E
    by (auto simp: free_list_def)
  show ?thesis
  proof (cases "it = 0")
    case True
    have "n < ?e" if mem: "(n, False) \<in> set bl" for n
    proof -
      obtain xs ys where "bl = xs @ (n, False) # ys"
        using split_list [OF mem] by blast
      moreover from this have "extent xs \<in> set fl"
        using set by (simp add: free_starts_append)
      ultimately show ?thesis
        using S(2) True size by fastforce
    qed
    then show ?thesis
      using S(1) True b(1) by (simp add: malloc_def take_block_def)
  next
    case False
    then obtain i where i: "i \<in> set fl" "it = word_of_nat i" "mx = word_of_nat (size_at h i)" "?e \<le> size_at h i"
      using S(3) by auto
    then obtain xs n ys where bl: "bl = xs @ (n, False) # ys" "i = extent xs"
      using set free_starts_split [of i 0 bl] by auto
    then have n: "size_at h i = n"
      using size by simp
    have "entries_for b = word_of_nat ?e"
      by (simp flip: E)
    moreover obtain h' fl' where
      "take_block (word_of_nat ?e) (word_of_nat n) (word_of_nat (extent xs)) h =
        Inr (h_base h + 8 * (word_of_nat (extent xs) + 1), h')"
      "heap_inv h' (xs @ cut n ?e @ ys) fl' \<and> h_base h' = h_base h \<and>
       n_malloc h' = n_malloc h + 1 \<and> n_free h' = n_free h \<and> length (h_array h') = length (h_array h) \<and>
       (\<forall>k. k \<notin> free_words 0 bl \<longrightarrow> h_array h' ! k = h_array h ! k)"
      using take_block_inv [OF inv [unfolded bl(1)] W(1,2)] i(4) n bl(1) by blast
    ultimately show ?thesis
      using S(1) i n bl b(1) by (auto simp: malloc_def)
  qed
qed


section \<open>Release\<close>

text \<open>A list that holds some of the available blocks, as between the steps of \<open>free\<close>.\<close>

definition partial_inv :: "heap \<Rightarrow> blocks \<Rightarrow> nat list \<Rightarrow> bool" where
  "partial_inv h bl fl \<longleftrightarrow>
     heap_layout h bl \<and> free_list h fl \<and> distinct fl \<and> set fl \<subseteq> set (free_starts 0 bl) \<and> coalesced bl \<and>
     h_base h mod 16 = 8 \<and> unat (h_base h) + 8 * length (h_array h) \<le> 2 ^ 64"

text \<open>Two states that differ only in the words of the array outside \<open>K\<close> and in the head of the list.\<close>

definition same_but :: "nat set \<Rightarrow> heap \<Rightarrow> heap \<Rightarrow> bool" where
  "same_but K h h' \<longleftrightarrow>
     h_base h' = h_base h \<and> h_len h' = h_len h \<and> h_safe h' = h_safe h \<and> n_malloc h' = n_malloc h \<and>
     n_free h' = n_free h \<and> n_leak h' = n_leak h \<and> length (h_array h') = length (h_array h) \<and>
     (\<forall>k. k \<notin> K \<longrightarrow> h_array h' ! k = h_array h ! k)"

lemma same_but_refl: "same_but K h h"
  by (simp add: same_but_def)

lemma same_but_trans: "same_but K h h1 \<Longrightarrow> same_but K h1 h2 \<Longrightarrow> same_but K h h2"
  by (simp add: same_but_def)

lemma remove_step:
  assumes inv: "partial_inv h (xs @ (n, False) # ys) fl" and mem: "extent xs \<in> set fl"
  shows "\<exists>h' fl'. remove_block (word_of_nat (extent xs)) h = Inr h' \<and>
    partial_inv h' (xs @ (n, False) # ys) fl' \<and> mset fl = add_mset (extent xs) (mset fl') \<and>
    same_but (free_words 0 (xs @ (n, False) # ys)) h h'"
proof -
  let ?bl = "xs @ (n, False) # ys"
  have I: "heap_layout h ?bl" "free_list h fl" "distinct fl" "set fl \<subseteq> set (free_starts 0 ?bl)"
    using inv by (simp_all only: partial_inv_def)
  obtain us vs where R: "fl = us @ extent xs # vs"
    "remove_block (word_of_nat (extent xs)) h =
      Inr (h\<lparr>h_array := unlink us vs (h_array h), h_avail := word_of_nat (hd (us @ vs @ [0]))\<rparr>)"
    "tagged (unlink us vs (h_array h)) 0 ?bl" "links (unlink us vs (h_array h)) 0 (us @ vs) 0"
    "\<forall>k. k \<notin> free_words 0 ?bl \<longrightarrow> unlink us vs (h_array h) ! k = h_array h ! k"
    using remove_inv [OF I mem] by blast
  define h' where "h' = h\<lparr>h_array := unlink us vs (h_array h), h_avail := word_of_nat (hd (us @ vs @ [0]))\<rparr>"
  have "partial_inv h' ?bl (us @ vs)"
    using inv R(1,3,4) by (auto simp: partial_inv_def heap_layout_def free_list_def h'_def)
  moreover have "same_but (free_words 0 ?bl) h h'"
    using R(5) by (simp add: same_but_def h'_def)
  moreover have "remove_block (word_of_nat (extent xs)) h = Inr h'"
    using R(2) by (simp add: h'_def)
  moreover have "mset fl = add_mset (extent xs) (mset (us @ vs))"
    by (simp add: R(1))
  ultimately show ?thesis
    by blast
qed

text \<open>Making one available block of adjacent blocks that are off the list.\<close>

lemma merge_step:
  assumes inv: "partial_inv h (xs @ bs @ ys) fl"
    and mset: "mset fl = mset (free_starts 0 xs @ free_starts (extent xs + extent bs) ys)"
    and ne: "xs \<noteq> []" "ys \<noteq> []" "bs \<noteq> []" and m: "4 \<le> extent bs" and taken: "snd (last xs)" "snd (hd ys)"
  shows "\<exists>h'. makeAvail (word_of_nat (extent xs)) (word_of_nat (extent bs)) h = Inr h' \<and>
    heap_inv h' (xs @ (extent bs, False) # ys) (extent xs # fl) \<and>
    same_but ({extent xs..<extent xs + extent bs} \<union> free_words 0 (xs @ bs @ ys)) h h'"
proof -
  let ?m = "extent bs" and ?i = "extent xs" and ?bl = "xs @ bs @ ys"
  have lay: "heap_layout h ?bl" and wf: "\<forall>b \<in> set ?bl. wf_block b"
    using inv by (simp_all add: partial_inv_def heap_layout_def)
  have even: "even ?m"
  proof -
    have "even (extent cs)" if "\<forall>b \<in> set cs. even (fst b)" for cs
      using that by (induction cs) auto
    then show ?thesis
      using wf by (auto simp: wf_block_def)
  qed
  have wf2: "\<forall>b \<in> set (xs @ (?m, False) # ys). wf_block b"
    using wf even m by (auto simp: wf_block_def)
  have sets: "set fl = set (free_starts 0 xs) \<union> set (free_starts (?i + ?m) ys)"
    using mset_eq_setD [OF mset] by simp
  have bounds: "j + 4 \<le> ?i \<or> ?i + ?m \<le> j" if "j \<in> set fl" for j
    using that sets free_starts_bounds [of j 0 xs] free_starts_bounds [of j "?i + ?m" ys] wf by auto
  have notin: "?i \<notin> set fl"
    using bounds m by fastforce
  have "0 \<notin> set fl"
    using free_list_members [OF lay] inv by (auto simp: partial_inv_def)
  moreover have "?i + ?m + extent ys = length (h_array h)" "small h" "tagged (h_array h) 0 xs"
    "tagged (h_array h) (?i + ?m) ys"
    using lay by (simp_all add: heap_layout_def tagged_append add.assoc)
  moreover have "set fl \<subseteq> set (free_starts 0 (xs @ (?m, False) # ys))"
    using sets by (auto simp: free_starts_append)
  moreover have "free_list h fl" "distinct fl"
    using inv by (simp_all add: partial_inv_def)
  ultimately obtain a' where A: "makeAvail (word_of_nat ?i) (word_of_nat ?m) h =
      Inr (h\<lparr>h_array := a', h_avail := word_of_nat ?i\<rparr>)"
    "length a' = length (h_array h)" "tagged a' 0 (xs @ (?m, False) # ys)" "links a' 0 (?i # fl) 0"
    "\<forall>k. k \<notin> {?i..<?i + ?m} \<longrightarrow> (\<forall>j \<in> set fl. k \<noteq> j + 2) \<longrightarrow> a' ! k = h_array h ! k"
    using makeAvail_push [of h xs ?m ys fl] wf2 notin by blast
  define h' where "h' = h\<lparr>h_array := a', h_avail := word_of_nat ?i\<rparr>"
  have "heap_layout h' (xs @ [(?m, False)] @ ys)"
  proof (rule layout_replace [OF lay ne])
    show "tagged (h_array h') 0 (xs @ [(?m, False)] @ ys)"
      using A(3) by (simp add: h'_def)
    show "\<forall>b \<in> set [(?m, False)]. even (fst b) \<and> 4 \<le> fst b"
      using even m by simp
  qed (simp_all add: h'_def A(2))
  moreover have "free_list h' (?i # fl)"
    using A(4) by (simp add: free_list_def h'_def)
  moreover have "coalesced (xs @ (?m, False) # ys)"
  proof -
    have "coalesced xs" "coalesced ys"
      using inv by (auto simp: partial_inv_def coalesced_def successively_append_iff)
    then show ?thesis
      using taken ne by (auto simp: coalesced_def successively_append_iff successively_Cons)
  qed
  ultimately have "heap_inv h' (xs @ (?m, False) # ys) (?i # fl)"
    using inv mset A(2) by (simp add: heap_inv_def partial_inv_def free_starts_append h'_def)
  moreover have "same_but ({?i..<?i + ?m} \<union> free_words 0 ?bl) h h'"
  proof -
    have "a' ! k = h_array h ! k" if k: "k \<notin> {?i..<?i + ?m} \<union> free_words 0 ?bl" for k
    proof -
      have "k \<noteq> j + 2" if "j \<in> set fl" for j
      proof -
        have "j \<in> set (free_starts 0 ?bl)"
          using that inv by (auto simp: partial_inv_def)
        then have "j + 2 \<in> free_words 0 ?bl"
          using free_words_start [OF _ wf] by (auto simp: subset_iff)
        then show ?thesis
          using k by blast
      qed
      then show ?thesis
        using A(5) k by blast
    qed
    then show ?thesis
      by (simp add: same_but_def h'_def A(2))
  qed
  ultimately show ?thesis
    using A(1) by (simp add: h'_def)
qed


lemma block_reads:
  assumes lay: "heap_layout h (xs @ (n, t) # ys)"
  shows "isAvail h (word_of_nat (extent xs)) = Inr (\<not> t)"
    and "block_size h (word_of_nat (extent xs)) = Inr (word_of_nat n)"
    and "sanity h (word_of_nat (extent xs)) = Inr (word_of_nat (extent xs))"
proof -
  note B = layout_block [OF lay]
  have "aread h (word_of_nat (extent xs)) = Inr (tag n t)"
    using B by (simp add: aread_index)
  then show "isAvail h (word_of_nat (extent xs)) = Inr (\<not> t)"
    "block_size h (word_of_nat (extent xs)) = Inr (word_of_nat n)"
    using B(2) by (simp_all add: isAvail_def block_size_def)
  show "sanity h (word_of_nat (extent xs)) = Inr (word_of_nat (extent xs))"
    by (rule sanity_block [OF lay])
qed

lemma right_read:
  assumes lay: "heap_layout h (xs @ (n, t) # (r, u) # ys)"
  shows "right_block h (word_of_nat (extent xs)) = Inr (word_of_nat (extent xs + n))"
proof -
  have "heap_layout h ((xs @ [(n, t)]) @ (r, u) # ys)"
    using lay by simp
  from sanity_block [OF this] block_reads(2) [OF lay] show ?thesis
    by (simp add: right_block_def)
qed

lemma left_read:
  assumes lay: "heap_layout h (xs @ (l, t) # (n, u) # ys)"
  shows "left_block h (word_of_nat (extent xs + l)) = Inr (word_of_nat (extent xs))"
proof -
  note B = layout_block [OF lay]
  define f where "f = extent xs + l - 1"
  have f: "word_of_nat (extent xs + l) - 1 = (word_of_nat f :: u64)"
    "word_of_nat f - word_of_nat l + 1 = (word_of_nat (extent xs) :: u64)"
    using B(3) by (simp_all add: f_def of_nat_diff)
  have "f < length (h_array h)" "h_array h ! f = tag l t"
    using B(1,3,7) by (simp_all add: f_def)
  then have "headerFromFooter h (word_of_nat f) = Inr (word_of_nat (extent xs))"
    using B(2,5) f(2) by (simp add: headerFromFooter_def block_size_def aread_index)
  then show ?thesis
    unfolding left_block_def f(1) using sanity_block [OF lay] by simp
qed

lemma layout_middle_size:
  assumes "heap_layout h (xs @ (n, t) # ys)" and "xs \<noteq> []" and "ys \<noteq> []"
  shows "4 \<le> n"
proof -
  obtain ms where "xs @ (n, t) # ys = (2, True) # ms @ [(2, True)]" "\<forall>b \<in> set ms. 4 \<le> fst b"
    using assms(1) by (auto simp: heap_layout_def)
  with middle_block [OF this(1) assms(2,3)] show ?thesis
    by auto
qed

lemma absorb_left_ok:
  assumes inv: "partial_inv h (xs @ (l, t) # (n, True) # ys) fl" and mem: "\<not> t \<Longrightarrow> extent xs \<in> set fl"
  shows "\<exists>h' fl'. absorb_left (word_of_nat (extent xs + l)) (int n) (word_of_nat (extent xs)) h (\<not> t) =
      Inr (int (if t then extent xs + l else extent xs), int (if t then n else l + n), h') \<and>
    partial_inv h' (xs @ (l, t) # (n, True) # ys) fl' \<and>
    mset fl = mset ((if t then [] else [extent xs]) @ fl') \<and>
    same_but (free_words 0 (xs @ (l, t) # (n, True) # ys)) h h'"
proof (cases t)
  case True
  have "extent xs + l < 2 ^ 31"
    using inv by (auto simp: partial_inv_def heap_layout_def wf_block_def)
  then have "to_int (word_of_nat (extent xs + l)) = int (extent xs + l)"
    by (rule to_int_index)
  then show ?thesis
    using True inv by (intro exI [of _ h] exI [of _ fl]) (simp add: absorb_left_def same_but_refl)
next
  case False
  then have inv': "partial_inv h (xs @ (l, False) # (n, True) # ys) fl"
    using inv by simp
  obtain h' fl' where R: "remove_block (word_of_nat (extent xs)) h = Inr h'"
    "partial_inv h' (xs @ (l, False) # (n, True) # ys) fl'" "mset fl = add_mset (extent xs) (mset fl')"
    "same_but (free_words 0 (xs @ (l, False) # (n, True) # ys)) h h'"
    using remove_step [OF inv'] mem False by blast
  then have lay: "heap_layout h' (xs @ (l, False) # (n, True) # ys)"
    by (simp add: partial_inv_def)
  then have "extent xs < 2 ^ 31" "n + l < 2 ^ 31"
    by (auto simp: heap_layout_def wf_block_def)
  then have "to_int (word_of_nat (extent xs)) = int (extent xs)"
    "to_int (word_of_nat (n + l)) = int (n + l)"
    by (simp_all only: to_int_index)
  then show ?thesis
    using R False block_reads(2) [OF lay]
    by (intro exI [of _ h'] exI [of _ fl']) (simp add: absorb_left_def)
qed

lemma absorb_right_ok:
  assumes inv: "partial_inv h (xs @ (r, u) # ys) fl" and mem: "\<not> u \<Longrightarrow> extent xs \<in> set fl" and m: "m \<le> extent xs"
  shows "\<exists>h' fl'. absorb_right (int m) (word_of_nat (extent xs)) h (\<not> u) = Inr (int (if u then m else m + r), h') \<and>
    partial_inv h' (xs @ (r, u) # ys) fl' \<and> mset fl = mset ((if u then [] else [extent xs]) @ fl') \<and>
    same_but (free_words 0 (xs @ (r, u) # ys)) h h'"
proof (cases u)
  case True
  then show ?thesis
    using inv by (intro exI [of _ h] exI [of _ fl]) (simp add: absorb_right_def same_but_refl)
next
  case False
  then have inv': "partial_inv h (xs @ (r, False) # ys) fl"
    using inv by simp
  obtain h' fl' where R: "remove_block (word_of_nat (extent xs)) h = Inr h'"
    "partial_inv h' (xs @ (r, False) # ys) fl'" "mset fl = add_mset (extent xs) (mset fl')"
    "same_but (free_words 0 (xs @ (r, False) # ys)) h h'"
    using remove_step [OF inv'] mem False by blast
  then have lay: "heap_layout h' (xs @ (r, False) # ys)"
    by (simp add: partial_inv_def)
  then have "m + r < 2 ^ 31"
    using m by (auto simp: heap_layout_def)
  then have "to_int (word_of_nat (m + r)) = int (m + r)"
    by (rule to_int_index)
  then show ?thesis
    using R False block_reads(2) [OF lay]
    by (intro exI [of _ h'] exI [of _ fl']) (simp add: absorb_right_def)
qed


text \<open>The blocks after releasing the one between two others: it is merged with those that are available.\<close>

definition released :: "blocks \<Rightarrow> nat \<times> bool \<Rightarrow> nat \<Rightarrow> nat \<times> bool \<Rightarrow> blocks \<Rightarrow> blocks" where
  "released xs lb n rb ys =
     (if snd lb then xs @ [lb] else xs) @
     [((if snd lb then 0 else fst lb) + n + (if snd rb then 0 else fst rb), False)] @
     (if snd rb then rb # ys else ys)"

lemma partial_inv_n_free [simp]: "partial_inv (h\<lparr>n_free := x\<rparr>) bl fl = partial_inv h bl fl"
  by (simp add: partial_inv_def heap_layout_def free_list_def)

lemma address_index:
  assumes "i < 2 ^ 31"
  shows "word_of_int (to_int ((base + 8 * (word_of_nat i + 1) - base) div 8 - 1)) = (word_of_nat i :: u64)"
proof -
  have "unat (8 * (word_of_nat i + 1) :: u64) = 8 * (i + 1)"
  proof -
    have "8 * (word_of_nat i + 1) = (word_of_nat (8 * (i + 1)) :: u64)"
      by simp
    then show ?thesis
      using assms by (simp only: unat_of_nat) simp
  qed
  then have q: "unat (8 * (word_of_nat i + 1) div 8 :: u64) = i + 1"
    by (simp add: unat_div)
  have "8 * (word_of_nat i + 1) div 8 = (word_of_nat (i + 1) :: u64)"
    by (subst q [symmetric]) simp
  then have "(base + 8 * (word_of_nat i + 1) - base) div 8 - 1 = (word_of_nat i :: u64)"
    by simp
  then show ?thesis
    using to_int_index [OF assms] by simp
qed

lemma free_block_inv:
  assumes inv: "heap_inv h (xs @ lb # (n, True) # rb # ys) fl"
  shows "\<exists>h' fl'. free_block (h_base h + 8 * (word_of_nat (extent xs + fst lb) + 1)) h = Inr h' \<and>
    heap_inv h' (released xs lb n rb ys) fl' \<and>
    same_but ({extent xs + fst lb..<extent xs + fst lb + n} \<union> free_words 0 (xs @ lb # (n, True) # rb # ys))
      (h\<lparr>n_free := n_free h + 1\<rparr>) h'"
proof -
  obtain l t r u where lr: "lb = (l, t)" "rb = (r, u)"
    by (cases lb, cases rb)
  let ?bl = "xs @ (l, t) # (n, True) # (r, u) # ys" and ?i = "extent xs + l"
  define h0 where "h0 = h\<lparr>n_free := n_free h + 1\<rparr>"
  have lay: "heap_layout h ?bl"
    using inv lr by (simp add: heap_inv_def)
  have p0: "partial_inv h0 ?bl fl"
    using inv heap_inv_list [OF inv] lr by (simp add: heap_inv_def partial_inv_def h0_def heap_layout_def free_list_def)
  then have lay0: "heap_layout h0 ?bl" and co: "coalesced ?bl"
    by (simp_all add: partial_inv_def)
  have own: "heap_layout h0 ((xs @ [(l, t)]) @ (n, True) # (r, u) # ys)"
    using lay0 by simp
  have n4: "4 \<le> n"
    using layout_middle_size [OF own] by simp
  have small_i: "?i < 2 ^ 31" "extent xs < 2 ^ 31" "?i + n < 2 ^ 31" "n < 2 ^ 31"
    using lay n4 by (auto simp: heap_layout_def wf_block_def)
  note idx = address_index [OF small_i(1), of "h_base h"]
  have ei: "?i + 1 < length (h_array h)"
    using lay n4 by (simp add: heap_layout_def)
  have p: "h_base h + 8 * (word_of_nat ?i + 1) \<noteq> 0" "h_base h + 8 * (word_of_nat ?i + 1) \<noteq> h_base h"
    using payload_address [OF inv ei] by auto
  have own_reads: "sanity h0 (word_of_nat ?i) = Inr (word_of_nat ?i)" "isAvail h0 (word_of_nat ?i) = Inr False"
    "block_size h0 (word_of_nat ?i) = Inr (word_of_nat n)"
    "right_block h0 (word_of_nat ?i) = Inr (word_of_nat (?i + n))"
    using block_reads [OF own] right_read [OF own] by simp_all
  have set_fl: "set fl = set (free_starts 0 ?bl)" and mset_fl: "mset fl = mset (free_starts 0 ?bl)"
    using heap_inv_list(1) [OF inv] inv lr by (simp_all add: heap_inv_def)
  define i1 where "i1 = (if t then ?i else extent xs)"
  define m1 where "m1 = (if t then n else l + n)"
  define m2 where "m2 = (if u then m1 else m1 + r)"
  have "\<not> t \<Longrightarrow> extent xs \<in> set fl"
    using set_fl by (simp add: free_starts_append)
  from absorb_left_ok [OF p0 this] obtain h1 fl1 where A:
    "absorb_left (word_of_nat ?i) (int n) (word_of_nat (extent xs)) h0 (\<not> t) = Inr (int i1, int m1, h1)"
    "partial_inv h1 ?bl fl1" "mset fl = mset ((if t then [] else [extent xs]) @ fl1)"
    "same_but (free_words 0 ?bl) h0 h1"
    unfolding i1_def m1_def by blast
  let ?xs2 = "xs @ [(l, t), (n, True)]"
  have p1: "partial_inv h1 (?xs2 @ (r, u) # ys) fl1"
    using A(2) by simp
  have mem2: "\<not> u \<Longrightarrow> extent ?xs2 \<in> set fl1"
  proof -
    assume "\<not> u"
    then have "extent ?xs2 \<in> set fl"
      using set_fl by (simp add: free_starts_append add.assoc)
    moreover have "extent ?xs2 \<noteq> extent xs"
      using n4 by simp
    ultimately show "extent ?xs2 \<in> set fl1"
      using mset_eq_setD [OF A(3)] by (auto split: if_splits)
  qed
  have "m1 \<le> extent ?xs2"
    by (simp add: m1_def)
  from absorb_right_ok [OF p1 mem2 this] obtain h2 fl2 where R2:
    "absorb_right (int m1) (word_of_nat (extent ?xs2)) h1 (\<not> u) = Inr (int m2, h2)"
    "partial_inv h2 (?xs2 @ (r, u) # ys) fl2" "mset fl1 = mset ((if u then [] else [extent ?xs2]) @ fl2)"
    "same_but (free_words 0 (?xs2 @ (r, u) # ys)) h1 h2"
    unfolding m2_def by blast
  have "?xs2 @ (r, u) # ys = ?bl" "extent ?xs2 = ?i + n"
    by simp_all
  note R = R2 [unfolded this]
  have right_avail: "isAvail h1 (word_of_nat (?i + n)) = Inr (\<not> u)"
  proof -
    have "heap_layout h1 (?xs2 @ (r, u) # ys)"
      using p1 by (simp only: partial_inv_def)
    from block_reads(1) [OF this] show ?thesis
      by (simp add: add.assoc)
  qed
  define xs1 where "xs1 = (if t then xs @ [(l, t)] else xs)"
  define bs where "bs = (if t then [] else [(l, t)]) @ [(n, True)] @ (if u then [] else [(r, u)])"
  define ys1 where "ys1 = (if u then (r, u) # ys else ys)"
  have whole: "xs1 @ bs @ ys1 = ?bl" and ext: "extent xs1 = i1" "extent bs = m2"
    by (simp_all add: xs1_def bs_def ys1_def i1_def m1_def m2_def)
  have ends: "xs1 \<noteq> []" "ys1 \<noteq> []" "snd (last xs1)" "snd (hd ys1)"
  proof -
    have "\<not> t \<Longrightarrow> xs \<noteq> []" "\<not> u \<Longrightarrow> ys \<noteq> []"
      using layout_middle(1) [of h0 xs l "(n, True) # (r, u) # ys"]
        layout_middle(2) [of h0 ?xs2 r ys] lay0 by auto
    moreover have "t \<or> snd (last xs) \<or> xs = []" "u \<or> snd (hd ys) \<or> ys = []"
      using co by (auto simp: coalesced_def successively_append_iff successively_Cons)
    ultimately show "xs1 \<noteq> []" "ys1 \<noteq> []" "snd (last xs1)" "snd (hd ys1)"
      by (auto simp: xs1_def ys1_def)
  qed
  have "mset fl2 = mset (free_starts 0 xs1 @ free_starts (extent xs1 + extent bs) ys1)"
    using mset_fl A(3) R(3) unfolding xs1_def bs_def ys1_def
    by (auto simp: free_starts_append add.assoc split: if_splits)
  moreover have "partial_inv h2 (xs1 @ bs @ ys1) fl2"
    unfolding whole by (rule R(2))
  moreover have "bs \<noteq> []" "4 \<le> extent bs"
    using n4 by (simp_all add: bs_def)
  ultimately have "\<exists>h'. makeAvail (word_of_nat (extent xs1)) (word_of_nat (extent bs)) h2 = Inr h' \<and>
      heap_inv h' (xs1 @ (extent bs, False) # ys1) (extent xs1 # fl2) \<and>
      same_but ({extent xs1..<extent xs1 + extent bs} \<union> free_words 0 (xs1 @ bs @ ys1)) h2 h'"
    using ends by (intro merge_step)
  then obtain h' where M: "makeAvail (word_of_nat i1) (word_of_nat m2) h2 = Inr h'"
    "heap_inv h' (xs1 @ (m2, False) # ys1) (i1 # fl2)"
    "same_but ({i1..<i1 + m2} \<union> free_words 0 ?bl) h2 h'"
    unfolding whole ext by blast
  have "free_block (h_base h + 8 * (word_of_nat ?i + 1)) h = Inr h'"
    unfolding free_block_def Let_def idx h0_def [symmetric]
    using p own_reads left_read [OF lay0] block_reads(1) [OF lay0] A(1) R(1) M(1) right_avail
      to_int_index [OF small_i(2)] to_int_index [OF small_i(3)] to_int_index [OF small_i(4)]
    by (simp del: of_nat_add)
  moreover have "released xs lb n rb ys = xs1 @ (m2, False) # ys1"
    by (simp add: released_def lr xs1_def ys1_def m2_def m1_def)
  moreover have "{i1..<i1 + m2} \<union> free_words 0 ?bl = {?i..<?i + n} \<union> free_words 0 ?bl"
    by (auto simp: i1_def m2_def m1_def free_words_append)
  then have "same_but ({?i..<?i + n} \<union> free_words 0 ?bl) h0 h'"
    using A(4) R(4) M(3) by (auto simp: same_but_def)
  ultimately show ?thesis
    using M(2) by (auto simp: lr h0_def)
qed


section \<open>Initialisation\<close>

lemma heap_init_inv:
  assumes fits: "unat base + unat bytes \<le> 2 ^ 64" and size: "96 \<le> unat bytes" "unat bytes < 2 ^ 34"
    and mem: "unat bytes div 8 \<le> length mem" and empty: "h_avail h = 0"
  shows "\<exists>h'. heap_init base bytes mem h = Inr h' \<and>
    heap_inv h' [(2, True), (length (h_array h') - 4, False), (2, True)] [2] \<and>
    unat base \<le> unat (h_base h') \<and> unat (h_base h') + 8 * length (h_array h') \<le> unat base + unat bytes \<and>
    unat bytes < 8 * length (h_array h') + 32 \<and> n_malloc h' = n_malloc h \<and> n_free h' = n_free h"
proof -
  define B where "B = unat base"
  define N where "N = unat bytes"
  define A where "A = (B + 23) div 16 * 16 - 8"
  define L where "L = (N - (A - B)) div 16 * 2"
  have BN: "B + N \<le> 2 ^ 64" "96 \<le> N" "N < 2 ^ 34"
    using fits size by (simp_all add: B_def N_def)
  have A: "A mod 16 = 8" "B \<le> A" "A - B < 16" "A + 8 = (B + 23) div 16 * 16"
  proof -
    define Q where "Q = (B + 23) div 16"
    have Q: "16 * Q \<le> B + 23" "B + 23 < 16 * Q + 16"
      using div_mult_mod_eq [of "B + 23" 16] mod_less_divisor [of 16 "B + 23"] unfolding Q_def by linarith+
    then have "A = 8 + 16 * (Q - 1)" "1 \<le> Q"
      by (simp_all add: A_def Q_def [symmetric])
    then show "A mod 16 = 8" "B \<le> A" "A - B < 16" "A + 8 = (B + 23) div 16 * 16"
      using Q by (simp_all add: Q_def [symmetric])
  qed
  have L: "8 * L \<le> N - (A - B)" "N < 8 * L + 32" "even L" "10 \<le> L" "L < 2 ^ 31" "L \<le> N div 8"
  proof -
    define D where "D = (N - (A - B)) div 16"
    have "16 * D \<le> N - (A - B)"
      by (simp add: D_def)
    moreover have "N - (A - B) < 16 * D + 16"
      using div_mult_mod_eq [of "N - (A - B)" 16] mod_less_divisor [of 16 "N - (A - B)"]
      unfolding D_def by linarith
    moreover have "L = 2 * D"
      by (simp add: L_def D_def)
    ultimately show "8 * L \<le> N - (A - B)" "N < 8 * L + 32" "even L" "10 \<le> L" "L < 2 ^ 31" "L \<le> N div 8"
      using A(3) BN(2,3) by (simp_all add: less_eq_div_iff_mult_less_eq)
  qed
  define al where "al = (base + 8 + 15) div 16 * 16 - 8"
  define b1 where "b1 = (bytes - (al - base)) div 16 * 16"
  have "unat (base + 8 + 15) = B + 23"
    using BN by (simp add: B_def unat_word_ariths mod_simps)
  then have "unat ((base + 8 + 15) div 16) = (B + 23) div 16"
    by (simp only: unat_div) simp
  moreover have "(B + 23) div 16 * 16 < 2 ^ 64"
    using A(4) BN A(3) by linarith
  ultimately have "unat ((base + 8 + 15) div 16 * 16) = A + 8"
    using A(4) by (subst unat_mult_lem [THEN iffD1]) simp_all
  then have al: "unat al = A"
    unfolding al_def by (subst unat_sub) (simp_all add: word_le_nat_alt)
  then have delta: "unat (al - base) = A - B"
    using A(2) by (simp add: unat_sub word_le_nat_alt B_def)
  then have "unat (bytes - (al - base)) = N - (A - B)"
    using A(3) BN(2) by (simp add: unat_sub word_le_nat_alt N_def)
  then have "unat ((bytes - (al - base)) div 16) = (N - (A - B)) div 16"
    by (simp add: unat_div)
  then have b1: "unat b1 = 8 * L"
    using L(5) unfolding b1_def by (subst unat_mult_lem [THEN iffD1]) (simp_all add: L_def)
  then have len: "unat (b1 div 8) = L"
    by (simp add: unat_div)
  have lenw: "b1 div 8 = word_of_nat L"
    by (subst len [symmetric]) simp
  have asserts: "al mod 16 = 8" "base \<le> al" "al - base < 16" "al - base \<le> bytes" "b1 mod 16 = 0" "64 < b1"
    using A L BN al delta b1
    by (simp_all add: word_unat_eq_iff word_le_nat_alt word_less_nat_alt unat_mod B_def N_def)
  define h1 where "h1 = h\<lparr>h_base := al, h_array := take L mem, h_len := word_of_nat L\<rparr>"
  have h1: "length (h_array h1) = L" "h_avail h1 = 0"
    using mem L(6) empty by (simp_all add: h1_def N_def)
  define a2 where "a2 = (take L mem)[0 := tag 2 True, 1 := tag 2 True]"
  define h2 where "h2 = h1\<lparr>h_array := a2\<rparr>"
  have m1: "makeTaken 0 2 h1 = Inr h2"
    using makeTaken_index [of h1 0 2] h1 L by (simp add: h2_def a2_def h1_def)
  have h2: "length (h_array h2) = L" "h_avail h2 = 0"
    using h1 by (simp_all add: h2_def a2_def h1_def)
  define a3 where "a3 = a2[2 := tag (L - 4) False, 2 + (L - 4) - 1 := tag (L - 4) False, 2 + 1 := 0, 2 + 2 := 0]"
  define h3 where "h3 = h2\<lparr>h_array := a3, h_avail := 2\<rparr>"
  have "word_of_nat L - 4 = (word_of_nat (L - 4) :: u64)"
    using L(4) by (simp add: of_nat_diff)
  then have m2: "makeAvail 2 (word_of_nat L - 4) h2 = Inr h3"
    using makeAvail_index [of h2 2 "L - 4" "[]"] h2 L by (simp add: h3_def a3_def h2_def)
  define a4 where "a4 = a3[L - 2 := tag 2 True, L - 2 + 2 - 1 := tag 2 True]"
  define h4 where "h4 = h3\<lparr>h_array := a4\<rparr>"
  have len3: "length a3 = L"
    using h2 by (simp add: a3_def h2_def)
  have "word_of_nat L - 2 = (word_of_nat (L - 2) :: u64)"
    using L(4) by (simp add: of_nat_diff)
  then have m3: "makeTaken (word_of_nat L - 2) 2 h3 = Inr h4"
    using makeTaken_index [of h3 "L - 2" 2] len3 L by (simp add: h4_def a4_def h3_def)
  have run: "heap_init base bytes mem h = Inr h4"
    using asserts m1 m2 m3 len
    unfolding heap_init_def Let_def al_def [symmetric] b1_def [symmetric] lenw
    by (simp add: h1_def)
  have len4: "length (h_array h4) = L"
    by (simp add: h4_def a4_def len3)
  have words: "a4 ! 0 = tag 2 True" "a4 ! 1 = tag 2 True" "a4 ! 2 = tag (L - 4) False" "a4 ! (L - 3) = tag (L - 4) False"
    "a4 ! 3 = 0" "a4 ! 4 = 0" "a4 ! (L - 2) = tag 2 True" "a4 ! (L - 1) = tag 2 True"
    using L(4) mem L(6) by (auto simp: a4_def a3_def a2_def nth_list_update N_def)
  have "tagged a4 0 [(2, True), (L - 4, False), (2, True)]"
  proof -
    have "2 + (L - 4) - 1 = L - 3" "2 + (L - 4) = L - 2" "L - 2 + 2 - 1 = L - 1" "0 + 2 - 1 = (1 :: nat)" "0 + 2 = (2 :: nat)"
      using L(4) by simp_all
    then show ?thesis
      using words by (simp only: tagged.simps simp_thms)
  qed
  moreover have "heap_layout h4 [(2, True), (L - 4, False), (2, True)]
      \<longleftrightarrow> tagged a4 0 [(2, True), (L - 4, False), (2, True)]"
    using len4 L by (auto simp: heap_layout_def wf_block_def h4_def h3_def h2_def h1_def unat_index
        intro!: exI [of _ "[(L - 4, False)]"])
  moreover have "free_list h4 [2]"
    using words by (simp add: free_list_def h4_def h3_def)
  moreover have "h_base h4 = al"
    by (simp add: h4_def h3_def h2_def h1_def)
  ultimately have "heap_inv h4 [(2, True), (L - 4, False), (2, True)] [2]"
    using asserts(1) al A L(1) BN len4
    by (simp add: heap_inv_def coalesced_def)
  moreover have "n_malloc h4 = n_malloc h" "n_free h4 = n_free h"
    by (simp_all add: h4_def h3_def h2_def h1_def)
  ultimately show ?thesis
    using run len4 \<open>h_base h4 = al\<close> al A L BN by (intro exI [of _ h4]) (simp add: B_def N_def)
qed

end
