(* ===== verification/Heap_Run.thy ===== *)
theory Heap_Run
  imports Heap
begin

text \<open>
  Sequences of allocations and releases of the heap, as its clients make them, and the properties of
  the heap. The state of a run is the heap and the list of what is allocated: pointer and bytes asked
  for.
\<close>

section \<open>Client runs\<close>

datatype heap_op = Alloc u64 | Release nat

type_synonym allocations = "(u64 \<times> u64) list"

fun heap_step :: "heap_op \<Rightarrow> heap \<times> allocations \<Rightarrow> (heap \<times> allocations) outcome option" where
  "heap_step (Alloc b) (h, live) =
     map_option (\<lambda>r. bind_outcome r (\<lambda>(p, h').
       Inr (h', if p = 0 then live else live @ [(p, b)]))) (malloc b h)"
| "heap_step (Release k) (h, live) =
     Some (if k < length live
           then bind_outcome (free_block (fst (live ! k)) h) (\<lambda>h'. Inr (h', take k live @ drop (Suc k) live))
           else Inr (h, live))"

fun heap_run :: "heap_op list \<Rightarrow> heap \<times> allocations \<Rightarrow> (heap \<times> allocations) outcome option" where
  "heap_run [] st = Some (Inr st)"
| "heap_run (op # ops) st =
     Option.bind (heap_step op st) (\<lambda>r. case r of Inl e \<Rightarrow> Some (Inl e) | Inr st' \<Rightarrow> heap_run ops st')"

text \<open>\<open>bytes + 7\<close> does not wrap in \<open>malloc\<close>.\<close>

definition wf_heap_op :: "heap_op \<Rightarrow> bool" where
  "wf_heap_op op \<longleftrightarrow> (case op of Alloc b \<Rightarrow> unat b < 2 ^ 64 - 7 | Release k \<Rightarrow> True)"

definition apart :: "u64 \<times> u64 \<Rightarrow> u64 \<times> u64 \<Rightarrow> bool" where
  "apart x y \<longleftrightarrow> unat (fst x) + unat (snd x) \<le> unat (fst y) \<or> unat (fst y) + unat (snd y) \<le> unat (fst x)"

section \<open>What is allocated\<close>

fun taken_blocks :: "nat \<Rightarrow> blocks \<Rightarrow> (nat \<times> nat) list" where
  "taken_blocks k [] = []"
| "taken_blocks k ((n, t) # bl) = (if t then [(k, n)] else []) @ taken_blocks (k + n) bl"

lemma taken_blocks_append: "taken_blocks k (xs @ ys) = taken_blocks k xs @ taken_blocks (k + extent xs) ys"
  by (induction k xs rule: taken_blocks.induct) (auto simp: add.assoc)

lemma taken_blocks_bounds: "(i, n) \<in> set (taken_blocks k bl) \<Longrightarrow> k \<le> i \<and> i + n \<le> k + extent bl"
  by (induction k bl rule: taken_blocks.induct) (fastforce split: if_splits)+

lemma taken_blocks_split:
  "(i, n) \<in> set (taken_blocks k bl) \<Longrightarrow> \<exists>xs ys. bl = xs @ (n, True) # ys \<and> i = k + extent xs"
proof (induction k bl rule: taken_blocks.induct)
  case (2 k m t bl)
  show ?case
  proof (cases "t \<and> (i, n) = (k, m)")
    case True
    then show ?thesis by (intro exI [of _ "[]"] exI [of _ bl]) simp
  next
    case False
    then obtain xs ys where "bl = xs @ (n, True) # ys" "i = k + m + extent xs"
      using 2 by (auto split: if_splits)
    then show ?thesis by (intro exI [of _ "(m, t) # xs"] exI [of _ ys]) simp
  qed
qed simp

lemma taken_blocks_apart:
  "(i, n) \<in> set (taken_blocks k bl) \<Longrightarrow> (j, m) \<in> set (taken_blocks k bl) \<Longrightarrow> (i, n) \<noteq> (j, m) \<Longrightarrow>
    i + n \<le> j \<or> j + m \<le> i"
proof (induction k bl rule: taken_blocks.induct)
  case (2 k l t bl)
  then show ?case
    using taken_blocks_bounds [of i n "k + l" bl] taken_blocks_bounds [of j m "k + l" bl]
    by (auto split: if_splits)
qed simp

lemma distinct_taken_blocks: "\<forall>b \<in> set bl. wf_block b \<Longrightarrow> distinct (taken_blocks k bl)"
proof (induction k bl rule: taken_blocks.induct)
  case (2 k n t bl)
  have "(k, n) \<notin> set (taken_blocks (k + n) bl)"
    using 2(2) taken_blocks_bounds [of k n "k + n" bl] by (auto simp: wf_block_def)
  with 2 show ?case
    by simp
qed simp

text \<open>An allocation and the block that serves it; asking for nothing gives the start of the heap.\<close>

definition serves_alloc :: "heap \<Rightarrow> u64 \<times> u64 \<Rightarrow> nat \<times> nat \<Rightarrow> bool" where
  "serves_alloc h x z \<longleftrightarrow>
     (if snd x = 0 then fst x = h_base h \<and> z = (0, 0)
      else z \<noteq> (0, 0) \<and> fst x = h_base h + 8 * (word_of_nat (fst z) + 1) \<and> unat (snd x) \<le> 8 * (snd z - 2))"

text \<open>The taken blocks are the two ends and those of the allocations.\<close>

definition run_state :: "heap \<Rightarrow> allocations \<Rightarrow> blocks \<Rightarrow> nat list \<Rightarrow> (nat \<times> nat) list \<Rightarrow> bool" where
  "run_state h live bl fl zs \<longleftrightarrow>
     heap_inv h bl fl \<and> list_all2 (serves_alloc h) live zs \<and>
     mset (taken_blocks 0 bl) = {#(0, 2), (length (h_array h) - 2, 2)#} + mset (filter (\<lambda>z. z \<noteq> (0, 0)) zs) \<and>
     n_malloc h = n_free h + word_of_nat (length (filter (\<lambda>z. z \<noteq> (0, 0)) zs))"

lemma serves_alloc_base: "h_base h' = h_base h \<Longrightarrow> serves_alloc h' = serves_alloc h"
  by (simp add: serves_alloc_def fun_eq_iff)

lemma alloc_step:
  assumes R: "run_state h live bl fl zs" and b: "unat b < 2 ^ 64 - 7"
  shows "\<exists>h' live' bl' fl' zs'. heap_step (Alloc b) (h, live) = Some (Inr (h', live')) \<and>
    run_state h' live' bl' fl' zs' \<and> h_base h' = h_base h \<and> length (h_array h') = length (h_array h)"
proof (cases "b = 0")
  case True
  have "h_base h \<noteq> 0"
    using R by (auto simp: run_state_def heap_inv_def)
  then have "run_state h (live @ [(h_base h, 0)]) bl fl (zs @ [(0, 0)])"
    using R by (simp add: run_state_def list_all2_appendI serves_alloc_def)
  moreover have "heap_step (Alloc b) (h, live) = Some (Inr (h, live @ [(h_base h, 0)]))"
    using True \<open>h_base h \<noteq> 0\<close> by (simp add: malloc_def)
  ultimately show ?thesis
    by blast
next
  case False
  have inv: "heap_inv h bl fl" and live: "list_all2 (serves_alloc h) live zs"
    and taken: "mset (taken_blocks 0 bl) = {#(0, 2), (length (h_array h) - 2, 2)#} + mset (filter (\<lambda>z. z \<noteq> (0, 0)) zs)"
    and count: "n_malloc h = n_free h + word_of_nat (length (filter (\<lambda>z. z \<noteq> (0, 0)) zs))"
    using R by (simp_all add: run_state_def)
  let ?e = "words_needed (unat b)"
  from malloc_cases [OF inv False b] show ?thesis
  proof (elim disjE exE conjE)
    assume "malloc b h = Some (Inr (0, h))"
    then have "heap_step (Alloc b) (h, live) = Some (Inr (h, live))"
      by simp
    with R show ?thesis by blast
  next
    fix xs n ys h' fl'
    assume bl: "bl = xs @ (n, False) # ys" and n: "?e \<le> n"
      and m: "malloc b h = Some (Inr (h_base h + 8 * (word_of_nat (extent xs) + 1), h'))"
      and inv': "heap_inv h' (xs @ cut n ?e @ ys) fl'"
      and same: "h_base h' = h_base h" "n_malloc h' = n_malloc h + 1" "n_free h' = n_free h"
        "length (h_array h') = length (h_array h)"
    define w where "w = (if 4 \<le> n - ?e then ?e else n)"
    have "?e \<le> w"
      using n by (simp add: w_def)
    then have "unat b \<le> 8 * (w - 2)" "w \<noteq> 0"
      using words_needed(2,3) [of "unat b"] by linarith+
    moreover have "taken_blocks (extent xs) (cut n ?e @ ys) = (extent xs, w) # taken_blocks (extent xs + n) ys"
      using n by (simp add: w_def cut_def)
    ultimately have w: "unat b \<le> 8 * (w - 2)"
      "taken_blocks (extent xs) (cut n ?e @ ys) = (extent xs, w) # taken_blocks (extent xs + n) ys" "w \<noteq> 0"
      by blast+
    have lay: "heap_layout h (xs @ (n, False) # ys)"
      using inv bl by (simp add: heap_inv_def)
    have "extent xs + 1 < length (h_array h)"
      using layout_block(1,3) [OF lay] by simp
    note nz = payload_address(2) [OF inv this]
    let ?p = "h_base h + 8 * (word_of_nat (extent xs) + 1)"
    have "list_all2 (serves_alloc h') (live @ [(?p, b)]) (zs @ [(extent xs, w)])"
      using live w False by (simp add: serves_alloc_base [OF same(1)] list_all2_appendI serves_alloc_def)
    moreover have "mset (taken_blocks 0 (xs @ cut n ?e @ ys)) =
        {#(0, 2), (length (h_array h') - 2, 2)#} + mset (filter (\<lambda>z. z \<noteq> (0, 0)) (zs @ [(extent xs, w)]))"
      using taken w(2,3) same(4) by (simp add: bl taken_blocks_append)
    ultimately have "run_state h' (live @ [(?p, b)]) (xs @ cut n ?e @ ys) fl' (zs @ [(extent xs, w)])"
      using inv' count same w(3) by (simp add: run_state_def)
    moreover have "heap_step (Alloc b) (h, live) = Some (Inr (h', live @ [(?p, b)]))"
      using m nz by simp
    ultimately show ?thesis
      using same by blast
  qed
qed


lemma taken_blocks_released:
  "mset (taken_blocks k (xs @ lb # (n, True) # rb # ys)) =
   add_mset (k + extent xs + fst lb, n) (mset (taken_blocks k (released xs lb n rb ys)))"
  by (cases lb; cases rb; cases "snd lb"; cases "snd rb")
     (simp_all add: released_def taken_blocks_append add.assoc add.commute add.left_commute)

lemma middle_allocation:
  assumes lay: "heap_layout h bl" and mset: "mset (taken_blocks 0 bl) = {#(0, 2), (length (h_array h) - 2, 2)#} + mset vs"
    and z: "(i, n) \<in> set vs"
  shows "\<exists>xs lb rb ys. bl = xs @ lb # (n, True) # rb # ys \<and> i = extent xs + fst lb"
proof -
  let ?L = "length (h_array h)"
  have wf: "\<forall>b \<in> set bl. wf_block b" and ext: "extent bl = ?L"
    using lay by (simp_all add: heap_layout_def)
  have "mset (taken_blocks 0 bl) = mset ((0, 2) # (?L - 2, 2) # vs)"
    using mset by simp
  then have "distinct ((0, 2) # (?L - 2, 2) # vs)" and mem: "(i, n) \<in> set (taken_blocks 0 bl)"
    using distinct_taken_blocks [OF wf] z by (metis mset_eq_imp_distinct_iff, metis list.set_intros(2) mset_eq_setD)
  then have no: "(i, n) \<noteq> (0, 2)" "(i, n) \<noteq> (?L - 2, 2)"
    using z by auto
  obtain xs ys where bl: "bl = xs @ (n, True) # ys" "i = extent xs"
    using taken_blocks_split [OF mem] by auto
  obtain ms where ms: "bl = (2, True) # ms @ [(2, True)]"
    using lay by (auto simp: heap_layout_def)
  have "xs \<noteq> []"
    using bl ms no(1) by auto
  moreover have "ys \<noteq> []"
  proof
    assume "ys = []"
    then have "bl = xs @ [(n, True)]" "bl = ((2, True) # ms) @ [(2, True)]"
      using bl ms by simp_all
    then have "n = 2"
      by (metis append1_eq_conv prod.inject)
    moreover have "i + n = ?L"
      using bl \<open>ys = []\<close> ext by simp
    ultimately show False
      using no(2) by auto
  qed
  ultimately obtain xs' lb rb ys' where "xs = xs' @ [lb]" "ys = rb # ys'"
    by (metis list.exhaust rev_exhaust)
  with bl show ?thesis
    by (intro exI [of _ xs'] exI [of _ lb] exI [of _ rb] exI [of _ ys']) simp
qed

lemma release_step:
  assumes R: "run_state h live bl fl zs"
  shows "\<exists>h' live' bl' fl' zs'. heap_step (Release k) (h, live) = Some (Inr (h', live')) \<and>
    run_state h' live' bl' fl' zs' \<and> h_base h' = h_base h \<and> length (h_array h') = length (h_array h)"
proof (cases "k < length live")
  case False
  with R show ?thesis
    by auto
next
  case True
  have inv: "heap_inv h bl fl" and live: "list_all2 (serves_alloc h) live zs"
    and taken: "mset (taken_blocks 0 bl) = {#(0, 2), (length (h_array h) - 2, 2)#} + mset (filter (\<lambda>z. z \<noteq> (0, 0)) zs)"
    and count: "n_malloc h = n_free h + word_of_nat (length (filter (\<lambda>z. z \<noteq> (0, 0)) zs))"
    using R by (simp_all add: run_state_def)
  let ?live = "take k live @ drop (Suc k) live" and ?zs = "take k zs @ drop (Suc k) zs"
  have k: "k < length zs"
    using True live list_all2_lengthD by metis
  have here: "serves_alloc h (live ! k) (zs ! k)"
    using live True by (rule list_all2_nthD)
  have rest: "list_all2 (serves_alloc h) ?live ?zs"
    using live by (intro list_all2_appendI list_all2_takeI list_all2_dropI)
  have zs: "zs = take k zs @ zs ! k # drop (Suc k) zs"
    using id_take_nth_drop [OF k] .
  have split: "filter (\<lambda>z. z \<noteq> (0, 0)) zs =
      filter (\<lambda>z. z \<noteq> (0, 0)) (take k zs) @ (if zs ! k \<noteq> (0, 0) then [zs ! k] else []) @
      filter (\<lambda>z. z \<noteq> (0, 0)) (drop (Suc k) zs)"
    by (subst zs) simp
  show ?thesis
  proof (cases "snd (live ! k) = 0")
    case True
    then have "fst (live ! k) = h_base h" "zs ! k = (0, 0)"
      using here by (simp_all add: serves_alloc_def)
    then have "run_state h ?live bl fl ?zs" "heap_step (Release k) (h, live) = Some (Inr (h, ?live))"
      using inv rest taken count split \<open>k < length live\<close> by (simp_all add: run_state_def free_block_def)
    then show ?thesis by blast
  next
    case False
    obtain i n where z: "zs ! k = (i, n)" "(i, n) \<noteq> (0, 0)" "fst (live ! k) = h_base h + 8 * (word_of_nat i + 1)"
      using here False by (cases "zs ! k") (simp add: serves_alloc_def)
    have lay: "heap_layout h bl"
      using inv by (simp add: heap_inv_def)
    have "(i, n) \<in> set (filter (\<lambda>z. z \<noteq> (0, 0)) zs)"
      using z(1,2) nth_mem [OF k] by simp
    from middle_allocation [OF lay taken this] obtain xs lb rb ys where
      bl: "bl = xs @ lb # (n, True) # rb # ys" "i = extent xs + fst lb"
      by blast
    obtain h' fl' where F: "free_block (fst (live ! k)) h = Inr h'" "heap_inv h' (released xs lb n rb ys) fl'"
      "same_but ({i..<i + n} \<union> free_words 0 bl) (h\<lparr>n_free := n_free h + 1\<rparr>) h'"
      using free_block_inv [OF inv [unfolded bl(1)]] by (auto simp: bl z(3))
    have same: "h_base h' = h_base h" "n_malloc h' = n_malloc h" "n_free h' = n_free h + 1"
      "length (h_array h') = length (h_array h)"
      using F(3) by (simp_all add: same_but_def)
    have "list_all2 (serves_alloc h') ?live ?zs"
      using rest by (simp add: serves_alloc_base [OF same(1)])
    moreover have "mset (taken_blocks 0 (released xs lb n rb ys)) =
        {#(0, 2), (length (h_array h') - 2, 2)#} + mset (filter (\<lambda>z. z \<noteq> (0, 0)) ?zs)"
    proof -
      have "add_mset (i, n) (mset (taken_blocks 0 (released xs lb n rb ys))) = mset (taken_blocks 0 bl)"
        using taken_blocks_released [of 0 xs lb n rb ys] bl by simp
      also have "\<dots> = add_mset (i, n) ({#(0, 2), (length (h_array h') - 2, 2)#} + mset (filter (\<lambda>z. z \<noteq> (0, 0)) ?zs))"
        using taken split z(1,2) same(4) by simp
      finally show ?thesis
        by simp
    qed
    moreover have "n_malloc h' = n_free h' + word_of_nat (length (filter (\<lambda>z. z \<noteq> (0, 0)) ?zs))"
      using count split z(1,2) same by simp
    ultimately have "run_state h' ?live (released xs lb n rb ys) fl' ?zs"
      using F(2) by (simp add: run_state_def)
    moreover have "heap_step (Release k) (h, live) = Some (Inr (h', ?live))"
      using F(1) \<open>k < length live\<close> by simp
    ultimately show ?thesis
      using same by blast
  qed
qed

lemma run_keeps:
  assumes "run_state h live bl fl zs" and "\<forall>op \<in> set ops. wf_heap_op op"
  shows "\<exists>h' live' bl' fl' zs'. heap_run ops (h, live) = Some (Inr (h', live')) \<and>
    run_state h' live' bl' fl' zs' \<and> h_base h' = h_base h \<and> length (h_array h') = length (h_array h)"
  using assms
proof (induction ops arbitrary: h live bl fl zs)
  case Nil
  then show ?case by auto
next
  case (Cons op ops)
  obtain h1 live1 bl1 fl1 zs1 where S: "heap_step op (h, live) = Some (Inr (h1, live1))"
    "run_state h1 live1 bl1 fl1 zs1" "h_base h1 = h_base h" "length (h_array h1) = length (h_array h)"
  proof (cases op)
    case (Alloc b)
    then show ?thesis
      using that alloc_step [OF Cons.prems(1), of b] Cons.prems(2) by (auto simp: wf_heap_op_def)
  next
    case (Release k)
    then show ?thesis
      using that release_step [OF Cons.prems(1), of k] by auto
  qed
  with Cons.IH [OF S(2)] Cons.prems(2) show ?case
    by auto
qed


lemma allocation_region:
  assumes R: "run_state h live bl fl zs" and k: "k < length live"
  shows "unat (h_base h) \<le> unat (fst (live ! k))"
    and "unat (fst (live ! k)) + unat (snd (live ! k)) \<le> unat (h_base h) + 8 * length (h_array h)"
    and "snd (live ! k) \<noteq> 0 \<Longrightarrow> fst (live ! k) mod 16 = 0"
    and "snd (live ! k) \<noteq> 0 \<Longrightarrow> zs ! k \<in> set (taken_blocks 0 bl) \<and> zs ! k \<noteq> (0, 0) \<and>
      unat (h_base h) + 8 * fst (zs ! k) < unat (fst (live ! k)) \<and>
      unat (fst (live ! k)) + unat (snd (live ! k)) \<le> unat (h_base h) + 8 * (fst (zs ! k) + snd (zs ! k))"
proof -
  have inv: "heap_inv h bl fl" and live: "list_all2 (serves_alloc h) live zs"
    and taken: "mset (taken_blocks 0 bl) = {#(0, 2), (length (h_array h) - 2, 2)#} + mset (filter (\<lambda>z. z \<noteq> (0, 0)) zs)"
    using R by (simp_all add: run_state_def)
  have lay: "heap_layout h bl" and base: "h_base h mod 16 = 8"
    using inv by (simp_all add: heap_inv_def)
  have here: "serves_alloc h (live ! k) (zs ! k)"
    using live k by (rule list_all2_nthD)
  have kz: "k < length zs"
    using k live list_all2_lengthD by metis
  have all: "zs ! k \<in> set (taken_blocks 0 bl) \<and> zs ! k \<noteq> (0, 0) \<and>
      unat (fst (live ! k)) = unat (h_base h) + 8 * (fst (zs ! k) + 1) \<and> even (fst (zs ! k)) \<and>
      unat (snd (live ! k)) \<le> 8 * (snd (zs ! k) - 2) \<and> 2 < snd (zs ! k) \<and> fst (zs ! k) + snd (zs ! k) \<le> length (h_array h)"
    if nz: "snd (live ! k) \<noteq> 0"
  proof -
    obtain i n where z: "zs ! k = (i, n)"
      by (cases "zs ! k")
    have s: "zs ! k \<noteq> (0, 0)" "fst (live ! k) = h_base h + 8 * (word_of_nat i + 1)" "unat (snd (live ! k)) \<le> 8 * (n - 2)"
      using here nz z by (simp_all add: serves_alloc_def)
    have "zs ! k \<in># mset (filter (\<lambda>z. z \<noteq> (0, 0)) zs)"
      using s(1) nth_mem [OF kz] by simp
    then have "zs ! k \<in># mset (taken_blocks 0 bl)"
      unfolding taken by simp
    then have mem: "(i, n) \<in> set (taken_blocks 0 bl)"
      using z by simp
    have "0 < unat (snd (live ! k))"
      using nz by (simp add: unat_gt_0)
    then have n: "2 < n"
      using s(3) by linarith
    have i: "i + n \<le> length (h_array h)"
      using taken_blocks_bounds [OF mem] lay by (simp add: heap_layout_def)
    obtain xs ys where "bl = xs @ (n, True) # ys" "i = extent xs"
      using taken_blocks_split [OF mem] by auto
    moreover have "even (extent cs)" if "\<forall>b \<in> set cs. wf_block b" for cs
      using that by (induction cs) (auto simp: wf_block_def)
    ultimately have "even i"
      using lay by (simp add: heap_layout_def)
    moreover have "unat (fst (live ! k)) = unat (h_base h) + 8 * (i + 1)"
      unfolding s(2) using i n by (intro payload_address [OF inv]) simp
    ultimately show ?thesis
      using mem s z n i by simp
  qed
  have zero: "fst (live ! k) = h_base h" if "snd (live ! k) = 0"
    using here that by (simp add: serves_alloc_def)
  show "unat (h_base h) \<le> unat (fst (live ! k))"
    "unat (fst (live ! k)) + unat (snd (live ! k)) \<le> unat (h_base h) + 8 * length (h_array h)"
    using all zero by (cases "snd (live ! k) = 0"; fastforce)+
  show "fst (live ! k) mod 16 = 0" if nz: "snd (live ! k) \<noteq> 0"
  proof -
    have b: "unat (h_base h) mod 16 = 8"
      using base by (simp add: word_unat_eq_iff unat_mod)
    obtain j where "fst (zs ! k) = 2 * j"
      using all [OF nz] by (auto elim: evenE)
    then have "unat (fst (live ! k)) = unat (h_base h) + 8 + 16 * j"
      using all [OF nz] by simp
    then have "unat (fst (live ! k)) mod 16 = (unat (h_base h) mod 16 + 8) mod 16"
      by (simp add: mod_simps)
    then show ?thesis
      using b by (simp add: word_unat_eq_iff unat_mod)
  qed
  show "zs ! k \<in> set (taken_blocks 0 bl) \<and> zs ! k \<noteq> (0, 0) \<and>
      unat (h_base h) + 8 * fst (zs ! k) < unat (fst (live ! k)) \<and>
      unat (fst (live ! k)) + unat (snd (live ! k)) \<le> unat (h_base h) + 8 * (fst (zs ! k) + snd (zs ! k))"
    if "snd (live ! k) \<noteq> 0"
    using all [OF that] by auto
qed

lemma distinct_filter_nth:
  assumes "distinct (filter P xs)" and "i < j" and "j < length xs" and "P (xs ! j)"
  shows "xs ! i \<noteq> xs ! j"
proof
  assume eq: "xs ! i = xs ! j"
  have "xs ! i \<in> set (take j xs)"
    using assms(2,3) by (auto simp: in_set_conv_nth intro!: exI [of _ i])
  moreover have "xs = take j xs @ xs ! j # drop (Suc j) xs"
    using assms(3) by (rule id_take_nth_drop)
  then have "distinct (filter P (take j xs) @ filter P (xs ! j # drop (Suc j) xs))"
    using assms(1) by (metis filter_append)
  ultimately show False
    using eq assms(4) by simp
qed

lemma spans_apart:
  fixes a b c d h p q x y :: nat
  assumes "a + b \<le> c \<or> c + d \<le> a" and "h + 8 * c < q" and "p + x \<le> h + 8 * (a + b)"
    and "h + 8 * a < p" and "q + y \<le> h + 8 * (c + d)"
  shows "p + x \<le> q \<or> q + y \<le> p"
  using assms by auto

lemma allocations_apart:
  assumes R: "run_state h live bl fl zs"
  shows "sorted_wrt apart live"
  unfolding sorted_wrt_iff_nth_less
proof (intro allI impI)
  fix i j
  assume ij: "i < j" "j < length live"
  have inv: "heap_inv h bl fl" and live: "list_all2 (serves_alloc h) live zs"
    and taken: "mset (taken_blocks 0 bl) = {#(0, 2), (length (h_array h) - 2, 2)#} + mset (filter (\<lambda>z. z \<noteq> (0, 0)) zs)"
    using R by (simp_all add: run_state_def)
  have base: "fst (live ! k) = h_base h" if "snd (live ! k) = 0" "k < length live" for k
    using list_all2_nthD [OF live that(2)] that(1) by (simp add: serves_alloc_def)
  note A = allocation_region [OF R]
  show "apart (live ! i) (live ! j)"
  proof (cases "snd (live ! i) = 0 \<or> snd (live ! j) = 0")
    case True
    then show ?thesis
      using base [of i] base [of j] A(1) [of i] A(1) [of j] ij by (auto simp: apart_def)
  next
    case False
    have jz: "j < length zs"
      using ij(2) live list_all2_lengthD by metis
    have "distinct (taken_blocks 0 bl)"
      using inv by (intro distinct_taken_blocks) (simp add: heap_inv_def heap_layout_def)
    moreover have "mset (taken_blocks 0 bl) = mset ((0, 2) # (length (h_array h) - 2, 2) # filter (\<lambda>z. z \<noteq> (0, 0)) zs)"
      using taken by simp
    ultimately have "distinct (filter (\<lambda>z. z \<noteq> (0, 0)) zs)"
      by (metis distinct.simps(2) mset_eq_imp_distinct_iff)
    then have "zs ! i \<noteq> zs ! j"
      using ij(1) jz A(4) [OF ij(2)] False by (intro distinct_filter_nth [of "\<lambda>z. z \<noteq> (0, 0)"]) auto
    then have "fst (zs ! i) + snd (zs ! i) \<le> fst (zs ! j) \<or> fst (zs ! j) + snd (zs ! j) \<le> fst (zs ! i)"
      using taken_blocks_apart [of "fst (zs ! i)" "snd (zs ! i)" 0 bl "fst (zs ! j)" "snd (zs ! j)"]
        A(4) [of i] A(4) [of j] ij False by simp
    moreover have "unat (h_base h) + 8 * fst (zs ! k) < unat (fst (live ! k))"
      "unat (fst (live ! k)) + unat (snd (live ! k)) \<le> unat (h_base h) + 8 * (fst (zs ! k) + snd (zs ! k))"
      if "k = i \<or> k = j" for k
      using A(4) [of k] that ij False by auto
    from this [of i] this [of j] have "unat (h_base h) + 8 * fst (zs ! j) < unat (fst (live ! j))"
      "unat (fst (live ! i)) + unat (snd (live ! i)) \<le> unat (h_base h) + 8 * (fst (zs ! i) + snd (zs ! i))"
      "unat (h_base h) + 8 * fst (zs ! i) < unat (fst (live ! i))"
      "unat (fst (live ! j)) + unat (snd (live ! j)) \<le> unat (h_base h) + 8 * (fst (zs ! j) + snd (zs ! j))"
      by simp_all
    ultimately show ?thesis
      unfolding apart_def by (rule spans_apart)
  qed
qed


lemma length_allocations:
  "list_all2 (serves_alloc h) live zs \<Longrightarrow>
    length (filter (\<lambda>z. z \<noteq> (0, 0)) zs) = length (filter (\<lambda>x. snd x \<noteq> 0) live)"
  by (induction rule: list_all2_induct) (auto simp: serves_alloc_def split: if_splits)

lemma init_run_state:
  assumes "unat base + unat bytes \<le> 2 ^ 64" and "96 \<le> unat bytes" "unat bytes < 2 ^ 34"
    and "unat bytes div 8 \<le> length mem"
  shows "\<exists>h. heap_init base bytes mem (static_heap s) = Inr h \<and>
    run_state h [] [(2, True), (length (h_array h) - 4, False), (2, True)] [2] [] \<and>
    unat base \<le> unat (h_base h) \<and> unat (h_base h) + 8 * length (h_array h) \<le> unat base + unat bytes \<and>
    unat bytes < 8 * length (h_array h) + 32"
proof -
  obtain h where I: "heap_init base bytes mem (static_heap s) = Inr h"
    "heap_inv h [(2, True), (length (h_array h) - 4, False), (2, True)] [2]"
    "unat base \<le> unat (h_base h)" "unat (h_base h) + 8 * length (h_array h) \<le> unat base + unat bytes"
    "unat bytes < 8 * length (h_array h) + 32" "n_malloc h = 0" "n_free h = 0"
    using heap_init_inv [OF assms, of "static_heap s"] by (auto simp: static_heap_def)
  have "4 \<le> length (h_array h)"
    using assms(2) I(5) by simp
  then have "run_state h [] [(2, True), (length (h_array h) - 4, False), (2, True)] [2] []"
    using I by (simp add: run_state_def)
  with I show ?thesis
    by blast
qed

lemma nothing_allocated:
  assumes lay: "heap_layout h bl" and "coalesced bl" and "8 \<le> length (h_array h)"
    and mset: "mset (taken_blocks 0 bl) = {#(0, 2), (length (h_array h) - 2, 2)#}"
  shows "bl = [(2, True), (length (h_array h) - 4, False), (2, True)]"
proof -
  obtain ms where ms: "bl = (2, True) # ms @ [(2, True)]"
    using lay by (auto simp: heap_layout_def)
  have "extent bl = length (h_array h)"
    using lay by (simp add: heap_layout_def)
  then have ext: "extent ms = length (h_array h) - 4"
    using ms by simp
  have "size (mset (taken_blocks 0 bl)) = 2"
    unfolding mset by simp
  then have "taken_blocks 2 ms = []"
    using ms by (simp add: taken_blocks_append numeral_2_eq_2)
  moreover have "taken_blocks k xs = [] \<Longrightarrow> \<forall>b \<in> set xs. \<not> snd b" for k xs
    by (induction k xs rule: taken_blocks.induct) (auto split: if_splits)
  ultimately have free: "\<forall>b \<in> set ms. \<not> snd b"
    by blast
  show ?thesis
  proof (cases ms)
    case Nil
    then show ?thesis
      using ext assms(3) by simp
  next
    case (Cons b bs)
    have "bs = []"
    proof (cases bs)
      case (Cons c cs)
      then have "snd b \<or> snd c"
        using assms(2) ms \<open>ms = b # bs\<close> by (simp add: coalesced_def)
      then show ?thesis
        using free \<open>ms = b # bs\<close> Cons by simp
    qed
    then show ?thesis
      using Cons ext free ms by (cases b) simp
  qed
qed

text \<open>Allocating from a heap that is one available block.\<close>

lemma malloc_fresh:
  assumes inv: "heap_inv h [(2, True), (m, False), (2, True)] fl" and n: "n \<noteq> 0" "unat n < 2 ^ 64 - 7"
    and fits: "words_needed (unat n) \<le> m"
  shows "\<exists>h'. malloc n h = Some (Inr (h_base h + 24, h'))"
  using malloc_cases [OF inv n]
proof (elim disjE exE conjE)
  assume "\<forall>k. (k, False) \<in> set [(2, True), (m, False), (2, True)] \<longrightarrow> k < words_needed (unat n)"
  then show ?thesis
    using fits by auto
next
  fix xs k ys h' fl'
  assume b: "[(2, True), (m, False), (2, True)] = xs @ (k, False) # ys"
    and r: "malloc n h = Some (Inr (h_base h + 8 * (word_of_nat (extent xs) + 1), h'))"
  have "xs = [(2, True)]"
    using b by (auto simp: Cons_eq_append_conv)
  then show ?thesis
    using r by simp
qed

section \<open>Properties\<close>

text \<open>
  C22. From initialisation on, no sequence of allocations and releases makes the heap fault or loop: it
  always returns, what is allocated lies inside the given memory, is aligned to 16 bytes and large
  enough, no two allocations overlap, and the counters tell how many there are.
\<close>

theorem heap_safe:
  assumes "unat base + unat bytes \<le> 2 ^ 64" and "96 \<le> unat bytes" and "unat bytes < 2 ^ 34"
    and "unat bytes div 8 \<le> length mem" and "\<forall>op \<in> set ops. wf_heap_op op"
  shows "\<exists>h0 h live. heap_init base bytes mem (static_heap s) = Inr h0 \<and>
    heap_run ops (h0, []) = Some (Inr (h, live)) \<and> sorted_wrt apart live \<and>
    (\<forall>(p, n) \<in> set live. unat base \<le> unat p \<and> unat p + unat n \<le> unat base + unat bytes \<and> (n = 0 \<or> p mod 16 = 0)) \<and>
    n_malloc h = n_free h + word_of_nat (length (filter (\<lambda>x. snd x \<noteq> 0) live))"
proof -
  obtain h0 where I: "heap_init base bytes mem (static_heap s) = Inr h0"
    "run_state h0 [] [(2, True), (length (h_array h0) - 4, False), (2, True)] [2] []"
    "unat base \<le> unat (h_base h0)" "unat (h_base h0) + 8 * length (h_array h0) \<le> unat base + unat bytes"
    using init_run_state [OF assms(1-4)] by blast
  obtain h live bl fl zs where R: "heap_run ops (h0, []) = Some (Inr (h, live))" "run_state h live bl fl zs"
    "h_base h = h_base h0" "length (h_array h) = length (h_array h0)"
    using run_keeps [OF I(2) assms(5)] by blast
  have "unat base \<le> unat p \<and> unat p + unat n \<le> unat base + unat bytes \<and> (n = 0 \<or> p mod 16 = 0)"
    if mem: "(p, n) \<in> set live" for p n
  proof -
    obtain k where k: "k < length live" "live ! k = (p, n)"
      using mem by (auto simp: in_set_conv_nth)
    note A = allocation_region(1-3) [OF R(2) k(1), unfolded k(2) fst_conv snd_conv R(3,4)]
    have "unat base \<le> unat p"
      using I(3) A(1) by (rule le_trans)
    moreover have "unat p + unat n \<le> unat base + unat bytes"
      using A(2) I(4) by (rule le_trans)
    ultimately show ?thesis
      using A(3) by blast
  qed
  then have "\<forall>(p, n) \<in> set live. unat base \<le> unat p \<and> unat p + unat n \<le> unat base + unat bytes \<and> (n = 0 \<or> p mod 16 = 0)"
    by blast
  moreover have "n_malloc h = n_free h + word_of_nat (length (filter (\<lambda>x. snd x \<noteq> 0) live))"
    using R(2) length_allocations [of h live zs] by (simp add: run_state_def)
  ultimately show ?thesis
    using I(1) R(1) allocations_apart [OF R(2)] by blast
qed

text \<open>
  C27. When everything allocated has been released, whatever the order, all the memory is one available
  block again, and a request for all of it is granted.
\<close>

theorem heap_all_free:
  assumes "unat base + unat bytes \<le> 2 ^ 64" and "96 \<le> unat bytes" and "unat bytes < 2 ^ 34"
    and "unat bytes div 8 \<le> length mem" and "\<forall>op \<in> set ops. wf_heap_op op"
    and "heap_init base bytes mem (static_heap s) = Inr h0" and "heap_run ops (h0, []) = Some (Inr (h, []))"
    and "n \<noteq> 0" and "unat n + 88 \<le> unat bytes"
  shows "heap_inv h [(2, True), (length (h_array h0) - 4, False), (2, True)] [2] \<and>
    (\<exists>h'. malloc n h = Some (Inr (h_base h0 + 24, h')))"
proof -
  obtain h00 where I: "heap_init base bytes mem (static_heap s) = Inr h00"
    "run_state h00 [] [(2, True), (length (h_array h00) - 4, False), (2, True)] [2] []"
    "unat bytes < 8 * length (h_array h00) + 32"
    using init_run_state [OF assms(1-4)] by blast
  have h0: "h00 = h0"
    using I(1) assms(6) by simp
  obtain bl fl zs where R: "run_state h [] bl fl zs" "h_base h = h_base h0" "length (h_array h) = length (h_array h0)"
    using run_keeps [OF I(2) assms(5)] assms(7) unfolding h0 by auto
  have zs: "zs = []" and inv: "heap_inv h bl fl"
    using R(1) by (simp_all add: run_state_def)
  have L: "8 \<le> length (h_array h)" "unat bytes < 8 * length (h_array h) + 32"
    using I(3) assms(2) R(3) h0 by simp_all
  have bl: "bl = [(2, True), (length (h_array h) - 4, False), (2, True)]"
    using R(1) inv L(1) zs by (intro nothing_allocated) (simp_all add: run_state_def heap_inv_def)
  have "fl = [2]"
    using inv bl by (simp add: heap_inv_def)
  have fits: "words_needed (unat n) \<le> length (h_array h) - 4"
    using words_needed(4) [of "unat n"]
  proof
    assume "words_needed (unat n) = 4"
    then show ?thesis using L(1) by simp
  next
    assume "8 * (words_needed (unat n) - 2) < unat n + 16"
    then show ?thesis using assms(9) L(2) by linarith
  qed
  have small_n: "unat n < 2 ^ 64 - 7"
    using assms(3,9) by simp
  have inv': "heap_inv h [(2, True), (length (h_array h) - 4, False), (2, True)] [2]"
    using inv bl \<open>fl = [2]\<close> by simp
  show ?thesis
    using malloc_fresh [OF inv' assms(8) small_n fits] inv' by (simp add: R(2,3))
qed

text \<open>
  \<open>malloc\<close> returns null exactly when no available block is large enough, and then changes nothing;
  otherwise it keeps the invariant. It never writes outside the blocks that were available.
\<close>

theorem malloc_contract:
  assumes "heap_inv h bl fl" and "b \<noteq> 0" and "unat b < 2 ^ 64 - 7"
  shows "\<exists>p h' bl' fl'. malloc b h = Some (Inr (p, h')) \<and> heap_inv h' bl' fl' \<and>
    (p = 0 \<longleftrightarrow> (\<forall>n. (n, False) \<in> set bl \<longrightarrow> n < words_needed (unat b))) \<and> (p = 0 \<longrightarrow> h' = h) \<and>
    (\<forall>k. k \<notin> free_words 0 bl \<longrightarrow> h_array h' ! k = h_array h ! k)"
  using malloc_cases [OF assms]
proof (elim disjE exE conjE)
  assume "\<forall>n. (n, False) \<in> set bl \<longrightarrow> n < words_needed (unat b)" "malloc b h = Some (Inr (0, h))"
  with assms(1) show ?thesis
    by blast
next
  fix xs n ys h' fl'
  assume bl: "bl = xs @ (n, False) # ys" and n: "words_needed (unat b) \<le> n"
    and r: "malloc b h = Some (Inr (h_base h + 8 * (word_of_nat (extent xs) + 1), h'))"
    and inv: "heap_inv h' (xs @ cut n (words_needed (unat b)) @ ys) fl'"
    and same: "\<forall>k. k \<notin> free_words 0 bl \<longrightarrow> h_array h' ! k = h_array h ! k"
  have "heap_layout h (xs @ (n, False) # ys)"
    using assms(1) bl by (simp add: heap_inv_def)
  then have "extent xs + 1 < length (h_array h)"
    using layout_block(1,3) by fastforce
  then have "h_base h + 8 * (word_of_nat (extent xs) + 1) \<noteq> 0"
    by (rule payload_address [OF assms(1)])
  moreover have "\<not> (\<forall>n. (n, False) \<in> set bl \<longrightarrow> n < words_needed (unat b))"
    using bl n by fastforce
  ultimately show ?thesis
    using r inv same by blast
qed

text \<open>
  For a request of the last seven sizes below \<open>2 ^ 64\<close> the rounding \<open>bytes + 7\<close> wraps around, and
  \<open>malloc\<close> treats it as a request of one byte: it returns a block far smaller than asked for.
\<close>

theorem malloc_wraps:
  assumes "2 ^ 64 - 7 \<le> unat b"
  shows "malloc b h = malloc 1 h"
proof -
  have "unat (b + 7) = unat b + 7 - 2 ^ 64"
    using assms unsigned_less [of b, where 'a = nat] by (simp add: unat_word_ariths le_mod_geq)
  then have "unat (b + 7) < 7"
    using assms unsigned_less [of b, where 'a = nat] by simp
  then have "(b + 7) div 8 = 0"
    by (simp add: word_unat_eq_iff unat_div)
  then have "entries_for b = entries_for 1"
    by (simp add: entries_for_def)
  moreover have "b \<noteq> 0"
    using assms by auto
  ultimately show ?thesis
    by (simp add: malloc_def)
qed

section \<open>Witnesses\<close>

text \<open>A heap in 1024 bytes at address 4100.\<close>

theorem heap_safe_witness:
  "\<exists>h0 h live. heap_init 4100 1024 (replicate 128 0) (static_heap False) = Inr h0 \<and>
    heap_run [Alloc 100, Alloc 0, Alloc 24, Release 0, Alloc 40] (h0, []) = Some (Inr (h, live)) \<and> sorted_wrt apart live"
  using heap_safe [of 4100 1024 "replicate 128 0" "[Alloc 100, Alloc 0, Alloc 24, Release 0, Alloc 40]" False]
  by (auto simp: wf_heap_op_def)

theorem heap_all_free_witness:
  "\<exists>h0 h h'. heap_init 4100 1024 (replicate 128 0) (static_heap False) = Inr h0 \<and>
    heap_run [Alloc 8, Release 0] (h0, []) = Some (Inr (h, [])) \<and>
    malloc 900 h = Some (Inr (h_base h0 + 24, h'))"
proof -
  obtain h0 where I: "heap_init 4100 1024 (replicate 128 0) (static_heap False) = Inr h0"
    "run_state h0 [] [(2, True), (length (h_array h0) - 4, False), (2, True)] [2] []" "1024 < 8 * length (h_array h0) + 32"
    using init_run_state [of 4100 1024 "replicate 128 0" False] by auto
  have inv: "heap_inv h0 [(2, True), (length (h_array h0) - 4, False), (2, True)] [2]"
    using I(2) by (simp add: run_state_def)
  have fits: "words_needed (unat (8 :: u64)) \<le> length (h_array h0) - 4"
    using I(3) by (simp add: words_needed_def)
  obtain h1 where A: "malloc 8 h0 = Some (Inr (h_base h0 + 24, h1))"
    using malloc_fresh [OF inv, of 8] fits by auto
  have nz: "h_base h0 + 24 \<noteq> 0"
  proof
    assume "h_base h0 + 24 = 0"
    then have "h_base h0 = - 24"
      by (simp add: eq_neg_iff_add_eq_0)
    then have "unat (h_base h0) = 2 ^ 64 - 24"
      by simp
    then show False
      using inv I(3) by (simp add: heap_inv_def)
  qed
  have "heap_step (Alloc 8) (h0, []) = Some (Inr (h1, [(h_base h0 + 24, 8)]))"
    using A nz by simp
  then obtain bl fl zs where R: "run_state h1 [(h_base h0 + 24, 8)] bl fl zs"
    using alloc_step [OF I(2), of 8] by auto
  then obtain h where "heap_step (Release 0) (h1, [(h_base h0 + 24, 8)]) = Some (Inr (h, []))"
    using release_step [OF R, of 0] by (auto simp: bind_outcome_Inr_iff)
  then have run: "heap_run [Alloc 8, Release 0] (h0, []) = Some (Inr (h, []))"
    using A nz by simp
  obtain h' where "malloc 900 h = Some (Inr (h_base h0 + 24, h'))"
    using heap_all_free [OF _ _ _ _ _ I(1) run, of 900] by (auto simp: wf_heap_op_def)
  with I(1) run show ?thesis
    by blast
qed

theorem malloc_contract_witness:
  "\<exists>h0 p h'. heap_init 4100 1024 (replicate 128 0) (static_heap False) = Inr h0 \<and> malloc 40 h0 = Some (Inr (p, h')) \<and> p \<noteq> 0"
proof -
  obtain h0 where I: "heap_init 4100 1024 (replicate 128 0) (static_heap False) = Inr h0"
    "run_state h0 [] [(2, True), (length (h_array h0) - 4, False), (2, True)] [2] []" "1024 < 8 * length (h_array h0) + 32"
    using init_run_state [of 4100 1024 "replicate 128 0" False] by auto
  have inv: "heap_inv h0 [(2, True), (length (h_array h0) - 4, False), (2, True)] [2]"
    using I(2) by (simp add: run_state_def)
  have "words_needed (unat (40 :: u64)) \<le> length (h_array h0) - 4"
    using I(3) by (simp add: words_needed_def)
  then show ?thesis
    using malloc_contract [OF inv, of 40] I(1) by auto
qed

theorem malloc_wraps_witness:
  "\<exists>h0 h'. heap_init 4100 1024 (replicate 128 0) (static_heap False) = Inr h0 \<and>
    malloc (- 1) h0 = Some (Inr (h_base h0 + 24, h'))"
proof -
  obtain h0 where I: "heap_init 4100 1024 (replicate 128 0) (static_heap False) = Inr h0"
    "run_state h0 [] [(2, True), (length (h_array h0) - 4, False), (2, True)] [2] []" "1024 < 8 * length (h_array h0) + 32"
    using init_run_state [of 4100 1024 "replicate 128 0" False] by auto
  have inv: "heap_inv h0 [(2, True), (length (h_array h0) - 4, False), (2, True)] [2]"
    using I(2) by (simp add: run_state_def)
  have "unat (- 1 :: u64) = 2 ^ 64 - 1"
    by (simp add: unsigned_minus_1_eq_mask mask_eq_exp_minus_1)
  then have "malloc (- 1) h0 = malloc 1 h0"
    by (intro malloc_wraps) simp
  moreover have "words_needed (unat (1 :: u64)) \<le> length (h_array h0) - 4"
    using I(3) by (simp add: words_needed_def)
  ultimately show ?thesis
    using malloc_fresh [OF inv, of 1] I(1) by auto
qed

end
