(* ===== verification/Block_Device.thy ===== *)
theory Block_Device
  imports Prelude
begin

text \<open>
  Byte-granular reads over whole-block reads, \<^verbatim>\<open>block_io.h\<close> and \<^verbatim>\<open>block_io.cc\<close>, and the ramdisk
  that provides blocks from memory, \<^verbatim>\<open>ramdisk.cc\<close>. A \<open>BlockIO\<close> object is its virtual functions.
  The locale states what a device promises; inside it \<open>read_all\<close> is shown to return exactly the
  requested part of the device's content, whatever the block size and the offsets.
\<close>

section \<open>The code\<close>

text \<open>
  \<open>bio_read_block\<close> returns the bytes it puts into the caller's buffer, one block of them. The
  caller's buffer is large enough, as the comment of \<^verbatim>\<open>block_io.h\<close> demands, so a read is its return
  value with the bytes stored from the start of the buffer.
\<close>

record block_io =
  bio_block_size :: u32
  bio_size :: u32
  bio_read_block :: "u32 \<Rightarrow> bytes outcome"

definition size_in_blocks :: "u32 \<Rightarrow> u32 \<Rightarrow> u32" where
  "size_in_blocks size_in_bytes block_size = (size_in_bytes + block_size - 1) div block_size"

definition BlockIO_read :: "block_io \<Rightarrow> u32 \<Rightarrow> u32 \<Rightarrow> (int \<times> bytes) outcome" where
  "BlockIO_read d offset desired_n =
     (let sz = bio_size d; block_size = bio_block_size d
      in if offset > sz then Inr (-1, [])
         else if offset = sz then Inr (0, [])
         else if block_size = 0 then Inl Undefined
         else
           let n = min desired_n (sz - offset);
               block_number = offset div block_size;
               offset_in_block = offset mod block_size;
               actual_n = min (block_size - offset_in_block) n
           in bind_outcome (assert_that (actual_n \<le> n) ''actual_n <= n'') (\<lambda>_.
              bind_outcome (assert_that (offset + actual_n \<le> sz) ''offset + actual_n <= sz'') (\<lambda>_.
                if actual_n = block_size then
                  bind_outcome (assert_that (offset_in_block = 0) ''offset_in_block == 0'') (\<lambda>_.
                  bind_outcome (bio_read_block d block_number) (\<lambda>buffer.
                    Inr (uint actual_n, buffer)))
                else
                  bind_outcome (assert_that (offset_in_block + actual_n \<le> block_size)
                    ''offset_in_block + actual_n <= block_size'') (\<lambda>_.
                  bind_outcome (bio_read_block d block_number) (\<lambda>temp.
                    if unat offset_in_block + unat actual_n \<le> length temp
                    then Inr (uint actual_n, segment (unat offset_in_block) (unat actual_n) temp)
                    else Inl OutOfBounds)))))"

lemma BlockIO_read_count:
  assumes "BlockIO_read d offset n = Inr (cnt, bs)" and "0 < cnt"
  shows "cnt \<le> uint n"
  using assms
  by (auto simp: BlockIO_read_def Let_def bind_outcome_Inr_iff assert_that_def word_le_def min_def
      split: if_splits)

text \<open>The loop of \<open>read_all\<close> with the count so far; its result has the bytes the rest reads.\<close>

function read_all_loop :: "block_io \<Rightarrow> u32 \<Rightarrow> u32 \<Rightarrow> int \<Rightarrow> (int \<times> bytes) outcome" where
  "read_all_loop d offset n total_count =
     (if n > 0 then
        (case BlockIO_read d offset n of
           Inl e \<Rightarrow> Inl e
         | Inr (cnt, bs) \<Rightarrow>
             if cnt < 0 then Inr (cnt, [])
             else if cnt = 0 then Inr (total_count, [])
             else bind_outcome (read_all_loop d (offset + word_of_int cnt) (n - word_of_int cnt) (total_count + cnt))
                    (\<lambda>(tot, rest). Inr (tot, bs @ rest)))
      else Inr (total_count, []))"
  by pat_completeness auto
termination
proof (relation "measure (\<lambda>(d, offset, n, tot). unat n)")
  fix d :: block_io and offset n :: u32 and tot :: int and x cnt bs
  assume r: "BlockIO_read d offset n = Inr x" "(cnt, bs) = x" and pos: "\<not> cnt < 0" "cnt \<noteq> 0"
  have le: "cnt \<le> uint n"
    using BlockIO_read_count [of d offset n cnt bs] r pos by simp
  then have "uint (word_of_int cnt :: u32) = cnt"
    using pos uint_lt2p [of n] by (simp add: uint_word_of_int)
  then have w: "unat (word_of_int cnt :: u32) = nat cnt"
    by (metis nat_uint_eq)
  have "nat cnt \<le> unat n"
    using nat_mono [OF le] by (simp add: nat_uint_eq)
  then have "unat (n - word_of_int cnt) < unat n"
    using w pos by (simp add: unat_sub word_le_nat_alt)
  then show "((d, offset + word_of_int cnt, n - word_of_int cnt, tot + cnt), d, offset, n, tot)
      \<in> measure (\<lambda>(d, offset, n, tot). unat n)"
    by simp
qed simp

declare read_all_loop.simps [simp del]

definition BlockIO_read_all :: "block_io \<Rightarrow> u32 \<Rightarrow> u32 \<Rightarrow> (int \<times> bytes) outcome" where
  "BlockIO_read_all d offset n = read_all_loop d offset n 0"

text \<open>The template \<open>read(offset, thing)\<close>: the bytes of \<open>thing\<close>.\<close>

definition read_thing :: "block_io \<Rightarrow> u32 \<Rightarrow> nat \<Rightarrow> bytes outcome" where
  "read_thing d offset sizeof_thing =
     bind_outcome (BlockIO_read_all d offset (word_of_nat sizeof_thing)) (\<lambda>(cnt, bs).
     bind_outcome (assert_that (cnt = int sizeof_thing) ''cnt == sizeof(T)'') (\<lambda>_. Inr bs))"

section \<open>What a device promises\<close>

text \<open>
  Seen as an array of bytes: every block that holds a byte of the content can be read, is of the block
  size, and starts with the content's bytes (what follows the end of the content is up to the device).
\<close>

locale block_device =
  fixes io :: "'d \<Rightarrow> block_io"
    and content :: "'d \<Rightarrow> bytes"
    and invar :: "'d \<Rightarrow> bool"
  assumes block_size_pos: "invar d \<Longrightarrow> 0 < bio_block_size (io d)"
    and size_content: "invar d \<Longrightarrow> unat (bio_size (io d)) = length (content d)"
    and block_content: "invar d \<Longrightarrow> unat i * unat (bio_block_size (io d)) < length (content d) \<Longrightarrow>
      \<exists>b. bio_read_block (io d) i = Inr b \<and> length b = unat (bio_block_size (io d)) \<and>
        (\<forall>k < length b. unat i * unat (bio_block_size (io d)) + k < length (content d) \<longrightarrow>
           b ! k = content d ! (unat i * unat (bio_block_size (io d)) + k))"
begin

lemma block_segment:
  assumes inv: "invar d" and i: "unat i * unat (bio_block_size (io d)) < length (content d)"
    and k: "off + k \<le> unat (bio_block_size (io d))"
    and fits: "unat i * unat (bio_block_size (io d)) + off + k \<le> length (content d)"
  shows "\<exists>b. bio_read_block (io d) i = Inr b \<and> length b = unat (bio_block_size (io d)) \<and>
    segment off k b = segment (unat i * unat (bio_block_size (io d)) + off) k (content d)"
proof -
  let ?bs = "unat (bio_block_size (io d))"
  obtain b where b: "bio_read_block (io d) i = Inr b" "length b = ?bs"
    "\<forall>j < length b. unat i * ?bs + j < length (content d) \<longrightarrow> b ! j = content d ! (unat i * ?bs + j)"
    using block_content [OF inv i] by blast
  have "segment off k b = segment (unat i * ?bs + off) k (content d)"
  proof (rule nth_equalityI)
    show "length (segment off k b) = length (segment (unat i * ?bs + off) k (content d))"
      using b(2) k fits by simp
  next
    fix j
    assume "j < length (segment off k b)"
    then have j: "j < k" "off + j < length b"
      by (simp_all add: less_diff_conv add.commute)
    then show "segment off k b ! j = segment (unat i * ?bs + off) k (content d) ! j"
      using b(3) fits by (simp add: segment_def add.assoc)
  qed
  with b show ?thesis by blast
qed

text \<open>One \<open>read\<close>: a positive count, and that many bytes of the content.\<close>

lemma read_part:
  assumes inv: "invar d" and off: "unat offset < length (content d)" and n: "0 < n"
  shows "\<exists>k. BlockIO_read (io d) offset n = Inr (int k, segment (unat offset) k (content d)) \<and>
    0 < k \<and> k \<le> unat n \<and> unat offset + k \<le> length (content d)"
proof -
  let ?bs = "bio_block_size (io d)" and ?sz = "bio_size (io d)"
  define m where "m = min n (?sz - offset)"
  define r where "r = offset mod ?bs"
  define a where "a = min (?bs - r) m"
  have sz: "unat ?sz = length (content d)" and bs: "0 < ?bs"
    using size_content [OF inv] block_size_pos [OF inv] by simp_all
  have lt: "offset < ?sz"
    using off sz by (simp add: word_less_nat_alt)
  then have sub: "unat (?sz - offset) = unat ?sz - unat offset"
    by (intro unat_sub less_imp_le)
  have bs': "0 < unat ?bs"
    using bs by (simp add: word_less_nat_alt)
  have r: "unat r = unat offset mod unat ?bs" and rlt: "unat r < unat ?bs"
    using bs' by (simp_all add: r_def unat_mod)
  then have rsub: "unat (?bs - r) = unat ?bs - unat r"
    by (intro unat_sub) (simp add: word_le_nat_alt)
  have m: "unat m = min (unat n) (unat ?sz - unat offset)"
    by (simp add: m_def min_def word_le_nat_alt sub)
  have a: "unat a = min (unat ?bs - unat r) (unat m)"
    by (simp add: a_def min_def word_le_nat_alt rsub)
  have bounds: "unat a \<le> unat ?bs - unat r" "unat a \<le> unat m" "unat m \<le> unat n"
    "unat m \<le> length (content d) - unat offset"
    unfolding a m sz by (rule min.cobounded1, rule min.cobounded2, rule min.cobounded1, rule min.cobounded2)
  have apos: "0 < unat a"
    using n off rlt m by (simp add: a word_less_nat_alt sz)
  have split: "unat offset = unat (offset div ?bs) * unat ?bs + unat r"
    by (simp add: r unat_div)
  have ends: "unat offset + unat a \<le> length (content d)" "unat r + unat a \<le> unat ?bs"
    using bounds off rlt by linarith+
  have asum: "unat (offset + a) = unat offset + unat a"
    using ends(1) u32_bound [of ?sz] sz by (subst unat_add_lem [THEN iffD1]) simp_all
  have rsum: "unat (r + a) = unat r + unat a"
    using ends(2) u32_bound [of ?bs] by (subst unat_add_lem [THEN iffD1]) simp_all
  have asserts: "a \<le> m" "offset + a \<le> ?sz" "r + a \<le> ?bs"
    using bounds ends sz by (simp_all add: word_le_nat_alt asum rsum)
  have "unat (offset div ?bs) * unat ?bs < length (content d)"
    using split off by linarith
  moreover have "unat (offset div ?bs) * unat ?bs + unat r + unat a \<le> length (content d)"
    using split ends(1) by linarith
  ultimately obtain b where b: "bio_read_block (io d) (offset div ?bs) = Inr b" "length b = unat ?bs"
    "segment (unat r) (unat a) b = segment (unat offset) (unat a) (content d)"
    using block_segment [OF inv, of "offset div ?bs" "unat r" "unat a"] split ends(2) by metis
  have whole: "r = 0 \<and> segment (unat r) (unat a) b = b" if "a = ?bs"
  proof -
    have "unat r = 0"
      using that ends(2) by simp
    then show ?thesis
      using that b(2) by (simp add: segment_def unat_eq_zero)
  qed
  have "BlockIO_read (io d) offset n = Inr (uint a, segment (unat offset) (unat a) (content d))"
    using lt bs asserts b whole ends(2)
    by (auto simp: BlockIO_read_def Let_def m_def [symmetric] r_def [symmetric] a_def [symmetric])
  then show ?thesis
    using apos bounds ends by (intro exI [of _ "unat a"]) simp
qed

lemma read_all_loop_content:
  assumes inv: "invar d" and "unat offset \<le> length (content d)"
  shows "read_all_loop (io d) offset n tot =
    Inr (tot + int (min (unat n) (length (content d) - unat offset)),
         segment (unat offset) (unat n) (content d))"
  using assms(2)
proof (induction "unat n" arbitrary: offset n tot rule: less_induct)
  case less
  let ?len = "length (content d)"
  consider "n = 0" | "n \<noteq> 0" "unat offset = ?len" | "0 < n" "unat offset < ?len"
    using less.prems by (cases "n = 0") (auto simp: word_gt_0 le_less)
  then show ?case
  proof cases
    case 1
    then show ?thesis
      by (simp add: read_all_loop.simps segment_def)
  next
    case 2
    then have "offset = bio_size (io d)"
      using size_content [OF inv] by (simp add: word_unat_eq_iff)
    with 2 show ?thesis
      by (simp add: read_all_loop.simps BlockIO_read_def Let_def segment_def word_neq_0_conv [symmetric])
  next
    case 3
    obtain k where k: "BlockIO_read (io d) offset n = Inr (int k, segment (unat offset) k (content d))"
      "0 < k" "k \<le> unat n" "unat offset + k \<le> ?len"
      using read_part [OF inv 3(2,1)] by blast
    have kw: "unat (word_of_nat k :: u32) = k"
      using k(3) u32_bound [of n] by (simp add: unat_of_nat)
    then have nk: "unat (n - word_of_nat k) = unat n - k"
      using k(3) by (simp add: unat_sub word_le_nat_alt)
    have ok: "unat (offset + word_of_nat k) = unat offset + k"
      using k(4) kw size_content [OF inv] u32_bound [of "bio_size (io d)"]
      by (subst unat_add_lem [THEN iffD1]) auto
    have "read_all_loop (io d) (offset + word_of_nat k) (n - word_of_nat k) (tot + int k) =
        Inr (tot + int k + int (min (unat n - k) (?len - (unat offset + k))),
          segment (unat offset + k) (unat n - k) (content d))"
      using less.hyps [of "n - word_of_nat k" "offset + word_of_nat k" "tot + int k"] k nk ok by simp
    moreover have "segment (unat offset) k (content d) @ segment (unat offset + k) (unat n - k) (content d) =
        segment (unat offset) (unat n) (content d)"
      using k(3) take_add [of k "unat n - k" "drop (unat offset) (content d)"]
      by (simp add: segment_def add.commute)
    moreover have "k + min (unat n - k) (?len - (unat offset + k)) = min (unat n) (?len - unat offset)"
      using k(3,4) by auto
    ultimately show ?thesis
      using 3(1) k by (simp add: read_all_loop.simps [of _ offset n] flip: of_nat_add)
  qed
qed

lemma read_all_content:
  assumes "invar d" and "unat offset \<le> length (content d)"
  shows "BlockIO_read_all (io d) offset n =
    Inr (int (min (unat n) (length (content d) - unat offset)), segment (unat offset) (unat n) (content d))"
  using read_all_loop_content [OF assms] by (simp add: BlockIO_read_all_def)

lemma read_all_beyond:
  assumes "invar d" and "length (content d) < unat offset" and "0 < n"
  shows "BlockIO_read_all (io d) offset n = Inr (-1, [])"
proof -
  have "bio_size (io d) < offset"
    using assms(2) size_content [OF assms(1)] by (simp add: word_less_nat_alt)
  with assms(3) show ?thesis
    by (simp add: BlockIO_read_all_def read_all_loop.simps BlockIO_read_def)
qed

lemma read_thing_content:
  assumes "invar d" and "unat offset + k \<le> length (content d)" and "k < 2 ^ 32"
  shows "read_thing (io d) offset k = Inr (segment (unat offset) k (content d))"
  using assms read_all_content [OF assms(1), of offset "word_of_nat k"]
  by (simp add: read_thing_def unat_of_nat)

end

text \<open>What \<open>read_all\<close> returns for a content: the range cut at its end, -1 beyond it.\<close>

definition read_result :: "bytes \<Rightarrow> u32 \<Rightarrow> u32 \<Rightarrow> int \<times> bytes" where
  "read_result c offset n =
     (if unat offset \<le> length c
      then (int (min (unat n) (length c - unat offset)), segment (unat offset) (unat n) c)
      else if n = 0 then (0, []) else (-1, []))"

context block_device
begin

lemma read_all_result:
  assumes "invar d"
  shows "BlockIO_read_all (io d) offset n = Inr (read_result (content d) offset n)"
proof (cases "n = 0")
  case True
  then show ?thesis
    by (simp add: BlockIO_read_all_def read_all_loop.simps read_result_def segment_def)
next
  case False
  then show ?thesis
    using read_all_content [OF assms, of offset n] read_all_beyond [OF assms, of offset n]
    by (simp add: read_result_def word_gt_0)
qed

end

text \<open>The promise as a relation between an object and its content, for the code that is handed any device.\<close>

definition serves :: "block_io \<Rightarrow> bytes \<Rightarrow> bool" where
  "serves d c \<longleftrightarrow>
     0 < bio_block_size d \<and> unat (bio_size d) = length c \<and>
     (\<forall>i. unat i * unat (bio_block_size d) < length c \<longrightarrow>
        (\<exists>b. bio_read_block d i = Inr b \<and> length b = unat (bio_block_size d) \<and>
           (\<forall>k < length b. unat i * unat (bio_block_size d) + k < length c \<longrightarrow>
              b ! k = c ! (unat i * unat (bio_block_size d) + k))))"

interpretation served: block_device fst snd "\<lambda>p. serves (fst p) (snd p)"
  by unfold_locales (auto simp: serves_def)

context block_device
begin

lemma serves_content: "invar d \<Longrightarrow> serves (io d) (content d)"
  by (simp add: serves_def block_size_pos size_content block_content)

end

section \<open>The ramdisk\<close>

text \<open>Comparison of C strings, \<^verbatim>\<open>streq\<close> in \<^verbatim>\<open>machine.S\<close>.\<close>

fun streq :: "bytes \<Rightarrow> bytes \<Rightarrow> bool" where
  "streq (a # as) (b # bs) = (if a \<noteq> b then False else if a = 0 then True else streq as bs)"
| "streq _ _ = False"

lemma streq_iff: "terminated a \<Longrightarrow> terminated b \<Longrightarrow> streq a b \<longleftrightarrow> cstr a = cstr b"
  by (induction a b rule: streq.induct) (auto simp: cstr_def terminated_def)

text \<open>A module as the boot loader describes it, with the memory from its address on.\<close>

record limine_file =
  mod_path :: bytes
  mod_memory :: bytes
  mod_size :: u64

definition find_module :: "limine_file list option \<Rightarrow> bytes \<Rightarrow> limine_file outcome" where
  "find_module response module_name =
     (case response of
        None \<Rightarrow> Inl (Panic ''response != nullptr'')
      | Some ms \<Rightarrow>
          (case find (\<lambda>m. streq (mod_path m) module_name) ms of
             Some m \<Rightarrow> Inr m
           | None \<Rightarrow> Inl (Panic ''module ? not found'')))"

definition RamDisk_size_in_bytes :: "limine_file \<Rightarrow> u32" where
  "RamDisk_size_in_bytes m = ucast (mod_size m)"

definition RamDisk_read_block :: "limine_file \<Rightarrow> u32 \<Rightarrow> bytes outcome" where
  "RamDisk_read_block m block =
     bind_outcome (assert_that (block < size_in_blocks (RamDisk_size_in_bytes m) 512)
       ''block < size_in_blocks()'') (\<lambda>_.
       let offset = 512 * block
       in if unat offset + 512 \<le> length (mod_memory m) then Inr (segment (unat offset) 512 (mod_memory m))
          else Inl OutOfBounds)"

definition RamDisk :: "limine_file \<Rightarrow> block_io" where
  "RamDisk m = \<lparr>bio_block_size = 512, bio_size = RamDisk_size_in_bytes m,
     bio_read_block = RamDisk_read_block m\<rparr>"

text \<open>
  A module below 4 GiB whose memory is readable up to the next multiple of the block size; the boot
  loader places modules in whole pages.
\<close>

definition wf_module :: "limine_file \<Rightarrow> bool" where
  "wf_module m \<longleftrightarrow>
     unat (mod_size m) < 2 ^ 32 - 512 \<and> (unat (mod_size m) + 511) div 512 * 512 \<le> length (mod_memory m)"

definition module_bytes :: "limine_file \<Rightarrow> bytes" where
  "module_bytes m = take (unat (mod_size m)) (mod_memory m)"

lemma ramdisk_size:
  assumes "wf_module m"
  shows "unat (RamDisk_size_in_bytes m) = unat (mod_size m)" and "length (module_bytes m) = unat (mod_size m)"
proof -
  have "unat (mod_size m) < 2 ^ 32"
    using assms by (simp add: wf_module_def)
  then show "unat (RamDisk_size_in_bytes m) = unat (mod_size m)"
    by (simp add: RamDisk_size_in_bytes_def unsigned_ucast_eq take_bit_nat_eq_self)
  have "unat (mod_size m) \<le> (unat (mod_size m) + 511) div 512 * 512"
    by linarith
  then show "length (module_bytes m) = unat (mod_size m)"
    using assms by (simp add: wf_module_def module_bytes_def)
qed

lemma ramdisk_block:
  assumes wf: "wf_module m" and i: "unat i * 512 < unat (mod_size m)"
  shows "RamDisk_read_block m i = Inr (segment (unat i * 512) 512 (mod_memory m))"
    and "unat i * 512 + 512 \<le> length (mod_memory m)"
proof -
  let ?n = "unat (mod_size m)"
  have small: "?n < 4294966784"
    using wf by (simp add: wf_module_def)
  have "unat (RamDisk_size_in_bytes m + 512 - 1) = ?n + 511"
    using ramdisk_size(1) [OF wf] small by (simp add: unat_word_ariths)
  then have "unat (size_in_blocks (RamDisk_size_in_bytes m) 512) = (?n + 511) div 512"
    by (simp add: size_in_blocks_def unat_div)
  then have lt: "i < size_in_blocks (RamDisk_size_in_bytes m) 512"
    using i by (simp add: word_less_nat_alt)
  have off: "unat (512 * i) = unat i * 512"
    using i small by (simp add: unat_word_ariths)
  have "unat i + 1 \<le> (?n + 511) div 512"
    using i by (subst less_eq_div_iff_mult_less_eq) auto
  then have "(unat i + 1) * 512 \<le> (?n + 511) div 512 * 512"
    by (rule mult_le_mono1)
  then show fits: "unat i * 512 + 512 \<le> length (mod_memory m)"
    using wf by (simp add: wf_module_def)
  show "RamDisk_read_block m i = Inr (segment (unat i * 512) 512 (mod_memory m))"
    using lt off fits by (simp add: RamDisk_read_block_def)
qed

interpretation ramdisk: block_device RamDisk module_bytes wf_module
proof
  fix m :: limine_file and i :: u32
  assume wf: "wf_module m"
  show "0 < bio_block_size (RamDisk m)" "unat (bio_size (RamDisk m)) = length (module_bytes m)"
    using ramdisk_size [OF wf] by (simp_all add: RamDisk_def)
  assume "unat i * unat (bio_block_size (RamDisk m)) < length (module_bytes m)"
  then have "unat i * 512 < unat (mod_size m)"
    using ramdisk_size(2) [OF wf] by (simp add: RamDisk_def)
  from ramdisk_block [OF wf this] ramdisk_size(2) [OF wf]
  show "\<exists>b. bio_read_block (RamDisk m) i = Inr b \<and> length b = unat (bio_block_size (RamDisk m)) \<and>
      (\<forall>k < length b. unat i * unat (bio_block_size (RamDisk m)) + k < length (module_bytes m) \<longrightarrow>
        b ! k = module_bytes m ! (unat i * unat (bio_block_size (RamDisk m)) + k))"
    by (simp add: RamDisk_def segment_def module_bytes_def)
qed

section \<open>Properties\<close>

text \<open>
  Reading any range of the ramdisk, across block boundaries and with any alignment, returns
  exactly the module's bytes of that range, cut at the end of the module; at the end it returns 0 and
  beyond it -1. It always returns.
\<close>

theorem ramdisk_read_all:
  assumes "wf_module m"
  shows "BlockIO_read_all (RamDisk m) offset n =
    (if unat offset \<le> unat (mod_size m)
     then Inr (int (min (unat n) (unat (mod_size m) - unat offset)), segment (unat offset) (unat n) (module_bytes m))
     else if n = 0 then Inr (0, []) else Inr (-1, []))"
  by (simp add: ramdisk.read_all_result [OF assms] read_result_def ramdisk_size(2) [OF assms])

theorem ramdisk_read_all_witness:
  "BlockIO_read_all (RamDisk \<lparr>mod_path = [], mod_memory = replicate 510 0 @ [1, 2, 3, 4] @ replicate 510 0,
     mod_size = 513\<rparr>) 509 9 = Inr (4, [0, 1, 2, 3])"
proof -
  let ?m = "\<lparr>mod_path = [], mod_memory = replicate 510 0 @ [1, 2, 3, 4] @ replicate 510 0, mod_size = 513\<rparr>"
  have "wf_module ?m"
    by (simp add: wf_module_def)
  from ramdisk_read_all [OF this, of 509 9] show ?thesis
    by (simp add: segment_def module_bytes_def)
qed

end
