(* ===== verification/Ext2.thy ===== *)
theory Ext2
  imports Block_Device
begin

text \<open>
  The ext2 file system of \<^verbatim>\<open>ext2.h\<close> and \<^verbatim>\<open>ext2.cc\<close>: mounting, finding the node of an i-number,
  the blocks of a node through its direct and indirect references, and directories. A structure the
  code reads from the device byte for byte is its bytes, and a member of it the number at the
  member's offset. The reference-counted pointers are the objects they point to.
\<close>

section \<open>Structures on the device\<close>

fun le_nat :: "bytes \<Rightarrow> nat" where
  "le_nat [] = 0"
| "le_nat (b # bs) = unat b + 256 * le_nat bs"

lemma le_nat_zeros [simp]: "le_nat (replicate k 0) = 0"
  by (induction k) simp_all

definition u16_at :: "nat \<Rightarrow> bytes \<Rightarrow> u16" where "u16_at off bs = word_of_nat (le_nat (segment off 2 bs))"
definition u32_at :: "nat \<Rightarrow> bytes \<Rightarrow> u32" where "u32_at off bs = word_of_nat (le_nat (segment off 4 bs))"
definition u64_at :: "nat \<Rightarrow> bytes \<Rightarrow> u64" where "u64_at off bs = word_of_nat (le_nat (segment off 8 bs))"

definition sizeof_SuperBlock :: nat where "sizeof_SuperBlock = 140"

definition inodes_count :: "bytes \<Rightarrow> u32" where "inodes_count sb = u32_at 0 sb"
definition blocks_count :: "bytes \<Rightarrow> u32" where "blocks_count sb = u32_at 4 sb"
definition log_block_size :: "bytes \<Rightarrow> u32" where "log_block_size sb = u32_at 24 sb"
definition blocks_per_group :: "bytes \<Rightarrow> u32" where "blocks_per_group sb = u32_at 32 sb"
definition inodes_per_group :: "bytes \<Rightarrow> u32" where "inodes_per_group sb = u32_at 40 sb"
definition inode_size :: "bytes \<Rightarrow> u16" where "inode_size sb = u16_at 88 sb"

definition sizeof_BlockGroup :: nat where "sizeof_BlockGroup = 32"

definition inode_table :: "bytes \<Rightarrow> u32" where "inode_table g = u32_at 8 g"

definition sizeof_NodeData :: nat where "sizeof_NodeData = 128"

definition mode :: "bytes \<Rightarrow> u16" where "mode d = u16_at 0 d"
definition size_low :: "bytes \<Rightarrow> u32" where "size_low d = u32_at 4 d"
definition data_n_links :: "bytes \<Rightarrow> u16" where "data_n_links d = u16_at 26 d"
definition n_sectors :: "bytes \<Rightarrow> u32" where "n_sectors d = u32_at 28 d"
definition direct :: "bytes \<Rightarrow> u32 \<Rightarrow> u32" where "direct d index = u32_at (40 + 4 * unat index) d"
definition indirect_1 :: "bytes \<Rightarrow> u32" where "indirect_1 d = u32_at 88 d"

definition get_type :: "bytes \<Rightarrow> u16" where "get_type d = drop_bit 12 (mode d)"
definition data_is_dir :: "bytes \<Rightarrow> bool" where "data_is_dir d \<longleftrightarrow> get_type d = 4"
definition data_is_file :: "bytes \<Rightarrow> bool" where "data_is_file d \<longleftrightarrow> get_type d = 8"
definition data_is_symlink :: "bytes \<Rightarrow> bool" where "data_is_symlink d \<longleftrightarrow> get_type d = 0xA"

section \<open>Nodes\<close>

record Node =
  node_number :: u32
  node_block_size :: u32
  node_data :: bytes
  node_device :: block_io

definition Node_size_in_bytes :: "Node \<Rightarrow> u32" where "Node_size_in_bytes nd = size_low (node_data nd)"
definition is_dir :: "Node \<Rightarrow> bool" where "is_dir nd = data_is_dir (node_data nd)"
definition is_file :: "Node \<Rightarrow> bool" where "is_file nd = data_is_file (node_data nd)"
definition is_symlink :: "Node \<Rightarrow> bool" where "is_symlink nd = data_is_symlink (node_data nd)"
definition n_links :: "Node \<Rightarrow> u32" where "n_links nd = ucast (data_n_links (node_data nd))"

text \<open>The number of the device's block that holds block \<open>index\<close> of the node.\<close>

definition Node_block_index :: "Node \<Rightarrow> u32 \<Rightarrow> u32 outcome" where
  "Node_block_index nd index =
     (let block_size = node_block_size nd; data = node_data nd
      in if block_size div 512 = 0 then Inl Undefined
         else
           bind_outcome (assert_that (index < n_sectors data div (block_size div 512))
             ''index < data.n_sectors / (block_size / 512)'') (\<lambda>_.
           let refs_per_block = block_size div 4
           in if index < 12 then Inr (direct data index)
              else if index < 12 + refs_per_block then
                bind_outcome (read_thing (node_device nd) (indirect_1 data * block_size + (index - 12) * 4) 4) (\<lambda>bs.
                  Inr (u32_at 0 bs))
              else Inl (Panic ''index = ?'')))"

definition Node_read_block :: "Node \<Rightarrow> u32 \<Rightarrow> bytes outcome" where
  "Node_read_block nd index =
     bind_outcome (Node_block_index nd index) (\<lambda>block_index.
     bind_outcome (BlockIO_read_all (node_device nd) (block_index * node_block_size nd) (node_block_size nd))
       (\<lambda>(cnt, buffer).
     bind_outcome (assert_that (cnt = uint (node_block_size nd)) ''cnt == block_size'') (\<lambda>_. Inr buffer)))"

text \<open>A node as the \<open>BlockIO\<close> it implements.\<close>

definition Node_io :: "Node \<Rightarrow> block_io" where
  "Node_io nd = \<lparr>bio_block_size = node_block_size nd, bio_size = Node_size_in_bytes nd,
     bio_read_block = Node_read_block nd\<rparr>"

definition get_symbol :: "Node \<Rightarrow> bytes outcome" where
  "get_symbol nd =
     bind_outcome (assert_that (is_symlink nd) ''is_symlink()'') (\<lambda>_.
     let sz = Node_size_in_bytes nd
     in if sz \<le> 60 then Inr (segment 40 (unat sz) (node_data nd))
        else bind_outcome (BlockIO_read_all (Node_io nd) 0 sz) (\<lambda>(cnt, buffer).
             bind_outcome (assert_that (cnt = uint sz) ''cnt == sz'') (\<lambda>_. Inr buffer)))"

section \<open>Directories\<close>

text \<open>One round of the loop of \<open>entries\<close>: the i-number, the name and the size of the entry.\<close>

definition read_entry :: "Node \<Rightarrow> u32 \<Rightarrow> (u32 \<times> bytes \<times> u16) outcome" where
  "read_entry nd offset =
     bind_outcome (read_thing (Node_io nd) offset 4) (\<lambda>inode_bytes.
     bind_outcome (read_thing (Node_io nd) (offset + 4) 2) (\<lambda>total_size_bytes.
     bind_outcome (read_thing (Node_io nd) (offset + 6) 1) (\<lambda>name_length_bytes.
     let name_length = hd name_length_bytes
     in bind_outcome (BlockIO_read_all (Node_io nd) (offset + 8) (ucast name_length)) (\<lambda>(cnt, name).
        bind_outcome (assert_that (cnt = uint name_length) ''cnt == name_length'') (\<lambda>_.
          Inr (u32_at 0 inode_bytes, name @ [0], u16_at 0 total_size_bytes))))))"

text \<open>
  The whole loop: the entries given to the callback, in order. \<open>None\<close> is a loop that does not end.
\<close>

partial_function (option) entries_loop :: "Node \<Rightarrow> u32 \<Rightarrow> (u32 \<times> bytes) list outcome option" where
  "entries_loop nd offset =
     (if offset < size_low (node_data nd) then
        (case read_entry nd offset of
           Inl e \<Rightarrow> Some (Inl e)
         | Inr (inode, name, total_size) \<Rightarrow>
             Option.bind (entries_loop nd (offset + ucast total_size)) (\<lambda>r.
               Some (bind_outcome r (\<lambda>es. Inr ((inode, name) # es)))))
      else Some (Inr []))"

definition entries :: "Node \<Rightarrow> (u32 \<times> bytes) list outcome option" where
  "entries nd = (if is_dir nd then entries_loop nd 0 else Some (Inl (Panic ''is_dir()'')))"

definition Node_find :: "Node \<Rightarrow> bytes \<Rightarrow> u32 outcome option" where
  "Node_find nd name =
     map_option (\<lambda>r. bind_outcome r (\<lambda>es.
       Inr (fold (\<lambda>(number, nm) out. if streq name nm then number else out) es 0))) (entries nd)"

definition entry_count :: "Node \<Rightarrow> u32 outcome option" where
  "entry_count nd =
     map_option (\<lambda>r. bind_outcome r (\<lambda>es. Inr (fold (\<lambda>_ count. count + 1) es 0))) (entries nd)"

section \<open>The file system\<close>

record Ext2_fs =
  fs_device :: block_io
  blockSize :: u32
  numberOfNodes :: u32
  numberOfBlocks :: u32
  iNodeSize :: u32
  nGroups :: u32
  iNodeTables :: "u32 list"
  iNodesPerGroup :: u32

definition get_node :: "Ext2_fs \<Rightarrow> u32 \<Rightarrow> Node outcome" where
  "get_node fs number =
     bind_outcome (assert_that (number > 0) ''number > 0'') (\<lambda>_.
     bind_outcome (assert_that (number \<le> numberOfNodes fs) ''number <= numberOfNodes'') (\<lambda>_.
     if iNodesPerGroup fs = 0 then Inl Undefined
     else
       let index = number - 1;
           groupIndex = index div iNodesPerGroup fs
       in bind_outcome (assert_that (groupIndex < nGroups fs) ''groupIndex < nGroups'') (\<lambda>_.
          let indexInGroup = index mod iNodesPerGroup fs;
              iTableBase = iNodeTables fs ! unat groupIndex
          in bind_outcome (assert_that (iTableBase \<le> numberOfBlocks fs) ''iTableBase <= numberOfBlocks'') (\<lambda>_.
             let nodeOffset = iTableBase * blockSize fs + indexInGroup * iNodeSize fs
             in bind_outcome (read_thing (fs_device fs) nodeOffset sizeof_NodeData) (\<lambda>data.
                  Inr \<lparr>node_number = number, node_block_size = blockSize fs, node_data = data,
                       node_device = fs_device fs\<rparr>)))))"

text \<open>The constructor up to the root directory, then the constructor: the file system and its root.\<close>

definition read_geometry :: "block_io \<Rightarrow> Ext2_fs outcome" where
  "read_geometry device =
     bind_outcome (read_thing device 1024 sizeof_SuperBlock) (\<lambda>sb.
     if log_block_size sb + 10 \<ge> 32 \<or> blocks_per_group sb = 0 then Inl Undefined
     else
       let bs = push_bit (unat (log_block_size sb + 10)) 1;
           groups = (blocks_count sb + blocks_per_group sb - 1) div blocks_per_group sb
       in bind_outcome (assert_that (groups * blocks_per_group sb \<ge> blocks_count sb)
            ''nGroups * sb.blocks_per_group >= sb.blocks_count'') (\<lambda>_.
          let superBlockNumber = 1024 div bs;
              groupTableNumber = superBlockNumber + 1;
              groupTableSize = sizeof_BlockGroup * unat groups
          in bind_outcome (BlockIO_read_all device (groupTableNumber * bs) (word_of_nat groupTableSize))
               (\<lambda>(cnt, groupTable).
             bind_outcome (assert_that (cnt = int groupTableSize) ''cnt == groupTableSize'') (\<lambda>_.
               Inr \<lparr>fs_device = device, blockSize = bs, numberOfNodes = inodes_count sb,
                    numberOfBlocks = blocks_count sb, iNodeSize = ucast (inode_size sb), nGroups = groups,
                    iNodeTables = map (\<lambda>i. inode_table (segment (sizeof_BlockGroup * i) sizeof_BlockGroup groupTable))
                      [0..<unat groups],
                    iNodesPerGroup = inodes_per_group sb\<rparr>))))"

definition Ext2_mount :: "block_io \<Rightarrow> (Ext2_fs \<times> Node) outcome" where
  "Ext2_mount device =
     bind_outcome (read_geometry device) (\<lambda>fs. bind_outcome (get_node fs 2) (\<lambda>root. Inr (fs, root)))"

definition get_block_size :: "Ext2_fs \<Rightarrow> u32" where "get_block_size fs = blockSize fs"
definition get_inode_size :: "Ext2_fs \<Rightarrow> u32" where "get_inode_size fs = iNodeSize fs"

text \<open>\<open>None\<close> inside is the null reference.\<close>

definition Ext2_find :: "Ext2_fs \<Rightarrow> Node \<Rightarrow> bytes \<Rightarrow> Node option outcome option" where
  "Ext2_find fs dir name =
     map_option (\<lambda>r. bind_outcome r (\<lambda>number.
       if number = 0 then Inr None else bind_outcome (get_node fs number) (\<lambda>nd. Inr (Some nd))))
     (Node_find dir name)"

section \<open>A node is a block device\<close>

text \<open>
  The content of a node, given the content of the device: the blocks its references name, cut to the
  size of the node.
\<close>

definition block_number_of :: "Node \<Rightarrow> bytes \<Rightarrow> nat \<Rightarrow> nat" where
  "block_number_of nd c i =
     (if i < 12 then unat (direct (node_data nd) (word_of_nat i))
      else unat (u32_at 0 (segment (unat (indirect_1 (node_data nd)) * unat (node_block_size nd) + (i - 12) * 4) 4 c)))"

definition block_of :: "Node \<Rightarrow> bytes \<Rightarrow> nat \<Rightarrow> bytes" where
  "block_of nd c i =
     segment (block_number_of nd c i * unat (node_block_size nd)) (unat (node_block_size nd)) c"

definition blocks_used :: "Node \<Rightarrow> nat" where
  "blocks_used nd =
     (unat (size_low (node_data nd)) + unat (node_block_size nd) - 1) div unat (node_block_size nd)"

definition node_content :: "Node \<Rightarrow> bytes \<Rightarrow> bytes" where
  "node_content nd c = take (unat (size_low (node_data nd))) (concat (map (block_of nd c) [0..<blocks_used nd]))"

text \<open>The node's blocks are allocated, reached without the doubly indirect references, and on the device.\<close>

definition wf_node :: "Node \<Rightarrow> bytes \<Rightarrow> bool" where
  "wf_node nd c \<longleftrightarrow>
     serves (node_device nd) c \<and> 512 \<le> node_block_size nd \<and>
     blocks_used nd \<le> unat (n_sectors (node_data nd)) div (unat (node_block_size nd) div 512) \<and>
     blocks_used nd \<le> 12 + unat (node_block_size nd) div 4 \<and>
     (12 < blocks_used nd \<longrightarrow>
        unat (indirect_1 (node_data nd)) * unat (node_block_size nd) + (blocks_used nd - 12) * 4 \<le> length c) \<and>
     (\<forall>i < blocks_used nd. (block_number_of nd c i + 1) * unat (node_block_size nd) \<le> length c)"

lemma wf_nodeD:
  assumes "wf_node nd c"
  shows "serves (node_device nd) c" and "512 \<le> unat (node_block_size nd)" and "length c < 4294967296"
    and "i < blocks_used nd \<Longrightarrow> (block_number_of nd c i + 1) * unat (node_block_size nd) \<le> length c"
  using assms u32_bound [of "bio_size (node_device nd)"]
  by (auto simp: wf_node_def word_le_nat_alt serves_def)

lemma blocks_used_iff:
  assumes "0 < unat (node_block_size nd)"
  shows "i < blocks_used nd \<longleftrightarrow> i * unat (node_block_size nd) < unat (size_low (node_data nd))"
proof -
  have "i < blocks_used nd \<longleftrightarrow> (i + 1) * unat (node_block_size nd)
      \<le> unat (size_low (node_data nd)) + unat (node_block_size nd) - 1"
    using assms by (simp add: blocks_used_def less_eq_div_iff_mult_less_eq flip: Suc_le_eq)
  then show ?thesis
    using assms by auto
qed

lemma unat_index_off:
  assumes "unat i * unat bs < 2 ^ 32"
  shows "unat (i * bs :: u32) = unat i * unat bs"
  using assms by (simp add: unat_word_ariths)

lemma unat_ref_offset:
  assumes "12 \<le> unat i" and "unat j * unat bs + (unat i - 12) * 4 < 4294967296"
  shows "unat (j * bs + (i - 12) * 4 :: u32) = unat j * unat bs + (unat i - 12) * 4"
proof -
  have "unat (j * bs + k * 4) = unat j * unat bs + unat k * 4"
    if "unat j * unat bs + unat k * 4 < 4294967296" for k :: u32
    using that by (simp add: unat_word_ariths mod_simps)
  note sum = this [of "i - 12"]
  have "unat (i - 12) = unat i - 12"
    using assms(1) by (simp add: unat_sub word_le_nat_alt)
  with sum assms(2) show ?thesis
    by presburger
qed

lemma length_block_of: "wf_node nd c \<Longrightarrow> i < blocks_used nd \<Longrightarrow> length (block_of nd c i) = unat (node_block_size nd)"
  using wf_nodeD(4) [of nd c i] by (simp add: block_of_def add.commute)

text \<open>\<open>Node::read_block\<close> finds the right block, directly or through the indirect block.\<close>

lemma Node_block_index_ok:
  assumes wf: "wf_node nd c" and i: "unat index < blocks_used nd"
  shows "\<exists>b. Node_block_index nd index = Inr b \<and> unat b = block_number_of nd c (unat index)"
proof -
  let ?bs = "node_block_size nd" and ?d = "node_data nd"
  note D = wf_nodeD [OF wf]
  have used: "blocks_used nd \<le> unat (n_sectors ?d) div (unat ?bs div 512)" "blocks_used nd \<le> 12 + unat ?bs div 4"
    using wf by (simp_all add: wf_node_def)
  have sect: "index < n_sectors ?d div (?bs div 512)"
    using used(1) i by (simp add: word_less_nat_alt unat_div)
  have nz: "?bs div 512 \<noteq> 0"
    using D(2) by (simp add: word_unat_eq_iff unat_div)
  show ?thesis
  proof (cases "index < 12")
    case True
    then have "unat index < 12"
      by (simp add: word_less_nat_alt)
    with True sect nz show ?thesis
      by (simp add: Node_block_index_def Let_def block_number_of_def)
  next
    case False
    then have ge: "12 \<le> unat index" "12 < blocks_used nd"
      using i by (simp_all add: word_less_nat_alt)
    have refs: "unat (12 + ?bs div 4) = 12 + unat ?bs div 4"
      using u32_bound [of ?bs] by (simp add: unat_word_ariths)
    have lt: "index < 12 + ?bs div 4"
      using refs used(2) i by (simp add: word_less_nat_alt)
    let ?off = "unat (indirect_1 ?d) * unat ?bs + (unat index - 12) * 4"
    have fits: "?off + 4 \<le> length c"
    proof -
      have "(unat index - 12) * 4 + 4 \<le> (blocks_used nd - 12) * 4"
        using ge i by simp
      moreover have "unat (indirect_1 ?d) * unat ?bs + (blocks_used nd - 12) * 4 \<le> length c"
        using wf ge(2) by (simp add: wf_node_def)
      ultimately show ?thesis
        by linarith
    qed
    have off: "unat (indirect_1 ?d * ?bs + (index - 12) * 4) = ?off"
      using ge(1) fits D(3) by (intro unat_ref_offset) linarith+
    have "read_thing (node_device nd) (indirect_1 ?d * ?bs + (index - 12) * 4) 4 = Inr (segment ?off 4 c)"
      using served.read_thing_content [of "(node_device nd, c)"] D(1) fits off by simp
    with False lt sect nz ge show ?thesis
      by (simp add: Node_block_index_def Let_def block_number_of_def)
  qed
qed

lemma Node_read_block_ok:
  assumes wf: "wf_node nd c" and i: "unat index < blocks_used nd"
  shows "Node_read_block nd index = Inr (block_of nd c (unat index))"
    and "length (block_of nd c (unat index)) = unat (node_block_size nd)"
proof -
  let ?bs = "node_block_size nd" and ?n = "block_number_of nd c (unat index)"
  obtain b where b: "Node_block_index nd index = Inr b" "unat b = ?n"
    using Node_block_index_ok [OF assms] by blast
  have fits: "?n * unat ?bs + unat ?bs \<le> length c"
    using wf_nodeD(4) [OF wf i] by (simp add: add.commute)
  then show "length (block_of nd c (unat index)) = unat ?bs"
    by (simp add: block_of_def)
  have off: "unat (b * ?bs) = ?n * unat ?bs"
    using fits b(2) wf_nodeD(2,3) [OF wf] by (subst unat_index_off) auto
  have "BlockIO_read_all (node_device nd) (b * ?bs) ?bs = Inr (uint ?bs, block_of nd c (unat index))"
    using served.read_all_content [of "(node_device nd, c)" "b * ?bs" ?bs] wf_nodeD(1) [OF wf] fits off
    by (simp add: block_of_def)
  with b show "Node_read_block nd index = Inr (block_of nd c (unat index))"
    by (simp add: Node_read_block_def)
qed


lemma length_concat_blocks:
  "(\<And>i. i < n \<Longrightarrow> length (f i) = k) \<Longrightarrow> length (concat (map f [0..<n])) = n * k"
  by (induction n) auto

lemma nth_concat_blocks:
  assumes "\<And>i. i < n \<Longrightarrow> length (f i) = k" and "i < n" and "j < k"
  shows "concat (map f [0..<n]) ! (i * k + j) = f i ! j"
  using assms
proof (induction n)
  case 0
  then show ?case by simp
next
  case (Suc n)
  have len: "length (concat (map f [0..<n])) = n * k"
    using Suc.prems(1) by (intro length_concat_blocks) simp
  show ?case
  proof (cases "i = n")
    case True
    then show ?thesis
      using len by (simp add: nth_append)
  next
    case False
    then have "i < n"
      using Suc.prems(2) by simp
    then have "(i + 1) * k \<le> n * k"
      by (intro mult_le_mono1) simp
    then have "i * k + j < n * k"
      using Suc.prems(3) by simp
    then show ?thesis
      using Suc len \<open>i < n\<close> by (simp add: nth_append)
  qed
qed

lemma node_content_nth:
  assumes wf: "wf_node nd c" and k: "k < unat (node_block_size nd)"
    and lt: "i * unat (node_block_size nd) + k < unat (size_low (node_data nd))"
  shows "node_content nd c ! (i * unat (node_block_size nd) + k) = block_of nd c i ! k"
proof -
  have "i < blocks_used nd"
    using lt wf_nodeD(2) [OF wf] by (subst blocks_used_iff) auto
  with lt k show ?thesis
    by (simp add: node_content_def nth_concat_blocks length_block_of [OF wf])
qed

lemma length_node_content:
  assumes wf: "wf_node nd c"
  shows "length (node_content nd c) = unat (size_low (node_data nd))"
proof -
  let ?bs = "unat (node_block_size nd)" and ?sz = "unat (size_low (node_data nd))"
  have "length (concat (map (block_of nd c) [0..<blocks_used nd])) = blocks_used nd * ?bs"
    using length_block_of [OF wf] by (rule length_concat_blocks)
  moreover have "\<not> blocks_used nd * ?bs < ?sz"
    using wf_nodeD(2) [OF wf] blocks_used_iff [of nd "blocks_used nd"] by simp
  ultimately show ?thesis
    by (simp add: node_content_def)
qed

interpretation node: block_device "\<lambda>p. Node_io (fst p)" "\<lambda>p. node_content (fst p) (snd p)" "\<lambda>p. wf_node (fst p) (snd p)"
proof
  fix p :: "Node \<times> bytes" and i :: u32
  assume wf: "wf_node (fst p) (snd p)"
  have bs: "0 < unat (node_block_size (fst p))"
    using wf_nodeD(2) [OF wf] by simp
  then show "0 < bio_block_size (Node_io (fst p))"
    by (simp add: Node_io_def word_less_nat_alt)
  show "unat (bio_size (Node_io (fst p))) = length (node_content (fst p) (snd p))"
    using length_node_content [OF wf] by (simp add: Node_io_def Node_size_in_bytes_def)
  assume "unat i * unat (bio_block_size (Node_io (fst p))) < length (node_content (fst p) (snd p))"
  then have "unat i < blocks_used (fst p)"
    using length_node_content [OF wf] bs by (simp add: Node_io_def blocks_used_iff)
  from Node_read_block_ok [OF wf this]
  show "\<exists>b. bio_read_block (Node_io (fst p)) i = Inr b \<and> length b = unat (bio_block_size (Node_io (fst p))) \<and>
      (\<forall>k < length b. unat i * unat (bio_block_size (Node_io (fst p))) + k < length (node_content (fst p) (snd p)) \<longrightarrow>
        b ! k = node_content (fst p) (snd p) ! (unat i * unat (bio_block_size (Node_io (fst p))) + k))"
    using length_node_content [OF wf] by (simp add: Node_io_def node_content_nth [OF wf])
qed


section \<open>Directories as lists of entries\<close>

text \<open>An entry and its bytes in a directory: i-number, record length, name length, type, name, padding.\<close>

record dirent =
  ent_inode :: u32
  ent_name :: bytes
  ent_type :: u8
  ent_pad :: bytes

definition le_bytes :: "nat \<Rightarrow> nat \<Rightarrow> bytes" where
  "le_bytes k n = map (\<lambda>i. word_of_nat (n div 256 ^ i)) [0..<k]"

definition record_length :: "dirent \<Rightarrow> nat" where
  "record_length e = 8 + length (ent_name e) + length (ent_pad e)"

definition entry_bytes :: "dirent \<Rightarrow> bytes" where
  "entry_bytes e =
     le_bytes 4 (unat (ent_inode e)) @ le_bytes 2 (record_length e) @
     [word_of_nat (length (ent_name e)), ent_type e] @ ent_name e @ ent_pad e"

definition wf_dirent :: "dirent \<Rightarrow> bool" where
  "wf_dirent e \<longleftrightarrow> length (ent_name e) < 256 \<and> record_length e < 65536"

lemma length_le_bytes [simp]: "length (le_bytes k n) = k"
  by (simp add: le_bytes_def)

lemma le_nat_le_bytes: "n < 256 ^ k \<Longrightarrow> le_nat (le_bytes k n) = n"
proof (induction k arbitrary: n)
  case 0
  then show ?case by (simp add: le_bytes_def)
next
  case (Suc k)
  have "le_bytes (Suc k) n = word_of_nat n # le_bytes k (n div 256)"
    by (simp add: le_bytes_def upt_conv_Cons map_Suc_upt [symmetric] div_mult2_eq del: upt_Suc)
  moreover have "n div 256 < 256 ^ k"
    using Suc.prems by (simp add: less_mult_imp_div_less mult.commute)
  ultimately show ?case
    by (simp add: Suc.IH unat_of_nat)
qed

lemma length_entry_bytes: "length (entry_bytes e) = record_length e"
  by (simp add: entry_bytes_def record_length_def)

lemma entry_bytes_fields:
  assumes "wf_dirent e"
  shows "u32_at 0 (segment 0 4 (entry_bytes e @ ys)) = ent_inode e"
    and "u16_at 0 (segment 4 2 (entry_bytes e @ ys)) = word_of_nat (record_length e)"
    and "segment 6 1 (entry_bytes e @ ys) = [word_of_nat (length (ent_name e))]"
    and "segment 8 (length (ent_name e)) (entry_bytes e @ ys) = ent_name e"
proof -
  have "unat (ent_inode e) < 256 ^ 4" "record_length e < 256 ^ 2"
    using assms u32_bound [of "ent_inode e"] by (simp_all add: wf_dirent_def)
  then show "u32_at 0 (segment 0 4 (entry_bytes e @ ys)) = ent_inode e"
    "u16_at 0 (segment 4 2 (entry_bytes e @ ys)) = word_of_nat (record_length e)"
    by (simp_all add: u32_at_def u16_at_def segment_def entry_bytes_def le_nat_le_bytes)
qed (simp_all add: segment_def entry_bytes_def)

lemma segment_0_segment: "segment 0 n (segment off n bs) = segment off n bs"
  by (simp add: segment_def)

lemma fields_segment:
  "u32_at 0 (segment off 4 bs) = u32_at off bs" "u16_at 0 (segment off 2 bs) = u16_at off bs"
  by (simp_all add: u32_at_def u16_at_def segment_def)

text \<open>Reading an entry of the content, and one that starts at \<open>offset\<close> of a directory.\<close>

lemma read_entry_content:
  assumes wf: "wf_node nd c"
    and fits: "unat offset + 8 + unat (node_content nd c ! (unat offset + 6)) \<le> length (node_content nd c)"
  shows "read_entry nd offset =
    Inr (u32_at (unat offset) (node_content nd c),
         segment (unat offset + 8) (unat (node_content nd c ! (unat offset + 6))) (node_content nd c) @ [0],
         u16_at (unat offset + 4) (node_content nd c))"
proof -
  let ?C = "node_content nd c"
  have len: "length ?C < 4294967296"
    using length_node_content [OF wf] u32_bound [of "size_low (node_data nd)"] by simp
  have offk: "unat (offset + word_of_nat k) = unat offset + k" if "k \<le> 8" for k
    using that fits len by (simp add: unat_word_ariths unat_of_nat)
  have thing: "read_thing (Node_io nd) (offset + word_of_nat k) m = Inr (segment (unat offset + k) m ?C)"
    if "k + m \<le> 8" for k m
    using node.read_thing_content [of "(nd, c)" "offset + word_of_nat k" m] wf that fits offk [of k] by simp
  have name: "BlockIO_read_all (Node_io nd) (offset + 8) (ucast nl) =
      Inr (int (unat nl), segment (unat offset + 8) (unat nl) ?C)"
    if "nl = ?C ! (unat offset + 6)" for nl
    using node.read_all_content [of "(nd, c)" "offset + 8" "ucast nl"] wf that fits offk [of 8]
    by (simp add: unat_ucast_up)
  have "segment (unat offset + 6) 1 ?C = [?C ! (unat offset + 6)]"
    using fits by (simp add: segment_def take_Suc hd_drop_conv_nth)
  with thing [of 0 4] thing [of 4 2] thing [of 6 1] name show ?thesis
    by (simp add: read_entry_def Let_def fields_segment del: One_nat_def)
qed

lemma read_entry_ok:
  assumes wf: "wf_node nd c" and cont: "node_content nd c = xs @ entry_bytes e @ ys"
    and off: "unat offset = length xs" and e: "wf_dirent e"
  shows "read_entry nd offset = Inr (ent_inode e, ent_name e @ [0], word_of_nat (record_length e))"
proof -
  have seg: "segment (length xs + k) m (node_content nd c) = segment k m (entry_bytes e @ ys)" for k m
    by (simp add: cont segment_def)
  have nl: "unat (word_of_nat (length (ent_name e)) :: u8) = length (ent_name e)"
    using e by (simp add: wf_dirent_def unat_of_nat)
  have at6: "node_content nd c ! (length xs + 6) = word_of_nat (length (ent_name e))"
    by (simp add: cont entry_bytes_def nth_append)
  have fits: "length xs + 8 + length (ent_name e) \<le> length (node_content nd c)"
    by (simp add: cont length_entry_bytes record_length_def)
  have "u32_at (length xs) (node_content nd c) = ent_inode e"
    "u16_at (length xs + 4) (node_content nd c) = word_of_nat (record_length e)"
    using entry_bytes_fields(1,2) [OF e, of ys] seg [of 0 4] seg [of 4 2]
    by (simp_all add: segment_0_segment u32_at_def u16_at_def)
  with read_entry_content [OF wf, of offset] show ?thesis
    using fits by (simp add: off at6 nl seg entry_bytes_fields(4) [OF e])
qed

definition dir_listing :: "dirent list \<Rightarrow> (u32 \<times> bytes) list" where
  "dir_listing es = map (\<lambda>e. (ent_inode e, ent_name e @ [0])) es"

lemma entries_loop_ok:
  assumes wf: "wf_node nd c"
    and "node_content nd c = xs @ concat (map entry_bytes es)" and "\<forall>e \<in> set es. wf_dirent e"
    and "unat offset = length xs"
  shows "entries_loop nd offset = Some (Inr (dir_listing es))"
  using assms(2-)
proof (induction es arbitrary: xs offset)
  case Nil
  then have "\<not> offset < size_low (node_data nd)"
    using length_node_content [OF wf] by (simp add: word_less_nat_alt)
  then show ?case
    by (simp add: entries_loop.simps dir_listing_def)
next
  case (Cons e es)
  have e: "wf_dirent e" and cont: "node_content nd c = xs @ entry_bytes e @ concat (map entry_bytes es)"
    using Cons.prems by simp_all
  have size: "unat (size_low (node_data nd)) = length xs + record_length e + length (concat (map entry_bytes es))"
    using length_node_content [OF wf] cont by (simp add: length_entry_bytes)
  then have lt: "offset < size_low (node_data nd)"
    using Cons.prems(3) by (simp add: word_less_nat_alt record_length_def)
  have rl: "record_length e < 65536"
    using e by (simp add: wf_dirent_def)
  then have "unat (ucast (word_of_nat (record_length e) :: u16) :: u32) = record_length e"
    by (simp add: unsigned_ucast_eq unat_of_nat take_bit_nat_eq_self)
  then have "unat (offset + ucast (word_of_nat (record_length e) :: u16)) = length (xs @ entry_bytes e)"
    using size u32_bound [of "size_low (node_data nd)"] Cons.prems(3)
    by (simp add: unat_word_ariths length_entry_bytes)
  then have "entries_loop nd (offset + ucast (word_of_nat (record_length e) :: u16)) = Some (Inr (dir_listing es))"
    using Cons.prems cont by (intro Cons.IH [of "xs @ entry_bytes e"]) simp_all
  then show ?case
    using lt read_entry_ok [OF wf cont Cons.prems(3) e]
    by (simp add: entries_loop.simps [of nd offset] dir_listing_def)
qed

text \<open>Looking a name up keeps the i-number of the last entry that matches.\<close>

definition lookup_dirent :: "dirent list \<Rightarrow> bytes \<Rightarrow> u32" where
  "lookup_dirent es name =
     (case find (\<lambda>e. cstr (ent_name e @ [0]) = cstr name) (rev es) of None \<Rightarrow> 0 | Some e \<Rightarrow> ent_inode e)"

lemma fold_dir_listing:
  assumes "terminated name"
  shows "fold (\<lambda>(number, nm) out. if streq name nm then number else out) (dir_listing es) 0 = lookup_dirent es name"
proof (induction es rule: rev_induct)
  case Nil
  then show ?case by (simp add: dir_listing_def lookup_dirent_def)
next
  case (snoc e es)
  have "streq name (ent_name e @ [0]) \<longleftrightarrow> cstr (ent_name e @ [0]) = cstr name"
    using streq_iff [OF assms, of "ent_name e @ [0]"] by (auto simp: terminated_def)
  with snoc.IH show ?case
    by (simp add: dir_listing_def lookup_dirent_def)
qed


section \<open>Directories the scan does not get through\<close>

text \<open>The offsets the loop of \<open>entries\<close> comes to.\<close>

inductive scans :: "Node \<Rightarrow> u32 \<Rightarrow> bool" for nd where
  scan_start: "scans nd 0"
| scan_step: "scans nd off \<Longrightarrow> off < size_low (node_data nd) \<Longrightarrow>
    read_entry nd off = Inr (inode, name, total_size) \<Longrightarrow> scans nd (off + ucast total_size)"

lemma entries_loop_stuck:
  assumes "off < size_low (node_data nd)" and "read_entry nd off = Inr (inode, name, 0)"
  shows "entries_loop nd off = None"
proof -
  have "\<not> (nd' = nd \<and> off' = off)" if "entries_loop nd' off' = Some r" for nd' off' r
  proof (rule entries_loop.raw_induct [OF _ that])
    fix f :: "Node \<Rightarrow> u32 \<Rightarrow> (u32 \<times> bytes) list outcome option" and nd' off' y
    assume IH: "\<And>nd' off' y. f nd' off' = Some y \<Longrightarrow> \<not> (nd' = nd \<and> off' = off)"
      and body: "(if off' < size_low (node_data nd')
        then case read_entry nd' off' of Inl e \<Rightarrow> Some (Inl e)
          | Inr (inode, name, total_size) \<Rightarrow> Option.bind (f nd' (off' + ucast total_size))
              (\<lambda>r. Some (bind_outcome r (\<lambda>es. Inr ((inode, name) # es))))
        else Some (Inr [])) = Some y"
    show "\<not> (nd' = nd \<and> off' = off)"
    proof
      assume "nd' = nd \<and> off' = off"
      with body assms obtain r' where "f nd off = Some r'"
        by (cases "f nd off") auto
      from IH [OF this] show False by simp
    qed
  qed
  then show ?thesis
    by (cases "entries_loop nd off") auto
qed

lemma entries_loop_none_step:
  assumes "off < size_low (node_data nd)" and "read_entry nd off = Inr (inode, name, total_size)"
  shows "entries_loop nd off = None \<longleftrightarrow> entries_loop nd (off + ucast total_size) = None"
  using assms by (simp add: entries_loop.simps [of nd off] bind_eq_None_conv)

lemma scans_none: "scans nd off \<Longrightarrow> entries_loop nd off = None \<Longrightarrow> entries_loop nd 0 = None"
  by (induction rule: scans.induct) (auto simp: entries_loop_none_step)

lemma entries_loop_returns:
  assumes small: "unat (size_low (node_data nd)) \<le> 2 ^ 32 - 65536"
    and ok: "\<And>off inode name. scans nd off \<Longrightarrow> off < size_low (node_data nd) \<Longrightarrow>
      read_entry nd off \<noteq> Inr (inode, name, 0)"
  shows "scans nd off \<Longrightarrow> entries_loop nd off \<noteq> None"
proof (induction "2 ^ 32 - unat off" arbitrary: off rule: less_induct)
  case less
  show ?case
  proof (cases "off < size_low (node_data nd)")
    case False
    then show ?thesis by (simp add: entries_loop.simps)
  next
    case True
    show ?thesis
    proof (cases "read_entry nd off")
      case (Inl e)
      with True show ?thesis by (simp add: entries_loop.simps)
    next
      case (Inr p)
      obtain inode name total where p: "p = (inode, name, total)"
        by (cases p)
      have pos: "0 < unat total"
        using ok [OF less.prems True] Inr p by (auto simp: unat_gt_0)
      have "unat off < 2 ^ 32 - 65536"
        using True small by (simp add: word_less_nat_alt)
      then have "unat (off + ucast total) = unat off + unat total"
        using u16_bound [of total] by (simp add: unat_word_ariths unat_ucast_up)
      then have "2 ^ 32 - unat (off + ucast total) < 2 ^ 32 - unat off"
        using pos u32_bound [of off] by simp
      then have "entries_loop nd (off + ucast total) \<noteq> None"
        using less.hyps less.prems True Inr p by (blast intro: scan_step)
      then show ?thesis
        using True Inr p by (simp add: entries_loop_none_step)
    qed
  qed
qed


section \<open>Finding nodes\<close>

text \<open>Where the record of a node is: its slot of the table of its group.\<close>

definition node_position :: "Ext2_fs \<Rightarrow> u32 \<Rightarrow> nat" where
  "node_position fs number =
     unat (iNodeTables fs ! ((unat number - 1) div unat (iNodesPerGroup fs))) * unat (blockSize fs) +
     (unat number - 1) mod unat (iNodesPerGroup fs) * unat (iNodeSize fs)"

text \<open>The groups hold all the nodes, and every node table is on the device.\<close>

definition wf_fs :: "Ext2_fs \<Rightarrow> bytes \<Rightarrow> bool" where
  "wf_fs fs c \<longleftrightarrow>
     serves (fs_device fs) c \<and> iNodesPerGroup fs \<noteq> 0 \<and> 128 \<le> iNodeSize fs \<and>
     length (iNodeTables fs) = unat (nGroups fs) \<and>
     unat (numberOfNodes fs) \<le> unat (nGroups fs) * unat (iNodesPerGroup fs) \<and>
     (\<forall>t \<in> set (iNodeTables fs). t \<le> numberOfBlocks fs \<and>
        unat t * unat (blockSize fs) + unat (iNodesPerGroup fs) * unat (iNodeSize fs) \<le> length c)"

lemma get_node_read:
  assumes wf: "wf_fs fs c" and n: "0 < number" "number \<le> numberOfNodes fs"
  shows "get_node fs number = Inr \<lparr>node_number = number, node_block_size = blockSize fs,
    node_data = segment (node_position fs number) sizeof_NodeData c, node_device = fs_device fs\<rparr>"
proof -
  let ?ipg = "iNodesPerGroup fs" and ?i = "number - 1"
  let ?t = "iNodeTables fs ! unat (?i div ?ipg)"
  have i: "unat ?i = unat number - 1"
    using n(1) by (simp add: unat_sub word_le_nat_alt word_less_nat_alt)
  have ipg: "0 < unat ?ipg"
    using wf by (simp add: wf_fs_def unat_gt_0)
  have "unat ?i < unat (numberOfNodes fs)"
    using n i by (simp add: word_le_nat_alt word_less_nat_alt)
  then have "unat ?i < unat (nGroups fs) * unat ?ipg"
    using wf by (simp add: wf_fs_def)
  then have g: "unat ?i div unat ?ipg < unat (nGroups fs)"
    by (simp add: less_mult_imp_div_less)
  then have grp: "?i div ?ipg < nGroups fs"
    by (simp add: word_less_nat_alt unat_div)
  have "?t \<in> set (iNodeTables fs)"
    using g wf by (simp add: wf_fs_def unat_div)
  then have t: "?t \<le> numberOfBlocks fs"
    "unat ?t * unat (blockSize fs) + unat ?ipg * unat (iNodeSize fs) \<le> length c"
    using wf by (auto simp: wf_fs_def)
  have isz: "128 \<le> unat (iNodeSize fs)" and len: "length c < 4294967296"
    using wf u32_bound [of "bio_size (fs_device fs)"] by (auto simp: wf_fs_def serves_def word_le_nat_alt)
  have "unat ?i mod unat ?ipg < unat ?ipg"
    using ipg by simp
  then have "(unat ?i mod unat ?ipg + 1) * unat (iNodeSize fs) \<le> unat ?ipg * unat (iNodeSize fs)"
    by (intro mult_le_mono1) simp
  then have fits: "unat ?t * unat (blockSize fs) + unat ?i mod unat ?ipg * unat (iNodeSize fs) + 128 \<le> length c"
    using t(2) isz by simp
  have sum: "unat (a * b + x * y) = unat a * unat b + unat x * unat y"
    if "unat a * unat b + unat x * unat y < 4294967296" for a b x y :: u32
    using that by (simp add: unat_word_ariths mod_simps)
  have pos: "node_position fs number =
      unat ?t * unat (blockSize fs) + unat ?i mod unat ?ipg * unat (iNodeSize fs)"
    by (simp add: node_position_def i unat_div)
  have off: "unat (?t * blockSize fs + ?i mod ?ipg * iNodeSize fs) = node_position fs number"
    using fits len sum [of ?t "blockSize fs" "?i mod ?ipg" "iNodeSize fs"] by (simp add: pos unat_mod)
  have "read_thing (fs_device fs) (?t * blockSize fs + ?i mod ?ipg * iNodeSize fs) sizeof_NodeData =
      Inr (segment (node_position fs number) sizeof_NodeData c)"
    using served.read_thing_content [of "(fs_device fs, c)"] wf fits
    by (simp add: off pos wf_fs_def sizeof_NodeData_def)
  with n grp t(1) wf show ?thesis
    by (simp add: get_node_def Let_def wf_fs_def)
qed

section \<open>Properties\<close>

text \<open>
  C23. A node's blocks, named by its direct references and by its indirect block, make one array of
  bytes: reading any range of the node returns that range of the array, cut at the node's size.
\<close>

theorem node_read_all:
  assumes "wf_node nd c"
  shows "BlockIO_read_all (Node_io nd) offset n = Inr (read_result (node_content nd c) offset n)"
  using node.read_all_result [of "(nd, c)"] assms by simp

text \<open>
  C25. In a directory that is a sequence of entries, \<open>entries\<close> visits exactly these entries in order and
  returns, \<open>find\<close> gives the i-number of the last entry of that name or 0, and \<open>entry_count\<close> their number.
\<close>

theorem directory_lookup:
  assumes "wf_node nd c" and "is_dir nd" and "node_content nd c = concat (map entry_bytes es)"
    and "\<forall>e \<in> set es. wf_dirent e" and "terminated name"
  shows "entries nd = Some (Inr (dir_listing es)) \<and>
    Node_find nd name = Some (Inr (lookup_dirent es name)) \<and>
    entry_count nd = Some (Inr (word_of_nat (length es)))"
proof -
  have e: "entries nd = Some (Inr (dir_listing es))"
    using assms by (simp add: entries_def entries_loop_ok [where xs = "[]"])
  have "fold (\<lambda>_ count. count + 1) xs (a :: u32) = a + word_of_nat (length xs)" for xs :: "(u32 \<times> bytes) list" and a
    by (induction xs arbitrary: a) (simp_all add: algebra_simps)
  with e show ?thesis
    by (simp add: Node_find_def entry_count_def fold_dir_listing [OF assms(5)]) (simp add: dir_listing_def)
qed

text \<open>
  C28. The scan of a directory fails to return exactly when it comes to an entry whose record length is
  zero: the offset then stays where it is for ever. Such a length is data on the device that nothing
  checks.
\<close>

theorem entries_hang:
  assumes "is_dir nd" and "unat (size_low (node_data nd)) \<le> 2 ^ 32 - 65536"
  shows "entries nd = None \<longleftrightarrow>
    (\<exists>off inode name. scans nd off \<and> off < size_low (node_data nd) \<and> read_entry nd off = Inr (inode, name, 0))"
  using assms entries_loop_returns [OF assms(2) _ scan_start] entries_loop_stuck scans_none
  by (fastforce simp: entries_def)

text \<open>
  \<open>get_node\<close> returns the record of a valid i-number, read from its slot of its group's table, and
  panics on 0 and on numbers above the file system's; no offset wraps.
\<close>

theorem get_node_locates:
  assumes "wf_fs fs c"
  shows "get_node fs number =
    (if number = 0 then Inl (Panic ''number > 0'')
     else if numberOfNodes fs < number then Inl (Panic ''number <= numberOfNodes'')
     else Inr \<lparr>node_number = number, node_block_size = blockSize fs,
       node_data = segment (node_position fs number) sizeof_NodeData c, node_device = fs_device fs\<rparr>)"
  using get_node_read [OF assms, of number] by (auto simp: get_node_def word_gt_0 assert_that_def)



section \<open>Sample disks\<close>

text \<open>A ramdisk with the given bytes, and a node on it: mode, size, sectors, direct references.\<close>

definition disk :: "bytes \<Rightarrow> limine_file" where
  "disk bs = \<lparr>mod_path = [], mod_memory = bs, mod_size = word_of_nat (length bs)\<rparr>"

definition node_on :: "bytes \<Rightarrow> u16 \<Rightarrow> nat \<Rightarrow> nat \<Rightarrow> u32 \<Rightarrow> u32 \<Rightarrow> Node" where
  "node_on bs m sz sectors d i =
     \<lparr>node_number = 12, node_block_size = 1024,
      node_data = le_bytes 2 (unat m) @ replicate 2 0 @ le_bytes 4 sz @ replicate 20 0 @
        le_bytes 4 sectors @ replicate 8 0 @ concat (replicate 12 (le_bytes 4 (unat d))) @
        le_bytes 4 (unat i) @ replicate 36 0,
      node_device = RamDisk (disk bs)\<rparr>"

lemma disk_serves:
  assumes "length bs mod 512 = 0" and "length bs < 2 ^ 32 - 512"
  shows "serves (RamDisk (disk bs)) bs"
proof -
  obtain q where q: "length bs = 512 * q"
    using assms(1) by auto
  have len: "unat (word_of_nat (length bs) :: u64) = length bs"
    using assms(2) by (simp add: unat_of_nat)
  then have "wf_module (disk bs)"
    using assms(2) by (simp add: wf_module_def disk_def q)
  with len show ?thesis
    using ramdisk.serves_content [of "disk bs"] by (simp add: disk_def module_bytes_def)
qed

lemma node_on_fields:
  assumes "sz < 256 ^ 4" and "sectors < 256 ^ 4"
  shows "size_low (node_data (node_on bs m sz sectors d i)) = word_of_nat sz"
    and "n_sectors (node_data (node_on bs m sz sectors d i)) = word_of_nat sectors"
    and "mode (node_data (node_on bs m sz sectors d i)) = m"
    and "k < 12 \<Longrightarrow> direct (node_data (node_on bs m sz sectors d i)) (word_of_nat k) = d"
    and "indirect_1 (node_data (node_on bs m sz sectors d i)) = i"
proof -
  have w: "unat m < 256 ^ 2" "unat d < 256 ^ 4" "unat i < 256 ^ 4"
    using u16_bound [of m] u32_bound [of d] u32_bound [of i] by simp_all
  have len: "length (concat (replicate j (le_bytes 4 (unat d)))) = 4 * j" for j
    by (induction j) simp_all
  show "size_low (node_data (node_on bs m sz sectors d i)) = word_of_nat sz"
    "n_sectors (node_data (node_on bs m sz sectors d i)) = word_of_nat sectors"
    "mode (node_data (node_on bs m sz sectors d i)) = m"
    using w assms by (simp_all add: node_on_def size_low_def n_sectors_def mode_def u32_at_def u16_at_def
        segment_def le_nat_le_bytes)
  show "indirect_1 (node_data (node_on bs m sz sectors d i)) = i"
    using w by (simp add: node_on_def indirect_1_def u32_at_def segment_def le_nat_le_bytes len)
  have "take 4 (drop (4 * k) (concat (replicate j (le_bytes 4 (unat d))))) = le_bytes 4 (unat d)"
    if "k < j" for j k
    using that
  proof (induction j arbitrary: k)
    case (Suc j)
    then show ?case by (cases k) (simp_all add: len)
  qed simp
  then show "direct (node_data (node_on bs m sz sectors d i)) (word_of_nat k) = d" if "k < 12"
    using that w by (simp add: node_on_def direct_def u32_at_def segment_def le_nat_le_bytes unat_of_nat len)
qed


lemma node_on_wf:
  assumes "length bs mod 512 = 0" and "length bs < 2 ^ 32 - 512" and "sz < 256 ^ 4" and "sectors < 256 ^ 4"
    and "(sz + 1023) div 1024 \<le> sectors div 2" and "(unat d + 1) * 1024 \<le> length bs"
    and "(sz + 1023) div 1024 = 13 \<and> (unat i + 1) * 1024 \<le> length bs \<and>
        (unat (u32_at (unat i * 1024) bs) + 1) * 1024 \<le> length bs \<or> (sz + 1023) div 1024 \<le> 12"
  shows "wf_node (node_on bs m sz sectors d i) bs"
    and "blocks_used (node_on bs m sz sectors d i) = (sz + 1023) div 1024"
    and "k < 12 \<Longrightarrow> block_of (node_on bs m sz sectors d i) bs k = segment (unat d * 1024) 1024 bs"
    and "block_of (node_on bs m sz sectors d i) bs 12 = segment (unat (u32_at (unat i * 1024) bs) * 1024) 1024 bs"
proof -
  let ?nd = "node_on bs m sz sectors d i"
  note F = node_on_fields [OF assms(3,4)]
  have bs: "node_block_size ?nd = 1024" "node_device ?nd = RamDisk (disk bs)"
    by (simp_all add: node_on_def)
  show used: "blocks_used ?nd = (sz + 1023) div 1024"
    using assms(3) by (simp add: blocks_used_def bs F unat_of_nat)
  have direct: "block_number_of ?nd bs k = unat d" if "k < 12" for k
    using that by (simp add: block_number_of_def F)
  have ind: "block_number_of ?nd bs 12 = unat (u32_at (unat i * 1024) bs)"
    by (simp add: block_number_of_def F bs fields_segment)
  show "k < 12 \<Longrightarrow> block_of ?nd bs k = segment (unat d * 1024) 1024 bs"
    "block_of ?nd bs 12 = segment (unat (u32_at (unat i * 1024) bs) * 1024) 1024 bs"
    by (simp_all add: block_of_def bs direct ind)
  have "(block_number_of ?nd bs k + 1) * 1024 \<le> length bs" if "k < (sz + 1023) div 1024" for k
  proof (cases "k < 12")
    case True
    then show ?thesis using assms(6) by (simp add: direct)
  next
    case False
    then have "k = 12" using that assms(7) by auto
    then show ?thesis using assms(7) that by (auto simp: ind)
  qed
  then show "wf_node ?nd bs"
    using assms disk_serves [of bs] unfolding wf_node_def used
    by (auto simp: bs F unat_of_nat)
qed


lemma concat_replicate_blocks: "concat (map (\<lambda>_. replicate k x) [0..<n]) = replicate (n * k) x"
proof (induction n)
  case (Suc n)
  then show ?case
    by (simp add: add.commute [of k] replicate_add)
qed simp

text \<open>A file of 12 blocks and 3 bytes: the last block is reached through the indirect block.\<close>

theorem node_read_all_witness:
  fixes F :: bytes
  defines "F \<equiv> replicate 1024 0 @ replicate 1024 65 @ ([3, 0, 0, 0] @ replicate 1020 0) @ ([7, 8, 9] @ replicate 1021 0)"
  shows "BlockIO_read_all (Node_io (node_on F 0x81A4 12291 26 1 2)) 12287 10 = Inr (4, [65, 7, 8, 9])"
proof -
  let ?nd = "node_on F 0x81A4 12291 26 1 2"
  have len: "length F = 4096"
    by (simp add: F_def)
  have ind: "u32_at 2048 F = 3"
    by (simp add: F_def u32_at_def segment_def)
  have wf: "wf_node ?nd F"
    by (rule node_on_wf) (simp_all add: len ind)
  have used: "blocks_used ?nd = 13"
    by (subst node_on_wf) (simp_all add: len ind)
  have "block_of ?nd F 12 = segment 3072 1024 F"
    by (subst node_on_wf) (simp_all add: len ind)
  then have b12: "block_of ?nd F 12 = [7, 8, 9] @ replicate 1021 0"
    by (simp add: F_def segment_def)
  have "segment 1024 1024 F = replicate 1024 65"
    by (simp add: F_def segment_def)
  then have "block_of ?nd F k = replicate 1024 65" if "k < 12" for k
    using that by (subst node_on_wf) (simp_all add: len ind)
  then have "concat (map (block_of ?nd F) [0..<12]) = concat (map (\<lambda>_. replicate 1024 65) [0..<12])"
    by (intro arg_cong [where f = concat] map_cong) auto
  also have "\<dots> = replicate 12288 65"
    by (simp only: concat_replicate_blocks) simp
  finally have "concat (map (block_of ?nd F) [0..<13]) = replicate 12288 65 @ block_of ?nd F 12"
    using upt_Suc_append [of 0 12] by simp
  then have "node_content ?nd F = replicate 12288 65 @ [7, 8, 9]"
    using used b12 by (simp add: node_content_def node_on_fields)
  then show ?thesis
    using node_read_all [OF wf, of 12287 10] by (simp add: read_result_def segment_def)
qed


text \<open>A directory of one block with the entries \<open>.\<close> and \<open>hi\<close>; the second record fills the block.\<close>

theorem directory_lookup_witness:
  fixes es :: "dirent list" and D :: bytes
  defines "es \<equiv> [\<lparr>ent_inode = 2, ent_name = [46], ent_type = 2, ent_pad = replicate 3 0\<rparr>,
      \<lparr>ent_inode = 12, ent_name = [104, 105], ent_type = 1, ent_pad = replicate 1002 0\<rparr>]"
    and "D \<equiv> replicate 1024 0 @ concat (map entry_bytes es)"
  shows "entries (node_on D 0x41ED 1024 2 1 0) = Some (Inr [(2, [46, 0]), (12, [104, 105, 0])]) \<and>
    Node_find (node_on D 0x41ED 1024 2 1 0) [104, 105, 0] = Some (Inr 12) \<and>
    entry_count (node_on D 0x41ED 1024 2 1 0) = Some (Inr 2)"
proof -
  let ?nd = "node_on D 0x41ED 1024 2 1 0"
  have len: "length D = 2048" "length (concat (map entry_bytes es)) = 1024"
    by (simp_all add: D_def es_def length_entry_bytes record_length_def)
  have wf: "wf_node ?nd D" and used: "blocks_used ?nd = 1"
    by (rule node_on_wf, simp_all add: len) (subst node_on_wf, simp_all add: len)
  have "block_of ?nd D 0 = concat (map entry_bytes es)"
    by (subst node_on_wf) (simp_all add: len, simp add: D_def segment_def len)
  then have content: "node_content ?nd D = concat (map entry_bytes es)"
    using used len by (simp add: node_content_def node_on_fields)
  have "is_dir ?nd"
    by (simp add: is_dir_def data_is_dir_def get_type_def node_on_fields drop_bit_eq_div)
  from directory_lookup [OF wf this content, of "[104, 105, 0]"] show ?thesis
    by (simp add: es_def wf_dirent_def record_length_def dir_listing_def lookup_dirent_def terminated_def cstr_def)
qed

text \<open>A directory whose first record length is zero.\<close>

theorem entries_hang_witness:
  "entries (node_on (replicate 2048 0) 0x41ED 1024 2 1 0) = None"
proof -
  let ?Z = "replicate 2048 0 :: bytes"
  let ?nd = "node_on ?Z 0x41ED 1024 2 1 0"
  have wf: "wf_node ?nd ?Z" and used: "blocks_used ?nd = 1"
    by (rule node_on_wf, simp_all) (subst node_on_wf, simp_all)
  have "block_of ?nd ?Z 0 = replicate 1024 0"
    by (subst node_on_wf) (simp_all, simp add: segment_def)
  then have "node_content ?nd ?Z = replicate 1024 0"
    using used by (simp add: node_content_def node_on_fields)
  then have "read_entry ?nd 0 = Inr (0, [0], 0)"
    using read_entry_content [OF wf, of 0] by (simp add: segment_def u32_at_def u16_at_def numeral_eq_Suc)
  moreover have "0 < size_low (node_data ?nd)"
    by (simp add: node_on_fields)
  moreover have "is_dir ?nd" "unat (size_low (node_data ?nd)) \<le> 2 ^ 32 - 65536"
    by (simp_all add: is_dir_def data_is_dir_def get_type_def node_on_fields drop_bit_eq_div)
  ultimately show ?thesis
    using entries_hang [of ?nd] scan_start [of ?nd] by blast
qed


text \<open>A file system of four blocks with eight nodes: superblock, group table and node table.\<close>

definition small_fs :: bytes where
  "small_fs = replicate 1024 0 @
     ([8, 0, 0, 0, 4, 0, 0, 0] @ replicate 24 0 @ [0, 32, 0, 0] @ replicate 4 0 @ [8, 0, 0, 0] @
      replicate 44 0 @ [128, 0] @ replicate 934 0) @
     (replicate 8 0 @ [3, 0, 0, 0] @ replicate 1012 0) @ replicate 1024 0"

definition small_geometry :: Ext2_fs where
  "small_geometry = \<lparr>fs_device = RamDisk (disk small_fs), blockSize = 1024, numberOfNodes = 8, numberOfBlocks = 4,
     iNodeSize = 128, nGroups = 1, iNodeTables = [3], iNodesPerGroup = 8\<rparr>"

lemma length_small_fs: "length small_fs = 4096"
  by (simp add: small_fs_def)

lemma small_fs_serves: "serves (RamDisk (disk small_fs)) small_fs"
  by (rule disk_serves) (simp_all add: length_small_fs)

lemma small_read: "read_geometry (RamDisk (disk small_fs)) = Inr small_geometry"
proof -
  let ?d = "RamDisk (disk small_fs)"
  let ?sb = "segment 1024 140 small_fs"
  have sb: "read_thing ?d 1024 sizeof_SuperBlock = Inr ?sb"
    using served.read_thing_content [of "(?d, small_fs)" 1024 140] small_fs_serves
    by (simp add: sizeof_SuperBlock_def length_small_fs)
  have fields: "inodes_count ?sb = 8" "blocks_count ?sb = 4" "log_block_size ?sb = 0"
    "blocks_per_group ?sb = 8192" "inodes_per_group ?sb = 8" "inode_size ?sb = 128"
    by (simp_all add: small_fs_def segment_def inodes_count_def blocks_count_def log_block_size_def
        blocks_per_group_def inodes_per_group_def inode_size_def u32_at_def u16_at_def)
  have "BlockIO_read_all ?d 2048 32 = Inr (32, segment 2048 32 small_fs)"
    using served.read_all_content [of "(?d, small_fs)" 2048 32] small_fs_serves by (simp add: length_small_fs)
  moreover have "inode_table (segment 0 32 (segment 2048 32 small_fs)) = 3"
    by (simp add: small_fs_def segment_def inode_table_def u32_at_def)
  ultimately show ?thesis
    by (simp add: read_geometry_def sb fields Let_def sizeof_BlockGroup_def small_geometry_def push_bit_eq_mult)
qed

lemma small_wf: "wf_fs small_geometry small_fs"
  by (simp add: wf_fs_def small_geometry_def small_fs_serves length_small_fs)

theorem get_node_locates_witness:
  "get_node small_geometry 3 = Inr \<lparr>node_number = 3, node_block_size = 1024, node_data = replicate 128 0,
     node_device = RamDisk (disk small_fs)\<rparr> \<and>
   get_node small_geometry 9 = Inl (Panic ''number <= numberOfNodes'')"
  using get_node_locates [OF small_wf, of 3] get_node_locates [OF small_wf, of 9]
  by (simp add: small_geometry_def node_position_def sizeof_NodeData_def small_fs_def segment_def)


end
