(* ===== verification/Page_Table.thy ===== *)
theory Page_Table
  imports Physmem
begin

text \<open>
  The page tables of \<^verbatim>\<open>vmm.cc\<close>: entries, splitting of large entries, the walk that maps a page and the
  walk that looks an entry up. A frame of physical memory is the list of its 512 words; the kernel
  reaches every frame through the direct map, so \<open>VA(ppn)\<close> is the frame itself. \<open>alloc_frame\<close> and
  \<open>free_frame\<close> are \<open>PhysMem::alloc\<close> and \<open>free\<close> with what they do to the frame's words. What the
  tables mean is the function \<open>translate\<close>, the walk of the processor.
\<close>

section \<open>Memory\<close>

record memory =
  ram :: "u64 \<Rightarrow> u64 list"
  phys :: PhysMem
  memmap :: "memmap_entry list option"
  hhdm_offset :: u64

definition set_entry :: "u64 \<Rightarrow> nat \<Rightarrow> u64 \<Rightarrow> memory \<Rightarrow> memory" where
  "set_entry t i e m = m\<lparr>ram := (ram m)(t := (ram m t)[i := e])\<rparr>"

definition alloc_frame :: "memory \<Rightarrow> (u64 \<times> memory) outcome" where
  "alloc_frame m =
     bind_outcome (PhysMem_alloc (phys m)) (\<lambda>(ppn, p).
       Inr (ppn, m\<lparr>phys := p, ram := (ram m)(ppn := replicate 512 0)\<rparr>))"

text \<open>A frame that goes back to the free list gets the address of its successor as its first word.\<close>

definition free_frame :: "u64 \<Rightarrow> memory \<Rightarrow> memory" where
  "free_frame ppn m =
     (let p = PhysMem_free (memmap m) ppn (phys m)
      in if avail_frames p = avail_frames (phys m) then m
         else
           let next = (case avail_frames (phys m) of [] \<Rightarrow> 0 | f # _ \<Rightarrow> PA_of_PPN f + hhdm_offset m)
           in set_entry ppn 0 next (m\<lparr>phys := p\<rparr>))"

section \<open>Entries\<close>

definition HUGE_2M :: u64 where "HUGE_2M = 2 * 1024 * 1024"
definition PTE_PRESENT :: u64 where "PTE_PRESENT = push_bit 0 1"
definition PTE_WRITE :: u64 where "PTE_WRITE = push_bit 1 1"
definition PTE_USER :: u64 where "PTE_USER = push_bit 2 1"
definition PTE_HUGE :: u64 where "PTE_HUGE = push_bit 7 1"
definition PTE_ADDR_MASK :: u64 where "PTE_ADDR_MASK = 0x000FFFFFFFFFF000"

definition make_entry :: "u64 \<Rightarrow> bool \<Rightarrow> bool \<Rightarrow> u64" where
  "make_entry ppn user write =
     push_bit 12 ppn OR PTE_PRESENT OR (if write then PTE_WRITE else 0) OR (if user then PTE_USER else 0)"

definition table_index :: "u64 \<Rightarrow> nat \<Rightarrow> nat" where
  "table_index vpn level = unat (drop_bit (level * 9) vpn AND 0x1FF)"

definition entry_ppn :: "u64 \<Rightarrow> u64" where "entry_ppn e = drop_bit 12 e AND 0xFFFFFFFFF"

section \<open>Mapping\<close>

definition split_large_entry :: "u64 \<Rightarrow> nat \<Rightarrow> nat \<Rightarrow> memory \<Rightarrow> memory outcome" where
  "split_large_entry table index level m =
     bind_outcome (assert_that (level = 2 \<or> level = 1) ''level == 2 || level == 1'') (\<lambda>_.
     let entry = ram m table ! index
     in bind_outcome (assert_that (entry AND PTE_PRESENT \<noteq> 0) ''entry & PTE_PRESENT'') (\<lambda>_.
        bind_outcome (assert_that (entry AND PTE_HUGE \<noteq> 0) ''entry & PTE_HUGE'') (\<lambda>_.
        bind_outcome (alloc_frame m) (\<lambda>(child, m1).
        let base = entry AND PTE_ADDR_MASK;
            leaf_flags = entry AND (PTE_PRESENT OR PTE_WRITE OR PTE_USER);
            child_table =
              (if level = 2 then map (\<lambda>i. (base + word_of_nat i * HUGE_2M) OR leaf_flags OR PTE_HUGE) [0..<512]
               else map (\<lambda>i. (base + word_of_nat i * 4096) OR leaf_flags) [0..<512]);
            m2 = m1\<lparr>ram := (ram m1)(child := child_table)\<rparr>
        in Inr (set_entry table index
             (make_entry child (leaf_flags AND PTE_USER \<noteq> 0) (leaf_flags AND PTE_WRITE \<noteq> 0)) m2)))))"

text \<open>Makes the entry at an inner level point to a table: one step of \<open>map\<close> before it descends.\<close>

definition open_entry :: "u64 \<Rightarrow> nat \<Rightarrow> nat \<Rightarrow> memory \<Rightarrow> memory outcome" where
  "open_entry table index level m =
     (if ram m table ! index AND PTE_PRESENT \<noteq> 0 then
        if ram m table ! index AND PTE_HUGE \<noteq> 0 \<and> (level = 2 \<or> level = 1)
        then split_large_entry table index level m
        else Inr m
      else bind_outcome (alloc_frame m) (\<lambda>(child, m1).
        Inr (set_entry table index (make_entry child True True) m1)))"

fun map_at :: "nat \<Rightarrow> u64 \<Rightarrow> u64 \<Rightarrow> u64 \<Rightarrow> bool \<Rightarrow> bool \<Rightarrow> memory \<Rightarrow> memory outcome" where
  "map_at 0 table vpn ppn user write m =
     Inr (set_entry table (table_index vpn 0) (make_entry ppn user write) m)"
| "map_at (Suc level) table vpn ppn user write m =
     bind_outcome (open_entry table (table_index vpn (Suc level)) (Suc level) m) (\<lambda>m1.
       map_at level (entry_ppn (ram m1 table ! table_index vpn (Suc level))) vpn ppn user write m1)"

definition map_in_root :: "u64 \<Rightarrow> u64 \<Rightarrow> u64 \<Rightarrow> bool \<Rightarrow> bool \<Rightarrow> memory \<Rightarrow> memory outcome" where
  "map_in_root cr3 vpn ppn user write m = map_at 3 (PPN_of (drop_bit 12 cr3)) vpn ppn user write m"

section \<open>Looking an entry up\<close>

text \<open>The place of the leaf entry, as its table and its index there.\<close>

fun find_pte_loop :: "nat \<Rightarrow> u64 \<Rightarrow> u64 \<Rightarrow> memory \<Rightarrow> (u64 \<times> nat) option" where
  "find_pte_loop 0 table vpn m =
     (if ram m table ! table_index vpn 0 AND PTE_PRESENT = 0 then None else Some (table, table_index vpn 0))"
| "find_pte_loop (Suc level) table vpn m =
     (let entry = ram m table ! table_index vpn (Suc level)
      in if entry AND PTE_PRESENT = 0 then None
         else if entry AND PTE_HUGE \<noteq> 0 \<and> (Suc level = 2 \<or> Suc level = 1) then None
         else find_pte_loop level (entry_ppn entry) vpn m)"

definition find_pte_in_root :: "u64 \<Rightarrow> u64 \<Rightarrow> memory \<Rightarrow> (u64 \<times> nat) option" where
  "find_pte_in_root cr3 va m = find_pte_loop 3 (PPN_of (drop_bit 12 cr3)) (drop_bit 12 va) m"

definition pte_value :: "u64 \<times> nat \<Rightarrow> memory \<Rightarrow> u64" where
  "pte_value pte m = ram m (fst pte) ! snd pte"

section \<open>What the tables mean\<close>

text \<open>
  The processor's walk: the frame a page is translated to, and whether user code may access it and
  whether it may be written, which every entry on the way has a say in.
\<close>

definition frame_of :: "u64 \<Rightarrow> u64" where "frame_of e = drop_bit 12 (e AND PTE_ADDR_MASK)"

definition is_present :: "u64 \<Rightarrow> bool" where "is_present e \<longleftrightarrow> e AND PTE_PRESENT \<noteq> 0"
definition is_user :: "u64 \<Rightarrow> bool" where "is_user e \<longleftrightarrow> e AND PTE_USER \<noteq> 0"
definition is_writable :: "u64 \<Rightarrow> bool" where "is_writable e \<longleftrightarrow> e AND PTE_WRITE \<noteq> 0"

definition is_large :: "nat \<Rightarrow> u64 \<Rightarrow> bool" where
  "is_large level e \<longleftrightarrow> e AND PTE_HUGE \<noteq> 0 \<and> (level = 2 \<or> level = 1)"

definition is_table :: "nat \<Rightarrow> u64 \<Rightarrow> bool" where
  "is_table level e \<longleftrightarrow> is_present e \<and> \<not> is_large level e"

type_synonym mapping = "u64 \<times> bool \<times> bool"

definition restrict :: "u64 \<Rightarrow> mapping option \<Rightarrow> mapping option" where
  "restrict e = map_option (\<lambda>(f, user, write). (f, user \<and> is_user e, write \<and> is_writable e))"

fun translate :: "(u64 \<Rightarrow> u64 list) \<Rightarrow> nat \<Rightarrow> u64 \<Rightarrow> u64 \<Rightarrow> mapping option" where
  "translate r 0 t vpn =
     (let e = r t ! table_index vpn 0
      in if is_present e then Some (frame_of e, is_user e, is_writable e) else None)"
| "translate r (Suc level) t vpn =
     (let e = r t ! table_index vpn (Suc level)
      in if \<not> is_present e then None
         else if is_large (Suc level) e
         then Some (frame_of e + (vpn AND mask (9 * Suc level)), is_user e, is_writable e)
         else restrict e (translate r level (frame_of e) vpn))"

text \<open>What the entries above the leaf allow; a missing entry becomes one that allows everything.\<close>

fun path_allows :: "(u64 \<Rightarrow> u64 list) \<Rightarrow> nat \<Rightarrow> u64 \<Rightarrow> u64 \<Rightarrow> bool \<times> bool" where
  "path_allows r 0 t vpn = (True, True)"
| "path_allows r (Suc level) t vpn =
     (let e = r t ! table_index vpn (Suc level)
      in if \<not> is_present e then (True, True)
         else if is_large (Suc level) e then (is_user e, is_writable e)
         else case path_allows r level (frame_of e) vpn of
                (user, write) \<Rightarrow> (user \<and> is_user e, write \<and> is_writable e))"

text \<open>The frames that hold tables, and when these form a tree.\<close>

fun tables :: "(u64 \<Rightarrow> u64 list) \<Rightarrow> nat \<Rightarrow> u64 \<Rightarrow> u64 set" where
  "tables r 0 t = {t}"
| "tables r (Suc level) t =
     insert t (\<Union>i \<in> {i. i < 512 \<and> is_table (Suc level) (r t ! i)}. tables r level (frame_of (r t ! i)))"

fun wf_tables :: "(u64 \<Rightarrow> u64 list) \<Rightarrow> nat \<Rightarrow> u64 \<Rightarrow> bool" where
  "wf_tables r 0 t \<longleftrightarrow> length (r t) = 512"
| "wf_tables r (Suc level) t \<longleftrightarrow>
     length (r t) = 512 \<and>
     (\<forall>i < 512. is_table (Suc level) (r t ! i) \<longrightarrow>
        entry_ppn (r t ! i) = frame_of (r t ! i) \<and> wf_tables r level (frame_of (r t ! i)) \<and>
        t \<notin> tables r level (frame_of (r t ! i))) \<and>
     (\<forall>i < 512. \<forall>j < 512. i \<noteq> j \<and> is_table (Suc level) (r t ! i) \<and> is_table (Suc level) (r t ! j) \<longrightarrow>
        tables r level (frame_of (r t ! i)) \<inter> tables r level (frame_of (r t ! j)) = {}) \<and>
     (\<forall>i < 512. is_present (r t ! i) \<and> is_large (Suc level) (r t ! i) \<longrightarrow>
        unat (frame_of (r t ! i)) mod 512 ^ Suc level = 0)"


section \<open>Bits of entries\<close>

lemma addr_mask: "PTE_ADDR_MASK = push_bit 12 (mask 40)"
  by (simp add: PTE_ADDR_MASK_def mask_eq_exp_minus_1)

lemma frame_of_bits: "bit (frame_of e) k \<longleftrightarrow> k < 40 \<and> bit e (k + 12)"
  by (auto simp: frame_of_def addr_mask bit_simps add.commute dest: bit_imp_le_length)

lemma entry_ppn_bits: "bit (entry_ppn e) k \<longleftrightarrow> k < 36 \<and> bit e (k + 12)"
proof -
  have m: "(0xFFFFFFFFF :: u64) = mask 36"
    by (simp add: mask_eq_exp_minus_1)
  show ?thesis
    unfolding entry_ppn_def m by (auto simp: bit_simps add.commute dest: bit_imp_le_length)
qed

text \<open>An entry as a frame number and flags below the page size.\<close>

lemma frame_of_entry:
  assumes "unat x < 2 ^ 40" and "unat fl < 2 ^ 12"
  shows "frame_of (push_bit 12 x OR fl) = x"
proof (rule bit_word_eqI)
  fix k
  assume k: "k < LENGTH(64)"
  show "bit (frame_of (push_bit 12 x OR fl)) k = bit x k"
    using k bit_below [OF _ assms(1), of k] bit_below [OF _ assms(2), of "k + 12"]
    by (auto simp: frame_of_bits bit_simps)
qed

lemma entry_ppn_entry:
  assumes "unat x < 2 ^ 36" and "unat fl < 2 ^ 12"
  shows "entry_ppn (push_bit 12 x OR fl) = x"
proof (rule bit_word_eqI)
  fix k
  assume k: "k < LENGTH(64)"
  show "bit (entry_ppn (push_bit 12 x OR fl)) k = bit x k"
    using k bit_below [OF _ assms(1), of k] bit_below [OF _ assms(2), of "k + 12"]
    by (auto simp: entry_ppn_bits bit_simps)
qed

lemmas PTE_defs = PTE_PRESENT_def PTE_WRITE_def PTE_USER_def PTE_HUGE_def

lemma entry_low_bit: "n < 12 \<Longrightarrow> bit (push_bit 12 x OR fl :: u64) n = bit fl n"
  by (simp add: bit_simps)

lemma PTE_bits:
  "bit PTE_PRESENT k \<longleftrightarrow> k = 0" "bit PTE_WRITE k \<longleftrightarrow> k = 1" "bit PTE_USER k \<longleftrightarrow> k = 2" "bit PTE_HUGE k \<longleftrightarrow> k = 7"
  unfolding PTE_defs by (auto simp only: bit_push_bit_iff bit_1_iff) simp_all

lemma flag_bit:
  fixes e :: u64
  assumes "n < 64"
  shows "e AND push_bit n 1 \<noteq> 0 \<longleftrightarrow> bit e n"
proof -
  have "e AND push_bit n 1 = (if bit e n then push_bit n 1 else 0)"
    using assms by (intro bit_word_eqI) (auto simp: bit_simps)
  moreover have "push_bit n (1 :: u64) \<noteq> 0"
    using assms by (simp add: push_bit_eq_mult)
  ultimately show ?thesis
    by simp
qed

lemma flags_as_bits:
  "is_present e \<longleftrightarrow> bit e 0" "is_writable e \<longleftrightarrow> bit e 1" "is_user e \<longleftrightarrow> bit e 2"
  "e AND PTE_HUGE \<noteq> 0 \<longleftrightarrow> bit e 7"
  unfolding is_present_def is_writable_def is_user_def PTE_defs by (simp_all only: flag_bit)


definition pte_flags :: "bool \<Rightarrow> bool \<Rightarrow> u64" where
  "pte_flags user write = PTE_PRESENT OR (if write then PTE_WRITE else 0) OR (if user then PTE_USER else 0)"

lemma flags_small: "unat (pte_flags user write) < 2 ^ 12" "unat (pte_flags user write OR PTE_HUGE) < 2 ^ 12"
  by (simp_all add: pte_flags_def PTE_defs)

lemma flags_bits:
  "bit (pte_flags user write) 0" "bit (pte_flags user write) 1 \<longleftrightarrow> write" "bit (pte_flags user write) 2 \<longleftrightarrow> user"
  "\<not> bit (pte_flags user write) 7" "bit PTE_HUGE 7" "\<not> bit PTE_HUGE 0" "\<not> bit PTE_HUGE 1" "\<not> bit PTE_HUGE 2"
  by (simp_all add: pte_flags_def PTE_bits bit_or_iff)

lemma make_entry_flags: "make_entry ppn user write = push_bit 12 ppn OR pte_flags user write"
  by (simp add: make_entry_def pte_flags_def or.assoc)

lemma frame_of_make_entry: "unat ppn < 2 ^ 40 \<Longrightarrow> frame_of (make_entry ppn user write) = ppn"
  unfolding make_entry_flags by (intro frame_of_entry flags_small)

lemma make_entry_facts [simp]:
  shows "is_present (make_entry ppn user write)"
    "is_user (make_entry ppn user write) \<longleftrightarrow> user" "is_writable (make_entry ppn user write) \<longleftrightarrow> write"
    "\<not> is_large level (make_entry ppn user write)" "is_table level (make_entry ppn user write)"
  by (simp_all add: is_table_def is_large_def flags_as_bits make_entry_flags entry_low_bit flags_bits del: One_nat_def)

lemma entry_ppn_make_entry: "unat ppn < 2 ^ 36 \<Longrightarrow> entry_ppn (make_entry ppn user write) = ppn"
  unfolding make_entry_flags by (intro entry_ppn_entry flags_small) simp

text \<open>The entries a large entry is split into.\<close>

definition part_of :: "nat \<Rightarrow> u64 \<Rightarrow> nat \<Rightarrow> u64" where
  "part_of level e i =
     (if level = 2
      then push_bit 12 (frame_of e + word_of_nat (512 * i)) OR (pte_flags (is_user e) (is_writable e) OR PTE_HUGE)
      else push_bit 12 (frame_of e + word_of_nat i) OR pte_flags (is_user e) (is_writable e))"

lemma addr_part: "e AND PTE_ADDR_MASK = push_bit 12 (frame_of e)"
  by (rule bit_word_eqI) (auto simp: frame_of_bits addr_mask bit_simps add.commute)

lemma leaf_flags:
  assumes "is_present e"
  shows "e AND (PTE_PRESENT OR PTE_WRITE OR PTE_USER) = pte_flags (is_user e) (is_writable e)"
proof (rule bit_word_eqI)
  fix k
  show "bit (e AND (PTE_PRESENT OR PTE_WRITE OR PTE_USER)) k = bit (pte_flags (is_user e) (is_writable e)) k"
    using assms unfolding flags_as_bits by (auto simp: pte_flags_def PTE_bits bit_and_iff bit_or_iff)
qed

lemma split_large_entry_eq:
  assumes "ram m t ! i = e" and "is_present e" and "is_large level e"
  shows "split_large_entry t i level m =
    bind_outcome (alloc_frame m) (\<lambda>(child, m1).
      Inr (set_entry t i (make_entry child (is_user e) (is_writable e))
        (m1\<lparr>ram := (ram m1)(child := map (part_of level e) [0..<512])\<rparr>)))"
proof -
  have "(e AND PTE_ADDR_MASK) + word_of_nat i * HUGE_2M = push_bit 12 (frame_of e + word_of_nat (512 * i))"
    "(e AND PTE_ADDR_MASK) + word_of_nat i * 4096 = push_bit 12 (frame_of e + word_of_nat i)" for i
    by (simp_all add: addr_part HUGE_2M_def push_bit_eq_mult algebra_simps)
  moreover have "pte_flags u w AND PTE_USER \<noteq> 0 \<longleftrightarrow> u" "pte_flags u w AND PTE_WRITE \<noteq> 0 \<longleftrightarrow> w" for u w
    using flags_as_bits(2,3) [of "pte_flags u w"] by (simp_all add: is_user_def is_writable_def flags_bits del: One_nat_def)
  ultimately show ?thesis
    using assms leaf_flags [OF assms(2)]
    by (auto simp: split_large_entry_def Let_def is_present_def is_large_def part_of_def [abs_def] or.assoc
        intro!: arg_cong2 [where f = bind_outcome] ext split: prod.splits)
qed

lemma frame_of_bound: "unat (frame_of e) < 2 ^ 40"
proof -
  have "frame_of e = frame_of e AND mask 40"
    by (rule bit_word_eqI) (auto simp: frame_of_bits bit_simps)
  then have "unat (frame_of e) = unat (frame_of e AND mask 40)"
    by simp
  also have "\<dots> < 2 ^ 40"
    using take_bit_nat_less_exp [of 40 "unat (frame_of e)"] by (simp add: unsigned_take_bit_eq flip: take_bit_eq_mask)
  finally show ?thesis .
qed

lemma part_of_frame:
  assumes "unat (frame_of e) mod 512 ^ level = 0" and "i < 512" and "level = 2 \<or> level = 1"
  shows "unat (frame_of (part_of level e i)) = unat (frame_of e) + 512 ^ (level - 1) * i"
    and "is_present (part_of level e i)" and "is_user (part_of level e i) \<longleftrightarrow> is_user e"
    and "is_writable (part_of level e i) \<longleftrightarrow> is_writable e"
    and "is_large level' (part_of level e i) \<longleftrightarrow> level = 2 \<and> (level' = 2 \<or> level' = 1)"
proof -
  define k where "k = 512 ^ (level - 1) * i"
  have k: "k < 512 ^ level"
    using assms(2,3) by (auto simp: k_def)
  have "unat (frame_of e) + 512 ^ level \<le> 2 ^ 40"
  proof -
    obtain q where q: "unat (frame_of e) = 512 ^ level * q"
      using assms(1) by auto
    have p: "(2 :: nat) ^ 40 = 512 ^ level * (2 ^ 40 div 512 ^ level)"
      using assms(3) by auto
    have "q < 2 ^ 40 div 512 ^ level"
      using frame_of_bound [of e] unfolding q by (subst (asm) p) (simp only: mult_less_cancel1)
    then have "512 ^ level * (q + 1) \<le> 512 ^ level * (2 ^ 40 div 512 ^ level)"
      by (intro mult_le_mono) simp_all
    then show ?thesis
      unfolding q using p by (simp add: algebra_simps)
  qed
  then have b: "unat (frame_of e) + k < 2 ^ 40"
    using k by linarith
  then have u: "unat (frame_of e + word_of_nat k) = unat (frame_of e) + k"
    by (simp add: unat_word_ariths unat_of_nat)
  have fr: "frame_of (part_of level e i) = frame_of e + word_of_nat k"
    using assms(3) b u flags_small unfolding part_of_def k_def
    by (auto intro!: frame_of_entry)
  then show "unat (frame_of (part_of level e i)) = unat (frame_of e) + 512 ^ (level - 1) * i"
    using u by (simp add: k_def)
  show "is_present (part_of level e i)" and "is_user (part_of level e i) \<longleftrightarrow> is_user e"
    "is_writable (part_of level e i) \<longleftrightarrow> is_writable e"
    unfolding flags_as_bits part_of_def
    by (simp_all add: entry_low_bit flags_bits bit_or_iff [of "pte_flags _ _"] del: One_nat_def)
  show "is_large level' (part_of level e i) \<longleftrightarrow> level = 2 \<and> (level' = 2 \<or> level' = 1)"
    unfolding is_large_def flags_as_bits part_of_def
    by (simp add: entry_low_bit flags_bits bit_or_iff [of "pte_flags _ _"] del: One_nat_def)
qed


section \<open>Frames from the pool\<close>

definition pool :: "memory \<Rightarrow> nat list" where "pool m = pool_frames (phys m)"

lemma pool_below:
  assumes "phys_inv p" and "k \<in> set (pool_frames p)"
  shows "k < 65536"
  using assms unfolding phys_inv_def pool_frames_def
  by (fastforce simp: tracked_iff range_frames_def wf_range_def)

lemma PhysMem_alloc_pool:
  assumes "phys_inv p" and "PhysMem_alloc p = Inr (f, p')"
  shows "pool_frames p = unat f # pool_frames p'" and "phys_inv p'"
proof -
  show "phys_inv p'"
    using PhysMem_alloc_cases [OF assms] by blast
  show "pool_frames p = unat f # pool_frames p'"
  proof (cases "avail_frames p")
    case Nil
    then obtain r rs where r: "free_ranges p = r # rs"
      using assms(2) by (auto simp: PhysMem_alloc_def split: list.splits)
    have "wf_range r"
      using assms(1) r by (simp add: phys_inv_def)
    then show ?thesis
      using assms(2) Nil r range_frames_head [of r]
      by (auto simp: PhysMem_alloc_def Let_def pool_frames_def set_frame_state_def)
  next
    case (Cons a rest)
    then show ?thesis
      using assms(2) by (auto simp: PhysMem_alloc_def pool_frames_def set_frame_state_def)
  qed
qed

lemma PhysMem_alloc_succeeds:
  assumes "phys_inv p" and "pool_frames p \<noteq> []"
  shows "\<exists>f p'. PhysMem_alloc p = Inr (f, p')"
  using assms by (auto simp: PhysMem_alloc_def Let_def pool_frames_def split: list.splits)

lemma PhysMem_alloc_fails: "PhysMem_alloc p = Inl e \<Longrightarrow> e = Panic ''out of frames''"
  by (auto simp: PhysMem_alloc_def Let_def split: list.splits)

text \<open>What an operation may do to memory: take frames off the pool, and change these and the frames of a set.\<close>

definition changes :: "u64 set \<Rightarrow> nat list \<Rightarrow> memory \<Rightarrow> memory \<Rightarrow> bool" where
  "changes S used m m' \<longleftrightarrow>
     pool m = used @ pool m' \<and> phys_inv (phys m') \<and> memmap m' = memmap m \<and> hhdm_offset m' = hhdm_offset m \<and>
     (\<forall>f. f \<notin> S \<and> unat f \<notin> set used \<longrightarrow> ram m' f = ram m f)"

lemma changes_refl: "phys_inv (phys m) \<Longrightarrow> changes S [] m m"
  by (simp add: changes_def)

lemma changes_trans:
  assumes "changes S us m m1" and "changes S' us' m1 m2" and "\<forall>f \<in> S'. f \<in> S \<or> unat f \<in> set us"
  shows "changes S (us @ us') m m2"
  using assms by (auto simp: changes_def)

lemma alloc_frame_changes:
  assumes "phys_inv (phys m)" and "alloc_frame m = Inr (f, m')"
  shows "changes {} [unat f] m m'" and "ram m' = (ram m)(f := replicate 512 0)" and "unat f < 65536"
    and "unat f \<in> set (pool m)" and "unat f \<notin> set (pool m')"
proof -
  from assms(2) obtain p where p: "PhysMem_alloc (phys m) = Inr (f, p)"
      "m' = m\<lparr>phys := p, ram := (ram m)(f := replicate 512 0)\<rparr>"
    by (auto simp: alloc_frame_def bind_outcome_Inr_iff)
  note P = PhysMem_alloc_pool [OF assms(1) p(1)]
  show "changes {} [unat f] m m'" "ram m' = (ram m)(f := replicate 512 0)"
    using P p(2) by (auto simp: changes_def pool_def)
  show "unat f \<in> set (pool m)"
    using P by (simp add: pool_def)
  then show "unat f < 65536"
    using pool_below [OF assms(1)] by (simp add: pool_def)
  have "distinct (pool_frames (phys m))"
    using assms(1) by (simp add: phys_inv_def)
  then show "unat f \<notin> set (pool m')"
    using P p(2) by (simp add: pool_def)
qed

section \<open>Trees of tables\<close>

lemma table_index_less [simp]: "table_index vpn level < 512"
proof -
  have m: "(0x1FF :: u64) = mask 9"
    by (simp add: mask_eq_exp_minus_1)
  show ?thesis
    using take_bit_nat_less_exp [of 9 "unat (drop_bit (level * 9) vpn)"]
    unfolding table_index_def m by (simp add: unsigned_take_bit_eq flip: take_bit_eq_mask)
qed

lemma root_in_tables [simp]: "t \<in> tables r level t"
  by (cases level) simp_all

lemma wf_tables_length: "wf_tables r level t \<Longrightarrow> length (r t) = 512"
  by (cases level) simp_all

text \<open>Everything about a tree depends on its own frames only.\<close>

lemma tables_local:
  assumes "\<forall>f \<in> tables r level t. r' f = r f"
  shows "tables r' level t = tables r level t" and "wf_tables r' level t \<longleftrightarrow> wf_tables r level t"
    and "translate r' level t vpn = translate r level t vpn"
    and "path_allows r' level t vpn = path_allows r level t vpn"
proof -
  have "tables r' level t = tables r level t \<and> (wf_tables r' level t \<longleftrightarrow> wf_tables r level t) \<and>
      translate r' level t vpn = translate r level t vpn \<and> path_allows r' level t vpn = path_allows r level t vpn"
    using assms
  proof (induction level arbitrary: t)
    case 0
    then show ?case
      by simp
  next
    case (Suc level)
    have t: "r' t = r t"
      using Suc.prems by simp
    have IH: "tables r' level (frame_of (r t ! i)) = tables r level (frame_of (r t ! i)) \<and>
        (wf_tables r' level (frame_of (r t ! i)) \<longleftrightarrow> wf_tables r level (frame_of (r t ! i))) \<and>
        translate r' level (frame_of (r t ! i)) vpn = translate r level (frame_of (r t ! i)) vpn \<and>
        path_allows r' level (frame_of (r t ! i)) vpn = path_allows r level (frame_of (r t ! i)) vpn"
      if "i < 512" "is_table (Suc level) (r t ! i)" for i
      using Suc.prems that by (intro Suc.IH) auto
    have "tables r' (Suc level) t = tables r (Suc level) t"
      using IH by (auto simp: t)
    moreover have "wf_tables r' (Suc level) t \<longleftrightarrow> wf_tables r (Suc level) t"
      using IH by (auto simp: t)
    moreover have "translate r' (Suc level) t vpn = translate r (Suc level) t vpn"
      "path_allows r' (Suc level) t vpn = path_allows r (Suc level) t vpn"
      using IH [of "table_index vpn (Suc level)"] by (auto simp: t Let_def is_table_def)
    ultimately show ?case
      by blast
  qed
  then show "tables r' level t = tables r level t" "wf_tables r' level t \<longleftrightarrow> wf_tables r level t"
    "translate r' level t vpn = translate r level t vpn" "path_allows r' level t vpn = path_allows r level t vpn"
    by blast+
qed

text \<open>The tables below the entries of \<open>t\<close> other than the one at \<open>i\<close>.\<close>

definition others :: "(u64 \<Rightarrow> u64 list) \<Rightarrow> nat \<Rightarrow> u64 \<Rightarrow> nat \<Rightarrow> u64 set" where
  "others r level t i =
     (\<Union>j \<in> {j. j < 512 \<and> j \<noteq> i \<and> is_table (Suc level) (r t ! j)}. tables r level (frame_of (r t ! j)))"

lemma tables_split:
  assumes "i < 512"
  shows "tables r (Suc level) t = insert t (others r level t i \<union>
    (if is_table (Suc level) (r t ! i) then tables r level (frame_of (r t ! i)) else {}))"
  using assms by (auto simp: others_def)

lemma others_child:
  assumes "wf_tables r (Suc level) t" and "i < 512" and "is_table (Suc level) (r t ! i)"
  shows "tables r level (frame_of (r t ! i)) \<inter> others r level t i = {}"
  using assms by (fastforce simp: others_def)

lemma t_notin_others: "wf_tables r (Suc level) t \<Longrightarrow> t \<notin> others r level t i"
  by (auto simp: others_def)

text \<open>Putting another subtree behind one entry.\<close>

lemma replace_child:
  assumes wf: "wf_tables r (Suc level) t" and i: "i < 512" and t: "r' t = (r t)[i := e]"
    and e: "is_table (Suc level) e" "entry_ppn e = frame_of e"
    and child: "wf_tables r' level (frame_of e)" "t \<notin> tables r' level (frame_of e)"
    and rest: "\<forall>f \<in> others r level t i. r' f = r f"
    and dis: "tables r' level (frame_of e) \<inter> others r level t i = {}"
  shows "wf_tables r' (Suc level) t"
    and "tables r' (Suc level) t = insert t (others r level t i \<union> tables r' level (frame_of e))"
    and "translate r' (Suc level) t vpn =
      (if table_index vpn (Suc level) = i then restrict e (translate r' level (frame_of e) vpn)
       else translate r (Suc level) t vpn)"
    and "path_allows r' (Suc level) t vpn =
      (if table_index vpn (Suc level) = i
       then (case path_allows r' level (frame_of e) vpn of (u, w) \<Rightarrow> (u \<and> is_user e, w \<and> is_writable e))
       else path_allows r (Suc level) t vpn)"
proof -
  have len: "length (r t) = 512"
    using wf by simp
  have ei: "r' t ! i = e" and ej: "\<And>j. j \<noteq> i \<Longrightarrow> r' t ! j = r t ! j"
    using len i by (simp_all add: t)
  have loc: "\<forall>f \<in> tables r level (frame_of (r t ! j)). r' f = r f"
    if "j < 512" "j \<noteq> i" "is_table (Suc level) (r t ! j)" for j
    using rest that by (auto simp: others_def)
  note L = tables_local [OF loc]
  have sub: "tables r level (frame_of (r t ! j)) \<subseteq> others r level t i"
    if "j < 512" "j \<noteq> i" "is_table (Suc level) (r t ! j)" for j
    using that by (auto simp: others_def)
  have O: "others r' level t i = others r level t i"
    unfolding others_def using L(1) ej by (auto simp: set_eq_iff)
  show T: "tables r' (Suc level) t = insert t (others r level t i \<union> tables r' level (frame_of e))"
    using tables_split [OF i, of r' level t] e by (simp add: O ei)
  show "wf_tables r' (Suc level) t"
    unfolding wf_tables.simps
  proof (intro conjI allI impI)
    show "length (r' t) = 512"
      by (simp add: t len)
    fix j :: nat
    assume j: "j < 512"
    {
      assume tj: "is_table (Suc level) (r' t ! j)"
      show "entry_ppn (r' t ! j) = frame_of (r' t ! j)"
        using wf j tj e ei ej by (cases "j = i") simp_all
      show "wf_tables r' level (frame_of (r' t ! j))"
        using wf j tj child ei ej L(2) by (cases "j = i") simp_all
      show "t \<notin> tables r' level (frame_of (r' t ! j))"
        using wf j tj child ei ej L(1) by (cases "j = i") simp_all
    }
    {
      assume "is_present (r' t ! j) \<and> is_large (Suc level) (r' t ! j)"
      then show "unat (frame_of (r' t ! j)) mod 512 ^ Suc level = 0"
        using wf j e ei ej by (cases "j = i") (simp_all add: is_table_def)
    }
    fix k :: nat
    assume k: "k < 512" "j \<noteq> k \<and> is_table (Suc level) (r' t ! j) \<and> is_table (Suc level) (r' t ! k)"
    have part: "tables r' level (frame_of (r' t ! x)) \<subseteq> others r level t i"
      if "x < 512" "x \<noteq> i" "is_table (Suc level) (r' t ! x)" for x
      using that sub [of x] L(1) [of x] ej [of x] by simp
    consider "j = i" | "k = i" | "j \<noteq> i" "k \<noteq> i"
      by blast
    then show "tables r' level (frame_of (r' t ! j)) \<inter> tables r' level (frame_of (r' t ! k)) = {}"
    proof cases
      case 1
      then show ?thesis
        using dis part [of k] k ei by auto
    next
      case 2
      then show ?thesis
        using dis part [of j] j k ei by auto
    next
      case 3
      then show ?thesis
        using wf j k L(1) [of j] L(1) [of k] ej by simp
    qed
  qed
  show "translate r' (Suc level) t vpn =
      (if table_index vpn (Suc level) = i then restrict e (translate r' level (frame_of e) vpn)
       else translate r (Suc level) t vpn)"
    "path_allows r' (Suc level) t vpn =
      (if table_index vpn (Suc level) = i
       then (case path_allows r' level (frame_of e) vpn of (u, w) \<Rightarrow> (u \<and> is_user e, w \<and> is_writable e))
       else path_allows r (Suc level) t vpn)"
    using e L(3,4) [of "table_index vpn (Suc level)"]
    by (auto simp: Let_def ei ej is_table_def)
qed


section \<open>One step of the mapping walk\<close>

lemma zero_table:
  assumes "r t = replicate 512 0"
  shows "tables r level t = {t}" "wf_tables r level t" "translate r level t vpn = None"
    "path_allows r level t vpn = (True, True)"
  using assms by (cases level; simp add: is_table_def is_present_def)+

text \<open>A table of parts means what the large entry meant.\<close>

lemma low_index:
  "(vpn AND mask (9 * Suc level) :: u64) = word_of_nat (512 ^ level * table_index vpn level) + (vpn AND mask (9 * level))"
  if "level < 3"
proof -
  have m: "(0x1FF :: u64) = mask 9"
    by (simp add: mask_eq_exp_minus_1)
  have "word_of_nat (512 ^ level * table_index vpn level) = push_bit (9 * level) (drop_bit (9 * level) vpn AND mask 9)"
    by (simp add: table_index_def m mult.commute push_bit_eq_mult power_mult [symmetric])
      (simp add: power_mult mult.commute [of level])
  moreover have "push_bit (9 * level) (drop_bit (9 * level) vpn AND mask 9) + (vpn AND mask (9 * level)) = push_bit (9 * level) (drop_bit (9 * level) vpn AND mask 9) OR (vpn AND mask (9 * level))"
    by (rule disjunctive_add) (auto simp: bit_simps)
  moreover have "push_bit (9 * level) (drop_bit (9 * level) vpn AND mask 9) OR (vpn AND mask (9 * level)) = vpn AND mask (9 * Suc level)"
    using that by (intro bit_word_eqI) (auto simp: bit_simps)
  ultimately show ?thesis
    by simp
qed

lemma parts_table:
  assumes e: "is_present e" "is_large (Suc level) e" "unat (frame_of e) mod 512 ^ Suc level = 0"
    and r: "r t = map (part_of (Suc level) e) [0..<512]"
  shows "tables r level t = {t}" "wf_tables r level t"
    "restrict (make_entry t' (is_user e) (is_writable e)) (translate r level t vpn) =
      Some (frame_of e + (vpn AND mask (9 * Suc level)), is_user e, is_writable e)"
    "(case path_allows r level t vpn of (u, w) \<Rightarrow> (u \<and> is_user e, w \<and> is_writable e)) = (is_user e, is_writable e)"
proof -
  have lv: "Suc level = 2 \<or> Suc level = 1"
    using e(2) by (auto simp: is_large_def)
  note P = part_of_frame [OF e(3) _ lv]
  have nth: "r t ! i = part_of (Suc level) e i" if "i < 512" for i
    using that by (simp add: r)
  have no: "\<not> is_table (Suc k) (r t ! i)" if "level = Suc k" "i < 512" for i k
    using that lv P(5) [OF that(2), of "Suc k"] by (auto simp: nth is_table_def)
  show "tables r level t = {t}"
    using no by (cases level) auto
  have fr: "unat (frame_of (part_of (Suc level) e i)) mod 512 ^ level = 0" if "i < 512" for i
  proof -
    have "512 ^ level dvd unat (frame_of e)"
      using e(3) by (auto simp: mod_eq_0_iff_dvd elim: dvd_trans [rotated])
    then show ?thesis
      unfolding P(1) [OF that] by (simp add: mod_eq_0_iff_dvd)
  qed
  show "wf_tables r level t"
    using no fr by (cases level) (auto simp: r)
  define i where "i = table_index vpn level"
  have i: "i < 512"
    by (simp add: i_def)
  have "unat (frame_of e) + 512 ^ level * i < 2 ^ 64"
    using P(1) [OF i] frame_of_bound [of "part_of (Suc level) e i"] by simp
  then have fri: "frame_of (part_of (Suc level) e i) = frame_of e + word_of_nat (512 ^ level * i)"
    using P(1) [OF i] unat_add_of_nat [of "frame_of e" "512 ^ level * i"]
    by (intro unsigned_word_eqI [where 'a = nat]) (simp only: diff_Suc_1)
  define q where "q = part_of (Suc level) e i"
  have q: "r t ! table_index vpn level = q" "is_present q" "is_user q = is_user e" "is_writable q = is_writable e"
    "\<And>level'. is_large level' q \<longleftrightarrow> level = 1 \<and> (level' = 2 \<or> level' = 1)"
    "frame_of q + (vpn AND mask (9 * level)) = frame_of e + (vpn AND mask (9 * Suc level))"
    using P(2-5) [OF i] fri nth [OF i] low_index [of level vpn] lv
    by (auto simp: q_def i_def add.assoc simp del: of_nat_mult)
  have "translate r level t vpn = Some (frame_of e + (vpn AND mask (9 * Suc level)), is_user e, is_writable e)"
  proof (cases level)
    case 0
    then show ?thesis
      using q(1-4) q(6) by (simp add: mask_0)
  next
    case (Suc k)
    then have "k = 0"
      using lv by simp
    then show ?thesis
      using q Suc by (simp add: Let_def)
  qed
  then show "restrict (make_entry t' (is_user e) (is_writable e)) (translate r level t vpn) =
      Some (frame_of e + (vpn AND mask (9 * Suc level)), is_user e, is_writable e)"
    by (simp add: restrict_def)
  show "(case path_allows r level t vpn of (u, w) \<Rightarrow> (u \<and> is_user e, w \<and> is_writable e)) = (is_user e, is_writable e)"
  proof (cases level)
    case (Suc k)
    then show ?thesis
      using q lv by (simp add: Let_def)
  qed simp
qed


lemma new_child:
  assumes wf: "wf_tables r (Suc level) t" and i: "i < 512" and no: "\<not> is_table (Suc level) (r t ! i)"
    and f: "f \<notin> tables r (Suc level) t" "unat f < 65536"
    and r': "r' = r(f := X, t := (r t)[i := make_entry f u w])"
    and X: "tables r' level f = {f}" "wf_tables r' level f"
    and tr: "\<And>vpn. table_index vpn (Suc level) = i \<Longrightarrow>
      restrict (make_entry f u w) (translate r' level f vpn) = translate r (Suc level) t vpn \<and>
      (case path_allows r' level f vpn of (u', w') \<Rightarrow> (u' \<and> u, w' \<and> w)) = path_allows r (Suc level) t vpn"
  shows "wf_tables r' (Suc level) t" and "tables r' (Suc level) t = insert f (tables r (Suc level) t)"
    and "is_table (Suc level) (r' t ! i)"
    and "translate r' (Suc level) t vpn = translate r (Suc level) t vpn"
    and "path_allows r' (Suc level) t vpn = path_allows r (Suc level) t vpn"
proof -
  have b: "unat f < 2 ^ 40" "unat f < 2 ^ 36"
    using f(2) by simp_all
  note e = frame_of_make_entry [OF b(1), of u w] entry_ppn_make_entry [OF b(2), of u w]
  have T: "tables r (Suc level) t = insert t (others r level t i)"
    using tables_split [OF i, of r level t] no by simp
  have ft: "f \<noteq> t" "f \<notin> others r level t i"
    using f(1) T by auto
  have len: "length (r t) = 512"
    using wf by simp
  have rest: "\<forall>g \<in> others r level t i. r' g = r g"
    using ft t_notin_others [OF wf] by (auto simp: r')
  have "r' t = (r t)[i := make_entry f u w]"
    using ft by (simp add: r')
  note R = replace_child [where r' = r', OF wf i this make_entry_facts(5), unfolded e, OF refl X(2) _ rest, unfolded X(1)]
  have d: "t \<notin> {f}" "{f} \<inter> others r level t i = {}"
    using ft by auto
  show "wf_tables r' (Suc level) t"
    by (rule R(1) [OF d])
  show "tables r' (Suc level) t = insert f (tables r (Suc level) t)"
    unfolding T R(2) [OF d] by blast
  show "is_table (Suc level) (r' t ! i)"
    using i len ft by (simp add: r')
  show "translate r' (Suc level) t vpn = translate r (Suc level) t vpn"
    using R(3) [OF d, of vpn] tr [of vpn] by simp
  show "path_allows r' (Suc level) t vpn = path_allows r (Suc level) t vpn"
    using R(4) [OF d, of vpn] tr [of vpn] by simp
qed

lemma open_entry_ok:
  assumes wf: "wf_tables (ram m) (Suc level) t" and inv: "phys_inv (phys m)"
    and fresh: "\<forall>f \<in> tables (ram m) (Suc level) t. unat f \<notin> set (pool m)" and i: "i < 512"
    and ok: "open_entry t i (Suc level) m = Inr m1"
  obtains used where "changes {t} used m m1" "wf_tables (ram m1) (Suc level) t"
    "tables (ram m1) (Suc level) t = tables (ram m) (Suc level) t \<union> {f. unat f \<in> set used}"
    "is_table (Suc level) (ram m1 t ! i)"
    "\<And>vpn. translate (ram m1) (Suc level) t vpn = translate (ram m) (Suc level) t vpn"
    "\<And>vpn. path_allows (ram m1) (Suc level) t vpn = path_allows (ram m) (Suc level) t vpn"
    "\<And>j. j \<noteq> i \<Longrightarrow> ram m1 t ! j = ram m t ! j"
proof (cases "is_table (Suc level) (ram m t ! i)")
  case True
  then have "m1 = m"
    using ok by (auto simp: open_entry_def is_table_def is_present_def is_large_def split: if_splits)
  with True wf inv show ?thesis
    by (intro that [of "[]"]) (simp_all add: changes_refl)
next
  case False
  let ?e = "ram m t ! i"
  define u where "u \<longleftrightarrow> (is_present ?e \<longrightarrow> is_user ?e)"
  define w where "w \<longleftrightarrow> (is_present ?e \<longrightarrow> is_writable ?e)"
  obtain f m0 X where al: "alloc_frame m = Inr (f, m0)"
    and m1: "m1 = set_entry t i (make_entry f u w) (m0\<lparr>ram := (ram m0)(f := X)\<rparr>)"
    and X: "X = (if is_present ?e then map (part_of (Suc level) ?e) [0..<512] else replicate 512 0)"
  proof (cases "is_present ?e")
    case True
    then have lg: "is_large (Suc level) ?e"
      using False by (simp add: is_table_def)
    then have "split_large_entry t i (Suc level) m = Inr m1"
      using ok True by (simp add: open_entry_def is_present_def is_large_def)
    then obtain f m0 where "alloc_frame m = Inr (f, m0)"
        "m1 = set_entry t i (make_entry f (is_user ?e) (is_writable ?e)) (m0\<lparr>ram := (ram m0)(f := map (part_of (Suc level) ?e) [0..<512])\<rparr>)"
      unfolding split_large_entry_eq [OF refl True lg] by (auto simp: bind_outcome_Inr_iff)
    with True show thesis
      by (intro that) (simp_all add: u_def w_def)
  next
    case np: False
    then obtain f m0 where a: "alloc_frame m = Inr (f, m0)" "m1 = set_entry t i (make_entry f True True) m0"
      using ok by (auto simp: open_entry_def is_present_def bind_outcome_Inr_iff)
    have "(ram m0)(f := replicate 512 0) = ram m0"
      using alloc_frame_changes(2) [OF inv a(1)] by simp
    with a np show thesis
      by (intro that [of f m0 "replicate 512 0"]) (simp_all add: u_def w_def)
  qed
  note A = alloc_frame_changes [OF inv al]
  have fT: "f \<notin> tables (ram m) (Suc level) t"
    using fresh A(4) by auto
  then have ft: "f \<noteq> t"
    by auto
  have r1: "ram m1 = (ram m)(f := X, t := (ram m t)[i := make_entry f u w])"
    using ft A(2) by (simp add: m1 set_entry_def)
  then have rf: "ram m1 f = X"
    using ft by simp
  have mod: "unat (frame_of ?e) mod 512 ^ Suc level = 0" if "is_present ?e"
    using wf i False that by (auto simp: is_table_def)
  have Xf: "tables (ram m1) level f = {f}" "wf_tables (ram m1) level f"
    using zero_table [of "ram m1" f level] parts_table [of ?e level "ram m1" f] rf X False mod
    by (cases "is_present ?e"; simp add: is_table_def)+
  have tr: "restrict (make_entry f u w) (translate (ram m1) level f vpn) = translate (ram m) (Suc level) t vpn \<and>
      (case path_allows (ram m1) level f vpn of (u', w') \<Rightarrow> (u' \<and> u, w' \<and> w)) = path_allows (ram m) (Suc level) t vpn"
    if "table_index vpn (Suc level) = i" for vpn
  proof (cases "is_present ?e")
    case True
    then show ?thesis
      using parts_table(3,4) [of ?e level "ram m1" f] rf X False mod that
      by (auto simp: is_table_def u_def w_def Let_def)
  next
    case np: False
    then show ?thesis
      using zero_table(3,4) [of "ram m1" f level] rf X that by (simp add: u_def w_def restrict_def)
  qed
  note N = new_child [OF wf i False fT A(3) r1 Xf tr]
  have ch: "changes {t} [unat f] m m1"
    using A(1) ft by (auto simp: changes_def m1 set_entry_def pool_def A(2))
  have "insert f (tables (ram m) (Suc level) t) = tables (ram m) (Suc level) t \<union> {g. unat g \<in> set [unat f]}"
    by (auto dest: unat_eqI)
  then show ?thesis
    using N(2) by (intro that [OF ch N(1) _ N(3,4,5)]) (simp_all add: r1)
qed


section \<open>The whole walk\<close>

definition same_page :: "nat \<Rightarrow> u64 \<Rightarrow> u64 \<Rightarrow> bool" where
  "same_page level v vpn \<longleftrightarrow> (\<forall>k \<le> level. table_index v k = table_index vpn k)"

lemma same_page_Suc:
  "same_page (Suc level) v vpn \<longleftrightarrow> table_index v (Suc level) = table_index vpn (Suc level) \<and> same_page level v vpn"
  by (auto simp: same_page_def le_Suc_eq)

lemma map_at_ok:
  assumes "wf_tables (ram m) level t" and "phys_inv (phys m)"
    and "\<forall>f \<in> tables (ram m) level t. unat f \<notin> set (pool m)" and "unat ppn < 2 ^ 40"
    and "map_at level t vpn ppn user write m = Inr m'"
  shows "\<exists>used. changes (tables (ram m) level t) used m m' \<and> wf_tables (ram m') level t \<and>
    tables (ram m') level t = tables (ram m) level t \<union> {f. unat f \<in> set used} \<and>
    (\<forall>v. translate (ram m') level t v =
      (if same_page level v vpn
       then Some (ppn, user \<and> fst (path_allows (ram m) level t vpn), write \<and> snd (path_allows (ram m) level t vpn))
       else translate (ram m) level t v))"
  using assms
proof (induction level arbitrary: t m)
  case 0
  then have m': "m' = set_entry t (table_index vpn 0) (make_entry ppn user write) m"
    by simp
  then have "ram m' t = (ram m t)[table_index vpn 0 := make_entry ppn user write]"
    by (simp add: set_entry_def)
  with 0 m' show ?case
    by (intro exI [of _ "[]"])
      (auto simp: changes_def pool_def set_entry_def same_page_def frame_of_make_entry Let_def)
next
  case (Suc level)
  let ?i = "table_index vpn (Suc level)"
  from Suc.prems(5) obtain m1 where op: "open_entry t ?i (Suc level) m = Inr m1"
    and rec: "map_at level (entry_ppn (ram m1 t ! ?i)) vpn ppn user write m1 = Inr m'"
    by (auto simp: bind_outcome_Inr_iff)
  obtain us where O: "changes {t} us m m1" "wf_tables (ram m1) (Suc level) t"
    "tables (ram m1) (Suc level) t = tables (ram m) (Suc level) t \<union> {f. unat f \<in> set us}"
    "is_table (Suc level) (ram m1 t ! ?i)"
    "\<And>v. translate (ram m1) (Suc level) t v = translate (ram m) (Suc level) t v"
    "\<And>v. path_allows (ram m1) (Suc level) t v = path_allows (ram m) (Suc level) t v"
    by (rule open_entry_ok [OF Suc.prems(1,2,3) table_index_less op]) (rule that)
  let ?e = "ram m1 t ! ?i"
  let ?c = "frame_of ?e"
  have e: "entry_ppn ?e = ?c" "wf_tables (ram m1) level ?c" "t \<notin> tables (ram m1) level ?c"
    using O(2,4) by simp_all
  have inv1: "phys_inv (phys m1)" and pool1: "pool m = us @ pool m1"
    using O(1) by (simp_all add: changes_def)
  have dist: "distinct (pool m)"
    using Suc.prems(2) by (simp add: pool_def phys_inv_def)
  have sub: "tables (ram m1) level ?c \<subseteq> tables (ram m1) (Suc level) t"
    using O(4) by auto
  have fresh1: "\<forall>f \<in> tables (ram m1) (Suc level) t. unat f \<notin> set (pool m1)"
    using Suc.prems(3) dist unfolding O(3) pool1 by auto
  obtain us' where R: "changes (tables (ram m1) level ?c) us' m1 m'" "wf_tables (ram m') level ?c"
    "tables (ram m') level ?c = tables (ram m1) level ?c \<union> {f. unat f \<in> set us'}"
    "\<And>v. translate (ram m') level ?c v =
      (if same_page level v vpn
       then Some (ppn, user \<and> fst (path_allows (ram m1) level ?c vpn), write \<and> snd (path_allows (ram m1) level ?c vpn))
       else translate (ram m1) level ?c v)"
    using Suc.IH [OF e(2) inv1 _ Suc.prems(4)] fresh1 sub rec e(1) by fastforce
  have us': "set us' \<subseteq> set (pool m1)"
    using R(1) by (auto simp: changes_def)
  have O': "others (ram m1) level t ?i \<subseteq> tables (ram m1) (Suc level) t"
    by (auto simp: others_def)
  have tn: "t \<notin> tables (ram m1) level ?c \<union> {f. unat f \<in> set us'}"
    using e(3) fresh1 us' by auto
  have on: "(tables (ram m1) level ?c \<union> {f. unat f \<in> set us'}) \<inter> others (ram m1) level t ?i = {}"
    using others_child [OF O(2) table_index_less O(4)] fresh1 us' O' by blast
  have same: "\<forall>f. f \<notin> tables (ram m1) level ?c \<union> {f. unat f \<in> set us'} \<longrightarrow> ram m' f = ram m1 f"
    using R(1) by (simp add: changes_def)
  have rt: "ram m' t = (ram m1 t)[?i := ?e]"
    using same tn by simp
  have rest: "\<forall>f \<in> others (ram m1) level t ?i. ram m' f = ram m1 f"
    using same on by blast
  note C = replace_child [where r' = "ram m'", OF O(2) table_index_less rt O(4) e(1) R(2) _ rest, unfolded R(3), OF tn on]
  have T: "tables (ram m') (Suc level) t = tables (ram m) (Suc level) t \<union> {f. unat f \<in> set (us @ us')}"
    unfolding C(2) using tables_split [OF table_index_less, of "ram m1" level t vpn "Suc level"] O(3,4) by auto
  have ch: "changes (tables (ram m) (Suc level) t) (us @ us') m m'"
  proof (rule changes_trans)
    show "changes (tables (ram m) (Suc level) t) us m m1"
      using O(1) by (auto simp: changes_def)
    show "changes (tables (ram m1) level ?c) us' m1 m'"
      by (rule R(1))
    show "\<forall>f \<in> tables (ram m1) level ?c. f \<in> tables (ram m) (Suc level) t \<or> unat f \<in> set us"
      using sub unfolding O(3) by auto
  qed
  have path: "path_allows (ram m) (Suc level) t vpn =
      (case path_allows (ram m1) level ?c vpn of (u, w) \<Rightarrow> (u \<and> is_user ?e, w \<and> is_writable ?e))"
    unfolding O(6) [symmetric] using O(4) by (simp add: Let_def is_table_def)
  have tr: "translate (ram m') (Suc level) t v =
      (if same_page (Suc level) v vpn
       then Some (ppn, user \<and> fst (path_allows (ram m) (Suc level) t vpn), write \<and> snd (path_allows (ram m) (Suc level) t vpn))
       else translate (ram m) (Suc level) t v)" for v
  proof (cases "table_index v (Suc level) = ?i")
    case True
    have "translate (ram m) (Suc level) t v = restrict ?e (translate (ram m1) level ?c v)"
      unfolding O(5) [symmetric] using O(4) True by (simp add: Let_def is_table_def)
    then show ?thesis
      unfolding C(3) path using True by (simp add: R(4) same_page_Suc restrict_def split: prod.splits)
  next
    case False
    then show ?thesis
      unfolding C(3) using O(5) by (simp add: same_page_Suc)
  qed
  show ?case
    using ch C(1) T tr by blast
qed


text \<open>The walk needs at most one frame for each level below the root.\<close>

lemma alloc_frame_succeeds:
  assumes "phys_inv (phys m)" and "pool m \<noteq> []"
  shows "\<exists>f m'. alloc_frame m = Inr (f, m')"
  using PhysMem_alloc_succeeds [of "phys m"] assms by (auto simp: alloc_frame_def pool_def)

lemma open_entry_succeeds:
  assumes "phys_inv (phys m)" and "pool m \<noteq> []"
  shows "\<exists>m'. open_entry t i (Suc level) m = Inr m'"
proof -
  obtain f m0 where "alloc_frame m = Inr (f, m0)"
    using alloc_frame_succeeds [OF assms] by blast
  moreover have "split_large_entry t i (Suc level) m =
      bind_outcome (alloc_frame m) (\<lambda>(child, m1).
        Inr (set_entry t i (make_entry child (is_user (ram m t ! i)) (is_writable (ram m t ! i)))
          (m1\<lparr>ram := (ram m1)(child := map (part_of (Suc level) (ram m t ! i)) [0..<512])\<rparr>)))"
    if "is_present (ram m t ! i)" "is_large (Suc level) (ram m t ! i)"
    using that by (intro split_large_entry_eq refl)
  ultimately show ?thesis
    by (auto simp: open_entry_def is_present_def is_large_def)
qed

lemma map_at_succeeds:
  assumes "wf_tables (ram m) level t" and "phys_inv (phys m)"
    and "\<forall>f \<in> tables (ram m) level t. unat f \<notin> set (pool m)" and "level \<le> length (pool m)"
  shows "\<exists>m'. map_at level t vpn ppn user write m = Inr m'"
  using assms
proof (induction level arbitrary: t m)
  case (Suc level)
  let ?i = "table_index vpn (Suc level)"
  obtain m1 where op: "open_entry t ?i (Suc level) m = Inr m1"
    using open_entry_succeeds [OF Suc.prems(2)] Suc.prems(4) by fastforce
  obtain us where O: "changes {t} us m m1" "wf_tables (ram m1) (Suc level) t"
    "tables (ram m1) (Suc level) t = tables (ram m) (Suc level) t \<union> {f. unat f \<in> set us}"
    "is_table (Suc level) (ram m1 t ! ?i)"
    by (rule open_entry_ok [OF Suc.prems(1,2,3) table_index_less op])
  have pool1: "pool m = us @ pool m1" "phys_inv (phys m1)"
    using O(1) by (simp_all add: changes_def)
  have dist: "distinct (pool m)"
    using Suc.prems(2) by (simp add: pool_def phys_inv_def)
  have one: "length us \<le> 1"
  proof -
    have "\<exists>n \<le> 1. pool m = take n (pool m) @ pool m1"
      using op Suc.prems(2)
    proof (cases "is_table (Suc level) (ram m t ! ?i)")
      case True
      then have "m1 = m"
        using op by (auto simp: open_entry_def is_table_def is_present_def is_large_def split: if_splits)
      then show ?thesis
        by (intro exI [of _ 0]) simp
    next
      case False
      then obtain f m0 where "alloc_frame m = Inr (f, m0)" "phys m1 = phys m0"
        using op split_large_entry_eq [OF refl, of m t ?i "Suc level"]
        by (auto simp: open_entry_def is_table_def is_present_def is_large_def bind_outcome_Inr_iff
            set_entry_def split: if_splits)
      then show ?thesis
        using alloc_frame_changes(1) [OF Suc.prems(2)] by (intro exI [of _ 1]) (simp add: changes_def pool_def)
    qed
    then obtain n where n: "n \<le> 1" "us @ pool m1 = take n (pool m) @ pool m1"
      using pool1(1) by auto
    then have "us = take n (pool m)"
      by simp
    with n(1) show ?thesis
      by simp
  qed
  have sub: "tables (ram m1) level (frame_of (ram m1 t ! ?i)) \<subseteq> tables (ram m1) (Suc level) t"
    using O(4) by auto
  have "\<forall>f \<in> tables (ram m1) (Suc level) t. unat f \<notin> set (pool m1)"
    using Suc.prems(3) dist unfolding O(3) pool1(1) by auto
  then have "\<exists>m'. map_at level (frame_of (ram m1 t ! ?i)) vpn ppn user write m1 = Inr m'"
    using O(2,4) pool1 one Suc.prems(4) sub by (intro Suc.IH) auto
  then show ?case
    using op O(2,4) by simp
qed simp

text \<open>An address space: the root's tree, none of whose frames the allocator holds.\<close>

definition root_of :: "u64 \<Rightarrow> u64" where "root_of cr3 = PPN_of (drop_bit 12 cr3)"

definition space_tables :: "u64 \<Rightarrow> memory \<Rightarrow> u64 set" where
  "space_tables cr3 m = tables (ram m) 3 (root_of cr3)"

definition page_at :: "u64 \<Rightarrow> memory \<Rightarrow> u64 \<Rightarrow> mapping option" where
  "page_at cr3 m vpn = translate (ram m) 3 (root_of cr3) vpn"

definition wf_space :: "u64 \<Rightarrow> memory \<Rightarrow> bool" where
  "wf_space cr3 m \<longleftrightarrow> wf_tables (ram m) 3 (root_of cr3) \<and> phys_inv (phys m) \<and>
     (\<forall>f \<in> space_tables cr3 m. unat f \<notin> set (pool m))"

lemma index_bits: "bit (drop_bit (level * 9) vpn AND 0x1FF :: u64) k \<longleftrightarrow> k < 9 \<and> bit vpn (level * 9 + k)"
proof -
  have m: "(0x1FF :: u64) = mask 9"
    by (simp add: mask_eq_exp_minus_1)
  show ?thesis
    unfolding m by (auto simp: bit_simps dest: bit_imp_le_length)
qed

lemma same_page_root:
  assumes "unat v < 2 ^ 36" and "unat vpn < 2 ^ 36"
  shows "same_page 3 v vpn \<longleftrightarrow> v = vpn"
proof
  assume same: "same_page 3 v vpn"
  show "v = vpn"
  proof (rule bit_word_eqI)
    fix k
    show "bit v k = bit vpn k"
    proof (cases "k < 36")
      case True
      then have "k div 9 \<le> 3"
        by simp
      then have "drop_bit (k div 9 * 9) v AND 0x1FF = drop_bit (k div 9 * 9) vpn AND 0x1FF"
        using same by (intro unat_eqI) (simp add: same_page_def table_index_def)
      then have "bit v (k div 9 * 9 + k mod 9) = bit vpn (k div 9 * 9 + k mod 9)"
        using index_bits [of "k div 9" v "k mod 9"] index_bits [of "k div 9" vpn "k mod 9"] by simp
      then show ?thesis
        by simp
    next
      case False
      then show ?thesis
        using bit_below [OF _ assms(1)] bit_below [OF _ assms(2)] by blast
    qed
  qed
qed (simp add: same_page_def)

lemma map_in_root_ok:
  assumes "wf_space cr3 m" and "map_in_root cr3 vpn ppn user write m = Inr m'" and "unat ppn < 2 ^ 40"
  shows "\<exists>used. changes (space_tables cr3 m) used m m' \<and> wf_space cr3 m' \<and>
    space_tables cr3 m' = space_tables cr3 m \<union> {f. unat f \<in> set used} \<and>
    (\<forall>v. page_at cr3 m' v =
      (if same_page 3 v vpn
       then Some (ppn, user \<and> fst (path_allows (ram m) 3 (root_of cr3) vpn),
         write \<and> snd (path_allows (ram m) 3 (root_of cr3) vpn))
       else page_at cr3 m v))"
proof -
  have W: "wf_tables (ram m) 3 (root_of cr3)" "phys_inv (phys m)"
    "\<forall>f \<in> tables (ram m) 3 (root_of cr3). unat f \<notin> set (pool m)"
    using assms(1) by (simp_all add: wf_space_def space_tables_def)
  have rec: "map_at 3 (root_of cr3) vpn ppn user write m = Inr m'"
    using assms(2) by (simp add: map_in_root_def root_of_def)
  from map_at_ok [OF W assms(3) rec] obtain used where
    U: "changes (tables (ram m) 3 (root_of cr3)) used m m'" "wf_tables (ram m') 3 (root_of cr3)"
      "tables (ram m') 3 (root_of cr3) = tables (ram m) 3 (root_of cr3) \<union> {f. unat f \<in> set used}"
      "\<forall>v. translate (ram m') 3 (root_of cr3) v =
        (if same_page 3 v vpn
         then Some (ppn, user \<and> fst (path_allows (ram m) 3 (root_of cr3) vpn),
           write \<and> snd (path_allows (ram m) 3 (root_of cr3) vpn))
         else translate (ram m) 3 (root_of cr3) v)"
    by blast
  have "distinct (pool m)"
    using W(2) by (simp add: pool_def phys_inv_def)
  then have "wf_space cr3 m'"
    using U(1-3) W(3) by (auto simp: wf_space_def space_tables_def changes_def)
  with U show ?thesis
    unfolding space_tables_def page_at_def by blast
qed

section \<open>Mapping a page\<close>

text \<open>
  C30. With three frames to spare, mapping a page succeeds and is an update of the map from pages to frames:
  every other page is translated as before, those of a large page that is split on the way included, and
  no frame outside the tables and the pool is written.
\<close>

theorem map_page_updates:
  assumes wf: "wf_space root m" and vpn: "unat vpn < 2 ^ 36" and ppn: "unat ppn < 2 ^ 40"
    and pl: "3 \<le> length (pool m)"
  shows "\<exists>m'. map_in_root root vpn ppn user write m = Inr m' \<and> wf_space root m' \<and>
    (\<forall>v. unat v < 2 ^ 36 \<longrightarrow> page_at root m' v =
      (if v = vpn
       then Some (ppn, user \<and> fst (path_allows (ram m) 3 (root_of root) vpn),
         write \<and> snd (path_allows (ram m) 3 (root_of root) vpn))
       else page_at root m v)) \<and>
    (\<forall>f. f \<notin> space_tables root m \<and> unat f \<notin> set (pool m) \<longrightarrow> ram m' f = ram m f)"
proof -
  have W: "wf_tables (ram m) 3 (root_of root)" "phys_inv (phys m)"
    "\<forall>f \<in> tables (ram m) 3 (root_of root). unat f \<notin> set (pool m)"
    using wf by (simp_all add: wf_space_def space_tables_def)
  obtain m' where run: "map_in_root root vpn ppn user write m = Inr m'"
    using map_at_succeeds [OF W pl] unfolding map_in_root_def root_of_def [symmetric] by blast
  obtain used where U: "changes (space_tables root m) used m m'" "wf_space root m'"
    "\<forall>v. page_at root m' v =
      (if same_page 3 v vpn
       then Some (ppn, user \<and> fst (path_allows (ram m) 3 (root_of root) vpn),
         write \<and> snd (path_allows (ram m) 3 (root_of root) vpn))
       else page_at root m v)"
    using map_in_root_ok [OF wf run ppn] by (elim exE conjE) (rule that)
  have "set used \<subseteq> set (pool m)"
    using U(1) by (auto simp: changes_def)
  then have "\<forall>f. f \<notin> space_tables root m \<and> unat f \<notin> set (pool m) \<longrightarrow> ram m' f = ram m f"
    using U(1) unfolding changes_def by blast
  then show ?thesis
    using run U(2,3) by (auto simp: same_page_root [OF _ vpn])
qed

text \<open>A root table in frame 16 over a table in frame 17 whose first entry maps a gigabyte.\<close>

definition large_space :: memory where
  "large_space =
     \<lparr>ram = (\<lambda>f. if f = 16 then (replicate 512 0)[0 := make_entry 17 True True]
        else if f = 17 then (replicate 512 0)[0 := 0x40000087] else replicate 512 0),
      phys = PhysMem_init (Some [\<lparr>mm_base = 0x100000, mm_length = 0x3000, mm_type = Usable\<rparr>]),
      memmap = Some [\<lparr>mm_base = 0x100000, mm_length = 0x3000, mm_type = Usable\<rparr>], hhdm_offset = 0\<rparr>"

lemma first_entry:
  assumes "r t = (replicate 512 0)[0 := e]" and "i < 512"
  shows "r t ! i = (if i = 0 then e else 0)"
  using assms by (simp add: nth_list_update)

lemma no_entry [simp]: "\<not> is_present 0" "\<not> is_table k 0"
  by (simp_all add: is_present_def is_table_def)

lemma first_entry_table:
  assumes r: "r t = (replicate 512 0)[0 := e]" and e: "is_table (Suc level) e" "entry_ppn e = frame_of e"
    and sub: "wf_tables r level (frame_of e)" "t \<notin> tables r level (frame_of e)"
  shows "tables r (Suc level) t = insert t (tables r level (frame_of e))" and "wf_tables r (Suc level) t"
proof -
  have i: "i < 512 \<and> is_table (Suc level) (r t ! i) \<longleftrightarrow> i = 0" for i
    using first_entry [of r t e i, OF r] e(1) by (auto split: if_splits)
  then have "{i. i < 512 \<and> is_table (Suc level) (r t ! i)} = {0}"
    by auto
  moreover have z: "r t ! 0 = e"
    using first_entry [of r t e 0, OF r] by simp
  ultimately show "tables r (Suc level) t = insert t (tables r level (frame_of e))"
    by simp
  have "\<not> (is_present (r t ! i) \<and> is_large (Suc level) (r t ! i))" if "i < 512" for i
    using first_entry [of r t e i, OF r that] e(1) by (auto simp: is_table_def split: if_splits)
  moreover have "length (r t) = 512"
    by (simp add: r)
  moreover have "j = 0" if "j < 512" "is_table (Suc level) (r t ! j)" for j
    using i [of j] that by simp
  moreover have "r t ! j = e" if "j < 512" "is_table (Suc level) (r t ! j)" for j
    using i [of j] that z by simp
  ultimately show "wf_tables r (Suc level) t"
    using e(2) sub unfolding wf_tables.simps by (intro conjI allI impI) (metis | blast)+
qed

lemma first_entry_large:
  assumes r: "r t = (replicate 512 0)[0 := e]" and e: "is_large (Suc level) e"
    and al: "unat (frame_of e) mod 512 ^ Suc level = 0"
  shows "tables r (Suc level) t = {t}" and "wf_tables r (Suc level) t"
proof -
  have i: "\<not> is_table (Suc level) (r t ! i)" if "i < 512" for i
    using first_entry [of r t e i, OF r that] e by (simp add: is_table_def)
  have p: "unat (frame_of (r t ! i)) mod 512 ^ Suc level = 0" if "i < 512" "is_present (r t ! i)" for i
    using first_entry [of r t e i, OF r that(1)] that(2) al by (simp split: if_splits)
  have "length (r t) = 512"
    by (simp add: r)
  with i p show "tables r (Suc level) t = {t}" "wf_tables r (Suc level) t"
    by (auto simp del: power_Suc)
qed

lemma large_space_wf: "wf_space 0x10000 large_space" "pool large_space = [256..<259]"
  "page_at 0x10000 large_space 6 = Some (0x40006, True, True)"
  "path_allows (ram large_space) 3 (root_of 0x10000) 5 = (True, True)" "space_tables 0x10000 large_space = {16, 17}"
proof -
  have r: "root_of 0x10000 = 16"
    by (simp add: root_of_def PPN_of_def PPN_MASK_def)
  have e: "frame_of (make_entry 17 True True) = 17" "entry_ppn (make_entry 17 True True) = 17"
    by (simp_all add: frame_of_make_entry entry_ppn_make_entry)
  have big: "is_present 0x40000087" "is_user 0x40000087" "is_writable 0x40000087"
    "is_large 2 0x40000087" "frame_of 0x40000087 = 0x40000"
    by (simp_all add: is_present_def is_user_def is_writable_def is_large_def frame_of_def PTE_defs PTE_ADDR_MASK_def)
  show pl: "pool large_space = [256..<259]"
    by (simp add: large_space_def pool_def pool_frames_def PhysMem_init_def add_range_def range_frames_def)
  let ?r = "ram large_space"
  have r16: "?r 16 = (replicate 512 0)[0 := make_entry 17 True True]" and r17: "?r 17 = (replicate 512 0)[0 := 0x40000087]"
    by (simp_all only: large_space_def memory.simps) simp_all
  have L: "is_large (Suc 1) 0x40000087" "unat (frame_of 0x40000087) mod 512 ^ Suc 1 = 0"
    using big(4) by (simp_all add: numeral_2_eq_2) (simp add: big(5))
  note A = first_entry_large [of ?r 17, OF r17 L]
  note B = first_entry_table [of ?r 16 "make_entry 17 True True" "Suc 1", OF r16]
  have "tables ?r (Suc (Suc 1)) 16 = {16, 17}" "wf_tables ?r (Suc (Suc 1)) 16"
    using A B e by (simp_all del: tables.simps wf_tables.simps)
  then have T: "tables ?r 3 16 = {16, 17}" "wf_tables ?r 3 16"
    by (simp_all only: numeral_3_eq_3 One_nat_def)
  show st: "space_tables 0x10000 large_space = {16, 17}"
    using T r by (simp add: space_tables_def)
  have "wf_memmap [\<lparr>mm_base = 0x100000, mm_length = 0x3000, mm_type = Usable\<rparr>]"
    by (simp add: wf_memmap_def entry_range_def wf_range_def range_frames_def)
  then have "phys_inv (phys large_space)"
    by (simp add: large_space_def phys_inv_init)
  then show "wf_space 0x10000 large_space"
    using T r st pl by (simp add: wf_space_def)
  have x: "table_index 5 3 = 0" "table_index 5 2 = 0" "table_index 6 3 = 0" "table_index 6 2 = 0"
    by (simp_all add: table_index_def)
  have n: "?r 17 ! 0 = 0x40000087" "?r 16 ! 0 = make_entry 17 True True"
    using first_entry [of ?r 17 "0x40000087" 0, OF r17] first_entry [of ?r 16 "make_entry 17 True True" 0, OF r16] by simp_all
  have "translate ?r 2 17 6 = Some (0x40006, True, True)" "path_allows ?r 2 17 5 = (True, True)"
    using n big x by (simp_all add: numeral_2_eq_2 mask_eq_exp_minus_1)
  then show "page_at 0x10000 large_space 6 = Some (0x40006, True, True)"
    "path_allows ?r 3 (root_of 0x10000) 5 = (True, True)"
    using n e r x by (simp_all add: page_at_def numeral_3_eq_3 numeral_2_eq_2 restrict_def)
qed

theorem map_page_updates_witness:
  "\<exists>m'. map_in_root 0x10000 5 300 True True large_space = Inr m' \<and>
     page_at 0x10000 m' 5 = Some (300, True, True) \<and> page_at 0x10000 m' 6 = Some (0x40006, True, True)"
  using map_page_updates [OF large_space_wf(1), of 5 300 True True] by (auto simp: large_space_wf)

end
