(* ===== verification/Page_Lookup.thy ===== *)
theory Page_Lookup
  imports Page_Table
begin

text \<open>
  Finding and clearing leaf entries, and the check of user buffers of \<^verbatim>\<open>vmm.cc\<close>, which rests on it.
\<close>

section \<open>Definitions\<close>

definition PAGE_MASK :: u64 where "PAGE_MASK = 4096 - 1"
definition PRIVATE_BASE :: u64 where "PRIVATE_BASE = 4096"

definition page_align_down :: "u64 \<Rightarrow> u64" where "page_align_down value = value AND NOT PAGE_MASK"
definition page_align_up :: "u64 \<Rightarrow> u64" where "page_align_up value = (value + PAGE_MASK) AND NOT PAGE_MASK"

text \<open>The loop over the pages of a buffer; it ends at \<open>last_page\<close> or at the first page that fails.\<close>

partial_function (option) user_pages_ok :: "u64 \<Rightarrow> u64 \<Rightarrow> u64 \<Rightarrow> memory \<Rightarrow> bool option" where
  "user_pages_ok cr3 va last_page m =
     (case find_pte_in_root cr3 va m of
        None \<Rightarrow> Some False
      | Some pte \<Rightarrow>
          if pte_value pte m AND PTE_PRESENT = 0 \<or> pte_value pte m AND PTE_USER = 0 then Some False
          else if va = last_page then Some True
          else user_pages_ok cr3 (va + 4096) last_page m)"

definition user_buffer_ok :: "u64 \<Rightarrow> u64 \<Rightarrow> u64 \<Rightarrow> memory \<Rightarrow> bool option" where
  "user_buffer_ok cr3 start len m =
     (if len = 0 then Some (start < hhdm_offset m)
      else if start < PRIVATE_BASE \<or> start \<ge> hhdm_offset m then Some False
      else
        let end_addr = start + len - 1
        in if end_addr < start \<or> end_addr \<ge> hhdm_offset m then Some False
           else user_pages_ok cr3 (page_align_down start) (page_align_down end_addr) m)"

section \<open>Leaf entries\<close>

text \<open>A leaf entry as the walk finds it: where it is, and that the page is mapped by a small page.\<close>

definition small_page :: "u64 \<Rightarrow> memory \<Rightarrow> u64 \<Rightarrow> u64 option" where
  "small_page cr3 m vpn = map_option (\<lambda>pte. pte_value pte m) (find_pte_loop 3 (root_of cr3) vpn m)"

lemma find_pte_small: "find_pte_in_root cr3 va m = find_pte_loop 3 (root_of cr3) (drop_bit 12 va) m"
  by (simp add: find_pte_in_root_def root_of_def)

lemma child_in_tables:
  "i < 512 \<Longrightarrow> is_table (Suc level) (r t ! i) \<Longrightarrow> tables r level (frame_of (r t ! i)) \<subseteq> tables r (Suc level) t"
  by auto

lemma child_in_others:
  "j < 512 \<Longrightarrow> j \<noteq> i \<Longrightarrow> is_table (Suc level) (r t ! j) \<Longrightarrow>
    tables r level (frame_of (r t ! j)) \<subseteq> others r level t i"
  by (auto simp: others_def)

lemma find_pte_loop_Suc:
  "find_pte_loop (Suc level) t vpn m =
     (let e = ram m t ! table_index vpn (Suc level)
      in if is_table (Suc level) e then find_pte_loop level (entry_ppn e) vpn m else None)"
  by (auto simp: Let_def is_table_def is_present_def is_large_def)

lemma find_pte_place:
  assumes "wf_tables (ram m) level t" and "find_pte_loop level t vpn m = Some (t', i)"
  shows "t' \<in> tables (ram m) level t \<and> i = table_index vpn 0 \<and> length (ram m t') = 512 \<and>
    is_present (ram m t' ! i) \<and> (\<exists>u w. translate (ram m) level t vpn = Some (frame_of (ram m t' ! i), u, w))"
  using assms
proof (induction level arbitrary: t)
  case 0
  then show ?case
    by (auto simp: Let_def is_present_def split: if_splits)
next
  case (Suc level)
  let ?e = "ram m t ! table_index vpn (Suc level)"
  have e: "is_table (Suc level) ?e" "find_pte_loop level (entry_ppn ?e) vpn m = Some (t', i)"
    using Suc.prems(2) by (simp_all add: find_pte_loop_Suc Let_def split: if_splits del: find_pte_loop.simps)
  then have c: "entry_ppn ?e = frame_of ?e" "wf_tables (ram m) level (frame_of ?e)"
    using Suc.prems(1) by simp_all
  have found: "find_pte_loop level (frame_of ?e) vpn m = Some (t', i)"
    using e(2) c(1) by simp
  from Suc.IH [OF c(2) found] have
    I: "t' \<in> tables (ram m) level (frame_of ?e)" "i = table_index vpn 0" "length (ram m t') = 512"
      "is_present (ram m t' ! i)"
      "\<exists>u w. translate (ram m) level (frame_of ?e) vpn = Some (frame_of (ram m t' ! i), u, w)"
    by blast+
  from I(5) obtain u w where "translate (ram m) level (frame_of ?e) vpn = Some (frame_of (ram m t' ! i), u, w)"
    by blast
  then have "translate (ram m) (Suc level) t vpn =
      Some (frame_of (ram m t' ! i), u \<and> is_user ?e, w \<and> is_writable ?e)"
    using e(1) by (simp add: Let_def is_table_def restrict_def)
  moreover have "t' \<in> tables (ram m) (Suc level) t"
    using I(1) e(1) by auto
  ultimately show ?case
    using I(2-4) by blast
qed

lemma find_pte_local:
  assumes "wf_tables (ram m) level t" and "\<forall>f \<in> tables (ram m) level t. ram m' f = ram m f"
  shows "find_pte_loop level t vpn m' = find_pte_loop level t vpn m"
  using assms
proof (induction level arbitrary: t)
  case (Suc level)
  let ?i = "table_index vpn (Suc level)"
  have t: "ram m' t = ram m t"
    using Suc.prems(2) by simp
  show ?case
  proof (cases "is_table (Suc level) (ram m t ! ?i)")
    case True
    then have "entry_ppn (ram m t ! ?i) = frame_of (ram m t ! ?i)"
      "find_pte_loop level (frame_of (ram m t ! ?i)) vpn m' = find_pte_loop level (frame_of (ram m t ! ?i)) vpn m"
      using Suc.prems True child_in_tables [of ?i level "ram m" t] by (simp, intro Suc.IH) auto
    then show ?thesis
      by (simp add: find_pte_loop_Suc Let_def t del: find_pte_loop.simps)
  next
    case False
    then show ?thesis
      by (simp add: find_pte_loop_Suc Let_def t del: find_pte_loop.simps)
  qed
qed simp

text \<open>Clearing the entry unmaps the page and nothing else.\<close>

lemma clear_pte:
  assumes "wf_tables (ram m) level t" and "find_pte_loop level t vpn m = Some (t', i)"
  defines "m' \<equiv> set_entry t' i 0 m"
  shows "wf_tables (ram m') level t \<and> tables (ram m') level t = tables (ram m) level t \<and>
    (\<forall>v. translate (ram m') level t v = (if same_page level v vpn then None else translate (ram m) level t v)) \<and>
    (\<forall>v. find_pte_loop level t v m' = (if same_page level v vpn then None else find_pte_loop level t v m))"
  using assms(1,2)
proof (induction level arbitrary: t)
  case 0
  then have "t' = t" "i = table_index vpn 0"
    by (auto split: if_splits)
  with 0 show ?case
    by (auto simp: m'_def set_entry_def same_page_def Let_def is_present_def)
next
  case (Suc level)
  let ?j = "table_index vpn (Suc level)"
  let ?e = "ram m t ! ?j"
  have e: "is_table (Suc level) ?e" "find_pte_loop level (entry_ppn ?e) vpn m = Some (t', i)"
    using Suc.prems(2) by (simp_all add: find_pte_loop_Suc Let_def split: if_splits del: find_pte_loop.simps)
  then have c: "entry_ppn ?e = frame_of ?e" "wf_tables (ram m) level (frame_of ?e)"
    "t \<notin> tables (ram m) level (frame_of ?e)"
    using Suc.prems(1) by simp_all
  have found: "find_pte_loop level (frame_of ?e) vpn m = Some (t', i)"
    using e(2) c(1) by simp
  note I = Suc.IH [OF c(2) found]
  have t': "t' \<in> tables (ram m) level (frame_of ?e)"
    using find_pte_place [OF c(2) found] by blast
  then have ne: "t' \<noteq> t"
    using c(3) by auto
  have rt: "ram m' t = (ram m t)[?j := ?e]"
    using ne by (simp add: m'_def set_entry_def)
  have oth: "tables (ram m) level (frame_of ?e) \<inter> others (ram m) level t ?j = {}"
    by (rule others_child [OF Suc.prems(1) table_index_less e(1)])
  have rest: "\<forall>f \<in> others (ram m) level t ?j. ram m' f = ram m f"
    using oth t' by (auto simp: m'_def set_entry_def)
  have tab: "tables (ram m') level (frame_of ?e) = tables (ram m) level (frame_of ?e)"
    using I by blast
  note C = replace_child [where r' = "ram m'", OF Suc.prems(1) table_index_less rt e(1) c(1) _ _ rest, unfolded tab, OF _ c(3) oth]
  have W: "wf_tables (ram m') level (frame_of ?e)"
    using I by blast
  have "tables (ram m') (Suc level) t = tables (ram m) (Suc level) t"
    unfolding C(2) [OF W] using tables_split [OF table_index_less, of "ram m" level t vpn "Suc level"] e(1) by auto
  moreover have "translate (ram m') (Suc level) t v =
      (if same_page (Suc level) v vpn then None else translate (ram m) (Suc level) t v)" for v
  proof (cases "table_index v (Suc level) = ?j")
    case True
    then have "translate (ram m) (Suc level) t v = restrict ?e (translate (ram m) level (frame_of ?e) v)"
      using e(1) by (simp add: Let_def is_table_def)
    then show ?thesis
      unfolding C(3) [OF W] using I True by (simp add: same_page_Suc restrict_def)
  next
    case False
    then show ?thesis
      unfolding C(3) [OF W] by (simp add: same_page_Suc)
  qed
  moreover have "find_pte_loop (Suc level) t v m' =
      (if same_page (Suc level) v vpn then None else find_pte_loop (Suc level) t v m)" for v
  proof (cases "table_index v (Suc level) = ?j")
    case True
    then show ?thesis
      using I e(1) c(1) ne by (simp add: find_pte_loop_Suc same_page_Suc Let_def m'_def set_entry_def del: find_pte_loop.simps)
  next
    case False
    let ?k = "table_index v (Suc level)"
    have "find_pte_loop level (frame_of (ram m t ! ?k)) v m' = find_pte_loop level (frame_of (ram m t ! ?k)) v m"
      if tk: "is_table (Suc level) (ram m t ! ?k)"
    proof (rule find_pte_local)
      show "wf_tables (ram m) level (frame_of (ram m t ! ?k))"
        using Suc.prems(1) tk by simp
      show "\<forall>f \<in> tables (ram m) level (frame_of (ram m t ! ?k)). ram m' f = ram m f"
        using rest tk False child_in_others [of ?k ?j level "ram m" t] by auto
    qed
    then show ?thesis
      using False ne Suc.prems(1) by (simp add: find_pte_loop_Suc same_page_Suc Let_def m'_def set_entry_def del: find_pte_loop.simps)
  qed
  ultimately show ?case
    using C(1) [OF W] by blast
qed


section \<open>User buffers\<close>

definition user_page :: "u64 \<Rightarrow> memory \<Rightarrow> u64 \<Rightarrow> bool" where
  "user_page cr3 m vpn \<longleftrightarrow> (\<exists>e. small_page cr3 m vpn = Some e \<and> is_user e)"

lemma find_pte_present:
  "find_pte_loop level t vpn m = Some pte \<Longrightarrow> is_present (pte_value pte m)"
  by (induction level arbitrary: t) (auto simp: Let_def pte_value_def is_present_def split: if_splits)

lemma page_number:
  assumes "p < 2 ^ 52"
  shows "drop_bit 12 (word_of_nat (4096 * p) :: u64) = word_of_nat p"
proof (rule unat_eqI)
  have "unat (word_of_nat (4096 * p) :: u64) = 4096 * p" "unat (word_of_nat p :: u64) = p"
    using assms by (simp_all add: unat_of_nat del: of_nat_mult)
  then show "unat (drop_bit 12 (word_of_nat (4096 * p) :: u64)) = unat (word_of_nat p :: u64)"
    by (simp add: drop_bit_eq_div unat_div del: of_nat_mult)
qed

lemma user_pages_ok_step:
  assumes "p < 2 ^ 52" and "q < 2 ^ 52"
  shows "user_pages_ok cr3 (word_of_nat (4096 * p)) (word_of_nat (4096 * q)) m =
    (if \<not> user_page cr3 m (word_of_nat p) then Some False
     else if p = q then Some True
     else user_pages_ok cr3 (word_of_nat (4096 * Suc p)) (word_of_nat (4096 * q)) m)"
proof -
  let ?va = "word_of_nat (4096 * p) :: u64"
  have "unat ?va = 4096 * p" "unat (word_of_nat (4096 * q) :: u64) = 4096 * q"
    using assms by (simp_all add: unat_of_nat del: of_nat_mult)
  then have eq: "?va = word_of_nat (4096 * q) \<longleftrightarrow> p = q"
    by (metis mult_cancel1 zero_neq_numeral)
  have succ: "?va + 4096 = word_of_nat (4096 * Suc p)"
    by simp
  have page: "drop_bit 12 ?va = word_of_nat p"
    by (rule page_number [OF assms(1)])
  show ?thesis
  proof (cases "find_pte_in_root cr3 ?va m")
    case None
    then show ?thesis
      by (subst user_pages_ok.simps) (simp add: user_page_def small_page_def find_pte_small page del: of_nat_mult)
  next
    case (Some pte)
    then have "is_present (pte_value pte m)"
      unfolding find_pte_small by (rule find_pte_present)
    moreover have "user_page cr3 m (word_of_nat p) \<longleftrightarrow> is_user (pte_value pte m)"
      using Some by (simp add: user_page_def small_page_def find_pte_small page del: of_nat_mult)
    ultimately show ?thesis
      by (subst user_pages_ok.simps) (simp add: Some eq succ is_present_def is_user_def del: of_nat_mult)
  qed
qed

lemma user_pages_ok_result:
  assumes "p \<le> q" and "q < 2 ^ 52"
  shows "user_pages_ok cr3 (word_of_nat (4096 * p)) (word_of_nat (4096 * q)) m =
    Some (\<forall>k. p \<le> k \<and> k \<le> q \<longrightarrow> user_page cr3 m (word_of_nat k))"
  using assms
proof (induction "q - p" arbitrary: p)
  case 0
  then have "p = q"
    by simp
  then have all: "(\<forall>k. p \<le> k \<and> k \<le> q \<longrightarrow> user_page cr3 m (word_of_nat k)) \<longleftrightarrow> user_page cr3 m (word_of_nat p)"
    by (metis le_antisym order_refl)
  show ?case
    unfolding all using user_pages_ok_step [of p q cr3 m] 0 \<open>p = q\<close> by simp
next
  case (Suc n)
  then have "user_pages_ok cr3 (word_of_nat (4096 * Suc p)) (word_of_nat (4096 * q)) m =
      Some (\<forall>k. Suc p \<le> k \<and> k \<le> q \<longrightarrow> user_page cr3 m (word_of_nat k))"
    by (intro Suc.hyps(1)) simp_all
  moreover have "(\<forall>k. p \<le> k \<and> k \<le> q \<longrightarrow> user_page cr3 m (word_of_nat k)) \<longleftrightarrow>
      user_page cr3 m (word_of_nat p) \<and> (\<forall>k. Suc p \<le> k \<and> k \<le> q \<longrightarrow> user_page cr3 m (word_of_nat k))"
    using Suc.prems(1) by (metis Suc_leI le_eq_less_or_eq Suc_leD)
  ultimately show ?case
    using user_pages_ok_step [of p q cr3 m] Suc.prems Suc.hyps(2) by auto
qed

lemma page_align_down_unat: "unat (page_align_down v) = unat v div 4096 * 4096"
  by (simp only: page_align_down_def PAGE_MASK_def and_not_page)

lemma page_align_down_word: "page_align_down v = word_of_nat (4096 * (unat v div 4096))"
proof (rule unat_eqI)
  have "4096 * (unat v div 4096) \<le> unat v"
    by simp
  then have "4096 * (unat v div 4096) < 2 ^ 64"
    using unsigned_less [of v, where 'a = nat] by (simp del: times_div_less_eq_dividend)
  from unat_of_nat_u64 [OF this] show "unat (page_align_down v) = unat (word_of_nat (4096 * (unat v div 4096)) :: u64)"
    by (simp add: page_align_down_unat del: of_nat_mult)
qed

text \<open>What the check promises about a buffer.\<close>

definition accessible :: "u64 \<Rightarrow> memory \<Rightarrow> u64 \<Rightarrow> u64 \<Rightarrow> bool" where
  "accessible cr3 m start len \<longleftrightarrow>
     4096 \<le> unat start \<and> unat start + unat len \<le> unat (hhdm_offset m) \<and>
     (\<forall>x. unat start \<le> unat x \<and> unat x < unat start + unat len \<longrightarrow> user_page cr3 m (drop_bit 12 x))"

lemma pages_of_buffer:
  assumes "0 < n" and "a + n \<le> 2 ^ 64"
  shows "(\<forall>k. a div 4096 \<le> k \<and> k \<le> (a + n - 1) div 4096 \<longrightarrow> P (word_of_nat k :: u64)) \<longleftrightarrow>
    (\<forall>x :: u64. a \<le> unat x \<and> unat x < a + n \<longrightarrow> P (drop_bit 12 x))"
proof (intro iffI allI impI)
  fix x :: u64
  assume pages: "\<forall>k. a div 4096 \<le> k \<and> k \<le> (a + n - 1) div 4096 \<longrightarrow> P (word_of_nat k :: u64)"
    and x: "a \<le> unat x \<and> unat x < a + n"
  have "a div 4096 \<le> unat x div 4096 \<and> unat x div 4096 \<le> (a + n - 1) div 4096"
    using x by (auto intro!: div_le_mono)
  then have "P (word_of_nat (unat x div 4096))"
    using pages by blast
  moreover have "drop_bit 12 x = word_of_nat (unat x div 4096)"
  proof (rule unat_eqI)
    have "unat x div 4096 < 2 ^ 64"
      using unsigned_less [of x, where 'a = nat] by (intro le_less_trans [OF div_le_dividend]) simp
    from unat_of_nat_u64 [OF this] show "unat (drop_bit 12 x) = unat (word_of_nat (unat x div 4096) :: u64)"
      by (simp add: drop_bit_eq_div unat_div)
  qed
  ultimately show "P (drop_bit 12 x)"
    by simp
next
  fix k
  assume bytes: "\<forall>x :: u64. a \<le> unat x \<and> unat x < a + n \<longrightarrow> P (drop_bit 12 x)"
    and k: "a div 4096 \<le> k \<and> k \<le> (a + n - 1) div 4096"
  define y where "y = max a (4096 * k)"
  have "4096 * k \<le> a + n - 1"
    using k less_eq_div_iff_mult_less_eq [of 4096 k "a + n - 1"] by (simp add: mult.commute)
  moreover have "a < 4096 * (k + 1)"
    using k by (simp add: div_less_iff_less_mult less_Suc_eq_le [symmetric] mult.commute)
  ultimately have y: "a \<le> y" "y < a + n" "y div 4096 = k"
    using assms(1) by (auto simp: y_def max_def intro!: div_nat_eqI)
  then have u: "unat (word_of_nat y :: u64) = y"
    using assms(2) by (intro unat_of_nat_u64) simp
  have "drop_bit 12 (word_of_nat y :: u64) = word_of_nat k"
    using y(3) u by (intro unat_eqI) (simp add: drop_bit_eq_div unat_div unat_of_nat)
  with bytes y u show "P (word_of_nat k)"
    by metis
qed

lemma user_buffer_ok_result:
  "user_buffer_ok cr3 start len m =
     Some (if len = 0 then start < hhdm_offset m else accessible cr3 m start len)"
proof (cases "len = 0")
  case True
  then show ?thesis
    by (simp add: user_buffer_ok_def)
next
  case False
  let ?a = "unat start" and ?n = "unat len" and ?h = "unat (hhdm_offset m)"
  have n: "0 < ?n"
    using False by (simp add: unat_gt_0)
  have h: "?h < 2 ^ 64"
    using unsigned_less [of "hhdm_offset m", where 'a = nat] by simp
  show ?thesis
  proof (cases "4096 \<le> ?a \<and> ?a + ?n \<le> ?h")
    case True
    have e: "unat (start + len - 1) = ?a + ?n - 1"
    proof -
      have "unat (start + len) = ?a + ?n"
        using True h by (simp add: unat_word_ariths)
      moreover have "1 \<le> start + len"
        using calculation n by (simp add: word_le_nat_alt)
      ultimately show ?thesis
        by (simp add: unat_sub)
    qed
    have c: "\<not> (start < PRIVATE_BASE \<or> start \<ge> hhdm_offset m)" "\<not> (start + len - 1 < start \<or> start + len - 1 \<ge> hhdm_offset m)"
      using True e n by (auto simp: word_less_nat_alt word_le_nat_alt PRIVATE_BASE_def)
    have "user_pages_ok cr3 (page_align_down start) (page_align_down (start + len - 1)) m =
        Some (\<forall>k. ?a div 4096 \<le> k \<and> k \<le> (?a + ?n - 1) div 4096 \<longrightarrow> user_page cr3 m (word_of_nat k))"
      unfolding page_align_down_word e
      using True h n by (intro user_pages_ok_result) (auto intro!: div_le_mono)
    moreover have "(\<forall>k. ?a div 4096 \<le> k \<and> k \<le> (?a + ?n - 1) div 4096 \<longrightarrow> user_page cr3 m (word_of_nat k)) \<longleftrightarrow>
        (\<forall>x. ?a \<le> unat x \<and> unat x < ?a + ?n \<longrightarrow> user_page cr3 m (drop_bit 12 x))"
      using True h n by (intro pages_of_buffer) simp_all
    ultimately show ?thesis
      using False c True by (simp add: user_buffer_ok_def Let_def accessible_def)
  next
    case no: False
    have "start < PRIVATE_BASE \<or> start \<ge> hhdm_offset m \<or> start + len - 1 < start \<or> start + len - 1 \<ge> hhdm_offset m"
    proof (rule ccontr)
      assume asm: "\<not> ?thesis"
      have "unat (start + len - 1) = (?a + (?n - 1)) mod 2 ^ 64"
      proof -
        have s: "start + len - 1 = start + (len - 1)"
          by simp
        have l: "unat (len - 1) = ?n - 1"
          using n by (simp add: unat_sub word_le_nat_alt)
        show ?thesis
          unfolding s unat_word_ariths(1) l by simp
      qed
      moreover have "?a + (?n - 1) < 2 ^ 64"
      proof (rule ccontr)
        assume big: "\<not> ?thesis"
        have nl: "?n < 2 ^ 64" "?a < 2 ^ 64"
          using unsigned_less [of len, where 'a = nat] unsigned_less [of start, where 'a = nat] by simp_all
        then have "(?a + (?n - 1)) mod 2 ^ 64 = ?a + (?n - 1) - 2 ^ 64"
          using big by (simp add: le_mod_geq)
        with calculation have "unat (start + len - 1) = ?a + (?n - 1) - 2 ^ 64"
          by simp
        then have "unat (start + len - 1) < ?a"
          using nl big by simp
        then show False
          using asm by (simp add: word_less_nat_alt)
      qed
      ultimately show False
        using asm no n by (auto simp: word_less_nat_alt word_le_nat_alt PRIVATE_BASE_def)
    qed
    then show ?thesis
      using False no by (auto simp: user_buffer_ok_def Let_def accessible_def)
  qed
qed

end
