(* ===== verification/Vme.thy ===== *)
theory Vme
  imports Ext2 Page_Lookup
begin

text \<open>
  The virtual memory entries of \<^verbatim>\<open>vmm.cc\<close>: the sorted list of a process's (or the shared) mappings, its
  search, its copy and the first-fit insertion. The intrusive list is a list of records. What a list
  means is \<open>content_at\<close>: the file and the offset in it that an address stands for.
\<close>

section \<open>Definitions\<close>

record VME =
  vme_start :: u64
  vme_end :: u64
  vme_node :: "Node option"
  vme_offset :: u64
  vme_shared :: bool

fun find_vme :: "VME list \<Rightarrow> u64 \<Rightarrow> VME option" where
  "find_vme [] va = None"
| "find_vme (v # vs) va = (if va \<ge> vme_start v \<and> va < vme_end v then Some v else find_vme vs va)"

fun clone_vme_list :: "VME list \<Rightarrow> VME list" where
  "clone_vme_list [] = []"
| "clone_vme_list (v # vs) =
     \<lparr>vme_start = vme_start v, vme_end = vme_end v, vme_node = vme_node v, vme_offset = vme_offset v,
      vme_shared = vme_shared v\<rparr> # clone_vme_list vs"

definition fits_in_range :: "u64 \<Rightarrow> u64 \<Rightarrow> u64 \<Rightarrow> bool" where
  "fits_in_range start len limit \<longleftrightarrow> start < limit \<and> len \<le> limit - start"

text \<open>The walk to a gap: the entries before it, where it starts, and the entries after it.\<close>

fun find_gap :: "u64 \<Rightarrow> u64 \<Rightarrow> VME list \<Rightarrow> VME list \<times> u64 \<times> VME list" where
  "find_gap len candidate [] = ([], candidate, [])"
| "find_gap len candidate (v # vs) =
     (if candidate \<le> vme_start v \<and> len \<le> vme_start v - candidate then ([], candidate, v # vs)
      else case find_gap len (vme_end v) vs of (before, c, after) \<Rightarrow> (v # before, c, after))"

definition insert_vme :: "VME list \<Rightarrow> u64 \<Rightarrow> u64 \<Rightarrow> u64 \<Rightarrow> Node option \<Rightarrow> u64 \<Rightarrow> bool \<Rightarrow> u64 \<times> VME list" where
  "insert_vme vs base limit len node offset shared =
     (case find_gap len base vs of (before, candidate, after) \<Rightarrow>
        if \<not> fits_in_range candidate len limit then (- 1, vs)
        else (candidate, before @ \<lparr>vme_start = candidate, vme_end = candidate + len, vme_node = node,
          vme_offset = offset, vme_shared = shared\<rparr> # after))"

section \<open>What a list means\<close>

definition content_at :: "VME list \<Rightarrow> u64 \<Rightarrow> (Node option \<times> u64 \<times> bool) option" where
  "content_at vs va =
     map_option (\<lambda>v. (vme_node v, vme_offset v + (va - vme_start v), vme_shared v)) (find_vme vs va)"

text \<open>Sorted, disjoint and page aligned, from an address on.\<close>

fun chain :: "u64 \<Rightarrow> VME list \<Rightarrow> bool" where
  "chain lo [] \<longleftrightarrow> True"
| "chain lo (v # vs) \<longleftrightarrow>
     lo \<le> vme_start v \<and> vme_start v < vme_end v \<and> unat (vme_start v) mod 4096 = 0 \<and>
     unat (vme_end v) mod 4096 = 0 \<and> chain (vme_end v) vs"

definition free_range :: "VME list \<Rightarrow> u64 \<Rightarrow> u64 \<Rightarrow> bool" where
  "free_range vs c len \<longleftrightarrow> (\<forall>va. unat c \<le> unat va \<and> unat va < unat c + unat len \<longrightarrow> find_vme vs va = None)"

lemma clone_vme_list_id: "clone_vme_list vs = vs"
  by (induction vs) simp_all

lemma chain_weaken: "chain lo vs \<Longrightarrow> lo' \<le> lo \<Longrightarrow> chain lo' vs"
  by (cases vs) auto

lemma chain_low: "chain lo vs \<Longrightarrow> va < lo \<Longrightarrow> find_vme vs va = None"
  by (induction vs arbitrary: lo) force+

lemma chain_append:
  "chain lo (xs @ ys) \<longleftrightarrow> chain lo xs \<and> chain (if xs = [] then lo else vme_end (last xs)) ys"
  by (induction xs arbitrary: lo) auto

lemma find_vme_append:
  "find_vme (xs @ ys) va = (case find_vme xs va of Some v \<Rightarrow> Some v | None \<Rightarrow> find_vme ys va)"
  by (induction xs) simp_all

lemma find_vme_Some: "find_vme vs va = Some v \<Longrightarrow> v \<in> set vs \<and> vme_start v \<le> va \<and> va < vme_end v"
  by (induction vs) (auto split: if_splits)

text \<open>All entries of a chain end at or before its last one.\<close>

lemma chain_end:
  "chain lo vs \<Longrightarrow> vs \<noteq> [] \<Longrightarrow> lo \<le> vme_end (last vs) \<and> (\<forall>v \<in> set vs. vme_end v \<le> vme_end (last vs))"
  by (induction vs arbitrary: lo) (fastforce split: if_splits)+

lemma chain_high: "chain lo vs \<Longrightarrow> vs \<noteq> [] \<Longrightarrow> vme_end (last vs) \<le> va \<Longrightarrow> find_vme vs va = None"
  using chain_end [of lo vs] find_vme_Some [of vs va] by (cases "find_vme vs va") force+

section \<open>First fit\<close>

lemma find_gap_parts: "find_gap len lo vs = (before, c, after) \<Longrightarrow> vs = before @ after"
  by (induction vs arbitrary: lo before) (auto split: if_splits prod.splits)

lemma find_gap_place:
  assumes "find_gap len lo vs = (before, c, after)" and "chain lo vs"
  shows "c = (if before = [] then lo else vme_end (last before)) \<and>
    (after \<noteq> [] \<longrightarrow> unat c + unat len \<le> unat (vme_start (hd after)))"
  using assms
proof (induction vs arbitrary: lo before)
  case (Cons v vs)
  show ?case
  proof (cases "lo \<le> vme_start v \<and> len \<le> vme_start v - lo")
    case True
    then have "unat lo + unat len \<le> unat (vme_start v)"
      using unat_sub [of lo "vme_start v"] by (auto simp: word_le_nat_alt)
    with True Cons.prems show ?thesis
      by auto
  next
    case False
    then obtain b where b: "find_gap len (vme_end v) vs = (b, c, after)" "before = v # b"
      using Cons.prems(1) by (auto split: prod.splits)
    then show ?thesis
      using Cons.IH [OF b(1)] Cons.prems(2) by (auto split: if_splits)
  qed
qed simp

text \<open>No room below the place that is found.\<close>

lemma find_gap_least:
  assumes "find_gap len lo vs = (before, c, after)" and "chain lo vs" and "0 < unat len"
    and "lo \<le> a" and "unat a + unat len \<le> 2 ^ 64" and "free_range vs a len"
  shows "c \<le> a"
  using assms
proof (induction vs arbitrary: lo before)
  case (Cons v vs)
  show ?case
  proof (cases "lo \<le> vme_start v \<and> len \<le> vme_start v - lo")
    case True
    then show ?thesis
      using Cons.prems by simp
  next
    case False
    have lo: "lo \<le> vme_start v" "vme_start v < vme_end v" "chain (vme_end v) vs"
      using Cons.prems(2) by simp_all
    then have tight: "unat (vme_start v) < unat lo + unat len"
      using False unat_sub [of lo "vme_start v"] by (auto simp: word_le_nat_alt)
    obtain b where b: "find_gap len (vme_end v) vs = (b, c, after)"
      using False Cons.prems(1) by (auto split: prod.splits)
    have "vme_end v \<le> a"
    proof (rule ccontr)
      assume "\<not> vme_end v \<le> a"
      then have ae: "unat a < unat (vme_end v)"
        by (simp add: word_le_nat_alt)
      define x where "x = (if a \<le> vme_start v then vme_start v else a)"
      have x: "unat a \<le> unat x" "unat x < unat a + unat len" "vme_start v \<le> x"
        using tight Cons.prems(3,4) by (auto simp: x_def word_le_nat_alt)
      have "x < vme_end v"
        using ae lo(2) by (auto simp: x_def word_less_nat_alt word_le_nat_alt)
      moreover have "find_vme (v # vs) x = None"
        using Cons.prems(6) x unfolding free_range_def by blast
      ultimately show False
        using x(3) by (auto split: if_splits)
    qed
    moreover have "free_range vs a len"
      using Cons.prems(6) by (auto simp: free_range_def split: if_splits)
    ultimately show ?thesis
      using Cons.IH [OF b lo(3)] Cons.prems by blast
  qed
qed simp


text \<open>
  What an insertion does: it takes the lowest place with room, changes nothing else, and fails only
  when there is no room at all.
\<close>

lemma insert_vme_ok:
  assumes ch: "chain base vs" and len: "0 < unat len" "unat len mod 4096 = 0" and al: "unat base mod 4096 = 0"
    and ins: "insert_vme vs base limit len node offset shared = (r, vs')" and r: "r \<noteq> - 1"
  shows "base \<le> r \<and> unat r + unat len \<le> unat limit \<and> unat r mod 4096 = 0 \<and> free_range vs r len \<and> chain base vs' \<and>
    (\<forall>va. content_at vs' va =
      (if unat r \<le> unat va \<and> unat va < unat r + unat len then Some (node, offset + (va - r), shared)
       else content_at vs va))"
proof -
  obtain before after c where g: "find_gap len base vs = (before, c, after)"
    by (metis prod_cases3)
  define v where "v = \<lparr>vme_start = c, vme_end = c + len, vme_node = node, vme_offset = offset, vme_shared = shared\<rparr>"
  have fit: "fits_in_range c len limit" and rc: "r = c" and vs': "vs' = before @ v # after"
    using ins r by (auto simp: insert_vme_def g v_def split: if_splits)
  have vs: "vs = before @ after"
    by (rule find_gap_parts [OF g])
  note P = find_gap_place [OF g ch]
  have lim: "unat c + unat len \<le> unat limit"
    using fit unat_sub [of c limit] by (auto simp: fits_in_range_def word_le_nat_alt word_less_nat_alt)
  then have ce: "unat (c + len) = unat c + unat len"
    using unsigned_less [of limit, where 'a = nat] by (simp add: unat_word_ariths)
  have cb: "chain base before" "chain (if before = [] then base else vme_end (last before)) after"
    using ch unfolding vs chain_append by simp_all
  have bc: "base \<le> c"
    using P chain_end [OF cb(1)] by (cases "before = []") auto
  have cal: "unat c mod 4096 = 0"
  proof (cases "before = []")
    case False
    then have "chain base (butlast before @ [last before])"
      using cb(1) by simp
    then have "unat (vme_end (last before)) mod 4096 = 0"
      unfolding chain_append by simp
    with False show ?thesis
      using P by simp
  qed (use P al in simp)
  have low: "find_vme before va = None" if "c \<le> va" for va
    using that P chain_high [OF cb(1)] by (cases "before = []") auto
  have high: "chain (c + len) after"
    using cb(2) P ce by (cases after) (auto simp: word_le_nat_alt split: if_splits)
  have "chain c (v # after)"
    using high len ce cal by (auto simp: v_def word_less_nat_alt)
  then have "chain base vs'"
    unfolding vs' chain_append using cb(1) P by auto
  moreover have "free_range vs c len"
    unfolding free_range_def vs find_vme_append
    using low chain_low [OF high] ce by (auto simp: word_le_nat_alt word_less_nat_alt split: option.splits)
  moreover have "content_at vs' va =
      (if unat c \<le> unat va \<and> unat va < unat c + unat len then Some (node, offset + (va - c), shared)
       else content_at vs va)" for va
    using low [of va] ce
    by (auto simp: content_at_def vs vs' find_vme_append v_def word_le_nat_alt word_less_nat_alt split: option.splits)
  ultimately show ?thesis
    using bc lim cal unfolding rc by blast
qed

lemma insert_vme_first:
  assumes "chain base vs" and "0 < unat len" and "insert_vme vs base limit len node offset shared = (r, vs')"
    and "base \<le> a" and "unat a + unat len \<le> unat limit" and "free_range vs a len"
  shows "r \<noteq> - 1 \<and> r \<le> a"
proof -
  obtain before after c where g: "find_gap len base vs = (before, c, after)"
    by (metis prod_cases3)
  have "unat a + unat len \<le> 2 ^ 64"
    using assms(5) unsigned_less [of limit, where 'a = nat] by simp
  then have ca: "c \<le> a"
    using find_gap_least [OF g assms(1,2,4) _ assms(6)] by blast
  then have "unat c + unat len \<le> unat limit"
    using assms(5) by (simp add: word_le_nat_alt)
  then have "c < limit" "len \<le> limit - c"
    using assms(2) unat_sub [of c limit] by (auto simp: word_le_nat_alt word_less_nat_alt)
  then have "r = c" "c < limit"
    using assms(3) by (simp_all add: insert_vme_def g fits_in_range_def)
  moreover have "(- 1 :: u64) \<noteq> c" if "c < limit"
    using that word_order.extremum [of limit] by auto
  ultimately show ?thesis
    using ca by auto
qed

end
