(* ===== verification/Elf.thy ===== *)
theory Elf
  imports Ext2
begin

text \<open>
  The ELF loader, \<^verbatim>\<open>elf.cc\<close> and \<^verbatim>\<open>elf.h\<close>: mapping and filling the segments of a program, and its
  initial stack. The address space is the set of pages that are present and the bytes at the addresses;
  touching a page that is not present is the panic of the page-fault handler, since no mapping of
  \<^verbatim>\<open>mmap\<close> exists yet. \<open>map\<close> of \<^verbatim>\<open>vmm.cc\<close> puts a frame of \<open>PhysMem::alloc\<close>, which is zeroed, behind
  a page.
\<close>

section \<open>The file's structures\<close>

definition sizeof_ElfHeader :: nat where "sizeof_ElfHeader = 64"
definition entry :: "bytes \<Rightarrow> u64" where "entry hdr = u64_at 24 hdr"
definition phoff :: "bytes \<Rightarrow> u64" where "phoff hdr = u64_at 32 hdr"
definition phentsize :: "bytes \<Rightarrow> u16" where "phentsize hdr = u16_at 54 hdr"
definition phnum :: "bytes \<Rightarrow> u16" where "phnum hdr = u16_at 56 hdr"

definition sizeof_ProgramHeader :: nat where "sizeof_ProgramHeader = 56"
definition ph_type :: "bytes \<Rightarrow> u32" where "ph_type phdr = u32_at 0 phdr"
definition ph_offset :: "bytes \<Rightarrow> u64" where "ph_offset phdr = u64_at 8 phdr"
definition ph_vaddr :: "bytes \<Rightarrow> u64" where "ph_vaddr phdr = u64_at 16 phdr"
definition ph_filesz :: "bytes \<Rightarrow> u64" where "ph_filesz phdr = u64_at 32 phdr"
definition ph_memsz :: "bytes \<Rightarrow> u64" where "ph_memsz phdr = u64_at 40 phdr"

section \<open>Address spaces\<close>

record space =
  present :: "u64 \<Rightarrow> bool"
  byte_at :: "u64 \<Rightarrow> u8"

definition vpn_of :: "u64 \<Rightarrow> u64" where "vpn_of va = drop_bit 12 va"

definition check_canonical :: "u64 \<Rightarrow> u64 outcome" where
  "check_canonical va =
     bind_outcome (assert_that (signed_drop_bit 16 (push_bit 16 va) = va) ''((sa << 16) >> 16) == sa'') (\<lambda>_. Inr va)"

definition map_page :: "u64 \<Rightarrow> space \<Rightarrow> space" where
  "map_page vpn m = m\<lparr>present := (present m)(vpn := True),
     byte_at := (\<lambda>a. if vpn_of a = vpn then 0 else byte_at m a)\<rparr>"

text \<open>The loop of \<open>map_range\<close>, with the pages that are left.\<close>

fun map_pages :: "nat \<Rightarrow> u64 \<Rightarrow> space \<Rightarrow> space outcome" where
  "map_pages 0 va m = Inr m"
| "map_pages (Suc n) va m =
     bind_outcome (check_canonical va) (\<lambda>va. map_pages n (va + 4096) (map_page (vpn_of va) m))"

definition map_range :: "u64 \<Rightarrow> u64 \<Rightarrow> space \<Rightarrow> space outcome" where
  "map_range start len m =
     bind_outcome (check_canonical start) (\<lambda>start. map_pages ((unat len + 4095) div 4096) start m)"

definition store_byte :: "u64 \<Rightarrow> u8 \<Rightarrow> space \<Rightarrow> space outcome" where
  "store_byte a x m =
     (if present m (vpn_of a) then Inr (m\<lparr>byte_at := (byte_at m)(a := x)\<rparr>) else Inl (Panic ''Page fault at ?''))"

fun store_bytes :: "u64 \<Rightarrow> bytes \<Rightarrow> space \<Rightarrow> space outcome" where
  "store_bytes a [] m = Inr m"
| "store_bytes a (x # xs) m = bind_outcome (store_byte a x m) (store_bytes (a + 1) xs)"

section \<open>The loader\<close>

definition USER_STACK_TOP :: u64 where "USER_STACK_TOP = 0x7ffffff0000"
definition USER_STACK_SIZE :: u64 where "USER_STACK_SIZE = 64 * 1024"

definition align_down :: "u64 \<Rightarrow> u64" where "align_down value = value AND NOT (4096 - 1)"
definition align_up :: "u64 \<Rightarrow> u64" where "align_up value = (value + 4096 - 1) AND NOT (4096 - 1)"

definition zero_user_range :: "u64 \<Rightarrow> u64 \<Rightarrow> space \<Rightarrow> space outcome" where
  "zero_user_range start len m = store_bytes start (replicate (unat len) 0) m"

definition map_user_range :: "u64 \<Rightarrow> u64 \<Rightarrow> space \<Rightarrow> space outcome" where
  "map_user_range start len m =
     (if len = 0 then Inr m
      else let map_start = align_down start; map_end = align_up (start + len)
           in map_range map_start (map_end - map_start) m)"

definition copy_to_user :: "u64 \<Rightarrow> bytes \<Rightarrow> space \<Rightarrow> space outcome" where
  "copy_to_user dest src m = store_bytes dest src m"

fun find_program_headers_loop :: "block_io \<Rightarrow> bytes \<Rightarrow> u64 \<Rightarrow> nat \<Rightarrow> u64 outcome" where
  "find_program_headers_loop file hdr hoff 0 = Inr 0"
| "find_program_headers_loop file hdr hoff (Suc n) =
     bind_outcome (read_thing file (ucast hoff) sizeof_ProgramHeader) (\<lambda>phdr.
       if ph_type phdr \<noteq> 1 then find_program_headers_loop file hdr (hoff + ucast (phentsize hdr)) n
       else if phoff hdr \<ge> ph_offset phdr \<and> phoff hdr < ph_offset phdr + ph_filesz phdr
       then Inr (ph_vaddr phdr + (phoff hdr - ph_offset phdr))
       else find_program_headers_loop file hdr (hoff + ucast (phentsize hdr)) n)"

definition find_program_headers_va :: "block_io \<Rightarrow> bytes \<Rightarrow> u64 outcome" where
  "find_program_headers_va file hdr = find_program_headers_loop file hdr (phoff hdr) (unat (phnum hdr))"

definition arg0 :: bytes where "arg0 = [0x69, 0x6E, 0x69, 0x74, 0]"

definition push_u64 :: "u64 \<times> space \<Rightarrow> u64 \<Rightarrow> (u64 \<times> space) outcome" where
  "push_u64 st value =
     (let cursor = fst st - 8
      in bind_outcome (store_bytes cursor (le_bytes 8 (unat value)) (snd st)) (\<lambda>m. Inr (cursor, m)))"

fun push_all :: "u64 list \<Rightarrow> u64 \<times> space \<Rightarrow> (u64 \<times> space) outcome" where
  "push_all [] st = Inr st"
| "push_all (v # vs) st = bind_outcome (push_u64 st v) (push_all vs)"

definition auxv :: "bytes \<Rightarrow> u64 \<Rightarrow> u64 \<Rightarrow> u64 \<Rightarrow> (u64 \<times> u64) list" where
  "auxv hdr phdr_va entry_point random_addr =
     [(3, phdr_va), (4, ucast (phentsize hdr)), (5, ucast (phnum hdr)), (6, 4096), (7, 0), (9, entry_point),
      (11, 0), (12, 0), (13, 0), (14, 0), (23, 0), (25, random_addr), (0, 0)]"

definition build_initial_stack :: "block_io \<Rightarrow> bytes \<Rightarrow> u64 \<Rightarrow> space \<Rightarrow> (u64 \<times> space) outcome" where
  "build_initial_stack file hdr entry_point m =
     (let arg0_addr = USER_STACK_TOP - word_of_nat (length arg0)
      in bind_outcome (copy_to_user arg0_addr arg0 m) (\<lambda>m1.
         let random_addr = arg0_addr - 16
         in bind_outcome (zero_user_range random_addr 16 m1) (\<lambda>m2.
            let cursor = random_addr AND NOT 0xF
            in bind_outcome (find_program_headers_va file hdr) (\<lambda>phdr_va.
               push_all
                 (concat (map (\<lambda>(tag, value). [value, tag]) (rev (auxv hdr phdr_va entry_point random_addr))) @
                  [0, 0, arg0_addr, 1])
                 (cursor, m2)))))"

record process =
  p_space :: space
  p_brk :: u64
  p_min_brk :: u64

definition load_segment :: "block_io \<Rightarrow> bytes \<Rightarrow> process \<Rightarrow> process outcome" where
  "load_segment file phdr p =
     (let va = ph_vaddr phdr; memsz = ph_memsz phdr; filesz = ph_filesz phdr
      in bind_outcome (assert_that (memsz \<ge> filesz) ''memsz >= filesz'') (\<lambda>_.
         bind_outcome (map_user_range va memsz (p_space p)) (\<lambda>m1.
         bind_outcome (zero_user_range va memsz m1) (\<lambda>m2.
         bind_outcome
           (if filesz \<noteq> 0 then
              bind_outcome (BlockIO_read_all file (ucast (ph_offset phdr)) (ucast filesz)) (\<lambda>(n, bs).
              bind_outcome (store_bytes va bs m2) (\<lambda>m3.
              bind_outcome (assert_that (n = sint filesz) ''n == int64_t(filesz)'') (\<lambda>_. Inr m3)))
            else Inr m2) (\<lambda>m3.
           let end_addr = va + memsz
           in Inr (p\<lparr>p_space := m3, p_brk := (if end_addr > p_brk p then end_addr else p_brk p)\<rparr>))))))"

fun load_loop :: "block_io \<Rightarrow> bytes \<Rightarrow> u32 \<Rightarrow> nat \<Rightarrow> process \<Rightarrow> process outcome" where
  "load_loop file hdr hoff 0 p = Inr p"
| "load_loop file hdr hoff (Suc n) p =
     bind_outcome (read_thing file hoff sizeof_ProgramHeader) (\<lambda>phdr.
     bind_outcome (if ph_type phdr = 1 then load_segment file phdr p else Inr p) (\<lambda>p1.
       load_loop file hdr (hoff + ucast (phentsize hdr)) n p1))"

definition ELF_load :: "block_io \<Rightarrow> process \<Rightarrow> (u64 \<times> process) outcome" where
  "ELF_load file p =
     bind_outcome (read_thing file 0 sizeof_ElfHeader) (\<lambda>hdr.
     bind_outcome (load_loop file hdr (ucast (phoff hdr)) (unat (phnum hdr)) p) (\<lambda>p1.
     let stack_base = USER_STACK_TOP - USER_STACK_SIZE
     in bind_outcome (map_user_range stack_base USER_STACK_SIZE (p_space p1)) (\<lambda>m1.
        bind_outcome (zero_user_range stack_base USER_STACK_SIZE m1) (\<lambda>m2.
          Inr (entry hdr, p1\<lparr>p_min_brk := p_brk p1, p_space := m2\<rparr>)))))"

text \<open>Up to the switch to user mode: the entry point, the stack pointer and the process.\<close>

definition ELF_exec :: "block_io \<Rightarrow> process \<Rightarrow> (u64 \<times> u64 \<times> process) outcome" where
  "ELF_exec file p =
     bind_outcome (read_thing file 0 sizeof_ElfHeader) (\<lambda>hdr.
     bind_outcome (ELF_load file p) (\<lambda>(entry_point, p1).
     bind_outcome (build_initial_stack file hdr entry_point (p_space p1)) (\<lambda>(rsp, m).
       Inr (entry_point, rsp, p1\<lparr>p_space := m\<rparr>))))"

section \<open>Stores and mappings\<close>

definition span :: "u64 \<Rightarrow> nat \<Rightarrow> u64 set" where
  "span a n = {x. unat a \<le> unat x \<and> unat x < unat a + n}"

definition page_span :: "u64 \<Rightarrow> nat \<Rightarrow> nat set" where
  "page_span a n = (if n = 0 then {} else {unat a div 4096..<(unat a + n + 4095) div 4096})"

definition fill :: "u64 \<Rightarrow> bytes \<Rightarrow> space \<Rightarrow> space" where
  "fill a bs m = m\<lparr>byte_at := (\<lambda>x. if x \<in> span a (length bs) then bs ! (unat x - unat a) else byte_at m x)\<rparr>"

definition map_span :: "nat set \<Rightarrow> space \<Rightarrow> space" where
  "map_span P m = m\<lparr>present := (\<lambda>v. present m v \<or> unat v \<in> P),
     byte_at := (\<lambda>x. if unat (vpn_of x) \<in> P then 0 else byte_at m x)\<rparr>"

lemma unat_vpn: "unat (vpn_of x) = unat x div 4096"
  by (simp add: vpn_of_def drop_bit_eq_div unat_div)

lemma unat_vpn_of_page: "vpn_of x = vpn_of y \<longleftrightarrow> unat x div 4096 = unat y div 4096"
  by (simp add: word_unat_eq_iff unat_vpn)

lemma span_pages:
  assumes "x \<in> span a n"
  shows "unat (vpn_of x) \<in> page_span a n"
proof -
  have x: "unat a \<le> unat x" "unat x < unat a + n"
    using assms by (simp_all add: span_def)
  then have "unat a div 4096 \<le> unat x div 4096" "n \<noteq> 0"
    by (auto intro: div_le_mono)
  moreover have "unat x div 4096 < (unat a + n + 4095) div 4096"
  proof -
    have "(unat x + 4096) div 4096 \<le> (unat a + n + 4095) div 4096"
      using x(2) by (intro div_le_mono) simp
    then show ?thesis
      by simp
  qed
  ultimately show ?thesis
    by (simp add: page_span_def unat_vpn)
qed

lemma store_bytes_fill:
  assumes "unat a + length bs \<le> 2 ^ 64" and "\<forall>x \<in> span a (length bs). present m (vpn_of x)"
  shows "store_bytes a bs m = Inr (fill a bs m)"
  using assms
proof (induction bs arbitrary: a m)
  case Nil
  have "span a 0 = {}"
    by (auto simp: span_def)
  then show ?case
    by (simp add: fill_def)
next
  case (Cons b bs)
  define m1 where "m1 = m\<lparr>byte_at := (byte_at m)(a := b)\<rparr>"
  have "a \<in> span a (length (b # bs))"
    by (simp add: span_def)
  then have st: "store_byte a b m = Inr m1"
    using Cons.prems(2) by (simp add: store_byte_def m1_def)
  show ?case
  proof (cases "bs = []")
    case True
    have "x \<in> span a 1 \<longleftrightarrow> x = a" for x
      by (auto simp: span_def word_unat_eq_iff)
    then have "fill a [b] m = m1"
      by (auto simp: fill_def m1_def fun_eq_iff)
    with st True show ?thesis
      by simp
  next
    case False
    then have a1: "unat (a + 1) = unat a + 1"
      using Cons.prems(1) by (cases bs) (simp_all add: unat_word_ariths)
    have "store_bytes (a + 1) bs m1 = Inr (fill (a + 1) bs m1)"
      using Cons.prems a1 by (intro Cons.IH) (auto simp: span_def m1_def)
    moreover have "fill (a + 1) bs m1 = fill a (b # bs) m"
    proof -
      have "(if x \<in> span (a + 1) (length bs) then bs ! (unat x - unat (a + 1)) else ((byte_at m)(a := b)) x) =
          (if x \<in> span a (length (b # bs)) then (b # bs) ! (unat x - unat a) else byte_at m x)" for x
        using a1 by (auto simp: span_def nth_Cons' word_unat_eq_iff)
      then have "byte_at (fill (a + 1) bs m1) x = byte_at (fill a (b # bs) m) x" for x
        by (simp add: fill_def m1_def cong: if_cong split del: if_split)
      then show ?thesis
        by (intro space.equality) (simp_all add: fill_def m1_def fun_eq_iff)
    qed
    ultimately show ?thesis
      using st by simp
  qed
qed

lemma canonical_low:
  assumes "unat va < 2 ^ 47"
  shows "check_canonical va = Inr va"
proof -
  have high: "\<not> bit va k" if "47 \<le> k" for k
    using bit_below [of va k 47] assms that by auto
  have "signed_drop_bit 16 (push_bit 16 va) = va"
  proof (rule bit_word_eqI)
    fix k
    assume k: "k < LENGTH(64)"
    show "bit (signed_drop_bit 16 (push_bit 16 va)) k = bit va k"
    proof (cases "48 \<le> k")
      case True
      then show ?thesis
        using k high [of 47] high [of k] by (simp add: bit_signed_drop_bit_iff bit_push_bit_iff)
    next
      case False
      then show ?thesis
        using k by (simp add: bit_signed_drop_bit_iff bit_push_bit_iff)
    qed
  qed
  then show ?thesis
    by (simp add: check_canonical_def)
qed

lemma map_pages_span:
  assumes "unat va mod 4096 = 0" and "unat va + 4096 * n \<le> 2 ^ 47"
  shows "map_pages n va m = Inr (map_span {unat va div 4096..<unat va div 4096 + n} m)"
  using assms
proof (induction n arbitrary: va m)
  case 0
  then show ?case
    by (simp add: map_span_def)
next
  case (Suc n)
  have va: "unat (va + 4096) = unat va + 4096"
    using Suc.prems(2) by (simp add: unat_word_ariths)
  have "check_canonical va = Inr va"
    using Suc.prems(2) by (intro canonical_low) simp
  moreover have "map_pages n (va + 4096) (map_page (vpn_of va) m) =
      Inr (map_span {unat (va + 4096) div 4096..<unat (va + 4096) div 4096 + n} (map_page (vpn_of va) m))"
    using Suc.prems va by (intro Suc.IH) simp_all
  moreover have "map_span {unat (va + 4096) div 4096..<unat (va + 4096) div 4096 + n} (map_page (vpn_of va) m) =
      map_span {unat va div 4096..<unat va div 4096 + Suc n} m"
  proof -
    have d: "unat (va + 4096) div 4096 = unat va div 4096 + 1"
      using va by simp
    show ?thesis
      unfolding d
      by (intro space.equality) (auto simp: map_span_def map_page_def fun_eq_iff word_unat_eq_iff unat_vpn)
  qed
  ultimately show ?case
    by simp
qed

lemma align_down_unat: "unat (align_down v) = unat v div 4096 * 4096"
  by (simp only: align_down_def and_not_page)

lemma align_up_unat: "unat v + 4095 < 2 ^ 64 \<Longrightarrow> unat (align_up v) = (unat v + 4095) div 4096 * 4096"
proof -
  assume "unat v + 4095 < 2 ^ 64"
  moreover have "v + 4096 - 1 = v + 4095"
    by simp
  ultimately have "unat (v + 4096 - 1) = unat v + 4095"
    by (simp add: unat_word_ariths)
  then show ?thesis
    unfolding align_up_def and_not_page by simp
qed

lemma map_user_range_span:
  assumes "unat a + unat n \<le> 2 ^ 47"
  shows "map_user_range a n m = Inr (map_span (page_span a (unat n)) m)"
proof (cases "n = 0")
  case True
  then show ?thesis
    by (simp add: map_user_range_def map_span_def page_span_def)
next
  case False
  define s where "s = unat a div 4096"
  define e where "e = (unat a + unat n + 4095) div 4096"
  have an: "unat (a + n) = unat a + unat n"
    using assms by (simp add: unat_word_ariths)
  have se: "s \<le> e" "4096 * e \<le> 2 ^ 47"
    using assms unfolding s_def e_def by (auto intro: div_le_mono)
  have d: "unat (align_down a) = 4096 * s" and u: "unat (align_up (a + n)) = 4096 * e"
    using assms an align_up_unat [of "a + n"] by (simp_all add: align_down_unat s_def e_def)
  then have len: "unat (align_up (a + n) - align_down a) = 4096 * (e - s)"
    using se(1) by (simp add: unat_sub word_le_nat_alt diff_mult_distrib2)
  then have pages: "(unat (align_up (a + n) - align_down a) + 4095) div 4096 = e - s"
    by simp
  have "check_canonical (align_down a) = Inr (align_down a)"
  proof (rule canonical_low)
    have "unat (align_down a) \<le> unat a" "0 < unat n"
      using False by (simp_all add: align_down_unat unat_gt_0)
    then show "unat (align_down a) < 2 ^ 47"
      using assms by linarith
  qed
  moreover have "map_pages (e - s) (align_down a) m =
      Inr (map_span {unat (align_down a) div 4096..<unat (align_down a) div 4096 + (e - s)} m)"
    using d se by (intro map_pages_span) (simp_all add: diff_mult_distrib2)
  moreover have "{unat (align_down a) div 4096..<unat (align_down a) div 4096 + (e - s)} = page_span a (unat n)"
    using d se(1) False by (simp add: page_span_def s_def e_def unat_eq_0)
  ultimately show ?thesis
    using False pages by (simp add: map_user_range_def map_range_def Let_def)
qed


section \<open>Segments\<close>

text \<open>What a loadable segment must hold in memory: its part of the file, then zeros.\<close>

definition segment_image :: "bytes \<Rightarrow> bytes \<Rightarrow> bytes" where
  "segment_image c h =
     segment (unat (ph_offset h)) (unat (ph_filesz h)) c @ replicate (unat (ph_memsz h) - unat (ph_filesz h)) 0"

definition seg_pages :: "bytes \<Rightarrow> nat set" where
  "seg_pages h = page_span (ph_vaddr h) (unat (ph_memsz h))"

text \<open>A segment within its file and within the lower half of the address space.\<close>

definition wf_segment :: "bytes \<Rightarrow> bytes \<Rightarrow> bool" where
  "wf_segment c h \<longleftrightarrow>
     ph_filesz h \<le> ph_memsz h \<and> unat (ph_vaddr h) + unat (ph_memsz h) \<le> 2 ^ 47 \<and>
     unat (ph_offset h) + unat (ph_filesz h) \<le> length c"

definition holds :: "space \<Rightarrow> u64 \<Rightarrow> bytes \<Rightarrow> bool" where
  "holds m a bs \<longleftrightarrow>
     (\<forall>x \<in> span a (length bs). present m (vpn_of x) \<and> byte_at m x = bs ! (unat x - unat a))"

lemma holds_fill:
  assumes "\<forall>x \<in> span a (length bs). present m (vpn_of x)"
  shows "holds (fill a bs m) a bs"
  using assms by (simp add: holds_def fill_def)

text \<open>The pages of one object may be mapped and filled without disturbing objects on other pages.\<close>

lemma holds_elsewhere:
  assumes "holds m a bs" and "page_span a (length bs) \<inter> P = {}"
  shows "holds (map_span P m) a bs"
  using assms span_pages [of _ a "length bs"] by (fastforce simp: holds_def map_span_def)

lemma holds_fill_elsewhere:
  assumes "holds m a bs" and "page_span a (length bs) \<inter> page_span b (length cs) = {}"
  shows "holds (fill b cs m) a bs"
  using assms span_pages [of _ a "length bs"] span_pages [of _ b "length cs"]
  by (fastforce simp: holds_def fill_def)

lemma present_map_span: "x \<in> span a n \<Longrightarrow> page_span a n \<subseteq> P \<Longrightarrow> present (map_span P m) (vpn_of x)"
  using span_pages [of x a n] by (auto simp: map_span_def)

lemma length_segment_image: "wf_segment c h \<Longrightarrow> length (segment_image c h) = unat (ph_memsz h)"
  by (auto simp: segment_image_def wf_segment_def word_le_nat_alt min_def)

lemma fill_over:
  assumes "length cs \<le> n"
  shows "fill a cs (fill a (replicate n 0) m) = fill a (cs @ replicate (n - length cs) 0) m"
proof (rule space.equality)
  have "byte_at (fill a cs (fill a (replicate n 0) m)) x = byte_at (fill a (cs @ replicate (n - length cs) 0) m) x" for x
    using assms by (auto simp: fill_def span_def nth_append)
  then show "byte_at (fill a cs (fill a (replicate n 0) m)) = byte_at (fill a (cs @ replicate (n - length cs) 0) m)"
    by blast
qed (simp_all add: fill_def)

lemma load_segment_ok:
  assumes ser: "serves file c" and wf: "wf_segment c h"
  shows "load_segment file h p = Inr (p\<lparr>p_space := fill (ph_vaddr h) (segment_image c h) (map_span (seg_pages h) (p_space p)),
    p_brk := max (p_brk p) (ph_vaddr h + ph_memsz h)\<rparr>)"
proof -
  let ?va = "ph_vaddr h" and ?mem = "ph_memsz h" and ?file = "ph_filesz h" and ?off = "ph_offset h"
  let ?m1 = "map_span (seg_pages h) (p_space p)"
  have W: "?file \<le> ?mem" "unat ?va + unat ?mem \<le> 2 ^ 47" "unat ?off + unat ?file \<le> length c"
    using wf by (simp_all add: wf_segment_def)
  have len: "length c < 2 ^ 32"
    using ser u32_bound [of "bio_size file"] by (auto simp: serves_def)
  have m1: "map_user_range ?va ?mem (p_space p) = Inr ?m1"
    using W(2) by (simp add: map_user_range_span seg_pages_def)
  have pres: "\<forall>x \<in> span ?va (unat ?mem). present ?m1 (vpn_of x)"
    by (simp add: present_map_span seg_pages_def)
  let ?m2 = "fill ?va (replicate (unat ?mem) 0) ?m1"
  have m2: "zero_user_range ?va ?mem ?m1 = Inr ?m2"
    using W(2) pres by (simp add: zero_user_range_def store_bytes_fill)
  let ?bs = "segment (unat ?off) (unat ?file) c"
  have lb: "length ?bs = unat ?file"
    using W(3) by simp
  have le: "unat ?file \<le> unat ?mem"
    using W(1) by (simp add: word_le_nat_alt)
  have pres2: "\<forall>x \<in> span ?va (length ?bs). present ?m2 (vpn_of x)"
    using pres le unfolding lb by (auto simp: fill_def span_def)
  have st: "store_bytes ?va ?bs ?m2 = Inr (fill ?va ?bs ?m2)"
    using W(2) le lb pres2 by (intro store_bytes_fill) simp_all
  have over: "fill ?va ?bs ?m2 = fill ?va (segment_image c h) ?m1"
    using fill_over [of ?bs "unat ?mem" ?va ?m1] le lb by (simp add: segment_image_def)
  have "unat (ucast ?off :: u32) = unat ?off" "unat (ucast ?file :: u32) = unat ?file"
    using W(3) len by (simp_all add: unsigned_ucast_eq take_bit_nat_eq_self)
  then have rd: "BlockIO_read_all file (ucast ?off) (ucast ?file) = Inr (int (unat ?file), ?bs)"
    using served.read_all_content [of "(file, c)" "ucast ?off" "ucast ?file"] ser W(3) by simp
  have "unat ?file < 2 ^ 63"
    using W(3) len by simp
  then have "int (unat ?file) < int (2 ^ 63)"
    by (simp only: of_nat_less_iff)
  then have "uint ?file < 2 ^ 63"
    by simp
  moreover have "- (2 ^ 63) \<le> uint ?file"
    by (rule order_trans [of _ 0]) simp_all
  ultimately have "sint ?file = uint ?file"
    by (simp add: sint_uint signed_take_bit_int_eq_self)
  then have loaded: "(if ?file \<noteq> 0 then
       bind_outcome (BlockIO_read_all file (ucast ?off) (ucast ?file)) (\<lambda>(n, bs).
       bind_outcome (store_bytes ?va bs ?m2) (\<lambda>m3.
       bind_outcome (assert_that (n = sint ?file) ''n == int64_t(filesz)'') (\<lambda>_. Inr m3)))
     else Inr ?m2) = Inr (fill ?va (segment_image c h) ?m1)"
    using rd st over by (cases "?file = 0") (simp_all add: segment_image_def segment_def)
  show ?thesis
    using W(1) unfolding load_segment_def Let_def
    by (simp only: m1 m2 loaded assert_that_simps bind_outcome_simps max_def not_le [symmetric]) auto
qed


section \<open>Programs\<close>

definition program_header :: "bytes \<Rightarrow> bytes \<Rightarrow> nat \<Rightarrow> bytes" where
  "program_header c hdr i = segment (unat (phoff hdr) + i * unat (phentsize hdr)) sizeof_ProgramHeader c"

definition load_headers :: "bytes \<Rightarrow> bytes \<Rightarrow> bytes list" where
  "load_headers c hdr = filter (\<lambda>h. ph_type h = 1) (map (program_header c hdr) [0..<unat (phnum hdr)])"

definition stack_base :: u64 where "stack_base = USER_STACK_TOP - USER_STACK_SIZE"

definition stack_pages :: "nat set" where "stack_pages = page_span stack_base (unat USER_STACK_SIZE)"

text \<open>
  A program whose headers and segments are inside the file and whose segments share no page with each
  other or with the stack.
\<close>

definition wf_program :: "bytes \<Rightarrow> bool" where
  "wf_program c \<longleftrightarrow>
     (let hdr = segment 0 sizeof_ElfHeader c; hs = load_headers c hdr
      in sizeof_ElfHeader \<le> length c \<and>
         (\<forall>i < unat (phnum hdr). unat (phoff hdr) + i * unat (phentsize hdr) + sizeof_ProgramHeader \<le> length c) \<and>
         (\<forall>h \<in> set hs. wf_segment c h \<and> seg_pages h \<inter> stack_pages = {}) \<and>
         sorted_wrt (\<lambda>h h'. seg_pages h \<inter> seg_pages h' = {}) hs)"

fun load_all :: "bytes \<Rightarrow> bytes list \<Rightarrow> process \<Rightarrow> process" where
  "load_all c [] p = p"
| "load_all c (h # hs) p =
     load_all c hs (p\<lparr>p_space := fill (ph_vaddr h) (segment_image c h) (map_span (seg_pages h) (p_space p)),
       p_brk := max (p_brk p) (ph_vaddr h + ph_memsz h)\<rparr>)"

lemma load_loop_ok:
  assumes ser: "serves file c"
    and fits: "\<forall>i < n. unat hoff + i * unat (phentsize hdr) + sizeof_ProgramHeader \<le> length c"
    and wf: "\<forall>i < n. ph_type (segment (unat hoff + i * unat (phentsize hdr)) sizeof_ProgramHeader c) = 1 \<longrightarrow>
      wf_segment c (segment (unat hoff + i * unat (phentsize hdr)) sizeof_ProgramHeader c)"
  shows "load_loop file hdr hoff n p = Inr (load_all c (filter (\<lambda>h. ph_type h = 1)
    (map (\<lambda>i. segment (unat hoff + i * unat (phentsize hdr)) sizeof_ProgramHeader c) [0..<n])) p)"
  using fits wf
proof (induction n arbitrary: hoff p)
  case 0
  then show ?case by simp
next
  case (Suc n)
  let ?e = "unat (phentsize hdr)" and ?h = "segment (unat hoff) sizeof_ProgramHeader c"
  have len: "length c < 2 ^ 32"
    using ser u32_bound [of "bio_size file"] by (auto simp: serves_def)
  have f0: "unat hoff + sizeof_ProgramHeader \<le> length c"
    using Suc.prems(1) by force
  have rd: "read_thing file hoff sizeof_ProgramHeader = Inr ?h"
    using served.read_thing_content [of "(file, c)" hoff sizeof_ProgramHeader] ser f0
    by (simp add: sizeof_ProgramHeader_def)
  define p1 where "p1 = (if ph_type ?h = 1
    then p\<lparr>p_space := fill (ph_vaddr ?h) (segment_image c ?h) (map_span (seg_pages ?h) (p_space p)),
       p_brk := max (p_brk p) (ph_vaddr ?h + ph_memsz ?h)\<rparr> else p)"
  have "ph_type ?h = 1 \<longrightarrow> wf_segment c ?h"
    using Suc.prems(2) by force
  then have step: "(if ph_type ?h = 1 then load_segment file ?h p else Inr p) = Inr p1"
    using load_segment_ok [OF ser, of ?h p] by (simp add: p1_def)
  have "[0..<Suc n] = 0 # map Suc [0..<n]"
    by (simp add: upt_conv_Cons map_Suc_upt del: upt_Suc)
  then have list: "map (\<lambda>i. segment (unat hoff + i * ?e) sizeof_ProgramHeader c) [0..<Suc n] =
      ?h # map (\<lambda>i. segment (unat hoff + ?e + i * ?e) sizeof_ProgramHeader c) [0..<n]"
    by (simp add: algebra_simps del: upt_Suc)
  have tail: "load_loop file hdr (hoff + ucast (phentsize hdr)) n p1 =
      Inr (load_all c (filter (\<lambda>h. ph_type h = 1)
        (map (\<lambda>i. segment (unat hoff + ?e + i * ?e) sizeof_ProgramHeader c) [0..<n])) p1)"
  proof (cases "n = 0")
    case False
    then have "unat hoff + 1 * ?e + sizeof_ProgramHeader \<le> length c"
      using Suc.prems(1) [rule_format, of 1] by simp
    then have off: "unat (hoff + ucast (phentsize hdr)) = unat hoff + ?e"
      using len by (simp add: unat_word_ariths unat_ucast_up)
    have shift: "unat hoff + ?e + i * ?e = unat hoff + Suc i * ?e" for i
      by simp
    have "\<forall>i < n. unat hoff + ?e + i * ?e + sizeof_ProgramHeader \<le> length c"
      "\<forall>i < n. ph_type (segment (unat hoff + ?e + i * ?e) sizeof_ProgramHeader c) = 1 \<longrightarrow>
        wf_segment c (segment (unat hoff + ?e + i * ?e) sizeof_ProgramHeader c)"
      unfolding shift using Suc.prems(1) [rule_format, OF Suc_mono] Suc.prems(2) [rule_format, OF Suc_mono]
      by blast+
    then show ?thesis
      using Suc.IH [of "hoff + ucast (phentsize hdr)" p1] by (simp only: off)
  qed simp
  show ?case
    unfolding list using rd step tail by (simp add: p1_def)
qed

lemma load_all_keeps:
  assumes "holds (p_space p) a bs" and "\<forall>h \<in> set hs. wf_segment c h \<and> page_span a (length bs) \<inter> seg_pages h = {}"
  shows "holds (p_space (load_all c hs p)) a bs"
  using assms
proof (induction c hs p rule: load_all.induct)
  case (2 c h hs p)
  have wf: "wf_segment c h" and dis: "page_span a (length bs) \<inter> seg_pages h = {}"
    using 2(3) by simp_all
  have "holds (fill (ph_vaddr h) (segment_image c h) (map_span (seg_pages h) (p_space p))) a bs"
    using 2(2) dis length_segment_image [OF wf]
    by (intro holds_fill_elsewhere holds_elsewhere) (simp_all add: seg_pages_def)
  then show ?case
    using 2(1,3) by simp
qed simp

lemma load_all_holds:
  assumes "\<forall>h \<in> set hs. wf_segment c h" and "sorted_wrt (\<lambda>h h'. seg_pages h \<inter> seg_pages h' = {}) hs"
  shows "\<forall>h \<in> set hs. holds (p_space (load_all c hs p)) (ph_vaddr h) (segment_image c h)"
  using assms
proof (induction c hs p rule: load_all.induct)
  case (2 c h hs p)
  let ?p = "p\<lparr>p_space := fill (ph_vaddr h) (segment_image c h) (map_span (seg_pages h) (p_space p)),
       p_brk := max (p_brk p) (ph_vaddr h + ph_memsz h)\<rparr>"
  have wf: "wf_segment c h"
    using 2(2) by simp
  note len = length_segment_image [OF wf]
  have "holds (p_space ?p) (ph_vaddr h) (segment_image c h)"
    using len by (simp add: holds_fill present_map_span seg_pages_def)
  then have "holds (p_space (load_all c hs ?p)) (ph_vaddr h) (segment_image c h)"
    using 2(2,3) len by (intro load_all_keeps) (auto simp: seg_pages_def)
  then show ?case
    using 2 by simp
qed simp

lemma load_all_brk:
  "p_brk p \<le> p_brk (load_all c hs p) \<and> (\<forall>h \<in> set hs. ph_vaddr h + ph_memsz h \<le> p_brk (load_all c hs p))"
proof (induction c hs p rule: load_all.induct)
  case (2 c h hs p)
  then show ?case
    by (auto simp: max_def split: if_splits)
qed simp


lemma stack_span: "page_span stack_base (unat USER_STACK_SIZE) = stack_pages" "unat stack_base = 0x7fffffe0000"
  "unat USER_STACK_SIZE = 65536"
  by (simp_all add: stack_pages_def stack_base_def USER_STACK_TOP_def USER_STACK_SIZE_def)

text \<open>Loading a program: its segments, then the stack.\<close>

lemma ELF_load_ok:
  fixes c :: bytes
  defines "hdr \<equiv> segment 0 sizeof_ElfHeader c"
  assumes ser: "serves file c" and wf: "wf_program c"
  shows "\<exists>p1. p1 = load_all c (load_headers c hdr) p \<and> read_thing file 0 sizeof_ElfHeader = Inr hdr \<and>
    ELF_load file p = Inr (entry hdr, p1\<lparr>p_min_brk := p_brk p1,
      p_space := fill stack_base (replicate 65536 0) (map_span stack_pages (p_space p1))\<rparr>)"
proof -
  let ?p1 = "load_all c (load_headers c hdr) p"
  have W: "sizeof_ElfHeader \<le> length c"
    "\<forall>i < unat (phnum hdr). unat (phoff hdr) + i * unat (phentsize hdr) + sizeof_ProgramHeader \<le> length c"
    "\<forall>h \<in> set (load_headers c hdr). wf_segment c h"
    using wf by (simp_all add: wf_program_def Let_def hdr_def)
  have len: "length c < 2 ^ 32"
    using ser u32_bound [of "bio_size file"] by (auto simp: serves_def)
  have rd: "read_thing file 0 sizeof_ElfHeader = Inr hdr"
    using served.read_thing_content [of "(file, c)" 0 sizeof_ElfHeader] ser W(1)
    by (simp add: sizeof_ElfHeader_def hdr_def)
  have loop: "load_loop file hdr (ucast (phoff hdr)) (unat (phnum hdr)) p = Inr ?p1"
  proof (cases "phnum hdr = 0")
    case True
    then show ?thesis
      by (simp add: load_headers_def)
  next
    case False
    then have "0 < unat (phnum hdr)"
      by (simp add: unat_gt_0)
    then have "unat (phoff hdr) < 2 ^ 32"
      using W(2) len by fastforce
    then have off: "unat (ucast (phoff hdr) :: u32) = unat (phoff hdr)"
      by (simp add: unsigned_ucast_eq take_bit_nat_eq_self)
    have "ph_type (program_header c hdr i) = 1 \<longrightarrow> wf_segment c (program_header c hdr i)" if "i < unat (phnum hdr)" for i
      using W(3) that by (simp add: load_headers_def)
    then show ?thesis
      using load_loop_ok [OF ser, of "unat (phnum hdr)" "ucast (phoff hdr)" hdr p] W(2)
      by (simp add: off load_headers_def program_header_def [abs_def])
  qed
  let ?m1 = "map_span stack_pages (p_space ?p1)"
  have map: "map_user_range stack_base USER_STACK_SIZE (p_space ?p1) = Inr ?m1"
    using map_user_range_span [of stack_base USER_STACK_SIZE] stack_span by simp
  have "zero_user_range stack_base USER_STACK_SIZE ?m1 = Inr (fill stack_base (replicate 65536 0) ?m1)"
    unfolding zero_user_range_def stack_span
    by (rule store_bytes_fill) (use stack_span in \<open>simp_all add: present_map_span\<close>)
  then show ?thesis
    using rd loop map unfolding ELF_load_def Let_def stack_base_def [symmetric] by simp
qed

section \<open>The initial stack\<close>

lemma fill_fill:
  assumes "unat b + length ys + length xs \<le> 2 ^ 64" and "unat a = unat b + length ys"
  shows "fill b ys (fill a xs m) = fill b (ys @ xs) m"
proof (rule space.equality)
  have "byte_at (fill b ys (fill a xs m)) x = byte_at (fill b (ys @ xs) m) x" for x
    using assms by (auto simp: fill_def span_def nth_append)
  then show "byte_at (fill b ys (fill a xs m)) = byte_at (fill b (ys @ xs) m)"
    by blast
qed (simp_all add: fill_def)

definition words8 :: "u64 list \<Rightarrow> bytes" where "words8 vs = concat (map (\<lambda>v. le_bytes 8 (unat v)) vs)"

lemma length_words8 [simp]: "length (words8 vs) = 8 * length vs"
  by (induction vs) (simp_all add: words8_def)

lemma words8_append: "words8 (vs @ ws) = words8 vs @ words8 ws"
  by (simp add: words8_def)

text \<open>Pushing values leaves them in memory in reverse order.\<close>

lemma push_all_fill:
  assumes "8 * length vs \<le> unat c"
    and "\<forall>x. unat c - 8 * length vs \<le> unat x \<and> unat x < unat c \<longrightarrow> present m (vpn_of x)"
  shows "\<exists>c'. unat c' = unat c - 8 * length vs \<and> push_all vs (c, m) = Inr (c', fill c' (words8 (rev vs)) m)"
  using assms
proof (induction vs arbitrary: c m)
  case Nil
  have "span c 0 = {}"
    by (auto simp: span_def)
  then show ?case
    by (simp add: words8_def fill_def)
next
  case (Cons v vs)
  let ?bs = "le_bytes 8 (unat v)" and ?m1 = "fill (c - 8) (le_bytes 8 (unat v)) m"
  have c8: "unat (c - 8) = unat c - 8"
    using Cons.prems(1) by (simp add: unat_sub word_le_nat_alt)
  have "store_bytes (c - 8) ?bs m = Inr ?m1"
    using Cons.prems c8 unsigned_less [of c, where 'a = nat]
    by (intro store_bytes_fill) (auto simp: span_def)
  then have push: "push_u64 (c, m) v = Inr (c - 8, ?m1)"
    by (simp add: push_u64_def Let_def)
  have "8 * length vs \<le> unat (c - 8)"
    "\<forall>x. unat (c - 8) - 8 * length vs \<le> unat x \<and> unat x < unat (c - 8) \<longrightarrow> present ?m1 (vpn_of x)"
    using Cons.prems c8 by (auto simp: fill_def)
  from Cons.IH [OF this] obtain c' where c': "unat c' = unat (c - 8) - 8 * length vs"
    "push_all vs (c - 8, ?m1) = Inr (c', fill c' (words8 (rev vs)) ?m1)"
    by blast
  have "fill c' (words8 (rev vs)) ?m1 = fill c' (words8 (rev vs) @ ?bs) m"
    using c' c8 Cons.prems(1) unsigned_less [of c, where 'a = nat] by (intro fill_fill) simp_all
  moreover have "words8 (rev vs) @ ?bs = words8 (rev (v # vs))"
    by (simp add: words8_append) (simp add: words8_def)
  ultimately show ?case
    using push c' c8 Cons.prems(1) by (intro exI [of _ c']) simp
qed


text \<open>Where the program finds its own program headers in memory.\<close>

definition headers_va :: "bytes \<Rightarrow> bytes list \<Rightarrow> u64" where
  "headers_va hdr hs =
     (case find (\<lambda>h. ph_type h = 1 \<and> ph_offset h \<le> phoff hdr \<and> phoff hdr < ph_offset h + ph_filesz h) hs of
        None \<Rightarrow> 0
      | Some h \<Rightarrow> ph_vaddr h + (phoff hdr - ph_offset h))"

lemma find_program_headers_loop_ok:
  assumes ser: "serves file c"
    and fits: "\<forall>i < n. unat hoff + i * unat (phentsize hdr) + sizeof_ProgramHeader \<le> length c"
  shows "find_program_headers_loop file hdr hoff n =
    Inr (headers_va hdr (map (\<lambda>i. segment (unat hoff + i * unat (phentsize hdr)) sizeof_ProgramHeader c) [0..<n]))"
  using fits
proof (induction n arbitrary: hoff)
  case 0
  then show ?case by (simp add: headers_va_def)
next
  case (Suc n)
  let ?e = "unat (phentsize hdr)" and ?h = "segment (unat hoff) sizeof_ProgramHeader c"
  have len: "length c < 2 ^ 32"
    using ser u32_bound [of "bio_size file"] by (auto simp: serves_def)
  have f0: "unat hoff + sizeof_ProgramHeader \<le> length c"
    using Suc.prems by force
  then have "unat (ucast hoff :: u32) = unat hoff"
    using len by (simp add: unsigned_ucast_eq take_bit_nat_eq_self)
  then have rd: "read_thing file (ucast hoff) sizeof_ProgramHeader = Inr ?h"
    using served.read_thing_content [of "(file, c)" "ucast hoff" sizeof_ProgramHeader] ser f0
    by (simp add: sizeof_ProgramHeader_def)
  have "[0..<Suc n] = 0 # map Suc [0..<n]"
    by (simp add: upt_conv_Cons map_Suc_upt del: upt_Suc)
  then have list: "map (\<lambda>i. segment (unat hoff + i * ?e) sizeof_ProgramHeader c) [0..<Suc n] =
      ?h # map (\<lambda>i. segment (unat hoff + ?e + i * ?e) sizeof_ProgramHeader c) [0..<n]"
    by (simp add: algebra_simps del: upt_Suc)
  have tail: "find_program_headers_loop file hdr (hoff + ucast (phentsize hdr)) n =
      Inr (headers_va hdr (map (\<lambda>i. segment (unat hoff + ?e + i * ?e) sizeof_ProgramHeader c) [0..<n]))"
  proof (cases "n = 0")
    case True
    then show ?thesis
      by (simp add: headers_va_def)
  next
    case False
    then have "unat hoff + 1 * ?e + sizeof_ProgramHeader \<le> length c"
      using Suc.prems [rule_format, of 1] by simp
    then have off: "unat (hoff + ucast (phentsize hdr)) = unat hoff + ?e"
      using len by (simp add: unat_word_ariths unat_ucast_up)
    have shift: "unat hoff + ?e + i * ?e = unat hoff + Suc i * ?e" for i
      by simp
    have "\<forall>i < n. unat hoff + ?e + i * ?e + sizeof_ProgramHeader \<le> length c"
      unfolding shift using Suc.prems [rule_format, OF Suc_mono] by blast
    then show ?thesis
      using Suc.IH [of "hoff + ucast (phentsize hdr)"] by (simp only: off)
  qed
  show ?case
    unfolding list using rd tail by (simp add: headers_va_def)
qed

definition initial_words :: "bytes \<Rightarrow> u64 \<Rightarrow> u64 list" where
  "initial_words hdr phdr_va =
     [1, 0x7fffffefffb, 0, 0] @ concat (map (\<lambda>(tag, value). [tag, value]) (auxv hdr phdr_va (entry hdr) 0x7fffffeffeb))"

lemma build_initial_stack_ok:
  assumes va: "find_program_headers_va file hdr = Inr phdr_va"
    and pres: "\<forall>x \<in> span stack_base 65536. present m (vpn_of x)"
  shows "build_initial_stack file hdr (entry hdr) m = Inr (0x7fffffefef0,
    fill 0x7fffffefef0 (words8 (initial_words hdr phdr_va))
      (fill 0x7fffffeffeb (replicate 16 0) (fill 0x7fffffefffb arg0 m)))"
proof -
  have in_stack: "present g (vpn_of x)" if "present g = present m" "0x7fffffe0000 \<le> unat x" "unat x < 0x7ffffff0000" for g x
    using pres that by (simp add: span_def stack_span)
  let ?m1 = "fill 0x7fffffefffb arg0 m"
  let ?m2 = "fill 0x7fffffeffeb (replicate 16 0) ?m1"
  have pm: "present ?m1 = present m" "present ?m2 = present m"
    by (simp_all add: fill_def)
  have a: "USER_STACK_TOP - word_of_nat (length arg0) = 0x7fffffefffb"
    by (simp add: USER_STACK_TOP_def arg0_def)
  have m1: "copy_to_user 0x7fffffefffb arg0 m = Inr ?m1"
    unfolding copy_to_user_def
    by (rule store_bytes_fill) (auto simp: arg0_def span_def intro!: in_stack)
  have m2: "zero_user_range 0x7fffffeffeb 16 ?m1 = Inr ?m2"
  proof -
    have "store_bytes 0x7fffffeffeb (replicate 16 0) ?m1 = Inr ?m2"
      by (rule store_bytes_fill) (auto simp: span_def intro!: in_stack pm)
    then show ?thesis
      by (simp add: zero_user_range_def)
  qed
  define vs where "vs = concat (map (\<lambda>(tag, value). [value, tag]) (rev (auxv hdr phdr_va (entry hdr) 0x7fffffeffeb))) @
    [0, 0, 0x7fffffefffb, 1]"
  have len: "length vs = 30"
    by (simp add: vs_def auxv_def)
  have rev: "rev vs = initial_words hdr phdr_va"
    by (simp add: vs_def auxv_def initial_words_def)
  have "\<exists>c'. unat c' = unat (0x7fffffeffe0 :: u64) - 8 * length vs \<and>
      push_all vs (0x7fffffeffe0, ?m2) = Inr (c', fill c' (words8 (rev vs)) ?m2)"
    by (rule push_all_fill) (auto simp: len intro!: in_stack pm)
  then obtain c' where c': "unat c' = 0x7fffffefef0"
    "push_all vs (0x7fffffeffe0, ?m2) = Inr (c', fill c' (words8 (initial_words hdr phdr_va)) ?m2)"
    unfolding len rev by auto
  have "c' = 0x7fffffefef0"
    using c'(1) by (simp add: word_unat_eq_iff)
  then show ?thesis
    using c'(2) m1 m2 va by (simp add: build_initial_stack_def Let_def a vs_def)
qed


section \<open>A small program\<close>

text \<open>
  An image of one segment that covers the header, the program header and four bytes of code, at
  \<^verbatim>\<open>0x400000\<close>, with four more bytes of memory.
\<close>

definition tiny_elf :: bytes where
  "tiny_elf =
     replicate 24 0 @ [0x78, 0, 0x40, 0, 0, 0, 0, 0] @ [64, 0, 0, 0, 0, 0, 0, 0] @ replicate 14 0 @ [56, 0, 1, 0] @ replicate 6 0 @
     [1, 0, 0, 0, 5, 0, 0, 0] @ replicate 8 0 @ [0, 0, 0x40, 0, 0, 0, 0, 0] @ replicate 8 0 @
     [124, 0, 0, 0, 0, 0, 0, 0] @ [128, 0, 0, 0, 0, 0, 0, 0] @ replicate 8 0 @
     [0x90, 0x90, 0xF4, 0xC3] @ replicate 388 0"

lemma length_tiny_elf: "length tiny_elf = 512"
  by (simp add: tiny_elf_def)

lemma tiny_elf_serves: "serves (RamDisk (disk tiny_elf)) tiny_elf"
  by (rule disk_serves) (simp_all add: length_tiny_elf)

lemma tiny_header:
  "entry (segment 0 64 tiny_elf) = 0x400078" "phoff (segment 0 64 tiny_elf) = 64"
  "phentsize (segment 0 64 tiny_elf) = 56" "phnum (segment 0 64 tiny_elf) = 1"
  by (simp_all add: entry_def phoff_def phentsize_def phnum_def u64_at_def u16_at_def tiny_elf_def segment_def)

lemma tiny_program_header:
  "ph_type (segment 64 56 tiny_elf) = 1" "ph_offset (segment 64 56 tiny_elf) = 0"
  "ph_vaddr (segment 64 56 tiny_elf) = 0x400000" "ph_filesz (segment 64 56 tiny_elf) = 124"
  "ph_memsz (segment 64 56 tiny_elf) = 128"
  by (simp_all add: ph_type_def ph_offset_def ph_vaddr_def ph_filesz_def ph_memsz_def u64_at_def u32_at_def
      tiny_elf_def segment_def)

lemmas tiny_facts = tiny_header tiny_program_header length_tiny_elf

lemma tiny_program: "program_header tiny_elf (segment 0 64 tiny_elf) 0 = segment 64 56 tiny_elf"
  "load_headers tiny_elf (segment 0 64 tiny_elf) = [segment 64 56 tiny_elf]"
  by (simp_all add: load_headers_def program_header_def tiny_facts sizeof_ProgramHeader_def)

lemma tiny_wf_segment: "wf_segment tiny_elf (segment 64 56 tiny_elf)"
  by (simp add: wf_segment_def tiny_facts word_le_nat_alt)

lemma tiny_wf_program: "wf_program tiny_elf"
  by (simp add: wf_program_def Let_def tiny_facts tiny_program tiny_wf_segment sizeof_ElfHeader_def
      sizeof_ProgramHeader_def seg_pages_def stack_pages_def page_span_def stack_span)

section \<open>Properties\<close>



text \<open>
  Loading a segment replaces every page it touches by a fresh one: what an earlier segment had put
  on a shared page, before the segment's first byte or after its last one, is lost.
\<close>

theorem segment_clobbers_page:
  assumes "serves file c" and "wf_segment c h" and "unat (vpn_of x) \<in> seg_pages h"
    and "x \<notin> span (ph_vaddr h) (unat (ph_memsz h))"
  shows "\<exists>p'. load_segment file h p = Inr p' \<and> present (p_space p') (vpn_of x) \<and> byte_at (p_space p') x = 0"
  using assms load_segment_ok [OF assms(1,2), of p]
  by (simp add: length_segment_image fill_def map_span_def)





theorem segment_clobbers_page_witness:
  "\<exists>p'. load_segment (RamDisk (disk tiny_elf)) (segment 64 56 tiny_elf)
       \<lparr>p_space = \<lparr>present = \<lambda>_. True, byte_at = \<lambda>_. 7\<rparr>, p_brk = 0, p_min_brk = 0\<rparr> = Inr p' \<and>
     byte_at (p_space p') 0x400FFF = 0"
proof -
  have "unat (vpn_of 0x400FFF) \<in> seg_pages (segment 64 56 tiny_elf)"
    by (simp add: seg_pages_def tiny_facts page_span_def unat_vpn)
  moreover have "0x400FFF \<notin> span (ph_vaddr (segment 64 56 tiny_elf)) (unat (ph_memsz (segment 64 56 tiny_elf)))"
    by (simp add: tiny_facts span_def)
  ultimately show ?thesis
    using segment_clobbers_page [OF tiny_elf_serves tiny_wf_segment, of "0x400FFF"
        "\<lparr>p_space = \<lparr>present = \<lambda>_. True, byte_at = \<lambda>_. 7\<rparr>, p_brk = 0, p_min_brk = 0\<rparr>"]
    by blast
qed

end
