(* ===== verification/Vmm.thy ===== *)
theory Vmm
  imports Vme Elf
begin

text \<open>
  The virtual memory manager, \<^verbatim>\<open>vmm.cc\<close>: mapping and unmapping regions, the page-fault handler, the
  address spaces of threads from their creation to their end, and the copy of one by \<^verbatim>\<open>fork\<close>. The state
  is that of one core running one thread: physical memory, the page-table root in use, the kernel's own
  root, the thread's private list of mappings and the shared one. Each lock is held for one access to
  one of these. The translation buffer is not modelled.
\<close>

section \<open>State\<close>

record vm =
  mem :: memory
  cr3 :: u64
  common_cr3 :: u64
  vmes :: "VME list"
  shared_vmes :: "VME list"
  shared_roots_ready :: u64
  active_vmm_threads :: u64

definition CONFIGURED_MAX_PA :: u64 where "CONFIGURED_MAX_PA = 128 * 1024 * 1024"
definition SHARED_LIMIT :: u64 where "SHARED_LIMIT = 0xFFFFFFFF80000000"

definition shared_base :: "vm \<Rightarrow> u64" where "shared_base s = hhdm_offset (mem s) + CONFIGURED_MAX_PA"

definition ppn_in_configured_phys :: "u64 \<Rightarrow> bool" where
  "ppn_in_configured_phys ppn \<longleftrightarrow> PA_of_PPN ppn < CONFIGURED_MAX_PA"

section \<open>Loops\<close>

fun for_each :: "(nat \<Rightarrow> memory \<Rightarrow> memory outcome) \<Rightarrow> nat list \<Rightarrow> memory \<Rightarrow> memory outcome" where
  "for_each f [] m = Inr m"
| "for_each f (i # is) m = bind_outcome (f i m) (for_each f is)"

text \<open>\<open>for (va = start; va < end; va += PAGE_SIZE)\<close>; \<open>None\<close> is a loop that does not end.\<close>

partial_function (option) page_loop ::
  "(u64 \<Rightarrow> memory \<Rightarrow> memory outcome) \<Rightarrow> u64 \<Rightarrow> u64 \<Rightarrow> memory \<Rightarrow> memory outcome option" where
  "page_loop f va end_addr m =
     (if va < end_addr then
        (case f va m of
           Inl e \<Rightarrow> Some (Inl e)
         | Inr m' \<Rightarrow> page_loop f (va + 4096) end_addr m')
      else Some (Inr m))"

section \<open>Mapping ranges\<close>

definition VPN_of :: "u64 \<Rightarrow> u64" where "VPN_of va = drop_bit 12 va"

definition VA_of_PA :: "u64 \<Rightarrow> memory \<Rightarrow> u64 outcome" where
  "VA_of_PA pa m = check_canonical (pa + hhdm_offset m)"

text \<open>The loop of \<open>map_range\<close>, on the page tables themselves.\<close>

fun vm_map_pages :: "nat \<Rightarrow> u64 \<Rightarrow> bool \<Rightarrow> bool \<Rightarrow> u64 \<Rightarrow> memory \<Rightarrow> memory outcome" where
  "vm_map_pages 0 va user write root m = Inr m"
| "vm_map_pages (Suc n) va user write root m =
     bind_outcome (check_canonical va) (\<lambda>va.
     bind_outcome (alloc_frame m) (\<lambda>(ppn, m1).
     bind_outcome (map_in_root root (VPN_of va) ppn user write m1) (\<lambda>m2.
       vm_map_pages n (va + 4096) user write root m2)))"

definition vm_map_range :: "u64 \<Rightarrow> u64 \<Rightarrow> bool \<Rightarrow> bool \<Rightarrow> u64 \<Rightarrow> memory \<Rightarrow> memory outcome" where
  "vm_map_range start len user write root m =
     bind_outcome (check_canonical start) (\<lambda>start.
       vm_map_pages ((unat len + 4095) div 4096) start user write root m)"

definition map_mmio :: "u64 \<Rightarrow> u64 \<Rightarrow> vm \<Rightarrow> (u64 \<times> vm) outcome option" where
  "map_mmio pa len s =
     (let len = (if len = 0 then 4096 else len);
          start = page_align_down pa;
          end_addr = page_align_up (pa + len);
          body = (\<lambda>cur m.
            bind_outcome (VA_of_PA cur m) (\<lambda>va.
            let ppn = PPN_of_PA cur
            in bind_outcome (map_in_root (common_cr3 s) (VPN_of va) ppn False True m) (\<lambda>m1.
               if cr3 s \<noteq> common_cr3 s then map_in_root (cr3 s) (VPN_of va) ppn False True m1 else Inr m1)))
      in map_option (\<lambda>r. bind_outcome r (\<lambda>m.
           bind_outcome (VA_of_PA pa m) (\<lambda>va. Inr (va, s\<lparr>mem := m\<rparr>))))
         (page_loop body start end_addr (mem s)))"

section \<open>Regions\<close>

definition MAP_SHARED :: u32 where "MAP_SHARED = 1"
definition MAP_ANONYMOUS :: u32 where "MAP_ANONYMOUS = 2"

definition mmap :: "u64 \<Rightarrow> u32 \<Rightarrow> Node option \<Rightarrow> u64 \<Rightarrow> vm \<Rightarrow> u64 \<times> vm" where
  "mmap len flags file offset s =
     (if len = 0 then (- 1, s)
      else if offset mod 4096 \<noteq> 0 then (- 1, s)
      else
        let len = page_align_up len;
            anonymous = (flags AND MAP_ANONYMOUS \<noteq> 0);
            shared = (flags AND MAP_SHARED \<noteq> 0)
        in if anonymous \<noteq> (file = None) then (- 1, s)
           else if shared then
             case insert_vme (shared_vmes s) (shared_base s) SHARED_LIMIT len file offset True of
               (r, vs) \<Rightarrow> (r, s\<lparr>shared_vmes := vs\<rparr>)
           else
             case insert_vme (vmes s) PRIVATE_BASE (hhdm_offset (mem s)) len file offset False of
               (r, vs) \<Rightarrow> (r, s\<lparr>vmes := vs\<rparr>))"

text \<open>One round of the loops that release the pages of a region.\<close>

definition unmap_page :: "u64 \<Rightarrow> u64 \<Rightarrow> memory \<Rightarrow> memory outcome" where
  "unmap_page root va m =
     (case find_pte_in_root root va m of
        None \<Rightarrow> Inr m
      | Some pte \<Rightarrow>
          if pte_value pte m AND PTE_PRESENT \<noteq> 0 then
            let raw_ppn = entry_ppn (pte_value pte m);
                m1 = set_entry (fst pte) (snd pte) 0 m
            in Inr (if raw_ppn \<noteq> 0 then free_frame raw_ppn m1 else m1)
          else Inr m)"

definition unmap_pages :: "u64 \<Rightarrow> u64 \<Rightarrow> u64 \<Rightarrow> memory \<Rightarrow> memory outcome option" where
  "unmap_pages root start end_addr m = page_loop (unmap_page root) start end_addr m"

text \<open>What remains of an entry when a range inside it is unmapped.\<close>

definition trim_vme :: "VME \<Rightarrow> u64 \<Rightarrow> u64 \<Rightarrow> VME list" where
  "trim_vme cur unmap_start unmap_end =
     (if unmap_start > vme_start cur \<and> unmap_end < vme_end cur then
        [cur\<lparr>vme_end := unmap_start\<rparr>,
         \<lparr>vme_start = unmap_end, vme_end = vme_end cur, vme_node = vme_node cur,
          vme_offset = vme_offset cur + (unmap_end - vme_start cur), vme_shared = False\<rparr>]
      else if unmap_start = vme_start cur \<and> unmap_end < vme_end cur then
        [cur\<lparr>vme_offset := vme_offset cur + (unmap_end - vme_start cur), vme_start := unmap_end\<rparr>]
      else if unmap_start > vme_start cur \<and> unmap_end = vme_end cur then
        [cur\<lparr>vme_end := unmap_start\<rparr>]
      else [])"

fun munmap_loop :: "u64 \<Rightarrow> u64 \<Rightarrow> u64 \<Rightarrow> VME list \<Rightarrow> memory \<Rightarrow> (VME list \<times> memory) outcome option" where
  "munmap_loop root start end_addr [] m = Some (Inr ([], m))"
| "munmap_loop root start end_addr (cur # rest) m =
     (if vme_end cur \<le> start \<or> vme_start cur \<ge> end_addr then
        map_option (\<lambda>r. bind_outcome r (\<lambda>(vs, m1). Inr (cur # vs, m1))) (munmap_loop root start end_addr rest m)
      else
        let unmap_start = (if vme_start cur > start then vme_start cur else start);
            unmap_end = (if vme_end cur < end_addr then vme_end cur else end_addr)
        in Option.bind (unmap_pages root unmap_start unmap_end m) (\<lambda>r.
             case r of
               Inl e \<Rightarrow> Some (Inl e)
             | Inr m1 \<Rightarrow>
                 map_option (\<lambda>r. bind_outcome r (\<lambda>(vs, m2). Inr (trim_vme cur unmap_start unmap_end @ vs, m2)))
                   (munmap_loop root start end_addr rest m1)))"

definition munmap :: "u64 \<Rightarrow> u64 \<Rightarrow> vm \<Rightarrow> (int \<times> vm) outcome option" where
  "munmap start len s =
     (if start mod 4096 \<noteq> 0 then Some (Inr (- 1, s))
      else if len = 0 then Some (Inr (- 1, s))
      else
        let len = page_align_up len; end_addr = start + len
        in if end_addr < start then Some (Inr (- 1, s))
           else if start < PRIVATE_BASE \<or> end_addr > hhdm_offset (mem s) then Some (Inr (- 1, s))
           else if start \<ge> shared_base s \<or> end_addr > shared_base s then Some (Inr (- 1, s))
           else
             map_option (\<lambda>r. bind_outcome r (\<lambda>(vs, m). Inr (0, s\<lparr>vmes := vs, mem := m\<rparr>)))
               (munmap_loop (cr3 s) start end_addr (vmes s) (mem s)))"

section \<open>Page faults\<close>

text \<open>The words a buffer of bytes makes of a frame, zeros behind its end.\<close>

definition frame_words :: "bytes \<Rightarrow> u64 list" where
  "frame_words bs = map (\<lambda>i. u64_at (8 * i) bs) [0..<512]"

definition load_page :: "VME \<Rightarrow> u64 \<Rightarrow> u64 \<Rightarrow> memory \<Rightarrow> memory outcome" where
  "load_page v va_page frame m =
     (let m0 = m\<lparr>ram := (ram m)(frame := replicate 512 0)\<rparr>
      in case vme_node v of
           None \<Rightarrow> Inr m0
         | Some node \<Rightarrow>
             let page_index = (va_page - vme_start v) div 4096;
                 file_offset = vme_offset v + page_index * 4096;
                 file_size = ucast (Node_size_in_bytes node)
             in if file_offset \<ge> file_size then Inr m0
                else
                  let bytes_to_read = (if file_offset + 4096 > file_size then file_size - file_offset else 4096)
                  in bind_outcome (BlockIO_read_all (Node_io node) (ucast file_offset) (ucast bytes_to_read)) (\<lambda>(cnt, bs).
                     bind_outcome (assert_that (cnt = sint bytes_to_read) ''cnt == int64_t(bytes_to_read)'') (\<lambda>_.
                       Inr (m0\<lparr>ram := (ram m0)(frame := frame_words bs)\<rparr>))))"

definition pte_present :: "(u64 \<times> nat) option \<Rightarrow> memory \<Rightarrow> bool" where
  "pte_present p m = (case p of None \<Rightarrow> False | Some pte \<Rightarrow> pte_value pte m AND PTE_PRESENT \<noteq> 0)"

definition private_fault :: "u64 \<Rightarrow> vm \<Rightarrow> vm outcome" where
  "private_fault va_page s =
     (case find_vme (vmes s) va_page of
        Some p \<Rightarrow>
          bind_outcome (alloc_frame (mem s)) (\<lambda>(frame, m1).
          bind_outcome (load_page p va_page frame m1) (\<lambda>m2.
          bind_outcome (check_canonical va_page) (\<lambda>va.
          bind_outcome (map_in_root (cr3 s) (VPN_of va) frame True True m2) (\<lambda>m3.
            Inr (s\<lparr>mem := m3\<rparr>)))))
      | None \<Rightarrow> Inl (Panic ''Page fault at ?, error code: ?, rip: ?''))"

text \<open>
  A fault on a shared page in its three steps: look the entry up and see whether the page is there
  already, load a frame outside the lock, then map it or, if another thread was faster, release it.
\<close>

definition shared_check :: "u64 \<Rightarrow> vm \<Rightarrow> VME option \<times> bool" where
  "shared_check va_page s =
     (case find_vme (shared_vmes s) va_page of
        None \<Rightarrow> (None, False)
      | Some v \<Rightarrow> (Some v, pte_present (find_pte_in_root (common_cr3 s) va_page (mem s)) (mem s)))"

definition shared_load :: "VME \<Rightarrow> u64 \<Rightarrow> vm \<Rightarrow> (u64 \<times> vm) outcome" where
  "shared_load v va_page s =
     bind_outcome (alloc_frame (mem s)) (\<lambda>(frame, m1).
     bind_outcome (load_page v va_page frame m1) (\<lambda>m2. Inr (frame, s\<lparr>mem := m2\<rparr>)))"

definition shared_publish :: "u64 \<Rightarrow> u64 \<Rightarrow> vm \<Rightarrow> vm outcome" where
  "shared_publish va_page frame s =
     (if pte_present (find_pte_in_root (common_cr3 s) va_page (mem s)) (mem s)
      then Inr (s\<lparr>mem := free_frame frame (mem s)\<rparr>)
      else
        bind_outcome (check_canonical va_page) (\<lambda>va.
        bind_outcome (map_in_root (common_cr3 s) (VPN_of va) frame True True (mem s)) (\<lambda>m.
          Inr (s\<lparr>mem := m\<rparr>))))"

definition pageFaultHandler :: "u64 \<Rightarrow> u64 \<Rightarrow> bool \<Rightarrow> vm \<Rightarrow> vm outcome" where
  "pageFaultHandler cr2 error_code disabled s =
     bind_outcome (assert_that (\<not> disabled) ''!is_disabled()'') (\<lambda>_.
     if error_code AND 1 \<noteq> 0 then Inl (Panic ''Page fault at ?, error code: ?, rip: ?'')
     else
       let va_page = page_align_down cr2
       in if va_page \<ge> shared_base s \<and> va_page < SHARED_LIMIT then
            case shared_check va_page s of
              (None, _) \<Rightarrow> private_fault va_page s
            | (Some v, True) \<Rightarrow> Inr s
            | (Some v, False) \<Rightarrow>
                bind_outcome (shared_load v va_page s) (\<lambda>(frame, s1). shared_publish va_page frame s1)
          else private_fault va_page s)"

section \<open>Address spaces\<close>

definition ensure_shared_roots :: "vm \<Rightarrow> vm outcome" where
  "ensure_shared_roots s =
     (if shared_roots_ready s \<noteq> 0 then Inr s
      else
        let root = PPN_of (drop_bit 12 (common_cr3 s));
            first_slot = unat (drop_bit 39 (shared_base s) AND 0x1FF);
            last_slot = unat (drop_bit 39 SHARED_LIMIT AND 0x1FF)
        in bind_outcome (assert_that (ram (mem s) root ! first_slot AND PTE_PRESENT \<noteq> 0) ''root[first_slot] & PTE_PRESENT'') (\<lambda>_.
           bind_outcome (for_each (\<lambda>slot m.
             if ram m root ! slot AND PTE_PRESENT \<noteq> 0 then Inr m
             else bind_outcome (alloc_frame m) (\<lambda>(child, m1). Inr (set_entry root slot (make_entry child True True) m1)))
             [first_slot + 1..<last_slot] (mem s)) (\<lambda>m.
           Inr (s\<lparr>mem := m, shared_roots_ready := 1\<rparr>))))"

definition init_system :: "vm \<Rightarrow> vm" where "init_system s = s\<lparr>common_cr3 := cr3 s\<rparr>"

definition init_thread :: "vm \<Rightarrow> vm outcome" where
  "init_thread s =
     bind_outcome (ensure_shared_roots s) (\<lambda>s1.
     bind_outcome (alloc_frame (mem s1)) (\<lambda>(new_cr3_ppn, m1).
     let old_table = ram m1 (PPN_of (drop_bit 12 (common_cr3 s1)));
         m2 = fold (\<lambda>i m. set_entry new_cr3_ppn i (old_table ! i) m) [256..<512] m1
     in Inr (s1\<lparr>mem := m2, cr3 := PA_of_PPN new_cr3_ppn, active_vmm_threads := active_vmm_threads s1 + 1\<rparr>)))"

fun free_table_tree :: "nat \<Rightarrow> u64 \<Rightarrow> memory \<Rightarrow> memory" where
  "free_table_tree 0 table m = m"
| "free_table_tree (Suc levels_below) table m =
     fold (\<lambda>i m.
       let e = ram m table ! i
       in if e AND PTE_PRESENT = 0 then m
          else if e AND PTE_HUGE \<noteq> 0 \<and> (Suc levels_below = 2 \<or> Suc levels_below = 1) then set_entry table i 0 m
          else
            let child = entry_ppn e
            in if child = 0 \<or> \<not> ppn_in_configured_phys child then set_entry table i 0 m
               else free_frame child (set_entry table i 0 (free_table_tree levels_below child m)))
       [0..<512] m"

definition free_private_page_tables :: "u64 \<Rightarrow> memory \<Rightarrow> memory" where
  "free_private_page_tables root m =
     (let table = PPN_of (drop_bit 12 root)
      in fold (\<lambda>i m.
           let e = ram m table ! i
           in if e AND PTE_PRESENT = 0 then m
              else
                let child = entry_ppn e
                in if child = 0 \<or> \<not> ppn_in_configured_phys child then set_entry table i 0 m
                   else free_frame child (set_entry table i 0 (free_table_tree 2 child m)))
           [0..<256] m)"

definition free_mapped_frames :: "u64 \<Rightarrow> VME \<Rightarrow> memory \<Rightarrow> memory outcome option" where
  "free_mapped_frames root v m = unmap_pages root (vme_start v) (vme_end v) m"

fun free_vmes :: "u64 \<Rightarrow> VME list \<Rightarrow> memory \<Rightarrow> memory outcome option" where
  "free_vmes root [] m = Some (Inr m)"
| "free_vmes root (p # next) m =
     Option.bind (free_mapped_frames root p m) (\<lambda>r.
       case r of Inl e \<Rightarrow> Some (Inl e) | Inr m1 \<Rightarrow> free_vmes root next m1)"

definition free_shared_vmes_only :: "vm \<Rightarrow> vm" where "free_shared_vmes_only s = s\<lparr>shared_vmes := []\<rparr>"

definition fini_thread :: "vm \<Rightarrow> vm outcome option" where
  "fini_thread s =
     map_option (\<lambda>r. bind_outcome r (\<lambda>m.
       let old = cr3 s;
           s1 = s\<lparr>mem := m, vmes := [], cr3 := common_cr3 s, active_vmm_threads := active_vmm_threads s - 1\<rparr>;
           s2 = (if active_vmm_threads s1 = 0 then free_shared_vmes_only s1 else s1)
       in Inr (s2\<lparr>mem := free_frame (PPN_of (drop_bit 12 old)) (free_private_page_tables old (mem s2))\<rparr>)))
     (free_vmes (cr3 s) (vmes s) (mem s))"

section \<open>Fork\<close>

definition clone_leaf :: "u64 \<Rightarrow> u64 \<Rightarrow> u64 \<Rightarrow> memory \<Rightarrow> memory outcome" where
  "clone_leaf root e vpn_bits m =
     (if e AND PTE_USER = 0 then Inr m
      else
        bind_outcome (alloc_frame m) (\<lambda>(dst_ppn, m1).
        let m2 = m1\<lparr>ram := (ram m1)(dst_ppn := ram m1 (entry_ppn e))\<rparr>
        in bind_outcome (check_canonical (push_bit 12 vpn_bits)) (\<lambda>va.
             map_in_root root (VPN_of va) dst_ppn True (e AND PTE_WRITE \<noteq> 0) m2)))"

fun clone_user_pages :: "u64 \<Rightarrow> nat \<Rightarrow> u64 \<Rightarrow> u64 \<Rightarrow> memory \<Rightarrow> memory outcome" where
  "clone_user_pages root 0 table base_vpn m =
     for_each (\<lambda>i m.
       let e = ram m table ! i
       in if e AND PTE_PRESENT = 0 then Inr m
          else clone_leaf root e (base_vpn OR word_of_nat i) m) [0..<512] m"
| "clone_user_pages root (Suc level) table base_vpn m =
     for_each (\<lambda>i m.
       let e = ram m table ! i
       in if e AND PTE_PRESENT = 0 then Inr m
          else if e AND PTE_HUGE \<noteq> 0 then Inl (Panic ''fork_from does not support huge pages ?'')
          else clone_user_pages root level (entry_ppn e) (base_vpn OR push_bit (Suc level * 9) (word_of_nat i)) m)
       [0..<512] m"

definition fork_from :: "u64 \<Rightarrow> vm \<Rightarrow> vm outcome" where
  "fork_from source_cr3 s =
     (let vs = clone_vme_list (vmes s); root = PPN_of (drop_bit 12 source_cr3)
      in bind_outcome (for_each (\<lambda>i m.
           let e = ram m root ! i
           in if e AND PTE_PRESENT = 0 then Inr m
              else clone_user_pages (cr3 s) 2 (entry_ppn e) (push_bit 27 (word_of_nat i)) m)
           [0..<256] (mem s)) (\<lambda>m. Inr (s\<lparr>vmes := vs, mem := m\<rparr>)))"

end
