(* ===== verification/Address_Space.thy ===== *)
theory Address_Space
  imports Page_Lookup
begin

text \<open>
  The lower half of an address space, which belongs to one process: every page there is a small one, has
  a frame of its own that neither holds a table nor is free. Mapping a fresh frame and unmapping a page
  keep this and change one page only; \<open>small_page\<close>, the leaf entry of a page, is the view the operations
  of the virtual memory manager refine.
\<close>

section \<open>Leaf entries of a tree\<close>

fun leaf :: "(u64 \<Rightarrow> u64 list) \<Rightarrow> nat \<Rightarrow> u64 \<Rightarrow> u64 \<Rightarrow> u64 option" where
  "leaf r 0 t v = (let e = r t ! table_index v 0 in if is_present e then Some e else None)"
| "leaf r (Suc level) t v =
     (let e = r t ! table_index v (Suc level)
      in if is_table (Suc level) e then leaf r level (frame_of e) v else None)"

lemma leaf_find_pte:
  "wf_tables (ram m) level t \<Longrightarrow> leaf (ram m) level t v = map_option (\<lambda>pte. pte_value pte m) (find_pte_loop level t v m)"
proof (induction level arbitrary: t)
  case (Suc level)
  then show ?case
    by (auto simp: find_pte_loop_Suc Let_def simp del: find_pte_loop.simps)
qed (simp add: Let_def is_present_def pte_value_def)

lemma leaf_local:
  "\<forall>f \<in> tables r level t. r' f = r f \<Longrightarrow> leaf r' level t v = leaf r level t v"
proof (induction level arbitrary: t)
  case (Suc level)
  have t: "r' t = r t"
    using Suc.prems by simp
  show ?case
  proof (cases "is_table (Suc level) (r t ! table_index v (Suc level))")
    case True
    then have "leaf r' level (frame_of (r t ! table_index v (Suc level))) v = leaf r level (frame_of (r t ! table_index v (Suc level))) v"
      using Suc.prems child_in_tables [of "table_index v (Suc level)" level r t] by (intro Suc.IH) auto
    then show ?thesis
      by (simp add: t Let_def)
  qed (simp add: t Let_def)
qed simp

lemma leaf_translate:
  "leaf r level t v = Some e \<Longrightarrow> \<exists>u w. translate r level t v = Some (frame_of e, u, w)"
  by (induction level arbitrary: t) (fastforce simp: Let_def is_table_def restrict_def split: if_splits)+

text \<open>One step of the mapping walk keeps the leaves there are.\<close>

lemma open_entry_leaf:
  assumes wf: "wf_tables (ram m) (Suc level) t" and inv: "phys_inv (phys m)"
    and fresh: "\<forall>f \<in> tables (ram m) (Suc level) t. unat f \<notin> set (pool m)" and i: "i < 512"
    and ok: "open_entry t i (Suc level) m = Inr m1" and le: "leaf (ram m) (Suc level) t v = Some e"
  shows "leaf (ram m1) (Suc level) t v = Some e"
proof (cases "is_table (Suc level) (ram m t ! i)")
  case True
  then have "m1 = m"
    using ok by (auto simp: open_entry_def is_table_def is_present_def is_large_def split: if_splits)
  with le show ?thesis
    by simp
next
  case False
  obtain used where O: "changes {t} used m m1" "\<And>j. j \<noteq> i \<Longrightarrow> ram m1 t ! j = ram m t ! j"
    by (rule open_entry_ok [OF wf inv fresh i ok]) (rule that)
  let ?j = "table_index v (Suc level)"
  have j: "is_table (Suc level) (ram m t ! ?j)" "leaf (ram m) level (frame_of (ram m t ! ?j)) v = Some e"
    using le by (simp_all add: Let_def split: if_splits)
  then have ne: "?j \<noteq> i"
    using False by auto
  have "ram m1 t ! ?j = ram m t ! ?j"
    by (rule O(2) [OF ne])
  moreover have "leaf (ram m1) level (frame_of (ram m t ! ?j)) v = leaf (ram m) level (frame_of (ram m t ! ?j)) v"
  proof (rule leaf_local, rule ballI)
    fix f
    assume f: "f \<in> tables (ram m) level (frame_of (ram m t ! ?j))"
    then have "f \<noteq> t" "f \<in> tables (ram m) (Suc level) t"
      using wf j(1) child_in_tables [of ?j level "ram m" t] by auto
    moreover have "set used \<subseteq> set (pool m)"
      using O(1) by (auto simp: changes_def)
    ultimately show "ram m1 f = ram m f"
      using O(1) fresh by (auto simp: changes_def)
  qed
  ultimately show ?thesis
    using j by (simp add: Let_def)
qed


lemma map_at_leaf:
  assumes "wf_tables (ram m) level t" and "phys_inv (phys m)"
    and "\<forall>f \<in> tables (ram m) level t. unat f \<notin> set (pool m)" and "unat ppn < 2 ^ 40"
    and "map_at level t vpn ppn user write m = Inr m'"
  shows "(same_page level v vpn \<longrightarrow> leaf (ram m') level t v = Some (make_entry ppn user write)) \<and>
    (\<forall>e. \<not> same_page level v vpn \<and> leaf (ram m) level t v = Some e \<longrightarrow> leaf (ram m') level t v = Some e)"
  using assms
proof (induction level arbitrary: t m)
  case 0
  then have "ram m' t = (ram m t)[table_index vpn 0 := make_entry ppn user write]"
    by (auto simp: set_entry_def)
  with 0 show ?case
    by (auto simp: same_page_def Let_def)
next
  case (Suc level)
  let ?i = "table_index vpn (Suc level)"
  from Suc.prems(5) obtain m1 where op: "open_entry t ?i (Suc level) m = Inr m1"
    and rec: "map_at level (entry_ppn (ram m1 t ! ?i)) vpn ppn user write m1 = Inr m'"
    by (auto simp: bind_outcome_Inr_iff)
  obtain us where O: "changes {t} us m m1" "wf_tables (ram m1) (Suc level) t"
    "tables (ram m1) (Suc level) t = tables (ram m) (Suc level) t \<union> {f. unat f \<in> set us}"
    "is_table (Suc level) (ram m1 t ! ?i)"
    by (rule open_entry_ok [OF Suc.prems(1,2,3) table_index_less op])
  let ?e = "ram m1 t ! ?i"
  let ?c = "frame_of ?e"
  have e: "entry_ppn ?e = ?c" "wf_tables (ram m1) level ?c" "t \<notin> tables (ram m1) level ?c"
    using O(2,4) by simp_all
  have inv1: "phys_inv (phys m1)" and pool1: "pool m = us @ pool m1"
    using O(1) by (simp_all add: changes_def)
  have dist: "distinct (pool m)"
    using Suc.prems(2) by (simp add: pool_def phys_inv_def)
  have sub: "tables (ram m1) level ?c \<subseteq> tables (ram m1) (Suc level) t"
    using O(4) by (intro child_in_tables) simp_all
  have fresh1: "\<forall>f \<in> tables (ram m1) (Suc level) t. unat f \<notin> set (pool m1)"
    using Suc.prems(3) dist unfolding O(3) pool1 by auto
  have freshc: "\<forall>f \<in> tables (ram m1) level ?c. unat f \<notin> set (pool m1)"
    using fresh1 sub by blast
  have rec': "map_at level ?c vpn ppn user write m1 = Inr m'"
    using rec e(1) by simp
  note IH = Suc.IH [OF e(2) inv1 freshc Suc.prems(4) rec']
  obtain us' where R: "changes (tables (ram m1) level ?c) us' m1 m'"
    using map_at_ok [OF e(2) inv1 freshc Suc.prems(4) rec'] by (elim exE conjE) (rule that)
  have us': "set us' \<subseteq> set (pool m1)"
    using R by (auto simp: changes_def)
  have same: "ram m' f = ram m1 f" if "f \<notin> tables (ram m1) level ?c" "f \<in> tables (ram m1) (Suc level) t" for f
    using R that fresh1 us' by (auto simp: changes_def)
  have rt: "ram m' t = ram m1 t"
    using same e(3) root_in_tables by blast
  show ?case
  proof (cases "table_index v (Suc level) = ?i")
    case True
    have "leaf (ram m) (Suc level) t v = Some x \<Longrightarrow> leaf (ram m1) level ?c v = Some x" for x
      using open_entry_leaf [OF Suc.prems(1,2,3) table_index_less op, of v x] O(4) True by (simp add: Let_def)
    then show ?thesis
      using IH O(4) True by (auto simp: same_page_Suc Let_def rt)
  next
    case False
    let ?k = "table_index v (Suc level)"
    have "leaf (ram m') (Suc level) t v = leaf (ram m1) (Suc level) t v"
    proof (cases "is_table (Suc level) (ram m1 t ! ?k)")
      case tk: True
      have "leaf (ram m') level (frame_of (ram m1 t ! ?k)) v = leaf (ram m1) level (frame_of (ram m1 t ! ?k)) v"
      proof (rule leaf_local, rule ballI)
        fix f
        assume f: "f \<in> tables (ram m1) level (frame_of (ram m1 t ! ?k))"
        then have "f \<in> others (ram m1) level t ?i" "f \<in> tables (ram m1) (Suc level) t"
          using child_in_others [of ?k ?i level "ram m1" t] child_in_tables [of ?k level "ram m1" t] tk False by auto
        then show "ram m' f = ram m1 f"
          using others_child [OF O(2) table_index_less O(4)] same by blast
      qed
      then show ?thesis
        using tk by (simp add: Let_def rt)
    qed (simp add: Let_def rt)
    then show ?thesis
      using open_entry_leaf [OF Suc.prems(1,2,3) table_index_less op, of v] False by (simp add: same_page_Suc)
  qed
qed


section \<open>The lower half\<close>

lemma small_page_leaf:
  "wf_tables (ram m) 3 (root_of cr3) \<Longrightarrow> small_page cr3 m v = leaf (ram m) 3 (root_of cr3) v"
  by (simp add: small_page_def leaf_find_pte)

lemma small_page_at:
  "wf_space cr3 m \<Longrightarrow> small_page cr3 m v = Some e \<Longrightarrow> \<exists>u w. page_at cr3 m v = Some (frame_of e, u, w)"
  using leaf_translate [of "ram m" 3 "root_of cr3" v e] by (simp add: wf_space_def small_page_leaf page_at_def)

definition lower :: "u64 \<Rightarrow> bool" where "lower v \<longleftrightarrow> unat v < 2 ^ 35"

text \<open>The allocator keeps track of all usable memory: the machine has at most 256 MB.\<close>

definition usable_tracked :: "memory \<Rightarrow> bool" where
  "usable_tracked m \<longleftrightarrow> (\<forall>ppn. pa_in_usable_range (memmap m) (PA_of_PPN ppn) \<and> unat ppn < 2 ^ 36 \<longrightarrow> ppn_is_tracked ppn)"

text \<open>The invariant of the lower half.\<close>

definition wf_user :: "u64 \<Rightarrow> memory \<Rightarrow> bool" where
  "wf_user cr3 m \<longleftrightarrow>
     wf_space cr3 m \<and> usable_tracked m \<and>
     (\<forall>v. lower v \<and> page_at cr3 m v \<noteq> None \<longrightarrow> small_page cr3 m v \<noteq> None) \<and>
     (\<forall>v e. lower v \<and> small_page cr3 m v = Some e \<longrightarrow>
        entry_ppn e = frame_of e \<and> frame_of e \<notin> space_tables cr3 m \<and> unat (frame_of e) \<notin> set (pool m)) \<and>
     (\<forall>v v' e e'. lower v \<and> lower v' \<and> small_page cr3 m v = Some e \<and> small_page cr3 m v' = Some e' \<and>
        frame_of e = frame_of e' \<longrightarrow> v = v')"

text \<open>A frame that is nobody's: neither free, nor a table, nor mapped.\<close>

definition unused :: "u64 \<Rightarrow> memory \<Rightarrow> u64 \<Rightarrow> bool" where
  "unused cr3 m f \<longleftrightarrow> unat f < 2 ^ 36 \<and> unat f \<notin> set (pool m) \<and> f \<notin> space_tables cr3 m \<and>
     (\<forall>v e. lower v \<and> small_page cr3 m v = Some e \<longrightarrow> frame_of e \<noteq> f)"

lemma wf_userD:
  assumes "wf_user cr3 m"
  shows "wf_space cr3 m" and "wf_tables (ram m) 3 (root_of cr3)" and "phys_inv (phys m)"
    and "\<And>f. f \<in> space_tables cr3 m \<Longrightarrow> unat f \<notin> set (pool m)"
    and "\<And>v e. lower v \<Longrightarrow> small_page cr3 m v = Some e \<Longrightarrow>
      entry_ppn e = frame_of e \<and> frame_of e \<notin> space_tables cr3 m \<and> unat (frame_of e) \<notin> set (pool m)"
    and "\<And>v v' e e'. lower v \<Longrightarrow> lower v' \<Longrightarrow> small_page cr3 m v = Some e \<Longrightarrow> small_page cr3 m v' = Some e' \<Longrightarrow>
      frame_of e = frame_of e' \<Longrightarrow> v = v'"
    and "usable_tracked m"
    and "\<And>v. lower v \<Longrightarrow> page_at cr3 m v \<noteq> None \<Longrightarrow> small_page cr3 m v \<noteq> None"
  using assms unfolding wf_user_def wf_space_def by blast+

lemma small_page_local:
  assumes "wf_tables (ram m) 3 (root_of cr3)" and "\<forall>f \<in> space_tables cr3 m. ram m' f = ram m f"
  shows "small_page cr3 m' v = small_page cr3 m v" and "page_at cr3 m' v = page_at cr3 m v"
    and "space_tables cr3 m' = space_tables cr3 m" and "wf_tables (ram m') 3 (root_of cr3)"
proof -
  have a: "\<forall>f \<in> tables (ram m) 3 (root_of cr3). ram m' f = ram m f"
    using assms(2) by (simp add: space_tables_def)
  note L = tables_local [OF a]
  show "wf_tables (ram m') 3 (root_of cr3)" "space_tables cr3 m' = space_tables cr3 m" "page_at cr3 m' v = page_at cr3 m v"
    using L assms(1) by (simp_all add: space_tables_def page_at_def)
  then show "small_page cr3 m' v = small_page cr3 m v"
    using leaf_local [OF a] assms(1) by (simp add: small_page_leaf)
qed

text \<open>Allocating a frame, and filling a frame that holds no table, change no mapping.\<close>

lemma alloc_user:
  assumes "wf_user cr3 m" and "alloc_frame m = Inr (f, m')"
  shows "wf_user cr3 m'" and "unused cr3 m' f" and "\<And>v. small_page cr3 m' v = small_page cr3 m v"
    and "space_tables cr3 m' = space_tables cr3 m" and "ram m' = (ram m)(f := replicate 512 0)"
    and "pool m = unat f # pool m'" and "hhdm_offset m' = hhdm_offset m" and "memmap m' = memmap m"
proof -
  note U = wf_userD [OF assms(1)] and A = alloc_frame_changes [OF U(3) assms(2)]
  have fT: "f \<notin> space_tables cr3 m"
    using A(4) U(4) by blast
  then have same: "\<forall>g \<in> space_tables cr3 m. ram m' g = ram m g"
    using A(2) by auto
  note L = small_page_local [OF U(2) same]
  show pl: "pool m = unat f # pool m'" and mm: "hhdm_offset m' = hhdm_offset m" "memmap m' = memmap m"
    using A(1) by (simp_all add: changes_def)
  have inv': "phys_inv (phys m')"
    using A(1) by (simp add: changes_def)
  show "wf_user cr3 m'"
    using assms(1) inv' L pl mm unfolding wf_user_def wf_space_def usable_tracked_def by (auto simp: L)
  have "frame_of e \<noteq> f" if "lower v" "small_page cr3 m v = Some e" for v e
    using U(5) [OF that] A(4) by auto
  then show "unused cr3 m' f"
    using A(3,5) fT unfolding unused_def L by auto
  show "small_page cr3 m' v = small_page cr3 m v" for v
    by (rule L(1))
  show "space_tables cr3 m' = space_tables cr3 m" "ram m' = (ram m)(f := replicate 512 0)"
    by (rule L(3)) (rule A(2))
qed

lemma fill_user:
  fixes ws :: "u64 list"
  assumes "wf_user cr3 m" and "f \<notin> space_tables cr3 m"
  defines "m' \<equiv> m\<lparr>ram := (ram m)(f := ws)\<rparr>"
  shows "wf_user cr3 m'" and "\<And>v. small_page cr3 m' v = small_page cr3 m v"
    and "space_tables cr3 m' = space_tables cr3 m" and "pool m' = pool m"
proof -
  note U = wf_userD [OF assms(1)]
  have same: "\<forall>g \<in> space_tables cr3 m. ram m' g = ram m g"
    using assms(2) by (auto simp: m'_def)
  note L = small_page_local [OF U(2) same]
  show pl: "pool m' = pool m"
    by (simp add: m'_def pool_def)
  have "phys m' = phys m" "memmap m' = memmap m"
    by (simp_all add: m'_def)
  then show "wf_user cr3 m'"
    using assms(1) L pl unfolding wf_user_def wf_space_def usable_tracked_def by (auto simp: L)
  show "small_page cr3 m' v = small_page cr3 m v" for v
    by (rule L(1))
  show "space_tables cr3 m' = space_tables cr3 m"
    by (rule L(3))
qed


lemma entry_ppn_bound: "unat (entry_ppn e) < 2 ^ 36"
proof -
  have "entry_ppn e = entry_ppn e AND mask 36"
    by (rule bit_word_eqI) (auto simp: entry_ppn_bits bit_simps)
  then have "unat (entry_ppn e) = unat (entry_ppn e AND mask 36)"
    by simp
  also have "\<dots> < 2 ^ 36"
    using take_bit_nat_less_exp [of 36 "unat (entry_ppn e)"]
    by (simp add: unsigned_take_bit_eq flip: take_bit_eq_mask)
  finally show ?thesis .
qed

lemma lower_same_page: "lower v \<Longrightarrow> lower vpn \<Longrightarrow> same_page 3 v vpn \<longleftrightarrow> v = vpn"
  by (intro same_page_root) (simp_all add: lower_def)

text \<open>Mapping a frame of nobody's.\<close>

lemma map_user:
  assumes wf: "wf_user cr3 m" and un: "unused cr3 m f" and vpn: "lower vpn"
    and ok: "map_in_root cr3 vpn f user write m = Inr m'"
  shows "wf_user cr3 m'"
    and "\<And>v. lower v \<Longrightarrow> small_page cr3 m' v = (if v = vpn then Some (make_entry f user write) else small_page cr3 m v)"
    and "\<And>g. g \<notin> space_tables cr3 m \<Longrightarrow> unat g \<notin> set (pool m) \<Longrightarrow> ram m' g = ram m g"
    and "\<exists>used. pool m = used @ pool m' \<and> space_tables cr3 m' = space_tables cr3 m \<union> {g. unat g \<in> set used}"
    and "hhdm_offset m' = hhdm_offset m" and "memmap m' = memmap m"
    and "page_at cr3 m' vpn = Some (f, user \<and> fst (path_allows (ram m) 3 (root_of cr3) vpn),
      write \<and> snd (path_allows (ram m) 3 (root_of cr3) vpn))"
proof -
  note U = wf_userD [OF wf]
  have f: "unat f < 2 ^ 36" "unat f < 2 ^ 40" "unat f \<notin> set (pool m)" "f \<notin> space_tables cr3 m"
    using un by (simp_all add: unused_def)
  obtain used where M: "changes (space_tables cr3 m) used m m'" "wf_space cr3 m'"
    "space_tables cr3 m' = space_tables cr3 m \<union> {g. unat g \<in> set used}"
    "\<forall>v. page_at cr3 m' v =
      (if same_page 3 v vpn
       then Some (f, user \<and> fst (path_allows (ram m) 3 (root_of cr3) vpn),
         write \<and> snd (path_allows (ram m) 3 (root_of cr3) vpn))
       else page_at cr3 m v)"
    using map_in_root_ok [OF U(1) ok f(2)] by (elim exE conjE) (rule that)
  have pl: "pool m = used @ pool m'"
    and frame: "\<And>g. g \<notin> space_tables cr3 m \<Longrightarrow> unat g \<notin> set used \<Longrightarrow> ram m' g = ram m g"
    using M(1) by (simp_all add: changes_def)
  show mm: "memmap m' = memmap m" "hhdm_offset m' = hhdm_offset m"
    using M(1) by (simp_all add: changes_def)
  have fresh: "\<forall>g \<in> tables (ram m) 3 (root_of cr3). unat g \<notin> set (pool m)"
    using U(1) by (simp add: wf_space_def space_tables_def)
  have rec: "map_at 3 (root_of cr3) vpn f user write m = Inr m'"
    using ok by (simp add: map_in_root_def root_of_def)
  note L = map_at_leaf [OF U(2,3) fresh f(2) rec]
  have wt': "wf_tables (ram m') 3 (root_of cr3)"
    using M(2) by (simp add: wf_space_def)
  show view: "small_page cr3 m' v = (if v = vpn then Some (make_entry f user write) else small_page cr3 m v)"
    if v: "lower v" for v
  proof (cases "v = vpn")
    case True
    then show ?thesis
      using L [of v] by (simp add: small_page_leaf [OF wt'] same_page_def)
  next
    case False
    then have ns: "\<not> same_page 3 v vpn"
      using lower_same_page [OF v vpn] by simp
    show ?thesis
    proof (cases "small_page cr3 m v")
      case (Some e)
      then show ?thesis
        using L [of v] ns False by (simp add: small_page_leaf [OF wt'] small_page_leaf [OF U(2)])
    next
      case None
      then have "page_at cr3 m v = None"
        using U(8) [OF v] by blast
      then have "page_at cr3 m' v = None"
        using ns M(4) by simp
      then have "small_page cr3 m' v = None"
        using small_page_at [OF M(2), of v] by (cases "small_page cr3 m' v") auto
      with None False show ?thesis
        by simp
    qed
  qed
  have sub: "set (pool m') \<subseteq> set (pool m)" "set used \<subseteq> set (pool m)"
    unfolding pl by auto
  have e: "frame_of (make_entry f user write) = f" "entry_ppn (make_entry f user write) = f"
    using f by (simp_all add: frame_of_make_entry entry_ppn_make_entry)
  have small: "small_page cr3 m' v \<noteq> None" if "lower v" "page_at cr3 m' v \<noteq> None" for v
  proof (cases "v = vpn")
    case True
    then show ?thesis
      using view [OF that(1)] by simp
  next
    case False
    then have "page_at cr3 m v \<noteq> None"
      using that M(4) lower_same_page [OF that(1) vpn] by simp
    then show ?thesis
      using view [OF that(1)] U(8) [OF that(1)] False by simp
  qed
  have apart: "entry_ppn x = frame_of x \<and> frame_of x \<notin> space_tables cr3 m' \<and> unat (frame_of x) \<notin> set (pool m')"
    if "lower v" "small_page cr3 m' v = Some x" for v x
  proof (cases "v = vpn")
    case True
    then have "x = make_entry f user write"
      using view [OF that(1)] that(2) by simp
    with e f sub M(3) show ?thesis
      by auto
  next
    case False
    then have "small_page cr3 m v = Some x"
      using view [OF that(1)] that(2) by simp
    from U(5) [OF that(1) this] sub M(3) show ?thesis
      by auto
  qed
  have inj: "v = v'" if "lower v" "lower v'" "small_page cr3 m' v = Some x" "small_page cr3 m' v' = Some x'"
    "frame_of x = frame_of x'" for v v' x x'
    using that view [OF that(1)] view [OF that(2)] U(6) [OF that(1,2)] un e
    by (auto simp: unused_def split: if_splits)
  show "wf_user cr3 m'"
    unfolding wf_user_def using M(2) U(7) small apart inj mm by (simp add: usable_tracked_def) blast
  show "ram m' g = ram m g" if "g \<notin> space_tables cr3 m" "unat g \<notin> set (pool m)" for g
    using frame that sub by blast
  show "\<exists>used. pool m = used @ pool m' \<and> space_tables cr3 m' = space_tables cr3 m \<union> {g. unat g \<in> set used}"
    using pl M(3) by blast
  show "page_at cr3 m' vpn = Some (f, user \<and> fst (path_allows (ram m) 3 (root_of cr3) vpn),
      write \<and> snd (path_allows (ram m) 3 (root_of cr3) vpn))"
    using M(4) by (simp add: same_page_def)
qed


section \<open>Unmapping\<close>

lemma clear_user:
  assumes wf: "wf_user cr3 m" and vpn: "lower vpn"
    and found: "find_pte_loop 3 (root_of cr3) vpn m = Some pte"
  defines "m' \<equiv> set_entry (fst pte) (snd pte) 0 m"
  shows "wf_user cr3 m'"
    and "\<And>v. lower v \<Longrightarrow> small_page cr3 m' v = (if v = vpn then None else small_page cr3 m v)"
    and "space_tables cr3 m' = space_tables cr3 m" and "pool m' = pool m" and "phys m' = phys m"
    and "hhdm_offset m' = hhdm_offset m" and "memmap m' = memmap m"
    and "\<And>g. g \<notin> space_tables cr3 m \<Longrightarrow> ram m' g = ram m g"
    and "small_page cr3 m vpn = Some (pte_value pte m)"
    and "unused cr3 m' (frame_of (pte_value pte m))"
proof -
  note U = wf_userD [OF wf]
  obtain t' i where pte: "pte = (t', i)"
    by (cases pte)
  note fnd = found [unfolded pte]
  have t': "t' \<in> space_tables cr3 m"
    using find_pte_place [OF U(2) fnd] by (simp add: space_tables_def)
  note C = clear_pte [OF U(2) fnd]
  have m': "m' = set_entry t' i 0 m"
    by (simp add: m'_def pte)
  then show pl: "pool m' = pool m" and ph: "phys m' = phys m" and mm: "hhdm_offset m' = hhdm_offset m" "memmap m' = memmap m"
    by (simp_all add: set_entry_def pool_def)
  have wt: "wf_tables (ram m') 3 (root_of cr3)"
    and tabs: "space_tables cr3 m' = space_tables cr3 m"
    and tr: "\<And>v. page_at cr3 m' v = (if same_page 3 v vpn then None else page_at cr3 m v)"
    and fp: "\<And>v. find_pte_loop 3 (root_of cr3) v m' = (if same_page 3 v vpn then None else find_pte_loop 3 (root_of cr3) v m)"
    using C unfolding m' space_tables_def page_at_def by blast+
  show "space_tables cr3 m' = space_tables cr3 m"
    by (rule tabs)
  have same: "pte_value q m' = pte_value q m" if "find_pte_loop 3 (root_of cr3) v m = Some q" "\<not> same_page 3 v vpn" for q v
  proof -
    have "is_present (pte_value q m')"
      using fp [of v] that by (intro find_pte_present [of 3 "root_of cr3" v]) simp
    moreover have "\<not> is_present (pte_value (t', i) m')"
      using find_pte_place [OF U(2) fnd] table_index_less [of vpn 0]
      by (simp add: m' pte_value_def set_entry_def is_present_def)
    ultimately have "q \<noteq> (t', i)"
      by auto
    then show ?thesis
      by (cases q) (auto simp: m' pte_value_def set_entry_def)
  qed
  show view: "small_page cr3 m' v = (if v = vpn then None else small_page cr3 m v)" if "lower v" for v
    using fp [of v] same [of v] lower_same_page [OF that vpn]
    by (cases "find_pte_loop 3 (root_of cr3) v m") (auto simp: small_page_def)
  show sp: "small_page cr3 m vpn = Some (pte_value pte m)"
    by (simp add: small_page_def found)
  show "ram m' g = ram m g" if "g \<notin> space_tables cr3 m" for g
    using that t' by (auto simp: m' set_entry_def)
  have ws: "wf_space cr3 m'"
    using U(1) wt tabs pl ph by (simp add: wf_space_def)
  show "wf_user cr3 m'"
  proof -
    have a: "small_page cr3 m' v \<noteq> None" if "lower v" "page_at cr3 m' v \<noteq> None" for v
      using view [OF that(1)] tr [of v] that U(8) [OF that(1)] lower_same_page [OF that(1) vpn] by (auto split: if_splits)
    have b: "entry_ppn x = frame_of x \<and> frame_of x \<notin> space_tables cr3 m' \<and> unat (frame_of x) \<notin> set (pool m')"
      if "lower v" "small_page cr3 m' v = Some x" for v x
      using U(5) [OF that(1)] view [OF that(1)] that(2) tabs pl by (auto split: if_splits)
    have c: "v = v'" if "lower v" "lower v'" "small_page cr3 m' v = Some x" "small_page cr3 m' v' = Some x'"
      "frame_of x = frame_of x'" for v v' x x'
    proof -
      have "small_page cr3 m v = Some x" "small_page cr3 m v' = Some x'"
        using that(3,4) view [OF that(1)] view [OF that(2)] by (simp_all split: if_splits)
      then show ?thesis
        using U(6) [OF that(1,2)] that(5) by blast
    qed
    show ?thesis
      unfolding wf_user_def using ws U(7) mm a b c by (simp add: usable_tracked_def) blast
  qed
  let ?e = "pte_value pte m"
  have e: "entry_ppn ?e = frame_of ?e" "frame_of ?e \<notin> space_tables cr3 m" "unat (frame_of ?e) \<notin> set (pool m)"
    using U(5) [OF vpn sp] by simp_all
  have "unat (frame_of ?e) < 2 ^ 36"
    using entry_ppn_bound [of ?e] e(1) by simp
  moreover have "frame_of x \<noteq> frame_of ?e" if "lower v" "small_page cr3 m' v = Some x" for v x
  proof -
    have "small_page cr3 m v = Some x" "v \<noteq> vpn"
      using that(2) view [OF that(1)] by (simp_all split: if_splits)
    then show ?thesis
      using U(6) [OF that(1) vpn _ sp] by blast
  qed
  ultimately show "unused cr3 m' (frame_of ?e)"
    using e tabs pl by (auto simp: unused_def)
qed

section \<open>Releasing a frame\<close>

definition releasable :: "u64 \<Rightarrow> memory \<Rightarrow> bool" where
  "releasable f m \<longleftrightarrow> f \<noteq> 0 \<and> pa_in_usable_range (memmap m) (PA_of_PPN f) \<and> frame_state (phys m) f = 1"

lemma free_frame_facts:
  assumes "phys_inv (phys m)" and "usable_tracked m" and "unat f < 2 ^ 36"
  defines "m' \<equiv> free_frame f m"
  shows "phys_inv (phys m')" and "pool m' = (if releasable f m then unat f # pool m else pool m)"
    and "memmap m' = memmap m" and "hhdm_offset m' = hhdm_offset m" and "\<And>g. g \<noteq> f \<Longrightarrow> ram m' g = ram m g"
    and "\<And>g. frame_state (phys m') g = (if g = f \<and> releasable f m then 2 else frame_state (phys m) g)"
    and "\<not> releasable f m \<Longrightarrow> m' = m"
proof -
  have tr: "pa_in_usable_range (memmap m) (PA_of_PPN f) \<Longrightarrow> ppn_is_tracked f"
    using assms(2,3) by (simp add: usable_tracked_def)
  have no: "PhysMem_free (memmap m) f (phys m) = phys m" if "\<not> releasable f m"
    using that tr by (auto simp: PhysMem_free_def releasable_def)
  then show "\<not> releasable f m \<Longrightarrow> m' = m"
    by (simp add: m'_def free_frame_def)
  have yes: "PhysMem_free (memmap m) f (phys m) = (set_frame_state f 2 (phys m))\<lparr>avail_frames := f # avail_frames (phys m)\<rparr>"
    and ft: "ppn_is_tracked f" if "releasable f m"
    using that tr by (auto simp: PhysMem_free_def releasable_def)
  show "pool m' = (if releasable f m then unat f # pool m else pool m)"
    using no yes by (auto simp: m'_def free_frame_def pool_def pool_frames_def set_entry_def set_frame_state_def Let_def)
  show "memmap m' = memmap m" "hhdm_offset m' = hhdm_offset m"
    by (simp_all add: m'_def free_frame_def set_entry_def Let_def)
  show "ram m' g = ram m g" if "g \<noteq> f" for g
    using that by (simp add: m'_def free_frame_def set_entry_def Let_def)
  show "frame_state (phys m') g = (if g = f \<and> releasable f m then 2 else frame_state (phys m) g)" for g
    using no yes ft by (cases "releasable f m") (auto simp: m'_def free_frame_def set_entry_def set_frame_state_def Let_def)
  have "phys m' = PhysMem_free (memmap m) f (phys m)"
    using no yes by (cases "releasable f m") (auto simp: m'_def free_frame_def set_entry_def Let_def)
  then show "phys_inv (phys m')"
    using phys_inv_free [OF assms(1) ft, of "memmap m"] no assms(1) by (cases "releasable f m") simp_all
qed

lemma free_user:
  assumes wf: "wf_user cr3 m" and un: "unused cr3 m f"
  defines "m' \<equiv> free_frame f m"
  shows "wf_user cr3 m'" and "\<And>v. small_page cr3 m' v = small_page cr3 m v"
    and "space_tables cr3 m' = space_tables cr3 m"
proof -
  note U = wf_userD [OF wf]
  have f: "unat f < 2 ^ 36" "f \<notin> space_tables cr3 m"
    using un by (simp_all add: unused_def)
  note F = free_frame_facts [OF U(3,7) f(1), folded m'_def]
  have same: "\<forall>g \<in> space_tables cr3 m. ram m' g = ram m g"
    using F(5) f(2) by metis
  note L = small_page_local [OF U(2) same]
  show "small_page cr3 m' v = small_page cr3 m v" for v
    by (rule L(1))
  show "space_tables cr3 m' = space_tables cr3 m"
    by (rule L(3))
  have sub: "set (pool m') \<subseteq> insert (unat f) (set (pool m))"
    using F(2) by auto
  have "unat g \<notin> set (pool m')" if "g \<in> space_tables cr3 m" for g
    using U(4) [OF that] that f(2) sub by (auto dest: unat_eqI)
  moreover have "unat (frame_of e) \<notin> set (pool m')" if "lower v" "small_page cr3 m v = Some e" for v e
    using U(5) [OF that] un that sub by (auto simp: unused_def dest: unat_eqI)
  ultimately show "wf_user cr3 m'"
    using wf F(1,3) L unfolding wf_user_def wf_space_def usable_tracked_def by (auto simp: L)
qed

end
