(* ===== verification/Vm_Unmap.thy ===== *)
theory Vm_Unmap
  imports Vmm Address_Space
begin

text \<open>
  Loops over pages, and unmapping: what releasing the pages of a range does to an address space, and
  what \<open>munmap\<close> leaves of the list of regions.
\<close>

section \<open>Loops over pages\<close>

text \<open>A loop from one page boundary to another is a loop over the page numbers between.\<close>

lemma page_loop_for_each:
  assumes "p \<le> q" and "q < 2 ^ 52"
  shows "page_loop f (word_of_nat (4096 * p)) (word_of_nat (4096 * q)) m =
    Some (for_each (\<lambda>k. f (word_of_nat (4096 * k))) [p..<q] m)"
  using assms
proof (induction "q - p" arbitrary: p m)
  case 0
  then show ?case
    by (subst page_loop.simps) simp
next
  case (Suc n)
  have lt: "(word_of_nat (4096 * p) :: u64) < word_of_nat (4096 * q)"
    using Suc.prems Suc.hyps(2) by (simp add: word_less_nat_alt unat_of_nat del: of_nat_mult)
  have succ: "word_of_nat (4096 * p) + 4096 = (word_of_nat (4096 * Suc p) :: u64)"
    by simp
  have upt: "[p..<q] = p # [Suc p..<q]"
    using Suc.hyps(2) by (simp add: upt_conv_Cons)
  have IH: "page_loop f (word_of_nat (4096 * Suc p)) (word_of_nat (4096 * q)) m' =
      Some (for_each (\<lambda>k. f (word_of_nat (4096 * k))) [Suc p..<q] m')" for m'
    using Suc.hyps(2) Suc.prems by (intro Suc.hyps(1)) simp_all
  show ?case
    by (subst page_loop.simps)
      (simp add: lt succ IH upt bind_outcome_def del: of_nat_mult mult_Suc_right split: sum.splits)
qed

lemma page_boundary:
  "unat a mod 4096 = 0 \<Longrightarrow> a = word_of_nat (4096 * (unat a div 4096))"
proof -
  assume "unat a mod 4096 = 0"
  then have "4096 * (unat a div 4096) = unat a"
    using mult_div_mod_eq [of 4096 "unat a"] by simp
  then show ?thesis
    by (simp del: of_nat_mult)
qed

section \<open>Releasing pages\<close>

text \<open>What unmapping a set of pages does.\<close>

definition unmapped :: "u64 \<Rightarrow> (u64 \<Rightarrow> bool) \<Rightarrow> memory \<Rightarrow> memory \<Rightarrow> bool" where
  "unmapped root P m m' \<longleftrightarrow>
     wf_user root m' \<and> memmap m' = memmap m \<and> hhdm_offset m' = hhdm_offset m \<and>
     space_tables root m' = space_tables root m \<and>
     (\<forall>v. lower v \<longrightarrow> small_page root m' v = (if P v then None else small_page root m v)) \<and>
     (\<forall>v e. lower v \<and> \<not> P v \<and> small_page root m v = Some e \<longrightarrow> ram m' (frame_of e) = ram m (frame_of e)) \<and>
     (\<forall>v e. lower v \<and> P v \<and> small_page root m v = Some e \<and> releasable (frame_of e) m \<longrightarrow> unat (frame_of e) \<in> set (pool m')) \<and>
     set (pool m) \<subseteq> set (pool m') \<and>
     (\<forall>f. frame_state (phys m') f \<noteq> frame_state (phys m) f \<longrightarrow>
        (\<exists>v e. lower v \<and> P v \<and> small_page root m v = Some e \<and> frame_of e = f))"

lemma unmapped_refl: "wf_user root m \<Longrightarrow> unmapped root (\<lambda>_. False) m m"
  by (simp add: unmapped_def)

lemma unmapped_trans:
  assumes wf: "wf_user root m" and a: "unmapped root P m m1" and b: "unmapped root Q m1 m2"
  shows "unmapped root (\<lambda>v. P v \<or> Q v) m m2"
proof -
  note U = wf_userD [OF wf]
  have A: "\<And>v. lower v \<Longrightarrow> small_page root m1 v = (if P v then None else small_page root m v)"
    "\<And>v e. lower v \<Longrightarrow> \<not> P v \<Longrightarrow> small_page root m v = Some e \<Longrightarrow> ram m1 (frame_of e) = ram m (frame_of e)"
    "\<And>v e. lower v \<Longrightarrow> P v \<Longrightarrow> small_page root m v = Some e \<Longrightarrow> releasable (frame_of e) m \<Longrightarrow> unat (frame_of e) \<in> set (pool m1)"
    "set (pool m) \<subseteq> set (pool m1)"
    "\<And>f. frame_state (phys m1) f \<noteq> frame_state (phys m) f \<Longrightarrow> \<exists>v e. lower v \<and> P v \<and> small_page root m v = Some e \<and> frame_of e = f"
    "memmap m1 = memmap m" "hhdm_offset m1 = hhdm_offset m" "space_tables root m1 = space_tables root m"
    using a unfolding unmapped_def by blast+
  have B: "\<And>v. lower v \<Longrightarrow> small_page root m2 v = (if Q v then None else small_page root m1 v)"
    "\<And>v e. lower v \<Longrightarrow> \<not> Q v \<Longrightarrow> small_page root m1 v = Some e \<Longrightarrow> ram m2 (frame_of e) = ram m1 (frame_of e)"
    "\<And>v e. lower v \<Longrightarrow> Q v \<Longrightarrow> small_page root m1 v = Some e \<Longrightarrow> releasable (frame_of e) m1 \<Longrightarrow> unat (frame_of e) \<in> set (pool m2)"
    "set (pool m1) \<subseteq> set (pool m2)"
    "\<And>f. frame_state (phys m2) f \<noteq> frame_state (phys m1) f \<Longrightarrow> \<exists>v e. lower v \<and> Q v \<and> small_page root m1 v = Some e \<and> frame_of e = f"
    "memmap m2 = memmap m1" "hhdm_offset m2 = hhdm_offset m1" "space_tables root m2 = space_tables root m1" "wf_user root m2"
    using b unfolding unmapped_def by blast+
  have view: "small_page root m2 v = (if P v \<or> Q v then None else small_page root m v)" if "lower v" for v
    using A(1) [OF that] B(1) [OF that] by simp
  have data: "ram m2 (frame_of e) = ram m (frame_of e)" if "lower v" "\<not> (P v \<or> Q v)" "small_page root m v = Some e" for v e
    using A(1,2) [OF that(1)] B(2) [OF that(1)] that by simp
  have freed: "unat (frame_of e) \<in> set (pool m2)"
    if v: "lower v" "P v \<or> Q v" "small_page root m v = Some e" "releasable (frame_of e) m" for v e
  proof (cases "P v")
    case True
    then show ?thesis
      using A(3) [OF v(1) _ v(3,4)] B(4) by blast
  next
    case False
    then have sp: "small_page root m1 v = Some e"
      using A(1) [OF v(1)] v(3) by simp
    have "frame_state (phys m1) (frame_of e) = frame_state (phys m) (frame_of e)"
    proof (rule ccontr)
      assume "\<not> ?thesis"
      then obtain v' e' where "lower v'" "P v'" "small_page root m v' = Some e'" "frame_of e' = frame_of e"
        using A(5) by blast
      then show False
        using U(6) [OF _ v(1) _ v(3)] False by blast
    qed
    then have "releasable (frame_of e) m1"
      using v(4) A(6) by (simp add: releasable_def)
    then show ?thesis
      using B(3) [OF v(1) _ sp] v(2) False by blast
  qed
  have st: "\<exists>v e. lower v \<and> (P v \<or> Q v) \<and> small_page root m v = Some e \<and> frame_of e = f"
    if "frame_state (phys m2) f \<noteq> frame_state (phys m) f" for f
  proof (cases "frame_state (phys m2) f = frame_state (phys m1) f")
    case True
    then show ?thesis
      using that A(5) [of f] by auto
  next
    case False
    then obtain v e where "lower v" "Q v" "small_page root m1 v = Some e" "frame_of e = f"
      using B(5) by blast
    then show ?thesis
      using A(1) [of v] by (auto split: if_splits)
  qed
  show ?thesis
    unfolding unmapped_def using view data freed st A(4,6,7,8) B(4,6,7,8,9) by auto
qed

lemma unmap_page_ok:
  assumes wf: "wf_user root m" and low: "lower (drop_bit 12 va)"
  shows "\<exists>m'. unmap_page root va m = Inr m' \<and> unmapped root (\<lambda>v. v = drop_bit 12 va) m m'"
proof -
  let ?v = "drop_bit 12 va"
  note U = wf_userD [OF wf]
  show ?thesis
  proof (cases "find_pte_loop 3 (root_of root) ?v m")
    case None
    then have "small_page root m ?v = None"
      by (simp add: small_page_def)
    then show ?thesis
      using wf None by (auto simp: unmap_page_def find_pte_small unmapped_def)
  next
    case (Some pte)
    let ?m1 = "set_entry (fst pte) (snd pte) 0 m" and ?f = "frame_of (pte_value pte m)"
    note C = clear_user [OF wf low Some]
    have pres: "pte_value pte m AND PTE_PRESENT \<noteq> 0"
      using find_pte_present [OF Some] by (simp add: is_present_def)
    have e: "entry_ppn (pte_value pte m) = ?f"
      using U(5) [OF low C(9)] by blast
    define m2 where "m2 = (if ?f \<noteq> 0 then free_frame ?f ?m1 else ?m1)"
    have run: "unmap_page root va m = Inr m2"
      using pres by (simp add: unmap_page_def find_pte_small Some e m2_def Let_def)
    have f36: "unat ?f < 2 ^ 36"
      using C(10) by (simp add: unused_def)
    have inv1: "phys_inv (phys ?m1)" "usable_tracked ?m1"
      using wf_userD [OF C(1)] by blast+
    note F = free_frame_facts [OF inv1 f36] and G = free_user [OF C(1,10)]
    have rel: "releasable ?f ?m1 \<longleftrightarrow> releasable ?f m"
      using C(5,7) by (simp add: releasable_def)
    have "wf_user root m2" "space_tables root m2 = space_tables root m" "\<And>v. small_page root m2 v = small_page root ?m1 v"
      using G C(1,3) by (simp_all add: m2_def)
    moreover have "memmap m2 = memmap m" "hhdm_offset m2 = hhdm_offset m"
      using F(3,4) C(6,7) by (simp_all add: m2_def)
    moreover have "set (pool m) \<subseteq> set (pool m2)"
      using F(2) C(4) by (auto simp: m2_def)
    moreover have "unat ?f \<in> set (pool m2)" if "releasable ?f m"
      using that F(2) rel by (auto simp: m2_def releasable_def)
    moreover have "?f = g" if "frame_state (phys m2) g \<noteq> frame_state (phys m) g" for g
      using that F(6) [of g] C(5) by (auto simp: m2_def split: if_splits)
    moreover have "ram m2 (frame_of e') = ram m (frame_of e')"
      if "lower v" "v \<noteq> ?v" "small_page root m v = Some e'" for v e'
    proof -
      have "frame_of e' \<noteq> ?f"
        using U(6) [OF that(1) low that(3) C(9)] that(2) by blast
      moreover have "frame_of e' \<notin> space_tables root m"
        using U(5) [OF that(1,3)] by blast
      ultimately show ?thesis
        using F(5) C(8) by (simp add: m2_def)
    qed
    ultimately have "unmapped root (\<lambda>v. v = ?v) m m2"
      using C(2,9) low unfolding unmapped_def by auto
    with run show ?thesis
      by blast
  qed
qed

lemma unmap_pages_ok:
  assumes "wf_user root m" and "p \<le> q" and "q \<le> 2 ^ 35"
  shows "\<exists>m'. unmap_pages root (word_of_nat (4096 * p)) (word_of_nat (4096 * q)) m = Some (Inr m') \<and>
    unmapped root (\<lambda>v. p \<le> unat v \<and> unat v < q) m m'"
proof -
  have "\<exists>m'. for_each (\<lambda>k. unmap_page root (word_of_nat (4096 * k))) [p..<q] m = Inr m' \<and>
      unmapped root (\<lambda>v. p \<le> unat v \<and> unat v < q) m m'"
    using assms
  proof (induction "q - p" arbitrary: p m)
    case 0
    then have "(\<lambda>v :: u64. p \<le> unat v \<and> unat v < q) = (\<lambda>_. False)"
      by auto
    with 0 show ?case
      by (simp add: unmapped_refl)
  next
    case (Suc n)
    have pq: "p < q" "p < 2 ^ 35"
      using Suc.hyps(2) Suc.prems by simp_all
    have pg: "drop_bit 12 (word_of_nat (4096 * p) :: u64) = word_of_nat p"
      using pq by (intro page_number) simp
    have up: "unat (word_of_nat p :: u64) = p"
      using pq by (intro unat_of_nat_u64) simp
    have "lower (word_of_nat p)"
      using pq up by (simp add: lower_def)
    then obtain m1 where m1: "unmap_page root (word_of_nat (4096 * p)) m = Inr m1"
        "unmapped root (\<lambda>v. v = word_of_nat p) m m1"
      using unmap_page_ok [OF Suc.prems(1), of "word_of_nat (4096 * p)"] unfolding pg by blast
    then have "wf_user root m1"
      by (simp add: unmapped_def)
    moreover have "n = q - Suc p" "Suc p \<le> q"
      using Suc.hyps(2) pq by simp_all
    ultimately obtain m2 where m2: "for_each (\<lambda>k. unmap_page root (word_of_nat (4096 * k))) [Suc p..<q] m1 = Inr m2"
        "unmapped root (\<lambda>v. Suc p \<le> unat v \<and> unat v < q) m1 m2"
      using Suc.hyps(1) [of "Suc p" m1] Suc.prems(3) by blast
    have "(\<lambda>v :: u64. v = word_of_nat p \<or> Suc p \<le> unat v \<and> unat v < q) = (\<lambda>v. p \<le> unat v \<and> unat v < q)"
    proof (rule ext)
      fix v :: u64
      have "v = word_of_nat p \<longleftrightarrow> unat v = p"
        using up unat_eqI [of v "word_of_nat p"] by auto
      then show "(v = word_of_nat p \<or> Suc p \<le> unat v \<and> unat v < q) = (p \<le> unat v \<and> unat v < q)"
        using pq by auto
    qed
    with unmapped_trans [OF Suc.prems(1) m1(2) m2(2)] have "unmapped root (\<lambda>v. p \<le> unat v \<and> unat v < q) m m2"
      by simp
    moreover have "[p..<q] = p # [Suc p..<q]"
      using pq by (simp add: upt_conv_Cons)
    ultimately show ?case
      using m1(1) m2(1) by (intro exI [of _ m2]) (simp add: bind_outcome_def del: of_nat_mult)
  qed
  then show ?thesis
    using page_loop_for_each [of p q] assms(2,3) by (simp add: unmap_pages_def del: of_nat_mult)
qed

lemma unmapped_cong:
  "(\<And>v. lower v \<Longrightarrow> P v \<longleftrightarrow> Q v) \<Longrightarrow> unmapped root P m m' \<Longrightarrow> unmapped root Q m m'"
  unfolding unmapped_def by meson

section \<open>Trimming regions\<close>

lemma content_at_append:
  "content_at (xs @ ys) va = (case content_at xs va of Some c \<Rightarrow> Some c | None \<Rightarrow> content_at ys va)"
  by (simp add: content_at_def find_vme_append split: option.splits)

lemma content_at_Nil [simp]: "content_at [] va = None"
  by (simp add: content_at_def)

lemma content_at_Cons:
  "content_at (v # vs) va =
     (if vme_start v \<le> va \<and> va < vme_end v
      then Some (vme_node v, vme_offset v + (va - vme_start v), vme_shared v) else content_at vs va)"
  by (simp add: content_at_def)

lemma content_at_None: "content_at vs va = None \<longleftrightarrow> find_vme vs va = None"
  by (simp add: content_at_def)

lemma trim_vme_ok:
  assumes us: "us = (if vme_start cur > start then vme_start cur else start)"
    and ue: "ue = (if vme_end cur < e then vme_end cur else e)"
    and cur: "lo \<le> vme_start cur" "vme_start cur < vme_end cur" "unat (vme_start cur) mod 4096 = 0"
      "unat (vme_end cur) mod 4096 = 0" "\<not> vme_shared cur"
    and al: "unat start mod 4096 = 0" "unat e mod 4096 = 0"
    and ov: "\<not> (vme_end cur \<le> start \<or> vme_start cur \<ge> e)" and se: "start \<le> e"
  shows "chain lo (trim_vme cur us ue)" and "\<forall>v \<in> set (trim_vme cur us ue). vme_end v \<le> vme_end cur \<and> \<not> vme_shared v"
    and "content_at (trim_vme cur us ue) va = (if start \<le> va \<and> va < e then None else content_at [cur] va)"
proof -
  show "chain lo (trim_vme cur us ue)" "\<forall>v \<in> set (trim_vme cur us ue). vme_end v \<le> vme_end cur \<and> \<not> vme_shared v"
    using assms by (auto simp: trim_vme_def split: if_splits)
  show "content_at (trim_vme cur us ue) va = (if start \<le> va \<and> va < e then None else content_at [cur] va)"
    using assms by (auto simp: trim_vme_def content_at_Cons algebra_simps split: if_splits)
qed

section \<open>munmap\<close>

text \<open>The pages of a range that regions of a list cover.\<close>

definition covered :: "VME list \<Rightarrow> u64 \<Rightarrow> u64 \<Rightarrow> u64 \<Rightarrow> bool" where
  "covered vs start end_addr v \<longleftrightarrow>
     start \<le> push_bit 12 v \<and> push_bit 12 v < end_addr \<and> find_vme vs (push_bit 12 v) \<noteq> None"

definition user_regions :: "VME list \<Rightarrow> bool" where
  "user_regions vs \<longleftrightarrow> (\<forall>v \<in> set vs. unat (vme_end v) \<le> 2 ^ 47 \<and> \<not> vme_shared v)"

lemma page_address: "lower v \<Longrightarrow> unat (push_bit 12 v) = 4096 * unat v"
  by (simp add: lower_def push_bit_eq_mult unat_word_ariths)

lemma covered_Cons:
  assumes "lower v" and "vme_start cur < vme_end cur" and "chain (vme_end cur) rest"
  shows "covered (cur # rest) start e v \<longleftrightarrow>
    (start \<le> push_bit 12 v \<and> push_bit 12 v < e \<and> vme_start cur \<le> push_bit 12 v \<and> push_bit 12 v < vme_end cur) \<or>
    covered rest start e v"
  by (auto simp: covered_def)

text \<open>A range of addresses between page boundaries, as one of pages.\<close>

lemma unmap_range_ok:
  assumes wf: "wf_user root m" and al: "unat a mod 4096 = 0" "unat b mod 4096 = 0"
    and ab: "a \<le> b" "unat b \<le> 2 ^ 47"
  shows "\<exists>m'. unmap_pages root a b m = Some (Inr m') \<and>
    unmapped root (\<lambda>v. a \<le> push_bit 12 v \<and> push_bit 12 v < b) m m'"
proof -
  let ?p = "unat a div 4096" and ?q = "unat b div 4096"
  have pq: "?p \<le> ?q" "?q \<le> 2 ^ 35"
    using ab by (simp_all add: word_le_nat_alt div_le_mono)
  obtain m' where m': "unmap_pages root (word_of_nat (4096 * ?p)) (word_of_nat (4096 * ?q)) m = Some (Inr m')"
      "unmapped root (\<lambda>v. ?p \<le> unat v \<and> unat v < ?q) m m'"
    using unmap_pages_ok [OF wf pq] by (elim exE conjE) (rule that)
  have same: "(?p \<le> unat v \<and> unat v < ?q) \<longleftrightarrow> (a \<le> push_bit 12 v \<and> push_bit 12 v < b)" if "lower v" for v
    using page_address [OF that] al by (auto simp: word_le_nat_alt word_less_nat_alt)
  have "unmapped root (\<lambda>v. a \<le> push_bit 12 v \<and> push_bit 12 v < b) m m'"
    by (rule unmapped_cong [OF same m'(2)])
  moreover have "unmap_pages root a b m = Some (Inr m')"
    using m'(1) page_boundary [OF al(1), symmetric] page_boundary [OF al(2), symmetric] by (simp only:)
  ultimately show ?thesis
    by blast
qed

lemma munmap_loop_ok:
  assumes "wf_user root m" and "chain lo vs" and "user_regions vs"
    and "unat start mod 4096 = 0" and "unat e mod 4096 = 0" and "start \<le> e"
  shows "\<exists>vs' m'. munmap_loop root start e vs m = Some (Inr (vs', m')) \<and> chain lo vs' \<and> user_regions vs' \<and>
    (\<forall>va. content_at vs' va = (if start \<le> va \<and> va < e then None else content_at vs va)) \<and>
    unmapped root (covered vs start e) m m'"
  using assms
proof (induction vs arbitrary: lo m)
  case Nil
  then show ?case
    by (simp add: covered_def unmapped_refl)
next
  case (Cons cur rest)
  have cur: "lo \<le> vme_start cur" "vme_start cur < vme_end cur" "unat (vme_start cur) mod 4096 = 0"
    "unat (vme_end cur) mod 4096 = 0" "chain (vme_end cur) rest" "unat (vme_end cur) \<le> 2 ^ 47" "\<not> vme_shared cur"
    "user_regions rest"
    using Cons.prems by (simp_all add: user_regions_def)
  have cov: "covered (cur # rest) start e v \<longleftrightarrow>
      (start \<le> push_bit 12 v \<and> push_bit 12 v < e \<and> vme_start cur \<le> push_bit 12 v \<and> push_bit 12 v < vme_end cur) \<or>
      covered rest start e v" if "lower v" for v
    by (rule covered_Cons [OF that cur(2,5)])
  show ?case
  proof (cases "vme_end cur \<le> start \<or> vme_start cur \<ge> e")
    case True
    obtain vs' m' where I: "munmap_loop root start e rest m = Some (Inr (vs', m'))" "chain (vme_end cur) vs'"
      "user_regions vs'" "\<forall>va. content_at vs' va = (if start \<le> va \<and> va < e then None else content_at rest va)"
      "unmapped root (covered rest start e) m m'"
      using Cons.IH [OF Cons.prems(1) cur(5,8) Cons.prems(4-6)] by (elim exE conjE) (rule that)
    have "munmap_loop root start e (cur # rest) m = Some (Inr (cur # vs', m'))"
      using True I(1) by simp
    moreover have "chain lo (cur # vs')" "user_regions (cur # vs')"
      using cur I(2,3) by (simp_all add: user_regions_def)
    moreover have "content_at (cur # vs') va = (if start \<le> va \<and> va < e then None else content_at (cur # rest) va)" for va
      using True I(4) by (auto simp: content_at_Cons)
    moreover have "unmapped root (covered (cur # rest) start e) m m'"
      using I(5) by (rule unmapped_cong [rotated]) (use True cov in auto)
    ultimately show ?thesis
      by blast
  next
    case ov: False
    define us where "us = (if vme_start cur > start then vme_start cur else start)"
    define ue where "ue = (if vme_end cur < e then vme_end cur else e)"
    have b: "us \<le> ue" "unat us mod 4096 = 0" "unat ue mod 4096 = 0" "unat ue \<le> 2 ^ 47"
      using ov cur Cons.prems(4-6) by (auto simp: us_def ue_def word_le_nat_alt word_less_nat_alt)
    note T = trim_vme_ok [OF us_def ue_def cur(1-4,7) Cons.prems(4,5) ov Cons.prems(6)]
    obtain m1 where m1: "unmap_pages root us ue m = Some (Inr m1)"
        "unmapped root (\<lambda>v. us \<le> push_bit 12 v \<and> push_bit 12 v < ue) m m1"
      using unmap_range_ok [OF Cons.prems(1) b(2,3,1,4)] by blast
    then have wf1: "wf_user root m1"
      by (simp add: unmapped_def)
    obtain vs' m2 where I: "munmap_loop root start e rest m1 = Some (Inr (vs', m2))" "chain (vme_end cur) vs'"
      "user_regions vs'" "\<forall>va. content_at vs' va = (if start \<le> va \<and> va < e then None else content_at rest va)"
      "unmapped root (covered rest start e) m1 m2"
      using Cons.IH [OF wf1 cur(5,8) Cons.prems(4-6)] by (elim exE conjE) (rule that)
    have "munmap_loop root start e (cur # rest) m = Some (Inr (trim_vme cur us ue @ vs', m2))"
      using ov m1(1) I(1) by (simp add: us_def [symmetric] ue_def [symmetric] Let_def)
    moreover have "chain lo (trim_vme cur us ue @ vs')"
    proof -
      have "(if trim_vme cur us ue = [] then lo else vme_end (last (trim_vme cur us ue))) \<le> vme_end cur"
        using T(2) cur(1,2) by auto
      then show ?thesis
        using T(1) I(2) chain_weaken unfolding chain_append by blast
    qed
    moreover have "user_regions (trim_vme cur us ue @ vs')"
      using T(2) I(3) cur(6) by (fastforce simp: user_regions_def word_le_nat_alt)
    moreover have "content_at (trim_vme cur us ue @ vs') va =
        (if start \<le> va \<and> va < e then None else content_at (cur # rest) va)" for va
      using T(3) [of va] I(4) by (simp add: content_at_append content_at_Cons)
    moreover have "unmapped root (covered (cur # rest) start e) m m2"
      using unmapped_trans [OF Cons.prems(1) m1(2) I(5)]
      by (rule unmapped_cong [rotated]) (use cov in \<open>auto simp: us_def ue_def\<close>)
    ultimately show ?thesis
      by blast
  qed
qed

end
