(* ===== verification/Vm_Ops.thy ===== *)
theory Vm_Ops
  imports Vm_Unmap
begin

text \<open>
  What the operations on a user address space promise: \<open>mmap\<close>, \<open>munmap\<close> and the page fault that loads a
  page on demand, over the invariant \<open>wf_vm\<close>. The view \<open>page_view\<close> of an address space is the data a
  program finds in a page, loaded or not; page faults do not change it.
\<close>

section \<open>The invariant\<close>

text \<open>
  A well-formed address space below a sorted list of private regions in the lower half; the direct map
  starts in the upper half, as the boot loader places it.
\<close>

definition wf_vm :: "vm \<Rightarrow> bool" where
  "wf_vm s \<longleftrightarrow>
     wf_user (cr3 s) (mem s) \<and> chain PRIVATE_BASE (vmes s) \<and> user_regions (vmes s) \<and>
     2 ^ 47 \<le> unat (hhdm_offset (mem s)) \<and> unat (hhdm_offset (mem s)) + 2 ^ 27 < 2 ^ 64"

lemma wf_vmD:
  assumes "wf_vm s"
  shows "wf_user (cr3 s) (mem s)" and "chain PRIVATE_BASE (vmes s)" and "user_regions (vmes s)"
    and "2 ^ 47 \<le> unat (hhdm_offset (mem s))" and "unat (hhdm_offset (mem s)) + 2 ^ 27 < 2 ^ 64"
  using assms by (simp_all add: wf_vm_def)

lemma shared_base_unat: "wf_vm s \<Longrightarrow> unat (shared_base s) = unat (hhdm_offset (mem s)) + 2 ^ 27"
  by (simp add: wf_vm_def shared_base_def CONFIGURED_MAX_PA_def unat_word_ariths)

lemma page_align_up_div: "unat (page_align_up a) = unat (a + 4095) div 4096 * 4096"
  using and_not_page [of "a + 4095"] by (simp add: page_align_up_def PAGE_MASK_def)

lemma page_align_up_mod [simp]: "unat (page_align_up a) mod 4096 = 0"
  by (simp add: page_align_up_div)

lemma page_align_up_unat:
  "unat a \<le> 2 ^ 64 - 4096 \<Longrightarrow> unat (page_align_up a) = (unat a + 4095) div 4096 * 4096"
  by (simp add: page_align_up_div unat_word_ariths)

section \<open>munmap\<close>

text \<open>The ranges \<open>munmap\<close> accepts.\<close>

definition unmappable :: "u64 \<Rightarrow> u64 \<Rightarrow> vm \<Rightarrow> bool" where
  "unmappable start len s \<longleftrightarrow>
     unat start mod 4096 = 0 \<and> 0 < unat len \<and> 4096 \<le> unat start \<and>
     unat start + unat (page_align_up len) \<le> unat (hhdm_offset (mem s))"

lemma aligned_word: "(a :: u64) mod 4096 = 0 \<longleftrightarrow> unat a mod 4096 = 0"
  by (simp add: unat_eq_0 [symmetric] unat_mod)

lemma no_wrap: "\<not> a + b < (a :: u64) \<longleftrightarrow> unat a + unat b < 2 ^ 64"
  by (simp only: not_less no_olen_add_nat) simp

lemma munmap_guard:
  assumes wf: "wf_vm s"
  shows "munmap start len s =
    (if unmappable start len s
     then map_option (\<lambda>r. bind_outcome r (\<lambda>(vs, m). Inr (0, s\<lparr>vmes := vs, mem := m\<rparr>)))
       (munmap_loop (cr3 s) start (start + page_align_up len) (vmes s) (mem s))
     else Some (Inr (- 1, s)))"
proof -
  let ?n = "page_align_up len" and ?h = "hhdm_offset (mem s)"
  note sb = shared_base_unat [OF wf]
  have h: "unat ?h < 2 ^ 64"
    using unsigned_less [of ?h, where 'a = nat] by simp
  have pos: "0 < unat len \<longleftrightarrow> len \<noteq> 0"
    by (simp add: unat_gt_0)
  show ?thesis
  proof (cases "start + ?n < start")
    case True
    then have "\<not> unat start + unat ?n < 2 ^ 64"
      using no_wrap [of start ?n] by blast
    then have "\<not> unmappable start len s"
      using h by (simp add: unmappable_def)
    with True show ?thesis
      by (simp add: munmap_def Let_def)
  next
    case False
    then have "unat start + unat ?n < 2 ^ 64"
      by (simp add: no_wrap)
    then have e: "unat (start + ?n) = unat start + unat ?n"
      by (simp add: unat_word_ariths)
    have "\<not> (start < PRIVATE_BASE \<or> start + ?n > ?h) \<longleftrightarrow> 4096 \<le> unat start \<and> unat start + unat ?n \<le> unat ?h"
      by (auto simp: word_less_nat_alt word_le_nat_alt e PRIVATE_BASE_def)
    moreover have "\<not> (start \<ge> shared_base s \<or> start + ?n > shared_base s)" if "unat start + unat ?n \<le> unat ?h"
      using that by (simp add: word_less_nat_alt word_le_nat_alt e sb)
    ultimately show ?thesis
      using False by (auto simp: munmap_def Let_def unmappable_def aligned_word pos)
  qed
qed

text \<open>
  C31. \<open>munmap\<close> always returns. It refuses what is not a page-aligned range of user space and then changes
  nothing; otherwise no address of the range is in a region any more and every other address keeps its
  file, offset and kind, the loaded pages of the regions in the range are unmapped and their frames go
  back to the allocator, and all other pages keep their frames and their data.
\<close>

theorem munmap_ok:
  assumes wf: "wf_vm s"
  shows "\<exists>r s'. munmap start len s = Some (Inr (r, s')) \<and>
    (if unmappable start len s
     then r = 0 \<and> wf_vm s' \<and> s' = s\<lparr>vmes := vmes s', mem := mem s'\<rparr> \<and>
       (\<forall>va. content_at (vmes s') va =
         (if start \<le> va \<and> va < start + page_align_up len then None else content_at (vmes s) va)) \<and>
       unmapped (cr3 s) (covered (vmes s) start (start + page_align_up len)) (mem s) (mem s')
     else r = - 1 \<and> s' = s)"
proof (cases "unmappable start len s")
  case True
  let ?e = "start + page_align_up len"
  note W = wf_vmD [OF wf]
  have nw: "unat start + unat (page_align_up len) < 2 ^ 64"
    using True W(5) by (simp add: unmappable_def)
  then have e: "unat ?e = unat start + unat (page_align_up len)"
    by (simp add: unat_word_ariths)
  then have al: "unat start mod 4096 = 0" "unat ?e mod 4096 = 0" "start \<le> ?e"
    using True by (simp_all add: unmappable_def word_le_nat_alt mod_add_eq [symmetric])
  obtain vs' m' where L: "munmap_loop (cr3 s) start ?e (vmes s) (mem s) = Some (Inr (vs', m'))"
    "chain PRIVATE_BASE vs'" "user_regions vs'"
    "\<forall>va. content_at vs' va = (if start \<le> va \<and> va < ?e then None else content_at (vmes s) va)"
    "unmapped (cr3 s) (covered (vmes s) start ?e) (mem s) m'"
    using munmap_loop_ok [OF W(1-3) al] by (elim exE conjE) (rule that)
  have "wf_vm (s\<lparr>vmes := vs', mem := m'\<rparr>)"
    using W L(2,3,5) by (simp add: wf_vm_def unmapped_def)
  then show ?thesis
    using True L by (simp add: munmap_guard [OF wf])
qed (simp add: munmap_guard [OF wf])

section \<open>mmap\<close>

text \<open>A place for a region of \<open>n\<close> bytes.\<close>

definition room :: "vm \<Rightarrow> u64 \<Rightarrow> u64 \<Rightarrow> bool" where
  "room s a n \<longleftrightarrow> 4096 \<le> unat a \<and> unat a + unat n \<le> unat (hhdm_offset (mem s)) \<and> free_range (vmes s) a n"

definition mmap_refuses :: "u64 \<Rightarrow> u32 \<Rightarrow> Node option \<Rightarrow> u64 \<Rightarrow> bool" where
  "mmap_refuses len flags file offset \<longleftrightarrow>
     len = 0 \<or> unat offset mod 4096 \<noteq> 0 \<or> (flags AND MAP_ANONYMOUS \<noteq> 0) \<noteq> (file = None)"

text \<open>
  C32. A private \<open>mmap\<close> takes the lowest range of user space that is in no region and large enough, and
  backs exactly that range with the file from the offset on; it fails, without effect, only for arguments
  it refuses or when there is no such range. Lengths within a page of \<open>2 ^ 64\<close> are \<open>mmap_wraps\<close>.
\<close>

theorem mmap_private:
  assumes wf: "wf_vm s" and priv: "flags AND MAP_SHARED = 0" and len: "unat len \<le> 2 ^ 64 - 4096"
    and run: "mmap len flags file offset s = (r, s')"
  shows "if mmap_refuses len flags file offset \<or> (\<nexists>a. room s a (page_align_up len)) then r = - 1 \<and> s' = s
    else room s r (page_align_up len) \<and> (\<forall>a. room s a (page_align_up len) \<longrightarrow> r \<le> a) \<and> unat r mod 4096 = 0 \<and>
      s' = s\<lparr>vmes := vmes s'\<rparr> \<and>
      (\<forall>va. content_at (vmes s') va =
        (if unat r \<le> unat va \<and> unat va < unat r + unat (page_align_up len)
         then Some (file, offset + (va - r), False) else content_at (vmes s) va)) \<and>
      (unat r + unat (page_align_up len) \<le> 2 ^ 47 \<longrightarrow> wf_vm s')"
proof (cases "mmap_refuses len flags file offset")
  case True
  then show ?thesis
    using run by (simp add: mmap_def mmap_refuses_def aligned_word Let_def split: if_splits)
next
  case False
  let ?n = "page_align_up len" and ?h = "hhdm_offset (mem s)"
  note W = wf_vmD [OF wf]
  have n: "0 < unat ?n"
  proof -
    have "1 \<le> unat len"
      using False by (simp add: mmap_refuses_def Suc_le_eq unat_gt_0)
    then show ?thesis
      using len by (simp add: page_align_up_unat)
  qed
  obtain vs where ins: "insert_vme (vmes s) PRIVATE_BASE ?h ?n file offset False = (r, vs)" "s' = s\<lparr>vmes := vs\<rparr>"
  proof -
    have c: "len \<noteq> 0" "offset mod 4096 = 0" "(flags AND MAP_ANONYMOUS \<noteq> 0) = (file = None)"
      using False by (simp_all add: mmap_refuses_def aligned_word)
    have "mmap len flags file offset s = (case insert_vme (vmes s) PRIVATE_BASE ?h ?n file offset False of
        (r, vs) \<Rightarrow> (r, s\<lparr>vmes := vs\<rparr>))"
      using c by (auto simp: mmap_def Let_def priv)
    then show thesis
      using run that by (cases "insert_vme (vmes s) PRIVATE_BASE ?h ?n file offset False") simp
  qed
  have base: "4096 \<le> unat a \<longleftrightarrow> PRIVATE_BASE \<le> a" for a
    by (simp add: PRIVATE_BASE_def word_le_nat_alt)
  have least: "r \<noteq> - 1 \<and> r \<le> a" if "room s a ?n" for a
    using insert_vme_first [OF W(2) n ins(1), of a] that by (simp add: room_def base)
  show ?thesis
  proof (cases "r = - 1")
    case True
    then have "\<nexists>a. room s a ?n"
      using least by blast
    moreover have "vs = vmes s"
      using ins(1) True W(5) by (auto simp: insert_vme_def fits_in_range_def split: prod.splits if_splits)
    ultimately show ?thesis
      using True ins(2) by simp
  next
    case ok: False
    have I: "PRIVATE_BASE \<le> r" "unat r + unat ?n \<le> unat ?h" "unat r mod 4096 = 0" "free_range (vmes s) r ?n"
      "chain PRIVATE_BASE vs"
      "\<And>va. content_at vs va = (if unat r \<le> unat va \<and> unat va < unat r + unat ?n
        then Some (file, offset + (va - r), False) else content_at (vmes s) va)"
      using insert_vme_ok [OF W(2) n _ _ ins(1) ok] by (simp_all add: PRIVATE_BASE_def)
    then have rm: "room s r ?n"
      by (simp add: room_def base)
    have "wf_vm s'" if "unat r + unat ?n \<le> 2 ^ 47"
    proof -
      have "user_regions vs"
        using W(3) that ins(1) ok W(5)
        by (auto simp: user_regions_def insert_vme_def unat_word_ariths split: prod.splits if_splits
            dest!: find_gap_parts)
      then show ?thesis
        using W I(5) ins(2) by (simp add: wf_vm_def)
    qed
    moreover have "\<forall>a. room s a ?n \<longrightarrow> r \<le> a"
      using least by blast
    ultimately show ?thesis
      using False rm I(3,6) ins(2) by (simp del: One_nat_def) blast
  qed
qed

text \<open>A length within a page of \<open>2 ^ 64\<close> rounds up to nothing: the call succeeds with an empty region.\<close>

lemma mmap_wraps:
  "\<exists>s'. mmap (- 1) MAP_ANONYMOUS None 0 s = (PRIVATE_BASE, s') \<and> (\<exists>v. vmes s' = [v] \<and> vme_start v = vme_end v)"
  if "vmes s = []" and "PRIVATE_BASE < hhdm_offset (mem s)"
proof -
  have "page_align_up (- 1) = 0"
    by (simp add: page_align_up_def PAGE_MASK_def)
  then show ?thesis
    using that by (simp add: mmap_def MAP_ANONYMOUS_def MAP_SHARED_def Let_def insert_vme_def fits_in_range_def)
qed

section \<open>Loading a page\<close>

text \<open>The words of the page at an offset of a file, zero beyond its end; an anonymous page is zero.\<close>

definition page_words :: "Node option \<Rightarrow> bytes \<Rightarrow> u64 \<Rightarrow> u64 list" where
  "page_words node c off =
     (case node of
        None \<Rightarrow> replicate 512 0
      | Some nd \<Rightarrow> map (\<lambda>i. u64_at (unat off + 8 * i) (node_content nd c)) [0..<512])"

lemma length_page_words [simp]: "length (page_words node c off) = 512"
  by (simp add: page_words_def split: option.split)

lemma frame_words_segment:
  assumes "n = 4096 \<or> o' + n = length c" and "n \<le> 4096" and "o' + n \<le> length c"
  shows "frame_words (segment o' n c) = map (\<lambda>i. u64_at (o' + 8 * i) c) [0..<512]"
proof -
  have "segment (8 * i) 8 (segment o' n c) = segment (o' + 8 * i) 8 c" if "i < 512" for i
  proof (cases "n = 4096")
    case True
    with that have "min 8 (n - 8 * i) = 8"
      by simp
    then show ?thesis
      by (simp add: segment_def drop_take min.commute add.commute)
  next
    case False
    then have "segment o' n c = drop o' c"
      using assms by (auto simp: segment_def)
    then show ?thesis
      by (simp add: segment_def add.commute)
  qed
  then show ?thesis
    by (simp add: frame_words_def u64_at_def)
qed

lemma u64_at_beyond: "length c \<le> off \<Longrightarrow> u64_at off c = 0"
  by (simp add: u64_at_def segment_def)

lemma load_page_ok:
  assumes node: "\<forall>nd. vme_node v = Some nd \<longrightarrow> wf_node nd c"
    and al: "unat (va - vme_start v) mod 4096 = 0"
  shows "load_page v va frame m =
    Inr (m\<lparr>ram := (ram m)(frame := page_words (vme_node v) c (vme_offset v + (va - vme_start v)))\<rparr>)"
proof (cases "vme_node v")
  case None
  then show ?thesis
    by (simp add: load_page_def page_words_def Let_def)
next
  case (Some nd)
  let ?off = "vme_offset v + (va - vme_start v)" and ?c = "node_content nd c"
  have wf: "wf_node nd c"
    using node Some by simp
  have pi: "(va - vme_start v) div 4096 * 4096 = va - vme_start v"
  proof -
    have "(va - vme_start v) mod 4096 = 0"
      using al by (simp only: aligned_word)
    then show ?thesis
      using div_mult_mod_eq [of "va - vme_start v" 4096] by simp
  qed
  define sz where "sz = Node_size_in_bytes nd"
  have sz: "unat sz = length ?c" and lc: "length ?c < 2 ^ 32"
    using length_node_content [OF wf] u32_bound [of "size_low (node_data nd)"] by (simp_all add: sz_def Node_size_in_bytes_def)
  have szw: "unat (ucast sz :: u64) = length ?c"
    using sz lc by (simp add: unsigned_ucast_eq take_bit_nat_eq_self)
  show ?thesis
  proof (cases "ucast sz \<le> ?off")
    case True
    then have "length ?c \<le> unat ?off"
      using szw by (simp add: word_le_nat_alt)
    then have "page_words (Some nd) c ?off = replicate 512 0"
      by (simp add: page_words_def u64_at_beyond map_replicate_const)
    then show ?thesis
      using True Some pi by (simp add: load_page_def Let_def sz_def)
  next
    case False
    then have off: "unat ?off < length ?c"
      using szw by (simp add: word_le_nat_alt)
    define n :: u64 where "n = (if ?off + 4096 > ucast sz then ucast sz - ?off else 4096)"
    have u: "unat (?off + 4096) = unat ?off + 4096"
      using off lc by (simp add: unat_word_ariths)
    have n: "unat n = min 4096 (length ?c - unat ?off)"
      using False szw u unat_sub [of ?off "ucast sz :: u64"] by (auto simp: n_def word_less_nat_alt word_le_nat_alt)
    have o32: "unat (ucast ?off :: u32) = unat ?off"
      using off lc by (simp add: unsigned_ucast_eq take_bit_nat_eq_self)
    have n32: "unat (ucast n :: u32) = unat n"
      using n by (simp add: unsigned_ucast_eq take_bit_nat_eq_self)
    have sn: "sint n = int (unat n)"
    proof -
      have "unat n < 2 ^ 63"
        using n by simp
      then have "uint n < 2 ^ 63"
        by (simp add: nat_less_iff flip: nat_uint_eq)
      then have "signed_take_bit 63 (uint n) = uint n"
        using uint_ge_0 [of n] by (intro signed_take_bit_int_eq_self) linarith+
      then have "sint n = uint n"
        by (simp add: sint_uint)
      then show ?thesis
        by simp
    qed
    have fw: "frame_words (segment (unat ?off) (unat n) ?c) = page_words (Some nd) c ?off"
      using off n by (subst frame_words_segment) (auto simp: page_words_def)
    have "BlockIO_read_all (Node_io nd) (ucast ?off) (ucast n) = Inr (int (unat n), segment (unat ?off) (unat n) ?c)"
      using node.read_all_result [of "(nd, c)" "ucast ?off" "ucast n"] wf off n by (simp add: read_result_def o32 n32)
    then have rd: "BlockIO_read_all (Node_io nd) (ucast ?off) (ucast n) = Inr (sint n, segment (unat ?off) (unat n) ?c)"
      by (simp only: sn)
    have "load_page v va frame m =
        bind_outcome (BlockIO_read_all (Node_io nd) (ucast ?off) (ucast n)) (\<lambda>(cnt, bs).
        bind_outcome (assert_that (cnt = sint n) ''cnt == int64_t(bytes_to_read)'') (\<lambda>_.
          Inr (m\<lparr>ram := (ram m)(frame := frame_words bs)\<rparr>)))"
      using False Some by (simp only: load_page_def Let_def pi option.case sz_def [symmetric] n_def if_False) simp
    then show ?thesis
      by (simp only: rd) (simp add: assert_that_def fw Some)
  qed
qed

section \<open>Page faults\<close>

lemma chain_aligned: "chain lo vs \<Longrightarrow> v \<in> set vs \<Longrightarrow> unat (vme_start v) mod 4096 = 0"
  by (induction vs arbitrary: lo) auto

text \<open>What a page fault does: the page gets a frame of the pool with the words of its region.\<close>

definition loaded :: "u64 \<Rightarrow> u64 list \<Rightarrow> vm \<Rightarrow> vm \<Rightarrow> bool" where
  "loaded vpn ws s s' \<longleftrightarrow>
     s' = s\<lparr>mem := mem s'\<rparr> \<and> hhdm_offset (mem s') = hhdm_offset (mem s) \<and>
     (\<exists>f. unat f \<in> set (pool (mem s)) \<and> ram (mem s') f = ws \<and>
        (\<forall>v. lower v \<longrightarrow> small_page (cr3 s) (mem s') v =
          (if v = vpn then Some (make_entry f True True) else small_page (cr3 s) (mem s) v))) \<and>
     (\<forall>v e. lower v \<and> v \<noteq> vpn \<and> small_page (cr3 s) (mem s) v = Some e \<longrightarrow>
        ram (mem s') (frame_of e) = ram (mem s) (frame_of e))"

lemma private_fault_ok:
  assumes wf: "wf_vm s" and al: "unat va mod 4096 = 0" and low: "unat va < 2 ^ 47"
    and reg: "content_at (vmes s) va = Some (node, off, sh)"
    and node: "\<forall>nd. node = Some nd \<longrightarrow> wf_node nd c" and pl: "4 \<le> length (pool (mem s))"
  shows "\<exists>s'. private_fault va s = Inr s' \<and> wf_vm s' \<and> loaded (drop_bit 12 va) (page_words node c off) s s'"
proof -
  let ?m = "mem s" and ?r = "cr3 s" and ?v = "drop_bit 12 va" and ?ws = "page_words node c off"
  note W = wf_vmD [OF wf]
  obtain p where p: "find_vme (vmes s) va = Some p" "node = vme_node p" "off = vme_offset p + (va - vme_start p)"
    using reg by (auto simp: content_at_def)
  have lv: "lower ?v"
    using low by (simp add: lower_def drop_bit_eq_div unat_div less_mult_imp_div_less)
  obtain f m1 where a: "alloc_frame ?m = Inr (f, m1)"
    using alloc_frame_succeeds [of ?m] wf_userD(3) [OF W(1)] pl by fastforce
  note A = alloc_user [OF W(1) a]
  define m2 where "m2 = m1\<lparr>ram := (ram m1)(f := ?ws)\<rparr>"
  have f: "f \<notin> space_tables ?r m1" "unat f < 2 ^ 36"
    using A(2) by (simp_all add: unused_def)
  note F = fill_user [OF A(1) f(1), of ?ws, folded m2_def]
  have un: "unused ?r m2 f"
    using A(2) F(2,3,4) by (simp add: unused_def)
  note U2 = wf_userD [OF F(1)]
  have "3 \<le> length (pool m2)"
    using pl A(6) F(4) by simp
  then obtain m3 where mp: "map_in_root ?r ?v f True True m2 = Inr m3"
    using map_at_succeeds [OF U2(2,3)] U2(4) by (fastforce simp: map_in_root_def root_of_def space_tables_def)
  note M = map_user [OF F(1) un lv mp]
  have "unat (va - vme_start p) mod 4096 = 0"
  proof -
    have "p \<in> set (vmes s)" "vme_start p \<le> va"
      using find_vme_Some [OF p(1)] by simp_all
    then have "unat (vme_start p) mod 4096 = 0" "unat (va - vme_start p) = unat va - unat (vme_start p)"
      using chain_aligned [OF W(2)] by (simp_all add: unat_sub)
    then show ?thesis
      using al by (auto simp: mod_eq_0_iff_dvd intro: dvd_diff_nat)
  qed
  from load_page_ok [OF _ this] have ld: "load_page p va f m1 = Inr m2"
    using node p(2,3) by (simp add: m2_def)
  define s' where "s' = s\<lparr>mem := m3\<rparr>"
  have run: "private_fault va s = Inr s'"
    using p(1) a ld mp canonical_low [OF low] by (simp add: private_fault_def VPN_of_def s'_def)
  have view: "small_page ?r m3 v = (if v = ?v then Some (make_entry f True True) else small_page ?r ?m v)" if "lower v" for v
    using M(2) [OF that] F(2) A(3) by simp
  have data: "ram m3 (frame_of e) = ram ?m (frame_of e)" if "lower v" "v \<noteq> ?v" "small_page ?r ?m v = Some e" for v e
  proof -
    have e: "frame_of e \<notin> space_tables ?r ?m" "unat (frame_of e) \<notin> set (pool ?m)"
      using wf_userD(5) [OF W(1) that(1,3)] by simp_all
    then have "frame_of e \<noteq> f" "unat (frame_of e) \<notin> set (pool m2)"
      using A(6) F(4) by auto
    moreover have "frame_of e \<notin> space_tables ?r m2"
      using e F(3) A(4) by simp
    ultimately show ?thesis
      using M(3) A(5) by (simp add: m2_def)
  qed
  have "ram m3 f = ?ws"
    using M(3) [of f] un by (simp add: unused_def m2_def)
  then have "loaded ?v ?ws s s'"
    unfolding loaded_def using view data A(6,7) M(5) by (auto simp: s'_def m2_def)
  moreover have "wf_vm s'"
    using W M(1,5) A(7) by (simp add: wf_vm_def s'_def m2_def)
  ultimately show ?thesis
    using run by blast
qed

lemma fault_is_private:
  assumes wf: "wf_vm s" and "unat cr2 < 2 ^ 47"
  shows "pageFaultHandler cr2 code disabled s =
    (if disabled then Inl (Panic ''!is_disabled()'')
     else if code AND 1 \<noteq> 0 then Inl (Panic ''Page fault at ?, error code: ?, rip: ?'')
     else private_fault (page_align_down cr2) s)"
proof -
  have "unat (page_align_down cr2) \<le> unat cr2"
    by (simp add: page_align_down_unat)
  then have "\<not> page_align_down cr2 \<ge> shared_base s"
    using assms wf_vmD(4) [OF wf] by (simp add: word_le_nat_alt shared_base_unat)
  then show ?thesis
    by (simp add: pageFaultHandler_def assert_that_def Let_def)
qed

text \<open>
  A page fault in user space gives the page a frame of its own with the bytes its region stands for,
  the file's at the region's offset and zeros beyond the end of the file, and leaves every other page and
  its data alone; a fault outside every region panics.
\<close>

theorem page_fault_loads:
  assumes "wf_vm s" and "unat cr2 < 2 ^ 47" and "code AND 1 = 0"
    and "\<forall>nd off sh. content_at (vmes s) (page_align_down cr2) = Some (Some nd, off, sh) \<longrightarrow> wf_node nd c"
    and "4 \<le> length (pool (mem s))"
  shows "case content_at (vmes s) (page_align_down cr2) of
      None \<Rightarrow> pageFaultHandler cr2 code False s = Inl (Panic ''Page fault at ?, error code: ?, rip: ?'')
    | Some (node, off, sh) \<Rightarrow>
        \<exists>s'. pageFaultHandler cr2 code False s = Inr s' \<and> wf_vm s' \<and>
          loaded (drop_bit 12 cr2) (page_words node c off) s s'"
proof (cases "content_at (vmes s) (page_align_down cr2)")
  case None
  then have "find_vme (vmes s) (page_align_down cr2) = None"
    by (simp add: content_at_None)
  with None show ?thesis
    using assms(1-3) by (simp add: fault_is_private private_fault_def)
next
  case (Some r)
  obtain node off sh where r: "r = (node, off, sh)"
    by (cases r)
  have "unat (page_align_down cr2) mod 4096 = 0" "unat (page_align_down cr2) < 2 ^ 47"
    using assms(2) by (simp_all add: page_align_down_unat le_less_trans [OF div_times_less_eq_dividend])
  moreover have "drop_bit 12 (page_align_down cr2) = drop_bit 12 cr2"
    by (rule unat_eqI) (simp add: drop_bit_eq_div unat_div page_align_down_unat)
  ultimately show ?thesis
    using private_fault_ok [OF assms(1), of "page_align_down cr2" node off sh c] assms Some r
    by (simp add: fault_is_private)
qed

section \<open>What a program sees\<close>

text \<open>
  The words of a page as a program finds them, where \<open>c\<close> is the disk its files are on: those of its
  frame, and before the first access those of its region.
\<close>

definition page_view :: "bytes \<Rightarrow> vm \<Rightarrow> u64 \<Rightarrow> u64 list option" where
  "page_view c s v =
     (case small_page (cr3 s) (mem s) v of
        Some e \<Rightarrow> Some (ram (mem s) (frame_of e))
      | None \<Rightarrow> map_option (\<lambda>(node, off, sh). page_words node c off) (content_at (vmes s) (push_bit 12 v)))"

text \<open>The processor faults on pages that are not loaded; each fault is handled with frames to spare.\<close>

inductive faults :: "vm \<Rightarrow> vm \<Rightarrow> bool" where
  none: "faults s s"
| fault: "faults s s1 \<Longrightarrow> unat cr2 < 2 ^ 47 \<Longrightarrow> small_page (cr3 s1) (mem s1) (drop_bit 12 cr2) = None \<Longrightarrow>
    4 \<le> length (pool (mem s1)) \<Longrightarrow> pageFaultHandler cr2 code False s1 = Inr s2 \<Longrightarrow> faults s s2"

definition files_on :: "bytes \<Rightarrow> vm \<Rightarrow> bool" where
  "files_on c s \<longleftrightarrow> (\<forall>va nd off sh. content_at (vmes s) va = Some (Some nd, off, sh) \<longrightarrow> wf_node nd c)"

lemma page_fault_step:
  assumes wf: "wf_vm s" and low: "unat cr2 < 2 ^ 47" and fs: "files_on c s"
    and pl: "4 \<le> length (pool (mem s))" and run: "pageFaultHandler cr2 code False s = Inr s'"
  obtains node off sh where "content_at (vmes s) (page_align_down cr2) = Some (node, off, sh)"
    and "wf_vm s'" and "loaded (drop_bit 12 cr2) (page_words node c off) s s'"
proof -
  have pf: "private_fault (page_align_down cr2) s = Inr s'"
    using run fault_is_private [OF wf low, of code False] by (simp split: if_splits)
  then obtain node off sh where r: "content_at (vmes s) (page_align_down cr2) = Some (node, off, sh)"
    by (cases "content_at (vmes s) (page_align_down cr2)") (auto simp: private_fault_def content_at_None)
  have "unat (page_align_down cr2) mod 4096 = 0" "unat (page_align_down cr2) < 2 ^ 47"
    using low by (simp_all add: page_align_down_unat le_less_trans [OF div_times_less_eq_dividend])
  moreover have "drop_bit 12 (page_align_down cr2) = drop_bit 12 cr2"
    by (rule unat_eqI) (simp add: drop_bit_eq_div unat_div page_align_down_unat)
  moreover have "\<forall>nd. node = Some nd \<longrightarrow> wf_node nd c"
    using fs r by (auto simp: files_on_def)
  ultimately show ?thesis
    using private_fault_ok [OF wf _ _ r _ pl, of c] pf r that by auto
qed

lemma page_start: "unat a < 2 ^ 47 \<Longrightarrow> push_bit 12 (drop_bit 12 a) = page_align_down a"
  by (rule unat_eqI) (simp add: page_align_down_unat push_bit_eq_mult drop_bit_eq_div unat_word_ariths unat_div)

lemma loaded_view:
  assumes "wf_vm s" and "unat cr2 < 2 ^ 47" and "small_page (cr3 s) (mem s) (drop_bit 12 cr2) = None"
    and "content_at (vmes s) (page_align_down cr2) = Some (node, off, sh)"
    and "loaded (drop_bit 12 cr2) (page_words node c off) s s'" and "lower v"
  shows "page_view c s' v = page_view c s v"
proof -
  obtain f where f: "unat f \<in> set (pool (mem s))" "ram (mem s') f = page_words node c off"
      "small_page (cr3 s) (mem s') v = (if v = drop_bit 12 cr2 then Some (make_entry f True True) else small_page (cr3 s) (mem s) v)"
    and s': "s' = s\<lparr>mem := mem s'\<rparr>"
    and data: "\<And>e. v \<noteq> drop_bit 12 cr2 \<Longrightarrow> small_page (cr3 s) (mem s) v = Some e \<Longrightarrow>
      ram (mem s') (frame_of e) = ram (mem s) (frame_of e)"
    using assms(5,6) unfolding loaded_def by blast
  have "unat f < 2 ^ 40"
    using pool_below [of "phys (mem s)" "unat f"] wf_userD(3) [OF wf_vmD(1) [OF assms(1)]] f(1)
    by (auto simp: pool_def)
  then have fr: "frame_of (make_entry f True True) = f"
    by (rule frame_of_make_entry)
  have "cr3 s' = cr3 s" "vmes s' = vmes s"
    by (subst s', simp)+
  then show ?thesis
    using f data assms(3,4) page_start [OF assms(2)] fr
    by (auto simp: page_view_def split: option.split)
qed

text \<open>
  C33. Demand paging is invisible: whatever faults are handled, in whatever order, every page reads as
  before, whether it is loaded or still only backed by its region, and the invariant is kept.
\<close>

theorem demand_paging_invisible:
  assumes "faults s s'" and "wf_vm s" and "files_on c s" and "lower v"
  shows "wf_vm s' \<and> vmes s' = vmes s \<and> page_view c s' v = page_view c s v"
  using assms
proof induction
  case (fault s s1 cr2 code s2)
  then have s1: "wf_vm s1" "vmes s1 = vmes s" "page_view c s1 v = page_view c s v" "files_on c s1"
    by (simp_all add: files_on_def)
  obtain node off sh where f: "content_at (vmes s1) (page_align_down cr2) = Some (node, off, sh)"
    and wf2: "wf_vm s2" and ld: "loaded (drop_bit 12 cr2) (page_words node c off) s1 s2"
    by (rule page_fault_step [OF s1(1) fault.hyps(2) s1(4) fault.hyps(4,5)]) (rule that)
  have "page_view c s2 v = page_view c s1 v"
    by (rule loaded_view [OF s1(1) fault.hyps(2,3) f ld fault.prems(3)])
  moreover have "vmes s2 = vmes s1"
  proof -
    have "s2 = s1\<lparr>mem := mem s2\<rparr>"
      using ld unfolding loaded_def by blast
    then have "vmes s2 = vmes (s1\<lparr>mem := mem s2\<rparr>)"
      by (rule arg_cong)
    then show ?thesis
      by simp
  qed
  ultimately show ?case
    using s1 wf2 by simp
qed simp

section \<open>A sample machine\<close>

text \<open>Eight usable frames at 1 MB, an empty root table in frame 16, and a file of three bytes.\<close>

definition demo_map :: "memmap_entry list" where
  "demo_map = [\<lparr>mm_base = 0x100000, mm_length = 0x8000, mm_type = Usable\<rparr>]"

definition demo_vm :: "VME list \<Rightarrow> vm" where
  "demo_vm vs =
     \<lparr>mem = \<lparr>ram = (\<lambda>_. replicate 512 0), phys = PhysMem_init (Some demo_map), memmap = Some demo_map,
        hhdm_offset = 0xFFFF800000000000\<rparr>,
      cr3 = 0x10000, common_cr3 = 0x20000, vmes = vs, shared_vmes = [], shared_roots_ready = 1, active_vmm_threads = 1\<rparr>"

definition demo_disk :: bytes where "demo_disk = [7, 8, 9] @ replicate 1021 0"

definition demo_region :: VME where
  "demo_region = \<lparr>vme_start = 4096, vme_end = 16384, vme_node = Some (node_on demo_disk 0x81A4 3 2 0 0),
     vme_offset = 0, vme_shared = False\<rparr>"

lemma demo_fields [simp]:
  "cr3 (demo_vm vs) = 0x10000" "vmes (demo_vm vs) = vs" "hhdm_offset (mem (demo_vm vs)) = 0xFFFF800000000000"
  "memmap (mem (demo_vm vs)) = Some demo_map" "ram (mem (demo_vm vs)) = (\<lambda>_. replicate 512 0)"
  by (simp_all add: demo_vm_def)

lemma demo_pool: "pool (mem (demo_vm vs)) = [256..<264]"
  by (simp add: demo_vm_def pool_def pool_frames_def PhysMem_init_def demo_map_def add_range_def range_frames_def)

lemma demo_tables:
  "space_tables 0x10000 (mem (demo_vm vs)) = {16}" "wf_tables (ram (mem (demo_vm vs))) 3 (root_of 0x10000)"
  "page_at 0x10000 (mem (demo_vm vs)) v = None" "small_page 0x10000 (mem (demo_vm vs)) v = None"
proof -
  have r: "root_of 0x10000 = 16"
    by (simp add: root_of_def PPN_of_def PPN_MASK_def)
  note Z = zero_table [of "ram (mem (demo_vm vs))" "root_of 0x10000"]
  show "space_tables 0x10000 (mem (demo_vm vs)) = {16}" "wf_tables (ram (mem (demo_vm vs))) 3 (root_of 0x10000)"
    "page_at 0x10000 (mem (demo_vm vs)) v = None"
    using Z r by (simp_all add: space_tables_def page_at_def)
  then show "small_page 0x10000 (mem (demo_vm vs)) v = None"
    by (simp add: small_page_leaf leaf.simps(2) [of _ 2, unfolded numeral_2_eq_2] numeral_3_eq_3 is_table_def is_present_def)
qed

lemma demo_usable: "usable_tracked (mem (demo_vm vs))"
  unfolding usable_tracked_def
proof (intro allI impI)
  fix ppn :: u64
  assume asm: "pa_in_usable_range (memmap (mem (demo_vm vs))) (PA_of_PPN ppn) \<and> unat ppn < 2 ^ 36"
  then have "unat (PA_of_PPN ppn) \<le> 0x107000"
    by (simp add: pa_in_usable_range_def demo_map_def entry_covers_def FRAME_SIZE_def word_le_nat_alt)
  moreover have "unat (PA_of_PPN ppn) = 4096 * unat ppn"
    using asm by (simp add: PA_of_PPN_def LOG_FRAME_SIZE_def push_bit_eq_mult unat_word_ariths)
  ultimately show "ppn_is_tracked ppn"
    by (simp add: tracked_iff)
qed

lemma demo_wf: "chain PRIVATE_BASE vs \<Longrightarrow> user_regions vs \<Longrightarrow> wf_vm (demo_vm vs)"
proof -
  assume vs: "chain PRIVATE_BASE vs" "user_regions vs"
  have "wf_memmap demo_map"
    by (simp add: demo_map_def wf_memmap_def entry_range_def wf_range_def range_frames_def)
  then have "phys_inv (phys (mem (demo_vm vs)))"
    by (simp add: demo_vm_def phys_inv_init)
  then have "wf_user 0x10000 (mem (demo_vm vs))"
    unfolding wf_user_def wf_space_def using demo_tables(2) [of vs] by (simp add: demo_tables demo_pool demo_usable)
  with vs show ?thesis
    by (simp add: wf_vm_def)
qed

lemma demo_node:
  "wf_node (node_on demo_disk 0x81A4 3 2 0 0) demo_disk"
  "node_content (node_on demo_disk 0x81A4 3 2 0 0) demo_disk = [7, 8, 9]"
proof -
  have len: "length demo_disk = 1024"
    by (simp add: demo_disk_def)
  show "wf_node (node_on demo_disk 0x81A4 3 2 0 0) demo_disk"
    by (rule node_on_wf) (simp_all add: len)
  have "blocks_used (node_on demo_disk 0x81A4 3 2 0 0) = 1"
    by (subst node_on_wf) (simp_all add: len)
  moreover have "block_of (node_on demo_disk 0x81A4 3 2 0 0) demo_disk 0 = segment 0 1024 demo_disk"
    using node_on_wf(3) [of demo_disk 3 2 0 0 0 "0x81A4"] by (simp add: len)
  ultimately show "node_content (node_on demo_disk 0x81A4 3 2 0 0) demo_disk = [7, 8, 9]"
    by (simp add: node_content_def node_on_fields segment_def) (simp add: demo_disk_def)
qed

lemma demo_wf_region: "wf_vm (demo_vm [demo_region])"
  by (intro demo_wf) (simp_all add: demo_region_def PRIVATE_BASE_def user_regions_def)

theorem munmap_ok_witness:
  "\<exists>s'. munmap 8192 1 (demo_vm [demo_region]) = Some (Inr (0, s')) \<and> wf_vm s' \<and>
     content_at (vmes s') 8192 = None \<and>
     content_at (vmes s') 12290 = Some (Some (node_on demo_disk 0x81A4 3 2 0 0), 8194, False)"
proof -
  have n: "page_align_up 1 = 4096"
    by (rule unat_eqI) (simp add: page_align_up_unat)
  have u: "unmappable 8192 1 (demo_vm [demo_region])"
    by (simp add: unmappable_def n)
  have "content_at [demo_region] 12290 = Some (Some (node_on demo_disk 0x81A4 3 2 0 0), 8194, False)"
    by (simp add: content_at_Cons demo_region_def)
  then show ?thesis
    using munmap_ok [OF demo_wf_region, of 8192 1] u by (auto simp: n)
qed

theorem mmap_private_witness:
  "\<exists>s'. mmap 5000 MAP_ANONYMOUS None 0 (demo_vm [demo_region]) = (16384, s') \<and> wf_vm s' \<and>
     content_at (vmes s') 24575 = Some (None, 8191, False) \<and> content_at (vmes s') 24576 = None"
proof -
  have n: "page_align_up 5000 = 8192"
    by (rule unat_eqI) (simp add: page_align_up_unat)
  obtain s' where run: "mmap 5000 MAP_ANONYMOUS None 0 (demo_vm [demo_region]) = (16384, s')"
    by (simp add: mmap_def MAP_ANONYMOUS_def MAP_SHARED_def Let_def insert_vme_def demo_region_def
        PRIVATE_BASE_def n fits_in_range_def)
  have "room (demo_vm [demo_region]) 16384 8192"
    by (auto simp: room_def free_range_def demo_region_def word_less_nat_alt)
  then have ok: "\<not> (mmap_refuses 5000 MAP_ANONYMOUS None 0 \<or> (\<nexists>a. room (demo_vm [demo_region]) a (page_align_up 5000)))"
    unfolding n by (simp add: mmap_refuses_def MAP_ANONYMOUS_def) blast
  have args: "MAP_ANONYMOUS AND MAP_SHARED = 0" "unat (5000 :: u64) \<le> 2 ^ 64 - 4096"
    by (simp_all add: MAP_ANONYMOUS_def MAP_SHARED_def)
  have M: "wf_vm s'" "content_at (vmes s') va =
      (if 16384 \<le> unat va \<and> unat va < 24576 then Some (None, va - 16384, False) else content_at [demo_region] va)" for va
    using mmap_private [OF demo_wf_region args run, unfolded if_not_P [OF ok]] by (simp_all add: n)
  have "content_at [demo_region] 24576 = None"
    by (simp add: content_at_Cons demo_region_def)
  then show ?thesis
    using run M(1) by (simp add: M(2))
qed

lemma demo_file: "files_on demo_disk (demo_vm [demo_region])"
  unfolding files_on_def
proof (intro allI impI)
  fix va nd off sh
  assume "content_at (vmes (demo_vm [demo_region])) va = Some (Some nd, off, sh)"
  then have "nd = node_on demo_disk 0x81A4 3 2 0 0"
    by (simp add: content_at_Cons demo_region_def split: if_splits)
  then show "wf_node nd demo_disk"
    by (simp add: demo_node)
qed

lemma demo_page:
  "content_at [demo_region] 4096 = Some (Some (node_on demo_disk 0x81A4 3 2 0 0), 0, False)"
  "page_align_down 5000 = 4096"
  "page_words (Some (node_on demo_disk 0x81A4 3 2 0 0)) demo_disk 0 = 0x90807 # replicate 511 0"
proof -
  show "content_at [demo_region] 4096 = Some (Some (node_on demo_disk 0x81A4 3 2 0 0), 0, False)"
    by (simp add: content_at_Cons demo_region_def)
  show "page_align_down 5000 = 4096"
    by (rule unat_eqI) (simp add: page_align_down_unat)
  have "[0..<512] = (0 :: nat) # [Suc 0..<512]"
    by (rule upt_conv_Cons) simp
  moreover have "u64_at (8 * i) [7, 8, 9] = 0" if "i \<in> set [Suc 0..<512]" for i
    using that by (intro u64_at_beyond) simp
  then have "map (\<lambda>i. u64_at (8 * i) [7, 8, 9]) [Suc 0..<512] = map (\<lambda>_. 0) [Suc 0..<512]"
    by (intro map_cong) auto
  ultimately show "page_words (Some (node_on demo_disk 0x81A4 3 2 0 0)) demo_disk 0 = 0x90807 # replicate 511 0"
    by (simp add: page_words_def demo_node map_replicate_const u64_at_def segment_def)
qed

theorem page_fault_loads_witness:
  "\<exists>s'. pageFaultHandler 5000 4 False (demo_vm [demo_region]) = Inr s' \<and> wf_vm s' \<and>
     loaded 1 (0x90807 # replicate 511 0) (demo_vm [demo_region]) s'"
  using page_fault_loads [OF demo_wf_region, of 5000 4 demo_disk]
  by (simp add: demo_page demo_pool demo_node)

theorem demand_paging_invisible_witness:
  "\<exists>s'. faults (demo_vm [demo_region]) s' \<and> small_page 0x10000 (mem s') 1 \<noteq> None \<and>
     page_view demo_disk s' 1 = Some (0x90807 # replicate 511 0)"
proof -
  have reg: "content_at (vmes (demo_vm [demo_region])) 4096 = Some (Some (node_on demo_disk 0x81A4 3 2 0 0), 0, False)"
    by (simp add: demo_page)
  obtain s' where s': "private_fault 4096 (demo_vm [demo_region]) = Inr s'"
      "loaded 1 (0x90807 # replicate 511 0) (demo_vm [demo_region]) s'"
    using private_fault_ok [OF demo_wf_region _ _ reg, of demo_disk] by (auto simp: demo_pool demo_node demo_page)
  have run: "pageFaultHandler 5000 4 False (demo_vm [demo_region]) = Inr s'"
    by (simp add: fault_is_private [OF demo_wf_region] demo_page s'(1))
  have f: "faults (demo_vm [demo_region]) s'"
    by (rule faults.fault [OF faults.none _ _ _ run]) (simp_all add: demo_tables demo_pool)
  have "page_view demo_disk (demo_vm [demo_region]) 1 = Some (0x90807 # replicate 511 0)"
    by (simp add: page_view_def demo_tables demo_page)
  moreover have "small_page 0x10000 (mem s') 1 \<noteq> None"
    using s'(2) unfolding loaded_def by (auto simp: lower_def)
  ultimately show ?thesis
    using demand_paging_invisible [OF f demo_wf_region demo_file, of 1] f by (auto simp: lower_def)
qed

section \<open>User buffers\<close>



end
