(* ===== verification/User_Mem.thy ===== *)
theory User_Mem
  imports Vm_Ops
begin

text \<open>
  Accesses of the kernel to the memory of the current process: single bytes and ranges, through the page
  tables, as the processor translates them; \<open>None\<close> is an access that faults. For a buffer in the lower
  half whose pages are loaded, writing a range changes these bytes and nothing else.
\<close>

section \<open>Definitions\<close>

definition word_byte :: "u64 \<Rightarrow> nat \<Rightarrow> u8" where
  "word_byte w k = ucast (drop_bit (8 * k) w)"

definition set_word_byte :: "u64 \<Rightarrow> nat \<Rightarrow> u8 \<Rightarrow> u64" where
  "set_word_byte w k b = (w AND NOT (push_bit (8 * k) 0xFF)) OR push_bit (8 * k) (ucast b)"

definition canonical :: "u64 \<Rightarrow> bool" where "canonical a \<longleftrightarrow> signed_drop_bit 16 (push_bit 16 a) = a"

definition user_byte :: "u64 \<Rightarrow> memory \<Rightarrow> u64 \<Rightarrow> u8 option" where
  "user_byte root m a =
     (if canonical a
      then map_option (\<lambda>e. word_byte (ram m (frame_of e) ! (unat a mod 4096 div 8)) (unat a mod 8))
        (small_page root m (drop_bit 12 a))
      else None)"

definition put_user_byte :: "u64 \<Rightarrow> u64 \<Rightarrow> u8 \<Rightarrow> memory \<Rightarrow> memory option" where
  "put_user_byte root a b m =
     (if canonical a
      then map_option (\<lambda>e.
        let i = unat a mod 4096 div 8
        in set_entry (frame_of e) i (set_word_byte (ram m (frame_of e) ! i) (unat a mod 8) b) m)
        (small_page root m (drop_bit 12 a))
      else None)"

fun user_bytes :: "u64 \<Rightarrow> memory \<Rightarrow> u64 \<Rightarrow> nat \<Rightarrow> bytes option" where
  "user_bytes root m a 0 = Some []"
| "user_bytes root m a (Suc n) =
     Option.bind (user_byte root m a) (\<lambda>b. map_option ((#) b) (user_bytes root m (a + 1) n))"

fun put_user_bytes :: "u64 \<Rightarrow> u64 \<Rightarrow> bytes \<Rightarrow> memory \<Rightarrow> memory option" where
  "put_user_bytes root a [] m = Some m"
| "put_user_bytes root a (b # bs) m = Option.bind (put_user_byte root a b m) (put_user_bytes root (a + 1) bs)"

section \<open>Bytes of words\<close>

lemma word_byte_bits: "bit (word_byte w k) n \<longleftrightarrow> n < 8 \<and> bit w (8 * k + n)"
  by (auto simp: word_byte_def bit_simps)

lemma set_word_byte_bits:
  assumes "k < 8" and "n < 64"
  shows "bit (set_word_byte w k b) n \<longleftrightarrow> (if 8 * k \<le> n \<and> n < 8 * k + 8 then bit b (n - 8 * k) else bit w n)"
proof -
  have m: "(0xFF :: u64) = mask 8"
    by (simp add: mask_eq_exp_minus_1)
  show ?thesis
    unfolding set_word_byte_def m using assms by (auto simp: bit_simps dest: bit_imp_le_length)
qed

lemma word_byte_set:
  assumes "k < 8" and "j < 8"
  shows "word_byte (set_word_byte w k b) j = (if j = k then b else word_byte w j)"
proof (rule bit_word_eqI)
  fix n
  assume n: "n < LENGTH(8)"
  show "bit (word_byte (set_word_byte w k b) j) n = bit (if j = k then b else word_byte w j) n"
  proof (cases "j = k")
    case True
    then show ?thesis
      using n assms by (simp add: word_byte_bits set_word_byte_bits)
  next
    case False
    then have "\<not> (8 * k \<le> 8 * j + n \<and> 8 * j + n < 8 * k + 8)"
      using n by auto
    then have "bit (set_word_byte w k b) (8 * j + n) = bit w (8 * j + n)"
      by (subst set_word_byte_bits) (use n assms in auto)
    then show ?thesis
      using n False by (simp add: word_byte_bits)
  qed
qed

section \<open>Writing user memory\<close>

text \<open>The frames of the loaded pages have all their words.\<close>

definition full_frames :: "u64 \<Rightarrow> memory \<Rightarrow> bool" where
  "full_frames root m \<longleftrightarrow> (\<forall>v e. lower v \<and> small_page root m v = Some e \<longrightarrow> length (ram m (frame_of e)) = 512)"

definition lower_address :: "u64 \<Rightarrow> bool" where "lower_address a \<longleftrightarrow> unat a < 2 ^ 47"

lemma lower_canonical: "lower_address a \<Longrightarrow> canonical a"
  using canonical_low [of a]
  by (simp add: lower_address_def canonical_def check_canonical_def assert_that_def split: if_splits)

lemma lower_page: "lower_address a \<Longrightarrow> lower (drop_bit 12 a)"
  by (simp add: lower_address_def lower_def drop_bit_eq_div unat_div less_mult_imp_div_less)

lemma offset_in_page: "drop_bit 12 x = drop_bit 12 a \<Longrightarrow> unat x mod 4096 = unat a mod 4096 \<Longrightarrow> x = (a :: u64)"
proof (rule unat_eqI)
  assume "drop_bit 12 x = drop_bit 12 a" and m: "unat x mod 4096 = unat a mod 4096"
  then have "unat (drop_bit 12 x) = unat (drop_bit 12 a)"
    by simp
  then have "unat x div 4096 = unat a div 4096"
    by (simp add: drop_bit_eq_div unat_div)
  with m show "unat x = unat a"
    by (metis div_mult_mod_eq)
qed

text \<open>What a write to user memory leaves as it is.\<close>

definition same_space :: "u64 \<Rightarrow> memory \<Rightarrow> memory \<Rightarrow> bool" where
  "same_space root m m' \<longleftrightarrow>
     wf_user root m' \<and> full_frames root m' \<and> (\<forall>v. small_page root m' v = small_page root m v) \<and>
     phys m' = phys m \<and> memmap m' = memmap m \<and> hhdm_offset m' = hhdm_offset m"

lemma put_user_byte_ok:
  assumes wf: "wf_user root m" and full: "full_frames root m" and a: "lower_address a"
    and mapped: "small_page root m (drop_bit 12 a) \<noteq> None"
  shows "\<exists>m'. put_user_byte root a b m = Some m' \<and> same_space root m m' \<and>
    (\<forall>x. lower_address x \<longrightarrow> user_byte root m' x = (if x = a then Some b else user_byte root m x))"
proof -
  let ?i = "unat a mod 4096 div 8" and ?k = "unat a mod 8"
  obtain e where e: "small_page root m (drop_bit 12 a) = Some e"
    using mapped by blast
  let ?f = "frame_of e"
  let ?ws = "(ram m ?f)[?i := set_word_byte (ram m ?f ! ?i) ?k b]"
  define m' where "m' = m\<lparr>ram := (ram m)(?f := ?ws)\<rparr>"
  note U = wf_userD [OF wf]
  have ft: "?f \<notin> space_tables root m"
    using U(5) [OF lower_page [OF a] e] by blast
  note F = fill_user [OF wf ft, of ?ws, folded m'_def]
  have len: "length (ram m ?f) = 512"
    using full lower_page [OF a] e by (simp add: full_frames_def)
  have i: "?i < 512" "?k < 8"
    by (simp_all add: less_mult_imp_div_less)
  have run: "put_user_byte root a b m = Some m'"
    by (simp add: put_user_byte_def lower_canonical [OF a] e Let_def set_entry_def m'_def)
  have "full_frames root m'"
    using full len F(2) by (simp add: full_frames_def m'_def)
  then have same: "same_space root m m'"
    using F(1,2) by (simp add: same_space_def m'_def)
  have "user_byte root m' x = (if x = a then Some b else user_byte root m x)" if x: "lower_address x" for x
  proof (cases "drop_bit 12 x = drop_bit 12 a")
    case True
    let ?j = "unat x mod 4096 div 8" and ?l = "unat x mod 8"
    have "ram m' ?f = ?ws"
      by (simp add: m'_def)
    then have ub: "user_byte root m' x = Some (word_byte (?ws ! ?j) ?l)" "user_byte root m x = Some (word_byte (ram m ?f ! ?j) ?l)"
      by (simp_all add: user_byte_def lower_canonical [OF x] F(2) True e)
    have l: "?l < 8"
      by simp
    have eq: "?j = ?i \<and> ?l = ?k \<longleftrightarrow> x = a"
    proof
      assume jl: "?j = ?i \<and> ?l = ?k"
      have "unat y mod 4096 = 8 * (unat y mod 4096 div 8) + unat y mod 8" for y :: u64
        using mult_div_mod_eq [of 8 "unat y mod 4096"] by (simp add: mod_mod_cancel)
      with jl have "unat x mod 4096 = unat a mod 4096"
        by metis
      with True show "x = a"
        by (rule offset_in_page)
    qed simp
    show ?thesis
    proof (cases "?j = ?i")
      case ji: True
      then have "?ws ! ?j = set_word_byte (ram m ?f ! ?i) ?k b"
        using i len by simp
      then show ?thesis
        using ub word_byte_set [OF i(2) l] eq ji by auto
    next
      case False
      then show ?thesis
        using ub eq by auto
    qed
  next
    case False
    then have "x \<noteq> a"
      by auto
    moreover have "ram m' (frame_of e') = ram m (frame_of e')" if "small_page root m (drop_bit 12 x) = Some e'" for e'
      using U(6) [OF lower_page [OF x] lower_page [OF a] that e] False by (auto simp: m'_def)
    ultimately show ?thesis
      by (cases "small_page root m (drop_bit 12 x)") (simp_all add: user_byte_def lower_canonical [OF x] F(2))
  qed
  then show ?thesis
    using run same by blast
qed

lemma same_space_refl: "wf_user root m \<Longrightarrow> full_frames root m \<Longrightarrow> same_space root m m"
  by (simp add: same_space_def)

text \<open>A range of user memory, byte by byte.\<close>

lemma put_user_bytes_ok:
  assumes "wf_user root m" and "full_frames root m" and "unat a + length bs \<le> 2 ^ 47"
    and "\<forall>x. unat a \<le> unat x \<and> unat x < unat a + length bs \<longrightarrow> small_page root m (drop_bit 12 x) \<noteq> None"
  shows "\<exists>m'. put_user_bytes root a bs m = Some m' \<and> same_space root m m' \<and>
    (\<forall>x. lower_address x \<longrightarrow> user_byte root m' x =
      (if unat a \<le> unat x \<and> unat x < unat a + length bs then Some (bs ! (unat x - unat a)) else user_byte root m x))"
  using assms
proof (induction bs arbitrary: a m)
  case Nil
  then show ?case
    by (auto simp: same_space_refl)
next
  case (Cons b bs)
  have la: "lower_address a"
    using Cons.prems(3) by (simp add: lower_address_def)
  obtain m1 where m1: "put_user_byte root a b m = Some m1" "same_space root m m1"
    "\<And>x. lower_address x \<Longrightarrow> user_byte root m1 x = (if x = a then Some b else user_byte root m x)"
    using put_user_byte_ok [OF Cons.prems(1,2) la, of b] Cons.prems(4) by auto
  have s1: "wf_user root m1" "full_frames root m1" "\<And>v. small_page root m1 v = small_page root m v"
    using m1(2) by (simp_all add: same_space_def)
  have a1: "unat (a + 1) = unat a + 1"
    using Cons.prems(3) by (simp add: unat_word_ariths)
  obtain m2 where m2: "put_user_bytes root (a + 1) bs m1 = Some m2" "same_space root m1 m2"
    "\<And>x. lower_address x \<Longrightarrow> user_byte root m2 x =
      (if unat a + 1 \<le> unat x \<and> unat x < unat a + 1 + length bs then Some (bs ! (unat x - (unat a + 1)))
       else user_byte root m1 x)"
  proof -
    have l: "unat (a + 1) + length bs \<le> 2 ^ 47"
      using Cons.prems(3) a1 by simp
    have pg: "\<forall>x. unat (a + 1) \<le> unat x \<and> unat x < unat (a + 1) + length bs \<longrightarrow> small_page root m1 (drop_bit 12 x) \<noteq> None"
      using Cons.prems(4) s1(3) a1 by simp
    show thesis
      using Cons.IH [OF s1(1,2) l pg, unfolded a1] by (elim exE conjE) (rule that, blast+)
  qed
  have "same_space root m m2"
    using m1(2) m2(2) by (simp add: same_space_def)
  moreover have "user_byte root m2 x =
      (if unat a \<le> unat x \<and> unat x < unat a + length (b # bs) then Some ((b # bs) ! (unat x - unat a))
       else user_byte root m x)" if x: "lower_address x" for x
  proof (cases "x = a")
    case True
    then show ?thesis
      using m1(3) [OF x] m2(3) [OF x] by simp
  next
    case False
    then have "unat x \<noteq> unat a"
      using unat_eqI by blast
    then show ?thesis
      using m1(3) [OF x] m2(3) [OF x] False by (auto simp: nth_Cons')
  qed
  ultimately show ?case
    using m1(1) m2(1) by auto
qed

lemma user_bytes_ok:
  assumes "unat a + length bs \<le> 2 ^ 47" and "\<forall>i < length bs. user_byte root m (a + word_of_nat i) = Some (bs ! i)"
  shows "user_bytes root m a (length bs) = Some bs"
  using assms
proof (induction bs arbitrary: a)
  case (Cons b bs)
  have a1: "unat (a + 1) = unat a + 1"
    using Cons.prems(1) by (simp add: unat_word_ariths)
  have "user_byte root m (a + 1 + word_of_nat i) = Some (bs ! i)" if "i < length bs" for i
    using Cons.prems(2) that by (auto dest!: spec [of _ "Suc i"] simp: add.assoc)
  then have "user_bytes root m (a + 1) (length bs) = Some bs"
    using Cons.prems(1) a1 by (intro Cons.IH) simp_all
  moreover have "user_byte root m a = Some b"
    using Cons.prems(2) by (auto dest!: spec [of _ 0])
  ultimately show ?case
    by simp
qed simp

section \<open>Addresses outside the lower half\<close>

text \<open>
  The walk of the page tables looks at 48 bits of an address only, so it finds the same entry for an
  address that is not canonical.
\<close>

abbreviation alias_offset :: u64
  where "alias_offset \<equiv> 0x1000000000"

lemma add_above_or:
  assumes "unat v < 2 ^ k"
  shows "v + push_bit k 1 = v OR push_bit k (1 :: u64)"
proof -
  have no: "\<not> bit v k"
    using bit_below [of v k k] assms by blast
  have "v AND push_bit k 1 = 0"
  proof (rule bit_word_eqI)
    fix n
    show "bit (v AND push_bit k 1) n = bit (0 :: u64) n"
      using no by (cases "n = k") (simp_all add: bit_simps)
  qed
  then show ?thesis
    by (rule disjunctive_add_eq_or)
qed

lemma table_index_alias:
  assumes "lower v" and "level \<le> 3"
  shows "table_index (v + alias_offset) level = table_index v level"
proof -
  have p: "alias_offset = push_bit 36 1"
    by simp
  have b: "bit (v + alias_offset) k = bit v k" if k: "k < 36" for k
  proof -
    have "v + push_bit 36 1 = v OR push_bit 36 1"
      using assms(1) by (intro add_above_or) (simp add: lower_def)
    with k show ?thesis
      by (simp only: p bit_or_iff bit_push_bit_iff bit_1_iff) auto
  qed
  have "drop_bit (level * 9) (v + alias_offset) AND 0x1FF = drop_bit (level * 9) v AND (0x1FF :: u64)"
  proof (rule bit_word_eqI)
    fix n
    have "n < 9 \<Longrightarrow> level * 9 + n < 36"
      using assms(2) by simp
    then show "bit (drop_bit (level * 9) (v + alias_offset) AND 0x1FF) n = bit (drop_bit (level * 9) v AND (0x1FF :: u64)) n"
      using b by (auto simp: index_bits)
  qed
  then show ?thesis
    by (simp add: table_index_def)
qed

lemma find_pte_alias:
  "lower v \<Longrightarrow> level \<le> 3 \<Longrightarrow> find_pte_loop level t (v + alias_offset) m = find_pte_loop level t v m"
proof (induction level arbitrary: t)
  case 0
  then show ?case
    using table_index_alias [of v 0] by simp
next
  case (Suc level)
  then show ?case
    using table_index_alias [of v "Suc level"] by (simp add: Let_def)
qed

lemma small_page_alias: "lower v \<Longrightarrow> small_page root m (v + alias_offset) = small_page root m v"
  by (simp add: small_page_def find_pte_alias)

text \<open>The addresses above the hole of the canonical form that the pages of the lower half alias.\<close>

abbreviation alias_base :: u64
  where "alias_base \<equiv> 0x1000000000000"

lemma alias_base_add:
  assumes "lower_address a"
  shows "unat (a + alias_base) = unat a + 2 ^ 48" and "drop_bit 12 (a + alias_base) = drop_bit 12 a + alias_offset"
    and "\<not> canonical (a + alias_base)"
proof -
  show u: "unat (a + alias_base) = unat a + 2 ^ 48"
    using assms by (simp add: lower_address_def unat_word_ariths)
  show "drop_bit 12 (a + alias_base) = drop_bit 12 a + alias_offset"
  proof (rule unat_eqI)
    have "unat a div 4096 < 2 ^ 35"
      using assms by (simp add: lower_address_def less_mult_imp_div_less)
    then have "unat (drop_bit 12 a + alias_offset) = unat a div 4096 + 2 ^ 36"
      by (simp add: unat_word_ariths drop_bit_eq_div unat_div)
    then show "unat (drop_bit 12 (a + alias_base)) = unat (drop_bit 12 a + alias_offset)"
      by (simp add: drop_bit_eq_div unat_div u)
  qed
  have p: "alias_base = push_bit 48 1"
    by simp
  have "a + alias_base = a OR push_bit 48 1"
    unfolding p using assms by (intro add_above_or) (simp add: lower_address_def)
  moreover have "\<not> bit a 47"
    using bit_below [of a 47 47] assms by (auto simp: lower_address_def)
  ultimately have b: "bit (a + alias_base) 48" "\<not> bit (a + alias_base) 47"
    by (simp_all only: bit_or_iff bit_push_bit_iff bit_1_iff) simp_all
  have "bit (signed_drop_bit 16 (push_bit 16 w)) 48 = bit w 47" for w :: u64
    by (simp add: bit_signed_drop_bit_iff bit_simps)
  with b show "\<not> canonical (a + alias_base)"
    unfolding canonical_def by metis
qed

text \<open>
  C39. The check of a user buffer accepts addresses that the processor does not: with the direct map where
  the boot loader puts it, a buffer accepted in the lower half is accepted again \<open>2 ^ 48\<close> bytes higher, where
  no address is canonical and every access faults.
\<close>

theorem noncanonical_accepted:
  assumes ok: "user_buffer_ok root a n m = Some True" and n: "0 < n" and low: "unat a + unat n \<le> 2 ^ 47"
    and hh: "2 ^ 48 + 2 ^ 47 \<le> unat (hhdm_offset m)"
  shows "user_buffer_ok root (a + 0x1000000000000) n m = Some True \<and> \<not> canonical (a + 0x1000000000000) \<and>
    user_byte root m (a + 0x1000000000000) = None"
proof -
  have n0: "0 < unat n"
    using n by (simp add: word_less_nat_alt)
  then have la: "lower_address a"
    using low by (simp add: lower_address_def)
  note A = alias_base_add [OF la]
  have acc: "accessible root m a n"
    using ok n by (simp add: user_buffer_ok_result)
  have "user_page root m (drop_bit 12 x)"
    if x: "unat a + 2 ^ 48 \<le> unat x" "unat x < unat a + 2 ^ 48 + unat n" for x
  proof -
    define y where "y = x - alias_base"
    have y: "unat y = unat x - 2 ^ 48"
      using x unfolding y_def by (subst unat_sub) (simp_all add: word_le_nat_alt)
    have xy: "x = y + alias_base"
      by (simp add: y_def)
    have ly: "lower_address y"
      using x y low by (simp add: lower_address_def)
    have "unat a \<le> unat y \<and> unat y < unat a + unat n"
      using x unfolding y by arith
    then have "user_page root m (drop_bit 12 y)"
      using acc by (simp add: accessible_def)
    then show ?thesis
      unfolding xy alias_base_add(2) [OF ly] user_page_def small_page_alias [OF lower_page [OF ly]] .
  qed
  then have "accessible root m (a + alias_base) n"
    using acc hh low A(1) by (simp add: accessible_def)
  then show ?thesis
    using n A(3) by (auto simp: user_buffer_ok_result user_byte_def)
qed

text \<open>The address space of the examples after its first page has been loaded.\<close>

lemma demo_loaded:
  obtains s' f where "pageFaultHandler 5000 4 False (demo_vm [demo_region]) = Inr s'" and "wf_vm s'"
    and "s' = (demo_vm [demo_region])\<lparr>mem := mem s'\<rparr>" and "full_frames 0x10000 (mem s')"
    and "hhdm_offset (mem s') = 0xFFFF800000000000" and "ram (mem s') f = 0x90807 # replicate 511 0" and "unat f < 2 ^ 40"
    and "\<And>v. lower v \<Longrightarrow> small_page 0x10000 (mem s') v = (if v = 1 then Some (make_entry f True True) else None)"
proof -
  have reg: "content_at (vmes (demo_vm [demo_region])) 4096 = Some (Some (node_on demo_disk 0x81A4 3 2 0 0), 0, False)"
    by (simp add: demo_page)
  obtain s' where s': "private_fault 4096 (demo_vm [demo_region]) = Inr s'" "wf_vm s'"
      "loaded 1 (0x90807 # replicate 511 0) (demo_vm [demo_region]) s'"
    using private_fault_ok [OF demo_wf_region _ _ reg, of demo_disk] by (auto simp: demo_pool demo_node demo_page)
  have run: "pageFaultHandler 5000 4 False (demo_vm [demo_region]) = Inr s'"
    by (simp add: fault_is_private [OF demo_wf_region] demo_page s'(1))
  obtain f where f: "unat f < 264" "ram (mem s') f = 0x90807 # replicate 511 0"
    "\<And>v. lower v \<Longrightarrow> small_page 0x10000 (mem s') v = (if v = 1 then Some (make_entry f True True) else None)"
  proof -
    have "x < 264" if "x \<in> set [256..<264]" for x :: nat
      using that by auto
    then show thesis
      using s'(3) that unfolding loaded_def demo_fields demo_tables demo_pool by blast
  qed
  then have fr: "frame_of (make_entry f True True) = f"
    by (intro frame_of_make_entry) simp
  have "full_frames 0x10000 (mem s')"
    using f(2,3) fr by (auto simp: full_frames_def split: if_splits)
  then show thesis
    using that run s'(2,3) f by (simp add: loaded_def)
qed

lemma demo_buffer:
  assumes f: "\<And>v. lower v \<Longrightarrow> small_page 0x10000 m v = (if v = 1 then Some (make_entry f True True) else None)"
    and h: "hhdm_offset m = 0xFFFF800000000000"
    and n: "0 < n" "4096 \<le> unat a" "unat a + unat n \<le> 8192"
  shows "user_buffer_ok 0x10000 a n m = Some True"
proof -
  have "drop_bit 12 x = 1" if "4096 \<le> unat x" "unat x < 8192" for x :: u64
    using that by (intro unat_eqI) (simp add: drop_bit_eq_div unat_div)
  moreover have "user_page 0x10000 m 1"
    using f [of 1] by (simp add: user_page_def lower_def)
  ultimately have "accessible 0x10000 m a n"
    using n h by (simp add: accessible_def)
  then show ?thesis
    using n(1) by (auto simp: user_buffer_ok_result)
qed

theorem noncanonical_accepted_witness:
  "\<exists>s'. pageFaultHandler 5000 4 False (demo_vm [demo_region]) = Inr s' \<and>
     user_buffer_ok 0x10000 0x1000000001388 8 (mem s') = Some True \<and> user_byte 0x10000 (mem s') 0x1000000001388 = None"
proof -
  obtain s' f where s': "pageFaultHandler 5000 4 False (demo_vm [demo_region]) = Inr s'"
      "hhdm_offset (mem s') = 0xFFFF800000000000"
      "\<And>v. lower v \<Longrightarrow> small_page 0x10000 (mem s') v = (if v = 1 then Some (make_entry f True True) else None)"
    by (rule demo_loaded) (rule that)
  have "user_buffer_ok 0x10000 5000 8 (mem s') = Some True"
    by (rule demo_buffer [OF s'(3,2)]) simp_all
  from noncanonical_accepted [OF this] s' show ?thesis
    by simp
qed

end
