(* ===== verification/Monitor.thy ===== *)
theory Monitor
  imports Prelude
begin

text \<open>
  Condition variables, \<^verbatim>\<open>condition.h\<close>, with the part of the thread switch in \<^verbatim>\<open>thread.cc\<close> that completes
  a wait. A monitor is an object with a spin lock and one condition: what a thread does between taking
  and releasing the lock is one step, an \<open>attempt\<close>, given by the object's code. A thread that must wait
  notes the epoch of the condition and releases the lock; only after the switch to another thread is it
  put on the waiting list, or made ready again if there was a notification in between. The two locales
  say what an object's code must promise so that no wake-up is lost.
\<close>

section \<open>Definitions\<close>

type_synonym tid = nat

datatype notification = Quiet | Notify_one | Notify_all

text \<open>What a thread does with the lock held: it is done, it has to wait and then goes on with an operation, or it panics.\<close>

datatype ('st, 'op, 'r) attempt = Finish 'st notification 'r | Wait_with 'st 'op | Fail_with string

text \<open>Where a thread is; \<open>Switching\<close> holds the epoch noted by \<open>wait\<close>.\<close>

datatype ('op, 'r) phase = Idle | Calling 'op | Switching 'op nat | Waiting 'op | Done 'r | Panicked string

record ('st, 'op, 'r) monitor =
  mon_state :: 'st
  cond_epoch :: nat
  cond_waiting :: "tid list"
  mon_phase :: "tid \<Rightarrow> ('op, 'r) phase"

definition mon_init :: "'st \<Rightarrow> ('st, 'op, 'r) monitor" where
  "mon_init st = \<lparr>mon_state = st, cond_epoch = 0, cond_waiting = [], mon_phase = (\<lambda>_. Idle)\<rparr>"

definition set_phase :: "tid \<Rightarrow> ('op, 'r) phase \<Rightarrow> ('st, 'op, 'r) monitor \<Rightarrow> ('st, 'op, 'r) monitor" where
  "set_phase t p m = m\<lparr>mon_phase := (mon_phase m)(t := p)\<rparr>"

text \<open>Moving a thread to the ready queue.\<close>

definition make_ready :: "('op, 'r) phase \<Rightarrow> ('op, 'r) phase" where
  "make_ready p = (case p of Waiting op \<Rightarrow> Calling op | Switching op e \<Rightarrow> Calling op | q \<Rightarrow> q)"

definition notify_one :: "('st, 'op, 'r) monitor \<Rightarrow> ('st, 'op, 'r) monitor" where
  "notify_one m =
     (case cond_waiting m of
        [] \<Rightarrow> m\<lparr>cond_epoch := cond_epoch m + 1\<rparr>
      | t # ts \<Rightarrow> set_phase t (make_ready (mon_phase m t)) (m\<lparr>cond_epoch := cond_epoch m + 1, cond_waiting := ts\<rparr>))"

definition notify_all :: "('st, 'op, 'r) monitor \<Rightarrow> ('st, 'op, 'r) monitor" where
  "notify_all m =
     m\<lparr>cond_epoch := cond_epoch m + 1, cond_waiting := [],
       mon_phase := (\<lambda>t. if t \<in> set (cond_waiting m) then make_ready (mon_phase m t) else mon_phase m t)\<rparr>"

definition notify :: "notification \<Rightarrow> ('st, 'op, 'r) monitor \<Rightarrow> ('st, 'op, 'r) monitor" where
  "notify k m = (case k of Quiet \<Rightarrow> m | Notify_one \<Rightarrow> notify_one m | Notify_all \<Rightarrow> notify_all m)"

text \<open>\<open>Condition::wait\<close> up to the switch, and without a switch when no thread is ready.\<close>

definition wait :: "tid \<Rightarrow> 'op \<Rightarrow> ('st, 'op, 'r) monitor \<Rightarrow> ('st, 'op, 'r) monitor" where
  "wait t op m = set_phase t (Switching op (cond_epoch m)) m"

definition wait_alone :: "tid \<Rightarrow> 'op \<Rightarrow> ('st, 'op, 'r) monitor \<Rightarrow> ('st, 'op, 'r) monitor" where
  "wait_alone t op m = set_phase t (Calling op) m"

text \<open>The end of the switch, \<open>TCB::post_switch\<close> with action \<open>Wait\<close>.\<close>

definition post_switch :: "tid \<Rightarrow> 'op \<Rightarrow> nat \<Rightarrow> ('st, 'op, 'r) monitor \<Rightarrow> ('st, 'op, 'r) monitor" where
  "post_switch t op e m =
     (if cond_epoch m = e then set_phase t (Waiting op) (m\<lparr>cond_waiting := cond_waiting m @ [t]\<rparr>)
      else set_phase t (make_ready (mon_phase m t)) m)"

text \<open>The steps of the threads, in any order; a step that is not possible is none.\<close>

datatype 'op event = Call tid 'op | Attempt tid | Attempt_alone tid | Park tid

fun mon_step :: "('op \<Rightarrow> 'st \<Rightarrow> ('st, 'op, 'r) attempt) \<Rightarrow> 'op event \<Rightarrow> ('st, 'op, 'r) monitor \<Rightarrow>
    ('st, 'op, 'r) monitor option" where
  "mon_step act (Call t op) m =
     (case mon_phase m t of
        Idle \<Rightarrow> Some (set_phase t (Calling op) m)
      | Done r \<Rightarrow> Some (set_phase t (Calling op) m)
      | _ \<Rightarrow> None)"
| "mon_step act (Attempt t) m =
     (case mon_phase m t of
        Calling op \<Rightarrow>
          (case act op (mon_state m) of
             Finish st k r \<Rightarrow> Some (notify k (set_phase t (Done r) (m\<lparr>mon_state := st\<rparr>)))
           | Wait_with st op' \<Rightarrow> Some (wait t op' (m\<lparr>mon_state := st\<rparr>))
           | Fail_with msg \<Rightarrow> Some (set_phase t (Panicked msg) m))
      | _ \<Rightarrow> None)"
| "mon_step act (Attempt_alone t) m =
     (case mon_phase m t of
        Calling op \<Rightarrow>
          (case act op (mon_state m) of
             Wait_with st op' \<Rightarrow> Some (wait_alone t op' (m\<lparr>mon_state := st\<rparr>))
           | _ \<Rightarrow> None)
      | _ \<Rightarrow> None)"
| "mon_step act (Park t) m =
     (case mon_phase m t of
        Switching op e \<Rightarrow> Some (post_switch t op e m)
      | _ \<Rightarrow> None)"

fun mon_run :: "('op \<Rightarrow> 'st \<Rightarrow> ('st, 'op, 'r) attempt) \<Rightarrow> 'op event list \<Rightarrow> ('st, 'op, 'r) monitor \<Rightarrow>
    ('st, 'op, 'r) monitor option" where
  "mon_run act [] m = Some m"
| "mon_run act (e # es) m = Option.bind (mon_step act e m) (mon_run act es)"

inductive reachable :: "('op \<Rightarrow> 'st \<Rightarrow> ('st, 'op, 'r) attempt) \<Rightarrow> 'st \<Rightarrow> ('st, 'op, 'r) monitor \<Rightarrow> bool"
  for act st0 where
  init: "reachable act st0 (mon_init st0)"
| step: "reachable act st0 m \<Longrightarrow> mon_step act e m = Some m' \<Longrightarrow> reachable act st0 m'"

lemma reachable_run: "mon_run act es m = Some m' \<Longrightarrow> reachable act st0 m \<Longrightarrow> reachable act st0 m'"
  by (induction es arbitrary: m) (auto simp: bind_eq_Some_conv intro: reachable.step)

text \<open>No thread can go on unless one starts a new operation.\<close>

definition at_rest :: "('st, 'op, 'r) monitor \<Rightarrow> bool" where
  "at_rest m \<longleftrightarrow> (\<forall>t. case mon_phase m t of Calling _ \<Rightarrow> False | Switching _ _ \<Rightarrow> False | _ \<Rightarrow> True)"

section \<open>The waiting list\<close>

definition mon_inv :: "('st, 'op, 'r) monitor \<Rightarrow> bool" where
  "mon_inv m \<longleftrightarrow>
     distinct (cond_waiting m) \<and>
     (\<forall>t. t \<in> set (cond_waiting m) \<longleftrightarrow> (\<exists>op. mon_phase m t = Waiting op)) \<and>
     (\<forall>t op e. mon_phase m t = Switching op e \<longrightarrow> e \<le> cond_epoch m)"

lemma set_phase_simps [simp]:
  "mon_state (set_phase t p m) = mon_state m" "cond_epoch (set_phase t p m) = cond_epoch m"
  "cond_waiting (set_phase t p m) = cond_waiting m" "mon_phase (set_phase t p m) = (mon_phase m)(t := p)"
  by (simp_all add: set_phase_def)

lemma notify_simps [simp]: "mon_state (notify k m) = mon_state m"
  by (simp add: notify_def notify_one_def notify_all_def split: notification.split list.split)

text \<open>The phases after a notification: threads on the list may be ready, the others are as before.\<close>

lemma notify_phase:
  assumes "mon_inv m"
  shows "mon_phase (notify k m) t = mon_phase m t \<or>
    (k \<noteq> Quiet \<and> (\<exists>op. mon_phase m t = Waiting op \<and> mon_phase (notify k m) t = Calling op))"
  using assms
  by (auto simp: notify_def notify_one_def notify_all_def mon_inv_def make_ready_def split: notification.split list.split)

lemma notify_inv: "mon_inv m \<Longrightarrow> mon_inv (notify k m)"
  by (auto simp: notify_def notify_one_def notify_all_def mon_inv_def make_ready_def
      split: notification.split list.split phase.splits intro: le_SucI)

lemma set_phase_inv:
  assumes "mon_inv m" and "\<nexists>op. mon_phase m t = Waiting op" and "\<nexists>op. p = Waiting op"
    and "\<And>op e. p = Switching op e \<Longrightarrow> e \<le> cond_epoch m"
  shows "mon_inv (set_phase t p (m\<lparr>mon_state := st\<rparr>))"
  using assms unfolding mon_inv_def by auto

lemma mon_step_inv:
  assumes inv: "mon_inv m" and step: "mon_step act e m = Some m'"
  shows "mon_inv m'"
proof (cases e)
  case (Call t op)
  then show ?thesis
    using assms set_phase_inv [OF inv, of t "Calling op" "mon_state m"] by (auto split: phase.splits)
next
  case (Attempt t)
  then obtain op where op: "mon_phase m t = Calling op"
    using step by (auto split: phase.splits)
  then show ?thesis
    using assms Attempt set_phase_inv [OF inv, of t] set_phase_inv [OF inv, of t _ "mon_state m"]
    by (auto simp: wait_def split: attempt.splits intro!: notify_inv)
next
  case (Attempt_alone t)
  then show ?thesis
    using assms set_phase_inv [OF inv, of t] by (auto simp: wait_alone_def split: phase.splits attempt.splits)
next
  case (Park t)
  then show ?thesis
    using assms by (auto simp: post_switch_def mon_inv_def make_ready_def split: phase.splits if_splits)
qed

lemma reachable_inv: "reachable act st0 m \<Longrightarrow> mon_inv m"
proof (induction rule: reachable.induct)
  case init
  show ?case
    by (simp add: mon_init_def mon_inv_def)
qed (rule mon_step_inv)

section \<open>Objects that notify all waiting threads\<close>

text \<open>
  The promise: an operation that has to wait is blocked, and whatever may unblock an operation notifies
  all. Then a thread only ever waits for an operation that is blocked.
\<close>

definition no_lost_wakeup :: "('op \<Rightarrow> 'st \<Rightarrow> bool) \<Rightarrow> ('st, 'op, 'r) monitor \<Rightarrow> bool" where
  "no_lost_wakeup blocked m \<longleftrightarrow>
     (\<forall>t op. mon_phase m t = Waiting op \<longrightarrow> blocked op (mon_state m)) \<and>
     (\<forall>t op. mon_phase m t = Switching op (cond_epoch m) \<longrightarrow> blocked op (mon_state m))"

lemma notify_all_wakes:
  assumes "mon_inv m"
  shows "no_lost_wakeup blocked (notify Notify_all m)"
proof -
  have "mon_phase (notify Notify_all m) t \<noteq> Waiting op" for t op
    using assms by (auto simp: notify_def notify_all_def mon_inv_def make_ready_def split: phase.splits)
  moreover have "mon_phase (notify Notify_all m) t \<noteq> Switching op (cond_epoch (notify Notify_all m))" for t op
  proof
    assume "mon_phase (notify Notify_all m) t = Switching op (cond_epoch (notify Notify_all m))"
    then have "mon_phase m t = Switching op (cond_epoch m + 1)"
      by (auto simp: notify_def notify_all_def make_ready_def split: phase.splits if_splits)
    then have "cond_epoch m + 1 \<le> cond_epoch m"
      using assms unfolding mon_inv_def by blast
    then show False
      by simp
  qed
  ultimately show ?thesis
    by (simp add: no_lost_wakeup_def)
qed

text \<open>A notification leaves no more threads waiting than there were.\<close>

lemma notify_keeps:
  assumes "mon_inv m" and "no_lost_wakeup blocked m"
  shows "no_lost_wakeup blocked (notify k m)"
proof (cases k)
  case Notify_one
  have "mon_phase (notify k m) t = Waiting op \<Longrightarrow> mon_phase m t = Waiting op" for t op
    using notify_phase [OF assms(1), of k t] by auto
  moreover have "mon_phase (notify k m) t \<noteq> Switching op (cond_epoch (notify k m))" for t op
  proof
    assume a: "mon_phase (notify k m) t = Switching op (cond_epoch (notify k m))"
    have "cond_epoch (notify k m) = cond_epoch m + 1"
      by (simp add: Notify_one notify_def notify_one_def split: list.split)
    with a have "mon_phase m t = Switching op (cond_epoch m + 1)"
      using notify_phase [OF assms(1), of k t] by auto
    then have "cond_epoch m + 1 \<le> cond_epoch m"
      using assms unfolding mon_inv_def by blast
    then show False
      by simp
  qed
  ultimately show ?thesis
    using assms(2) unfolding no_lost_wakeup_def notify_simps by blast
qed (use assms notify_all_wakes in \<open>simp_all add: notify_def\<close>)

lemma keeps_blocked:
  assumes "no_lost_wakeup blocked m" and "\<forall>o'. blocked o' (mon_state m) \<longrightarrow> blocked o' st"
    and "\<And>op. p = Waiting op \<or> p = Switching op (cond_epoch m) \<Longrightarrow> blocked op st"
  shows "no_lost_wakeup blocked (set_phase t p (m\<lparr>mon_state := st\<rparr>))"
  using assms by (auto simp: no_lost_wakeup_def)

locale signalling =
  fixes act :: "'op \<Rightarrow> 'st \<Rightarrow> ('st, 'op, 'r) attempt"
    and blocked :: "'op \<Rightarrow> 'st \<Rightarrow> bool"
  assumes waits: "act op st = Wait_with st' op' \<Longrightarrow> blocked op' st' \<and> (\<forall>o'. blocked o' st \<longrightarrow> blocked o' st')"
    and finishes: "act op st = Finish st' k r \<Longrightarrow> k = Notify_all \<or> (\<forall>o'. blocked o' st \<longrightarrow> blocked o' st')"
begin

lemma step_keeps:
  assumes inv: "mon_inv m" and nl: "no_lost_wakeup blocked m" and step: "mon_step act e m = Some m'"
  shows "no_lost_wakeup blocked m'"
proof (cases e)
  case (Call t op)
  then show ?thesis
    using step keeps_blocked [OF nl, of "mon_state m" "Calling op" t] by (auto split: phase.splits)
next
  case (Attempt t)
  then obtain op where op: "mon_phase m t = Calling op"
    using step by (auto split: phase.splits)
  show ?thesis
  proof (cases "act op (mon_state m)")
    case (Finish st k r)
    let ?m = "set_phase t (Done r) (m\<lparr>mon_state := st\<rparr>)"
    have m': "m' = notify k ?m"
      using step Attempt op Finish by simp
    have inv': "mon_inv ?m"
      by (rule set_phase_inv [OF inv]) (simp_all add: op)
    show ?thesis
    proof (cases "k = Notify_all")
      case True
      show ?thesis
        unfolding m' True by (rule notify_all_wakes [OF inv'])
    next
      case False
      then have "no_lost_wakeup blocked ?m"
        using finishes [OF Finish] by (intro keeps_blocked [OF nl]) auto
      then show ?thesis
        unfolding m' by (rule notify_keeps [OF inv'])
    qed
  next
    case (Wait_with st op')
    then have m': "m' = set_phase t (Switching op' (cond_epoch m)) (m\<lparr>mon_state := st\<rparr>)"
      using step Attempt op by (simp add: wait_def)
    show ?thesis
      unfolding m' using waits [OF Wait_with] by (intro keeps_blocked [OF nl]) auto
  next
    case (Fail_with msg)
    then have "m' = set_phase t (Panicked msg) (m\<lparr>mon_state := mon_state m\<rparr>)"
      using step Attempt op by simp
    then show ?thesis
      using keeps_blocked [OF nl, of "mon_state m" "Panicked msg" t] by auto
  qed
next
  case (Attempt_alone t)
  then obtain op st op' where "mon_phase m t = Calling op" "act op (mon_state m) = Wait_with st op'"
      "m' = set_phase t (Calling op') (m\<lparr>mon_state := st\<rparr>)"
    using step by (auto simp: wait_alone_def split: phase.splits attempt.splits)
  then show ?thesis
    using waits keeps_blocked [OF nl, of st "Calling op'" t] by auto
next
  case (Park t)
  then obtain op ep where op: "mon_phase m t = Switching op ep" "m' = post_switch t op ep m"
    using step by (auto split: phase.splits)
  then show ?thesis
    using nl by (auto simp: post_switch_def no_lost_wakeup_def make_ready_def)
qed

theorem never_lost: "reachable act st0 m \<Longrightarrow> no_lost_wakeup blocked m"
proof (induction rule: reachable.induct)
  case init
  show ?case
    by (simp add: mon_init_def no_lost_wakeup_def)
next
  case (step m e m')
  show ?case
    by (rule step_keeps [OF reachable_inv [OF step(1)] step(3,2)])
qed

end

section \<open>Objects that notify one waiting thread\<close>

text \<open>
  The promise: operations that wait take a token, the others give at most one and then notify one thread.
  Then there are never more tokens than threads about to take one while another thread waits.
\<close>

definition takers :: "('op \<Rightarrow> bool) \<Rightarrow> ('st, 'op, 'r) monitor \<Rightarrow> tid set" where
  "takers takes m =
     {t. \<exists>op. takes op \<and>
        (mon_phase m t = Calling op \<or> (\<exists>e. mon_phase m t = Switching op e \<and> e \<noteq> cond_epoch m))}"

definition token_inv :: "('op \<Rightarrow> bool) \<Rightarrow> ('st \<Rightarrow> nat) \<Rightarrow> ('st, 'op, 'r) monitor \<Rightarrow> bool" where
  "token_inv takes tokens m \<longleftrightarrow>
     mon_inv m \<and> finite {t. mon_phase m t \<noteq> Idle} \<and>
     (\<forall>t op. mon_phase m t = Waiting op \<longrightarrow> takes op) \<and>
     (\<forall>t op e. mon_phase m t = Switching op e \<longrightarrow> takes op) \<and>
     (\<forall>t op. mon_phase m t = Switching op (cond_epoch m) \<longrightarrow> tokens (mon_state m) = 0) \<and>
     (cond_waiting m \<noteq> [] \<longrightarrow> tokens (mon_state m) \<le> card (takers takes m))"

lemma finite_takers: "finite {t. mon_phase m t \<noteq> Idle} \<Longrightarrow> finite (takers takes m)"
  by (rule finite_subset [rotated]) (auto simp: takers_def)

lemma finite_set_phase: "finite {t. mon_phase m t \<noteq> Idle} \<Longrightarrow> finite {t. ((mon_phase m)(u := p)) t \<noteq> Idle}"
  by (rule finite_subset [of _ "insert u {t. mon_phase m t \<noteq> Idle}"]) auto

lemma token_inv_notify_one:
  assumes inv: "token_inv takes tokens m" and give: "tokens st \<le> Suc (tokens (mon_state m))"
    and t: "mon_phase m t = Calling op" "\<not> takes op"
  shows "token_inv takes tokens (notify_one (set_phase t (Done r) (m\<lparr>mon_state := st\<rparr>)))" (is "token_inv _ _ ?m'")
proof -
  have I: "mon_inv m" "finite {t. mon_phase m t \<noteq> Idle}" "\<And>t op. mon_phase m t = Waiting op \<Longrightarrow> takes op"
    "\<And>t op e. mon_phase m t = Switching op e \<Longrightarrow> takes op"
    "cond_waiting m \<noteq> [] \<Longrightarrow> tokens (mon_state m) \<le> card (takers takes m)"
    using inv unfolding token_inv_def by blast+
  have "mon_inv (set_phase t (Done r) (m\<lparr>mon_state := st\<rparr>))"
    by (rule set_phase_inv [OF I(1)]) (simp_all add: t)
  then have inv': "mon_inv ?m'"
    using notify_inv [of "set_phase t (Done r) (m\<lparr>mon_state := st\<rparr>)" Notify_one] by (simp add: notify_def)
  show ?thesis
  proof (cases "cond_waiting m")
    case Nil
    have "?m' = set_phase t (Done r) (m\<lparr>mon_state := st, cond_epoch := cond_epoch m + 1\<rparr>)"
      by (simp add: notify_one_def Nil set_phase_def)
    moreover have "mon_phase m x \<noteq> Switching o' (Suc (cond_epoch m))" for x o'
      using I(1) Suc_n_not_le_n unfolding mon_inv_def by blast
    ultimately show ?thesis
      using inv' I(2-4) Nil t I(1) finite_set_phase [OF I(2)]
      by (auto simp: token_inv_def mon_inv_def split: if_splits)
  next
    case (Cons u us)
    then obtain ou where u: "mon_phase m u = Waiting ou" "u \<noteq> t"
    proof -
      have "u \<in> set (cond_waiting m)"
        by (simp add: Cons)
      then obtain ou where "mon_phase m u = Waiting ou"
        using I(1) unfolding mon_inv_def by blast
      then show thesis
        using that t(1) by (cases "u = t") auto
    qed
    have ph: "mon_phase ?m' = (mon_phase m)(t := Done r, u := Calling ou)" and w: "cond_waiting ?m' = us"
      and ep: "cond_epoch ?m' = cond_epoch m + 1" and st: "mon_state ?m' = st"
      using u by (simp_all add: notify_one_def Cons make_ready_def)
    have tk: "takes ou"
      using I(3) u(1) by blast
    have sub: "insert u (takers takes m) \<subseteq> takers takes ?m'"
    proof
      fix x
      assume x: "x \<in> insert u (takers takes m)"
      show "x \<in> takers takes ?m'"
      proof (cases "x = u")
        case True
        then show ?thesis
          using tk by (simp add: takers_def ph)
      next
        case False
        then have xm: "x \<in> takers takes m"
          using x by simp
        then have "x \<noteq> t"
          using t by (auto simp: takers_def)
        moreover have "mon_phase m x = Switching o' e \<Longrightarrow> e \<le> cond_epoch m" for o' e
          using I(1) unfolding mon_inv_def by blast
        ultimately show ?thesis
          using xm False unfolding takers_def ph ep by fastforce
      qed
    qed
    have fin: "finite {t. mon_phase ?m' t \<noteq> Idle}"
      unfolding ph by (rule finite_subset [of _ "insert t (insert u {t. mon_phase m t \<noteq> Idle})"]) (use I(2) in auto)
    have "u \<notin> takers takes m"
      using u by (simp add: takers_def)
    then have "Suc (card (takers takes m)) = card (insert u (takers takes m))"
      using finite_takers [OF I(2)] by simp
    also have "\<dots> \<le> card (takers takes ?m')"
      by (rule card_mono [OF finite_takers [OF fin] sub])
    finally have "tokens st \<le> card (takers takes ?m')"
      using give I(5) Cons by simp
    moreover have "mon_phase ?m' x \<noteq> Switching o' (cond_epoch ?m')" for x o'
    proof
      assume "mon_phase ?m' x = Switching o' (cond_epoch ?m')"
      then have "mon_phase m x = Switching o' (cond_epoch m + 1)"
        by (auto simp: ph ep split: if_splits)
      then have "cond_epoch m + 1 \<le> cond_epoch m"
        using I(1) unfolding mon_inv_def by blast
      then show False
        by simp
    qed
    moreover have "takes o'" if "mon_phase ?m' x = Waiting o' \<or> (\<exists>e. mon_phase ?m' x = Switching o' e)" for x o'
      using that I(3,4) by (auto simp: ph split: if_splits)
    ultimately show ?thesis
      unfolding token_inv_def st using inv' fin by blast
  qed
qed

locale token_passing =
  fixes act :: "'op \<Rightarrow> 'st \<Rightarrow> ('st, 'op, 'r) attempt"
    and takes :: "'op \<Rightarrow> bool"
    and tokens :: "'st \<Rightarrow> nat"
  assumes waits: "act op st = Wait_with st' op' \<Longrightarrow> takes op \<and> tokens st = 0 \<and> st' = st \<and> op' = op"
    and take: "takes op \<Longrightarrow> act op st = Finish st' k r \<Longrightarrow> k = Quiet \<and> tokens st = Suc (tokens st')"
    and take_ok: "takes op \<Longrightarrow> act op st \<noteq> Fail_with msg"
    and give: "\<not> takes op \<Longrightarrow> act op st = Finish st' k r \<Longrightarrow> k = Notify_one \<and> tokens st' \<le> Suc (tokens st)"
begin

lemma token_step:
  assumes inv: "token_inv takes tokens m" and step: "mon_step act e m = Some m'"
  shows "token_inv takes tokens m'"
proof -
  have I: "mon_inv m" "finite {t. mon_phase m t \<noteq> Idle}" "\<And>t op. mon_phase m t = Waiting op \<Longrightarrow> takes op"
    "\<And>t op e. mon_phase m t = Switching op e \<Longrightarrow> takes op"
    "\<And>t op. mon_phase m t = Switching op (cond_epoch m) \<Longrightarrow> tokens (mon_state m) = 0"
    "cond_waiting m \<noteq> [] \<Longrightarrow> tokens (mon_state m) \<le> card (takers takes m)"
    using inv unfolding token_inv_def by blast+
  have inv': "mon_inv m'"
    by (rule mon_step_inv [OF I(1) step])
  have fin: "finite (takers takes m)"
    by (rule finite_takers [OF I(2)])
  show ?thesis
  proof (cases e)
    case (Call t op)
    then have m': "m' = set_phase t (Calling op) m" and t: "mon_phase m t = Idle \<or> (\<exists>r. mon_phase m t = Done r)"
      using step by (auto split: phase.splits)
    have f: "finite {t. mon_phase m' t \<noteq> Idle}"
      using finite_set_phase [OF I(2)] by (simp add: m')
    have "takers takes m \<subseteq> takers takes m'"
      using t by (auto simp: takers_def m')
    then have "card (takers takes m) \<le> card (takers takes m')"
      by (rule card_mono [OF finite_takers [OF f]])
    then have c: "cond_waiting m \<noteq> [] \<Longrightarrow> tokens (mon_state m) \<le> card (takers takes m')"
      using I(6) by (meson order_trans)
    have "mon_phase m' = (mon_phase m)(t := Calling op)" "cond_waiting m' = cond_waiting m"
      "mon_state m' = mon_state m" "cond_epoch m' = cond_epoch m"
      by (simp_all add: m')
    then show ?thesis
      using I(3-5) inv' f c unfolding token_inv_def by (auto split: if_splits)
  next
    case (Attempt t)
    then obtain op where op: "mon_phase m t = Calling op"
      using step by (auto split: phase.splits)
    show ?thesis
    proof (cases "act op (mon_state m)")
      case (Finish st k r)
      have m': "m' = notify k (set_phase t (Done r) (m\<lparr>mon_state := st\<rparr>))"
        using step Attempt op Finish by simp
      show ?thesis
      proof (cases "takes op")
        case True
        have k: "k = Quiet" "tokens (mon_state m) = Suc (tokens st)"
          using take [OF True Finish] by simp_all
        have ph: "m' = set_phase t (Done r) (m\<lparr>mon_state := st\<rparr>)"
          by (simp add: m' k notify_def)
        have "takers takes m' = takers takes m - {t}"
          by (auto simp: ph takers_def)
        moreover have "t \<in> takers takes m"
          using True op by (simp add: takers_def)
        ultimately have "card (takers takes m) = Suc (card (takers takes m'))"
          using card_Suc_Diff1 [OF fin] by simp
        then have c: "cond_waiting m \<noteq> [] \<Longrightarrow> tokens st \<le> card (takers takes m')"
          using I(6) k(2) by simp
        have fresh: "mon_phase m x \<noteq> Switching o' (cond_epoch m)" for x o'
          using I(5) [of x o'] k(2) by auto
        have "mon_phase m' = (mon_phase m)(t := Done r)" "cond_waiting m' = cond_waiting m"
          "mon_state m' = st" "cond_epoch m' = cond_epoch m"
          by (simp_all add: ph)
        then show ?thesis
          using I(3,4) inv' fresh c finite_set_phase [OF I(2)] unfolding token_inv_def by (auto split: if_splits)
      next
        case False
        then have "k = Notify_one" "tokens st \<le> Suc (tokens (mon_state m))"
          using give [OF False Finish] by simp_all
        then show ?thesis
          using token_inv_notify_one [OF inv _ op False, of st r] by (simp add: m' notify_def)
      qed
    next
      case (Wait_with st op')
      then have w: "takes op" "tokens (mon_state m) = 0" "st = mon_state m" "op' = op"
        using waits by blast+
      then have "m' = set_phase t (Switching op (cond_epoch m)) m"
        using step Attempt op Wait_with by (simp add: wait_def)
      then show ?thesis
        using I inv' w finite_set_phase [OF I(2)] by (auto simp: token_inv_def)
    next
      case (Fail_with msg)
      then have nt: "\<not> takes op"
        using take_ok by blast
      have m': "m' = set_phase t (Panicked msg) m"
        using step Attempt op Fail_with by simp
      have "takers takes m' = takers takes m"
        using nt op by (auto simp: m' takers_def)
      moreover have "mon_phase m' = (mon_phase m)(t := Panicked msg)" "cond_waiting m' = cond_waiting m"
        "mon_state m' = mon_state m" "cond_epoch m' = cond_epoch m"
        by (simp_all add: m')
      ultimately show ?thesis
        using I(3-6) inv' finite_set_phase [OF I(2)] unfolding token_inv_def by (auto split: if_splits)
    qed
  next
    case (Attempt_alone t)
    then obtain op st op' where a: "mon_phase m t = Calling op" "act op (mon_state m) = Wait_with st op'"
        "m' = set_phase t (Calling op') (m\<lparr>mon_state := st\<rparr>)"
      using step by (auto simp: wait_alone_def split: phase.splits attempt.splits)
    then have "st = mon_state m" "op' = op"
      using waits by blast+
    then have "m' = m"
      using a by (simp add: set_phase_def fun_upd_idem)
    then show ?thesis
      using inv by simp
  next
    case (Park t)
    then obtain op ep where op: "mon_phase m t = Switching op ep" "m' = post_switch t op ep m"
      using step by (auto split: phase.splits)
    have tk: "takes op"
      using I(4) op(1) by blast
    show ?thesis
    proof (cases "cond_epoch m = ep")
      case True
      then have "m' = set_phase t (Waiting op) (m\<lparr>cond_waiting := cond_waiting m @ [t]\<rparr>)"
        using op(2) by (simp add: post_switch_def)
      then show ?thesis
        using I inv' tk True op(1) finite_set_phase [OF I(2)] by (auto simp: token_inv_def)
    next
      case False
      then have m': "m' = set_phase t (Calling op) m"
        using op by (simp add: post_switch_def make_ready_def)
      have "takers takes m' = takers takes m"
        using tk op(1) False by (auto simp: m' takers_def)
      moreover have "mon_phase m' = (mon_phase m)(t := Calling op)" "cond_waiting m' = cond_waiting m"
        "mon_state m' = mon_state m" "cond_epoch m' = cond_epoch m"
        by (simp_all add: m')
      ultimately show ?thesis
        using I(3-6) inv' finite_set_phase [OF I(2)] unfolding token_inv_def by (auto split: if_splits)
    qed
  qed
qed

theorem tokens_taken: "reachable act st0 m \<Longrightarrow> token_inv takes tokens m"
proof (induction rule: reachable.induct)
  case init
  show ?case
    by (simp add: mon_init_def token_inv_def mon_inv_def)
next
  case (step m e m')
  show ?case
    by (rule token_step [OF step(3,2)])
qed

end

end
