(* ===== verification/Sync.thy ===== *)
theory Sync
  imports Monitor
begin

text \<open>
  The synchronisation primitives built on condition variables: semaphores (\<^verbatim>\<open>semaphore.h\<close>), blocking
  locks (\<^verbatim>\<open>blocking_lock.h\<close>), futures (\<^verbatim>\<open>future.h\<close>), count-down latches (\<^verbatim>\<open>count_down_latch.h\<close>) and
  barriers (\<^verbatim>\<open>barrier.h\<close>), each the code a thread runs with the object's lock held, and the theorem that
  no thread is left waiting for something that has happened. Counters that would need \<open>2 ^ 64\<close> operations
  to wrap are natural numbers.
\<close>

section \<open>Definitions\<close>

datatype sem_op = Down | Up

fun Semaphore_act :: "sem_op \<Rightarrow> u64 \<Rightarrow> (u64, sem_op, unit) attempt" where
  "Semaphore_act Down count = (if count = 0 then Wait_with count Down else Finish (count - 1) Quiet ())"
| "Semaphore_act Up count = Finish (count + 1) Notify_one ()"

datatype lock_op = Lock | Unlock

fun BlockingLock_act :: "lock_op \<Rightarrow> bool \<Rightarrow> (bool, lock_op, unit) attempt" where
  "BlockingLock_act Lock locked = (if locked then Wait_with locked Lock else Finish True Quiet ())"
| "BlockingLock_act Unlock locked = (if locked then Finish False Notify_one () else Fail_with ''locked'')"

datatype 'a future_op = Set 'a | Get

record 'a Future =
  fut_ready :: bool
  fut_value :: 'a

fun Future_act :: "'a future_op \<Rightarrow> 'a Future \<Rightarrow> ('a Future, 'a future_op, 'a) attempt" where
  "Future_act (Set v) st = Finish (st\<lparr>fut_value := v, fut_ready := True\<rparr>) Notify_all v"
| "Future_act Get st = (if fut_ready st then Finish st Quiet (fut_value st) else Wait_with st Get)"

datatype latch_op = Latch_up | Latch_down | Latch_sync

fun CountDownLatch_act :: "latch_op \<Rightarrow> nat \<Rightarrow> (nat, latch_op, unit) attempt" where
  "CountDownLatch_act Latch_up count = Finish (count + 1) Quiet ()"
| "CountDownLatch_act Latch_down count =
     (if count = 0 then Fail_with ''count != 0''
      else if count - 1 = 0 then Finish (count - 1) Notify_all ()
      else Finish (count - 1) Quiet ())"
| "CountDownLatch_act Latch_sync count = (if count \<noteq> 0 then Wait_with count Latch_sync else Finish count Quiet ())"

text \<open>\<open>sync\<close> of a barrier counts down once; then it is a wait for the count to be zero.\<close>

datatype barrier_op = Barrier_sync | Barrier_await

fun Barrier_act :: "barrier_op \<Rightarrow> u64 \<Rightarrow> (u64, barrier_op, unit) attempt" where
  "Barrier_act Barrier_sync count =
     (if count - 1 = 0 then Finish (count - 1) Notify_all () else Wait_with (count - 1) Barrier_await)"
| "Barrier_act Barrier_await count = (if count \<noteq> 0 then Wait_with count Barrier_await else Finish count Quiet ())"

section \<open>Their promises\<close>

interpretation semaphore: token_passing Semaphore_act "\<lambda>op. op = Down" unat
proof
  fix op st st' k r
  show "Semaphore_act op st = Wait_with st' op' \<Longrightarrow> op = Down \<and> unat st = 0 \<and> st' = st \<and> op' = op" for op'
    by (cases op) (auto split: if_splits)
  show "op = Down \<Longrightarrow> Semaphore_act op st = Finish st' k r \<Longrightarrow> k = Quiet \<and> unat st = Suc (unat st')"
    by (auto simp: unat_minus_one word_gt_0 unat_gt_0 split: if_splits)
  show "op = Down \<Longrightarrow> Semaphore_act op st \<noteq> Fail_with msg" for msg
    by simp
  show "op \<noteq> Down \<Longrightarrow> Semaphore_act op st = Finish st' k r \<Longrightarrow> k = Notify_one \<and> unat st' \<le> Suc (unat st)"
    by (cases op) (auto simp: unat_word_ariths)
qed

interpretation blocking_lock: token_passing BlockingLock_act "\<lambda>op. op = Lock" "\<lambda>locked. if locked then 0 else 1"
proof
  fix op st st' k r
  show "BlockingLock_act op st = Wait_with st' op' \<Longrightarrow> op = Lock \<and> (if st then 0 else 1 :: nat) = 0 \<and> st' = st \<and> op' = op" for op'
    by (cases op) (auto split: if_splits)
  show "op = Lock \<Longrightarrow> BlockingLock_act op st = Finish st' k r \<Longrightarrow>
      k = Quiet \<and> (if st then 0 else 1) = Suc (if st' then 0 else 1)"
    by (auto split: if_splits)
  show "op = Lock \<Longrightarrow> BlockingLock_act op st \<noteq> Fail_with msg" for msg
    by simp
  show "op \<noteq> Lock \<Longrightarrow> BlockingLock_act op st = Finish st' k r \<Longrightarrow>
      k = Notify_one \<and> (if st' then 0 else 1) \<le> Suc (if st then 0 else 1)"
    by (cases op) (auto split: if_splits)
qed

definition future_blocked :: "'a future_op \<Rightarrow> 'a Future \<Rightarrow> bool" where
  "future_blocked op st \<longleftrightarrow> op = Get \<and> \<not> fut_ready st"

interpretation future: signalling Future_act future_blocked
proof
  fix op st st' k r
  show "Future_act op st = Wait_with st' op' \<Longrightarrow>
      future_blocked op' st' \<and> (\<forall>o'. future_blocked o' st \<longrightarrow> future_blocked o' st')" for op'
    by (cases op) (auto simp: future_blocked_def split: if_splits)
  show "Future_act op st = Finish st' k r \<Longrightarrow> k = Notify_all \<or> (\<forall>o'. future_blocked o' st \<longrightarrow> future_blocked o' st')"
    by (cases op) (auto split: if_splits)
qed

definition latch_blocked :: "latch_op \<Rightarrow> nat \<Rightarrow> bool" where
  "latch_blocked op count \<longleftrightarrow> op = Latch_sync \<and> count \<noteq> 0"

interpretation latch: signalling CountDownLatch_act latch_blocked
proof
  fix op st st' k r
  show "CountDownLatch_act op st = Wait_with st' op' \<Longrightarrow>
      latch_blocked op' st' \<and> (\<forall>o'. latch_blocked o' st \<longrightarrow> latch_blocked o' st')" for op'
    by (cases op) (auto simp: latch_blocked_def split: if_splits)
  show "CountDownLatch_act op st = Finish st' k r \<Longrightarrow> k = Notify_all \<or> (\<forall>o'. latch_blocked o' st \<longrightarrow> latch_blocked o' st')"
    by (cases op) (auto simp: latch_blocked_def split: if_splits)
qed

definition barrier_blocked :: "barrier_op \<Rightarrow> u64 \<Rightarrow> bool" where
  "barrier_blocked op count \<longleftrightarrow> op = Barrier_await \<and> count \<noteq> 0"

interpretation barrier: signalling Barrier_act barrier_blocked
proof
  fix op st st' k r
  show "Barrier_act op st = Wait_with st' op' \<Longrightarrow>
      barrier_blocked op' st' \<and> (\<forall>o'. barrier_blocked o' st \<longrightarrow> barrier_blocked o' st')" for op'
    by (cases op) (auto simp: barrier_blocked_def split: if_splits)
  show "Barrier_act op st = Finish st' k r \<Longrightarrow> k = Notify_all \<or> (\<forall>o'. barrier_blocked o' st \<longrightarrow> barrier_blocked o' st')"
    by (cases op) (auto split: if_splits)
qed

section \<open>Properties\<close>

lemma at_rest_takers: "at_rest m \<Longrightarrow> takers takes m = {}"
  by (auto simp: at_rest_def takers_def split: phase.splits)

text \<open>
  C35. No wake-up is lost on futures, latches and barriers: in every interleaving of the threads' steps, a
  thread that waits for a future waits for one that is not set, and a thread that waits on a latch or a
  barrier waits while the count is not zero.
\<close>

theorem waiting_threads_blocked:
  "(reachable Future_act f m1 \<and> mon_phase m1 t = Waiting op1 \<longrightarrow> op1 = Get \<and> \<not> fut_ready (mon_state m1)) \<and>
   (reachable CountDownLatch_act n m2 \<and> mon_phase m2 t = Waiting op2 \<longrightarrow> op2 = Latch_sync \<and> mon_state m2 \<noteq> 0) \<and>
   (reachable Barrier_act c m3 \<and> mon_phase m3 t = Waiting op3 \<longrightarrow> op3 = Barrier_await \<and> mon_state m3 \<noteq> 0)"
proof (intro conjI impI)
  show "reachable Future_act f m1 \<and> mon_phase m1 t = Waiting op1 \<Longrightarrow> op1 = Get" "reachable Future_act f m1 \<and> mon_phase m1 t = Waiting op1 \<Longrightarrow> \<not> fut_ready (mon_state m1)"
    using future.never_lost [of f m1] by (auto simp: no_lost_wakeup_def future_blocked_def)
  show "reachable CountDownLatch_act n m2 \<and> mon_phase m2 t = Waiting op2 \<Longrightarrow> op2 = Latch_sync" "reachable CountDownLatch_act n m2 \<and> mon_phase m2 t = Waiting op2 \<Longrightarrow> mon_state m2 \<noteq> 0"
    using latch.never_lost [of n m2] by (auto simp: no_lost_wakeup_def latch_blocked_def)
  show "reachable Barrier_act c m3 \<and> mon_phase m3 t = Waiting op3 \<Longrightarrow> op3 = Barrier_await" "reachable Barrier_act c m3 \<and> mon_phase m3 t = Waiting op3 \<Longrightarrow> mon_state m3 \<noteq> 0"
    using barrier.never_lost [of c m3] by (auto simp: no_lost_wakeup_def barrier_blocked_def)
qed

text \<open>A thread counts a latch up, another waits for it: the wait of \<open>fork\<close>.\<close>

definition latch_run :: "(nat, latch_op, unit) monitor" where
  "latch_run = \<lparr>mon_state = 1, cond_epoch = 0, cond_waiting = [2],
     mon_phase = (\<lambda>_. Idle)(1 := Done (), 2 := Waiting Latch_sync)\<rparr>"

lemma latch_run_reachable: "reachable CountDownLatch_act 0 latch_run"
proof -
  have "mon_run CountDownLatch_act [Call 1 Latch_up, Attempt 1, Call 2 Latch_sync, Attempt 2, Park 2] (mon_init 0) = Some latch_run"
    by (simp add: mon_init_def set_phase_def notify_def wait_def post_switch_def latch_run_def fun_eq_iff)
  then show ?thesis
    by (rule reachable_run) (rule reachable.init)
qed

theorem waiting_threads_blocked_witness:
  "reachable CountDownLatch_act 0 latch_run \<and> mon_phase latch_run 2 = Waiting Latch_sync \<and> mon_state latch_run \<noteq> 0"
proof -
  have p: "mon_phase latch_run 2 = Waiting Latch_sync"
    by (simp add: latch_run_def)
  then show ?thesis
    using waiting_threads_blocked [where n = 0 and ?m2.0 = latch_run and t = 2 and ?op2.0 = Latch_sync] latch_run_reachable
    by blast
qed

text \<open>
  C36. Semaphores and blocking locks wake whom they have something for: while threads wait, there are never
  more units of a semaphore than threads about to take one, and once all threads are at rest a thread
  waits for a semaphore only if it is zero and for a lock only if it is held.
\<close>

theorem semaphore_wakes:
  "(reachable Semaphore_act n m1 \<and> cond_waiting m1 \<noteq> [] \<longrightarrow>
      unat (mon_state m1) \<le> card (takers (\<lambda>op. op = Down) m1) \<and> (at_rest m1 \<longrightarrow> mon_state m1 = 0)) \<and>
   (reachable BlockingLock_act b m2 \<and> cond_waiting m2 \<noteq> [] \<longrightarrow>
      (\<not> mon_state m2 \<longrightarrow> takers (\<lambda>op. op = Lock) m2 \<noteq> {}) \<and> (at_rest m2 \<longrightarrow> mon_state m2))"
proof (intro conjI impI; elim conjE)
  assume r: "reachable Semaphore_act n m1" and w: "cond_waiting m1 \<noteq> []"
  show c: "unat (mon_state m1) \<le> card (takers (\<lambda>op. op = Down) m1)"
    using semaphore.tokens_taken [OF r] w by (simp add: token_inv_def)
  show "mon_state m1 = 0" if "at_rest m1"
    using c that by (simp add: at_rest_takers unat_eq_0)
next
  assume r: "reachable BlockingLock_act b m2" and w: "cond_waiting m2 \<noteq> []"
  have c: "(if mon_state m2 then 0 else 1) \<le> card (takers (\<lambda>op. op = Lock) m2)"
    using blocking_lock.tokens_taken [OF r] w by (simp add: token_inv_def)
  show "takers (\<lambda>op. op = Lock) m2 \<noteq> {}" if "\<not> mon_state m2"
    using c that by auto
  show "mon_state m2" if "at_rest m2"
    using c that by (auto simp: at_rest_takers split: if_splits)
qed

definition semaphore_run :: "(u64, sem_op, unit) monitor" where
  "semaphore_run = \<lparr>mon_state = 0, cond_epoch = 0, cond_waiting = [1],
     mon_phase = (\<lambda>_. Idle)(1 := Waiting Down)\<rparr>"

theorem semaphore_wakes_witness:
  "reachable Semaphore_act 0 semaphore_run \<and> cond_waiting semaphore_run = [1] \<and>
   unat (mon_state semaphore_run) \<le> card (takers (\<lambda>op. op = Down) semaphore_run)"
proof -
  have "mon_run Semaphore_act [Call 1 Down, Attempt 1, Park 1] (mon_init 0) = Some semaphore_run"
    by (simp add: mon_init_def set_phase_def notify_def wait_def post_switch_def semaphore_run_def fun_eq_iff)
  then have r: "reachable Semaphore_act 0 semaphore_run"
    by (rule reachable_run) (rule reachable.init)
  have "cond_waiting semaphore_run = [1]"
    by (simp add: semaphore_run_def)
  then show ?thesis
    using semaphore_wakes [where n = 0 and ?m1.0 = semaphore_run] r by simp
qed

end
