(* ===== verification/Kernel_Sem.thy ===== *)
theory Kernel_Sem
  imports Monitor
begin

text \<open>
  The semaphores of the system calls \<open>semget\<close>, \<open>semop\<close> and \<open>semctl\<close> in \<^verbatim>\<open>syscall.cc\<close>. One semaphore is a
  monitor whose operations are those of \<open>semaphore_op\<close> and the removal; the table of semaphores is the
  list headed by the newest, and a pointer to a semaphore is its id, which is given out once. Values are
  integers; the overflow of a sum is not modelled.
\<close>

section \<open>One semaphore\<close>

record KernelSemaphore =
  ks_id :: int
  ks_key :: int
  ks_value :: int
  ks_removed :: bool

datatype ksem_op = Semop int | Remove

fun semaphore_op :: "ksem_op \<Rightarrow> KernelSemaphore \<Rightarrow> (KernelSemaphore, ksem_op, int) attempt" where
  "semaphore_op (Semop op) sem =
     (if ks_removed sem then Finish sem Quiet (- 1)
      else if op > 0 then Finish (sem\<lparr>ks_value := ks_value sem + op\<rparr>) Notify_all 0
      else if op = 0 then
        (if ks_value sem \<noteq> 0 then Wait_with sem (Semop op) else Finish sem Quiet 0)
      else
        let need = - op
        in if ks_value sem < need then Wait_with sem (Semop op)
           else Finish (sem\<lparr>ks_value := ks_value sem - need\<rparr>) Quiet 0)"
| "semaphore_op Remove sem = Finish (sem\<lparr>ks_removed := True\<rparr>) Notify_all 0"

section \<open>The table\<close>

record sem_table =
  semaphores :: "KernelSemaphore list"
  next_semid :: int

definition find_sem_locked :: "int \<Rightarrow> sem_table \<Rightarrow> KernelSemaphore option" where
  "find_sem_locked semid tab = find (\<lambda>sem. ks_id sem = semid) (semaphores tab)"

definition semget :: "int \<Rightarrow> int \<Rightarrow> sem_table \<Rightarrow> int \<times> sem_table" where
  "semget key nsems tab =
     (if nsems \<noteq> 1 then (- 1, tab)
      else
        case (if key \<noteq> 0 then find (\<lambda>sem. \<not> ks_removed sem \<and> ks_key sem = key) (semaphores tab) else None) of
          Some sem \<Rightarrow> (ks_id sem, tab)
        | None \<Rightarrow>
            (next_semid tab,
             tab\<lparr>semaphores := \<lparr>ks_id = next_semid tab, ks_key = key, ks_value = 0, ks_removed = False\<rparr> # semaphores tab,
                 next_semid := next_semid tab + 1\<rparr>))"

text \<open>Storing a semaphore back through its pointer.\<close>

definition put_sem :: "KernelSemaphore \<Rightarrow> sem_table \<Rightarrow> sem_table" where
  "put_sem sem tab = tab\<lparr>semaphores := map (\<lambda>x. if ks_id x = ks_id sem then sem else x) (semaphores tab)\<rparr>"

text \<open>The removal: \<open>None\<close> when the call fails.\<close>

definition semctl :: "int \<Rightarrow> int \<Rightarrow> int \<Rightarrow> sem_table \<Rightarrow> int \<times> sem_table" where
  "semctl semid semnum cmd tab =
     (if semnum \<noteq> 0 \<or> cmd \<noteq> 0 then (- 1, tab)
      else case find_sem_locked semid tab of
             None \<Rightarrow> (- 1, tab)
           | Some sem \<Rightarrow>
               if ks_removed sem then (- 1, tab)
               else (0, put_sem (sem\<lparr>ks_removed := True\<rparr>) tab))"

section \<open>Waiting\<close>

text \<open>
  The code keeps the promise of \<open>signalling\<close> for operations that decrement: it notifies whenever the value
  grows or the semaphore goes away, not when the value falls.
\<close>

definition ksem_blocked :: "ksem_op \<Rightarrow> KernelSemaphore \<Rightarrow> bool" where
  "ksem_blocked op sem \<longleftrightarrow>
     (\<exists>n \<le> 0. op = Semop n \<and> \<not> ks_removed sem \<and> (n < 0 \<longrightarrow> ks_value sem < - n))"

interpretation ksem: signalling semaphore_op ksem_blocked
proof
  fix op st st' k r
  show "semaphore_op op st = Wait_with st' op' \<Longrightarrow>
      ksem_blocked op' st' \<and> (\<forall>o'. ksem_blocked o' st \<longrightarrow> ksem_blocked o' st')" for op'
    by (cases op) (auto simp: ksem_blocked_def Let_def split: if_splits)
  show "semaphore_op op st = Finish st' k r \<Longrightarrow> k = Notify_all \<or> (\<forall>o'. ksem_blocked o' st \<longrightarrow> ksem_blocked o' st')"
    by (cases op) (auto simp: ksem_blocked_def Let_def split: if_splits)
qed

text \<open>The value never falls below zero.\<close>

lemma semaphore_op_value:
  "0 \<le> ks_value st \<Longrightarrow> semaphore_op op st = Finish st' k r \<or> semaphore_op op st = Wait_with st' op' \<Longrightarrow> 0 \<le> ks_value st'"
  by (cases op) (auto simp: Let_def split: if_splits)

lemma mon_step_state:
  assumes "mon_step act e m = Some m'"
  shows "mon_state m' = mon_state m \<or> (\<exists>op k r op'. act op (mon_state m) = Finish (mon_state m') k r \<or>
    act op (mon_state m) = Wait_with (mon_state m') op')"
  using assms by (cases e)
    (auto simp: wait_def wait_alone_def post_switch_def split: phase.splits attempt.splits if_splits)

lemma reachable_value: "reachable semaphore_op st0 m \<Longrightarrow> 0 \<le> ks_value st0 \<Longrightarrow> 0 \<le> ks_value (mon_state m)"
proof (induction rule: reachable.induct)
  case (step m e m')
  from mon_step_state [OF step(2)] show ?case
    using step(3,4) semaphore_op_value [of "mon_state m"] by metis
qed (simp add: mon_init_def)


definition new_sem :: KernelSemaphore where
  "new_sem = \<lparr>ks_id = 1, ks_key = 0, ks_value = 0, ks_removed = False\<rparr>"

text \<open>Thread 1 increments by one, thread 2 waits for zero, thread 1 decrements by one.\<close>

definition zero_wait_events :: "ksem_op event list" where
  "zero_wait_events =
     [Call 1 (Semop 1), Attempt 1, Call 2 (Semop 0), Attempt 2, Park 2, Call 1 (Semop (- 1)), Attempt 1]"

definition zero_wait_run :: "(KernelSemaphore, ksem_op, int) monitor" where
  "zero_wait_run = \<lparr>mon_state = new_sem, cond_epoch = 1, cond_waiting = [2],
     mon_phase = (\<lambda>_. Idle)(1 := Done 0, 2 := Waiting (Semop 0))\<rparr>"

lemma zero_wait_reachable:
  "mon_run semaphore_op zero_wait_events (mon_init new_sem) = Some zero_wait_run"
  by (simp add: mon_init_def set_phase_def notify_def notify_all_def make_ready_def wait_def post_switch_def
      zero_wait_run_def zero_wait_events_def new_sem_def fun_eq_iff)



text \<open>Ids are given out once, and a key names at most one semaphore that is not removed.\<close>

definition sem_table_inv :: "sem_table \<Rightarrow> bool" where
  "sem_table_inv tab \<longleftrightarrow>
     distinct (map ks_id (semaphores tab)) \<and> (\<forall>sem \<in> set (semaphores tab). 0 < ks_id sem \<and> ks_id sem < next_semid tab) \<and>
     0 < next_semid tab \<and>
     (\<forall>a \<in> set (semaphores tab). \<forall>b \<in> set (semaphores tab).
        \<not> ks_removed a \<and> \<not> ks_removed b \<and> ks_key a = ks_key b \<and> ks_key a \<noteq> 0 \<longrightarrow> a = b)"

definition live :: "int \<Rightarrow> int \<Rightarrow> sem_table \<Rightarrow> bool" where
  "live semid key tab \<longleftrightarrow>
     (\<exists>sem. find_sem_locked semid tab = Some sem \<and> ks_key sem = key \<and> \<not> ks_removed sem)"

lemma find_sem_iff:
  "sem_table_inv tab \<Longrightarrow> find_sem_locked semid tab = Some sem \<longleftrightarrow> sem \<in> set (semaphores tab) \<and> ks_id sem = semid"
proof -
  assume "sem_table_inv tab"
  then have d: "distinct (map ks_id (semaphores tab))"
    by (simp add: sem_table_inv_def)
  show ?thesis
  proof
    assume "find_sem_locked semid tab = Some sem"
    then show "sem \<in> set (semaphores tab) \<and> ks_id sem = semid"
      by (auto simp: find_sem_locked_def find_Some_iff)
  next
    assume s: "sem \<in> set (semaphores tab) \<and> ks_id sem = semid"
    then have "find_sem_locked semid tab \<noteq> None"
      by (auto simp: find_sem_locked_def find_None_iff)
    then obtain x where x: "find_sem_locked semid tab = Some x"
      by blast
    then have "x \<in> set (semaphores tab) \<and> ks_id x = semid"
      by (auto simp: find_sem_locked_def find_Some_iff)
    with s d have "x = sem"
      by (simp add: distinct_map inj_on_def)
    with x show "find_sem_locked semid tab = Some sem"
      by simp
  qed
qed

lemma semget_inv:
  assumes inv: "sem_table_inv tab" and run: "semget key 1 tab = (semid, tab')"
  shows "sem_table_inv tab'" and "live semid key tab'"
    and "semid \<noteq> x \<Longrightarrow> find_sem_locked x tab' = find_sem_locked x tab"
proof -
  let ?F = "if key \<noteq> 0 then find (\<lambda>sem. \<not> ks_removed sem \<and> ks_key sem = key) (semaphores tab) else None"
  have "sem_table_inv tab' \<and> live semid key tab' \<and> (semid \<noteq> x \<longrightarrow> find_sem_locked x tab' = find_sem_locked x tab)"
  proof (cases ?F)
    case (Some sem)
    then have "tab' = tab" "semid = ks_id sem"
      using run by (simp_all add: semget_def)
    moreover have "sem \<in> set (semaphores tab)" "\<not> ks_removed sem" "ks_key sem = key"
      using Some by (auto simp: find_Some_iff split: if_splits)
    ultimately show ?thesis
      using inv find_sem_iff [OF inv] by (auto simp: live_def)
  next
    case None
    let ?new = "\<lparr>ks_id = next_semid tab, ks_key = key, ks_value = 0, ks_removed = False\<rparr>"
    have t: "tab' = tab\<lparr>semaphores := ?new # semaphores tab, next_semid := next_semid tab + 1\<rparr>" "semid = next_semid tab"
      using run None by (auto simp: semget_def)
    have no: "key \<noteq> 0 \<Longrightarrow> \<forall>sem \<in> set (semaphores tab). ks_removed sem \<or> ks_key sem \<noteq> key"
      using None by (auto simp: find_None_iff)
    have "sem_table_inv tab'"
      using inv no unfolding sem_table_inv_def t by (auto simp: add_strict_increasing2)
    then show ?thesis
      by (simp add: live_def t find_sem_locked_def)
  qed
  then show "sem_table_inv tab'" "live semid key tab'" "semid \<noteq> x \<Longrightarrow> find_sem_locked x tab' = find_sem_locked x tab"
    by blast+
qed

lemma semctl_inv:
  assumes inv: "sem_table_inv tab" and lv: "live semid key tab"
  shows "\<exists>tab'. semctl semid 0 0 tab = (0, tab') \<and> sem_table_inv tab' \<and> \<not> live semid k tab' \<and>
    (\<forall>x. x \<noteq> semid \<longrightarrow> find_sem_locked x tab' = find_sem_locked x tab) \<and> next_semid tab' = next_semid tab"
proof -
  obtain sem where sem: "find_sem_locked semid tab = Some sem" "\<not> ks_removed sem" "ks_key sem = key"
    using lv by (auto simp: live_def)
  have id: "ks_id sem = semid" "sem \<in> set (semaphores tab)"
    using sem(1) find_sem_iff [OF inv] by simp_all
  let ?f = "\<lambda>x. if ks_id x = semid then sem\<lparr>ks_removed := True\<rparr> else x"
  define tab' where "tab' = put_sem (sem\<lparr>ks_removed := True\<rparr>) tab"
  have s: "semaphores tab' = map ?f (semaphores tab)" "next_semid tab' = next_semid tab"
    by (simp_all add: tab'_def put_sem_def id)
  have ids: "map ks_id (semaphores tab') = map ks_id (semaphores tab)"
    using id(1) by (simp add: s)
  have inv': "sem_table_inv tab'"
    unfolding sem_table_inv_def ids using inv id s by (auto simp: sem_table_inv_def)
  have F: "find_sem_locked x tab' = map_option ?f (find_sem_locked x tab)" for x
  proof -
    have "find (\<lambda>sem. ks_id sem = x) (map ?f xs) = map_option ?f (find (\<lambda>sem. ks_id sem = x) xs)" for xs
      using id(1) by (induction xs) auto
    then show ?thesis
      by (simp add: find_sem_locked_def s)
  qed
  have "\<not> live semid k tab'"
    using F [of semid] sem(1) id(1) by (simp add: live_def)
  moreover have "find_sem_locked x tab' = find_sem_locked x tab" if "x \<noteq> semid" for x
  proof (cases "find_sem_locked x tab")
    case (Some y)
    then have "ks_id y = x"
      using find_sem_iff [OF inv, of x y] by blast
    with Some that show ?thesis
      using F [of x] by simp
  qed (use F [of x] in simp)
  moreover have "semctl semid 0 0 tab = (0, tab')"
    by (simp add: semctl_def sem tab'_def)
  ultimately show ?thesis
    using inv' s(2) by blast
qed

text \<open>
  A key names one semaphore: \<open>semget\<close> returns a semaphore that is there, the same one every time until
  it is removed, and a fresh one, which no earlier call has returned, after that; other semaphores are
  not touched.
\<close>

theorem semget_names_one:
  assumes inv: "sem_table_inv tab" and get: "semget key 1 tab = (semid, tab1)" and key: "key \<noteq> 0"
  shows "live semid key tab1 \<and> semget key 1 tab1 = (semid, tab1) \<and>
    (\<forall>x. x \<noteq> semid \<longrightarrow> find_sem_locked x tab1 = find_sem_locked x tab) \<and>
    (\<exists>tab2 semid2 tab3. semctl semid 0 0 tab1 = (0, tab2) \<and> \<not> live semid key tab2 \<and>
      semget key 1 tab2 = (semid2, tab3) \<and> live semid2 key tab3 \<and> find_sem_locked semid2 tab2 = None)"
proof -
  note I = semget_inv [OF inv get]
  have once: "semget key 1 t = (i, t)" if lv: "live i key t" and it: "sem_table_inv t" for i t
  proof -
    obtain sem where sem: "sem \<in> set (semaphores t)" "ks_id sem = i" "ks_key sem = key" "\<not> ks_removed sem"
      using lv find_sem_iff [OF it] by (auto simp: live_def)
    then obtain x where x: "find (\<lambda>sem. \<not> ks_removed sem \<and> ks_key sem = key) (semaphores t) = Some x"
      by (cases "find (\<lambda>sem. \<not> ks_removed sem \<and> ks_key sem = key) (semaphores t)") (auto simp: find_None_iff)
    then have "x \<in> set (semaphores t)" "\<not> ks_removed x" "ks_key x = key"
      by (auto simp: find_Some_iff)
    with sem it key have "x = sem"
      unfolding sem_table_inv_def by metis
    with x sem key show ?thesis
      by (simp add: semget_def)
  qed
  obtain tab2 where t2: "semctl semid 0 0 tab1 = (0, tab2)" "sem_table_inv tab2" "\<not> live semid key tab2"
    "\<forall>x. x \<noteq> semid \<longrightarrow> find_sem_locked x tab2 = find_sem_locked x tab1" "next_semid tab2 = next_semid tab1"
    using semctl_inv [OF I(1,2), of key] by (elim exE conjE) (rule that)
  obtain semid2 tab3 where t3: "semget key 1 tab2 = (semid2, tab3)"
    by (cases "semget key 1 tab2")
  note J = semget_inv [OF t2(2) t3]
  have "find_sem_locked semid2 tab2 = None"
  proof (rule ccontr)
    assume "find_sem_locked semid2 tab2 \<noteq> None"
    then have "semid2 \<noteq> next_semid tab2"
      using find_sem_iff [OF t2(2)] t2(2) by (auto simp: sem_table_inv_def)
    then have "\<exists>sem \<in> set (semaphores tab2). \<not> ks_removed sem \<and> ks_key sem = key \<and> ks_id sem = semid2"
      using t3 key by (auto simp: semget_def find_Some_iff split: option.splits)
    then obtain sem where sem: "sem \<in> set (semaphores tab2)" "\<not> ks_removed sem" "ks_key sem = key" "ks_id sem = semid2"
      by blast
    then have f2: "find_sem_locked semid2 tab2 = Some sem"
      using find_sem_iff [OF t2(2)] by blast
    then have ne: "semid2 \<noteq> semid"
      using t2(3) sem by (auto simp: live_def)
    then have "find_sem_locked semid2 tab1 = Some sem"
      using f2 t2(4) by simp
    then have "live semid2 key tab1"
      using sem by (simp add: live_def)
    then show False
      using once [OF I(2,1)] once [OF _ I(1)] ne by fastforce
  qed
  then have "\<exists>tab2 semid2 tab3. semctl semid 0 0 tab1 = (0, tab2) \<and> \<not> live semid key tab2 \<and>
      semget key 1 tab2 = (semid2, tab3) \<and> live semid2 key tab3 \<and> find_sem_locked semid2 tab2 = None"
    using t2(1,3) t3 J(2) by blast
  moreover have "\<forall>x. x \<noteq> semid \<longrightarrow> find_sem_locked x tab1 = find_sem_locked x tab"
    using I(3) by metis
  ultimately show ?thesis
    using I(2) once [OF I(2,1)] by (intro conjI)
qed

definition one_sem_table :: sem_table where
  "one_sem_table = \<lparr>semaphores = [\<lparr>ks_id = 1, ks_key = 5, ks_value = 0, ks_removed = False\<rparr>], next_semid = 2\<rparr>"

theorem semget_names_one_witness:
  "\<exists>tab2 semid2 tab3. semget 5 1 one_sem_table = (1, one_sem_table) \<and>
     semctl 1 0 0 one_sem_table = (0, tab2) \<and> semget 5 1 tab2 = (semid2, tab3) \<and> find_sem_locked semid2 tab2 = None"
proof -
  have "sem_table_inv one_sem_table" "semget 5 1 one_sem_table = (1, one_sem_table)"
    by (simp_all add: sem_table_inv_def one_sem_table_def semget_def)
  from semget_names_one [OF this] this(2) show ?thesis
    by auto
qed

end
