(* ===== verification/Sys_File.thy ===== *)
theory Sys_File
  imports User_Mem Sync Kernel_Sem
begin

text \<open>
  The part of \<^verbatim>\<open>syscall.cc\<close> that works for one process: its file descriptors, strings and paths from user
  memory, the file system that is mounted at the first call, and the calls read, write, open, close, lseek
  and brk. A process is an entry of the list of all process objects; pointers to it are its position there.
\<close>

section \<open>State\<close>

record OpenFile =
  of_node :: "Node option"
  of_offset :: u64
  of_used :: bool

text \<open>The children are the list from \<open>first_child\<close> on.\<close>

record Process =
  pid :: int
  parent :: "nat option"
  children :: "nat list"
  waited :: bool
  exit_status :: "int Future"
  stopped :: "bool Future"
  brk_min :: u64
  brk_current :: u64
  fds :: "OpenFile list"

text \<open>The registers the entry code saves.\<close>

record SyscallFrame =
  rax :: u64
  rbx :: u64
  rcx :: u64
  rdx :: u64
  rsi :: u64
  rdi :: u64
  rbp :: u64
  r8 :: u64
  r9 :: u64
  r10 :: u64
  r11 :: u64
  r12 :: u64
  r13 :: u64
  r14 :: u64
  r15 :: u64
  user_rsp :: u64

text \<open>
  The state of the system as the running thread has it: \<open>core\<close> and \<open>current_process\<close> are those of this
  thread. A thread that a fork has made is in \<open>started\<close>: its process, its address space and regions, and
  the registers it starts with.
\<close>

record thread =
  th_process :: nat
  th_cr3 :: u64
  th_vmes :: "VME list"
  th_frame :: SyscallFrame

record sys =
  core :: vm
  current_process :: "nat option"
  objects :: "Process list"
  processes :: "nat list"
  next_pid :: int
  started :: "thread list"
  modules :: "limine_file list option"
  root_fs :: "(Ext2_fs \<times> Node) option"
  initial_brk :: u64
  sems :: sem_table
  console :: bytes

definition USER_TOP :: u64 where "USER_TOP = 0x0000800000000000"
definition BRK_LIMIT :: u64 where "BRK_LIMIT = USER_STACK_TOP - USER_STACK_SIZE"
definition MAX_PATH :: nat where "MAX_PATH = 256"
definition MAX_FDS :: nat where "MAX_FDS = 32"

definition empty_file :: OpenFile where "empty_file = \<lparr>of_node = None, of_offset = 0, of_used = False\<rparr>"

definition new_process :: Process where
  "new_process =
     \<lparr>pid = 0, parent = None, children = [], waited = False, exit_status = \<lparr>fut_ready = False, fut_value = 0\<rparr>,
      stopped = \<lparr>fut_ready = False, fut_value = False\<rparr>, brk_min = 0, brk_current = 0,
      fds = replicate MAX_FDS empty_file\<rparr>"

text \<open>The result of a computation that may fault and whose loops may not end.\<close>

type_synonym 'a run = "'a outcome option"

definition bind_run :: "'a run \<Rightarrow> ('a \<Rightarrow> 'b run) \<Rightarrow> 'b run" where
  "bind_run r f = (case r of None \<Rightarrow> None | Some (Inl e) \<Rightarrow> Some (Inl e) | Some (Inr a) \<Rightarrow> f a)"

definition return :: "'a \<Rightarrow> 'a run" where "return a = Some (Inr a)"

lemma bind_run_simps [simp]:
  "bind_run (Some (Inr a)) f = f a" "bind_run (Some (Inl e)) f = Some (Inl e)" "bind_run None f = None"
  "bind_run (return a) f = f a"
  by (simp_all add: bind_run_def return_def)

text \<open>The conversions \<open>int(x)\<close> and \<open>uint64_t(n)\<close> of the code.\<close>

definition to_int :: "u64 \<Rightarrow> int" where "to_int x = sint (ucast x :: u32)"
definition of_int64 :: "int \<Rightarrow> u64" where "of_int64 n = word_of_int n"

definition update_proc :: "nat \<Rightarrow> (Process \<Rightarrow> Process) \<Rightarrow> sys \<Rightarrow> sys" where
  "update_proc p f s = s\<lparr>objects := (objects s)[p := f (objects s ! p)]\<rparr>"

text \<open>Accesses to the memory of the process; one that the processor refuses ends in a fault.\<close>

definition check_user :: "u64 \<Rightarrow> u64 \<Rightarrow> sys \<Rightarrow> bool run" where
  "check_user a n s = map_option Inr (user_buffer_ok (cr3 (core s)) a n (mem (core s)))"

definition load_user :: "u64 \<Rightarrow> nat \<Rightarrow> sys \<Rightarrow> bytes outcome" where
  "load_user a n s =
     (case user_bytes (cr3 (core s)) (mem (core s)) a n of None \<Rightarrow> Inl OutOfBounds | Some bs \<Rightarrow> Inr bs)"

definition store_user :: "u64 \<Rightarrow> bytes \<Rightarrow> sys \<Rightarrow> sys outcome" where
  "store_user a bs s =
     (case put_user_bytes (cr3 (core s)) a bs (mem (core s)) of
        None \<Rightarrow> Inl OutOfBounds
      | Some m \<Rightarrow> Inr (s\<lparr>core := (core s)\<lparr>mem := m\<rparr>\<rparr>))"

section \<open>The file system\<close>

definition syscall_align_up :: "u64 \<Rightarrow> u64" where
  "syscall_align_up value = (value + 4096 - 1) AND NOT (4096 - 1)"

definition init_name :: bytes where "init_name = [0x69, 0x6E, 0x69, 0x74, 0]"

text \<open>The path \<open>/boot/ramdisk\<close>.\<close>

definition ramdisk_name :: bytes where
  "ramdisk_name = [0x2F, 0x62, 0x6F, 0x6F, 0x74, 0x2F, 0x72, 0x61, 0x6D, 0x64, 0x69, 0x73, 0x6B, 0]"

fun initial_brk_loop :: "block_io \<Rightarrow> u16 \<Rightarrow> u64 \<Rightarrow> nat \<Rightarrow> u64 \<Rightarrow> u64 outcome" where
  "initial_brk_loop init entry_size off 0 max_end = Inr max_end"
| "initial_brk_loop init entry_size off (Suc n) max_end =
     bind_outcome (read_thing init (ucast off) sizeof_ProgramHeader) (\<lambda>phdr.
       let end_addr = ph_vaddr phdr + ph_memsz phdr
       in initial_brk_loop init entry_size (off + ucast entry_size) n
            (if ph_type phdr \<noteq> 1 then max_end else if end_addr > max_end then end_addr else max_end))"

definition compute_initial_brk :: "Ext2_fs \<Rightarrow> Node \<Rightarrow> u64 run" where
  "compute_initial_brk fs root =
     bind_run (Ext2_find fs root init_name) (\<lambda>init.
       case init of
         None \<Rightarrow> Some (Inl (Panic ''init != nullptr''))
       | Some nd \<Rightarrow>
           Some (bind_outcome (read_thing (Node_io nd) 0 sizeof_ElfHeader) (\<lambda>hdr.
             bind_outcome (initial_brk_loop (Node_io nd) (phentsize hdr) (phoff hdr) (unat (phnum hdr)) 0) (\<lambda>max_end.
               Inr (syscall_align_up max_end)))))"

definition filesystem :: "sys \<Rightarrow> (Ext2_fs \<times> Node \<times> sys) run" where
  "filesystem s =
     (case root_fs s of
        Some (fs, root) \<Rightarrow> return (fs, root, s)
      | None \<Rightarrow>
          bind_run (Some (find_module (modules s) ramdisk_name)) (\<lambda>m.
          bind_run (Some (Ext2_mount (RamDisk m))) (\<lambda>(fs, root).
          bind_run (compute_initial_brk fs root) (\<lambda>b.
            return (fs, root, s\<lparr>root_fs := Some (fs, root), initial_brk := b\<rparr>)))))"

section \<open>Strings and paths\<close>

text \<open>The loop of \<open>copy_user_string\<close> from index \<open>i\<close> on; the buffer \<open>out\<close> has \<open>cap\<close> bytes.\<close>

fun copy_string_loop :: "nat \<Rightarrow> nat \<Rightarrow> u64 \<Rightarrow> bytes \<Rightarrow> sys \<Rightarrow> (bool \<times> bytes) run" where
  "copy_string_loop 0 i user out s = return (False, out[length out - 1 := 0])"
| "copy_string_loop (Suc n) i user out s =
     bind_run (check_user (user + word_of_nat i) 1 s) (\<lambda>ok.
       if \<not> ok then return (False, out)
       else
         bind_run (Some (load_user (user + word_of_nat i) 1 s)) (\<lambda>b.
           let out = out[i := hd b]
           in if hd b = 0 then return (True, out) else copy_string_loop n (Suc i) user out s))"

definition copy_user_string :: "bytes \<Rightarrow> u64 \<Rightarrow> sys \<Rightarrow> (bool \<times> bytes) run" where
  "copy_user_string out user s =
     (if out = [] \<or> user = 0 then return (False, out) else copy_string_loop (length out - 1) 0 user out s)"

abbreviation slash :: u8 where "slash \<equiv> 0x2F"

definition skip_slashes :: "bytes \<Rightarrow> bytes" where "skip_slashes p = dropWhile (\<lambda>c. c = slash) p"

text \<open>Where the first component of the path ends.\<close>

definition component_end :: "bytes \<Rightarrow> nat" where
  "component_end p = length (takeWhile (\<lambda>c. c \<noteq> 0 \<and> c \<noteq> slash) p)"

text \<open>
  The walk over the components; \<open>p\<close> is the memory from the pointer on. The separator is overwritten by
  the end of the string while the component is looked up.
\<close>

function walk_path :: "Ext2_fs \<Rightarrow> Node \<Rightarrow> bytes \<Rightarrow> Node option run" where
  "walk_path fs nd p =
     (if p = [] then Some (Inl OutOfBounds)
      else if hd p = 0 then return (Some nd)
      else if \<not> is_dir nd then return None
      else
        let k = component_end p
        in if k = length p then Some (Inl OutOfBounds)
           else
             bind_run (Ext2_find fs nd (p[k := 0])) (\<lambda>found.
               case found of
                 None \<Rightarrow> return None
               | Some nd' \<Rightarrow> walk_path fs nd' (skip_slashes (drop k p))))"
  by pat_completeness auto
termination
proof (relation "measure (\<lambda>(fs, nd, p). length p)")
  fix fs :: Ext2_fs and nd nd' :: Node and p :: bytes and k
  assume p: "p \<noteq> []" "hd p \<noteq> 0" and k: "k = component_end p"
  have le: "length (skip_slashes q) \<le> length q" for q
    by (simp add: skip_slashes_def length_dropWhile_le)
  have "length (skip_slashes (drop k p)) < length p"
  proof (cases "hd p = slash")
    case True
    then have "k = 0" "skip_slashes p = skip_slashes (tl p)"
      using p k by (cases p; simp add: component_end_def skip_slashes_def)+
    then show ?thesis
      using le [of "tl p"] p(1) by (cases p) auto
  next
    case False
    then have "0 < k"
      using p k by (cases p) (auto simp: component_end_def)
    then show ?thesis
      using le [of "drop k p"] p(1) by (cases p) auto
  qed
  then show "((fs, nd', skip_slashes (drop k p)), fs, nd, p) \<in> measure (\<lambda>(fs, nd, p). length p)"
    by simp
qed simp

declare walk_path.simps [simp del]

definition resolve_path :: "u64 \<Rightarrow> sys \<Rightarrow> (Node option \<times> sys) run" where
  "resolve_path path s =
     bind_run (copy_user_string (replicate MAX_PATH 0) path s) (\<lambda>(ok, local).
       if \<not> ok then return (None, s)
       else
         let p = skip_slashes local
         in if p = [] then Some (Inl OutOfBounds)
            else if hd p = 0 then return (None, s)
            else
              bind_run (filesystem s) (\<lambda>(fs, root, s1).
              bind_run (walk_path fs root p) (\<lambda>found.
                case found of
                  None \<Rightarrow> return (None, s1)
                | Some nd \<Rightarrow> return (if is_file nd then Some nd else None, s1))))"

section \<open>File descriptors\<close>

definition alloc_fd :: "Node \<Rightarrow> Process \<Rightarrow> int \<times> Process" where
  "alloc_fd nd proc =
     (case find (\<lambda>fd. \<not> of_used (fds proc ! fd)) [3..<MAX_FDS] of
        Some fd \<Rightarrow> (int fd, proc\<lparr>fds := (fds proc)[fd := \<lparr>of_node = Some nd, of_offset = 0, of_used = True\<rparr>]\<rparr>)
      | None \<Rightarrow> (- 1, proc))"

text \<open>The file of a descriptor that is open, with the least descriptor the call accepts.\<close>

definition open_file :: "int \<Rightarrow> int \<Rightarrow> Process \<Rightarrow> OpenFile option" where
  "open_file least fd proc =
     (if fd < least \<or> fd \<ge> int MAX_FDS \<or> \<not> of_used (fds proc ! nat fd) then None else Some (fds proc ! nat fd))"

definition sys_read :: "nat \<Rightarrow> u64 \<Rightarrow> u64 \<Rightarrow> u64 \<Rightarrow> sys \<Rightarrow> (u64 \<times> sys) run" where
  "sys_read p a0 a1 a2 s =
     (let fd = to_int a0; len = a2
      in if len = 0 then return (0, s)
         else
           case open_file 0 fd (objects s ! p) of
             None \<Rightarrow> return (- 1, s)
           | Some file \<Rightarrow>
               bind_run (check_user a1 len s) (\<lambda>ok.
                 if \<not> ok \<or> len > 0xFFFFFFFF then return (- 1, s)
                 else
                   case of_node file of
                     None \<Rightarrow> Some (Inl Undefined)
                   | Some nd \<Rightarrow>
                       bind_run (Some (BlockIO_read_all (Node_io nd) (ucast (of_offset file)) (ucast len))) (\<lambda>(cnt, bs).
                       bind_run (Some (store_user a1 bs s)) (\<lambda>s1.
                         if cnt < 0 then return (- 1, s1)
                         else
                           return (of_int64 cnt, update_proc p (\<lambda>proc. proc\<lparr>fds := (fds proc)[nat fd :=
                             file\<lparr>of_offset := of_offset file + of_int64 cnt\<rparr>]\<rparr>) s1)))))"

text \<open>The characters go to the console one by one, in order.\<close>

definition sys_write :: "u64 \<Rightarrow> u64 \<Rightarrow> sys \<Rightarrow> (u64 \<times> sys) run" where
  "sys_write a1 a2 s =
     (let len = a2
      in if len = 0 then return (0, s)
         else
           bind_run (check_user a1 len s) (\<lambda>ok.
             if \<not> ok then return (- 1, s)
             else bind_run (Some (load_user a1 (unat len) s)) (\<lambda>bs. return (len, s\<lparr>console := console s @ bs\<rparr>))))"

definition sys_open :: "nat \<Rightarrow> u64 \<Rightarrow> sys \<Rightarrow> (u64 \<times> sys) run" where
  "sys_open p a0 s =
     bind_run (resolve_path a0 s) (\<lambda>(node, s1).
       case node of
         None \<Rightarrow> return (- 1, s1)
       | Some nd \<Rightarrow>
           let (fd, proc) = alloc_fd nd (objects s1 ! p) in return (of_int64 fd, update_proc p (\<lambda>_. proc) s1))"

definition sys_close :: "nat \<Rightarrow> u64 \<Rightarrow> sys \<Rightarrow> u64 \<times> sys" where
  "sys_close p a0 s =
     (let fd = to_int a0
      in if 0 \<le> fd \<and> fd \<le> 2 then (0, s)
         else if fd < 3 \<or> fd \<ge> int MAX_FDS \<or> \<not> of_used (fds (objects s ! p) ! nat fd) then (- 1, s)
         else (0, update_proc p (\<lambda>proc. proc\<lparr>fds := (fds proc)[nat fd := empty_file]\<rparr>) s))"

text \<open>A sum of signed numbers that does not fit is undefined.\<close>

definition sys_lseek :: "nat \<Rightarrow> u64 \<Rightarrow> u64 \<Rightarrow> u64 \<Rightarrow> sys \<Rightarrow> (u64 \<times> sys) outcome" where
  "sys_lseek p a0 a1 a2 s =
     (let fd = to_int a0; off = sint a1; whence = to_int a2
      in case open_file 3 fd (objects s ! p) of
           None \<Rightarrow> Inr (- 1, s)
         | Some file \<Rightarrow>
             let seek = (\<lambda>base.
               let next = base + off
               in if next < - (2 ^ 63) \<or> next \<ge> 2 ^ 63 then Inl Undefined
                  else if next < 0 then Inr (- 1, s)
                  else Inr (of_int64 next, update_proc p (\<lambda>proc. proc\<lparr>fds := (fds proc)[nat fd :=
                    file\<lparr>of_offset := of_int64 next\<rparr>]\<rparr>) s))
             in if whence = 0 then seek 0
                else if whence = 1 then seek (sint (of_offset file))
                else if whence = 2 then
                  (case of_node file of None \<Rightarrow> Inl Undefined | Some nd \<Rightarrow> seek (uint (Node_size_in_bytes nd)))
                else Inr (- 1, s))"

section \<open>The break\<close>

definition sys_brk :: "nat \<Rightarrow> u64 \<Rightarrow> sys \<Rightarrow> (u64 \<times> sys) outcome" where
  "sys_brk p a0 s =
     (let addr = a0; proc = objects s ! p
      in if addr = 0 then Inr (brk_current proc, s)
         else if addr < brk_min proc \<or> addr \<ge> BRK_LIMIT \<or> addr \<ge> USER_TOP then Inr (brk_current proc, s)
         else
           let old_map_end = syscall_align_up (brk_current proc);
               new_map_end = syscall_align_up addr
           in bind_outcome
                (if new_map_end > old_map_end
                 then bind_outcome (vm_map_range old_map_end (new_map_end - old_map_end) True True (cr3 (core s)) (mem (core s)))
                   (\<lambda>m. Inr (s\<lparr>core := (core s)\<lparr>mem := m\<rparr>\<rparr>))
                 else Inr s)
                (\<lambda>s1. Inr (addr, update_proc p (\<lambda>proc. proc\<lparr>brk_current := addr\<rparr>) s1)))"

end
