(* ===== verification/Syscall.thy ===== *)
theory Syscall
  imports Sys_File
begin

text \<open>
  The rest of \<^verbatim>\<open>syscall.cc\<close>: processes and their life from fork to wait, the semaphore calls, and the
  dispatcher. A call that has to block ends with what it waits for, and \<open>sys_resume\<close> goes on with it.
\<close>

section \<open>Processes\<close>

definition ensure_process :: "sys \<Rightarrow> (nat \<times> sys) run" where
  "ensure_process s =
     (case current_process s of
        Some p \<Rightarrow> return (p, s)
      | None \<Rightarrow>
          bind_run (filesystem s) (\<lambda>(_, _, s1).
            let p = length (objects s1);
                proc = new_process\<lparr>pid := 1, brk_min := initial_brk s1, brk_current := initial_brk s1\<rparr>
            in return (p, s1\<lparr>objects := objects s1 @ [proc],
                 processes := (if processes s1 = [] then [p] else processes s1), current_process := Some p\<rparr>)))"

definition find_child_locked :: "nat \<Rightarrow> int \<Rightarrow> sys \<Rightarrow> nat option" where
  "find_child_locked p child_pid s = find (\<lambda>c. pid (objects s ! c) = child_pid) (children (objects s ! p))"

text \<open>The bookkeeping of a fork, then what the new thread does while its parent waits for it.\<close>

definition fork_process :: "nat \<Rightarrow> sys \<Rightarrow> nat \<times> sys" where
  "fork_process p s =
     (let proc = objects s ! p; c = length (objects s);
          child = new_process\<lparr>pid := next_pid s, parent := Some p, brk_min := brk_min proc,
            brk_current := brk_current proc, fds := fds proc\<rparr>
      in (c, update_proc p (\<lambda>proc. proc\<lparr>children := c # children proc\<rparr>)
            (s\<lparr>objects := objects s @ [child], next_pid := next_pid s + 1, processes := c # processes s\<rparr>)))"

definition fork_thread :: "nat \<Rightarrow> SyscallFrame \<Rightarrow> sys \<Rightarrow> sys outcome" where
  "fork_thread c frame s =
     (let parent_core = core s
      in bind_outcome (init_thread (parent_core\<lparr>cr3 := common_cr3 parent_core, vmes := []\<rparr>)) (\<lambda>k1.
         bind_outcome (fork_from (cr3 parent_core) k1) (\<lambda>k2.
           Inr (s\<lparr>core := k2\<lparr>cr3 := cr3 parent_core, vmes := vmes parent_core\<rparr>,
             started := \<lparr>th_process = c, th_cr3 = cr3 k2, th_vmes = vmes k2, th_frame = frame\<lparr>rax := 0\<rparr>\<rparr> # started s\<rparr>))))"

definition sys_fork :: "nat \<Rightarrow> SyscallFrame \<Rightarrow> sys \<Rightarrow> (u64 \<times> sys) outcome" where
  "sys_fork p frame s =
     (let (c, s1) = fork_process p s
      in bind_outcome (fork_thread c frame s1) (\<lambda>s2. Inr (of_int64 (pid (objects s2 ! c)), s2)))"

definition syscall_process_stopped :: "sys \<Rightarrow> sys" where
  "syscall_process_stopped s =
     (case current_process s of
        None \<Rightarrow> s
      | Some p \<Rightarrow> update_proc p (\<lambda>proc. proc\<lparr>stopped := \<lparr>fut_ready = True, fut_value = True\<rparr>\<rparr>) s)"

text \<open>\<open>exit\<close> with the part of \<open>Thread::stop\<close> before the switch to another thread.\<close>

definition sys_exit :: "nat \<Rightarrow> u64 \<Rightarrow> sys \<Rightarrow> sys run" where
  "sys_exit p a0 s =
     (let s1 = update_proc p (\<lambda>proc. proc\<lparr>exit_status := \<lparr>fut_ready = True, fut_value = uint (a0 AND 0xFF) * 256\<rparr>\<rparr>) s
      in bind_run (fini_thread (core s1)) (\<lambda>k. return (syscall_process_stopped (s1\<lparr>core := k\<rparr>))))"

section \<open>Results\<close>

text \<open>
  How a call ends: with a value, with the thread giving up the processor, or waiting, for the end of a
  child (the child, the value to return, the address for the status) or for a semaphore (its id, the operation).
\<close>

datatype sys_result = Returns u64 | Yields | Stops | Waits_exit nat u64 u64 | Waits_sem int int

section \<open>Waiting for a child\<close>

definition sys_waitpid :: "nat \<Rightarrow> u64 \<Rightarrow> u64 \<Rightarrow> u64 \<Rightarrow> sys \<Rightarrow> (sys_result \<times> sys) run" where
  "sys_waitpid p a0 a1 a2 s =
     (let child_pid = to_int a0; status = a1
      in if child_pid \<le> 0 \<or> a2 \<noteq> 0 then return (Returns (- 1), s)
         else
           bind_run (if status \<noteq> 0 then check_user status 4 s else return True) (\<lambda>ok.
             if \<not> ok then return (Returns (- 1), s)
             else
               case find_child_locked p child_pid s of
                 None \<Rightarrow> return (Returns (- 1), s)
               | Some c \<Rightarrow>
                   if waited (objects s ! c) then return (Returns (- 1), s)
                   else return (Waits_exit c (of_int64 child_pid) status, update_proc c (\<lambda>proc. proc\<lparr>waited := True\<rparr>) s)))"

text \<open>What is left to do once the child has stopped: its two futures are set and the status can be stored.\<close>

definition finish_waitpid :: "nat \<Rightarrow> u64 \<Rightarrow> u64 \<Rightarrow> sys \<Rightarrow> (sys_result \<times> sys) run" where
  "finish_waitpid c r status s =
     (let child = objects s ! c
      in if fut_ready (exit_status child) \<and> fut_ready (stopped child) then
           (if status \<noteq> 0 then
              bind_run (Some (store_user status (le_bytes 4 (unat (word_of_int (fut_value (exit_status child)) :: u32))) s))
                (\<lambda>s1. return (Returns r, s1))
            else return (Returns r, s))
         else return (Waits_exit c r status, s))"

section \<open>Semaphores\<close>

definition try_semop :: "int \<Rightarrow> int \<Rightarrow> KernelSemaphore \<Rightarrow> sys \<Rightarrow> (sys_result \<times> sys) outcome" where
  "try_semop semid op sem s =
     (case semaphore_op (Semop op) sem of
        Finish sem' k r \<Rightarrow> Inr (Returns (of_int64 r), s\<lparr>sems := put_sem sem' (sems s)\<rparr>)
      | Wait_with sem' _ \<Rightarrow> Inr (Waits_sem semid op, s\<lparr>sems := put_sem sem' (sems s)\<rparr>)
      | Fail_with msg \<Rightarrow> Inl (Panic msg))"

definition sys_semop :: "u64 \<Rightarrow> u64 \<Rightarrow> u64 \<Rightarrow> sys \<Rightarrow> (sys_result \<times> sys) run" where
  "sys_semop a0 a1 a2 s =
     (let semid = to_int a0; nsops = a2
      in bind_run (if nsops \<noteq> 1 then return False else check_user a1 6 s) (\<lambda>ok.
           if \<not> ok then return (Returns (- 1), s)
           else
             case find_sem_locked semid (sems s) of
               None \<Rightarrow> return (Returns (- 1), s)
             | Some sem \<Rightarrow>
                 if ks_removed sem then return (Returns (- 1), s)
                 else
                   bind_run (Some (load_user a1 6 s)) (\<lambda>ops.
                     if u16_at 0 ops \<noteq> 0 then return (Returns (- 1), s)
                     else Some (try_semop semid (sint (u16_at 2 ops)) sem s))))"

definition sys_semget :: "u64 \<Rightarrow> u64 \<Rightarrow> sys \<Rightarrow> u64 \<times> sys" where
  "sys_semget a0 a1 s =
     (let (r, tab) = semget (to_int a0) (to_int a1) (sems s) in (of_int64 r, s\<lparr>sems := tab\<rparr>))"

definition sys_semctl :: "u64 \<Rightarrow> u64 \<Rightarrow> u64 \<Rightarrow> sys \<Rightarrow> u64 \<times> sys" where
  "sys_semctl a0 a1 a2 s =
     (let (r, tab) = semctl (to_int a0) (to_int a1) (to_int a2) (sems s) in (of_int64 r, s\<lparr>sems := tab\<rparr>))"

section \<open>The dispatcher\<close>

definition returning :: "(u64 \<times> sys) run \<Rightarrow> (sys_result \<times> sys) run" where
  "returning r = bind_run r (\<lambda>(v, s). return (Returns v, s))"

definition syscallHandler :: "SyscallFrame \<Rightarrow> sys \<Rightarrow> (sys_result \<times> sys) run" where
  "syscallHandler frame s0 =
     bind_run (ensure_process s0) (\<lambda>(p, s).
       let n = rax frame; a0 = rdi frame; a1 = rsi frame; a2 = rdx frame
       in if n = 0 then returning (sys_read p a0 a1 a2 s)
          else if n = 1 then returning (sys_write a1 a2 s)
          else if n = 2 then returning (sys_open p a0 s)
          else if n = 3 then returning (return (sys_close p a0 s))
          else if n = 8 then returning (Some (sys_lseek p a0 a1 a2 s))
          else if n = 12 then returning (Some (sys_brk p a0 s))
          else if n = 24 then return (Yields, s)
          else if n = 57 then returning (Some (sys_fork p frame s))
          else if n = 60 then bind_run (sys_exit p a0 s) (\<lambda>s1. return (Stops, s1))
          else if n = 61 then sys_waitpid p a0 a1 a2 s
          else if n = 64 then returning (return (sys_semget a0 a1 s))
          else if n = 65 then sys_semop a0 a1 a2 s
          else if n = 66 then returning (return (sys_semctl a0 a1 a2 s))
          else Some (Inl (Panic ''Unknown syscall ?'')))"

text \<open>A call that waits goes on when its thread runs again.\<close>

definition sys_resume :: "sys_result \<Rightarrow> sys \<Rightarrow> (sys_result \<times> sys) run" where
  "sys_resume w s =
     (case w of
        Waits_exit c r status \<Rightarrow> finish_waitpid c r status s
      | Waits_sem semid op \<Rightarrow>
          (case find_sem_locked semid (sems s) of
             None \<Rightarrow> Some (Inl Undefined)
           | Some sem \<Rightarrow> Some (try_semop semid op sem s))
      | Yields \<Rightarrow> return (Returns 0, s)
      | r \<Rightarrow> return (r, s))"

end
