(* ===== verification/File_Spec.thy ===== *)
theory File_Spec
  imports Syscall
begin

text \<open>
  What the file calls promise: descriptors as a finite map, reading a file into user memory, writing to the
  console, and the walk from a path in user memory to a file.
\<close>

section \<open>User memory\<close>

text \<open>What a process state keeps: a well-formed address space whose loaded frames have all their words.\<close>

definition wf_core :: "sys \<Rightarrow> bool" where
  "wf_core s \<longleftrightarrow> wf_vm (core s) \<and> full_frames (cr3 (core s)) (mem (core s))"

definition readable :: "u64 \<Rightarrow> u64 \<Rightarrow> sys \<Rightarrow> bool" where
  "readable a n s \<longleftrightarrow> accessible (cr3 (core s)) (mem (core s)) a n"

definition the_byte :: "sys \<Rightarrow> u64 \<Rightarrow> u8 option" where
  "the_byte s x = user_byte (cr3 (core s)) (mem (core s)) x"

text \<open>A write to user memory: these bytes, and nothing else of the state.\<close>

definition wrote :: "u64 \<Rightarrow> bytes \<Rightarrow> sys \<Rightarrow> sys \<Rightarrow> bool" where
  "wrote a bs s s' \<longleftrightarrow>
     s' = s\<lparr>core := (core s)\<lparr>mem := mem (core s')\<rparr>\<rparr> \<and> wf_core s' \<and>
     same_space (cr3 (core s)) (mem (core s)) (mem (core s')) \<and>
     (\<forall>x. lower_address x \<longrightarrow> the_byte s' x =
       (if unat a \<le> unat x \<and> unat x < unat a + length bs then Some (bs ! (unat x - unat a)) else the_byte s x))"

lemma check_user_result: "check_user a n s = return (if n = 0 then a < hhdm_offset (mem (core s)) else readable a n s)"
  by (simp add: check_user_def user_buffer_ok_result readable_def return_def)

lemma readable_page:
  "readable a n s \<Longrightarrow> unat a \<le> unat x \<Longrightarrow> unat x < unat a + unat n \<Longrightarrow>
     small_page (cr3 (core s)) (mem (core s)) (drop_bit 12 x) \<noteq> None"
  by (auto simp: readable_def accessible_def user_page_def)

lemma store_user_ok:
  assumes wf: "wf_core s" and a: "unat a + length bs \<le> 2 ^ 47" and r: "readable a n s" and n: "length bs \<le> unat n"
  obtains s' where "store_user a bs s = Inr s'" and "wrote a bs s s'"
proof -
  note W = wf [unfolded wf_core_def]
  have pg: "\<forall>x. unat a \<le> unat x \<and> unat x < unat a + length bs \<longrightarrow>
      small_page (cr3 (core s)) (mem (core s)) (drop_bit 12 x) \<noteq> None"
    using readable_page [OF r] n by (meson less_le_trans nat_add_left_cancel_le)
  obtain m' where m': "put_user_bytes (cr3 (core s)) a bs (mem (core s)) = Some m'"
      "same_space (cr3 (core s)) (mem (core s)) m'"
      "\<forall>x. lower_address x \<longrightarrow> user_byte (cr3 (core s)) m' x =
        (if unat a \<le> unat x \<and> unat x < unat a + length bs then Some (bs ! (unat x - unat a))
         else user_byte (cr3 (core s)) (mem (core s)) x)"
    using put_user_bytes_ok [OF wf_vmD(1) [OF conjunct1 [OF W]] conjunct2 [OF W] a pg] by (elim exE conjE) (rule that)
  define s' where "s' = s\<lparr>core := (core s)\<lparr>mem := m'\<rparr>\<rparr>"
  have "wf_core s'"
    using W m'(2) by (simp add: wf_core_def s'_def wf_vm_def same_space_def)
  then have "wrote a bs s s'"
    using m'(2,3) by (simp add: wrote_def s'_def the_byte_def)
  then show thesis
    using that m'(1) by (simp add: store_user_def s'_def)
qed

lemma wrote_nothing: "wf_core s \<Longrightarrow> wrote a [] s s"
  by (auto simp: wrote_def wf_core_def same_space_refl wf_vmD)

lemma load_user_ok:
  assumes r: "readable a n s" and a: "unat a + unat n \<le> 2 ^ 47" and k: "k \<le> unat n"
  shows "\<exists>bs. load_user a k s = Inr bs \<and> length bs = k \<and> (\<forall>i < k. the_byte s (a + word_of_nat i) = Some (bs ! i))"
proof -
  define bs where "bs = map (\<lambda>i. the (the_byte s (a + word_of_nat i))) [0..<k]"
  have b: "\<forall>i < length bs. user_byte (cr3 (core s)) (mem (core s)) (a + word_of_nat i) = Some (bs ! i)"
  proof (intro allI impI)
    fix i
    assume i: "i < length bs"
    then have u: "unat (a + word_of_nat i) = unat a + i"
      using a k by (intro unat_add_of_nat) (simp add: bs_def)
    then have "small_page (cr3 (core s)) (mem (core s)) (drop_bit 12 (a + word_of_nat i)) \<noteq> None"
      using i k by (intro readable_page [OF r]) (simp_all add: bs_def)
    moreover have "canonical (a + word_of_nat i)"
      using u i a k by (intro lower_canonical) (simp add: lower_address_def bs_def)
    ultimately have "the_byte s (a + word_of_nat i) \<noteq> None"
      by (auto simp: the_byte_def user_byte_def)
    then show "user_byte (cr3 (core s)) (mem (core s)) (a + word_of_nat i) = Some (bs ! i)"
      using i by (auto simp: bs_def the_byte_def)
  qed
  have "user_bytes (cr3 (core s)) (mem (core s)) a k = Some bs"
    using user_bytes_ok [OF _ b] a k by (simp add: bs_def)
  then show ?thesis
    using b by (auto simp: load_user_def the_byte_def bs_def)
qed

section \<open>Descriptors\<close>

text \<open>The open files of a process: the node and the offset of each descriptor.\<close>

definition fd_map :: "Process \<Rightarrow> int \<Rightarrow> (Node \<times> u64) option" where
  "fd_map proc fd =
     (if 0 \<le> fd \<and> fd < int MAX_FDS \<and> of_used (fds proc ! nat fd)
      then map_option (\<lambda>nd. (nd, of_offset (fds proc ! nat fd))) (of_node (fds proc ! nat fd)) else None)"

definition wf_fds :: "Process \<Rightarrow> bool" where
  "wf_fds proc \<longleftrightarrow>
     length (fds proc) = MAX_FDS \<and> (\<forall>i < 3. \<not> of_used (fds proc ! i)) \<and>
     (\<forall>i < MAX_FDS. of_used (fds proc ! i) \<longrightarrow> of_node (fds proc ! i) \<noteq> None)"

definition set_fd :: "int \<Rightarrow> Node \<times> u64 \<Rightarrow> Process \<Rightarrow> Process" where
  "set_fd fd f proc = proc\<lparr>fds := (fds proc)[nat fd := \<lparr>of_node = Some (fst f), of_offset = snd f, of_used = True\<rparr>]\<rparr>"

lemma MAX_FDS_simps [simp]: "int MAX_FDS = 32" "MAX_FDS = 32"
  by (simp_all add: MAX_FDS_def)

lemma used_from_3: "wf_fds proc \<Longrightarrow> of_used (fds proc ! nat fd) \<Longrightarrow> 0 \<le> fd \<Longrightarrow> 3 \<le> fd"
  by (rule ccontr) (auto simp: wf_fds_def nat_less_iff)

lemma fd_map_open:
  assumes "wf_fds proc"
  shows "open_file 0 fd proc = map_option (\<lambda>(nd, off). \<lparr>of_node = Some nd, of_offset = off, of_used = True\<rparr>) (fd_map proc fd)"
    and "open_file 3 fd proc = open_file 0 fd proc"
proof -
  have n: "nat fd < 32" if "0 \<le> fd" "fd < 32"
    using that by simp
  show "open_file 0 fd proc = map_option (\<lambda>(nd, off). \<lparr>of_node = Some nd, of_offset = off, of_used = True\<rparr>) (fd_map proc fd)"
    using assms n by (cases "fds proc ! nat fd") (auto simp: open_file_def fd_map_def wf_fds_def)
  show "open_file 3 fd proc = open_file 0 fd proc"
    using used_from_3 [OF assms, of fd] by (auto simp: open_file_def)
qed

lemma fd_map_range: "wf_fds proc \<Longrightarrow> fd_map proc fd = Some f \<Longrightarrow> 3 \<le> fd \<and> fd < 32"
  using used_from_3 [of proc fd] by (auto simp: fd_map_def split: if_splits)

lemma set_fd_map:
  assumes "wf_fds proc" and "3 \<le> fd" and "fd < 32"
  shows "fd_map (set_fd fd f proc) = (fd_map proc)(fd \<mapsto> f)" and "wf_fds (set_fd fd f proc)"
proof -
  have n: "nat fd < 32" "3 \<le> nat fd"
    using assms by simp_all
  have "fd_map (set_fd fd f proc) x = ((fd_map proc)(fd \<mapsto> f)) x" for x
  proof (cases "x = fd")
    case False
    then have "0 \<le> x \<Longrightarrow> nat x \<noteq> nat fd"
      using assms by simp
    then show ?thesis
      using False by (auto simp: fd_map_def set_fd_def)
  qed (use assms n in \<open>simp add: fd_map_def set_fd_def wf_fds_def\<close>)
  then show "fd_map (set_fd fd f proc) = (fd_map proc)(fd \<mapsto> f)"
    by blast
  show "wf_fds (set_fd fd f proc)"
    using assms(1) n by (auto simp: wf_fds_def set_fd_def nth_list_update)
qed

lemma find_upt: 
  "find P [a..<b] = Some k \<longleftrightarrow> a \<le> k \<and> k < b \<and> P k \<and> (\<forall>j. a \<le> j \<and> j < k \<longrightarrow> \<not> P j)"
  "find P [a..<b] = None \<longleftrightarrow> (\<forall>j. a \<le> j \<and> j < b \<longrightarrow> \<not> P j)"
proof -
  show "find P [a..<b] = None \<longleftrightarrow> (\<forall>j. a \<le> j \<and> j < b \<longrightarrow> \<not> P j)"
    by (auto simp: find_None_iff)
  show "find P [a..<b] = Some k \<longleftrightarrow> a \<le> k \<and> k < b \<and> P k \<and> (\<forall>j. a \<le> j \<and> j < k \<longrightarrow> \<not> P j)"
  proof
    assume "find P [a..<b] = Some k"
    then obtain i where i: "i < b - a" "P (a + i)" "k = a + i" "\<forall>j < i. \<not> P (a + j)"
      by (auto simp: find_Some_iff)
    have "\<not> P j" if "a \<le> j" "j < k" for j
      using i(3,4) that by (auto dest!: spec [of _ "j - a"])
    with i show "a \<le> k \<and> k < b \<and> P k \<and> (\<forall>j. a \<le> j \<and> j < k \<longrightarrow> \<not> P j)"
      by simp
  next
    assume "a \<le> k \<and> k < b \<and> P k \<and> (\<forall>j. a \<le> j \<and> j < k \<longrightarrow> \<not> P j)"
    then show "find P [a..<b] = Some k"
      unfolding find_Some_iff by (intro exI [of _ "k - a"]) auto
  qed
qed

lemma alloc_fd_ok:
  assumes "wf_fds proc"
  shows "alloc_fd nd proc =
    (case find (\<lambda>fd. fd_map proc (int fd) = None) [3..<32] of
       Some fd \<Rightarrow> (int fd, set_fd (int fd) (nd, 0) proc) | None \<Rightarrow> (- 1, proc))"
proof -
  have u: "(\<not> of_used (fds proc ! fd)) = (fd_map proc (int fd) = None)" if "fd \<in> set [3..<32]" for fd
  proof -
    have "fd < 32"
      using that by (simp only: set_upt atLeastLessThan_iff)
    then show ?thesis
      using assms by (auto simp: fd_map_def wf_fds_def)
  qed
  have "find (\<lambda>fd. \<not> of_used (fds proc ! fd)) [3..<32] = find (\<lambda>fd. fd_map proc (int fd) = None) [3..<32]"
    by (rule find_cong [OF refl u])
  then show ?thesis
    unfolding alloc_fd_def MAX_FDS_simps by (simp add: set_fd_def split: option.split)
qed

text \<open>A process of the system, and the state in which only its descriptors are different.\<close>

definition wf_files :: "nat \<Rightarrow> sys \<Rightarrow> bool" where
  "wf_files p s \<longleftrightarrow> p < length (objects s) \<and> wf_fds (objects s ! p)"

abbreviation open_files :: "nat \<Rightarrow> sys \<Rightarrow> int \<Rightarrow> (Node \<times> u64) option" where
  "open_files p s \<equiv> fd_map (objects s ! p)"

definition closed_fd :: "int \<Rightarrow> Process \<Rightarrow> Process" where
  "closed_fd fd proc = proc\<lparr>fds := (fds proc)[nat fd := empty_file]\<rparr>"

lemma closed_fd_map:
  assumes "wf_fds proc" and "3 \<le> fd" and "fd < 32"
  shows "fd_map (closed_fd fd proc) = (fd_map proc)(fd := None)" and "wf_fds (closed_fd fd proc)"
proof -
  have n: "nat fd < 32" "3 \<le> nat fd"
    using assms by simp_all
  have "fd_map (closed_fd fd proc) x = ((fd_map proc)(fd := None)) x" for x
  proof (cases "x = fd")
    case False
    then have "0 \<le> x \<Longrightarrow> nat x \<noteq> nat fd"
      using assms by simp
    then show ?thesis
      using False by (auto simp: fd_map_def closed_fd_def)
  qed (use assms n in \<open>simp add: fd_map_def closed_fd_def wf_fds_def empty_file_def\<close>)
  then show "fd_map (closed_fd fd proc) = (fd_map proc)(fd := None)"
    by blast
  show "wf_fds (closed_fd fd proc)"
    using assms(1) n by (auto simp: wf_fds_def closed_fd_def nth_list_update empty_file_def)
qed

lemma update_proc_simps [simp]:
  "length (objects (update_proc p f s)) = length (objects s)" "core (update_proc p f s) = core s"
  "p < length (objects s) \<Longrightarrow> objects (update_proc p f s) ! p = f (objects s ! p)"
  "q \<noteq> p \<Longrightarrow> objects (update_proc p f s) ! q = objects s ! q"
  by (simp_all add: update_proc_def)

text \<open>
  The three calls that only change a descriptor, on the finite map: open takes the least free descriptor
  from 3 on, close releases one, and lseek moves an offset to a target that is not negative.
\<close>

definition seek_target :: "Node \<times> u64 \<Rightarrow> u64 \<Rightarrow> int \<Rightarrow> int option" where
  "seek_target f a1 whence =
     (if whence = 0 then Some (sint a1)
      else if whence = 1 then Some (sint (snd f) + sint a1)
      else if whence = 2 then Some (uint (Node_size_in_bytes (fst f)) + sint a1)
      else None)"

lemma sys_close_ok:
  assumes "wf_files p s"
  shows "sys_close p a0 s =
    (if 0 \<le> to_int a0 \<and> to_int a0 \<le> 2 then (0, s)
     else if open_files p s (to_int a0) = None then (- 1, s)
     else (0, update_proc p (closed_fd (to_int a0)) s))"
proof -
  have wf: "wf_fds (objects s ! p)"
    using assms by (simp add: wf_files_def)
  have n: "nat (to_int a0) < 32" if "0 \<le> to_int a0" "to_int a0 < 32"
    using that by simp
  show ?thesis
    using wf n by (auto simp: sys_close_def Let_def fd_map_def closed_fd_def [abs_def] wf_fds_def)
qed

lemma sys_lseek_ok:
  assumes "wf_files p s"
  shows "sys_lseek p a0 a1 a2 s =
    (case open_files p s (to_int a0) of
       None \<Rightarrow> Inr (- 1, s)
     | Some f \<Rightarrow>
         (case seek_target f a1 (to_int a2) of
            None \<Rightarrow> Inr (- 1, s)
          | Some t \<Rightarrow>
              if t < - (2 ^ 63) \<or> 2 ^ 63 \<le> t then Inl Undefined
              else if t < 0 then Inr (- 1, s)
              else Inr (word_of_int t, update_proc p (set_fd (to_int a0) (fst f, word_of_int t)) s)))"
proof -
  have wf: "wf_fds (objects s ! p)"
    using assms by (simp add: wf_files_def)
  show ?thesis
    unfolding sys_lseek_def Let_def fd_map_open [OF wf]
    by (auto simp: seek_target_def set_fd_def [abs_def] of_int64_def update_proc_def split: option.split)
qed

definition only_files :: "nat \<Rightarrow> sys \<Rightarrow> sys \<Rightarrow> bool" where
  "only_files p s s' \<longleftrightarrow>
     wf_files p s' \<and> s' = s\<lparr>objects := (objects s)[p := (objects s ! p)\<lparr>fds := fds (objects s' ! p)\<rparr>]\<rparr>"

lemma only_filesI:
  assumes "wf_files p s" and "\<And>proc. f proc = proc\<lparr>fds := fds (f proc)\<rparr>" and "wf_fds (f (objects s ! p))"
  shows "only_files p s (update_proc p f s)"
  using assms(1,3) assms(2) [of "objects s ! p"] by (simp add: only_files_def wf_files_def update_proc_def)

lemma only_files_refl: "wf_files p s \<Longrightarrow> only_files p s s"
  by (simp add: only_files_def wf_files_def)

text \<open>
  C40. The descriptors of a process are a finite map to nodes and offsets. Open binds the least free number
  from 3 on, with offset 0, and fails only when all 29 are taken; close removes a binding and fails when
  there is none, except for the three standard numbers; lseek moves the offset of an open descriptor to the
  target that its arguments name if that is not negative. Nothing else changes. A target that does not fit
  in 63 bits is a signed overflow.
\<close>

theorem descriptors_are_map:
  assumes wf: "wf_files p s"
  shows "(case alloc_fd nd (objects s ! p) of (fd, proc') \<Rightarrow>
      wf_fds proc' \<and>
      (if \<forall>x \<in> {3..<32}. open_files p s x \<noteq> None then fd = - 1 \<and> proc' = objects s ! p
       else fd \<in> {3..<32} \<and> open_files p s fd = None \<and> (\<forall>x \<in> {3..<fd}. open_files p s x \<noteq> None) \<and>
         fd_map proc' = (open_files p s)(fd \<mapsto> (nd, 0)))) \<and>
    (case sys_close p a0 s of (r, s') \<Rightarrow>
      only_files p s s' \<and> open_files p s' = (open_files p s)(to_int a0 := None) \<and>
      r = (if to_int a0 \<in> {0..2} \<or> open_files p s (to_int a0) \<noteq> None then 0 else - 1)) \<and>
    (case sys_lseek p a0 a1 a2 s of
       Inl e \<Rightarrow> \<exists>f t. open_files p s (to_int a0) = Some f \<and> seek_target f a1 (to_int a2) = Some t \<and> t \<notin> {- (2 ^ 63)..<2 ^ 63}
     | Inr (r, s') \<Rightarrow>
         (case Option.bind (open_files p s (to_int a0)) (\<lambda>f. map_option (Pair (fst f)) (seek_target f a1 (to_int a2))) of
            Some (nd, t) \<Rightarrow>
              if 0 \<le> t then uint r = t \<and> only_files p s s' \<and> open_files p s' = (open_files p s)(to_int a0 \<mapsto> (nd, r))
              else r = - 1 \<and> s' = s
          | None \<Rightarrow> r = - 1 \<and> s' = s))"
proof (intro conjI)
  have wf': "wf_fds (objects s ! p)" "p < length (objects s)"
    using wf by (simp_all add: wf_files_def)
  show "case alloc_fd nd (objects s ! p) of (fd, proc') \<Rightarrow>
      wf_fds proc' \<and>
      (if \<forall>x \<in> {3..<32}. open_files p s x \<noteq> None then fd = - 1 \<and> proc' = objects s ! p
       else fd \<in> {3..<32} \<and> open_files p s fd = None \<and> (\<forall>x \<in> {3..<fd}. open_files p s x \<noteq> None) \<and>
         fd_map proc' = (open_files p s)(fd \<mapsto> (nd, 0)))"
  proof (cases "find (\<lambda>fd. open_files p s (int fd) = None) [3..<32]")
    case None
    then have "open_files p s x \<noteq> None" if "x \<in> {3..<32}" for x
      using that unfolding find_upt by (auto dest!: spec [of _ "nat x"])
    then show ?thesis
      using wf' None unfolding alloc_fd_ok [OF wf'(1)] None by simp
  next
    case (Some k)
    then have k: "3 \<le> k" "k < 32" "open_files p s (int k) = None" "\<And>j. 3 \<le> j \<Longrightarrow> j < k \<Longrightarrow> open_files p s (int j) \<noteq> None"
      unfolding find_upt by blast+
    have "open_files p s x \<noteq> None" if "x \<in> {3..<int k}" for x
    proof -
      have "3 \<le> nat x" "nat x < k" "int (nat x) = x"
        using that by auto
      then show ?thesis
        using k(4) by metis
    qed
    moreover have "\<not> (\<forall>x \<in> {3..<32}. open_files p s x \<noteq> None)"
      using k by (auto intro!: bexI [of _ "int k"])
    ultimately show ?thesis
      using k set_fd_map [OF wf'(1), of "int k" "(nd, 0)"] unfolding alloc_fd_ok [OF wf'(1)] Some by simp
  qed
  show "case sys_close p a0 s of (r, s') \<Rightarrow>
      only_files p s s' \<and> open_files p s' = (open_files p s)(to_int a0 := None) \<and>
      r = (if to_int a0 \<in> {0..2} \<or> open_files p s (to_int a0) \<noteq> None then 0 else - 1)"
  proof (cases "open_files p s (to_int a0)")
    case None
    then show ?thesis
      using wf wf' by (auto simp: sys_close_ok [OF wf] only_files_refl)
  next
    case (Some f)
    note r = fd_map_range [OF wf'(1) Some]
    then have "only_files p s (update_proc p (closed_fd (to_int a0)) s)"
      using closed_fd_map [OF wf'(1), of "to_int a0"] by (intro only_filesI [OF wf]) (simp_all add: closed_fd_def)
    then show ?thesis
      using r Some wf' closed_fd_map [OF wf'(1), of "to_int a0"] by (simp add: sys_close_ok [OF wf])
  qed
  show "case sys_lseek p a0 a1 a2 s of
       Inl e \<Rightarrow> \<exists>f t. open_files p s (to_int a0) = Some f \<and> seek_target f a1 (to_int a2) = Some t \<and> t \<notin> {- (2 ^ 63)..<2 ^ 63}
     | Inr (r, s') \<Rightarrow>
         (case Option.bind (open_files p s (to_int a0)) (\<lambda>f. map_option (Pair (fst f)) (seek_target f a1 (to_int a2))) of
            Some (nd, t) \<Rightarrow>
              if 0 \<le> t then uint r = t \<and> only_files p s s' \<and> open_files p s' = (open_files p s)(to_int a0 \<mapsto> (nd, r))
              else r = - 1 \<and> s' = s
          | None \<Rightarrow> r = - 1 \<and> s' = s)"
  proof (cases "open_files p s (to_int a0)")
    case (Some f)
    note r = fd_map_range [OF wf'(1) Some]
    have "only_files p s (update_proc p (set_fd (to_int a0) g) s)"
      "open_files p (update_proc p (set_fd (to_int a0) g) s) = (open_files p s)(to_int a0 \<mapsto> g)" for g
      using set_fd_map [OF wf'(1), of "to_int a0" g] r wf' by (auto intro!: only_filesI [OF wf] simp: set_fd_def)
    moreover have "uint (word_of_int t :: u64) = t" if "0 \<le> t" "t < 2 ^ 63" for t
      using that by (simp add: uint_word_of_int)
    ultimately show ?thesis
      using Some by (auto simp: sys_lseek_ok [OF wf] split: option.split)
  qed (simp add: sys_lseek_ok [OF wf])
qed

section \<open>Reading and writing\<close>

lemma wf_core_update [simp]: "wf_core (update_proc p f s) = wf_core s" "readable a n (update_proc p f s) = readable a n s"
  "the_byte (update_proc p f s) = the_byte s"
  by (simp_all add: wf_core_def readable_def the_byte_def fun_eq_iff)

lemma readable_wrote: "wrote a bs s s' \<Longrightarrow> readable b n s' = readable b n s"
proof -
  assume w: "wrote a bs s s'"
  then have c: "core s' = (core s)\<lparr>mem := mem (core s')\<rparr>"
    unfolding wrote_def by (metis sys.select_convs(1) sys.surjective sys.update_convs(1))
  have "same_space (cr3 (core s)) (mem (core s)) (mem (core s'))"
    using w by (simp add: wrote_def)
  moreover have "cr3 (core s') = cr3 (core s)"
    by (subst c) simp
  ultimately show ?thesis
    by (simp add: readable_def accessible_def user_page_def same_space_def)
qed

lemma read_open:
  assumes wf: "wf_core s" and p: "wf_files p s" and len: "a2 \<noteq> 0" and low: "unat a1 + unat a2 \<le> 2 ^ 47"
    and f: "open_files p s (to_int a0) = Some (nd, off)" and disk: "wf_node nd c"
    and ok: "readable a1 a2 s" "unat a2 < 2 ^ 32"
  defines "o' \<equiv> unat off mod 2 ^ 32" and "content \<equiv> node_content nd c"
  shows "if length content < o' then sys_read p a0 a1 a2 s = return (- 1, s)
    else \<exists>s1. wrote a1 (segment o' (unat a2) content) s s1 \<and>
      sys_read p a0 a1 a2 s = return (word_of_nat (min (unat a2) (length content - o')),
        update_proc p (set_fd (to_int a0) (nd, off + word_of_nat (min (unat a2) (length content - o')))) s1)"
proof -
  have o': "unat (ucast off :: u32) = o'"
    by (simp add: unsigned_ucast_eq take_bit_eq_mod o'_def)
  have n: "unat (ucast a2 :: u32) = unat a2"
    using ok(2) by (simp add: unsigned_ucast_eq take_bit_nat_eq_self)
  then have n0: "(ucast a2 :: u32) \<noteq> 0"
    using len by (metis unat_0 unat_eq_zero)
  have rd: "BlockIO_read_all (Node_io nd) (ucast off) (ucast a2) = Inr (read_result content (ucast off) (ucast a2))"
    using node.read_all_result [of "(nd, c)"] disk by (simp add: content_def)
  have wfp: "wf_fds (objects s ! p)"
    using p by (simp add: wf_files_def)
  have g: "\<not> 0xFFFFFFFF < a2"
    using ok(2) by (simp add: word_less_nat_alt)
  have run: "sys_read p a0 a1 a2 s =
      bind_run (Some (Inr (read_result content (ucast off) (ucast a2)))) (\<lambda>(cnt, bs).
      bind_run (Some (store_user a1 bs s)) (\<lambda>s1.
        if cnt < 0 then return (- 1, s1)
        else return (of_int64 cnt, update_proc p (set_fd (to_int a0) (nd, off + of_int64 cnt)) s1)))"
    using ok len g
    by (simp add: sys_read_def Let_def fd_map_open [OF wfp] f check_user_result rd set_fd_def [abs_def] cong: if_cong)
  show ?thesis
  proof (cases "length content < o'")
    case True
    have "store_user a1 [] s = Inr s"
      by (simp add: store_user_def)
    then show ?thesis
      using True n0 o' by (simp add: run read_result_def)
  next
    case False
    let ?bs = "segment o' (unat a2) content"
    have "length ?bs \<le> unat a2"
      by simp
    with store_user_ok [OF wf _ ok(1), of ?bs] low obtain s1 where s1: "store_user a1 ?bs s = Inr s1" "wrote a1 ?bs s s1"
      by force
    have "read_result content (ucast off) (ucast a2) = (int (min (unat a2) (length content - o')), ?bs)"
      using False o' n by (simp add: read_result_def)
    then show ?thesis
      using False s1 by (auto simp: run of_int64_def)
  qed
qed

text \<open>
  C14. Reading a file into user memory: a call that names no open descriptor, a buffer that is not all user
  memory or a length of 4 GiB or more returns -1 and changes nothing, and so does an offset beyond the end
  of the file. Otherwise the bytes of the file from the offset on, as many as are asked for and there are,
  are put into the buffer, the offset advances by their number, and nothing else of the memory or the state
  changes. The offset counts modulo \<open>2 ^ 32\<close> here.
\<close>

theorem read_file:
  assumes wf: "wf_core s" and p: "wf_files p s" and len: "a2 \<noteq> 0" and low: "unat a1 + unat a2 \<le> 2 ^ 47"
    and disk: "\<forall>nd off. open_files p s (to_int a0) = Some (nd, off) \<longrightarrow> wf_node nd c"
  shows "case open_files p s (to_int a0) of
      None \<Rightarrow> sys_read p a0 a1 a2 s = return (- 1, s)
    | Some (nd, off) \<Rightarrow>
        (let o' = unat off mod 2 ^ 32; content = node_content nd c; n = min (unat a2) (length content - o')
         in if \<not> readable a1 a2 s \<or> 2 ^ 32 \<le> unat a2 \<or> length content < o'
            then sys_read p a0 a1 a2 s = return (- 1, s)
            else \<exists>s1. wrote a1 (segment o' n content) s s1 \<and>
              sys_read p a0 a1 a2 s =
                return (word_of_nat n, update_proc p (set_fd (to_int a0) (nd, off + word_of_nat n)) s1))"
proof (cases "open_files p s (to_int a0)")
  case None
  then show ?thesis
    using p len by (simp add: sys_read_def fd_map_open wf_files_def)
next
  case (Some f)
  obtain nd off where f: "f = (nd, off)"
    by (cases f)
  show ?thesis
  proof (cases "readable a1 a2 s \<and> unat a2 < 2 ^ 32")
    case True
    have "segment k (min m (length xs - k)) xs = segment k m xs" for k m :: nat and xs :: bytes
      by (simp add: segment_def min_def)
    then show ?thesis
      using read_open [OF wf p len low Some [unfolded f], of c] disk Some f True
      by (simp add: Let_def linorder_not_le [symmetric] cong: if_cong)
  next
    case False
    then have "\<not> readable a1 a2 s \<or> 0xFFFFFFFF < a2"
      by (auto simp: word_less_nat_alt)
    then have "sys_read p a0 a1 a2 s = return (- 1, s)"
      using Some f p len by (auto simp: sys_read_def fd_map_open wf_files_def check_user_result)
    then show ?thesis
      using Some f False by (auto simp: Let_def)
  qed
qed

lemma write_console:
  assumes len: "a2 \<noteq> 0" and low: "unat a1 + unat a2 \<le> 2 ^ 47"
  shows "if readable a1 a2 s
    then \<exists>bs. sys_write a1 a2 s = return (a2, s\<lparr>console := console s @ bs\<rparr>) \<and> length bs = unat a2 \<and>
      (\<forall>i < unat a2. the_byte s (a1 + word_of_nat i) = Some (bs ! i))
    else sys_write a1 a2 s = return (- 1, s)"
proof (cases "readable a1 a2 s")
  case True
  from load_user_ok [OF this low order_refl] obtain bs where "load_user a1 (unat a2) s = Inr bs" "length bs = unat a2"
    "\<forall>i < unat a2. the_byte s (a1 + word_of_nat i) = Some (bs ! i)"
    by blast
  then show ?thesis
    using True len by (auto simp: sys_write_def check_user_result)
qed (use len in \<open>simp add: sys_write_def check_user_result\<close>)

text \<open>
  A program that reads a file into a buffer and writes the buffer prints the file: whatever the length of
  the buffer, the console gets exactly the bytes of the file that the read has returned.
\<close>

theorem cat_prints_file:
  assumes wf: "wf_core s" and p: "wf_files p s" and low: "unat a1 + unat a2 \<le> 2 ^ 47"
    and f: "open_files p s (to_int a0) = Some (nd, off)" and disk: "wf_node nd c"
    and ok: "readable a1 a2 s" "0 < unat a2" "unat a2 < 2 ^ 32" "unat off < length (node_content nd c)"
    and run: "sys_read p a0 a1 a2 s = return (n, s1)"
  shows "unat n = min (unat a2) (length (node_content nd c) - unat off) \<and>
    (\<exists>s2. sys_write a1 n s1 = return (n, s2) \<and>
      console s2 = console s @ segment (unat off) (unat a2) (node_content nd c))"
proof -
  let ?c = "node_content nd c" and ?k = "min (unat a2) (length (node_content nd c) - unat off)"
  have lc: "length ?c < 2 ^ 32"
    using length_node_content [OF disk] u32_bound [of "size_low (node_data nd)"] by (simp add: Node_size_in_bytes_def)
  then have o': "unat off mod 2 ^ 32 = unat off"
    using ok(4) by simp
  have a2: "a2 \<noteq> 0"
    using ok(2) by auto
  obtain t where t: "wrote a1 (segment (unat off) (unat a2) ?c) s t" "n = word_of_nat ?k"
      "s1 = update_proc p (set_fd (to_int a0) (nd, off + n)) t"
    using read_open [OF wf p a2 low f disk ok(1,3)] run ok(4) unfolding o' by (auto simp: return_def not_less)
  have k: "?k < 2 ^ 32"
    using ok(3) by simp
  then have n: "unat n = ?k"
    using t(2) by (simp add: unat_of_nat_u64)
  have n0: "n \<noteq> 0"
    using n ok(2,4) by auto
  have acc: "readable a1 n s1"
  proof -
    have "readable a1 n s"
      using ok(1) n by (auto simp: readable_def accessible_def)
    then show ?thesis
      using readable_wrote [OF t(1)] t(3) by simp
  qed
  have low': "unat a1 + unat n \<le> 2 ^ 47"
    using low n by simp
  obtain bs where bs: "sys_write a1 n s1 = return (n, s1\<lparr>console := console s1 @ bs\<rparr>)" "length bs = unat n"
      "\<forall>i < unat n. the_byte s1 (a1 + word_of_nat i) = Some (bs ! i)"
    using write_console [OF n0 low', of s1] acc by auto
  have "bs = segment (unat off) (unat a2) ?c"
  proof (rule nth_equalityI)
    show len: "length bs = length (segment (unat off) (unat a2) ?c)"
      using bs(2) n by simp
    fix i
    assume i: "i < length bs"
    then have u: "unat (a1 + word_of_nat i) = unat a1 + i"
      using low' bs(2) by (intro unat_add_of_nat) simp
    then have "lower_address (a1 + word_of_nat i)"
      using low' i bs(2) by (simp add: lower_address_def)
    then have "the_byte t (a1 + word_of_nat i) = Some (segment (unat off) (unat a2) ?c ! i)"
      using t(1) i len u unfolding wrote_def by simp
    then show "bs ! i = segment (unat off) (unat a2) ?c ! i"
      using bs(2,3) i t(3) by simp
  qed
  moreover have "console s1 = console s"
  proof -
    have "t = s\<lparr>core := (core s)\<lparr>mem := mem (core t)\<rparr>\<rparr>"
      using t(1) by (simp add: wrote_def)
    then have "console t = console (s\<lparr>core := (core s)\<lparr>mem := mem (core t)\<rparr>\<rparr>)"
      by (rule arg_cong)
    then show ?thesis
      using t(3) by (simp add: update_proc_def)
  qed
  ultimately show ?thesis
    using bs(1) n by auto
qed

section \<open>A sample process\<close>

text \<open>A process with the file of three bytes open as descriptor 3.\<close>

abbreviation demo_file_node :: Node where "demo_file_node \<equiv> node_on demo_disk 0x81A4 3 2 0 0"

definition demo_proc :: "u64 \<Rightarrow> Process" where
  "demo_proc off = set_fd 3 (demo_file_node, off) (new_process\<lparr>pid := 1\<rparr>)"

definition demo_sys :: "vm \<Rightarrow> u64 \<Rightarrow> sys" where
  "demo_sys k off =
     \<lparr>core = k, current_process = Some 0, objects = [demo_proc off], processes = [0], next_pid = 2, started = [],
      modules = None, root_fs = None, initial_brk = 0, sems = \<lparr>semaphores = [], next_semid = 1\<rparr>, console = []\<rparr>"

lemma wf_new_process: "wf_fds new_process" "fd_map new_process fd = None"
  by (auto simp: wf_fds_def new_process_def empty_file_def fd_map_def nat_less_iff)

lemma wf_fds_cong: "fds p = fds q \<Longrightarrow> wf_fds p = wf_fds q" "fds p = fds q \<Longrightarrow> fd_map p = fd_map q"
  by (simp_all add: wf_fds_def fd_map_def fun_eq_iff)

lemma demo_sys_files:
  "wf_files 0 (demo_sys k off)" "open_files 0 (demo_sys k off) = [3 \<mapsto> (demo_file_node, off)]"
proof -
  have n: "wf_fds (new_process\<lparr>pid := 1\<rparr>)" "fd_map (new_process\<lparr>pid := 1\<rparr>) = Map.empty"
    using wf_new_process wf_fds_cong [of "new_process\<lparr>pid := 1\<rparr>" new_process] by (auto simp: fun_eq_iff)
  show "wf_files 0 (demo_sys k off)" "open_files 0 (demo_sys k off) = [3 \<mapsto> (demo_file_node, off)]"
    using set_fd_map [OF n(1), of 3 "(demo_file_node, off)"] n(2) by (simp_all add: wf_files_def demo_sys_def demo_proc_def)
qed

lemma to_int_small:
  assumes "unat a < 2 ^ 31"
  shows "to_int a = int (unat a)"
proof -
  have "unat (ucast a :: u32) = unat a"
    using assms by (simp add: unsigned_ucast_eq take_bit_nat_eq_self)
  then have "uint (ucast a :: u32) = int (unat a)"
    by (simp only: uint_nat)
  moreover have "signed_take_bit 31 (int n) = int n" if "n < 2 ^ 31" for n
    using that by (intro signed_take_bit_int_eq_self) simp_all
  from this [OF assms] have "signed_take_bit (LENGTH(32) - Suc 0) (int (unat a)) = int (unat a)"
    by (simp only: len_bit0 len_num1) simp
  ultimately show ?thesis
    by (simp only: to_int_def sint_uint)
qed

theorem descriptors_are_map_witness:
  "\<exists>s'. sys_close 0 3 (demo_sys (demo_vm []) 1) = (0, s') \<and> open_files 0 s' = Map.empty"
  using descriptors_are_map [OF demo_sys_files(1) [of "demo_vm []" 1], of demo_file_node 3 0 0]
  by (auto simp: to_int_small demo_sys_files(2) split: prod.splits)

text \<open>The address space of the sample, with its first page loaded.\<close>

lemma demo_core:
  obtains k where "cr3 k = 0x10000" and "hhdm_offset (mem k) = 0xFFFF800000000000"
    and "\<And>off. wf_core (demo_sys k off)" and "\<And>off a n. 0 < n \<Longrightarrow> 4096 \<le> unat a \<Longrightarrow> unat a + unat n \<le> 8192 \<Longrightarrow> readable a n (demo_sys k off)"
proof -
  obtain k f where k: "wf_vm k" "k = (demo_vm [demo_region])\<lparr>mem := mem k\<rparr>" "full_frames 0x10000 (mem k)"
      "hhdm_offset (mem k) = 0xFFFF800000000000"
      "\<And>v. lower v \<Longrightarrow> small_page 0x10000 (mem k) v = (if v = 1 then Some (make_entry f True True) else None)"
    by (rule demo_loaded) (rule that)
  have c: "cr3 k = 0x10000"
    by (subst k(2)) simp
  have "readable a n (demo_sys k off)" if "0 < n" "4096 \<le> unat a" "unat a + unat n \<le> 8192" for off a n
    using demo_buffer [OF k(5,4) that] that(1) c by (auto simp: user_buffer_ok_result readable_def demo_sys_def)
  then show thesis
    using that k c by (simp add: wf_core_def demo_sys_def)
qed

theorem read_file_witness:
  "\<exists>s s1. open_files 0 s = [3 \<mapsto> (demo_file_node, 0x100000001)] \<and> wrote 5000 [8, 9] s s1 \<and>
     sys_read 0 3 5000 10 s = return (2, update_proc 0 (set_fd 3 (demo_file_node, 0x100000003)) s1)"
proof -
  obtain k where k: "\<And>off. wf_core (demo_sys k off)"
      "\<And>off a n. 0 < n \<Longrightarrow> 4096 \<le> unat a \<Longrightarrow> unat a + unat n \<le> 8192 \<Longrightarrow> readable a n (demo_sys k off)"
    by (rule demo_core) (rule that)
  let ?s = "demo_sys k 0x100000001"
  have r: "readable 5000 10 ?s"
    by (rule k(2)) simp_all
  have seg: "segment (Suc 0) (Suc (Suc 0)) [7, 8, 9 :: u8] = [8, 9]"
    by (simp add: segment_def)
  have "\<exists>s1. wrote 5000 [8, 9] ?s s1 \<and>
     sys_read 0 3 5000 10 ?s = return (2, update_proc 0 (set_fd 3 (demo_file_node, 0x100000003)) s1)"
    using read_file [OF k(1) [of "0x100000001"] demo_sys_files(1), where ?a0.0 = 3 and ?a1.0 = 5000 and ?a2.0 = 10 and c = demo_disk] r
    by (simp add: demo_sys_files(2) to_int_small demo_node Let_def seg)
  then show ?thesis
    using demo_sys_files(2) by blast
qed

theorem cat_prints_file_witness:
  "\<exists>s s1 s2 n. wf_files 0 s \<and> sys_read 0 3 5000 10 s = return (n, s1) \<and> sys_write 5000 n s1 = return (n, s2) \<and>
     unat n = 3 \<and> console s2 = [7, 8, 9]"
proof -
  obtain k where k: "\<And>off. wf_core (demo_sys k off)"
      "\<And>off a n. 0 < n \<Longrightarrow> 4096 \<le> unat a \<Longrightarrow> unat a + unat n \<le> 8192 \<Longrightarrow> readable a n (demo_sys k off)"
    by (rule demo_core) (rule that)
  let ?s = "demo_sys k 0"
  have r: "readable 5000 10 ?s"
    by (rule k(2)) simp_all
  have f: "open_files 0 ?s (to_int 3) = Some (demo_file_node, 0)"
    by (simp add: demo_sys_files(2) to_int_small)
  obtain n s1 where run: "sys_read 0 3 5000 10 ?s = return (n, s1)"
    using read_open [OF k(1) demo_sys_files(1) _ _ f demo_node(1) r] by (auto simp: demo_node split: if_splits)
  have "unat n = 3 \<and> (\<exists>s2. sys_write 5000 n s1 = return (n, s2) \<and> console s2 = [7, 8, 9])"
    using cat_prints_file [OF k(1) demo_sys_files(1) _ f demo_node(1) r _ _ _ run]
    by (simp add: demo_node segment_def) (simp add: demo_sys_def)
  then show ?thesis
    using run demo_sys_files(1) by blast
qed

end
