(* ===== verification/Path_Spec.thy ===== *)
theory Path_Spec
  imports File_Spec
begin

text \<open>
  Opening a file by its path: the string is read from user memory byte by byte, and the walk over it in a
  buffer finds what a lookup of the list of its components finds.
\<close>

section \<open>Strings in user memory\<close>

text \<open>The string at an address, if it ends within the limit and all of it can be read.\<close>

definition user_string :: "sys \<Rightarrow> u64 \<Rightarrow> bytes \<Rightarrow> bool" where
  "user_string s a str \<longleftrightarrow>
     a \<noteq> 0 \<and> length str < 255 \<and> 0 \<notin> set str \<and> (\<forall>i \<le> length str. readable (a + word_of_nat i) 1 s) \<and>
     (\<forall>i \<le> length str. the_byte s (a + word_of_nat i) = Some ((str @ [0]) ! i))"

lemma user_byte_loaded:
  assumes "unat a < 2 ^ 47" and "readable a 1 s"
  obtains b where "load_user a 1 s = Inr [b]" and "the_byte s a = Some b"
proof -
  have "unat a + unat (1 :: u64) \<le> 2 ^ 47"
    using assms(1) by simp
  from load_user_ok [OF assms(2) this, of 1] obtain bs where "load_user a 1 s = Inr bs" "length bs = 1" "the_byte s a = Some (bs ! 0)"
    by auto
  then show thesis
    using that by (cases bs) auto
qed

text \<open>The loop with the part of the string it has passed; the rest of the buffer is zero.\<close>

lemma copy_string_loop_ok:
  assumes "unat a + 255 \<le> 2 ^ 47" and "n + length done = 255" and "0 \<notin> set done" and "a \<noteq> 0"
    and "\<forall>i < length done. readable (a + word_of_nat i) 1 s \<and> the_byte s (a + word_of_nat i) = Some (done ! i)"
  shows "(\<exists>str. user_string s a str \<and>
      copy_string_loop n (length done) a (done @ replicate (256 - length done) 0) s =
        return (True, str @ replicate (256 - length str) 0)) \<or>
    (\<nexists>str. user_string s a str) \<and>
      (\<exists>out. copy_string_loop n (length done) a (done @ replicate (256 - length done) 0) s = return (False, out))"
  using assms(2-)
proof (induction n arbitrary: "done")
  case 0
  have "\<not> user_string s a str" for str
  proof
    assume u: "user_string s a str"
    then have "length str < length done"
      using 0 by (simp add: user_string_def)
    then have "the_byte s (a + word_of_nat (length str)) = Some (done ! length str)" "done ! length str \<in> set done"
      using 0 by simp_all
    then show False
      using u 0 by (auto simp: user_string_def nth_append)
  qed
  then show ?case
    by auto
next
  case (Suc n)
  let ?a = "a + word_of_nat (length done)"
  have prefix: "length done \<le> length str" if u: "user_string s a str" for str
  proof (rule ccontr)
    assume "\<not> length done \<le> length str"
    then have l: "length str < length done"
      by simp
    then have "the_byte s (a + word_of_nat (length str)) = Some (done ! length str)" "done ! length str \<in> set done"
      using Suc.prems by simp_all
    then show False
      using u Suc.prems by (auto simp: user_string_def nth_append)
  qed
  have low: "unat ?a < 2 ^ 47"
    using assms(1) Suc.prems(1) by (subst unat_add_of_nat) simp_all
  show ?case
  proof (cases "readable ?a 1 s")
    case False
    then have "\<not> user_string s a str" for str
      using prefix by (auto simp: user_string_def)
    then show ?thesis
      using False by (auto simp: check_user_result)
  next
    case True
    from user_byte_loaded [OF low True] obtain b where b: "load_user ?a 1 s = Inr [b]" "the_byte s ?a = Some b" .
    let ?out = "done @ replicate (256 - length done) 0"
    have buf: "?out[length done := b] = (done @ [b]) @ replicate (256 - length (done @ [b])) 0"
    proof -
      have "256 - length done = Suc (256 - length (done @ [b]))"
        using Suc.prems(1) by simp
      then show ?thesis
        by (simp add: list_update_append)
    qed
    show ?thesis
    proof (cases "b = 0")
      case zero: True
      have u: "user_string s a done"
        using Suc.prems True b zero by (auto simp: user_string_def nth_append le_less)
      have "256 - length done = Suc (255 - length done)"
        using Suc.prems(1) by simp
      then have "?out[length done := 0] = ?out"
        by (simp add: list_update_append)
      then show ?thesis
        using u zero True b by (intro disjI1 exI [of _ "done"]) (simp add: check_user_result)
    next
      case False
      have "\<forall>i < length (done @ [b]). readable (a + word_of_nat i) 1 s \<and> the_byte s (a + word_of_nat i) = Some ((done @ [b]) ! i)"
        using Suc.prems(4) True b by (auto simp: nth_append less_Suc_eq)
      then show ?thesis
        using Suc.IH [of "done @ [b]"] Suc.prems False True b
        by (simp add: check_user_result buf [unfolded length_append_singleton])
    qed
  qed
qed

lemma copy_user_string_ok:
  assumes "unat a + 255 \<le> 2 ^ 47"
  shows "(\<exists>str. user_string s a str \<and>
      copy_user_string (replicate MAX_PATH 0) a s = return (True, str @ replicate (256 - length str) 0)) \<or>
    (\<nexists>str. user_string s a str) \<and> (\<exists>out. copy_user_string (replicate MAX_PATH 0) a s = return (False, out))"
proof (cases "a = 0")
  case True
  then show ?thesis
    by (auto simp: copy_user_string_def user_string_def)
next
  case False
  then show ?thesis
    using copy_string_loop_ok [OF assms, of 255 "[]" s] by (simp add: copy_user_string_def MAX_PATH_def)
qed

lemma user_string_unique: "user_string s a str \<Longrightarrow> user_string s a str' \<Longrightarrow> str = str'"
proof -
  have le: "length str' \<le> length str" if "user_string s a str" "user_string s a str'" for str str'
  proof (rule ccontr)
    assume l: "\<not> length str' \<le> length str"
    then have "str' ! length str = 0"
      using that by (auto simp: user_string_def nth_append split: if_splits dest!: spec [of _ "length str"])
    then have "0 \<in> set str'"
      using l by (metis linorder_not_le nth_mem)
    then show False
      using that by (simp add: user_string_def)
  qed
  assume u: "user_string s a str" "user_string s a str'"
  then have "length str = length str'"
    using le [OF u] le [OF u(2,1)] by simp
  moreover have "str ! i = str' ! i" if "i < length str" for i
  proof -
    have "i \<le> length str" "i \<le> length str'"
      using that calculation by simp_all
    then have "Some ((str @ [0]) ! i) = Some ((str' @ [0]) ! i)"
      using u unfolding user_string_def by metis
    then show ?thesis
      using that calculation by (simp add: nth_append)
  qed
  ultimately show "str = str'"
    by (rule nth_equalityI)
qed

section \<open>Paths\<close>

text \<open>The components of a path: the parts between separators that are not empty.\<close>

fun split_path :: "bytes \<Rightarrow> bytes list" where
  "split_path [] = [[]]"
| "split_path (c # cs) =
     (if c = slash then [] # split_path cs else (c # hd (split_path cs)) # tl (split_path cs))"

definition components :: "bytes \<Rightarrow> bytes list" where "components str = filter (\<lambda>c. c \<noteq> []) (split_path str)"

text \<open>The lookup of a list of names from a node on.\<close>

fun lookup_names :: "Ext2_fs \<Rightarrow> Node \<Rightarrow> bytes list \<Rightarrow> Node option run" where
  "lookup_names fs nd [] = return (Some nd)"
| "lookup_names fs nd (c # cs) =
     (if is_dir nd
      then bind_run (Ext2_find fs nd (c @ [0])) (\<lambda>found. case found of None \<Rightarrow> return None | Some nd' \<Rightarrow> lookup_names fs nd' cs)
      else return None)"

lemma split_path_not_Nil: "split_path str \<noteq> []"
  by (cases str) auto

lemma split_path_plain: "slash \<notin> set c \<Longrightarrow> split_path (c @ cs) = (c @ hd (split_path cs)) # tl (split_path cs)"
  using split_path_not_Nil [of cs] by (induction c) auto

lemma components_slash: "components (slash # str) = components str"
  by (simp add: components_def)

lemma components_plain:
  "slash \<notin> set c \<Longrightarrow> c \<noteq> [] \<Longrightarrow> components c = [c]"
  "slash \<notin> set c \<Longrightarrow> c \<noteq> [] \<Longrightarrow> components (c @ slash # str) = c # components str"
  using split_path_plain [of c "[]"] split_path_plain [of c "slash # str"] by (simp_all add: components_def)

lemma components_skip: "components (dropWhile (\<lambda>c. c = slash) str) = components str"
  by (induction str) (auto simp: components_slash)

lemma components_Nil: "components (dropWhile (\<lambda>c. c = slash) str) = [] \<longleftrightarrow> dropWhile (\<lambda>c. c = slash) str = []"
proof (cases "dropWhile (\<lambda>c. c = slash) str")
  case (Cons c cs)
  then have "c \<noteq> slash"
    using hd_dropWhile [of "\<lambda>c. c = slash" str] by simp
  then show ?thesis
    using Cons by (simp add: components_def)
next
  case Nil
  show ?thesis
    unfolding Nil by (simp add: components_def)
qed

text \<open>A lookup depends on the string in front of the zero only.\<close>

lemma streq_prefix: "0 \<notin> set c \<Longrightarrow> streq (c @ 0 # rest) nm = streq (c @ [0]) nm"
proof (induction c arbitrary: nm)
  case (Cons x c)
  then show ?case
    by (cases nm) auto
qed (case_tac nm; simp)

lemma Ext2_find_prefix: "0 \<notin> set c \<Longrightarrow> Ext2_find fs nd (c @ 0 # rest) = Ext2_find fs nd (c @ [0])"
  by (simp add: Ext2_find_def Node_find_def streq_prefix [of c rest])

lemma component_end_app: "0 \<notin> set c \<Longrightarrow> slash \<notin> set c \<Longrightarrow> x = 0 \<or> x = slash \<Longrightarrow> component_end (c @ x # rest) = length c"
  by (induction c) (auto simp: component_end_def)

lemma skip_slashes_app: "skip_slashes (str @ 0 # rest) = dropWhile (\<lambda>c. c = slash) str @ 0 # rest"
  by (induction str) (auto simp: skip_slashes_def)

text \<open>The walk in the buffer is the lookup of the components.\<close>

lemma walk_path_lookup:
  "0 \<notin> set str \<Longrightarrow> str = [] \<or> hd str \<noteq> slash \<Longrightarrow> walk_path fs nd (str @ 0 # rest) = lookup_names fs nd (components str)"
proof (induction "length str" arbitrary: str nd rule: less_induct)
  case less
  show ?case
  proof (cases "str = []")
    case True
    then show ?thesis
      by (subst walk_path.simps) (simp add: components_def)
  next
    case False
    define c where "c = takeWhile (\<lambda>x. x \<noteq> slash) str"
    define tail where "tail = dropWhile (\<lambda>x. x \<noteq> slash) str"
    have str: "str = c @ tail"
      by (simp add: c_def tail_def)
    have c: "c \<noteq> []" "0 \<notin> set c" "slash \<notin> set c"
    proof -
      show "c \<noteq> []"
        using less.prems(2) False by (simp add: c_def takeWhile_eq_Nil_iff)
      show "0 \<notin> set c" "slash \<notin> set c"
        using less.prems(1) by (auto simp: c_def dest: set_takeWhileD)
    qed
    have hd0: "hd (str @ 0 # rest) \<noteq> 0"
      using less.prems(1) False by (cases str) auto
    obtain x r where t: "tail @ 0 # rest = x # r" "x = 0 \<or> x = slash"
    proof (cases tail)
      case (Cons y ys)
      then have "y = slash"
        using hd_dropWhile [of "\<lambda>x. x \<noteq> slash" str] by (simp add: tail_def)
      then show thesis
        using that Cons by simp
    qed (use that in simp)
    have split: "str @ 0 # rest = c @ x # r"
      using t(1) by (simp add: str)
    have k: "component_end (str @ 0 # rest) = length c"
      unfolding split using c t(2) by (intro component_end_app) auto
    have buf: "(str @ 0 # rest)[length c := 0] = c @ 0 # r"
      unfolding split by simp
    have next_part: "skip_slashes (drop (length c) (str @ 0 # rest)) = dropWhile (\<lambda>c. c = slash) tail @ 0 # rest"
      by (simp add: str skip_slashes_app)
    have rec: "walk_path fs nd' (dropWhile (\<lambda>c. c = slash) tail @ 0 # rest) = lookup_names fs nd' (components tail)" for nd'
    proof -
      let ?t = "dropWhile (\<lambda>c. c = slash) tail"
      have "length ?t < length str"
        using length_greater_0_conv [of c] c(1) length_dropWhile_le [of "\<lambda>c. c = slash" tail] unfolding str length_append
        by linarith
      moreover have "0 \<notin> set ?t"
        using less.prems(1) str by (auto dest: set_dropWhileD)
      moreover have "?t = [] \<or> hd ?t \<noteq> slash"
        using hd_dropWhile [of "\<lambda>c. c = slash" tail] by blast
      ultimately show ?thesis
        using less.hyps [of ?t nd'] by (simp add: components_skip)
    qed
    have comps: "components str = c # components tail"
    proof (cases tail)
      case Nil
      then show ?thesis
        using c components_plain(1) [of c] by (simp add: str components_def)
    next
      case (Cons y ys)
      then have "y = slash"
        using hd_dropWhile [of "\<lambda>x. x \<noteq> slash" str] by (simp add: tail_def)
      then show ?thesis
        using c components_plain(2) [of c ys] Cons by (simp add: str components_slash)
    qed
    have "walk_path fs nd (str @ 0 # rest) =
        (if is_dir nd
         then bind_run (Ext2_find fs nd (c @ [0])) (\<lambda>found. case found of None \<Rightarrow> return None
           | Some nd' \<Rightarrow> walk_path fs nd' (dropWhile (\<lambda>c. c = slash) tail @ 0 # rest))
         else return None)"
    proof -
      have "length c \<noteq> length (str @ 0 # rest)"
        unfolding split by simp
      then show ?thesis
        using hd0 by (subst walk_path.simps, simp only: Let_def k buf next_part Ext2_find_prefix [OF c(2), of fs nd r]
            if_not_P simp_thms append_is_Nil_conv list.simps split: if_split) blast
    qed
    then show ?thesis
      unfolding comps rec by simp
  qed
qed

section \<open>The tree on the disk\<close>

text \<open>
  A tree of directories as a function from their numbers to their names, and the disk that holds it: each
  directory is a sequence of entries that stand for its names, and each name is of a node of the file system.
\<close>

type_synonym tree = "u32 \<Rightarrow> (bytes \<Rightarrow> u32 option) option"

definition node_at :: "Ext2_fs \<Rightarrow> bytes \<Rightarrow> u32 \<Rightarrow> Node" where
  "node_at fs c n = \<lparr>node_number = n, node_block_size = blockSize fs,
     node_data = segment (node_position fs n) sizeof_NodeData c, node_device = fs_device fs\<rparr>"

definition dir_names :: "Node \<Rightarrow> bytes \<Rightarrow> (bytes \<Rightarrow> u32 option) \<Rightarrow> bool" where
  "dir_names nd c names \<longleftrightarrow>
     is_dir nd \<and> wf_node nd c \<and>
     (\<exists>es. node_content nd c = concat (map entry_bytes es) \<and> (\<forall>e \<in> set es. wf_dirent e) \<and>
        (\<forall>name. 0 \<notin> set name \<longrightarrow>
           names name = (if lookup_dirent es (name @ [0]) = 0 then None else Some (lookup_dirent es (name @ [0])))))"

definition on_disk :: "Ext2_fs \<Rightarrow> bytes \<Rightarrow> tree \<Rightarrow> bool" where
  "on_disk fs c t \<longleftrightarrow>
     wf_fs fs c \<and> t 2 \<noteq> None \<and>
     (\<forall>n names. t n = Some names \<longrightarrow> dir_names (node_at fs c n) c names \<and>
        (\<forall>name k. 0 \<notin> set name \<and> names name = Some k \<longrightarrow> k \<le> numberOfNodes fs \<and> (t k = None \<longrightarrow> \<not> is_dir (node_at fs c k))))"

fun tree_lookup :: "tree \<Rightarrow> u32 \<Rightarrow> bytes list \<Rightarrow> u32 option" where
  "tree_lookup t n [] = Some n"
| "tree_lookup t n (c # cs) =
     (case t n of None \<Rightarrow> None | Some names \<Rightarrow> (case names c of None \<Rightarrow> None | Some k \<Rightarrow> tree_lookup t k cs))"

lemma find_in_dir:
  assumes fs: "wf_fs fs c" and d: "dir_names nd c names" and name: "0 \<notin> set name"
    and valid: "\<forall>k. names name = Some k \<longrightarrow> k \<le> numberOfNodes fs"
  shows "Ext2_find fs nd (name @ [0]) = return (map_option (node_at fs c) (names name))"
proof -
  obtain es where es: "node_content nd c = concat (map entry_bytes es)" "\<forall>e \<in> set es. wf_dirent e"
      "names name = (if lookup_dirent es (name @ [0]) = 0 then None else Some (lookup_dirent es (name @ [0])))"
    using d name unfolding dir_names_def by blast
  have "is_dir nd" "wf_node nd c"
    using d by (simp_all add: dir_names_def)
  then have "entries nd = Some (Inr (dir_listing es))"
    using es(1,2) by (simp add: entries_def entries_loop_ok [where xs = "[]"])
  moreover have "terminated (name @ [0])"
    by (simp add: terminated_def)
  ultimately have f: "Node_find nd (name @ [0]) = Some (Inr (lookup_dirent es (name @ [0])))"
    by (simp add: Node_find_def fold_dir_listing)
  show ?thesis
  proof (cases "lookup_dirent es (name @ [0]) = 0")
    case False
    then have "get_node fs (lookup_dirent es (name @ [0])) = Inr (node_at fs c (lookup_dirent es (name @ [0])))"
      using es(3) valid by (simp add: get_node_read [OF fs] node_at_def word_gt_0)
    then show ?thesis
      using False f es(3) by (simp add: Ext2_find_def return_def)
  qed (use f es(3) in \<open>simp add: Ext2_find_def return_def\<close>)
qed

lemma lookup_names_tree:
  assumes d: "on_disk fs c t"
  shows "\<forall>name \<in> set names. 0 \<notin> set name \<Longrightarrow> t n = None \<longrightarrow> \<not> is_dir (node_at fs c n) \<Longrightarrow>
    lookup_names fs (node_at fs c n) names = return (map_option (node_at fs c) (tree_lookup t n names))"
proof (induction names arbitrary: n)
  case (Cons name names)
  have fs: "wf_fs fs c"
    using d by (simp add: on_disk_def)
  show ?case
  proof (cases "t n")
    case None
    then show ?thesis
      using Cons.prems by simp
  next
    case (Some m)
    have m: "dir_names (node_at fs c n) c m"
      "\<And>k. m name = Some k \<Longrightarrow> k \<le> numberOfNodes fs \<and> (t k = None \<longrightarrow> \<not> is_dir (node_at fs c k))"
      using d Some Cons.prems(1) unfolding on_disk_def by auto
    have "Ext2_find fs (node_at fs c n) (name @ [0]) = return (map_option (node_at fs c) (m name))"
      using m(2) Cons.prems(1) by (intro find_in_dir [OF fs m(1)]) auto
    moreover have "is_dir (node_at fs c n)"
      using m(1) by (simp add: dir_names_def)
    ultimately show ?thesis
      using Some m(2) Cons.IH Cons.prems(1) by (cases "m name") auto
  qed
qed simp

lemma split_path_set: "x \<in> set (split_path str) \<Longrightarrow> set x \<subseteq> set str"
proof (induction str arbitrary: x)
  case (Cons c cs)
  then show ?case
    using split_path_not_Nil [of cs] by (fastforce split: if_splits dest: list.set_sel)
qed simp

text \<open>The file a path names, if it has a component and ends at a file.\<close>

definition file_named :: "Ext2_fs \<Rightarrow> bytes \<Rightarrow> tree \<Rightarrow> bytes \<Rightarrow> Node option" where
  "file_named fs c t str =
     (case components str of
        [] \<Rightarrow> None
      | names \<Rightarrow>
          (case tree_lookup t 2 names of
             None \<Rightarrow> None
           | Some n \<Rightarrow> if is_file (node_at fs c n) then Some (node_at fs c n) else None))"

lemma resolve_path_ok:
  assumes low: "unat a + 255 \<le> 2 ^ 47" and mounted: "root_fs s = Some (fs, node_at fs c 2)" and d: "on_disk fs c t"
  shows "user_string s a str \<Longrightarrow> resolve_path a s = return (file_named fs c t str, s)"
    and "\<nexists>str. user_string s a str \<Longrightarrow> resolve_path a s = return (None, s)"
proof -
  show "\<nexists>str. user_string s a str \<Longrightarrow> resolve_path a s = return (None, s)"
    using copy_user_string_ok [OF low, of s] by (auto simp: resolve_path_def)
  assume u: "user_string s a str"
  define p where "p = dropWhile (\<lambda>c. c = slash) str"
  have len: "length str < 255" and z: "0 \<notin> set str"
    using u by (simp_all add: user_string_def)
  obtain str' where "user_string s a str'"
      "copy_user_string (replicate MAX_PATH 0) a s = return (True, str' @ replicate (256 - length str') 0)"
    using copy_user_string_ok [OF low, of s] u by blast
  moreover have "256 - length str = Suc (255 - length str)"
    using len by simp
  ultimately have copy: "copy_user_string (replicate MAX_PATH 0) a s = return (True, str @ 0 # replicate (255 - length str) 0)"
    using user_string_unique [OF u] by (metis replicate_Suc)
  have skip: "skip_slashes (str @ 0 # replicate (255 - length str) 0) = p @ 0 # replicate (255 - length str) 0"
    by (simp add: skip_slashes_app p_def)
  have comps: "components p = components str" "components p = [] \<longleftrightarrow> p = []"
    by (simp_all add: p_def components_skip components_Nil [unfolded components_skip])
  have pz: "0 \<notin> set p"
    using z by (auto simp: p_def dest: set_dropWhileD)
  have fsys: "filesystem s = return (fs, node_at fs c 2, s)"
    by (simp add: filesystem_def mounted)
  show "resolve_path a s = return (file_named fs c t str, s)"
  proof (cases "p = []")
    case True
    then have "components str = []"
      using comps by simp
    then show ?thesis
      using True by (simp add: resolve_path_def copy skip file_named_def)
  next
    case False
    then have hd0: "hd (p @ 0 # replicate (255 - length str) 0) \<noteq> 0"
      using pz by (cases p) auto
    have "hd p \<noteq> slash"
      using False hd_dropWhile [of "\<lambda>c. c = slash" str] by (simp add: p_def)
    then have "walk_path fs (node_at fs c 2) (p @ 0 # replicate (255 - length str) 0) =
        lookup_names fs (node_at fs c 2) (components str)"
      using walk_path_lookup [OF pz] comps(1) by metis
    also have "\<dots> = return (map_option (node_at fs c) (tree_lookup t 2 (components str)))"
      using z d by (intro lookup_names_tree [OF d]) (auto simp: components_def on_disk_def dest: split_path_set)
    finally have w: "walk_path fs (node_at fs c 2) (p @ 0 # replicate (255 - length str) 0) =
      return (map_option (node_at fs c) (tree_lookup t 2 (components str)))" .
    obtain x xs where x: "components str = x # xs"
      using False comps by (cases "components str") auto
    have "resolve_path a s = bind_run (return (map_option (node_at fs c) (tree_lookup t 2 (components str)))) (\<lambda>found.
        case found of None \<Rightarrow> return (None, s) | Some nd \<Rightarrow> return (if is_file nd then Some nd else None, s))"
      using hd0 unfolding resolve_path_def copy bind_run_simps split_beta fst_conv snd_conv skip Let_def fsys w by simp
    then show ?thesis
      using x by (simp add: file_named_def split: option.split)
  qed
qed

text \<open>
  C12. On a mounted disk that holds a tree of directories, open always returns: for a string of user memory
  that can be read and ends within 255 bytes it finds the file that the tree has under the string's
  components, whatever the separators between them, and binds the least free descriptor to its start; for
  any other string, a path to no file, or a full table it returns -1 and changes nothing.
\<close>

theorem open_by_path:
  assumes low: "unat a + 255 \<le> 2 ^ 47" and mounted: "root_fs s = Some (fs, node_at fs c 2)" and d: "on_disk fs c t"
    and p: "wf_files p s"
  shows "(\<forall>str. user_string s a str \<longrightarrow>
      sys_open p a s =
        (case file_named fs c t str of
           None \<Rightarrow> return (- 1, s)
         | Some nd \<Rightarrow>
             (case find (\<lambda>fd. open_files p s (int fd) = None) [3..<32] of
                None \<Rightarrow> return (- 1, s)
              | Some fd \<Rightarrow> return (word_of_nat fd, update_proc p (set_fd (int fd) (nd, 0)) s)))) \<and>
    ((\<nexists>str. user_string s a str) \<longrightarrow> sys_open p a s = return (- 1, s))"
proof (intro conjI allI impI)
  note R = resolve_path_ok [OF low mounted d]
  show "sys_open p a s = return (- 1, s)" if "\<nexists>str. user_string s a str"
    using R(2) [OF that] by (simp add: sys_open_def)
  fix str
  assume u: "user_string s a str"
  have wf: "wf_fds (objects s ! p)" and same: "update_proc p (\<lambda>_. objects s ! p) s = s"
    using p by (simp_all add: wf_files_def update_proc_def)
  have upd: "update_proc p (\<lambda>_. f (objects s ! p)) s = update_proc p f s" for f
    by (simp add: update_proc_def)
  show "sys_open p a s =
        (case file_named fs c t str of
           None \<Rightarrow> return (- 1, s)
         | Some nd \<Rightarrow>
             (case find (\<lambda>fd. open_files p s (int fd) = None) [3..<32] of
                None \<Rightarrow> return (- 1, s)
              | Some fd \<Rightarrow> return (word_of_nat fd, update_proc p (set_fd (int fd) (nd, 0)) s)))"
    unfolding sys_open_def R(1) [OF u] bind_run_simps split_beta fst_conv snd_conv alloc_fd_ok [OF wf]
    by (simp add: same upd of_int64_def split: option.split)
qed

section \<open>A sample tree\<close>

text \<open>A root directory, node 2, with one name for node 3, a file of three bytes.\<close>

definition tree_disk :: bytes where
  "tree_disk =
     (replicate 128 0 @ node_data (node_on [] 0x41ED 1024 2 1 0) @ node_data (node_on [] 0x81A4 3 2 2 0) @ replicate 640 0) @
     entry_bytes \<lparr>ent_inode = 3, ent_name = [7, 8, 9], ent_type = 1, ent_pad = replicate 1013 0\<rparr> @
     ([1, 2, 3] @ replicate 1021 0)"

definition tree_fs :: Ext2_fs where
  "tree_fs = \<lparr>fs_device = RamDisk (disk tree_disk), blockSize = 1024, numberOfNodes = 8, numberOfBlocks = 3,
     iNodeSize = 128, nGroups = 1, iNodeTables = [0], iNodesPerGroup = 8\<rparr>"

definition one_name :: tree where
  "one_name = [2 \<mapsto> [[7, 8, 9] \<mapsto> 3]]"

lemma length_node_data: "length (node_data (node_on bs m sz sectors d i)) = 128"
proof -
  have "length (concat (replicate j (le_bytes 4 (unat d)))) = 4 * j" for j
    by (induction j) simp_all
  then show ?thesis
    by (simp add: node_on_def)
qed

lemma length_tree_disk: "length tree_disk = 3072"
  by (simp add: tree_disk_def length_node_data length_entry_bytes record_length_def)

lemma tree_nodes:
  "node_at tree_fs tree_disk 2 = node_on tree_disk 0x41ED 1024 2 1 0\<lparr>node_number := 2\<rparr>"
  "node_at tree_fs tree_disk 3 = node_on tree_disk 0x81A4 3 2 2 0\<lparr>node_number := 3\<rparr>"
  by (simp_all add: node_at_def node_position_def tree_fs_def tree_disk_def segment_def sizeof_NodeData_def length_node_data)
    (simp_all add: node_on_def)

lemma node_number_irrelevant:
  "wf_node (nd\<lparr>node_number := n\<rparr>) c = wf_node nd c" "node_content (nd\<lparr>node_number := n\<rparr>) c = node_content nd c"
  "is_dir (nd\<lparr>node_number := n\<rparr>) = is_dir nd" "is_file (nd\<lparr>node_number := n\<rparr>) = is_file nd"
  by (simp_all add: wf_node_def node_content_def blocks_used_def block_of_def [abs_def] block_number_of_def is_dir_def is_file_def cong: if_cong)

lemma tree_on_disk: "on_disk tree_fs tree_disk one_name"
proof -
  let ?e = "\<lparr>ent_inode = 3, ent_name = [7, 8, 9], ent_type = 1, ent_pad = replicate 1013 0\<rparr>"
  let ?nd = "node_on tree_disk 0x41ED 1024 2 1 0"
  have wf: "wf_node ?nd tree_disk" and used: "blocks_used ?nd = 1"
    by (rule node_on_wf, simp_all add: length_tree_disk) (subst node_on_wf, simp_all add: length_tree_disk)
  have "block_of ?nd tree_disk 0 = entry_bytes ?e"
    by (subst node_on_wf)
      (simp_all add: length_tree_disk, simp add: tree_disk_def segment_def length_node_data length_entry_bytes record_length_def)
  then have content: "node_content ?nd tree_disk = concat (map entry_bytes [?e])"
    using used by (simp add: node_content_def node_on_fields length_entry_bytes record_length_def)
  have "is_dir ?nd" "\<not> is_dir (node_on tree_disk 0x81A4 3 2 2 0)"
    by (simp_all add: is_dir_def data_is_dir_def get_type_def node_on_fields drop_bit_eq_div)
  moreover have "([[7, 8, 9] \<mapsto> 3] :: bytes \<Rightarrow> u32 option) name =
      (if lookup_dirent [?e] (name @ [0]) = 0 then None else Some (lookup_dirent [?e] (name @ [0])))"
    if "0 \<notin> set name" for name
  proof -
    have "cstr (xs @ [0]) = xs" if "0 \<notin> set xs" for xs :: bytes
      using that by (induction xs) (simp_all add: cstr_def)
    from this [OF that] this [of "[7, 8, 9]"] show ?thesis
      by (auto simp: lookup_dirent_def)
  qed
  ultimately have "dir_names (node_at tree_fs tree_disk 2) tree_disk [[7, 8, 9] \<mapsto> 3]"
    using wf content unfolding dir_names_def tree_nodes node_number_irrelevant
    by (intro conjI exI [of _ "[?e]"]) (simp_all add: wf_dirent_def record_length_def)
  moreover have "wf_fs tree_fs tree_disk"
    using disk_serves [of tree_disk] by (simp add: wf_fs_def tree_fs_def length_tree_disk)
  ultimately show ?thesis
    using \<open>\<not> is_dir (node_on tree_disk 0x81A4 3 2 2 0)\<close>
    by (auto simp: on_disk_def one_name_def tree_nodes(2) node_number_irrelevant split: if_splits)
      (simp_all add: tree_fs_def)
qed

text \<open>The sample process with the tree mounted; its first page begins with the name of the file.\<close>

lemma demo_string:
  obtains k where "\<And>s. core s = k \<Longrightarrow> user_string s 4096 [7, 8, 9]"
proof -
  obtain k f where k: "k = (demo_vm [demo_region])\<lparr>mem := mem k\<rparr>" "hhdm_offset (mem k) = 0xFFFF800000000000"
      "ram (mem k) f = 0x90807 # replicate 511 0" "unat f < 2 ^ 40"
      "\<And>v. lower v \<Longrightarrow> small_page 0x10000 (mem k) v = (if v = 1 then Some (make_entry f True True) else None)"
    by (rule demo_loaded) (rule that)
  have c: "cr3 k = 0x10000"
    by (subst k(1)) simp
  have fr: "frame_of (make_entry f True True) = f"
    using k(4) by (rule frame_of_make_entry)
  have b: "user_byte 0x10000 (mem k) (4096 + word_of_nat i) = Some ([7, 8, 9, 0] ! i)" if "i < 4" for i
  proof -
    have u: "unat (4096 + word_of_nat i :: u64) = 4096 + i"
      using that by (subst unat_add_of_nat) simp_all
    then have "drop_bit 12 (4096 + word_of_nat i :: u64) = 1"
      using that by (intro unat_eqI) (simp add: drop_bit_eq_div unat_div)
    moreover have "canonical (4096 + word_of_nat i)"
      using u that by (intro lower_canonical) (simp add: lower_address_def)
    moreover have "word_byte 0x90807 i = [7, 8, 9, 0] ! i"
    proof -
      have "i = 0 \<or> i = 1 \<or> i = 2 \<or> i = 3"
        using that by arith
      then show ?thesis
        by (elim disjE) (simp_all add: word_byte_def drop_bit_eq_div)
    qed
    moreover have "(4096 + i) mod 8 = i"
      using that mod_mult_self3 [of 512 8 i] by simp
    ultimately show ?thesis
      using u that k(3,5) fr by (simp add: user_byte_def lower_def)
  qed
  have "user_string s 4096 [7, 8, 9]" if s: "core s = k" for s
  proof -
    have "readable (4096 + word_of_nat i) 1 s" if "i \<le> 3" for i
    proof -
      have "unat (4096 + word_of_nat i :: u64) = 4096 + i"
        using that by (subst unat_add_of_nat) simp_all
      then have "user_buffer_ok 0x10000 (4096 + word_of_nat i) 1 (mem k) = Some True"
        using that by (intro demo_buffer [OF k(5,2)]) simp_all
      then show ?thesis
        using s c by (simp add: user_buffer_ok_result readable_def)
    qed
    then show ?thesis
      using s c b by (simp add: user_string_def the_byte_def less_Suc_eq_le)
  qed
  then show thesis
    by (rule that)
qed

theorem open_by_path_witness:
  "\<exists>s. open_files 0 s 3 \<noteq> None \<and>
     sys_open 0 4096 s = return (4, update_proc 0 (set_fd 4 (node_at tree_fs tree_disk 3, 0)) s)"
proof -
  obtain k where k: "\<And>s. core s = k \<Longrightarrow> user_string s 4096 [7, 8, 9]"
    by (rule demo_string) (rule that)
  let ?s = "demo_sys k 0\<lparr>root_fs := Some (tree_fs, node_at tree_fs tree_disk 2)\<rparr>"
  have u: "user_string ?s 4096 [7, 8, 9]"
    by (rule k) (simp add: demo_sys_def)
  have p: "wf_files 0 ?s" "open_files 0 ?s = [3 \<mapsto> (demo_file_node, 0)]"
    using demo_sys_files [of k 0] by (simp_all add: wf_files_def)
  have "is_file (node_at tree_fs tree_disk 3)"
    by (simp add: tree_nodes node_number_irrelevant is_file_def data_is_file_def get_type_def node_on_fields drop_bit_eq_div)
  moreover have "components [7, 8, 9] = [[7, 8, 9]]"
    by (intro components_plain) simp_all
  ultimately have "file_named tree_fs tree_disk one_name [7, 8, 9] = Some (node_at tree_fs tree_disk 3)"
    by (simp add: file_named_def one_name_def)
  moreover have "find (\<lambda>fd. open_files 0 ?s (int fd) = None) [3..<32] = Some 4"
    unfolding find_upt p(2) by auto
  ultimately have "sys_open 0 4096 ?s = return (4, update_proc 0 (set_fd 4 (node_at tree_fs tree_disk 3, 0)) ?s)"
    using open_by_path [OF _ _ tree_on_disk p(1), of 4096] u by simp
  then show ?thesis
    using p(2) by (intro exI [of _ ?s]) simp
qed

end
