(* ===== verification/Fresh_Page.thy ===== *)
theory Fresh_Page
  imports User_Mem
begin

text \<open>
  Giving a page of an address space a frame of its own: allocate, fill, map. The break and the copy of an
  address space by a fork are sequences of these.
\<close>

section \<open>How many frames a mapping takes\<close>

lemma alloc_frame_pool:
  assumes "phys_inv (phys m)" and "alloc_frame m = Inr (f, m')"
  shows "phys_inv (phys m')" and "length (pool m) = Suc (length (pool m'))"
  using alloc_frame_changes [OF assms] by (simp_all add: changes_def)

lemma set_entry_pool [simp]: "phys (set_entry t i e m) = phys m" "pool (set_entry t i e m) = pool m"
  by (simp_all add: set_entry_def pool_def)

lemma ram_update_pool [simp]: "pool (m\<lparr>ram := r\<rparr>) = pool m"
  by (simp add: pool_def)

lemma open_entry_pool:
  assumes inv: "phys_inv (phys m)" and op: "open_entry t i level m = Inr m'"
  shows "phys_inv (phys m') \<and> length (pool m) \<le> Suc (length (pool m'))"
proof (cases "pool m' = pool m \<and> phys m' = phys m")
  case False
  then obtain f m1 where a: "alloc_frame m = Inr (f, m1)" "pool m' = pool m1" "phys m' = phys m1"
    using op
    by (auto simp: open_entry_def split_large_entry_def Let_def bind_outcome_Inr_iff pool_def split: if_splits)
  then show ?thesis
    using alloc_frame_pool [OF inv a(1)] by simp
qed (use inv in simp)

lemma map_at_pool:
  "phys_inv (phys m) \<Longrightarrow> map_at level t v f user write m = Inr m' \<Longrightarrow> length (pool m) \<le> length (pool m') + level"
proof (induction level arbitrary: t m)
  case (Suc level)
  then obtain m1 where m1: "open_entry t (table_index v (Suc level)) (Suc level) m = Inr m1"
    and rec: "map_at level (entry_ppn (ram m1 t ! table_index v (Suc level))) v f user write m1 = Inr m'"
    by (auto simp: bind_outcome_Inr_iff)
  note O = open_entry_pool [OF Suc.prems(1) m1]
  show ?case
    using O Suc.IH [OF conjunct1 [OF O] rec] by simp
qed auto

section \<open>A fresh page\<close>

text \<open>What changes when page \<open>v\<close> gets frame \<open>f\<close> with the words \<open>ws\<close>.\<close>

definition fresh_page :: "u64 \<Rightarrow> u64 \<Rightarrow> u64 \<Rightarrow> u64 list \<Rightarrow> bool \<Rightarrow> memory \<Rightarrow> memory \<Rightarrow> bool" where
  "fresh_page root v f ws write m m' \<longleftrightarrow>
     wf_user root m' \<and> unat f \<in> set (pool m) \<and> unat f \<notin> set (pool m') \<and> frame_of (make_entry f True write) = f \<and> ram m' f = ws \<and>
     (\<forall>x. lower x \<longrightarrow> small_page root m' x = (if x = v then Some (make_entry f True write) else small_page root m x)) \<and>
     (\<forall>g. g \<notin> space_tables root m \<and> unat g \<notin> set (pool m) \<longrightarrow> ram m' g = ram m g \<and> g \<notin> space_tables root m') \<and>
     set (pool m') \<subseteq> set (pool m) \<and> length (pool m) \<le> length (pool m') + 4 \<and>
     hhdm_offset m' = hhdm_offset m \<and> memmap m' = memmap m"

lemma fresh_page_map:
  assumes wf: "wf_user root m" and v: "lower v" and a: "alloc_frame m = Inr (f, m1)"
    and mp: "map_in_root root v f True write (m1\<lparr>ram := (ram m1)(f := ws)\<rparr>) = Inr m'"
  shows "fresh_page root v f ws write m m'"
proof -
  let ?m2 = "m1\<lparr>ram := (ram m1)(f := ws)\<rparr>"
  note A = alloc_user [OF wf a]
  have f: "f \<notin> space_tables root m1" "unat f < 2 ^ 36"
    using A(2) by (simp_all add: unused_def)
  note F = fill_user [OF A(1) f(1), of ws]
  have un: "unused root ?m2 f"
    using A(2) F(2,3,4) by (simp add: unused_def)
  note M = map_user [OF F(1) un v mp]
  obtain used where used: "pool m1 = used @ pool m'" "space_tables root m' = space_tables root m1 \<union> {g. unat g \<in> set used}"
    using M(4) F(3,4) by auto
  have dist: "unat f \<notin> set (pool m1)"
    using A(2) by (simp add: unused_def)
  have "length (pool m1) \<le> length (pool m') + 3"
    using map_at_pool [of ?m2 3 _ v f True "write" m'] mp wf_userD(3) [OF F(1)] F(4) by (simp add: map_in_root_def)
  moreover have "ram m' f = ws"
    using M(3) [of f] f(1) dist F(3,4) by simp
  moreover have "ram m' g = ram m g \<and> g \<notin> space_tables root m'"
    if "g \<notin> space_tables root m \<and> unat g \<notin> set (pool m)" for g
  proof -
    have "g \<noteq> f" "unat g \<notin> set (pool m1)" "g \<notin> space_tables root m1"
      using that A(4,6) by auto
    then show ?thesis
      using M(3) [of g] A(5) F(3,4) used by auto
  qed
  ultimately show ?thesis
    using M(1,2,5,6) A(3,6,7,8) F(2) used dist f(2) unfolding fresh_page_def
    by (auto simp: frame_of_make_entry)
qed

lemma fresh_page_succeeds:
  assumes wf: "wf_user root m" and pl: "4 \<le> length (pool m)"
  obtains f m1 where "alloc_frame m = Inr (f, m1)" and "ram m1 = (ram m)(f := replicate 512 0)"
    and "\<And>ws v write. lower v \<Longrightarrow> \<exists>m'. map_in_root root v f True write (m1\<lparr>ram := (ram m1)(f := ws)\<rparr>) = Inr m'"
proof -
  obtain f m1 where a: "alloc_frame m = Inr (f, m1)"
    using alloc_frame_succeeds [of m] wf_userD(3) [OF wf] pl by fastforce
  note A = alloc_user [OF wf a]
  have "\<exists>m'. map_in_root root v f True wr (m1\<lparr>ram := (ram m1)(f := ws)\<rparr>) = Inr m'" if "lower v" for ws v wr
  proof -
    let ?m2 = "m1\<lparr>ram := (ram m1)(f := ws)\<rparr>"
    have "f \<notin> space_tables root m1"
      using A(2) by (simp add: unused_def)
    note F = fill_user [OF A(1) this, of ws]
    note U = wf_userD [OF F(1)]
    have "3 \<le> length (pool ?m2)"
      using pl A(6) by simp
    then show ?thesis
      using map_at_succeeds [OF U(2,3)] U(4) by (fastforce simp: map_in_root_def root_of_def space_tables_def)
  qed
  with a A(5) show thesis
    using that by blast
qed

end
