(* ===== verification/Brk_Spec.thy ===== *)
theory Brk_Spec
  imports Fresh_Page File_Spec
begin

text \<open>
  Moving the break: growing maps new pages of zeros and nothing else, shrinking maps nothing and unmaps
  nothing, so that growing again loses the frames that are mapped there.
\<close>

section \<open>Mapping a range\<close>

text \<open>The pages from number \<open>k\<close> on, \<open>n\<close> of them, have got frames of zeros from the pool.\<close>

definition pages_added :: "u64 \<Rightarrow> nat \<Rightarrow> nat \<Rightarrow> memory \<Rightarrow> memory \<Rightarrow> bool" where
  "pages_added root k n m m' \<longleftrightarrow>
     wf_user root m' \<and> full_frames root m' \<and> hhdm_offset m' = hhdm_offset m \<and> memmap m' = memmap m \<and>
     set (pool m') \<subseteq> set (pool m) \<and> length (pool m) \<le> length (pool m') + 4 * n \<and>
     (\<forall>x. lower x \<longrightarrow>
        (if k \<le> unat x \<and> unat x < k + n
         then \<exists>f. unat f \<in> set (pool m) \<and> unat f \<notin> set (pool m') \<and> frame_of (make_entry f True True) = f \<and>
           small_page root m' x = Some (make_entry f True True) \<and> ram m' f = replicate 512 0
         else small_page root m' x = small_page root m x)) \<and>
     (\<forall>g. g \<notin> space_tables root m \<and> unat g \<notin> set (pool m) \<longrightarrow> ram m' g = ram m g \<and> g \<notin> space_tables root m')"

lemma pages_added_none: "wf_user root m \<Longrightarrow> full_frames root m \<Longrightarrow> pages_added root k 0 m m"
  by (auto simp: pages_added_def)

text \<open>The data of a page that was mapped and is not one of the new ones.\<close>

lemma fresh_page_data:
  assumes wf: "wf_user root m" and F: "fresh_page root v f ws wr m m'" and x: "lower x" "small_page root m x = Some e"
  shows "ram m' (frame_of e) = ram m (frame_of e)"
  using wf_userD(5) [OF wf x] F unfolding fresh_page_def by blast

lemma fresh_page_full:
  assumes wf: "wf_user root m" and full: "full_frames root m" and F: "fresh_page root v f ws wr m m'" and ws: "length ws = 512"
  shows "full_frames root m'"
  unfolding full_frames_def
proof (intro allI impI)
  fix x e
  assume a: "lower x \<and> small_page root m' x = Some e"
  show "length (ram m' (frame_of e)) = 512"
  proof (cases "x = v")
    case True
    then have "e = make_entry f True wr"
      using a F unfolding fresh_page_def by auto
    then show ?thesis
      using F ws by (simp add: fresh_page_def)
  next
    case False
    then have m: "small_page root m x = Some e"
      using a F unfolding fresh_page_def by auto
    then show ?thesis
      using fresh_page_data [OF wf F _ m] a full by (auto simp: full_frames_def)
  qed
qed

lemma vm_map_pages_ok:
  assumes "wf_user root m" and "full_frames root m" and "unat va mod 4096 = 0" and "unat va + 4096 * n \<le> 2 ^ 47"
    and "4 * n \<le> length (pool m)"
  shows "\<exists>m'. vm_map_pages n va True True root m = Inr m' \<and> pages_added root (unat va div 4096) n m m'"
  using assms
proof (induction n arbitrary: va m)
  case 0
  then show ?case
    by (simp add: pages_added_none)
next
  case (Suc n)
  let ?v = "drop_bit 12 va" and ?k = "unat va div 4096"
  have lv: "lower ?v" and k: "unat ?v = ?k"
    using Suc.prems(4) by (simp_all add: lower_def drop_bit_eq_div unat_div less_mult_imp_div_less)
  have pl: "4 \<le> length (pool m)"
    using Suc.prems(5) by simp
  obtain f m1 where a: "alloc_frame m = Inr (f, m1)" "ram m1 = (ram m)(f := replicate 512 0)"
    "\<And>ws v wr. lower v \<Longrightarrow> \<exists>m'. map_in_root root v f True wr (m1\<lparr>ram := (ram m1)(f := ws)\<rparr>) = Inr m'"
    by (rule fresh_page_succeeds [OF Suc.prems(1) pl]) (rule that)
  have m1: "m1\<lparr>ram := (ram m1)(f := replicate 512 0)\<rparr> = m1"
    by (simp add: a(2))
  then obtain m2 where m2: "map_in_root root ?v f True True m1 = Inr m2"
    using a(3) [OF lv, of True "replicate 512 0"] by auto
  have F: "fresh_page root ?v f (replicate 512 0) True m m2"
    using fresh_page_map [OF Suc.prems(1) lv a(1), of True "replicate 512 0" m2] m1 m2 by simp
  note F' = F [unfolded fresh_page_def]
  have full2: "full_frames root m2"
    by (rule fresh_page_full [OF Suc.prems(1,2) F]) simp
  have va: "unat (va + 4096) = unat va + 4096"
    using Suc.prems(4) by (simp add: unat_word_ariths)
  have "4 * n \<le> length (pool m2)"
    using F' Suc.prems(5) by simp
  then obtain m' where m': "vm_map_pages n (va + 4096) True True root m2 = Inr m'"
      and P: "pages_added root (Suc ?k) n m2 m'"
    using Suc.IH [of m2 "va + 4096"] F' full2 Suc.prems(3,4) va by (auto simp: mod_add_eq [symmetric])
  note P' = P [unfolded pages_added_def]
  have run: "vm_map_pages (Suc n) va True True root m = Inr m'"
    using Suc.prems(4) a(1) m2 m' canonical_low [of va] by (simp add: VPN_of_def)
  have e: "lower ?v" "small_page root m2 ?v = Some (make_entry f True True)"
    using F' lv by auto
  then have keep: "ram m' f = replicate 512 0"
    using wf_userD(5) [OF conjunct1 [OF F'] e] F' P' by auto
  have new: "if ?k \<le> unat x \<and> unat x < ?k + Suc n
      then \<exists>g. unat g \<in> set (pool m) \<and> unat g \<notin> set (pool m') \<and> frame_of (make_entry g True True) = g \<and>
        small_page root m' x = Some (make_entry g True True) \<and> ram m' g = replicate 512 0
      else small_page root m' x = small_page root m x" if x: "lower x" for x
  proof (cases "x = ?v")
    case True
    then have "small_page root m' x = Some (make_entry f True True)"
      using P' x k e(2) by simp
    then show ?thesis
      using F' P' True k keep by (intro iffD2 [OF if_P] exI [of _ f]) auto
  next
    case False
    then have ne: "unat x \<noteq> ?k"
      using k by (metis unat_eqI)
    have same: "small_page root m2 x = small_page root m x"
      using F' False x by simp
    show ?thesis
    proof (cases "?k \<le> unat x \<and> unat x < ?k + Suc n")
      case True
      then have "Suc ?k \<le> unat x \<and> unat x < Suc ?k + n"
        using ne by simp
      then obtain g where "unat g \<in> set (pool m2)" "unat g \<notin> set (pool m')" "frame_of (make_entry g True True) = g"
          "small_page root m' x = Some (make_entry g True True)" "ram m' g = replicate 512 0"
        using P' x by metis
      then show ?thesis
        using True F' by auto
    next
      case False
      then show ?thesis
        using P' x same by auto
    qed
  qed
  have "pages_added root ?k (Suc n) m m'"
    unfolding pages_added_def
  proof (intro conjI allI impI)
    show "ram m' g = ram m g" "g \<notin> space_tables root m'" if g: "g \<notin> space_tables root m \<and> unat g \<notin> set (pool m)" for g
    proof -
      have "ram m2 g = ram m g \<and> g \<notin> space_tables root m2" "unat g \<notin> set (pool m2)"
        using g F' by blast+
      then show "ram m' g = ram m g" "g \<notin> space_tables root m'"
        using P' by auto
    qed
  qed (use F' P' new in auto)
  with run show ?case
    by blast
qed

section \<open>The break\<close>

definition brk_accepts :: "nat \<Rightarrow> u64 \<Rightarrow> sys \<Rightarrow> bool" where
  "brk_accepts p addr s \<longleftrightarrow> addr \<noteq> 0 \<and> brk_min (objects s ! p) \<le> addr \<and> addr < BRK_LIMIT"

text \<open>The number of the first page above a break.\<close>

definition page_above :: "u64 \<Rightarrow> nat" where "page_above a = (unat a + 4095) div 4096"

definition set_brk :: "u64 \<Rightarrow> Process \<Rightarrow> Process" where "set_brk addr proc = proc\<lparr>brk_current := addr\<rparr>"

text \<open>The words of a loaded page.\<close>

definition the_page :: "sys \<Rightarrow> u64 \<Rightarrow> u64 list option" where
  "the_page s x = map_option (\<lambda>e. ram (mem (core s)) (frame_of e)) (small_page (cr3 (core s)) (mem (core s)) x)"

lemma BRK_LIMIT_unat: "unat BRK_LIMIT = 0x7fffffe0000"
  by (simp add: BRK_LIMIT_def USER_STACK_TOP_def USER_STACK_SIZE_def)

lemma align_up_page: "unat a \<le> unat BRK_LIMIT \<Longrightarrow> unat (syscall_align_up a) = 4096 * page_above a"
proof -
  assume "unat a \<le> unat BRK_LIMIT"
  then have "unat (a + 4095) = unat a + 4095"
    by (simp add: BRK_LIMIT_unat unat_word_ariths)
  moreover have e: "a + 4096 - 1 = a + 4095"
    by simp
  ultimately show ?thesis
    unfolding syscall_align_up_def page_above_def e and_not_page by simp
qed

lemma page_above_limit: "unat a \<le> unat BRK_LIMIT \<Longrightarrow> 4096 * page_above a \<le> unat BRK_LIMIT"
proof -
  assume "unat a \<le> unat BRK_LIMIT"
  then have "page_above a \<le> (unat BRK_LIMIT + 4095) div 4096"
    unfolding page_above_def by (intro div_le_mono) simp
  then show ?thesis
    by (simp add: BRK_LIMIT_unat)
qed

text \<open>The call, on what it maps.\<close>

lemma sys_brk_ok:
  assumes wf: "wf_core s" and now: "brk_current (objects s ! p) = cur" "cr3 (core s) = root" "mem (core s) = m"
    and cur: "unat cur \<le> unat BRK_LIMIT" and acc: "brk_accepts p addr s"
    and frames: "4 * (page_above addr - page_above cur) \<le> length (pool m)"
  obtains m' where "sys_brk p addr s = Inr (addr, update_proc p (set_brk addr) (s\<lparr>core := (core s)\<lparr>mem := m'\<rparr>\<rparr>))"
    and "pages_added root (page_above cur) (page_above addr - page_above cur) m m'"
proof -
  let ?cur = "brk_current (objects s ! p)" and ?m = "mem (core s)" and ?r = "cr3 (core s)"
  let ?k0 = "page_above ?cur" and ?k1 = "page_above addr"
  have W: "wf_user ?r ?m" "full_frames ?r ?m"
    using wf by (simp_all add: wf_core_def wf_vmD)
  have addr: "unat addr \<le> unat BRK_LIMIT"
    using acc by (simp add: brk_accepts_def word_less_nat_alt)
  have u: "unat (syscall_align_up ?cur) = 4096 * ?k0" "unat (syscall_align_up addr) = 4096 * ?k1"
    using align_up_page [of ?cur] align_up_page [of addr] cur addr now by simp_all
  have "unat addr < unat USER_TOP"
    using addr by (simp add: BRK_LIMIT_unat USER_TOP_def)
  then have guard: "addr \<noteq> 0" "\<not> (addr < brk_min (objects s ! p) \<or> addr \<ge> BRK_LIMIT \<or> addr \<ge> USER_TOP)"
    using acc by (auto simp: brk_accepts_def word_less_nat_alt word_le_nat_alt)
  have brk: "set_brk addr = (\<lambda>proc. proc\<lparr>brk_current := addr\<rparr>)"
    by (simp add: fun_eq_iff set_brk_def)
  show thesis
  proof (cases "?k0 < ?k1")
    case False
    then have "\<not> syscall_align_up addr > syscall_align_up ?cur"
      using u by (simp add: word_less_nat_alt)
    then have "sys_brk p addr s = Inr (addr, update_proc p (set_brk addr) (s\<lparr>core := (core s)\<lparr>mem := ?m\<rparr>\<rparr>))"
      using guard by (simp add: sys_brk_def Let_def brk)
    then show thesis
      using that [of ?m] False pages_added_none [OF W] now by simp
  next
    case True
    let ?va = "syscall_align_up ?cur" and ?len = "syscall_align_up addr - syscall_align_up ?cur"
    have gt: "syscall_align_up addr > ?va"
      using True u by (simp add: word_less_nat_alt)
    then have len: "unat ?len = 4096 * (?k1 - ?k0)"
      using u by (simp add: unat_sub word_le_nat_alt word_less_nat_alt diff_mult_distrib2)
    have lim: "unat ?va + 4096 * (?k1 - ?k0) \<le> 2 ^ 47"
      using now True u page_above_limit [OF addr] by (simp add: BRK_LIMIT_unat)
    have n: "(unat ?len + 4095) div 4096 = ?k1 - ?k0"
      by (simp add: len)
    obtain m' where m': "vm_map_pages (?k1 - ?k0) ?va True True ?r ?m = Inr m'"
        "pages_added ?r (unat ?va div 4096) (?k1 - ?k0) ?m m'"
      using vm_map_pages_ok [OF W _ lim] frames u now by auto
    have "vm_map_range ?va ?len True True ?r ?m = Inr m'"
      using m'(1) lim canonical_low [of ?va] True by (simp add: vm_map_range_def n u)
    then have "sys_brk p addr s = Inr (addr, update_proc p (set_brk addr) (s\<lparr>core := (core s)\<lparr>mem := m'\<rparr>\<rparr>))"
      using guard gt by (simp add: sys_brk_def Let_def brk)
    then show thesis
      using that m'(2) u now by simp
  qed
qed

text \<open>
  C15. The break: an address below its start, from its limit on, or 0 changes nothing and the call returns the
  break as it is. Any other address becomes the break, if there are four frames for each page that is
  added; exactly the pages between the two ends, rounded up, are then loaded with zeros, and every other page
  keeps its words or stays unloaded.
\<close>

theorem brk_moves:
  assumes wf: "wf_core s" and cur: "unat (brk_current (objects s ! p)) \<le> unat BRK_LIMIT"
    and frames: "4 * (page_above addr - page_above (brk_current (objects s ! p))) \<le> length (pool (mem (core s)))"
  shows "if brk_accepts p addr s
    then \<exists>s1. sys_brk p addr s = Inr (addr, update_proc p (set_brk addr) s1) \<and> wf_core s1 \<and>
      s1 = s\<lparr>core := (core s)\<lparr>mem := mem (core s1)\<rparr>\<rparr> \<and>
      (\<forall>x. lower x \<longrightarrow> the_page s1 x =
        (if page_above (brk_current (objects s ! p)) \<le> unat x \<and> unat x < page_above addr
         then Some (replicate 512 0) else the_page s x))
    else sys_brk p addr s = Inr (brk_current (objects s ! p), s)"
proof (cases "brk_accepts p addr s")
  case False
  then show ?thesis
    by (auto simp: sys_brk_def brk_accepts_def Let_def)
next
  case True
  let ?k0 = "page_above (brk_current (objects s ! p))" and ?r = "cr3 (core s)" and ?m = "mem (core s)"
  obtain m' where m': "sys_brk p addr s = Inr (addr, update_proc p (set_brk addr) (s\<lparr>core := (core s)\<lparr>mem := m'\<rparr>\<rparr>))"
      and P: "pages_added ?r ?k0 (page_above addr - ?k0) ?m m'"
    by (rule sys_brk_ok [OF wf refl refl refl cur True frames]) (rule that)
  note P' = P [unfolded pages_added_def]
  let ?s = "s\<lparr>core := (core s)\<lparr>mem := m'\<rparr>\<rparr>"
  have W: "wf_vm (core s)" "wf_user ?r ?m"
    using wf by (simp_all add: wf_core_def wf_vmD)
  have "wf_core ?s"
    using W P' by (simp add: wf_core_def wf_vm_def)
  moreover have "the_page ?s x =
      (if ?k0 \<le> unat x \<and> unat x < page_above addr then Some (replicate 512 0) else the_page s x)" if x: "lower x" for x
  proof (cases "?k0 \<le> unat x \<and> unat x < page_above addr")
    case in_range: True
    then have "?k0 \<le> unat x \<and> unat x < ?k0 + (page_above addr - ?k0)"
      by simp
    then obtain f where "small_page ?r m' x = Some (make_entry f True True)" "frame_of (make_entry f True True) = f"
        "ram m' f = replicate 512 0"
      using P' x by metis
    then show ?thesis
      using in_range by (simp add: the_page_def)
  next
    case False
    then have "\<not> (?k0 \<le> unat x \<and> unat x < ?k0 + (page_above addr - ?k0))"
      by auto
    then have same: "small_page ?r m' x = small_page ?r ?m x"
      using P' x by metis
    have "ram m' (frame_of e) = ram ?m (frame_of e)" if "small_page ?r ?m x = Some e" for e
      using wf_userD(5) [OF W(2) x that] P' by blast
    then show ?thesis
      using False same by (cases "small_page ?r ?m x") (auto simp: the_page_def)
  qed
  ultimately show ?thesis
    using True m' by (intro iffD2 [OF if_P] exI [of _ ?s]) simp_all
qed

text \<open>
  C16. Shrinking the break and growing it again loses frames: where a page was added, given up and added again,
  the frame it had first is in no page, in no table and not in the pool any more.
\<close>

theorem brk_regrow_leaks:
  assumes wf: "wf_core s" and p: "p < length (objects s)" and lo: "brk_current (objects s ! p) = lo" "brk_accepts p lo s"
    and hi: "brk_accepts p hi s" and page: "page_above lo \<le> unat x" "unat x < page_above hi"
    and frames: "8 * (page_above hi - page_above lo) \<le> length (pool (mem (core s)))"
  shows "\<exists>s1 s2 s3 f. sys_brk p hi s = Inr (hi, s1) \<and> sys_brk p lo s1 = Inr (lo, s2) \<and> sys_brk p hi s2 = Inr (hi, s3) \<and>
    small_page (cr3 (core s1)) (mem (core s1)) x = Some (make_entry f True True) \<and>
    unat f \<notin> set (pool (mem (core s3))) \<and> f \<notin> space_tables (cr3 (core s3)) (mem (core s3)) \<and>
    (\<forall>y e. lower y \<and> small_page (cr3 (core s3)) (mem (core s3)) y = Some e \<longrightarrow> frame_of e \<noteq> f)"
proof -
  let ?r = "cr3 (core s)" and ?m = "mem (core s)" and ?n = "page_above hi - page_above lo" and ?k = "page_above lo"
  have lim: "unat lo \<le> unat BRK_LIMIT" "unat hi \<le> unat BRK_LIMIT"
    using lo hi by (simp_all add: brk_accepts_def word_less_nat_alt)
  have keeps: "brk_accepts p a (update_proc p (set_brk b) (t\<lparr>core := c\<rparr>)) = brk_accepts p a t"
    "brk_current (objects (update_proc p (set_brk b) (t\<lparr>core := c\<rparr>)) ! p) = b"
    if "p < length (objects t)" for a b t c
    using that by (simp_all add: brk_accepts_def set_brk_def)
  obtain m1 where r1: "sys_brk p hi s = Inr (hi, update_proc p (set_brk hi) (s\<lparr>core := (core s)\<lparr>mem := m1\<rparr>\<rparr>))"
      and P: "pages_added ?r ?k ?n ?m m1"
    by (rule sys_brk_ok [OF wf lo(1) refl refl lim(1) hi]) (use frames that in auto)
  note P1 = P [unfolded pages_added_def]
  define s1 where "s1 = update_proc p (set_brk hi) (s\<lparr>core := (core s)\<lparr>mem := m1\<rparr>\<rparr>)"
  have wf1: "wf_core s1"
    using wf P1 by (simp add: s1_def wf_core_def wf_vm_def)
  have s1: "p < length (objects s1)" "brk_current (objects s1 ! p) = hi" "brk_accepts p lo s1" "brk_accepts p hi s1"
    "cr3 (core s1) = ?r" "mem (core s1) = m1"
    using p lo hi keeps [of s] by (simp_all add: s1_def)
  obtain m2 where r2: "sys_brk p lo s1 = Inr (lo, update_proc p (set_brk lo) (s1\<lparr>core := (core s1)\<lparr>mem := m2\<rparr>\<rparr>))"
      and Q: "pages_added ?r (page_above hi) 0 m1 m2"
    by (rule sys_brk_ok [OF wf1 s1(2,5,6) lim(2) s1(3)]) (use page that in auto)
  note P2 = Q [unfolded pages_added_def]
  define s2 where "s2 = update_proc p (set_brk lo) (s1\<lparr>core := (core s1)\<lparr>mem := m2\<rparr>\<rparr>)"
  have wf2: "wf_core s2"
    using wf1 P2 s1 by (simp add: s2_def wf_core_def wf_vm_def)
  have s2: "p < length (objects s2)" "brk_current (objects s2 ! p) = lo" "brk_accepts p hi s2"
    "cr3 (core s2) = ?r" "mem (core s2) = m2"
    using s1 keeps [of s1] by (simp_all add: s2_def)
  have "4 * ?n \<le> length (pool m2)"
    using frames P1 P2 by simp
  note fr3 = this
  obtain m3 where r3: "sys_brk p hi s2 = Inr (hi, update_proc p (set_brk hi) (s2\<lparr>core := (core s2)\<lparr>mem := m3\<rparr>\<rparr>))"
      and R: "pages_added ?r ?k ?n m2 m3"
    by (rule sys_brk_ok [OF wf2 s2(2,4,5) lim(1) s2(3) fr3]) (rule that)
  note P3 = R [unfolded pages_added_def]
  define s3 where "s3 = update_proc p (set_brk hi) (s2\<lparr>core := (core s2)\<lparr>mem := m3\<rparr>\<rparr>)"
  have s3: "cr3 (core s3) = ?r" "mem (core s3) = m3"
    using s2 by (simp_all add: s3_def)
  have "page_above hi < 2 ^ 35"
    using page_above_limit [OF lim(2)] by (simp add: BRK_LIMIT_unat)
  then have x: "lower x"
    using page by (simp add: lower_def)
  have rng: "?k \<le> unat x \<and> unat x < ?k + ?n"
    using page by simp
  obtain f where f: "small_page ?r m1 x = Some (make_entry f True True)" "frame_of (make_entry f True True) = f"
      "unat f \<notin> set (pool m1)"
    using P1 x rng by metis
  have in2: "small_page ?r m2 x = Some (make_entry f True True)"
    using P2 x f(1) by simp
  have wf2': "wf_user ?r m2"
    using P2 by blast
  have f2: "f \<notin> space_tables ?r m2" "unat f \<notin> set (pool m2)"
    using wf_userD(5) [OF wf2' x in2] f(2) by simp_all
  have "frame_of e \<noteq> f" if y: "lower y" "small_page ?r m3 y = Some e" for y e
  proof (cases "?k \<le> unat y \<and> unat y < ?k + ?n")
    case True
    then obtain g where "unat g \<in> set (pool m2)" "small_page ?r m3 y = Some (make_entry g True True)" "frame_of (make_entry g True True) = g"
      using P3 y(1) by metis
    then show ?thesis
      using y(2) f2(2) by auto
  next
    case False
    then have "small_page ?r m2 y = Some e"
      using P3 y by metis
    then show ?thesis
      using wf_userD(6) [OF wf2' y(1) x _ in2] f(2) False rng by auto
  qed
  moreover have "f \<notin> space_tables ?r m3" "unat f \<notin> set (pool m3)"
    using P3 f2 by blast+
  ultimately show ?thesis
    using r1 r2 r3 f(1) unfolding s1_def [symmetric] s2_def [symmetric] s3_def [symmetric]
    by (intro exI [of _ s1] exI [of _ s2] exI [of _ s3] exI [of _ f]) (auto simp: s1 s3)
qed

section \<open>A sample process\<close>

definition demo_brk :: sys where
  "demo_brk = update_proc 0 (set_brk 1) (demo_sys (demo_vm []) 0)"

lemma demo_brk_facts:
  "wf_core demo_brk" "brk_current (objects demo_brk ! 0) = 1" "length (pool (mem (core demo_brk))) = 8"
  "brk_accepts 0 1 demo_brk" "brk_accepts 0 4097 demo_brk" "0 < length (objects demo_brk)"
  "page_above 1 = 1" "page_above 4097 = 2" "unat (1 :: u64) \<le> unat BRK_LIMIT"
proof -
  have "wf_vm (demo_vm [])"
    by (intro demo_wf) (simp_all add: user_regions_def)
  moreover have "full_frames 0x10000 (mem (demo_vm []))"
    by (simp add: full_frames_def demo_tables)
  ultimately show "wf_core demo_brk"
    by (simp add: demo_brk_def wf_core_def demo_sys_def)
  show "brk_current (objects demo_brk ! 0) = 1" "length (pool (mem (core demo_brk))) = 8" "0 < length (objects demo_brk)"
    by (simp_all add: demo_brk_def demo_sys_def set_brk_def demo_pool)
  show "brk_accepts 0 1 demo_brk" "brk_accepts 0 4097 demo_brk"
    by (simp_all add: brk_accepts_def demo_brk_def demo_sys_def demo_proc_def set_fd_def set_brk_def new_process_def
        word_less_nat_alt BRK_LIMIT_unat)
  show "page_above 1 = 1" "page_above 4097 = 2" "unat (1 :: u64) \<le> unat BRK_LIMIT"
    by (simp_all add: page_above_def BRK_LIMIT_unat)
qed

theorem brk_moves_witness:
  "\<exists>s1. sys_brk 0 4097 demo_brk = Inr (4097, update_proc 0 (set_brk 4097) s1) \<and> the_page s1 1 = Some (replicate 512 0)"
proof -
  have "\<exists>s1. sys_brk 0 4097 demo_brk = Inr (4097, update_proc 0 (set_brk 4097) s1) \<and>
      (\<forall>x. lower x \<longrightarrow> the_page s1 x = (if 1 \<le> unat x \<and> unat x < 2 then Some (replicate 512 0) else the_page demo_brk x))"
    using brk_moves [OF demo_brk_facts(1), of 0 4097] demo_brk_facts by auto
  then obtain s1 where s1: "sys_brk 0 4097 demo_brk = Inr (4097, update_proc 0 (set_brk 4097) s1)"
      "lower 1 \<Longrightarrow> the_page s1 1 = Some (replicate 512 0)"
    by auto
  have "lower 1"
    by (simp add: lower_def)
  then show ?thesis
    using s1 by blast
qed

theorem brk_regrow_leaks_witness:
  "\<exists>s1 s2 s3 f. sys_brk 0 4097 demo_brk = Inr (4097, s1) \<and> sys_brk 0 1 s1 = Inr (1, s2) \<and> sys_brk 0 4097 s2 = Inr (4097, s3) \<and>
     small_page (cr3 (core s1)) (mem (core s1)) 1 = Some (make_entry f True True) \<and> unat f \<notin> set (pool (mem (core s3)))"
  using brk_regrow_leaks [OF demo_brk_facts(1,6,2,4,5), of 1] demo_brk_facts by auto

end
