(* ===== verification/Proc_Spec.thy ===== *)
theory Proc_Spec
  imports File_Spec
begin

text \<open>
  The life of processes: the tree that forks make, what every call keeps of it, and waiting for a child.
\<close>

section \<open>The tree\<close>

text \<open>What the calls on files, memory and semaphores leave alone.\<close>

definition family :: "sys \<Rightarrow> (int \<times> nat option \<times> nat list \<times> bool) list" where
  "family s = map (\<lambda>proc. (pid proc, parent proc, children proc, waited proc)) (objects s)"

definition same_family :: "sys \<Rightarrow> sys \<Rightarrow> bool" where
  "same_family s s' \<longleftrightarrow> family s' = family s \<and> next_pid s' = next_pid s \<and> current_process s' = current_process s"

definition tree_inv :: "sys \<Rightarrow> bool" where
  "tree_inv s \<longleftrightarrow>
     2 \<le> next_pid s \<and> (\<forall>p. current_process s = Some p \<longrightarrow> p < length (objects s)) \<and>
     (\<forall>p < length (objects s). distinct (children (objects s ! p)) \<and>
        (\<forall>c \<in> set (children (objects s ! p)). c < length (objects s) \<and> parent (objects s ! c) = Some p)) \<and>
     (\<forall>c < length (objects s). parent (objects s ! c) \<noteq> None \<longrightarrow>
        2 \<le> pid (objects s ! c) \<and> pid (objects s ! c) < next_pid s) \<and>
     (\<forall>c < length (objects s). \<forall>d < length (objects s).
        parent (objects s ! c) \<noteq> None \<and> parent (objects s ! d) \<noteq> None \<and> pid (objects s ! c) = pid (objects s ! d) \<longrightarrow> c = d)"

text \<open>What never changes later, and what only grows.\<close>

definition later :: "sys \<Rightarrow> sys \<Rightarrow> bool" where
  "later s s' \<longleftrightarrow>
     length (objects s) \<le> length (objects s') \<and>
     (\<forall>p < length (objects s). pid (objects s' ! p) = pid (objects s ! p) \<and> parent (objects s' ! p) = parent (objects s ! p) \<and>
        set (children (objects s ! p)) \<subseteq> set (children (objects s' ! p)) \<and> (waited (objects s ! p) \<longrightarrow> waited (objects s' ! p)))"

lemma later_refl: "later s s"
  by (simp add: later_def)

lemma laterD:
  assumes "later s s'" and "p < length (objects s)"
  shows "p < length (objects s')" and "pid (objects s' ! p) = pid (objects s ! p)" and "parent (objects s' ! p) = parent (objects s ! p)"
    and "set (children (objects s ! p)) \<subseteq> set (children (objects s' ! p))" and "waited (objects s ! p) \<Longrightarrow> waited (objects s' ! p)"
  using assms by (simp_all add: later_def)

lemma later_trans:
  assumes a: "later s s'" and b: "later s' s''"
  shows "later s s''"
proof -
  have "length (objects s) \<le> length (objects s'')"
    using a b unfolding later_def by (blast intro: order_trans)
  moreover have "set (children (objects s ! p)) \<subseteq> set (children (objects s'' ! p))" if "p < length (objects s)" for p
    using laterD(4) [OF a that] laterD(4) [OF b laterD(1) [OF a that]] by (rule subset_trans)
  ultimately show ?thesis
    unfolding later_def
    using laterD(1,2,3,5) [OF a] laterD(2,3,5) [OF b laterD(1) [OF a]] by simp
qed

lemma same_family_refl [simp]: "same_family s s"
  by (simp add: same_family_def)

lemma same_family_trans: "same_family s s' \<Longrightarrow> same_family s' s'' \<Longrightarrow> same_family s s''"
  by (simp add: same_family_def)

lemma same_familyD:
  assumes "same_family s s'"
  shows "length (objects s') = length (objects s)"
    and "p < length (objects s) \<Longrightarrow> pid (objects s' ! p) = pid (objects s ! p) \<and> parent (objects s' ! p) = parent (objects s ! p) \<and>
      children (objects s' ! p) = children (objects s ! p) \<and> waited (objects s' ! p) = waited (objects s ! p)"
proof -
  have f: "family s' = family s"
    using assms by (simp add: same_family_def)
  then have "length (family s') = length (family s)"
    by simp
  then show l: "length (objects s') = length (objects s)"
    by (simp add: family_def)
  assume p: "p < length (objects s)"
  have "family s' ! p = family s ! p"
    by (simp add: f)
  then show "pid (objects s' ! p) = pid (objects s ! p) \<and> parent (objects s' ! p) = parent (objects s ! p) \<and>
      children (objects s' ! p) = children (objects s ! p) \<and> waited (objects s' ! p) = waited (objects s ! p)"
    using p l by (simp add: family_def)
qed

lemma same_family_keeps:
  assumes f: "same_family s s'"
  shows "tree_inv s \<Longrightarrow> tree_inv s'" and "later s s'"
proof -
  note D = same_familyD [OF f]
  have n: "next_pid s' = next_pid s" "current_process s' = current_process s"
    using f by (simp_all add: same_family_def)
  show "later s s'"
    using D by (simp add: later_def)
  assume inv: "tree_inv s"
  then show "tree_inv s'"
    unfolding tree_inv_def n D(1) using D(2) by auto
qed

lemma same_family_update:
  "\<forall>proc. pid (f proc) = pid proc \<and> parent (f proc) = parent proc \<and> children (f proc) = children proc \<and> waited (f proc) = waited proc \<Longrightarrow>
    same_family s (update_proc p f s)"
  by (cases "p < length (objects s)") (simp_all add: same_family_def family_def update_proc_def map_update list_update_same_conv list_update_beyond)

lemma same_family_fields [simp]:
  "same_family s (s\<lparr>core := k\<rparr>)" "same_family s (s\<lparr>console := c\<rparr>)" "same_family s (s\<lparr>sems := t\<rparr>)"
  "same_family s (s\<lparr>root_fs := r, initial_brk := b\<rparr>)" "same_family s (s\<lparr>started := ts\<rparr>)"
  "same_family s (s\<lparr>core := k, started := ts\<rparr>)"
  by (simp_all add: same_family_def family_def)

text \<open>Inversion of a computation that returns.\<close>

lemma bind_run_return: "bind_run r f = return b \<longleftrightarrow> (\<exists>a. r = return a \<and> f a = return b)"
  by (auto simp: bind_run_def return_def split: option.splits sum.splits)

lemma return_iff [simp]: "return a = return b \<longleftrightarrow> a = b" "Some (Inr a) = return b \<longleftrightarrow> a = b" "Some (Inl e) \<noteq> return b"
  "Some r = return b \<longleftrightarrow> r = Inr b" "None \<noteq> return b"
  by (simp_all add: return_def)

section \<open>The calls\<close>

lemma store_user_family: "store_user a bs s = Inr s' \<Longrightarrow> same_family s s'"
  by (auto simp: store_user_def split: option.splits)

lemma filesystem_family: "filesystem s = return (fs, root, s') \<Longrightarrow> same_family s s'"
  by (auto simp: filesystem_def bind_run_return split: option.splits prod.splits)

lemma resolve_path_family: "resolve_path a s = return (nd, s') \<Longrightarrow> same_family s s'"
  by (auto simp: resolve_path_def bind_run_return Let_def split: if_splits option.splits dest!: filesystem_family)

lemma sys_read_family: "sys_read p a0 a1 a2 s = return (r, s') \<Longrightarrow> same_family s s'"
  by (auto simp: sys_read_def bind_run_return Let_def split: if_splits option.splits
      dest!: store_user_family intro!: same_family_trans [OF _ same_family_update])

lemma sys_write_family: "sys_write a1 a2 s = return (r, s') \<Longrightarrow> same_family s s'"
  by (auto simp: sys_write_def bind_run_return Let_def split: if_splits)

lemma alloc_fd_family:
  "alloc_fd nd proc = (fd, proc') \<Longrightarrow> pid proc' = pid proc \<and> parent proc' = parent proc \<and> children proc' = children proc \<and> waited proc' = waited proc"
  by (auto simp: alloc_fd_def split: option.splits)

lemma same_family_put:
  "pid proc = pid (objects s ! p) \<and> parent proc = parent (objects s ! p) \<and> children proc = children (objects s ! p) \<and>
    waited proc = waited (objects s ! p) \<Longrightarrow> same_family s (update_proc p (\<lambda>_. proc) s)"
  by (cases "p < length (objects s)") (simp_all add: same_family_def family_def update_proc_def map_update list_update_same_conv list_update_beyond)

lemma sys_open_family: 
  assumes "sys_open p a0 s = return (r, s')"
  shows "same_family s s'"
proof -
  obtain node s1 where r: "resolve_path a0 s = return (node, s1)"
    and rest: "(case node of None \<Rightarrow> return (- 1, s1) | Some nd \<Rightarrow>
      let (fd, proc) = alloc_fd nd (objects s1 ! p) in return (of_int64 fd, update_proc p (\<lambda>_. proc) s1)) = return (r, s')"
    using assms by (auto simp: sys_open_def bind_run_return)
  show ?thesis
  proof (cases node)
    case (Some nd)
    obtain fd proc where f: "alloc_fd nd (objects s1 ! p) = (fd, proc)"
      by (cases "alloc_fd nd (objects s1 ! p)")
    then have "same_family s1 s'"
      using rest Some alloc_fd_family [OF f] by (auto intro: same_family_put)
    then show ?thesis
      using resolve_path_family [OF r] by (rule same_family_trans [rotated])
  qed (use resolve_path_family [OF r] rest in auto)
qed

lemma sys_close_family: "sys_close p a0 s = (r, s') \<Longrightarrow> same_family s s'"
  by (auto simp: sys_close_def Let_def split: if_splits intro!: same_family_update)

lemma sys_lseek_family: "sys_lseek p a0 a1 a2 s = Inr (r, s') \<Longrightarrow> same_family s s'"
  by (auto simp: sys_lseek_def Let_def split: if_splits option.splits intro!: same_family_update)

lemma sys_brk_family: "sys_brk p a0 s = Inr (r, s') \<Longrightarrow> same_family s s'"
  by (auto simp: sys_brk_def Let_def bind_outcome_Inr_iff split: if_splits intro!: same_family_trans [OF _ same_family_update])

lemma try_semop_family: "try_semop semid op sem s = Inr (r, s') \<Longrightarrow> same_family s s'"
  by (auto simp: try_semop_def split: attempt.splits)

lemma sys_semop_family: "sys_semop a0 a1 a2 s = return (r, s') \<Longrightarrow> same_family s s'"
  by (auto simp: sys_semop_def bind_run_return Let_def split: if_splits option.splits dest!: try_semop_family)

lemma finish_waitpid_family: "finish_waitpid c r st s = return (w, s') \<Longrightarrow> same_family s s'"
  by (auto simp: finish_waitpid_def bind_run_return Let_def split: if_splits dest!: store_user_family)

lemma sys_exit_family: "sys_exit p a0 s = return s' \<Longrightarrow> same_family s s'"
  by (auto simp: sys_exit_def bind_run_return syscall_process_stopped_def Let_def split: option.splits
      intro!: same_family_update same_family_trans [OF same_family_update same_family_fields(1)]
        same_family_trans [OF same_family_trans [OF same_family_update same_family_fields(1)] same_family_update])

lemma fork_thread_family: "fork_thread c frame s = Inr s' \<Longrightarrow> same_family s s'"
  by (auto simp: fork_thread_def bind_outcome_Inr_iff Let_def)

text \<open>A fork adds one leaf to the tree.\<close>

lemma fork_process_tree:
  assumes inv: "tree_inv s" and p: "p < length (objects s)" and f: "fork_process p s = (c, s')"
  shows "tree_inv s' \<and> later s s' \<and> c = length (objects s) \<and> c < length (objects s') \<and>
    parent (objects s' ! c) = Some p \<and> children (objects s' ! p) = c # children (objects s ! p) \<and> \<not> waited (objects s' ! c)"
proof -
  define child where "child = new_process\<lparr>pid := next_pid s, parent := Some p, brk_min := brk_min (objects s ! p),
    brk_current := brk_current (objects s ! p), fds := fds (objects s ! p)\<rparr>"
  define mother where "mother = (objects s ! p)\<lparr>children := length (objects s) # children (objects s ! p)\<rparr>"
  have c: "c = length (objects s)" and o: "objects s' = (objects s)[p := mother] @ [child]"
    and n: "next_pid s' = next_pid s + 1" "current_process s' = current_process s"
    using f p by (auto simp: fork_process_def Let_def update_proc_def mother_def child_def nth_append list_update_append)
  have ch: "pid child = next_pid s" "parent child = Some p" "children child = []" "\<not> waited child"
    by (simp_all add: child_def new_process_def)
  have mo: "pid mother = pid (objects s ! p)" "parent mother = parent (objects s ! p)" "waited mother = waited (objects s ! p)"
    "children mother = length (objects s) # children (objects s ! p)"
    by (simp_all add: mother_def)
  have nth: "objects s' ! q = (if q = p then mother else if q < length (objects s) then objects s ! q else child)"
    if "q < length (objects s')" for q
    using that p by (auto simp: o nth_append less_Suc_eq)
  have len: "length (objects s') = Suc (length (objects s))"
    by (simp add: o)
  have i: "2 \<le> next_pid s" "\<And>q. current_process s = Some q \<Longrightarrow> q < length (objects s)"
    "\<And>q. q < length (objects s) \<Longrightarrow> distinct (children (objects s ! q))"
    "\<And>q d. q < length (objects s) \<Longrightarrow> d \<in> set (children (objects s ! q)) \<Longrightarrow> d < length (objects s) \<and> parent (objects s ! d) = Some q"
    "\<And>d. d < length (objects s) \<Longrightarrow> parent (objects s ! d) \<noteq> None \<Longrightarrow> 2 \<le> pid (objects s ! d) \<and> pid (objects s ! d) < next_pid s"
    "\<And>d e. d < length (objects s) \<Longrightarrow> e < length (objects s) \<Longrightarrow> parent (objects s ! d) \<noteq> None \<Longrightarrow> parent (objects s ! e) \<noteq> None \<Longrightarrow>
      pid (objects s ! d) = pid (objects s ! e) \<Longrightarrow> d = e"
    using inv unfolding tree_inv_def by blast+
  have old: "parent (objects s' ! d) = parent (objects s ! d) \<and> pid (objects s' ! d) = pid (objects s ! d)" if "d < length (objects s)" for d
    using that len by (simp add: nth mo)
  have new: "parent (objects s' ! length (objects s)) = Some p \<and> pid (objects s' ! length (objects s)) = next_pid s"
    using len p by (simp add: nth ch)
  have kids: "distinct (children (objects s' ! q)) \<and> (\<forall>d \<in> set (children (objects s' ! q)). d < length (objects s') \<and> parent (objects s' ! d) = Some q)"
    if q: "q < length (objects s')" for q
  proof (cases "q < length (objects s)")
    case True
    have "length (objects s) \<notin> set (children (objects s ! q))"
      using i(4) [OF True] by blast
    then show ?thesis
      using True i(3) [OF True] i(4) [OF True] old new len q by (auto simp: nth mo less_Suc_eq)
  qed (use q p len in \<open>simp add: nth ch\<close>)
  have bounds: "2 \<le> pid (objects s' ! d) \<and> pid (objects s' ! d) < next_pid s'" if "d < length (objects s')" "parent (objects s' ! d) \<noteq> None" for d
    using that old [of d] new i(1) i(5) [of d] len by (cases "d < length (objects s)") (auto simp: n less_Suc_eq)
  have unique: "d = e" if d: "d < length (objects s')" "e < length (objects s')" "parent (objects s' ! d) \<noteq> None" "parent (objects s' ! e) \<noteq> None"
    "pid (objects s' ! d) = pid (objects s' ! e)" for d e
    using d old [of d] old [of e] new i(5) [of d] i(5) [of e] i(6) [of d e] len
    by (cases "d < length (objects s)"; cases "e < length (objects s)") (auto simp: less_Suc_eq)
  have cur: "q < length (objects s')" if "current_process s' = Some q" for q
    using that i(2) [of q] by (simp add: n len)
  have "2 \<le> next_pid s'"
    using i(1) n by simp
  then have "tree_inv s'"
    unfolding tree_inv_def using kids bounds unique cur by blast
  moreover have "later s s'"
    using p len by (auto simp: later_def nth mo)
  ultimately show ?thesis
    using p len by (simp add: c nth ch mo)
qed

lemma sys_fork_tree:
  assumes "tree_inv s" and "p < length (objects s)" and "sys_fork p frame s = Inr (r, s')"
  shows "tree_inv s' \<and> later s s'"
proof -
  obtain c s1 where f: "fork_process p s = (c, s1)"
    by (cases "fork_process p s")
  then have t: "same_family s1 s'"
    using assms(3) by (auto simp: sys_fork_def bind_outcome_Inr_iff dest: fork_thread_family)
  show ?thesis
    using fork_process_tree [OF assms(1,2) f] same_family_keeps [OF t] by (blast intro: later_trans)
qed

lemma new_object_tree:
  assumes inv: "tree_inv s" and o: "objects s' = objects s @ [proc]" and ch: "parent proc = None" "children proc = []"
    and n: "next_pid s' = next_pid s" "current_process s' = Some (length (objects s))"
  shows "tree_inv s' \<and> later s s'"
  using inv unfolding tree_inv_def later_def
  by (auto simp: o n ch nth_append less_Suc_eq)

lemma ensure_process_tree:
  assumes inv: "tree_inv s" and e: "ensure_process s = return (p, s')"
  shows "tree_inv s' \<and> later s s' \<and> p < length (objects s') \<and> current_process s' = Some p"
proof (cases "current_process s")
  case None
  obtain fs root s1 where f: "filesystem s = return (fs, root, s1)"
    using e None by (auto simp: ensure_process_def bind_run_return)
  note same = same_family_keeps [OF filesystem_family [OF f]]
  have o: "p = length (objects s1)" "objects s' = objects s1 @ [new_process\<lparr>pid := 1, brk_min := initial_brk s1, brk_current := initial_brk s1\<rparr>]"
    "next_pid s' = next_pid s1" "current_process s' = Some p"
    using e None f by (auto simp: ensure_process_def bind_run_return Let_def return_iff)
  then have "tree_inv s' \<and> later s1 s'"
    by (intro new_object_tree [OF same(1) [OF inv] o(2)]) (simp_all add: new_process_def)
  moreover have "p < length (objects s')" "current_process s' = Some p"
    using o by simp_all
  ultimately show ?thesis
    using later_trans [OF same(2)] by blast
next
  case (Some q)
  then have "p = q" "s' = s"
    using e by (simp_all add: ensure_process_def)
  then show ?thesis
    using Some inv later_refl [of s] unfolding tree_inv_def by blast
qed

lemma sys_waitpid_tree:
  assumes inv: "tree_inv s" and w: "sys_waitpid p a0 a1 a2 s = return (r, s')" and p: "p < length (objects s)"
  shows "tree_inv s' \<and> later s s'"
proof -
  have "s' = s \<or> (\<exists>c. find_child_locked p (to_int a0) s = Some c \<and> s' = update_proc c (\<lambda>proc. proc\<lparr>waited := True\<rparr>) s)"
    using w by (auto simp: sys_waitpid_def bind_run_return Let_def split: if_splits option.splits)
  then show ?thesis
  proof
    assume "\<exists>c. find_child_locked p (to_int a0) s = Some c \<and> s' = update_proc c (\<lambda>proc. proc\<lparr>waited := True\<rparr>) s"
    then obtain c where s': "s' = update_proc c (\<lambda>proc. proc\<lparr>waited := True\<rparr>) s"
      by blast
    have nth: "pid (objects s' ! q) = pid (objects s ! q) \<and> parent (objects s' ! q) = parent (objects s ! q) \<and>
        children (objects s' ! q) = children (objects s ! q) \<and> (waited (objects s ! q) \<longrightarrow> waited (objects s' ! q))" for q
      by (cases "c < length (objects s)"; cases "q = c") (simp_all add: s' update_proc_def list_update_beyond)
    have rest: "length (objects s') = length (objects s)" "next_pid s' = next_pid s" "current_process s' = current_process s"
      by (simp_all add: s' update_proc_def)
    show ?thesis
      using inv nth by (simp add: tree_inv_def later_def rest)
  qed (use inv later_refl in simp)
qed

section \<open>Steps of the kernel\<close>

text \<open>
  The processes interleave at their calls: the current one makes a call that comes back to the dispatcher, a
  call that waited is tried again, or the processor goes to another thread with its own address space.
\<close>

inductive kernel_step :: "sys \<Rightarrow> sys \<Rightarrow> bool" where
  call: "syscallHandler frame s = return (r, s') \<Longrightarrow> kernel_step s s'"
| resume: "sys_resume w s = return (r, s') \<Longrightarrow> kernel_step s s'"
| switch: "(\<forall>p. q = Some p \<longrightarrow> p < length (objects s)) \<Longrightarrow> kernel_step s (s\<lparr>core := k, current_process := q\<rparr>)"

lemma handler_tree:
  assumes inv: "tree_inv s" and h: "syscallHandler frame s = return (r, s')"
  shows "tree_inv s' \<and> later s s'"
proof -
  obtain p s1 where e: "ensure_process s = return (p, s1)"
    using h by (auto simp: syscallHandler_def bind_run_return)
  note E = ensure_process_tree [OF inv e]
  have "same_family s1 s' \<or> sys_fork p frame s1 = Inr (rax frame, s') \<or> (\<exists>v. sys_fork p frame s1 = Inr (v, s')) \<or>
      sys_waitpid p (rdi frame) (rsi frame) (rdx frame) s1 = return (r, s')"
    using h e
    by (auto simp: syscallHandler_def bind_run_return returning_def Let_def sys_semget_def sys_semctl_def
        split: if_splits prod.splits dest: sys_read_family sys_write_family sys_open_family sys_close_family
          sys_lseek_family sys_brk_family sys_exit_family sys_semop_family)
  then have "tree_inv s' \<and> later s1 s'"
    using E same_family_keeps [of s1 s'] sys_fork_tree [of s1 p frame _ s'] sys_waitpid_tree [of s1 p _ _ _ r s'] by blast
  then show ?thesis
    using E later_trans by blast
qed

lemma resume_tree: "sys_resume w s = return (r, s') \<Longrightarrow> same_family s s'"
  by (auto simp: sys_resume_def split: sys_result.splits option.splits dest: finish_waitpid_family try_semop_family)

lemma step_tree: "kernel_step s s' \<Longrightarrow> tree_inv s \<Longrightarrow> tree_inv s' \<and> later s s'"
proof (induction rule: kernel_step.induct)
  case (resume w s r s')
  then show ?case
    using same_family_keeps [OF resume_tree] by blast
next
  case (switch q s k)
  then show ?case
    by (simp add: tree_inv_def later_def)
qed (blast dest: handler_tree)

lemma steps_tree:
  assumes "kernel_step\<^sup>*\<^sup>* s s'" and "tree_inv s"
  shows "tree_inv s' \<and> later s s'"
  using assms
proof induction
  case (step s1 s2)
  then show ?case
    using step_tree [of s1 s2] later_trans [of s s1 s2] by blast
qed (simp add: later_refl)

text \<open>
  C10. A child is waited for at most once. In a well-formed tree a \<open>waitpid\<close> that starts to wait waits for
  a child of the caller with the pid it asked for. From then on, whatever calls, resumptions and switches
  follow, the tree stays well-formed, no \<open>waitpid\<close> of any process starts to wait for this child again, and
  the caller that asks for the same pid once more gets -1.
\<close>

theorem child_reaped_once:
  assumes inv: "tree_inv s" and p: "p < length (objects s)" and w: "sys_waitpid p a0 a1 a2 s = return (Waits_exit c r st, s1)"
    and steps: "kernel_step\<^sup>*\<^sup>* s1 s2"
  shows "parent (objects s ! c) = Some p \<and> pid (objects s ! c) = to_int a0 \<and> tree_inv s2 \<and>
    (\<forall>q b0 b1 b2 r' st' s3. sys_waitpid q b0 b1 b2 s2 \<noteq> return (Waits_exit c r' st', s3)) \<and>
    (\<forall>b1 b2 w s3. sys_waitpid p a0 b1 b2 s2 = return (w, s3) \<longrightarrow> w = Returns (- 1) \<and> s3 = s2)"
proof -
  have f: "find_child_locked p (to_int a0) s = Some c" and s1: "s1 = update_proc c (\<lambda>proc. proc\<lparr>waited := True\<rparr>) s"
    using w by (auto simp: sys_waitpid_def bind_run_return Let_def split: if_splits option.splits)
  have c: "c \<in> set (children (objects s ! p))" "pid (objects s ! c) = to_int a0"
    using f by (auto simp: find_child_locked_def find_Some_iff)
  then have cl: "c < length (objects s)" "parent (objects s ! c) = Some p"
    using inv p unfolding tree_inv_def by blast+
  note T = sys_waitpid_tree [OF inv w p]
  have L: "tree_inv s2" "later s1 s2"
    using steps_tree [OF steps] T by blast+
  have len: "length (objects s1) = length (objects s)"
    by (simp add: s1)
  have c1: "c < length (objects s1)" "waited (objects s1 ! c)"
    using cl by (simp_all add: s1)
  have c2: "c < length (objects s2)" "waited (objects s2 ! c)" "parent (objects s2 ! c) = Some p" "pid (objects s2 ! c) = to_int a0"
    using laterD [OF L(2) c1(1)] laterD [OF _ cl(1), of s1] T c1 c cl by simp_all
  have p2: "p < length (objects s2)"
    using L(2) p len by (simp add: later_def)
  have never: "sys_waitpid q b0 b1 b2 s2 \<noteq> return (Waits_exit c r' st', s3)" for q b0 b1 b2 r' st' s3
    using c2(2) by (auto simp: sys_waitpid_def bind_run_return Let_def split: if_splits option.splits)
  have same: "d = c" if "find_child_locked p (to_int a0) s2 = Some d" for d
  proof -
    have d: "d \<in> set (children (objects s2 ! p))" "pid (objects s2 ! d) = to_int a0"
      using that by (auto simp: find_child_locked_def find_Some_iff)
    then have "d < length (objects s2)" "parent (objects s2 ! d) = Some p"
      using L(1) p2 unfolding tree_inv_def by blast+
    then show ?thesis
      using L(1) c2 d(2) unfolding tree_inv_def by (metis option.distinct(1))
  qed
  have "w' = Returns (- 1) \<and> s3 = s2" if "sys_waitpid p a0 b1 b2 s2 = return (w', s3)" for b1 b2 w' s3
    using that same c2(2) by (auto simp: sys_waitpid_def bind_run_return Let_def split: if_splits option.splits)
  then show ?thesis
    using cl c L never by blast
qed

section \<open>Exit\<close>

lemma free_vmes_ok:
  assumes "wf_user root m" and "chain lo vs" and "user_regions vs"
  shows "\<exists>m'. free_vmes root vs m = Some (Inr m')"
  using assms
proof (induction vs arbitrary: lo m)
  case (Cons v vs)
  have v: "unat (vme_start v) mod 4096 = 0" "unat (vme_end v) mod 4096 = 0" "vme_start v \<le> vme_end v" "unat (vme_end v) \<le> 2 ^ 47"
    using Cons.prems by (auto simp: user_regions_def intro: less_imp_le)
  obtain m1 where "unmap_pages root (vme_start v) (vme_end v) m = Some (Inr m1)" "wf_user root m1"
    using unmap_range_ok [OF Cons.prems(1) v] unfolding unmapped_def by blast
  then show ?case
    using Cons.IH [of m1 "vme_end v"] Cons.prems by (auto simp: free_mapped_frames_def user_regions_def)
qed simp

lemma fini_thread_ok: "wf_vm k \<Longrightarrow> \<exists>k'. fini_thread k = return k'"
  using free_vmes_ok [of "cr3 k" "mem k" PRIVATE_BASE "vmes k"] wf_vmD [of k]
  by (auto simp: fini_thread_def Let_def return_def)

lemma exit_code_bytes: "le_bytes 4 (unat (ucast (a0 AND 0xFF :: u64) * 256 :: u32)) = [0, ucast a0, 0, 0]"
proof -
  let ?n = "unat (a0 AND 0xFF)"
  have "a0 AND 0xFF = take_bit 8 a0"
    by (simp add: take_bit_eq_mask mask_eq_exp_minus_1)
  then have "?n = unat a0 mod 256"
    by (simp add: take_bit_eq_mod unat_mod)
  then have n: "?n < 256" "unat (ucast a0 :: u8) = ?n"
    by (simp_all add: unsigned_ucast_eq take_bit_eq_mod)
  then have "unat (ucast (a0 AND 0xFF) * 256 :: u32) = ?n * 256"
    by (simp add: unat_word_ariths unsigned_ucast_eq take_bit_eq_mod)
  moreover have "(word_of_nat ?n :: u8) = ucast a0"
    using n(2) by (metis of_nat_unat ucast_id)
  moreover have "le_bytes 4 (x * 256) = [0, word_of_nat x, 0, 0]" if "x < 256" for x
  proof -
    have "[0..<4] = [0, 1, 2, 3]"
      by (simp add: upt_rec)
    moreover have "(256 :: u8) = 0"
      by simp
    then have "word_of_nat x * (256 :: u8) = 0"
      by (simp only: mult_zero_right)
    ultimately show ?thesis
      using that by (simp add: le_bytes_def)
  qed
  ultimately show ?thesis
    using n by (simp only:)
qed

text \<open>
  C11. Exit and wait: while a child runs, the wait of its parent stays where it is. When the child exits,
  the call returns with both its futures set, and in any well-formed address space in which the four bytes at
  the status address can be written, the wait then stores there 0, the low byte of the exit code, 0, 0,
  changes nothing else, and returns the pid it was made with.
\<close>

theorem wait_returns_status:
  assumes cur: "current_process s = Some c" "c < length (objects s)" and run: "\<not> fut_ready (stopped (objects s ! c))"
    and wf: "wf_vm (core s)" and st: "st \<noteq> 0" "unat st + 4 \<le> 2 ^ 47"
  shows "finish_waitpid c r st s = return (Waits_exit c r st, s) \<and>
    (\<exists>s1. sys_exit c a0 s = return s1 \<and>
      (\<forall>k q. wf_core (s1\<lparr>core := k, current_process := q\<rparr>) \<and> readable st 4 (s1\<lparr>core := k, current_process := q\<rparr>) \<longrightarrow>
        (\<exists>s2. finish_waitpid c r st (s1\<lparr>core := k, current_process := q\<rparr>) = return (Returns r, s2) \<and>
          wrote st [0, ucast a0, 0, 0] (s1\<lparr>core := k, current_process := q\<rparr>) s2)))"
proof (intro conjI)
  show "finish_waitpid c r st s = return (Waits_exit c r st, s)"
    using run by (simp add: finish_waitpid_def)
  obtain k' where k': "fini_thread (core s) = return k'"
    using fini_thread_ok [OF wf] by blast
  let ?f = "\<lambda>proc. proc\<lparr>exit_status := \<lparr>fut_ready = True, fut_value = uint (a0 AND 0xFF) * 256\<rparr>\<rparr>"
  define s1 where "s1 = syscall_process_stopped ((update_proc c ?f s)\<lparr>core := k'\<rparr>)"
  have run1: "sys_exit c a0 s = return s1"
    using k' by (simp add: sys_exit_def Let_def s1_def bind_run_return)
  have fut: "exit_status (objects s1 ! c) = \<lparr>fut_ready = True, fut_value = uint (a0 AND 0xFF) * 256\<rparr>"
    "fut_ready (stopped (objects s1 ! c))"
    using cur by (simp_all add: s1_def syscall_process_stopped_def update_proc_def)
  have "\<exists>s2. finish_waitpid c r st (s1\<lparr>core := k, current_process := q\<rparr>) = return (Returns r, s2) \<and>
      wrote st [0, ucast a0, 0, 0] (s1\<lparr>core := k, current_process := q\<rparr>) s2"
    if ok: "wf_core (s1\<lparr>core := k, current_process := q\<rparr>)" "readable st 4 (s1\<lparr>core := k, current_process := q\<rparr>)" for k q
  proof -
    obtain s2 where "store_user st [0, ucast a0, 0, 0] (s1\<lparr>core := k, current_process := q\<rparr>) = Inr s2"
        "wrote st [0, ucast a0, 0, 0] (s1\<lparr>core := k, current_process := q\<rparr>) s2"
      by (rule store_user_ok [OF ok(1) _ ok(2)]) (use st that in auto)
    then show ?thesis
      using fut st by (auto simp: finish_waitpid_def Let_def exit_code_bytes bind_run_return)
  qed
  then show "\<exists>s1. sys_exit c a0 s = return s1 \<and>
      (\<forall>k q. wf_core (s1\<lparr>core := k, current_process := q\<rparr>) \<and> readable st 4 (s1\<lparr>core := k, current_process := q\<rparr>) \<longrightarrow>
        (\<exists>s2. finish_waitpid c r st (s1\<lparr>core := k, current_process := q\<rparr>) = return (Returns r, s2) \<and>
          wrote st [0, ucast a0, 0, 0] (s1\<lparr>core := k, current_process := q\<rparr>) s2))"
    using run1 by blast
qed

section \<open>A family of two\<close>

text \<open>A mother with one child that has pid 2; the given one of them runs.\<close>

definition demo_family :: "vm \<Rightarrow> nat \<Rightarrow> sys" where
  "demo_family k q = (snd (fork_process 0 (demo_sys k 0)))\<lparr>current_process := Some q\<rparr>"

lemma demo_family_tree: "q < 2 \<Longrightarrow> tree_inv (demo_family k q)" "length (objects (demo_family k q)) = 2"
  "children (objects (demo_family k q) ! 0) = [1]" "pid (objects (demo_family k q) ! 1) = 2" "\<not> waited (objects (demo_family k q) ! 1)"
  "\<not> fut_ready (stopped (objects (demo_family k q) ! 1))" "core (demo_family k q) = k" "current_process (demo_family k q) = Some q"
proof -
  have "tree_inv (demo_sys k 0)"
    by (simp add: tree_inv_def demo_sys_def demo_proc_def set_fd_def new_process_def)
  then have "tree_inv (snd (fork_process 0 (demo_sys k 0)))"
    using fork_process_tree [of "demo_sys k 0" 0] by (simp add: demo_sys_def prod_eq_iff)
  then show "q < 2 \<Longrightarrow> tree_inv (demo_family k q)"
    unfolding tree_inv_def demo_family_def
    by (simp add: fork_process_def Let_def demo_sys_def update_proc_def)
  show "length (objects (demo_family k q)) = 2" "children (objects (demo_family k q) ! 0) = [1]"
    "pid (objects (demo_family k q) ! 1) = 2" "\<not> waited (objects (demo_family k q) ! 1)"
    "\<not> fut_ready (stopped (objects (demo_family k q) ! 1))" "core (demo_family k q) = k" "current_process (demo_family k q) = Some q"
    by (simp_all add: demo_family_def fork_process_def Let_def demo_sys_def demo_proc_def set_fd_def new_process_def update_proc_def)
qed

theorem child_reaped_once_witness:
  "\<exists>k s1. sys_waitpid 0 2 0 0 (demo_family k 0) = return (Waits_exit 1 2 0, s1) \<and>
     sys_waitpid 0 2 0 0 (s1\<lparr>core := k, current_process := Some 1\<rparr>) = return (Returns (- 1), s1\<lparr>core := k, current_process := Some 1\<rparr>)"
proof -
  let ?k = "demo_vm []" and ?s1 = "update_proc 1 (\<lambda>proc. proc\<lparr>waited := True\<rparr>) (demo_family (demo_vm []) 0)"
  let ?s2 = "?s1\<lparr>core := demo_vm [], current_process := Some 1\<rparr>"
  note F = demo_family_tree [where k = ?k]
  have fc: "find_child_locked 0 2 (demo_family ?k 0) = Some 1"
    using F by (simp add: find_child_locked_def)
  then have run: "sys_waitpid 0 2 0 0 (demo_family ?k 0) = return (Waits_exit 1 2 0, ?s1)"
    using F by (simp add: sys_waitpid_def to_int_small of_int64_def bind_run_return Let_def)
  have "kernel_step ?s1 ?s2"
    by (rule kernel_step.switch) (simp add: F)
  then have steps: "kernel_step\<^sup>*\<^sup>* ?s1 ?s2"
    by simp
  have "\<exists>w s3. sys_waitpid 0 2 0 0 ?s2 = return (w, s3)"
    by (auto simp: sys_waitpid_def bind_run_return Let_def to_int_small split: option.splits)
  then have "sys_waitpid 0 2 0 0 ?s2 = return (Returns (- 1), ?s2)"
    using child_reaped_once [OF _ _ run steps] F by auto
  with run show ?thesis
    by blast
qed

theorem wait_returns_status_witness:
  "\<exists>k s1 s2. sys_exit 1 7 (demo_family k 1) = return s1 \<and>
     finish_waitpid 1 2 5000 (s1\<lparr>core := k, current_process := Some 0\<rparr>) = return (Returns 2, s2) \<and> the_byte s2 5001 = Some 7"
proof -
  obtain k where k: "\<And>off. wf_core (demo_sys k off)"
      "\<And>off a n. 0 < n \<Longrightarrow> 4096 \<le> unat a \<Longrightarrow> unat a + unat n \<le> 8192 \<Longrightarrow> readable a n (demo_sys k off)"
    by (rule demo_core) (rule that)
  note F = demo_family_tree [where k = k]
  have wf: "wf_vm k"
    using k(1) [of 0] by (simp add: wf_core_def demo_sys_def)
  obtain s1 where s1: "sys_exit 1 7 (demo_family k 1) = return s1"
    "wf_core (s1\<lparr>core := k, current_process := Some 0\<rparr>) \<and> readable 5000 4 (s1\<lparr>core := k, current_process := Some 0\<rparr>) \<Longrightarrow>
      \<exists>s2. finish_waitpid 1 2 5000 (s1\<lparr>core := k, current_process := Some 0\<rparr>) = return (Returns 2, s2) \<and>
        wrote 5000 [0, 7, 0, 0] (s1\<lparr>core := k, current_process := Some 0\<rparr>) s2"
    using wait_returns_status [of "demo_family k 1" 1 5000 2 7] F wf by auto
  have "wf_core (s1\<lparr>core := k, current_process := Some 0\<rparr>)"
    using k(1) [of 0] by (simp add: wf_core_def demo_sys_def)
  moreover have "readable 5000 4 (s1\<lparr>core := k, current_process := Some 0\<rparr>)"
    using k(2) [of 4 5000 0] by (simp add: readable_def demo_sys_def)
  ultimately obtain s2 where s2: "finish_waitpid 1 2 5000 (s1\<lparr>core := k, current_process := Some 0\<rparr>) = return (Returns 2, s2)"
      "wrote 5000 [0, 7, 0, 0] (s1\<lparr>core := k, current_process := Some 0\<rparr>) s2"
    using s1(2) by blast
  have "the_byte s2 5001 = Some 7"
    using s2(2) by (simp add: wrote_def lower_address_def)
  then show ?thesis
    using s1(1) s2(1) by blast
qed

end
