(* ===== verification/Shared.thy ===== *)
theory Shared
  imports Prelude "HOL-Library.Multiset"
begin

text \<open>
  The reference-counted pointers of \<^verbatim>\<open>shared.h\<close>: the control block (\<open>Middle\<close>) behind strong and weak
  references, and the three kinds of handle. An object is the number of its allocation, so is a control
  block; neither number is used again, so that a use after a delete shows as a fault. The objects have no
  references inside, so that deleting one drops nothing else.
\<close>

section \<open>Control blocks\<close>

record Middle =
  ptr :: "nat option"
  strong_count :: u64
  weak_count :: u64

text \<open>The control blocks (\<open>None\<close> when deleted) and which objects have not been deleted.\<close>

record refs =
  middles :: "Middle option list"
  alive :: "bool list"

definition middle_at :: "refs \<Rightarrow> nat \<Rightarrow> Middle option" where
  "middle_at s m = (if m < length (middles s) then middles s ! m else None)"

definition get_middle :: "nat \<Rightarrow> refs \<Rightarrow> Middle outcome" where
  "get_middle m s = (case middle_at s m of None \<Rightarrow> Inl Undefined | Some mid \<Rightarrow> Inr mid)"

definition put_middle :: "nat \<Rightarrow> Middle option \<Rightarrow> refs \<Rightarrow> refs" where
  "put_middle m mid s = s\<lparr>middles := (middles s)[m := mid]\<rparr>"

definition new_object :: "refs \<Rightarrow> nat \<times> refs" where
  "new_object s = (length (alive s), s\<lparr>alive := alive s @ [True]\<rparr>)"

definition delete_object :: "nat option \<Rightarrow> refs \<Rightarrow> refs outcome" where
  "delete_object po s =
     (case po of
        None \<Rightarrow> Inr s
      | Some p \<Rightarrow> if p < length (alive s) \<and> alive s ! p then Inr (s\<lparr>alive := (alive s)[p := False]\<rparr>) else Inl Undefined)"

definition new_middle :: "nat \<Rightarrow> refs \<Rightarrow> nat \<times> refs" where
  "new_middle p s =
     (length (middles s), s\<lparr>middles := middles s @ [Some \<lparr>ptr = Some p, strong_count = 1, weak_count = 0\<rparr>]\<rparr>)"

definition add_strong :: "nat option \<Rightarrow> refs \<Rightarrow> (nat option \<times> refs) outcome" where
  "add_strong mo s =
     (case mo of
        None \<Rightarrow> Inr (None, s)
      | Some m \<Rightarrow>
          bind_outcome (get_middle m s) (\<lambda>mid.
            if strong_count mid > 0 then Inr (Some m, put_middle m (Some (mid\<lparr>strong_count := strong_count mid + 1\<rparr>)) s)
            else Inr (None, s)))"

definition remove_strong :: "nat option \<Rightarrow> refs \<Rightarrow> refs outcome" where
  "remove_strong mo s =
     (case mo of
        None \<Rightarrow> Inr s
      | Some m \<Rightarrow>
          bind_outcome (get_middle m s) (\<lambda>mid.
          bind_outcome (assert_that (strong_count mid > 0) ''m->strong_count > 0'') (\<lambda>_.
            let mid1 = mid\<lparr>strong_count := strong_count mid - 1\<rparr>;
                last_one = strong_count mid1 = 0;
                del_ptr = (if last_one then ptr mid1 else None);
                delete_m = (last_one \<and> weak_count mid1 = 0);
                mid2 = (if last_one then mid1\<lparr>ptr := None\<rparr> else mid1)
            in bind_outcome (delete_object del_ptr (put_middle m (Some mid2) s)) (\<lambda>s1.
                 Inr (if delete_m then put_middle m None s1 else s1)))))"

definition add_weak :: "nat option \<Rightarrow> refs \<Rightarrow> (nat option \<times> refs) outcome" where
  "add_weak mo s =
     (case mo of
        None \<Rightarrow> Inr (None, s)
      | Some m \<Rightarrow>
          bind_outcome (get_middle m s) (\<lambda>mid.
            if ptr mid = None then Inr (None, s)
            else Inr (Some m, put_middle m (Some (mid\<lparr>weak_count := weak_count mid + 1\<rparr>)) s)))"

definition remove_weak :: "nat option \<Rightarrow> refs \<Rightarrow> refs outcome" where
  "remove_weak mo s =
     (case mo of
        None \<Rightarrow> Inr s
      | Some m \<Rightarrow>
          bind_outcome (get_middle m s) (\<lambda>mid.
          bind_outcome (assert_that (weak_count mid > 0) ''m->weak_count > 0'') (\<lambda>_.
            let mid1 = mid\<lparr>weak_count := weak_count mid - 1\<rparr>;
                delete_m = (weak_count mid1 = 0 \<and> strong_count mid1 = 0)
            in Inr (put_middle m (if delete_m then None else Some mid1) s))))"

section \<open>Handles\<close>

text \<open>A strong and a weak handle point to a control block, a unique one to its object; \<open>Gone\<close> is one that was destroyed.\<close>

datatype handle = StrongRef "nat option" | WeakRef "nat option" | UniqueRef "nat option" | Gone

definition mm :: "nat option \<Rightarrow> refs \<Rightarrow> nat option \<times> refs" where
  "mm po s =
     (case po of
        None \<Rightarrow> (None, s)
      | Some p \<Rightarrow> (let (m, s1) = new_middle p s in (Some m, s1)))"

text \<open>The constructors from another handle: what the new handle holds, what the other one is afterwards.\<close>

fun StrongRef_from :: "handle \<Rightarrow> refs \<Rightarrow> (nat option \<times> handle \<times> refs) outcome" where
  "StrongRef_from (StrongRef m) s = bind_outcome (add_strong m s) (\<lambda>(r, s1). Inr (r, StrongRef m, s1))"
| "StrongRef_from (WeakRef m) s = bind_outcome (add_strong m s) (\<lambda>(r, s1). Inr (r, WeakRef m, s1))"
| "StrongRef_from (UniqueRef p) s = (let (m, s1) = mm p s in Inr (m, UniqueRef None, s1))"
| "StrongRef_from Gone s = Inl Undefined"

fun WeakRef_from :: "handle \<Rightarrow> refs \<Rightarrow> (nat option \<times> handle \<times> refs) outcome" where
  "WeakRef_from (WeakRef m) s = bind_outcome (add_weak m s) (\<lambda>(r, s1). Inr (r, WeakRef m, s1))"
| "WeakRef_from (StrongRef m) s = bind_outcome (add_weak m s) (\<lambda>(r, s1). Inr (r, StrongRef m, s1))"
| "WeakRef_from (UniqueRef p) s = bind_outcome (delete_object p s) (\<lambda>s1. Inr (None, UniqueRef None, s1))"
| "WeakRef_from Gone s = Inl Undefined"

fun UniqueRef_from :: "handle \<Rightarrow> refs \<Rightarrow> (nat option \<times> handle \<times> refs) outcome" where
  "UniqueRef_from (UniqueRef p) s = Inr (p, UniqueRef None, s)"
| "UniqueRef_from (StrongRef m) s = Inr (None, StrongRef m, s)"
| "UniqueRef_from (WeakRef m) s = Inr (None, WeakRef m, s)"
| "UniqueRef_from Gone s = Inl Undefined"

text \<open>The constructors from a plain pointer; the one of a weak handle deletes the object.\<close>

definition WeakRef_of_ptr :: "nat option \<Rightarrow> refs \<Rightarrow> (nat option \<times> refs) outcome" where
  "WeakRef_of_ptr p s = bind_outcome (delete_object p s) (\<lambda>s1. Inr (None, s1))"

text \<open>The assignments from another handle.\<close>

fun StrongRef_assign :: "nat option \<Rightarrow> handle \<Rightarrow> refs \<Rightarrow> (nat option \<times> handle \<times> refs) outcome" where
  "StrongRef_assign middle (WeakRef m) s =
     (if middle \<noteq> m then
        bind_outcome (remove_strong middle s) (\<lambda>s1. bind_outcome (add_strong m s1) (\<lambda>(r, s2). Inr (r, WeakRef m, s2)))
      else Inr (middle, WeakRef m, s))"
| "StrongRef_assign middle (UniqueRef p) s =
     bind_outcome (remove_strong middle s) (\<lambda>s1. let (m, s2) = mm p s1 in Inr (m, UniqueRef None, s2))"
| "StrongRef_assign middle (StrongRef m) s =
     (if middle \<noteq> m then
        bind_outcome (remove_strong middle s) (\<lambda>s1. bind_outcome (add_strong m s1) (\<lambda>(r, s2). Inr (r, StrongRef m, s2)))
      else Inr (middle, StrongRef m, s))"
| "StrongRef_assign middle Gone s = Inl Undefined"

fun WeakRef_assign :: "nat option \<Rightarrow> handle \<Rightarrow> refs \<Rightarrow> (nat option \<times> handle \<times> refs) outcome" where
  "WeakRef_assign middle (WeakRef m) s =
     (if middle \<noteq> m then
        bind_outcome (remove_weak middle s) (\<lambda>s1. bind_outcome (add_weak m s1) (\<lambda>(r, s2). Inr (r, WeakRef m, s2)))
      else Inr (middle, WeakRef m, s))"
| "WeakRef_assign middle (UniqueRef p) s =
     bind_outcome (remove_weak middle s) (\<lambda>s1. bind_outcome (delete_object p s1) (\<lambda>s2. Inr (None, UniqueRef None, s2)))"
| "WeakRef_assign middle (StrongRef m) s =
     (if middle \<noteq> m then
        bind_outcome (remove_weak middle s) (\<lambda>s1. bind_outcome (add_weak m s1) (\<lambda>(r, s2). Inr (r, StrongRef m, s2)))
      else Inr (middle, StrongRef m, s))"
| "WeakRef_assign middle Gone s = Inl Undefined"

definition UniqueRef_replace :: "nat option \<Rightarrow> nat option \<Rightarrow> refs \<Rightarrow> (nat option \<times> refs) outcome" where
  "UniqueRef_replace old_ptr new_ptr s = bind_outcome (delete_object old_ptr s) (\<lambda>s1. Inr (new_ptr, s1))"

text \<open>A unique handle is assigned from unique ones only; the other assignments are deleted functions.\<close>

fun UniqueRef_assign :: "nat option \<Rightarrow> handle \<Rightarrow> refs \<Rightarrow> (nat option \<times> handle \<times> refs) outcome" where
  "UniqueRef_assign old_ptr (UniqueRef p) s =
     (if old_ptr \<noteq> p then bind_outcome (UniqueRef_replace old_ptr p s) (\<lambda>(r, s1). Inr (r, UniqueRef None, s1))
      else Inr (old_ptr, UniqueRef p, s))"
| "UniqueRef_assign old_ptr _ s = Inl Undefined"

text \<open>Destructors and assignments of the null pointer.\<close>

fun drop_handle :: "handle \<Rightarrow> refs \<Rightarrow> refs outcome" where
  "drop_handle (StrongRef m) s = remove_strong m s"
| "drop_handle (WeakRef m) s = remove_weak m s"
| "drop_handle (UniqueRef p) s = delete_object p s"
| "drop_handle Gone s = Inl Undefined"

definition StrongRef_clear :: "nat option \<Rightarrow> refs \<Rightarrow> (nat option \<times> refs) outcome" where
  "StrongRef_clear middle s = bind_outcome (remove_strong middle s) (\<lambda>s1. Inr (None, s1))"

definition WeakRef_clear :: "nat option \<Rightarrow> refs \<Rightarrow> (nat option \<times> refs) outcome" where
  "WeakRef_clear middle s = bind_outcome (remove_weak middle s) (\<lambda>s1. Inr (None, s1))"

text \<open>Dereferencing, and comparison with the null pointer.\<close>

definition StrongRef_deref :: "nat option \<Rightarrow> refs \<Rightarrow> nat outcome" where
  "StrongRef_deref mo s =
     (case mo of
        None \<Rightarrow> Inl (Panic ''middle != nullptr'')
      | Some m \<Rightarrow>
          bind_outcome (get_middle m s) (\<lambda>mid.
            case ptr mid of None \<Rightarrow> Inl (Panic ''middle->ptr != nullptr'') | Some p \<Rightarrow> Inr p))"

definition StrongRef_is_null :: "nat option \<Rightarrow> refs \<Rightarrow> bool outcome" where
  "StrongRef_is_null mo s =
     (case mo of None \<Rightarrow> Inr True | Some m \<Rightarrow> bind_outcome (get_middle m s) (\<lambda>mid. Inr (ptr mid = None)))"

definition UniqueRef_deref :: "nat option \<Rightarrow> nat outcome" where
  "UniqueRef_deref po = (case po of None \<Rightarrow> Inl (Panic ''ptr != nullptr'') | Some p \<Rightarrow> Inr p)"

end
