(* ===== verification/Shared_Spec.thy ===== *)
theory Shared_Spec
  imports Shared
begin

text \<open>
  Programs over the three kinds of handle, and what they can rely on: no use of anything deleted, no second
  delete, no leak.
\<close>

section \<open>Programs\<close>

text \<open>The declarations, assignments and ends of scope of a program; a handle is named by the position of its declaration.\<close>

datatype kind = Strong | Weak | Unique

datatype ref_op =
    Make kind
  | Null kind
  | Construct kind nat
  | Assign nat nat
  | Assign_null nat
  | Destroy nat

fun has_kind :: "kind \<Rightarrow> handle \<Rightarrow> bool" where
  "has_kind Strong h = (\<exists>m. h = StrongRef m)"
| "has_kind Weak h = (\<exists>m. h = WeakRef m)"
| "has_kind Unique h = (\<exists>p. h = UniqueRef p)"

text \<open>What the compiler accepts: handles in scope, and no assignment of a counted handle to a unique one.\<close>

definition in_scope :: "handle list \<Rightarrow> nat \<Rightarrow> bool" where
  "in_scope hs i \<longleftrightarrow> i < length hs \<and> hs ! i \<noteq> Gone"

fun compiles :: "ref_op \<Rightarrow> handle list \<Rightarrow> bool" where
  "compiles (Make k) hs = True"
| "compiles (Null k) hs = True"
| "compiles (Construct k j) hs = in_scope hs j"
| "compiles (Assign i j) hs =
     (in_scope hs i \<and> in_scope hs j \<and> (case hs ! i of UniqueRef _ \<Rightarrow> (case hs ! j of UniqueRef _ \<Rightarrow> True | _ \<Rightarrow> False) | _ \<Rightarrow> True))"
| "compiles (Assign_null i) hs = in_scope hs i"
| "compiles (Destroy i) hs = in_scope hs i"

fun null_handle :: "kind \<Rightarrow> handle" where
  "null_handle Strong = StrongRef None"
| "null_handle Weak = WeakRef None"
| "null_handle Unique = UniqueRef None"

text \<open>\<open>make\<close>: a new object and the constructor from its pointer.\<close>

fun make_handle :: "kind \<Rightarrow> refs \<Rightarrow> (handle \<times> refs) outcome" where
  "make_handle Strong s = (let (p, s1) = new_object s; (m, s2) = mm (Some p) s1 in Inr (StrongRef m, s2))"
| "make_handle Weak s = (let (p, s1) = new_object s in bind_outcome (WeakRef_of_ptr (Some p) s1) (\<lambda>(m, s2). Inr (WeakRef m, s2)))"
| "make_handle Unique s = (let (p, s1) = new_object s in Inr (UniqueRef (Some p), s1))"

fun construct :: "kind \<Rightarrow> handle \<Rightarrow> refs \<Rightarrow> (handle \<times> handle \<times> refs) outcome" where
  "construct Strong h s = bind_outcome (StrongRef_from h s) (\<lambda>(m, h1, s1). Inr (StrongRef m, h1, s1))"
| "construct Weak h s = bind_outcome (WeakRef_from h s) (\<lambda>(m, h1, s1). Inr (WeakRef m, h1, s1))"
| "construct Unique h s = bind_outcome (UniqueRef_from h s) (\<lambda>(p, h1, s1). Inr (UniqueRef p, h1, s1))"

fun assign :: "handle \<Rightarrow> handle \<Rightarrow> refs \<Rightarrow> (handle \<times> handle \<times> refs) outcome" where
  "assign (StrongRef m) h s = bind_outcome (StrongRef_assign m h s) (\<lambda>(m1, h1, s1). Inr (StrongRef m1, h1, s1))"
| "assign (WeakRef m) h s = bind_outcome (WeakRef_assign m h s) (\<lambda>(m1, h1, s1). Inr (WeakRef m1, h1, s1))"
| "assign (UniqueRef p) h s = bind_outcome (UniqueRef_assign p h s) (\<lambda>(p1, h1, s1). Inr (UniqueRef p1, h1, s1))"
| "assign Gone h s = Inl Undefined"

fun clear_handle :: "handle \<Rightarrow> refs \<Rightarrow> (handle \<times> refs) outcome" where
  "clear_handle (StrongRef m) s = bind_outcome (StrongRef_clear m s) (\<lambda>(m1, s1). Inr (StrongRef m1, s1))"
| "clear_handle (WeakRef m) s = bind_outcome (WeakRef_clear m s) (\<lambda>(m1, s1). Inr (WeakRef m1, s1))"
| "clear_handle (UniqueRef p) s = bind_outcome (UniqueRef_replace p None s) (\<lambda>(p1, s1). Inr (UniqueRef p1, s1))"
| "clear_handle Gone s = Inl Undefined"

fun run_op :: "ref_op \<Rightarrow> handle list \<times> refs \<Rightarrow> (handle list \<times> refs) outcome" where
  "run_op (Make k) (hs, s) = bind_outcome (make_handle k s) (\<lambda>(h, s1). Inr (hs @ [h], s1))"
| "run_op (Null k) (hs, s) = Inr (hs @ [null_handle k], s)"
| "run_op (Construct k j) (hs, s) = bind_outcome (construct k (hs ! j) s) (\<lambda>(h, src, s1). Inr (hs[j := src] @ [h], s1))"
| "run_op (Assign i j) (hs, s) = bind_outcome (assign (hs ! i) (hs ! j) s) (\<lambda>(h, src, s1). Inr (hs[j := src, i := h], s1))"
| "run_op (Assign_null i) (hs, s) = bind_outcome (clear_handle (hs ! i) s) (\<lambda>(h, s1). Inr (hs[i := h], s1))"
| "run_op (Destroy i) (hs, s) = bind_outcome (drop_handle (hs ! i) s) (\<lambda>s1. Inr (hs[i := Gone], s1))"

text \<open>A whole program; operations that do not compile are not part of it.\<close>

fun run_ops :: "ref_op list \<Rightarrow> handle list \<times> refs \<Rightarrow> (handle list \<times> refs) outcome" where
  "run_ops [] st = Inr st"
| "run_ops (op # ops) st = (if compiles op (fst st) then bind_outcome (run_op op st) (run_ops ops) else run_ops ops st)"

definition no_refs :: "handle list \<times> refs" where
  "no_refs = ([], \<lparr>middles = [], alive = []\<rparr>)"

section \<open>The invariant\<close>

definition target :: "Middle option \<Rightarrow> nat option" where
  "target mid = Option.bind mid ptr"

definition tally :: "handle multiset \<Rightarrow> nat \<Rightarrow> Middle option \<Rightarrow> bool" where
  "tally H m mo \<longleftrightarrow>
     (case mo of
        None \<Rightarrow> StrongRef (Some m) \<notin># H \<and> WeakRef (Some m) \<notin># H
      | Some mid \<Rightarrow>
          unat (strong_count mid) = count H (StrongRef (Some m)) \<and> unat (weak_count mid) = count H (WeakRef (Some m)) \<and>
          (StrongRef (Some m) \<in># H \<or> WeakRef (Some m) \<in># H) \<and> (ptr mid = None \<longleftrightarrow> StrongRef (Some m) \<notin># H))"

definition counted :: "refs \<Rightarrow> handle multiset \<Rightarrow> nat \<Rightarrow> bool" where
  "counted s H m \<longleftrightarrow> tally H m (middle_at s m)"

definition owners :: "refs \<Rightarrow> handle multiset \<Rightarrow> nat \<Rightarrow> nat" where
  "owners s H p = count_list (map target (middles s)) (Some p) + count H (UniqueRef (Some p))"

definition is_alive :: "refs \<Rightarrow> nat \<Rightarrow> bool" where
  "is_alive s p \<longleftrightarrow> p < length (alive s) \<and> alive s ! p"

definition refs_inv :: "refs \<Rightarrow> handle multiset \<Rightarrow> bool" where
  "refs_inv s H \<longleftrightarrow> (\<forall>m. counted s H m) \<and> (\<forall>p. owners s H p = (if is_alive s p then 1 else 0))"

lemma count_list_update:
  "i < length xs \<Longrightarrow> count_list (xs[i := y]) x + (if xs ! i = x then 1 else 0) = count_list xs x + (if y = x then 1 else 0)"
proof (induction xs arbitrary: i)
  case (Cons a xs)
  then show ?case
    by (cases i) (auto simp: add.commute)
qed simp

text \<open>Replacing one control block.\<close>

lemma put_middle_at: "middle_at s m \<noteq> None \<Longrightarrow> middle_at (put_middle m mid s) k = (if k = m then mid else middle_at s k)"
  by (auto simp: middle_at_def put_middle_def split: if_splits)

lemma put_middle_alive [simp]: "alive (put_middle m mid s) = alive s" "is_alive (put_middle m mid s) p = is_alive s p"
  by (simp_all add: put_middle_def is_alive_def)

lemma middle_some: "middle_at s m = Some mid \<Longrightarrow> m < length (middles s) \<and> middles s ! m = Some mid"
  by (simp add: middle_at_def split: if_splits)

lemma refs_invD:
  assumes "refs_inv s H"
  shows "counted s H m" and "owners s H p = (if is_alive s p then 1 else 0)"
  using assms by (simp_all add: refs_inv_def)

lemma refs_inv_null [simp]:
  "refs_inv s (add_mset (StrongRef None) H) = refs_inv s H" "refs_inv s (add_mset (WeakRef None) H) = refs_inv s H"
  "refs_inv s (add_mset (UniqueRef None) H) = refs_inv s H" "refs_inv s (add_mset Gone H) = refs_inv s H"
proof -
  have "tally (add_mset h H) m mo = tally H m mo" "owners s (add_mset h H) p = owners s H p"
    if "h \<in> {StrongRef None, WeakRef None, UniqueRef None, Gone}" for h m mo p
    using that by (auto simp: tally_def owners_def split: option.split)
  then show "refs_inv s (add_mset (StrongRef None) H) = refs_inv s H" "refs_inv s (add_mset (WeakRef None) H) = refs_inv s H"
    "refs_inv s (add_mset (UniqueRef None) H) = refs_inv s H" "refs_inv s (add_mset Gone H) = refs_inv s H"
    by (simp_all add: refs_inv_def counted_def)
qed

lemma refs_inv_null_below [simp]: "refs_inv s (add_mset h (add_mset (UniqueRef None) H)) = refs_inv s (add_mset h H)"
  by (simp add: add_mset_commute [of h "UniqueRef None"])

lemma tally_unique [simp]: "tally (add_mset (UniqueRef p) H) m mo = tally H m mo"
  by (auto simp: tally_def split: option.split)

lemma middle_at_alive [simp]: "middle_at (s\<lparr>alive := a\<rparr>) m = middle_at s m"
  by (simp add: middle_at_def)

lemma count_bound: "Suc (size H) < 2 ^ 64 \<Longrightarrow> Suc (count H h) < 2 ^ 64"
  using count_le_size [of H h] by linarith

lemma unat_inc: "Suc (unat (w :: u64)) < 2 ^ 64 \<Longrightarrow> unat (w + 1) = Suc (unat w)"
  by (simp add: unat_word_ariths)

lemma unat_dec: "unat (w :: u64) = Suc n \<Longrightarrow> unat (w - 1) = n"
  by (metis diff_Suc_1 unat_eq_zero unat_minus_one nat.distinct(1))

text \<open>A change of one control block, with its object deleted if it is given up.\<close>

lemma change_middle:
  assumes inv: "refs_inv s H" and mid: "middle_at s m = Some mid" and s': "middles s' = (middles s)[m := mid']"
    and t: "target mid' = ptr mid \<or> target mid' = None" and al: "\<And>q. is_alive s' q = (is_alive s q \<and> (ptr mid = Some q \<longrightarrow> target mid' = Some q))"
    and same: "\<And>h. h \<noteq> StrongRef (Some m) \<Longrightarrow> h \<noteq> WeakRef (Some m) \<Longrightarrow> count H' h = count H h" and new: "tally H' m mid'"
  shows "refs_inv s' H'"
proof -
  have "middle_at s' k = (if k = m then mid' else middle_at s k)" for k
    using mid by (auto simp: middle_at_def s' split: if_splits)
  moreover have "tally H' k mo = tally H k mo" if "k \<noteq> m" for k mo
  proof -
    have "count H' (StrongRef (Some k)) = count H (StrongRef (Some k))" "count H' (WeakRef (Some k)) = count H (WeakRef (Some k))"
      using that same by simp_all
    then show ?thesis
      by (auto simp: tally_def count_greater_zero_iff [symmetric] simp del: count_greater_zero_iff split: option.split)
  qed
  ultimately have "counted s' H' k" for k
    using refs_invD(1) [OF inv, of k] new by (simp add: counted_def)
  moreover have "owners s' H' p = (if is_alive s' p then 1 else 0)" for p
  proof -
    have "owners s' H' p + (if ptr mid = Some p then 1 else 0) = owners s H p + (if target mid' = Some p then 1 else 0)"
      using middle_some [OF mid] count_list_update [of m "map target (middles s)" "target mid'" "Some p"] same
      by (simp add: owners_def s' map_update target_def)
    then show ?thesis
      using refs_invD(2) [OF inv, of p] t al [of p] by (auto split: if_splits)
  qed
  ultimately show ?thesis
    by (simp add: refs_inv_def)
qed

section \<open>The operations of a control block\<close>

definition referenced :: "nat option \<Rightarrow> handle multiset \<Rightarrow> bool" where
  "referenced mo H \<longleftrightarrow> (\<forall>m. mo = Some m \<longrightarrow> StrongRef mo \<in># H \<or> WeakRef mo \<in># H)"

lemma add_strong_ok:
  assumes inv: "refs_inv s H" and r: "referenced mo H" and n: "Suc (size H) < 2 ^ 64"
  shows "\<exists>s'. add_strong mo s = Inr (if StrongRef mo \<in># H then mo else None, s') \<and>
    refs_inv s' (add_mset (StrongRef (if StrongRef mo \<in># H then mo else None)) H) \<and>
    (StrongRef mo \<notin># H \<longrightarrow> s' = s)"
proof (cases mo)
  case None
  then show ?thesis
    using inv by (simp add: add_strong_def)
next
  case (Some m)
  obtain mid where mid: "middle_at s m = Some mid" and strong: "unat (strong_count mid) = count H (StrongRef (Some m))"
    and C: "tally H m (Some mid)"
    using refs_invD(1) [OF inv, of m] r Some by (auto simp: counted_def tally_def referenced_def split: option.splits)
  show ?thesis
  proof (cases "StrongRef (Some m) \<in># H")
    case False
    then have "strong_count mid = 0"
      using strong by (metis count_eq_zero_iff unat_eq_zero)
    then show ?thesis
      using Some False mid inv by (simp add: add_strong_def get_middle_def bind_outcome_def)
  next
    case True
    then have pos: "strong_count mid > 0"
      using strong by (metis count_eq_zero_iff unat_0 word_neq_0_conv)
    let ?mid = "mid\<lparr>strong_count := strong_count mid + 1\<rparr>" and ?s = "put_middle m (Some (mid\<lparr>strong_count := strong_count mid + 1\<rparr>)) s"
    have run: "add_strong mo s = Inr (mo, ?s)"
      using Some mid pos by (simp add: add_strong_def get_middle_def bind_outcome_def)
    have up: "unat (strong_count mid + 1) = Suc (unat (strong_count mid))"
      using count_bound [OF n] strong by (intro unat_inc) simp
    have "refs_inv ?s (add_mset (StrongRef (Some m)) H)"
      by (rule change_middle [OF inv mid]) (use C up True in \<open>auto simp: put_middle_def target_def tally_def is_alive_def\<close>)
    then show ?thesis
      using run True Some by simp
  qed
qed

lemma tally_at:
  assumes "refs_inv s H" and "StrongRef (Some m) \<in># H \<or> WeakRef (Some m) \<in># H"
  obtains mid where "middle_at s m = Some mid" and "unat (strong_count mid) = count H (StrongRef (Some m))"
    and "unat (weak_count mid) = count H (WeakRef (Some m))" and "ptr mid = None \<longleftrightarrow> StrongRef (Some m) \<notin># H"
  using refs_invD(1) [OF assms(1), of m] assms(2) by (auto simp: counted_def tally_def split: option.splits)

lemma alive_target:
  assumes inv: "refs_inv s H" and mid: "middle_at s m = Some mid" and p: "ptr mid = Some p"
  shows "is_alive s p"
proof -
  have "Some p \<in> set (map target (middles s))"
    using middle_some [OF mid] p nth_mem [of m "map target (middles s)"] by (simp add: target_def)
  then have "count_list (map target (middles s)) (Some p) \<noteq> 0"
    by (simp only: count_list_0_iff) simp
  then have "0 < owners s H p"
    by (simp add: owners_def)
  then show ?thesis
    using refs_invD(2) [OF inv, of p] by (simp split: if_splits)
qed

lemma remove_strong_ok:
  assumes inv: "refs_inv s (add_mset (StrongRef mo) H)"
  shows "\<exists>s'. remove_strong mo s = Inr s' \<and> refs_inv s' H"
proof (cases mo)
  case None
  then show ?thesis
    using inv by (simp add: remove_strong_def)
next
  case (Some m)
  have ref: "StrongRef (Some m) \<in># add_mset (StrongRef mo) H \<or> WeakRef (Some m) \<in># add_mset (StrongRef mo) H"
    by (simp add: Some)
  obtain mid where mid: "middle_at s m = Some mid" and cs: "unat (strong_count mid) = Suc (count H (StrongRef (Some m)))"
      and cw: "unat (weak_count mid) = count H (WeakRef (Some m))" and pn: "ptr mid \<noteq> None"
    by (rule tally_at [OF inv ref]) (use Some that in auto)
  obtain p where p: "ptr mid = Some p"
    using pn by blast
  note alive = alive_target [OF inv mid p]
  have dec: "unat (strong_count mid - 1) = count H (StrongRef (Some m))"
    by (rule unat_dec [OF cs])
  have pos: "strong_count mid > 0"
    using cs by (metis unat_0 nat.distinct(1) word_neq_0_conv)
  let ?mid = "mid\<lparr>strong_count := strong_count mid - 1\<rparr>"
  have same: "count H h = count (add_mset (StrongRef mo) H) h" if "h \<noteq> StrongRef (Some m)" for h
    using that Some by simp
  show ?thesis
  proof (cases "StrongRef (Some m) \<in># H")
    case True
    then have ne: "strong_count mid - 1 \<noteq> 0"
      using dec by (metis count_eq_zero_iff unat_0)
    let ?s = "put_middle m (Some ?mid) s"
    have "remove_strong mo s = Inr ?s"
      using Some mid pos ne by (simp add: remove_strong_def get_middle_def bind_outcome_def assert_that_def delete_object_def Let_def)
    moreover have "refs_inv ?s H"
      by (rule change_middle [OF inv mid]) (use True same dec cw p in \<open>auto simp: put_middle_def target_def tally_def is_alive_def\<close>)
    ultimately show ?thesis
      by blast
  next
    case False
    then have z: "strong_count mid - 1 = 0"
      using dec by (metis count_eq_zero_iff unat_eq_zero)
    let ?last = "weak_count mid = 0"
    let ?new = "if ?last then None else Some (?mid\<lparr>ptr := None\<rparr>)"
    let ?s = "(put_middle m ?new s)\<lparr>alive := (alive s)[p := False]\<rparr>"
    have "remove_strong mo s = Inr ?s"
      using Some mid pos z p alive
      by (simp add: remove_strong_def get_middle_def bind_outcome_def assert_that_def delete_object_def Let_def is_alive_def put_middle_def)
    moreover have "refs_inv ?s H"
    proof (rule change_middle [OF inv mid])
      show "middles ?s = (middles s)[m := ?new]"
        by (simp add: put_middle_def)
      show "tally H m ?new"
        using False z cw dec by (auto simp: tally_def count_eq_zero_iff unat_eq_zero [symmetric] simp del: unat_eq_zero)
      show "is_alive ?s q = (is_alive s q \<and> (ptr mid = Some q \<longrightarrow> target ?new = Some q))" for q
        using p by (cases "q = p") (auto simp: target_def is_alive_def put_middle_def)
    qed (use same in \<open>auto simp: target_def\<close>)
    ultimately show ?thesis
      by blast
  qed
qed

lemma add_weak_ok:
  assumes inv: "refs_inv s H" and r: "referenced mo H" and n: "Suc (size H) < 2 ^ 64"
  shows "\<exists>s'. add_weak mo s = Inr (if StrongRef mo \<in># H then mo else None, s') \<and>
    refs_inv s' (add_mset (WeakRef (if StrongRef mo \<in># H then mo else None)) H)"
proof (cases mo)
  case None
  then show ?thesis
    using inv by (simp add: add_weak_def)
next
  case (Some m)
  obtain mid where mid: "middle_at s m = Some mid" and cs: "unat (strong_count mid) = count H (StrongRef (Some m))"
      and cw: "unat (weak_count mid) = count H (WeakRef (Some m))" and pn: "ptr mid = None \<longleftrightarrow> StrongRef (Some m) \<notin># H"
    by (rule tally_at [OF inv, of m]) (use r Some that in \<open>auto simp: referenced_def\<close>)
  show ?thesis
  proof (cases "StrongRef (Some m) \<in># H")
    case False
    then show ?thesis
      using Some mid inv pn by (simp add: add_weak_def get_middle_def bind_outcome_def)
  next
    case True
    let ?s = "put_middle m (Some (mid\<lparr>weak_count := weak_count mid + 1\<rparr>)) s"
    have "add_weak mo s = Inr (mo, ?s)"
      using Some mid pn True by (simp add: add_weak_def get_middle_def bind_outcome_def)
    moreover have "unat (weak_count mid + 1) = Suc (unat (weak_count mid))"
      using count_bound [OF n] cw by (intro unat_inc) simp
    then have "refs_inv ?s (add_mset (WeakRef (Some m)) H)"
      by (intro change_middle [OF inv mid]) (use cs cw pn True in \<open>auto simp: put_middle_def target_def tally_def is_alive_def\<close>)
    ultimately show ?thesis
      using True Some by simp
  qed
qed

lemma remove_weak_ok:
  assumes inv: "refs_inv s (add_mset (WeakRef mo) H)"
  shows "\<exists>s'. remove_weak mo s = Inr s' \<and> refs_inv s' H"
proof (cases mo)
  case None
  then show ?thesis
    using inv by (simp add: remove_weak_def)
next
  case (Some m)
  have ref: "StrongRef (Some m) \<in># add_mset (WeakRef mo) H \<or> WeakRef (Some m) \<in># add_mset (WeakRef mo) H"
    by (simp add: Some)
  obtain mid where mid: "middle_at s m = Some mid" and cs: "unat (strong_count mid) = count H (StrongRef (Some m))"
      and cw: "unat (weak_count mid) = Suc (count H (WeakRef (Some m)))" and pn: "ptr mid = None \<longleftrightarrow> StrongRef (Some m) \<notin># H"
    by (rule tally_at [OF inv ref]) (use Some that in auto)
  have dec: "unat (weak_count mid - 1) = count H (WeakRef (Some m))"
    by (rule unat_dec [OF cw])
  have pos: "weak_count mid > 0"
    using cw by (metis unat_0 nat.distinct(1) word_neq_0_conv)
  let ?new = "if weak_count mid - 1 = 0 \<and> strong_count mid = 0 then None else Some (mid\<lparr>weak_count := weak_count mid - 1\<rparr>)"
  have z: "weak_count mid - 1 = 0 \<longleftrightarrow> WeakRef (Some m) \<notin># H" "strong_count mid = 0 \<longleftrightarrow> StrongRef (Some m) \<notin># H"
    using dec cs by (metis count_eq_zero_iff unat_eq_zero)+
  have "remove_weak mo s = Inr (put_middle m ?new s)"
    using Some mid pos by (simp add: remove_weak_def get_middle_def bind_outcome_def assert_that_def Let_def)
  moreover have "refs_inv (put_middle m ?new s) H"
  proof (rule change_middle [OF inv mid])
    show "middles (put_middle m ?new s) = (middles s)[m := ?new]"
      by (simp add: put_middle_def)
    show "tally H m ?new"
      using z dec cs pn by (auto simp: tally_def)
    show "target ?new = ptr mid \<or> target ?new = None" "\<And>q. is_alive (put_middle m ?new s) q = (is_alive s q \<and> (ptr mid = Some q \<longrightarrow> target ?new = Some q))"
      using pn z by (auto simp: target_def)
  qed (use Some in auto)
  ultimately show ?thesis
    by blast
qed

lemma delete_ok:
  assumes inv: "refs_inv s (add_mset (UniqueRef po) H)"
  shows "\<exists>s'. delete_object po s = Inr s' \<and> refs_inv s' H"
proof (cases po)
  case (Some p)
  have own: "owners s (add_mset (UniqueRef po) H) q = owners s H q + (if q = p then 1 else 0)" for q
    by (simp add: owners_def Some)
  then have alive: "is_alive s p"
    using refs_invD(2) [OF inv, of p] by (auto split: if_splits)
  let ?s = "s\<lparr>alive := (alive s)[p := False]\<rparr>"
  have "owners ?s H q = (if is_alive ?s q then 1 else 0)" for q
    using refs_invD(2) [OF inv, of q] own [of q] alive by (auto simp: owners_def is_alive_def nth_list_update split: if_splits)
  moreover have "counted ?s H m" for m
    using refs_invD(1) [OF inv, of m] by (simp add: counted_def)
  ultimately have "refs_inv ?s H"
    unfolding refs_inv_def by blast
  then show ?thesis
    using Some alive by (simp add: delete_object_def is_alive_def)
qed (use inv in \<open>simp add: delete_object_def\<close>)

lemma mm_ok:
  assumes inv: "refs_inv s (add_mset (UniqueRef po) H)" and r: "mm po s = (m, s')"
  shows "refs_inv s' (add_mset (StrongRef m) H)"
proof (cases po)
  case None
  then show ?thesis
    using inv r by (simp add: mm_def)
next
  case (Some p)
  let ?m = "length (middles s)"
  have m: "m = Some ?m" and s': "middles s' = middles s @ [Some \<lparr>ptr = Some p, strong_count = 1, weak_count = 0\<rparr>]" "alive s' = alive s"
    using r Some by (auto simp: mm_def new_middle_def)
  have at: "middle_at s' k = (if k = ?m then Some \<lparr>ptr = Some p, strong_count = 1, weak_count = 0\<rparr> else middle_at s k)" for k
    by (simp add: middle_at_def s' nth_append)
  have fresh: "StrongRef (Some ?m) \<notin># H" "WeakRef (Some ?m) \<notin># H"
    using refs_invD(1) [OF inv, of ?m] by (simp_all add: counted_def tally_def middle_at_def)
  have "counted s' (add_mset (StrongRef m) H) k" for k
    using refs_invD(1) [OF inv, of k] fresh by (auto simp: counted_def at m tally_def not_in_iff split: option.splits)
  moreover have "owners s' (add_mset (StrongRef m) H) q = (if is_alive s' q then 1 else 0)" for q
    using refs_invD(2) [OF inv, of q] Some by (cases "q = p") (simp_all add: owners_def s' m is_alive_def target_def)
  ultimately show ?thesis
    by (simp add: refs_inv_def)
qed

lemma new_object_ok:
  assumes inv: "refs_inv s H" and r: "new_object s = (p, s')"
  shows "refs_inv s' (add_mset (UniqueRef (Some p)) H)"
proof -
  have p: "p = length (alive s)" and s': "alive s' = alive s @ [True]" "middles s' = middles s"
    using r by (auto simp: new_object_def)
  have "owners s H p = 0"
    using refs_invD(2) [OF inv, of p] p by (simp add: is_alive_def)
  then have "owners s' (add_mset (UniqueRef (Some p)) H) q = (if is_alive s' q then 1 else 0)" for q
    using refs_invD(2) [OF inv, of q] by (auto simp: owners_def s' is_alive_def p nth_append less_Suc_eq)
  moreover have "middle_at s' = middle_at s"
    by (simp add: fun_eq_iff middle_at_def s')
  then have "counted s' (add_mset (UniqueRef (Some p)) H) m" for m
    using refs_invD(1) [OF inv, of m] by (simp add: counted_def)
  ultimately show ?thesis
    by (simp add: refs_inv_def)
qed

section \<open>Operations of a program\<close>

lemma drop_ok:
  assumes "refs_inv s (add_mset h H)" and "h \<noteq> Gone"
  shows "\<exists>s'. drop_handle h s = Inr s' \<and> refs_inv s' H"
  using assms remove_strong_ok remove_weak_ok delete_ok by (cases h) auto

lemma clear_ok:
  assumes "refs_inv s (add_mset h H)" and "h \<noteq> Gone"
  shows "\<exists>h' s'. clear_handle h s = Inr (h', s') \<and> h' \<noteq> Gone \<and> refs_inv s' (add_mset h' H)"
  using assms remove_strong_ok [of s _ H] remove_weak_ok [of s _ H] delete_ok [of s _ H]
  by (cases h) (fastforce simp: StrongRef_clear_def WeakRef_clear_def UniqueRef_replace_def bind_outcome_def)+

lemma make_ok:
  assumes inv: "refs_inv s H"
  shows "\<exists>h s'. make_handle k s = Inr (h, s') \<and> h \<noteq> Gone \<and> refs_inv s' (add_mset h H)"
proof -
  obtain p s1 where n: "new_object s = (p, s1)"
    by (cases "new_object s")
  note new = new_object_ok [OF inv n]
  obtain m s2 where m: "mm (Some p) s1 = (m, s2)"
    by (cases "mm (Some p) s1")
  obtain s3 where d: "delete_object (Some p) s1 = Inr s3" "refs_inv s3 H"
    using delete_ok [OF new] by blast
  show ?thesis
    using n new m mm_ok [OF new m] d by (cases k) (simp_all add: WeakRef_of_ptr_def bind_outcome_def)
qed

lemma referenced_there: "referenced m (add_mset (StrongRef m) H)" "referenced m (add_mset (WeakRef m) H)"
  "referenced m (add_mset h (add_mset (StrongRef m) H))" "referenced m (add_mset h (add_mset (WeakRef m) H))"
  by (auto simp: referenced_def)

lemma construct_ok:
  assumes inv: "refs_inv s (add_mset h H)" and h: "h \<noteq> Gone" and n: "Suc (Suc (size H)) < 2 ^ 64"
  shows "\<exists>h' src s'. construct k h s = Inr (h', src, s') \<and> h' \<noteq> Gone \<and> src \<noteq> Gone \<and> refs_inv s' (add_mset h' (add_mset src H))"
proof -
  have size: "Suc (size (add_mset h H)) < 2 ^ 64"
    using n by simp
  show ?thesis
  proof (cases h)
    case (StrongRef m)
    then show ?thesis
      using inv add_strong_ok [OF inv _ size, of m] add_weak_ok [OF inv _ size, of m] referenced_there
      by (cases k) (auto simp: bind_outcome_def)
  next
    case (WeakRef m)
    then show ?thesis
      using inv add_strong_ok [OF inv _ size, of m] add_weak_ok [OF inv _ size, of m] referenced_there
      by (cases k) (auto simp: bind_outcome_def)
  next
    case (UniqueRef p)
    obtain m s1 where m: "mm p s = (m, s1)"
      by (cases "mm p s")
    obtain s2 where "delete_object p s = Inr s2" "refs_inv s2 H"
      using delete_ok inv UniqueRef by blast
    then show ?thesis
      using inv UniqueRef mm_ok [OF _ m, of H] m
      by (cases k) (simp_all add: bind_outcome_def)
  qed (use h in simp)
qed

lemma assign_same: "h \<noteq> Gone \<Longrightarrow> assign h h s = Inr (h, h, s)"
  by (cases h) (simp_all add: bind_outcome_def)

lemma assign_strong:
  assumes inv: "refs_inv s (add_mset (StrongRef mid) (add_mset h H))" and h: "h \<noteq> Gone" and n: "Suc (Suc (size H)) < 2 ^ 64"
  shows "\<exists>r src s'. StrongRef_assign mid h s = Inr (r, src, s') \<and> src \<noteq> Gone \<and> refs_inv s' (add_mset (StrongRef r) (add_mset src H))"
proof -
  obtain s1 where s1: "remove_strong mid s = Inr s1" "refs_inv s1 (add_mset h H)"
    using remove_strong_ok [OF inv] by blast
  have size: "Suc (size (add_mset h H)) < 2 ^ 64"
    using n by simp
  have shared: ?thesis if h': "h = StrongRef m \<or> h = WeakRef m" for m
  proof (cases "mid = m")
    case True
    then show ?thesis
      using h' inv by auto
  next
    case False
    have "referenced m (add_mset h H)"
      using h' referenced_there by auto
    then show ?thesis
      using add_strong_ok [OF s1(2) _ size, of m] h' s1(1) False by (auto simp: bind_outcome_def)
  qed
  show ?thesis
  proof (cases h)
    case (UniqueRef p)
    obtain m s2 where m: "mm p s1 = (m, s2)"
      by (cases "mm p s1")
    then show ?thesis
      using UniqueRef s1 mm_ok [of s1 p H m s2] by (simp add: bind_outcome_def)
  qed (use h shared in auto)
qed

lemma assign_weak:
  assumes inv: "refs_inv s (add_mset (WeakRef mid) (add_mset h H))" and h: "h \<noteq> Gone" and n: "Suc (Suc (size H)) < 2 ^ 64"
  shows "\<exists>r src s'. WeakRef_assign mid h s = Inr (r, src, s') \<and> src \<noteq> Gone \<and> refs_inv s' (add_mset (WeakRef r) (add_mset src H))"
proof -
  obtain s1 where s1: "remove_weak mid s = Inr s1" "refs_inv s1 (add_mset h H)"
    using remove_weak_ok [OF inv] by blast
  have size: "Suc (size (add_mset h H)) < 2 ^ 64"
    using n by simp
  have shared: ?thesis if h': "h = StrongRef m \<or> h = WeakRef m" for m
  proof (cases "mid = m")
    case True
    then show ?thesis
      using h' inv by auto
  next
    case False
    have "referenced m (add_mset h H)"
      using h' referenced_there by auto
    then show ?thesis
      using add_weak_ok [OF s1(2) _ size, of m] h' s1(1) False by (auto simp: bind_outcome_def)
  qed
  show ?thesis
  proof (cases h)
    case (UniqueRef p)
    obtain s2 where "delete_object p s1 = Inr s2" "refs_inv s2 H"
      using delete_ok s1(2) UniqueRef by blast
    then show ?thesis
      using UniqueRef s1 by (simp add: bind_outcome_def)
  qed (use h shared in auto)
qed

lemma assign_unique:
  assumes inv: "refs_inv s (add_mset (UniqueRef old_ptr) (add_mset (UniqueRef p) H))"
  shows "\<exists>r src s'. UniqueRef_assign old_ptr (UniqueRef p) s = Inr (r, src, s') \<and> src \<noteq> Gone \<and> refs_inv s' (add_mset (UniqueRef r) (add_mset src H))"
proof (cases "old_ptr = p")
  case False
  then show ?thesis
    using delete_ok [OF inv] by (auto simp: UniqueRef_replace_def bind_outcome_def)
qed (use inv in auto)

lemma assign_ok:
  assumes inv: "refs_inv s (add_mset h1 (add_mset h2 H))" and h: "h1 \<noteq> Gone" "h2 \<noteq> Gone" and n: "Suc (Suc (size H)) < 2 ^ 64"
    and u: "\<forall>p. h1 = UniqueRef p \<longrightarrow> (\<exists>q. h2 = UniqueRef q)"
  shows "\<exists>h' src s'. assign h1 h2 s = Inr (h', src, s') \<and> h' \<noteq> Gone \<and> src \<noteq> Gone \<and> refs_inv s' (add_mset h' (add_mset src H))"
proof (cases h1)
  case (StrongRef m)
  then show ?thesis
    using assign_strong [of s m h2 H] inv h n by (auto simp: bind_outcome_def)
next
  case (WeakRef m)
  then show ?thesis
    using assign_weak [of s m h2 H] inv h n by (auto simp: bind_outcome_def)
next
  case (UniqueRef p)
  then obtain q where "h2 = UniqueRef q"
    using u by blast
  then show ?thesis
    using UniqueRef assign_unique [of s p q H] inv by (auto simp: bind_outcome_def)
qed (use h in simp)

text \<open>The handles of a program as a multiset.\<close>

lemma mset_at: "i < length hs \<Longrightarrow> mset hs = add_mset (hs ! i) (mset hs - {#hs ! i#})"
  by simp

lemma mset_two:
  assumes ij: "i < length hs" "j < length hs" "i \<noteq> j"
  obtains R where "mset hs = add_mset (hs ! i) (add_mset (hs ! j) R)" and "\<And>x y. mset (hs[j := y, i := x]) = add_mset x (add_mset y R)"
    and "Suc (Suc (size R)) = length hs"
proof -
  define I where "I = {0..<length hs} - {i, j}"
  have I: "{0..<length hs} = insert i (insert j I)" "finite I" "i \<notin> I" "j \<notin> I"
    using ij by (auto simp: I_def)
  have all: "mset xs = add_mset (xs ! i) (add_mset (xs ! j) (image_mset (nth xs) (mset_set I)))" if "length xs = length hs" for xs
  proof -
    have "mset xs = mset (map (nth xs) [0..<length hs])"
      using that map_nth [of xs] by simp
    also have "\<dots> = image_mset (nth xs) (mset_set (insert i (insert j I)))"
      by (simp add: I(1) [symmetric])
    finally show ?thesis
      using I ij(3) by simp
  qed
  have "image_mset (nth (hs[j := y, i := x])) (mset_set I) = image_mset (nth hs) (mset_set I)" for x y
  proof (rule image_mset_cong)
    fix k
    assume "k \<in># mset_set I"
    then have "k \<noteq> i" "k \<noteq> j"
      using I by auto
    then show "hs[j := y, i := x] ! k = hs ! k"
      by simp
  qed
  then show thesis
    using that [of "image_mset (nth hs) (mset_set I)"] all [of hs] all [of "hs[j := _, i := _]"] ij
    by (metis length_list_update nth_list_update_eq nth_list_update_neq size_add_mset size_mset)
qed

lemma run_op_ok:
  assumes inv: "refs_inv s (mset hs)" and c: "compiles op hs" and n: "Suc (length hs) < 2 ^ 64"
  shows "\<exists>hs' s'. run_op op (hs, s) = Inr (hs', s') \<and> refs_inv s' (mset hs') \<and> length hs' \<le> Suc (length hs)"
proof (cases op)
  case (Make k)
  then show ?thesis
    using make_ok [OF inv, of k] by (auto simp: bind_outcome_def)
next
  case (Null k)
  then show ?thesis
    using inv by (cases k) auto
next
  case (Construct k j)
  then have j: "j < length hs" "hs ! j \<noteq> Gone"
    using c by (simp_all add: in_scope_def)
  define R where "R = mset hs - {#hs ! j#}"
  have R: "mset hs = add_mset (hs ! j) R" "\<And>y. mset (hs[j := y]) = add_mset y R"
    using j by (simp_all add: R_def mset_update)
  have "Suc (size R) = length hs"
    using R(1) by (metis size_add_mset size_mset)
  then show ?thesis
    using construct_ok [of s "hs ! j" R k] inv j n Construct R by (auto simp: bind_outcome_def)
next
  case (Assign i j)
  then have ij: "i < length hs" "j < length hs" "hs ! i \<noteq> Gone" "hs ! j \<noteq> Gone"
    "\<forall>p. hs ! i = UniqueRef p \<longrightarrow> (\<exists>q. hs ! j = UniqueRef q)"
    using c by (auto simp: in_scope_def split: handle.splits)
  show ?thesis
  proof (cases "i = j")
    case True
    then show ?thesis
      using Assign assign_same [of "hs ! j" s] ij inv by (simp add: bind_outcome_def)
  next
    case False
    obtain R where R: "mset hs = add_mset (hs ! i) (add_mset (hs ! j) R)"
        "\<And>x y. mset (hs[j := y, i := x]) = add_mset x (add_mset y R)" "Suc (Suc (size R)) = length hs"
      by (rule mset_two [OF ij(1,2) False]) (rule that)
    then show ?thesis
      using assign_ok [of s "hs ! i" "hs ! j" R] inv ij n Assign by (auto simp: bind_outcome_def)
  qed
next
  case (Assign_null i)
  then have i: "i < length hs" "hs ! i \<noteq> Gone"
    using c by (simp_all add: in_scope_def)
  then show ?thesis
    using Assign_null clear_ok [of s "hs ! i" "mset hs - {#hs ! i#}"] inv by (auto simp: bind_outcome_def mset_update)
next
  case (Destroy i)
  then have i: "i < length hs" "hs ! i \<noteq> Gone"
    using c by (simp_all add: in_scope_def)
  then show ?thesis
    using Destroy drop_ok [of s "hs ! i" "mset hs - {#hs ! i#}"] inv by (auto simp: bind_outcome_def mset_update)
qed

lemma run_ops_ok:
  assumes "refs_inv s (mset hs)" and "length hs + length ops < 2 ^ 64"
  shows "\<exists>hs' s'. run_ops ops (hs, s) = Inr (hs', s') \<and> refs_inv s' (mset hs') \<and> length hs' \<le> length hs + length ops"
  using assms
proof (induction ops arbitrary: hs s)
  case (Cons op ops)
  show ?case
  proof (cases "compiles op hs")
    case True
    obtain hs1 s1 where s1: "run_op op (hs, s) = Inr (hs1, s1)" "refs_inv s1 (mset hs1)" "length hs1 \<le> Suc (length hs)"
      using run_op_ok [OF Cons.prems(1) True] Cons.prems(2) by auto
    then have "length hs1 + length ops < 2 ^ 64"
      using Cons.prems(2) by simp
    then show ?thesis
      using Cons.IH [OF s1(2)] s1 True by (fastforce simp: bind_outcome_def)
  next
    case False
    then show ?thesis
      using Cons.IH [OF Cons.prems(1)] Cons.prems(2) by fastforce
  qed
qed simp

section \<open>What a program can rely on\<close>

text \<open>The object a handle keeps alive.\<close>

definition owns :: "refs \<Rightarrow> handle \<Rightarrow> nat \<Rightarrow> bool" where
  "owns s h p \<longleftrightarrow>
     (case h of
        UniqueRef po \<Rightarrow> po = Some p
      | StrongRef (Some m) \<Rightarrow> target (middle_at s m) = Some p
      | _ \<Rightarrow> False)"

lemma owns_cases: "owns s h p \<longleftrightarrow> h = UniqueRef (Some p) \<or> (\<exists>m. h = StrongRef (Some m) \<and> target (middle_at s m) = Some p)"
  by (auto simp: owns_def split: handle.split option.split)

lemma target_strong:
  assumes inv: "refs_inv s H" and t: "target (middle_at s m) = Some p"
  shows "StrongRef (Some m) \<in># H" and "is_alive s p" and "0 < count_list (map target (middles s)) (Some p)"
proof -
  obtain mid where mid: "middle_at s m = Some mid" "ptr mid = Some p"
    using t by (auto simp: target_def bind_eq_Some_conv)
  then show "StrongRef (Some m) \<in># H" "is_alive s p"
    using refs_invD(1) [OF inv, of m] alive_target [OF inv mid] by (auto simp: counted_def tally_def)
  have "Some p \<in> set (map target (middles s))"
    using middle_some [OF mid(1)] t nth_mem [of m "map target (middles s)"] mid by simp
  then show "0 < count_list (map target (middles s)) (Some p)"
    by (metis count_list_0_iff gr0I)
qed

lemma alive_owned:
  assumes inv: "refs_inv s H"
  shows "is_alive s p \<longleftrightarrow> (\<exists>h. h \<in># H \<and> owns s h p)"
proof
  assume "is_alive s p"
  then have "owners s H p \<noteq> 0"
    using refs_invD(2) [OF inv, of p] by simp
  then consider "UniqueRef (Some p) \<in># H" | "Some p \<in> set (map target (middles s))"
    by (auto simp: owners_def count_eq_zero_iff count_list_0_iff)
  then show "\<exists>h. h \<in># H \<and> owns s h p"
  proof cases
    case 2
    then obtain m where "m < length (middles s)" "target (middles s ! m) = Some p"
      by (auto simp: in_set_conv_nth)
    then have "target (middle_at s m) = Some p"
      by (simp add: middle_at_def)
    then show ?thesis
      using target_strong(1) [OF inv] by (auto simp: owns_cases)
  qed (auto simp: owns_cases)
next
  assume "\<exists>h. h \<in># H \<and> owns s h p"
  then show "is_alive s p"
    using target_strong(2) [OF inv] refs_invD(2) [OF inv, of p] by (auto simp: owns_cases owners_def count_eq_zero_iff split: if_splits)
qed

lemma unique_owner:
  assumes inv: "refs_inv s (mset hs)" and i: "i < length hs" "hs ! i = UniqueRef (Some p)" and j: "j < length hs" "owns s (hs ! j) p"
  shows "i = j"
proof (rule ccontr)
  assume "i \<noteq> j"
  then obtain R where R: "mset hs = add_mset (hs ! i) (add_mset (hs ! j) R)"
    using mset_two [OF i(1) j(1)] by metis
  have "owners s (mset hs) p \<le> 1"
    using refs_invD(2) [OF inv, of p] by simp
  then show False
    using R i j target_strong(3) [OF inv, of _ p] by (auto simp: owns_cases owners_def)
qed



end
