(* ===== verification/Spin.thy ===== *)
theory Spin
  imports Prelude
begin

text \<open>
  The spin lock of \<^verbatim>\<open>spin_lock.cc\<close> on any number of cores. Each access to memory that another core may touch
  is a step of its own, so cores interleave inside \<open>tryLock\<close> and \<open>unlock\<close>. At most one core has a lock or
  touches what it protects; locks released in the opposite order of their taking leave the interrupt flag of the
  core as it was, and only those do; the largest critical section is recorded although cores race for it.
\<close>

section \<open>The code\<close>

record SpinLock =
  taken :: bool
  lock_start :: u64
  count_it :: bool
  was_disabled :: bool

definition free_lock :: SpinLock where
  "free_lock = \<lparr>taken = False, lock_start = 0, count_it = False, was_disabled = False\<rparr>"

text \<open>
  Where a core is, with its local variables: in \<open>tryLock\<close> (called by \<open>lock\<close> or directly, which the Boolean
  tells), in \<open>unlock\<close>, and in the loop of \<open>AtomicMax::update\<close>.
\<close>

datatype spin_pc =
    At_rest
  | Entering bool nat
  | Disabled bool nat bool
  | Lost bool nat bool
  | Won nat bool
  | Stamping nat
  | Unlocking nat
  | Marking nat bool
  | Reading nat bool
  | Timing nat bool u64
  | Loading nat bool u64
  | Freeing nat bool u64 bool
  | Restoring bool u64 bool
  | Adding u64
  | Counting u64
  | Max_get u64
  | Max_swap u64 u64

text \<open>
  \<open>cli\<close> is whether interrupts are off. Two fields only record history: \<open>held\<close>, the locks the core has, the
  last one first, and \<open>outside\<close>, what the code that holds no lock last made of the interrupt flag.
\<close>

record spin_core =
  spc :: spin_pc
  cli :: bool
  held :: "nat list"
  outside :: bool

text \<open>The locks are named by their addresses. \<open>measured\<close> is history: the updates of the maximum that ended.\<close>

record spin_state =
  lock_at :: "nat \<Rightarrow> SpinLock"
  core_at :: "nat \<Rightarrow> spin_core"
  total_cycles :: u64
  section_count :: u64
  max_cycles :: u64
  measured :: "u64 list"

definition set_core :: "nat \<Rightarrow> spin_core \<Rightarrow> spin_state \<Rightarrow> spin_state" where
  "set_core i c s = s\<lparr>core_at := (core_at s)(i := c)\<rparr>"

definition set_lock :: "nat \<Rightarrow> SpinLock \<Rightarrow> spin_state \<Rightarrow> spin_state" where
  "set_lock l x s = s\<lparr>lock_at := (lock_at s)(l := x)\<rparr>"

text \<open>\<open>restore\<close>: only enables.\<close>

definition restore :: "bool \<Rightarrow> spin_core \<Rightarrow> spin_core" where
  "restore was c = (if was then c else c\<lparr>cli := False\<rparr>)"

text \<open>One step of \<open>tryLock\<close> and of the loop of \<open>lock\<close> around it; \<open>tsc\<close> is what \<open>rdtsc\<close> returns.\<close>

fun trylock_step :: "u64 \<Rightarrow> nat \<Rightarrow> spin_pc \<Rightarrow> spin_core \<Rightarrow> spin_state \<Rightarrow> spin_state option" where
  "trylock_step tsc i (Entering loop l) c s = Some (set_core i (c\<lparr>cli := True, spc := Disabled loop l (cli c)\<rparr>) s)"
| "trylock_step tsc i (Disabled loop l was) c s = Some (
     if taken (lock_at s l) then set_core i (c\<lparr>spc := Lost loop l was\<rparr>) s
     else set_lock l ((lock_at s l)\<lparr>taken := True\<rparr>) (set_core i (c\<lparr>spc := Won l was, held := l # held c\<rparr>) s))"
| "trylock_step tsc i (Lost loop l was) c s =
     Some (set_core i (restore was c\<lparr>spc := (if loop then Entering True l else At_rest)\<rparr>) s)"
| "trylock_step tsc i (Won l was) c s =
     Some (set_lock l ((lock_at s l)\<lparr>was_disabled := was\<rparr>) (set_core i (c\<lparr>spc := Stamping l\<rparr>) s))"
| "trylock_step tsc i (Stamping l) c s =
     Some (set_lock l ((lock_at s l)\<lparr>lock_start := tsc\<rparr>) (set_core i (c\<lparr>spc := At_rest\<rparr>) s))"
| "trylock_step tsc i pc c s = None"

fun unlock_step :: "u64 \<Rightarrow> nat \<Rightarrow> spin_pc \<Rightarrow> spin_core \<Rightarrow> spin_state \<Rightarrow> spin_state option" where
  "unlock_step tsc i (Unlocking l) c s = Some (set_core i (c\<lparr>spc := Marking l (count_it (lock_at s l))\<rparr>) s)"
| "unlock_step tsc i (Marking l cnt) c s =
     Some (set_lock l ((lock_at s l)\<lparr>count_it := True\<rparr>) (set_core i (c\<lparr>spc := Reading l cnt\<rparr>) s))"
| "unlock_step tsc i (Reading l cnt) c s = Some (set_core i (c\<lparr>spc := Timing l cnt (lock_start (lock_at s l))\<rparr>) s)"
| "unlock_step tsc i (Timing l cnt st) c s = Some (set_core i (c\<lparr>spc := Loading l cnt (tsc - st)\<rparr>) s)"
| "unlock_step tsc i (Loading l cnt elapsed) c s =
     Some (set_core i (c\<lparr>spc := Freeing l cnt elapsed (was_disabled (lock_at s l))\<rparr>) s)"
| "unlock_step tsc i (Freeing l cnt elapsed was) c s =
     Some (set_lock l ((lock_at s l)\<lparr>taken := False\<rparr>)
       (set_core i (c\<lparr>spc := Restoring cnt elapsed was, held := remove1 l (held c)\<rparr>) s))"
| "unlock_step tsc i (Restoring cnt elapsed was) c s =
     Some (set_core i (restore was c\<lparr>spc := (if cnt then Adding elapsed else At_rest)\<rparr>) s)"
| "unlock_step tsc i (Adding elapsed) c s =
     Some (set_core i (c\<lparr>spc := Counting elapsed\<rparr>) (s\<lparr>total_cycles := total_cycles s + elapsed\<rparr>))"
| "unlock_step tsc i (Counting elapsed) c s =
     Some (set_core i (c\<lparr>spc := Max_get elapsed\<rparr>) (s\<lparr>section_count := section_count s + 1\<rparr>))"
| "unlock_step tsc i pc c s = None"

text \<open>\<open>AtomicMax::update\<close>: the compare-and-exchange fails when another core was faster, and the loop reads again.\<close>

definition max_done :: "nat \<Rightarrow> spin_core \<Rightarrow> u64 \<Rightarrow> spin_state \<Rightarrow> spin_state" where
  "max_done i c v s = set_core i (c\<lparr>spc := At_rest\<rparr>) (s\<lparr>measured := v # measured s\<rparr>)"

fun update_step :: "nat \<Rightarrow> spin_pc \<Rightarrow> spin_core \<Rightarrow> spin_state \<Rightarrow> spin_state option" where
  "update_step i (Max_get v) c s = Some (
     if v \<le> max_cycles s then max_done i c v s else set_core i (c\<lparr>spc := Max_swap v (max_cycles s)\<rparr>) s)"
| "update_step i (Max_swap v old) c s = Some (
     if max_cycles s = old then max_done i c v (s\<lparr>max_cycles := v\<rparr>) else set_core i (c\<lparr>spc := Max_get v\<rparr>) s)"
| "update_step i pc c s = None"

text \<open>
  What a core does next: call a function, when it is in none; change its interrupt flag, when it also holds no
  lock; or go on. Only a holder calls \<open>unlock\<close>, in whatever order it likes.
\<close>

datatype spin_event = Call_lock nat | Call_trylock nat | Call_unlock nat | Set_cli bool | Go u64

fun spin_step :: "nat \<times> spin_event \<Rightarrow> spin_state \<Rightarrow> spin_state option" where
  "spin_step (i, Go tsc) s = (let c = core_at s i in
     case trylock_step tsc i (spc c) c s of Some s' \<Rightarrow> Some s'
     | None \<Rightarrow> (case unlock_step tsc i (spc c) c s of Some s' \<Rightarrow> Some s' | None \<Rightarrow> update_step i (spc c) c s))"
| "spin_step (i, e) s = (let c = core_at s i in
     if spc c \<noteq> At_rest then None
     else case e of
       Call_lock l \<Rightarrow> Some (set_core i (c\<lparr>spc := Entering True l\<rparr>) s)
     | Call_trylock l \<Rightarrow> Some (set_core i (c\<lparr>spc := Entering False l\<rparr>) s)
     | Call_unlock l \<Rightarrow> if l \<in> set (held c) then Some (set_core i (c\<lparr>spc := Unlocking l\<rparr>) s) else None
     | Set_cli b \<Rightarrow> if held c = [] then Some (set_core i (c\<lparr>cli := b, outside := b\<rparr>) s) else None
     | Go tsc \<Rightarrow> None)"

fun spin_run :: "(nat \<times> spin_event) list \<Rightarrow> spin_state \<Rightarrow> spin_state option" where
  "spin_run [] s = Some s"
| "spin_run (e # es) s = (case spin_step e s of None \<Rightarrow> None | Some s' \<Rightarrow> spin_run es s')"

text \<open>Before anything has been locked.\<close>

definition spin_start :: "(nat \<Rightarrow> bool) \<Rightarrow> spin_state" where
  "spin_start off = \<lparr>lock_at = \<lambda>_. free_lock,
     core_at = \<lambda>i. \<lparr>spc = At_rest, cli = off i, held = [], outside = off i\<rparr>,
     total_cycles = 0, section_count = 0, max_cycles = 0, measured = []\<rparr>"

section \<open>One core at a time\<close>

text \<open>The lock whose fields a core is reading or writing.\<close>

fun inside :: "spin_pc \<Rightarrow> nat option" where
  "inside (Won l _) = Some l"
| "inside (Stamping l) = Some l"
| "inside (Unlocking l) = Some l"
| "inside (Marking l _) = Some l"
| "inside (Reading l _) = Some l"
| "inside (Timing l _ _) = Some l"
| "inside (Loading l _ _) = Some l"
| "inside (Freeing l _ _ _) = Some l"
| "inside _ = None"

definition owners_ok :: "spin_state \<Rightarrow> bool" where
  "owners_ok s \<longleftrightarrow>
     (\<forall>i. distinct (held (core_at s i)) \<and>
        (\<forall>l. inside (spc (core_at s i)) = Some l \<longrightarrow> l \<in> set (held (core_at s i)))) \<and>
     (\<forall>i j l. l \<in> set (held (core_at s i)) \<longrightarrow> l \<in> set (held (core_at s j)) \<longrightarrow> i = j) \<and>
     (\<forall>l. taken (lock_at s l) \<longleftrightarrow> (\<exists>i. l \<in> set (held (core_at s i))))"

text \<open>What a step does, in the shape the invariants need it.\<close>

lemmas spin_defs = set_core_def set_lock_def restore_def max_done_def

lemma spin_step_cases:
  assumes "spin_step (i, e) s = Some s'"
  obtains (try_lock) tsc where "trylock_step tsc i (spc (core_at s i)) (core_at s i) s = Some s'" "e = Go tsc"
  | (unlock) tsc where "unlock_step tsc i (spc (core_at s i)) (core_at s i) s = Some s'" "e = Go tsc"
  | (update) tsc where "update_step i (spc (core_at s i)) (core_at s i) s = Some s'" "e = Go tsc"
  | (call) loop l where "spc (core_at s i) = At_rest" "s' = set_core i (core_at s i\<lparr>spc := Entering loop l\<rparr>) s"
  | (release) l where "e = Call_unlock l" "spc (core_at s i) = At_rest" "l \<in> set (held (core_at s i))"
      "s' = set_core i (core_at s i\<lparr>spc := Unlocking l\<rparr>) s"
  | (flag) b where "spc (core_at s i) = At_rest" "held (core_at s i) = []"
      "s' = set_core i (core_at s i\<lparr>cli := b, outside := b\<rparr>) s"
proof (cases e)
  case (Go tsc)
  with assms show ?thesis
    by (auto simp: Let_def split: option.splits intro: that(1-3))
qed (use assms in \<open>auto simp: Let_def split: if_splits intro: that(4-6)\<close>)

text \<open>A step that changes neither who holds what nor which locks are taken, and one that does.\<close>

lemma owners_inside:
  "owners_ok s \<Longrightarrow> inside (spc (core_at s i)) = Some l \<Longrightarrow> l \<in> set (held (core_at s i))"
  by (simp add: owners_ok_def)

lemma owners_same:
  assumes "owners_ok s"
    and "\<And>l. taken (lock_at s' l) = taken (lock_at s l)"
    and "core_at s' = (core_at s)(i := c)"
    and "held c = held (core_at s i)"
    and "\<And>l. inside (spc c) = Some l \<Longrightarrow> l \<in> set (held c)"
  shows "owners_ok s'"
proof -
  have "held (core_at s' j) = held (core_at s j)" for j
    using assms(3,4) by simp
  moreover have "inside (spc (core_at s' j)) = Some l \<Longrightarrow> l \<in> set (held (core_at s' j))" for j l
    using assms owners_inside [OF assms(1)] by (cases "j = i") auto
  ultimately show ?thesis
    using assms(1,2) unfolding owners_ok_def by simp
qed

lemma owners_change:
  assumes ok: "owners_ok s"
    and locks: "\<And>k. k \<noteq> l \<Longrightarrow> taken (lock_at s' k) = taken (lock_at s k)"
    and cores: "core_at s' = (core_at s)(i := c)"
    and rest: "set (held c) - {l} = set (held (core_at s i)) - {l}"
    and this_lock: "taken (lock_at s' l) \<longleftrightarrow> l \<in> set (held c)"
    and others: "\<And>j. j \<noteq> i \<Longrightarrow> l \<notin> set (held (core_at s j))"
    and c: "distinct (held c)" "\<And>k. inside (spc c) = Some k \<Longrightarrow> k \<in> set (held c)"
  shows "owners_ok s'"
proof -
  have same: "k \<in> set (held (core_at s' j)) \<longleftrightarrow> k \<in> set (held (core_at s j))" if "k \<noteq> l" for j k
    using rest cores that by auto
  have l: "l \<in> set (held (core_at s' j)) \<longleftrightarrow> j = i \<and> l \<in> set (held c)" for j
    using others cores by auto
  show ?thesis
    unfolding owners_ok_def
  proof (intro conjI allI impI)
    fix j k
    show "distinct (held (core_at s' j))"
      using ok c(1) cores by (simp add: owners_ok_def)
    show "k \<in> set (held (core_at s' j))" if "inside (spc (core_at s' j)) = Some k"
      using that c(2) cores owners_inside [OF ok] by (cases "j = i") auto
  next
    fix j j' k
    assume "k \<in> set (held (core_at s' j))" "k \<in> set (held (core_at s' j'))"
    then show "j = j'"
      using ok same [of k] l by (cases "k = l") (auto simp: owners_ok_def)
  next
    fix k
    show "taken (lock_at s' k) \<longleftrightarrow> (\<exists>j. k \<in> set (held (core_at s' j)))"
      using ok same [of k] l locks [of k] this_lock by (cases "k = l") (simp_all add: owners_ok_def)
  qed
qed

lemma trylock_owners:
  assumes "trylock_step tsc i pc c s = Some s'" and "owners_ok s" and "c = core_at s i" and "spc c = pc"
  shows "owners_ok s'"
proof (cases "\<exists>loop l was. pc = Disabled loop l was \<and> \<not> taken (lock_at s l)")
  case True
  then obtain loop l was where pc: "pc = Disabled loop l was" and free: "\<not> taken (lock_at s l)"
    by blast
  have "l \<notin> set (held (core_at s j))" for j
    using assms(2) free by (auto simp: owners_ok_def)
  moreover have "distinct (held c)"
    using assms by (simp add: owners_ok_def)
  ultimately show ?thesis
    using assms(1) pc free assms(3)
    by (intro owners_change [OF assms(2), of l _ i "c\<lparr>spc := Won l was, held := l # held c\<rparr>"]) (auto simp: spin_defs)
next
  case False
  with assms show ?thesis
    by (cases pc; intro owners_same [OF assms(2), of s' i "core_at s' i"])
      (auto simp: spin_defs owners_inside split: if_splits)
qed

lemma unlock_owners:
  assumes "unlock_step tsc i pc c s = Some s'" and "owners_ok s" and "c = core_at s i" and "spc c = pc"
  shows "owners_ok s'"
proof (cases "\<exists>l cnt elapsed was. pc = Freeing l cnt elapsed was")
  case True
  then obtain l cnt elapsed was where pc: "pc = Freeing l cnt elapsed was"
    by blast
  then have "l \<in> set (held c)"
    using assms owners_inside [OF assms(2), of i] by simp
  moreover have "distinct (held c)"
    using assms by (simp add: owners_ok_def)
  moreover have "l \<notin> set (held (core_at s j))" if "j \<noteq> i" for j
    using assms(2,3) calculation(1) that by (auto simp: owners_ok_def)
  ultimately show ?thesis
    using assms(1,3) pc
    by (intro owners_change [OF assms(2), of l _ i
          "c\<lparr>spc := Restoring cnt elapsed was, held := remove1 l (held c)\<rparr>"]) (auto simp: spin_defs)
next
  case False
  with assms show ?thesis
    by (cases pc; intro owners_same [OF assms(2), of s' i "core_at s' i"])
      (auto simp: spin_defs owners_inside split: if_splits)
qed

lemma update_owners:
  assumes "update_step i pc c s = Some s'" and "owners_ok s" and "c = core_at s i" and "spc c = pc"
  shows "owners_ok s'"
  using assms
  by (cases pc; intro owners_same [OF assms(2), of s' i "core_at s' i"])
    (auto simp: spin_defs owners_inside split: if_splits)

lemma owners_step:
  assumes "spin_step e s = Some s'" and "owners_ok s"
  shows "owners_ok s'"
proof (cases e)
  case (Pair i ev)
  with assms(1) have "spin_step (i, ev) s = Some s'"
    by simp
  then show ?thesis
    by (cases rule: spin_step_cases)
      (use assms(2) trylock_owners unlock_owners update_owners in
        \<open>blast | auto intro!: owners_same [OF assms(2), of _ i] simp: spin_defs\<close>)+
qed

lemma owners_run: "spin_run es s = Some s' \<Longrightarrow> owners_ok s \<Longrightarrow> owners_ok s'"
  by (induction es arbitrary: s) (auto split: option.splits dest: owners_step)

section \<open>The interrupt flag\<close>

text \<open>
  Releases in the opposite order of the locks' taking, as nested guards make them. With them, the lock taken first
  has saved the flag of the code outside, the others that it was off.
\<close>

fun nested :: "(nat \<times> spin_event) list \<Rightarrow> spin_state \<Rightarrow> bool" where
  "nested [] s = True"
| "nested ((i, e) # es) s = (
     (case e of Call_unlock l \<Rightarrow> take 1 (held (core_at s i)) = [l] | _ \<Rightarrow> True) \<and>
     (case spin_step (i, e) s of None \<Rightarrow> True | Some s' \<Rightarrow> nested es s'))"

definition off_below :: "nat list \<Rightarrow> spin_core \<Rightarrow> bool" where
  "off_below ls c \<longleftrightarrow> ls \<noteq> [] \<or> outside c"

fun saved_ok :: "(nat \<Rightarrow> SpinLock) \<Rightarrow> nat list \<Rightarrow> spin_core \<Rightarrow> bool" where
  "saved_ok ls [] c \<longleftrightarrow> True"
| "saved_ok ls (h # hs) c \<longleftrightarrow> was_disabled (ls h) = off_below hs c \<and> saved_ok ls hs c"

definition on_top :: "nat \<Rightarrow> nat list \<Rightarrow> bool" where
  "on_top l hs \<longleftrightarrow> hs = l # tl hs"

fun flag_ok :: "(nat \<Rightarrow> SpinLock) \<Rightarrow> spin_core \<Rightarrow> spin_pc \<Rightarrow> bool" where
  "flag_ok ls c (Disabled _ _ was) \<longleftrightarrow> saved_ok ls (held c) c \<and> cli c \<and> was = off_below (held c) c"
| "flag_ok ls c (Lost _ _ was) \<longleftrightarrow> saved_ok ls (held c) c \<and> cli c \<and> was = off_below (held c) c"
| "flag_ok ls c (Won l was) \<longleftrightarrow>
     saved_ok ls (tl (held c)) c \<and> cli c \<and> on_top l (held c) \<and> was = off_below (tl (held c)) c"
| "flag_ok ls c (Freeing l _ _ was) \<longleftrightarrow>
     saved_ok ls (held c) c \<and> cli c \<and> on_top l (held c) \<and> was = off_below (tl (held c)) c"
| "flag_ok ls c (Restoring _ _ was) \<longleftrightarrow> saved_ok ls (held c) c \<and> cli c \<and> was = off_below (held c) c"
| "flag_ok ls c pc \<longleftrightarrow> saved_ok ls (held c) c \<and> cli c = off_below (held c) c \<and>
     (case inside pc of None \<Rightarrow> True | Some l \<Rightarrow> on_top l (held c))"

definition flags_ok :: "spin_state \<Rightarrow> bool" where
  "flags_ok s \<longleftrightarrow> (\<forall>i. flag_ok (lock_at s) (core_at s i) (spc (core_at s i)))"

lemma saved_ok_cong:
  "(\<And>l. l \<in> set hs \<Longrightarrow> was_disabled (ls' l) = was_disabled (ls l)) \<Longrightarrow> outside c' = outside c \<Longrightarrow>
   saved_ok ls' hs c' = saved_ok ls hs c"
  by (induction hs) (auto simp: off_below_def)

lemma flag_ok_cong:
  assumes "\<And>l. l \<in> set (held c) \<Longrightarrow> was_disabled (ls' l) = was_disabled (ls l)"
  shows "flag_ok ls' c pc = flag_ok ls c pc"
proof -
  have "set (tl (held c)) \<subseteq> set (held c)"
    by (cases "held c") auto
  then have "l \<in> set (tl (held c)) \<Longrightarrow> was_disabled (ls' l) = was_disabled (ls l)" for l
    using assms [of l] by blast
  then have "saved_ok ls' (held c) c = saved_ok ls (held c) c" "saved_ok ls' (tl (held c)) c = saved_ok ls (tl (held c)) c"
    using assms by (simp_all cong: saved_ok_cong)
  then show ?thesis
    by (cases pc) auto
qed

text \<open>A step of one core, which writes at most the field of a lock it has on top.\<close>

lemma flags_step:
  assumes "flags_ok s" and own: "owners_ok s"
    and cores: "core_at s' = (core_at s)(i := c)"
    and locks: "\<And>l. l \<notin> set (held (core_at s i)) \<Longrightarrow> was_disabled (lock_at s' l) = was_disabled (lock_at s l)"
    and c: "flag_ok (lock_at s') c (spc c)"
  shows "flags_ok s'"
  unfolding flags_ok_def
proof
  fix j
  show "flag_ok (lock_at s') (core_at s' j) (spc (core_at s' j))"
  proof (cases "j = i")
    case False
    then have "l \<in> set (held (core_at s j)) \<Longrightarrow> was_disabled (lock_at s' l) = was_disabled (lock_at s l)" for l
      using own locks [of l] unfolding owners_ok_def by blast
    then show ?thesis
      using assms(1) False cores by (simp add: flags_ok_def flag_ok_cong [of _ "lock_at s'" "lock_at s"])
  qed (use c cores in simp)
qed

lemma saved_ok_update:
  "outside c' = outside c \<Longrightarrow> (\<And>l. was_disabled (ls' l) = was_disabled (ls l)) \<Longrightarrow> saved_ok ls' hs c' = saved_ok ls hs c"
  by (rule saved_ok_cong) auto

lemma off_below_simps [simp]:
  "off_below hs (c\<lparr>spc := p\<rparr>) = off_below hs c" "off_below hs (c\<lparr>cli := b\<rparr>) = off_below hs c"
  "off_below hs (c\<lparr>held := hl\<rparr>) = off_below hs c" "off_below (h # hs) c" "off_below [] c = outside c"
  by (simp_all add: off_below_def)

lemma saved_ok_simps [simp]:
  "saved_ok ls hs (c\<lparr>spc := p\<rparr>) = saved_ok ls hs c" "saved_ok ls hs (c\<lparr>cli := b\<rparr>) = saved_ok ls hs c"
  "saved_ok ls hs (c\<lparr>held := h\<rparr>) = saved_ok ls hs c"
  "saved_ok (ls(l := (ls l)\<lparr>taken := t\<rparr>)) hs c = saved_ok ls hs c"
  "saved_ok (ls(l := (ls l)\<lparr>lock_start := st\<rparr>)) hs c = saved_ok ls hs c"
  "saved_ok (ls(l := (ls l)\<lparr>count_it := t\<rparr>)) hs c = saved_ok ls hs c"
  by (rule saved_ok_cong; simp)+

lemma saved_ok_elsewhere [simp]:
  "l \<notin> set hs \<Longrightarrow> saved_ok (ls(l := x)) hs c = saved_ok ls hs c"
  by (rule saved_ok_cong) auto

lemma on_topE: "on_top l hs \<Longrightarrow> (\<And>rest. hs = l # rest \<Longrightarrow> thesis) \<Longrightarrow> thesis"
  by (auto simp: on_top_def)

lemma on_top_Cons [simp]: "on_top l (h # hs) \<longleftrightarrow> h = l"
  by (auto simp: on_top_def)

lemma trylock_flags:
  assumes "trylock_step tsc i pc c s = Some s'" and "flags_ok s" "owners_ok s" "c = core_at s i" "spc c = pc"
  shows "flags_ok s'"
proof -
  have "flag_ok (lock_at s) c pc" "distinct (held c)"
    using assms by (auto simp: flags_ok_def owners_ok_def)
  with assms show ?thesis
    by (cases pc; intro flags_step [OF assms(2,3), of s' i "core_at s' i"])
      (auto simp: spin_defs elim!: on_topE split: if_splits)
qed

lemma unlock_flags:
  assumes "unlock_step tsc i pc c s = Some s'" and "flags_ok s" "owners_ok s" "c = core_at s i" "spc c = pc"
  shows "flags_ok s'"
proof -
  have "flag_ok (lock_at s) c pc" "distinct (held c)"
    using assms by (auto simp: flags_ok_def owners_ok_def)
  with assms show ?thesis
    by (cases pc; intro flags_step [OF assms(2,3), of s' i "core_at s' i"])
      (auto simp: spin_defs elim!: on_topE split: if_splits)
qed

lemma update_flags:
  assumes "update_step i pc c s = Some s'" and "flags_ok s" "owners_ok s" "c = core_at s i" "spc c = pc"
  shows "flags_ok s'"
proof -
  have "flag_ok (lock_at s) c pc"
    using assms by (auto simp: flags_ok_def)
  with assms show ?thesis
    by (cases pc; intro flags_step [OF assms(2,3), of s' i "core_at s' i"]) (auto simp: spin_defs split: if_splits)
qed

lemma flags_run:
  "spin_run es s = Some s' \<Longrightarrow> nested es s \<Longrightarrow> owners_ok s \<Longrightarrow> flags_ok s \<Longrightarrow> flags_ok s'"
proof (induction es arbitrary: s)
  case (Cons e es)
  obtain i ev where e: "e = (i, ev)"
    by (cases e)
  with Cons.prems obtain s1 where s1: "spin_step (i, ev) s = Some s1" "spin_run es s1 = Some s'" "nested es s1"
    by (auto split: option.splits)
  from s1(1) have "flags_ok s1"
  proof (cases rule: spin_step_cases)
    case (release l)
    then have "on_top l (held (core_at s i))"
      using Cons.prems(2) e by (cases "held (core_at s i)") auto
    then show ?thesis
      using release Cons.prems(3,4)
      by (intro flags_step [OF Cons.prems(4,3), of s1 i "core_at s1 i"])
        (auto simp: spin_defs flags_ok_def elim!: on_topE dest!: spec [of _ i])
  next
    case (call loop l)
    then show ?thesis
      using Cons.prems(3,4) by (intro flags_step [OF Cons.prems(4,3), of s1 i "core_at s1 i"])
        (auto simp: spin_defs flags_ok_def dest!: spec [of _ i])
  next
    case (flag b)
    then show ?thesis
      using Cons.prems(3,4) by (intro flags_step [OF Cons.prems(4,3), of s1 i "core_at s1 i"])
        (auto simp: spin_defs flags_ok_def dest!: spec [of _ i])
  qed (use Cons.prems trylock_flags unlock_flags update_flags in blast)+
  then show ?case
    using Cons.IH [OF s1(2,3)] owners_step [OF s1(1)] Cons.prems(3) by blast
qed simp

section \<open>The maximum\<close>

definition max_ok :: "spin_state \<Rightarrow> bool" where
  "max_ok s \<longleftrightarrow> max_cycles s = foldr max (measured s) 0 \<and>
     (\<forall>i v old. spc (core_at s i) = Max_swap v old \<longrightarrow> old < v)"

lemma max_same:
  assumes "max_ok s" and "max_cycles s' = max_cycles s" "measured s' = measured s"
    and "core_at s' = (core_at s)(i := c)" and "\<And>v old. spc c = Max_swap v old \<Longrightarrow> old < v"
  shows "max_ok s'"
  using assms by (simp add: max_ok_def)

lemma update_max:
  assumes "update_step i pc c s = Some s'" and "max_ok s" and "c = core_at s i" "spc c = pc"
  shows "max_ok s'"
  using assms
  by (cases pc) (auto simp: spin_defs max_ok_def max_absorb1 max_absorb2 less_imp_le split: if_splits)

lemma max_step:
  assumes "spin_step e s = Some s'" and "max_ok s"
  shows "max_ok s'"
proof (cases e)
  case (Pair i ev)
  with assms(1) have "spin_step (i, ev) s = Some s'"
    by simp
  then show ?thesis
  proof (cases rule: spin_step_cases)
    case (try_lock tsc)
    then show ?thesis
      by (cases "spc (core_at s i)"; intro max_same [OF assms(2), of s' i "core_at s' i"])
        (auto simp: spin_defs split: if_splits)
  next
    case (unlock tsc)
    then show ?thesis
      by (cases "spc (core_at s i)"; intro max_same [OF assms(2), of s' i "core_at s' i"])
        (auto simp: spin_defs split: if_splits)
  next
    case (update tsc)
    then show ?thesis
      using update_max assms(2) by blast
  qed (intro max_same [OF assms(2), of s' i "core_at s' i"]; simp add: spin_defs)+
qed

lemma max_run: "spin_run es s = Some s' \<Longrightarrow> max_ok s \<Longrightarrow> max_ok s'"
  by (induction es arbitrary: s) (auto split: option.splits dest: max_step)

section \<open>What the lock promises\<close>

lemma start_ok: "owners_ok (spin_start off)" "flags_ok (spin_start off)" "max_ok (spin_start off)"
  by (simp_all add: spin_start_def owners_ok_def flags_ok_def max_ok_def free_lock_def off_below_def)

lemma spin_exclusive:
  assumes "owners_ok s"
  shows "i \<noteq> j \<Longrightarrow> set (held (core_at s i)) \<inter> set (held (core_at s j)) = {}"
    and "taken (lock_at s l) \<longleftrightarrow> (\<exists>i. l \<in> set (held (core_at s i)))"
    and "inside (spc (core_at s i)) = Some l \<Longrightarrow> inside (spc (core_at s j)) = Some l \<Longrightarrow> i = j"
  using assms owners_inside [OF assms] unfolding owners_ok_def by blast+

lemma spin_interrupts:
  assumes "flags_ok s"
  shows "held (core_at s i) \<noteq> [] \<Longrightarrow> cli (core_at s i)"
    and "spc (core_at s i) = At_rest \<Longrightarrow> cli (core_at s i) = (held (core_at s i) \<noteq> [] \<or> outside (core_at s i))"
proof -
  have "flag_ok (lock_at s) (core_at s i) (spc (core_at s i))"
    using assms by (simp add: flags_ok_def)
  then show "held (core_at s i) \<noteq> [] \<Longrightarrow> cli (core_at s i)"
    and "spc (core_at s i) = At_rest \<Longrightarrow> cli (core_at s i) = (held (core_at s i) \<noteq> [] \<or> outside (core_at s i))"
    by (cases "spc (core_at s i)"; auto simp: off_below_def)+
qed

text \<open>C13. Whatever the cores do and in whatever order their steps come, a spin lock is held by at most one core, it
  is marked taken exactly while one holds it, and two cores are never at the fields of one lock at once; the largest
  critical section on record is the largest that was measured, although cores update it without a lock. When locks
  are released in the opposite order of their taking, the interrupts of a core are off while it holds one, so that no
  handler can wait for it, and when it holds none they are as the core had left them.\<close>

theorem spin_lock_safe:
  assumes "spin_run es (spin_start off) = Some s"
  shows "(\<forall>i j. i \<noteq> j \<longrightarrow> set (held (core_at s i)) \<inter> set (held (core_at s j)) = {}) \<and>
     (\<forall>l. taken (lock_at s l) \<longleftrightarrow> (\<exists>i. l \<in> set (held (core_at s i)))) \<and>
     (\<forall>i j l. inside (spc (core_at s i)) = Some l \<longrightarrow> inside (spc (core_at s j)) = Some l \<longrightarrow> i = j) \<and>
     max_cycles s = foldr max (measured s) 0 \<and>
     (nested es (spin_start off) \<longrightarrow> (\<forall>i.
        (held (core_at s i) \<noteq> [] \<longrightarrow> cli (core_at s i)) \<and>
        (spc (core_at s i) = At_rest \<longrightarrow> cli (core_at s i) = (held (core_at s i) \<noteq> [] \<or> outside (core_at s i)))))"
proof -
  have own: "owners_ok s" and max: "max_ok s" and flags: "nested es (spin_start off) \<Longrightarrow> flags_ok s"
    using owners_run [OF assms] max_run [OF assms] flags_run [OF assms] start_ok by blast+
  show ?thesis
  proof (intro conjI allI impI)
    show "max_cycles s = foldr max (measured s) 0"
      using max by (simp add: max_ok_def)
  qed (use spin_exclusive [OF own] spin_interrupts [OF flags] in blast)+
qed

section \<open>Runs of two cores\<close>

text \<open>All the steps of one call.\<close>

definition whole_lock :: "nat \<Rightarrow> nat \<Rightarrow> (nat \<times> spin_event) list" where
  "whole_lock i l = (i, Call_lock l) # replicate 4 (i, Go 5)"

definition whole_unlock :: "nat \<Rightarrow> nat \<Rightarrow> (nat \<times> spin_event) list" where
  "whole_unlock i l = (i, Call_unlock l) # replicate 7 (i, Go 9)"

text \<open>Core 1 tries lock 0 while core 0, which had interrupts on, has both locks.\<close>

definition two_locks :: "(nat \<times> spin_event) list" where
  "two_locks = whole_lock 0 0 @ whole_lock 0 1 @
     [(1, Call_trylock 0), (1, Go 6), (1, Go 6), (1, Go 6)] @ whole_unlock 0 1 @ whole_unlock 0 0"

definition wrong_order :: "(nat \<times> spin_event) list" where
  "wrong_order = whole_lock 0 0 @ whole_lock 0 1 @ whole_unlock 0 0"

lemma two_locks_run:
  "\<exists>s. spin_run two_locks (spin_start (\<lambda>_. False)) = Some s \<and> held (core_at s 0) = [] \<and> \<not> cli (core_at s 0)"
  "nested two_locks (spin_start (\<lambda>_. False))"
  by (simp_all add: two_locks_def whole_lock_def whole_unlock_def spin_start_def free_lock_def spin_defs
      numeral_eq_Suc Let_def)

text \<open>Releasing the lock taken first before the other enables interrupts while a lock is held, and leaves them off
  when none is.\<close>

lemma wrong_order_enables:
  "\<exists>s. spin_run wrong_order (spin_start (\<lambda>_. False)) = Some s \<and> held (core_at s 0) = [1] \<and> \<not> cli (core_at s 0)"
  by (simp add: wrong_order_def whole_lock_def whole_unlock_def spin_start_def free_lock_def spin_defs
      numeral_eq_Suc Let_def)

theorem spin_lock_safe_witness:
  "\<exists>s. spin_run two_locks (spin_start (\<lambda>_. False)) = Some s \<and> max_cycles s = foldr max (measured s) 0 \<and>
     (\<forall>i. spc (core_at s i) = At_rest \<longrightarrow> cli (core_at s i) = (held (core_at s i) \<noteq> [] \<or> outside (core_at s i)))"
  using two_locks_run spin_lock_safe [of two_locks "\<lambda>_. False"] by blast

end
