(* ===== verification/Sched.thy ===== *)
theory Sched
  imports Prelude
begin

text \<open>
  The threads of \<^verbatim>\<open>thread.cc\<close> on several cores: creating, yielding, waiting on a condition, stopping, the
  idle loop and the reaper. A core that has switched from one thread to another still has to put the old
  one away (\<open>post_switch\<close>); other cores can run in between, so that this is a step of its own, and so is the
  switch of a thread that has entered \<open>Condition::wait\<close> and released the lock. The queues are lists,
  which \<open>Queue\<close> justifies. Threads are numbered by their creation, the idle threads of the cores first.
\<close>

section \<open>The state\<close>

datatype Action = Act_Ready | Act_Stop | Act_Wait | Act_None

text \<open>What a core is doing: running its thread, inside \<open>Condition::wait\<close> with the lock released, or just switched from a thread.\<close>

datatype core_phase = Runs | Enters_wait nat | Switched nat

record core_state =
  idle_thread :: nat
  running :: nat
  cphase :: core_phase

record condition =
  cnd_epoch :: u64
  cnd_waiting :: "nat list"

text \<open>The fields of thread control blocks are functions of the thread.\<close>

record sched =
  th_action :: "nat \<Rightarrow> Action"
  th_cond :: "nat \<Rightarrow> nat"
  th_epoch :: "nat \<Rightarrow> u64"
  sched_cores :: "core_state list"
  sched_conds :: "condition list"
  ready_queue :: "nat list"
  reaper_queue :: "nat list"
  n_active :: u64
  next_thread :: nat
  dead_threads :: "nat list"
  powered_off :: bool

definition is_idle :: "sched \<Rightarrow> nat \<Rightarrow> bool" where
  "is_idle s t \<longleftrightarrow> t \<in> idle_thread ` set (sched_cores s)"

definition put_core :: "nat \<Rightarrow> core_state \<Rightarrow> sched \<Rightarrow> sched" where
  "put_core c k s = s\<lparr>sched_cores := (sched_cores s)[c := k]\<rparr>"

definition put_cond :: "nat \<Rightarrow> condition \<Rightarrow> sched \<Rightarrow> sched" where
  "put_cond k cnd s = s\<lparr>sched_conds := (sched_conds s)[k := cnd]\<rparr>"

section \<open>The reaper\<close>

fun reap_list :: "nat list \<Rightarrow> sched \<Rightarrow> sched" where
  "reap_list [] s = s"
| "reap_list (tcb # rest) s =
     (let s1 = s\<lparr>reaper_queue := rest, dead_threads := tcb # dead_threads s, n_active := n_active s - 1\<rparr>
      in if n_active s1 = 0 then s1\<lparr>powered_off := True\<rparr> else reap_list rest s1)"

definition reap :: "sched \<Rightarrow> sched" where
  "reap s = reap_list (reaper_queue s) s"

section \<open>Threads\<close>

definition make_thread :: "sched \<Rightarrow> sched" where
  "make_thread s =
     (let s1 = reap (s\<lparr>n_active := n_active s + 1\<rparr>);
          tcb = next_thread s1
      in if powered_off s1 then s1
         else s1\<lparr>next_thread := tcb + 1, ready_queue := ready_queue s1 @ [tcb]\<rparr>)"

text \<open>The old thread \<open>me\<close> notes what is to be done with it, then the core goes on with another one.\<close>

definition context_switch :: "nat \<Rightarrow> Action \<Rightarrow> nat \<Rightarrow> sched \<Rightarrow> sched" where
  "context_switch c act next s =
     (let k = sched_cores s ! c; me = running k
      in put_core c (k\<lparr>running := next, cphase := Switched me\<rparr>) (s\<lparr>th_action := (th_action s)(me := act)\<rparr>))"

definition yield :: "nat \<Rightarrow> sched \<Rightarrow> sched outcome" where
  "yield c s =
     (let me = running (sched_cores s ! c)
      in case ready_queue s of
           [] \<Rightarrow> Inr s
         | next # rest \<Rightarrow>
             bind_outcome (assert_that (me \<noteq> next) ''me != next'') (\<lambda>_.
               Inr (context_switch c Act_Ready next (s\<lparr>ready_queue := rest\<rparr>))))"

definition stop :: "nat \<Rightarrow> sched \<Rightarrow> sched outcome" where
  "stop c s =
     (let me = running (sched_cores s ! c)
      in bind_outcome (assert_that (\<not> is_idle s me) ''!me->is_idle'') (\<lambda>_.
         case ready_queue s of
           [] \<Rightarrow> Inr (context_switch c Act_Stop (idle_thread (sched_cores s ! c)) s)
         | next # rest \<Rightarrow>
             bind_outcome (assert_that (\<not> is_idle s next) ''!next->is_idle'') (\<lambda>_.
               Inr (context_switch c Act_Stop next (s\<lparr>ready_queue := rest\<rparr>)))))"

text \<open>One round of the loop of an idle thread.\<close>

definition event_loop :: "nat \<Rightarrow> sched \<Rightarrow> sched outcome" where
  "event_loop c s =
     (let s1 = reap s
      in if powered_off s1 then Inr s1
         else
           case ready_queue s1 of
             [] \<Rightarrow> Inr s1
           | next # rest \<Rightarrow>
               bind_outcome (assert_that (\<not> is_idle s next) ''!next->is_idle'') (\<lambda>_.
                 Inr (context_switch c Act_None next (s1\<lparr>ready_queue := rest\<rparr>))))"

section \<open>Conditions\<close>

text \<open>\<open>Condition::wait\<close> up to the release of the lock, and from there to the switch.\<close>

definition wait_enter :: "nat \<Rightarrow> nat \<Rightarrow> sched \<Rightarrow> sched" where
  "wait_enter c k s =
     (let me = running (sched_cores s ! c)
      in if is_idle s me then s
         else put_core c ((sched_cores s ! c)\<lparr>cphase := Enters_wait k\<rparr>)
                (s\<lparr>th_epoch := (th_epoch s)(me := cnd_epoch (sched_conds s ! k))\<rparr>))"

definition wait_switch :: "nat \<Rightarrow> nat \<Rightarrow> sched \<Rightarrow> sched" where
  "wait_switch c k s =
     (let me = running (sched_cores s ! c)
      in case ready_queue s of
           [] \<Rightarrow> put_core c ((sched_cores s ! c)\<lparr>cphase := Runs\<rparr>) s
         | next # rest \<Rightarrow> context_switch c Act_Wait next (s\<lparr>ready_queue := rest, th_cond := (th_cond s)(me := k)\<rparr>))"

text \<open>The notified threads are made ready in the same step; that the loop over them moves each one is shown in \<open>Queue\<close>.\<close>

definition notify_first :: "nat \<Rightarrow> sched \<Rightarrow> sched" where
  "notify_first k s =
     (let cnd = sched_conds s ! k
      in case cnd_waiting cnd of
           [] \<Rightarrow> put_cond k (cnd\<lparr>cnd_epoch := cnd_epoch cnd + 1\<rparr>) s
         | tcb # rest \<Rightarrow>
             (put_cond k (cnd\<lparr>cnd_epoch := cnd_epoch cnd + 1, cnd_waiting := rest\<rparr>) s)\<lparr>ready_queue := ready_queue s @ [tcb]\<rparr>)"

definition notify_every :: "nat \<Rightarrow> sched \<Rightarrow> sched" where
  "notify_every k s =
     (let cnd = sched_conds s ! k
      in (put_cond k (cnd\<lparr>cnd_epoch := cnd_epoch cnd + 1, cnd_waiting := []\<rparr>) s)\<lparr>ready_queue := ready_queue s @ cnd_waiting cnd\<rparr>)"

section \<open>After a switch\<close>

definition finish_switch :: "nat \<Rightarrow> nat \<Rightarrow> sched \<Rightarrow> sched outcome" where
  "finish_switch c prev s0 =
     (let s = put_core c ((sched_cores s0 ! c)\<lparr>cphase := Runs\<rparr>) s0
      in case th_action s prev of
           Act_Ready \<Rightarrow>
             bind_outcome (assert_that (\<not> is_idle s prev) ''!is_idle'') (\<lambda>_. Inr (s\<lparr>ready_queue := ready_queue s @ [prev]\<rparr>))
         | Act_Stop \<Rightarrow>
             bind_outcome (assert_that (\<not> is_idle s prev) ''!is_idle'') (\<lambda>_. Inr (s\<lparr>reaper_queue := reaper_queue s @ [prev]\<rparr>))
         | Act_Wait \<Rightarrow>
             bind_outcome (assert_that (\<not> is_idle s prev) ''!is_idle'') (\<lambda>_.
               let k = th_cond s prev; cnd = sched_conds s ! k
               in if cnd_epoch cnd = th_epoch s prev then Inr (put_cond k (cnd\<lparr>cnd_waiting := cnd_waiting cnd @ [prev]\<rparr>) s)
                  else Inr (s\<lparr>ready_queue := ready_queue s @ [prev]\<rparr>))
         | Act_None \<Rightarrow> Inr s)"

section \<open>Any order of steps\<close>

text \<open>
  What a core can do next. Only threads that are not idle yield, stop or wait; a step that is not possible in a
  state, or on a machine that is off, changes nothing.
\<close>

datatype sched_event =
    Ev_create nat
  | Ev_yield nat
  | Ev_stop nat
  | Ev_idle nat
  | Ev_reap nat
  | Ev_wait nat nat
  | Ev_go_on nat
  | Ev_notify nat nat
  | Ev_notify_all nat nat

definition core_runs :: "nat \<Rightarrow> sched \<Rightarrow> bool" where
  "core_runs c s \<longleftrightarrow> \<not> powered_off s \<and> c < length (sched_cores s) \<and> cphase (sched_cores s ! c) = Runs"

definition in_thread :: "nat \<Rightarrow> sched \<Rightarrow> bool" where
  "in_thread c s \<longleftrightarrow> core_runs c s \<and> \<not> is_idle s (running (sched_cores s ! c))"

fun sched_step :: "sched_event \<Rightarrow> sched \<Rightarrow> sched outcome" where
  "sched_step (Ev_create c) s = (if core_runs c s then Inr (make_thread s) else Inr s)"
| "sched_step (Ev_yield c) s = (if in_thread c s then yield c s else Inr s)"
| "sched_step (Ev_stop c) s = (if in_thread c s then stop c s else Inr s)"
| "sched_step (Ev_idle c) s = (if core_runs c s \<and> \<not> in_thread c s then event_loop c s else Inr s)"
| "sched_step (Ev_reap c) s = (if core_runs c s then Inr (reap s) else Inr s)"
| "sched_step (Ev_wait c k) s = (if core_runs c s \<and> k < length (sched_conds s) then Inr (wait_enter c k s) else Inr s)"
| "sched_step (Ev_go_on c) s =
     (if powered_off s \<or> length (sched_cores s) \<le> c then Inr s
      else case cphase (sched_cores s ! c) of
             Runs \<Rightarrow> Inr s
           | Enters_wait k \<Rightarrow> Inr (wait_switch c k s)
           | Switched prev \<Rightarrow> finish_switch c prev s)"
| "sched_step (Ev_notify c k) s = (if core_runs c s \<and> k < length (sched_conds s) then Inr (notify_first k s) else Inr s)"
| "sched_step (Ev_notify_all c k) s = (if core_runs c s \<and> k < length (sched_conds s) then Inr (notify_every k s) else Inr s)"

fun sched_run :: "sched_event list \<Rightarrow> sched \<Rightarrow> sched outcome" where
  "sched_run [] s = Inr s"
| "sched_run (e # es) s = bind_outcome (sched_step e s) (sched_run es)"

text \<open>
  After start-up each of the \<open>n\<close> cores runs its idle thread. The fields of control blocks that
  \<open>TCB::alloc\<close> does not set are arbitrary.
\<close>

definition sched_boot :: "nat \<Rightarrow> nat \<Rightarrow> (nat \<Rightarrow> Action) \<Rightarrow> (nat \<Rightarrow> nat) \<Rightarrow> (nat \<Rightarrow> u64) \<Rightarrow> sched" where
  "sched_boot n conds act cnd ep =
     \<lparr>th_action = act, th_cond = cnd, th_epoch = ep,
      sched_cores = map (\<lambda>i. \<lparr>idle_thread = i, running = i, cphase = Runs\<rparr>) [0..<n],
      sched_conds = replicate conds \<lparr>cnd_epoch = 0, cnd_waiting = []\<rparr>,
      ready_queue = [], reaper_queue = [], n_active = 0, next_thread = n, dead_threads = [], powered_off = False\<rparr>"

end
