(* ===== verification/Sched_Spec.thy ===== *)
theory Sched_Spec
  imports Sched "HOL-Library.Multiset"
begin

text \<open>
  What the scheduler guarantees on any number of cores, whatever the order of their steps: every thread is in
  one place, so that none runs on two cores and no stack is freed under a thread; the machine is switched off
  exactly when all threads are gone. On one core, yielding is round robin.
\<close>

section \<open>Where the threads are\<close>

text \<open>The threads a core holds, idle ones not counted: the one it runs and the one it still has to put away.\<close>

definition core_threads :: "nat set \<Rightarrow> core_state \<Rightarrow> nat multiset" where
  "core_threads idle k =
     filter_mset (\<lambda>t. t \<notin> idle) ({#running k#} + (case cphase k of Switched prev \<Rightarrow> {#prev#} | _ \<Rightarrow> {#}))"

definition places :: "sched \<Rightarrow> nat multiset" where
  "places s =
     mset (ready_queue s) + mset (reaper_queue s) + sum_list (map (\<lambda>cnd. mset (cnd_waiting cnd)) (sched_conds s)) +
     sum_list (map (core_threads (Collect (is_idle s))) (sched_cores s))"

definition live_threads :: "sched \<Rightarrow> nat set" where
  "live_threads s = {t. t < next_thread s \<and> \<not> is_idle s t \<and> t \<notin> set (dead_threads s)}"

text \<open>An idle thread is on its own core, and when that has switched away from it there is nothing to be done.\<close>

definition core_ok :: "sched \<Rightarrow> core_state \<Rightarrow> bool" where
  "core_ok s k \<longleftrightarrow>
     (is_idle s (running k) \<longrightarrow> running k = idle_thread k \<and> (\<forall>cnd. cphase k \<noteq> Enters_wait cnd)) \<and>
     (\<forall>prev. cphase k = Switched prev \<longrightarrow> prev \<noteq> running k \<and>
        (if is_idle s prev then prev = idle_thread k \<and> th_action s prev = Act_None
         else th_action s prev \<noteq> Act_None \<and> (th_action s prev = Act_Wait \<longrightarrow> th_cond s prev < length (sched_conds s)))) \<and>
     (\<forall>cnd. cphase k = Enters_wait cnd \<longrightarrow> cnd < length (sched_conds s))"

text \<open>\<open>d\<close> is 1 while a thread is created that is counted already, else 0.\<close>

definition inv_with :: "nat \<Rightarrow> sched \<Rightarrow> bool" where
  "inv_with d s \<longleftrightarrow>
     distinct (map idle_thread (sched_cores s)) \<and> (\<forall>t. is_idle s t \<longrightarrow> t < next_thread s) \<and>
     (\<forall>k \<in> set (sched_cores s). core_ok s k) \<and>
     (\<forall>t \<in> set (dead_threads s). t < next_thread s) \<and>
     places s = mset_set (live_threads s) \<and> unat (n_active s) = card (live_threads s) + d \<and>
     (powered_off s \<longleftrightarrow> d = 0 \<and> live_threads s = {} \<and> dead_threads s \<noteq> [])"

definition sched_inv :: "sched \<Rightarrow> bool" where
  "sched_inv s \<longleftrightarrow> inv_with 0 s"


lemma sum_list_update_mset:
  fixes f :: "'a \<Rightarrow> 'b multiset"
  assumes "i < length xs"
  shows "sum_list (map f (xs[i := y])) + f (xs ! i) = sum_list (map f xs) + f y"
  using assms
proof (induction xs arbitrary: i)
  case (Cons x xs)
  then show ?case
  proof (cases i)
    case (Suc j)
    then have "sum_list (map f (xs[j := y])) + f (xs ! j) = sum_list (map f xs) + f y"
      using Cons by simp
    then show ?thesis
      using Suc by (simp add: add.assoc)
  qed (simp add: ac_simps)
qed simp

lemma sum_list_member_mset:
  fixes f :: "'a \<Rightarrow> 'b multiset"
  shows "i < length xs \<Longrightarrow> f (xs ! i) \<subseteq># sum_list (map f xs)"
  using sum_list_update_mset [of i xs f] by (metis list_update_id mset_subset_eq_add_left nth_mem split_list_first sum_list_map_remove1 union_commute)

lemma sum_list_two_mset:
  fixes f :: "'a \<Rightarrow> 'b multiset"
  shows "i < length xs \<Longrightarrow> j < length xs \<Longrightarrow> i \<noteq> j \<Longrightarrow> f (xs ! i) + f (xs ! j) \<subseteq># sum_list (map f xs)"
proof (induction xs arbitrary: i j)
  case (Cons x xs)
  show ?case
  proof (cases i)
    case 0
    then obtain j' where "j = Suc j'" "j' < length xs"
      using Cons.prems by (cases j) auto
    then show ?thesis
      using 0 sum_list_member_mset [of j' xs f] by simp
  next
    case (Suc i')
    show ?thesis
    proof (cases j)
      case 0
      then show ?thesis
        using Suc Cons.prems sum_list_member_mset [of i' xs f] by (simp add: union_commute)
    next
      case (Suc j')
      then show ?thesis
        using \<open>i = Suc i'\<close> Cons.prems Cons.IH [of i' j'] by (simp add: subset_mset.add_increasing)
    qed
  qed
qed simp

lemma is_idle_list: "is_idle s t \<longleftrightarrow> t \<in> set (map idle_thread (sched_cores s))"
  by (simp add: is_idle_def)

lemma is_idle_cong: "map idle_thread (sched_cores s') = map idle_thread (sched_cores s) \<Longrightarrow> is_idle s' = is_idle s"
  by (rule ext) (metis is_idle_list)

lemma sched_invD:
  assumes "sched_inv s"
  shows "distinct (map idle_thread (sched_cores s))" and "is_idle s t \<Longrightarrow> t < next_thread s"
    and "c < length (sched_cores s) \<Longrightarrow> core_ok s (sched_cores s ! c)"
    and "places s = mset_set (live_threads s)" and "unat (n_active s) = card (live_threads s)"
    and "powered_off s \<longleftrightarrow> live_threads s = {} \<and> dead_threads s \<noteq> []"
  using assms nth_mem [of c "sched_cores s"] by (auto simp: sched_inv_def inv_with_def)

lemma live_finite [simp]: "finite (live_threads s)"
  by (simp add: live_threads_def)

text \<open>A place holds live threads, and no thread is in two.\<close>

lemma places_live:
  assumes "sched_inv s" and "t \<in># places s"
  shows "t \<in> live_threads s" and "\<not> is_idle s t" and "count (places s) t = 1"
  using assms(2) sched_invD(4) [OF assms(1)] by (simp_all add: live_threads_def)

lemma ready_live: "sched_inv s \<Longrightarrow> t \<in> set (ready_queue s) \<Longrightarrow> \<not> is_idle s t"
  by (rule places_live(2)) (auto simp: places_def)

lemma core_places:
  assumes "c < length (sched_cores s)"
  shows "core_threads (Collect (is_idle s)) (sched_cores s ! c) \<subseteq># places s"
  using sum_list_member_mset [OF assms, of "core_threads (Collect (is_idle s))"] by (simp add: places_def subset_mset.add_increasing)

lemma running_place: "c < length (sched_cores s) \<Longrightarrow> \<not> is_idle s (running (sched_cores s ! c)) \<Longrightarrow> running (sched_cores s ! c) \<in># places s"
  by (rule mset_subset_eqD [OF core_places]) (auto simp: core_threads_def)

lemma running_not_ready:
  assumes inv: "sched_inv s" and c: "c < length (sched_cores s)" and t: "t \<in> set (ready_queue s)"
  shows "running (sched_cores s ! c) \<noteq> t"
proof
  assume eq: "running (sched_cores s ! c) = t"
  have ni: "\<not> is_idle s t"
    by (rule ready_live [OF inv t])
  then have "{#t#} \<subseteq># core_threads (Collect (is_idle s)) (sched_cores s ! c)"
    by (simp add: core_threads_def eq)
  then have "{#t#} \<subseteq># sum_list (map (core_threads (Collect (is_idle s))) (sched_cores s))"
    using sum_list_member_mset [OF c, of "core_threads (Collect (is_idle s))"] by (rule subset_mset.order_trans)
  then have "1 \<le> count (sum_list (map (core_threads (Collect (is_idle s))) (sched_cores s))) t"
    using mset_subset_eq_count [of "{#t#}" _ t] by simp
  moreover have "1 \<le> count (mset (ready_queue s)) t"
    using t by (simp add: Suc_le_eq)
  ultimately have "2 \<le> count (places s) t"
    unfolding places_def count_union by linarith
  moreover have "t \<in># places s"
    using t by (simp add: places_def)
  ultimately show False
    using places_live(3) [OF inv, of t] by simp
qed

lemma other_prev:
  assumes inv: "sched_inv s" and i: "i < length (sched_cores s)" and c: "c < length (sched_cores s)" "i \<noteq> c"
    and prev: "cphase (sched_cores s ! i) = Switched prev"
  shows "prev \<noteq> running (sched_cores s ! c)"
proof
  assume eq: "prev = running (sched_cores s ! c)"
  note ok = sched_invD(3) [OF inv i] sched_invD(3) [OF inv c(1)]
  show False
  proof (cases "is_idle s prev")
    case True
    then have "idle_thread (sched_cores s ! i) = idle_thread (sched_cores s ! c)"
      using ok prev eq by (simp add: core_ok_def)
    then show False
      using sched_invD(1) [OF inv] i c by (simp add: distinct_conv_nth)
  next
    case False
    then have "{#prev#} + {#prev#} \<subseteq># core_threads (Collect (is_idle s)) (sched_cores s ! i) + core_threads (Collect (is_idle s)) (sched_cores s ! c)"
      using prev eq by (intro subset_mset.add_mono) (simp_all add: core_threads_def)
    also have "\<dots> \<subseteq># sum_list (map (core_threads (Collect (is_idle s))) (sched_cores s))"
      by (rule sum_list_two_mset [OF i c])
    also have "\<dots> \<subseteq># places s"
      by (simp add: places_def)
    finally have two: "{#prev, prev#} \<subseteq># places s"
      by simp
    then have "2 \<le> count (places s) prev"
      using mset_subset_eq_count [OF two, of prev] by simp
    moreover have "prev \<in># places s"
      using two by (meson insert_subset_eq_iff mset_subset_eqD union_single_eq_member)
    ultimately show False
      using places_live(3) [OF inv, of prev] by simp
  qed
qed

section \<open>Steps that move threads\<close>

lemma put_core_simps [simp]:
  "th_action (put_core c k s) = th_action s" "th_cond (put_core c k s) = th_cond s" "th_epoch (put_core c k s) = th_epoch s"
  "sched_cores (put_core c k s) = (sched_cores s)[c := k]" "sched_conds (put_core c k s) = sched_conds s"
  "ready_queue (put_core c k s) = ready_queue s" "reaper_queue (put_core c k s) = reaper_queue s" "n_active (put_core c k s) = n_active s"
  "next_thread (put_core c k s) = next_thread s" "dead_threads (put_core c k s) = dead_threads s" "powered_off (put_core c k s) = powered_off s"
  by (simp_all add: put_core_def)

lemma put_cond_simps [simp]:
  "th_action (put_cond c k s) = th_action s" "th_cond (put_cond c k s) = th_cond s" "th_epoch (put_cond c k s) = th_epoch s"
  "sched_cores (put_cond c k s) = sched_cores s" "sched_conds (put_cond c k s) = (sched_conds s)[c := k]"
  "ready_queue (put_cond c k s) = ready_queue s" "reaper_queue (put_cond c k s) = reaper_queue s" "n_active (put_cond c k s) = n_active s"
  "next_thread (put_cond c k s) = next_thread s" "dead_threads (put_cond c k s) = dead_threads s" "powered_off (put_cond c k s) = powered_off s"
  by (simp_all add: put_cond_def)

lemma put_core_idle:
  "c < length (sched_cores s) \<Longrightarrow> idle_thread k = idle_thread (sched_cores s ! c) \<Longrightarrow>
    map idle_thread ((sched_cores s)[c := k]) = map idle_thread (sched_cores s)"
  by (simp add: map_update list_update_same_conv)

lemma inv_moved:
  assumes inv: "sched_inv s" and idle: "map idle_thread (sched_cores s') = map idle_thread (sched_cores s)"
    and same: "next_thread s' = next_thread s" "dead_threads s' = dead_threads s" "n_active s' = n_active s" "powered_off s' = powered_off s"
    and pl: "places s' = places s" and ok: "\<And>k. k \<in> set (sched_cores s') \<Longrightarrow> core_ok s' k"
  shows "sched_inv s'"
proof -
  have i: "is_idle s' = is_idle s"
    by (rule is_idle_cong [OF idle])
  then have live: "live_threads s' = live_threads s"
    by (simp add: live_threads_def same)
  show ?thesis
    using inv ok unfolding sched_inv_def inv_with_def live idle i pl same by auto
qed

lemma exchange:
  fixes a a' x x' f g :: "'a :: cancel_comm_monoid_add"
  assumes "a' + g = a + f" and "x' + f = x + g"
  shows "a' + x' = a + x"
proof -
  have "(a' + x') + (f + g) = (a' + g) + (x' + f)"
    by (simp add: ac_simps)
  also have "\<dots> = (a + x) + (f + g)"
    unfolding assms by (simp add: ac_simps)
  finally show ?thesis
    by (simp only: add_right_cancel)
qed

definition waiters :: "sched \<Rightarrow> nat multiset" where
  "waiters s = sum_list (map (\<lambda>cnd. mset (cnd_waiting cnd)) (sched_conds s))"

lemma waiters_update:
  "k < length (sched_conds s) \<Longrightarrow> sched_conds s' = (sched_conds s)[k := cnd] \<Longrightarrow>
    waiters s' + mset (cnd_waiting (sched_conds s ! k)) = waiters s + mset (cnd_waiting cnd)"
  using sum_list_update_mset [of k "sched_conds s" "\<lambda>cnd. mset (cnd_waiting cnd)" cnd] by (simp add: waiters_def)

lemma places_waiters:
  "places s = mset (ready_queue s) + mset (reaper_queue s) + waiters s + sum_list (map (core_threads (Collect (is_idle s))) (sched_cores s))"
  by (simp add: places_def waiters_def)

text \<open>A core that holds other threads now.\<close>

lemma places_core:
  assumes c: "c < length (sched_cores s)" and idle: "is_idle s' = is_idle s" and s': "sched_cores s' = (sched_cores s)[c := k]"
    and eq: "mset (ready_queue s') + mset (reaper_queue s') + waiters s' + core_threads (Collect (is_idle s)) k =
      mset (ready_queue s) + mset (reaper_queue s) + waiters s + core_threads (Collect (is_idle s)) (sched_cores s ! c)"
  shows "places s' = places s"
proof -
  let ?f = "core_threads (Collect (is_idle s))"
  have "sum_list (map ?f ((sched_cores s)[c := k])) + ?f (sched_cores s ! c) = sum_list (map ?f (sched_cores s)) + ?f k"
    by (rule sum_list_update_mset [OF c])
  from exchange [OF eq this] show ?thesis
    unfolding places_waiters idle s' .
qed

lemma core_ok_update:
  assumes inv: "sched_inv s" and c: "c < length (sched_cores s)" and idle: "is_idle s' = is_idle s"
    and act: "\<And>t. t \<noteq> running (sched_cores s ! c) \<Longrightarrow> th_action s' t = th_action s t \<and> th_cond s' t = th_cond s t"
    and conds: "length (sched_conds s') = length (sched_conds s)" and k: "core_ok s' k" and mem: "k' \<in> set ((sched_cores s)[c := k])"
  shows "core_ok s' k'"
proof -
  obtain i where i: "i < length (sched_cores s)" "k' = (sched_cores s)[c := k] ! i"
    using mem by (auto simp: in_set_conv_nth)
  show ?thesis
  proof (cases "i = c")
    case True
    then show ?thesis
      using k i by simp
  next
    case False
    then have k': "k' = sched_cores s ! i"
      using i by simp
    have "th_action s' prev = th_action s prev" "th_cond s' prev = th_cond s prev" if "cphase k' = Switched prev" for prev
      using other_prev [OF inv i(1) c False] that k' act [of prev] by simp_all
    then show ?thesis
      using sched_invD(3) [OF inv i(1), folded k'] unfolding core_ok_def idle conds by simp
  qed
qed

lemma context_switch_inv:
  assumes inv: "sched_inv s" and c: "c < length (sched_cores s)" and ph: "\<And>prev. cphase (sched_cores s ! c) \<noteq> Switched prev"
    and s0: "s0 = s\<lparr>ready_queue := rest, th_cond := tc\<rparr>" and tc: "\<And>t. t \<noteq> running (sched_cores s ! c) \<Longrightarrow> tc t = th_cond s t"
    and n: "ready_queue s = nxt # rest \<or> nxt = idle_thread (sched_cores s ! c) \<and> rest = ready_queue s \<and> \<not> is_idle s (running (sched_cores s ! c))"
    and act: "if is_idle s (running (sched_cores s ! c)) then act = Act_None
      else act \<noteq> Act_None \<and> (act = Act_Wait \<longrightarrow> tc (running (sched_cores s ! c)) < length (sched_conds s))"
  shows "sched_inv (context_switch c act nxt s0)"
proof -
  let ?k = "sched_cores s ! c"
  let ?me = "running ?k"
  let ?k' = "?k\<lparr>running := nxt, cphase := Switched ?me\<rparr>"
  define s' where "s' = context_switch c act nxt s0"
  have S: "sched_cores s' = (sched_cores s)[c := ?k']" "reaper_queue s' = reaper_queue s" "sched_conds s' = sched_conds s"
    "ready_queue s' = rest" "th_action s' = (th_action s)(?me := act)" "th_cond s' = tc"
    "next_thread s' = next_thread s" "dead_threads s' = dead_threads s" "n_active s' = n_active s" "powered_off s' = powered_off s"
    by (simp_all add: s'_def context_switch_def Let_def s0)
  have idle: "map idle_thread (sched_cores s') = map idle_thread (sched_cores s)"
    unfolding S by (rule put_core_idle [OF c]) simp
  note i = is_idle_cong [OF idle]
  have idle_c: "is_idle s (idle_thread ?k)"
    using c by (auto simp: is_idle_def)
  have ne: "nxt \<noteq> ?me"
    using n running_not_ready [OF inv c, of nxt] idle_c by auto
  have ni: "is_idle s nxt \<Longrightarrow> nxt = idle_thread ?k"
    using n ready_live [OF inv, of nxt] by auto
  have prevs: "(case cphase ?k of Switched prev \<Rightarrow> {#prev#} | _ \<Rightarrow> {#}) = {#}"
    using ph by (cases "cphase ?k") auto
  have "mset rest + core_threads (Collect (is_idle s)) ?k' = mset (ready_queue s) + core_threads (Collect (is_idle s)) ?k"
    using n
  proof
    assume a: "ready_queue s = nxt # rest"
    then have "\<not> is_idle s nxt"
      using ready_live [OF inv, of nxt] by simp
    then show ?thesis
      unfolding core_threads_def prevs a by simp
  next
    assume "nxt = idle_thread ?k \<and> rest = ready_queue s \<and> \<not> is_idle s ?me"
    then show ?thesis
      unfolding core_threads_def prevs using idle_c by simp
  qed
  then have pl: "places s' = places s"
    by (intro places_core [OF c i S(1)]) (simp add: S waiters_def)
  have "th_action s' ?me = act" "th_cond s' ?me = tc ?me"
    by (simp_all add: S)
  then have k: "core_ok s' ?k'"
    using ne ni act sched_invD(3) [OF inv c] unfolding core_ok_def i S(3) by (simp split: if_splits)
  have ok: "core_ok s' k'" if "k' \<in> set (sched_cores s')" for k'
    by (rule core_ok_update [OF inv c i _ _ k]) (use that tc in \<open>simp_all add: S\<close>)
  have "sched_inv s'"
    by (rule inv_moved [OF inv idle S(7-10) pl ok])
  then show ?thesis
    by (simp add: s'_def)
qed

lemma context_switch_plain:
  assumes "sched_inv s" and "c < length (sched_cores s)" and "cphase (sched_cores s ! c) = Runs"
    and "ready_queue s = nxt # rest \<or> nxt = idle_thread (sched_cores s ! c) \<and> rest = ready_queue s \<and> \<not> is_idle s (running (sched_cores s ! c))"
    and "if is_idle s (running (sched_cores s ! c)) then act = Act_None else act \<noteq> Act_None \<and> act \<noteq> Act_Wait"
  shows "sched_inv (context_switch c act nxt (s\<lparr>ready_queue := rest\<rparr>))"
  by (rule context_switch_inv [OF assms(1,2), where rest = rest and tc = "th_cond s"]) (use assms in \<open>auto split: if_splits\<close>)

lemma yield_ok:
  assumes inv: "sched_inv s" and c: "in_thread c s"
  shows "\<exists>s'. yield c s = Inr s' \<and> sched_inv s' \<and> next_thread s' = next_thread s"
proof (cases "ready_queue s")
  case Nil
  then show ?thesis
    using inv by (simp add: yield_def Let_def)
next
  case (Cons nxt rest)
  have c': "c < length (sched_cores s)" "cphase (sched_cores s ! c) = Runs" "\<not> is_idle s (running (sched_cores s ! c))"
    using c by (simp_all add: in_thread_def core_runs_def)
  have "running (sched_cores s ! c) \<noteq> nxt"
    by (rule running_not_ready [OF inv c'(1)]) (simp add: Cons)
  moreover have "sched_inv (context_switch c Act_Ready nxt (s\<lparr>ready_queue := rest\<rparr>))"
    by (rule context_switch_plain [OF inv c'(1,2)]) (use Cons c'(3) in auto)
  ultimately show ?thesis
    by (simp add: yield_def Let_def Cons bind_outcome_def assert_that_def context_switch_def)
qed

lemma stop_ok:
  assumes inv: "sched_inv s" and c: "in_thread c s"
  shows "\<exists>s'. stop c s = Inr s' \<and> sched_inv s' \<and> next_thread s' = next_thread s"
proof -
  have c': "c < length (sched_cores s)" "cphase (sched_cores s ! c) = Runs" "\<not> is_idle s (running (sched_cores s ! c))"
    using c by (simp_all add: in_thread_def core_runs_def)
  show ?thesis
  proof (cases "ready_queue s")
    case Nil
    have "sched_inv (context_switch c Act_Stop (idle_thread (sched_cores s ! c)) s)"
      using context_switch_plain [OF inv c'(1,2), of "idle_thread (sched_cores s ! c)" "ready_queue s" Act_Stop] c'(3) by simp
    then show ?thesis
      using c'(3) by (simp add: stop_def Let_def Nil bind_outcome_def assert_that_def context_switch_def)
  next
    case (Cons nxt rest)
    have "\<not> is_idle s nxt"
      by (rule ready_live [OF inv]) (simp add: Cons)
    moreover have "sched_inv (context_switch c Act_Stop nxt (s\<lparr>ready_queue := rest\<rparr>))"
      by (rule context_switch_plain [OF inv c'(1,2)]) (use Cons c'(3) in auto)
    ultimately show ?thesis
      using c'(3) by (simp add: stop_def Let_def Cons bind_outcome_def assert_that_def context_switch_def)
  qed
qed

lemma wait_switch_ok:
  assumes inv: "sched_inv s" and c: "c < length (sched_cores s)" and ph: "cphase (sched_cores s ! c) = Enters_wait k"
  shows "sched_inv (wait_switch c k s) \<and> next_thread (wait_switch c k s) = next_thread s"
proof -
  have ok: "k < length (sched_conds s)" "\<not> is_idle s (running (sched_cores s ! c))"
    using sched_invD(3) [OF inv c] ph by (auto simp: core_ok_def)
  show ?thesis
  proof (cases "ready_queue s")
    case Nil
    let ?k = "(sched_cores s ! c)\<lparr>cphase := Runs\<rparr>"
    have idle: "map idle_thread (sched_cores (put_core c ?k s)) = map idle_thread (sched_cores s)"
      unfolding put_core_simps by (rule put_core_idle [OF c]) simp
    note i = is_idle_cong [OF idle]
    have "places (put_core c ?k s) = places s"
      by (rule places_core [OF c i, where k = ?k]) (simp_all add: waiters_def core_threads_def ph)
    moreover have "core_ok (put_core c ?k s) ?k"
      using ok by (simp add: core_ok_def i)
    then have "core_ok (put_core c ?k s) k'" if "k' \<in> set (sched_cores (put_core c ?k s))" for k'
      by (rule core_ok_update [OF inv c i, rotated 2]) (use that in simp_all)
    ultimately have "sched_inv (put_core c ?k s)"
      by (intro inv_moved [OF inv idle]) simp_all
    then show ?thesis
      by (simp add: wait_switch_def Nil Let_def)
  next
    case (Cons nxt rest)
    have "sched_inv (context_switch c Act_Wait nxt (s\<lparr>ready_queue := rest, th_cond := (th_cond s)(running (sched_cores s ! c) := k)\<rparr>))"
      by (rule context_switch_inv [OF inv c, where rest = rest and tc = "(th_cond s)(running (sched_cores s ! c) := k)"])
        (use ok ph Cons in auto)
    then show ?thesis
      by (simp add: wait_switch_def Cons Let_def context_switch_def)
  qed
qed

lemma wait_enter_ok:
  assumes inv: "sched_inv s" and c: "core_runs c s" and k: "k < length (sched_conds s)"
  shows "sched_inv (wait_enter c k s) \<and> next_thread (wait_enter c k s) = next_thread s"
proof (cases "is_idle s (running (sched_cores s ! c))")
  case False
  have c': "c < length (sched_cores s)" "cphase (sched_cores s ! c) = Runs"
    using c by (simp_all add: core_runs_def)
  let ?k = "(sched_cores s ! c)\<lparr>cphase := Enters_wait k\<rparr>"
  define s' where "s' = wait_enter c k s"
  have S: "sched_cores s' = (sched_cores s)[c := ?k]" "sched_conds s' = sched_conds s" "reaper_queue s' = reaper_queue s"
    "ready_queue s' = ready_queue s" "th_action s' = th_action s" "th_cond s' = th_cond s"
    "next_thread s' = next_thread s" "dead_threads s' = dead_threads s" "n_active s' = n_active s" "powered_off s' = powered_off s"
    using False by (simp_all add: s'_def wait_enter_def Let_def)
  have idle: "map idle_thread (sched_cores s') = map idle_thread (sched_cores s)"
    unfolding S by (rule put_core_idle [OF c'(1)]) simp
  note i = is_idle_cong [OF idle]
  have pl: "places s' = places s"
    by (rule places_core [OF c'(1) i S(1)]) (simp add: S waiters_def core_threads_def c')
  have "core_ok s' ?k"
    using False k sched_invD(3) [OF inv c'(1)] by (simp add: core_ok_def i S)
  then have ok: "core_ok s' k'" if "k' \<in> set (sched_cores s')" for k'
    by (rule core_ok_update [OF inv c'(1) i, rotated 2]) (use that S in simp_all)
  have "sched_inv s'"
    by (rule inv_moved [OF inv idle S(7-10) pl ok])
  then show ?thesis
    using S(7) by (simp add: s'_def)
qed (use inv in \<open>simp add: wait_enter_def Let_def\<close>)

text \<open>A notification moves threads from the condition to the ready queue.\<close>

lemma notify_ok:
  assumes inv: "sched_inv s" and k: "k < length (sched_conds s)"
    and ws: "cnd_waiting (sched_conds s ! k) = ws @ cnd_waiting cnd"
    and s': "s' = (put_cond k cnd s)\<lparr>ready_queue := ready_queue s @ ws\<rparr>"
  shows "sched_inv s'"
proof -
  have idle: "map idle_thread (sched_cores s') = map idle_thread (sched_cores s)"
    by (simp add: s')
  note i = is_idle_cong [OF idle]
  have "waiters s' + mset (ws @ cnd_waiting cnd) = waiters s + mset (cnd_waiting cnd)"
    using waiters_update [OF k, of s' cnd] ws by (simp add: s')
  then have "waiters s = waiters s' + mset ws"
    by (simp add: add.assoc [symmetric])
  then have "places s' = places s"
    unfolding places_waiters i by (simp add: s')
  moreover have "core_ok s' k'" if "k' \<in> set (sched_cores s')" for k'
    using inv that i unfolding sched_inv_def inv_with_def core_ok_def by (simp add: s')
  ultimately show ?thesis
    by (intro inv_moved [OF inv idle]) (simp_all add: s')
qed

lemma notify_first_ok:
  assumes "sched_inv s" and "k < length (sched_conds s)"
  shows "sched_inv (notify_first k s) \<and> next_thread (notify_first k s) = next_thread s"
proof (cases "cnd_waiting (sched_conds s ! k)")
  case Nil
  let ?cnd = "(sched_conds s ! k)\<lparr>cnd_epoch := cnd_epoch (sched_conds s ! k) + 1\<rparr>"
  have "sched_inv (put_cond k ?cnd s)"
    by (rule notify_ok [OF assms, where ws = "[]" and cnd = ?cnd]) simp_all
  then show ?thesis
    by (simp add: notify_first_def Let_def Nil)
next
  case (Cons t rest)
  let ?cnd = "(sched_conds s ! k)\<lparr>cnd_epoch := cnd_epoch (sched_conds s ! k) + 1, cnd_waiting := rest\<rparr>"
  have "sched_inv ((put_cond k ?cnd s)\<lparr>ready_queue := ready_queue s @ [t]\<rparr>)"
    by (rule notify_ok [OF assms, where ws = "[t]" and cnd = ?cnd]) (simp_all add: Cons)
  then show ?thesis
    by (simp add: notify_first_def Let_def Cons)
qed

lemma notify_every_ok:
  assumes "sched_inv s" and "k < length (sched_conds s)"
  shows "sched_inv (notify_every k s) \<and> next_thread (notify_every k s) = next_thread s"
proof -
  let ?cnd = "(sched_conds s ! k)\<lparr>cnd_epoch := cnd_epoch (sched_conds s ! k) + 1, cnd_waiting := []\<rparr>"
  have "sched_inv ((put_cond k ?cnd s)\<lparr>ready_queue := ready_queue s @ cnd_waiting (sched_conds s ! k)\<rparr>)"
    by (rule notify_ok [OF assms, where ws = "cnd_waiting (sched_conds s ! k)" and cnd = ?cnd]) simp_all
  then show ?thesis
    by (simp add: notify_every_def Let_def)
qed

text \<open>Putting the old thread away.\<close>

lemma put_away:
  assumes inv: "sched_inv s" and c: "c < length (sched_cores s)" and ph: "cphase (sched_cores s ! c) = Switched prev"
    and s': "sched_cores s' = (sched_cores s)[c := (sched_cores s ! c)\<lparr>cphase := Runs\<rparr>]" "th_action s' = th_action s" "th_cond s' = th_cond s"
      "next_thread s' = next_thread s" "dead_threads s' = dead_threads s" "n_active s' = n_active s" "powered_off s' = powered_off s"
      "length (sched_conds s') = length (sched_conds s)"
    and pl: "mset (ready_queue s') + mset (reaper_queue s') + waiters s' =
      mset (ready_queue s) + mset (reaper_queue s) + waiters s + (if is_idle s prev then {#} else {#prev#})"
  shows "sched_inv s'"
proof -
  let ?k = "(sched_cores s ! c)\<lparr>cphase := Runs\<rparr>"
  have idle: "map idle_thread (sched_cores s') = map idle_thread (sched_cores s)"
    unfolding s' by (rule put_core_idle [OF c]) simp
  note i = is_idle_cong [OF idle]
  have places: "places s' = places s"
    by (rule places_core [OF c i s'(1)]) (simp add: pl core_threads_def ph)
  have "core_ok s' ?k"
    using sched_invD(3) [OF inv c] by (simp add: core_ok_def i)
  then have ok: "core_ok s' k'" if "k' \<in> set (sched_cores s')" for k'
    by (rule core_ok_update [OF inv c i, rotated 2]) (use that s' in simp_all)
  show ?thesis
    by (rule inv_moved [OF inv idle s'(4-7) places ok])
qed

lemma finish_switch_ok:
  assumes inv: "sched_inv s" and c: "c < length (sched_cores s)" and ph: "cphase (sched_cores s ! c) = Switched prev"
  shows "\<exists>s'. finish_switch c prev s = Inr s' \<and> sched_inv s' \<and> next_thread s' = next_thread s"
proof -
  let ?s = "put_core c ((sched_cores s ! c)\<lparr>cphase := Runs\<rparr>) s"
  have "map idle_thread (sched_cores ?s) = map idle_thread (sched_cores s)"
    unfolding put_core_simps by (rule put_core_idle [OF c]) simp
  note i = is_idle_cong [OF this]
  have ok: "if is_idle s prev then th_action s prev = Act_None
      else th_action s prev \<noteq> Act_None \<and> (th_action s prev = Act_Wait \<longrightarrow> th_cond s prev < length (sched_conds s))"
    using sched_invD(3) [OF inv c] ph by (auto simp: core_ok_def split: if_splits)
  have ready: "sched_inv (?s\<lparr>ready_queue := ready_queue s @ [prev]\<rparr>)" if "\<not> is_idle s prev"
    by (rule put_away [OF inv c ph]) (use that in \<open>simp_all add: waiters_def\<close>)
  show ?thesis
  proof (cases "th_action s prev")
    case Act_Ready
    then show ?thesis
      using ok ready by (auto simp: finish_switch_def Let_def bind_outcome_def assert_that_def i split: if_splits)
  next
    case Act_Stop
    have "sched_inv (?s\<lparr>reaper_queue := reaper_queue s @ [prev]\<rparr>)" if "\<not> is_idle s prev"
      by (rule put_away [OF inv c ph]) (use that in \<open>simp_all add: waiters_def\<close>)
    then show ?thesis
      using Act_Stop ok by (auto simp: finish_switch_def Let_def bind_outcome_def assert_that_def i split: if_splits)
  next
    case Act_Wait
    let ?k = "th_cond s prev"
    let ?cnd = "(sched_conds s ! ?k)\<lparr>cnd_waiting := cnd_waiting (sched_conds s ! ?k) @ [prev]\<rparr>"
    have ni: "\<not> is_idle s prev" "?k < length (sched_conds s)"
      using Act_Wait ok by (auto split: if_splits)
    have "waiters (put_cond ?k ?cnd ?s) = waiters s + {#prev#}"
      using waiters_update [OF ni(2), of "put_cond ?k ?cnd ?s" ?cnd] by (simp add: ac_simps)
    then have "sched_inv (put_cond ?k ?cnd ?s)"
      by (intro put_away [OF inv c ph]) (use ni in simp_all)
    then show ?thesis
      using Act_Wait ready ni by (simp add: finish_switch_def Let_def bind_outcome_def assert_that_def i)
  next
    case Act_None
    have "is_idle s prev"
      using Act_None ok by (auto split: if_splits)
    then have "sched_inv ?s"
      by (intro put_away [OF inv c ph]) (simp_all add: waiters_def)
    then show ?thesis
      using Act_None by (simp add: finish_switch_def Let_def)
  qed
qed

section \<open>Creating and reaping\<close>

lemma is_idle_update [simp]:
  "is_idle (s\<lparr>ready_queue := q\<rparr>) = is_idle s" "is_idle (s\<lparr>reaper_queue := q\<rparr>) = is_idle s" "is_idle (s\<lparr>n_active := n\<rparr>) = is_idle s"
  "is_idle (s\<lparr>next_thread := t\<rparr>) = is_idle s" "is_idle (s\<lparr>dead_threads := ts\<rparr>) = is_idle s" "is_idle (s\<lparr>powered_off := b\<rparr>) = is_idle s"
  by (simp_all add: is_idle_def fun_eq_iff)

lemma waiters_same [simp]:
  "waiters (s\<lparr>reaper_queue := q\<rparr>) = waiters s" "waiters (s\<lparr>n_active := n\<rparr>) = waiters s"
  "waiters (s\<lparr>dead_threads := ts\<rparr>) = waiters s" "waiters (s\<lparr>powered_off := b\<rparr>) = waiters s"
  by (simp_all add: waiters_def)

lemma unat_dec_one: "unat (w :: u64) = Suc n \<Longrightarrow> unat (w - 1) = n"
  by (metis diff_Suc_1 unat_eq_zero unat_minus_one nat.distinct(1))

lemma reap_list_ok:
  assumes "inv_with d s" and "\<not> powered_off s" and "reaper_queue s = ts"
  shows "inv_with d (reap_list ts s) \<and> next_thread (reap_list ts s) = next_thread s \<and>
    sched_cores (reap_list ts s) = sched_cores s \<and> (0 < d \<longrightarrow> \<not> powered_off (reap_list ts s))"
  using assms
proof (induction ts arbitrary: s)
  case (Cons t ts)
  let ?s = "s\<lparr>reaper_queue := ts, dead_threads := t # dead_threads s, n_active := n_active s - 1\<rparr>"
  have i: "is_idle (f ?s) = is_idle s" "live_threads (f ?s) = live_threads s - {t}" "waiters (f ?s) = waiters s" if "f = id \<or> f = powered_off_update (\<lambda>_. True)" for f
    using that by (auto simp: is_idle_def live_threads_def waiters_def fun_eq_iff)
  have pl: "places s = mset_set (live_threads s)"
    using Cons.prems(1) by (simp add: inv_with_def)
  have "t \<in># places s"
    using Cons.prems(3) by (simp add: places_def)
  then have t: "t \<in> live_threads s"
    using pl by simp
  have "places s = add_mset t (places ?s)"
    using Cons.prems(3) unfolding places_waiters by simp
  moreover have "mset_set (live_threads s) = add_mset t (mset_set (live_threads s - {t}))"
    using t by (simp add: mset_set.remove)
  ultimately have pl': "places ?s = mset_set (live_threads s - {t})"
    using pl by simp
  have card: "card (live_threads s) = Suc (card (live_threads s - {t}))"
    using t by (metis card.remove live_finite)
  then have n: "unat (n_active s - 1) = card (live_threads s - {t}) + d"
    using Cons.prems(1) by (intro unat_dec_one) (simp add: inv_with_def)
  have tn: "t < next_thread s"
    using t by (simp add: live_threads_def)
  have ok: "core_ok (f ?s) k = core_ok s k" if "f = id \<or> f = powered_off_update (\<lambda>_. True)" for f k
    using that i(1) [OF that] by (auto simp: core_ok_def)
  have off: "places (powered_off_update (\<lambda>_. True) ?s) = places ?s"
    using i by (simp add: places_waiters)
  have zero: "n_active s - 1 = 0 \<longleftrightarrow> live_threads s - {t} = {} \<and> d = 0"
    using n by (metis add_is_0 card_eq_0_iff finite_Diff live_finite unat_eq_zero)
  show ?case
  proof (cases "n_active s - 1 = 0")
    case True
    let ?f = "powered_off_update (\<lambda>_. True)"
    have "inv_with d (?f ?s)"
      using Cons.prems(1) i [of ?f] ok [of ?f] pl' n tn zero True unfolding inv_with_def off by auto
    then show ?thesis
      using True zero by (simp add: Let_def)
  next
    case False
    have "inv_with d ?s"
      using Cons.prems(1,2) i [of id] ok [of id] pl' n tn zero False unfolding inv_with_def by auto
    then show ?thesis
      using Cons.IH [of ?s] Cons.prems(2) False by (simp add: Let_def)
  qed
qed simp

lemma reap_ok: "sched_inv s \<Longrightarrow> \<not> powered_off s \<Longrightarrow> sched_inv (reap s) \<and> next_thread (reap s) = next_thread s \<and> sched_cores (reap s) = sched_cores s"
  using reap_list_ok [of 0 s "reaper_queue s"] by (simp add: sched_inv_def reap_def)

lemma live_bound: "sched_inv s \<Longrightarrow> unat (n_active s) \<le> next_thread s"
proof -
  assume inv: "sched_inv s"
  have "card (live_threads s) \<le> card {0..<next_thread s}"
    by (intro card_mono) (auto simp: live_threads_def)
  then show ?thesis
    using sched_invD(5) [OF inv] by simp
qed

lemma make_thread_ok:
  assumes inv: "sched_inv s" and on: "\<not> powered_off s" and n: "Suc (next_thread s) < 2 ^ 64"
  shows "sched_inv (make_thread s) \<and> next_thread (make_thread s) = Suc (next_thread s)"
proof -
  let ?s0 = "s\<lparr>n_active := n_active s + 1\<rparr>"
  define s1 where "s1 = reap ?s0"
  have "unat (n_active s + 1) = Suc (unat (n_active s))"
    using live_bound [OF inv] n by (simp add: unat_word_ariths)
  moreover have same: "is_idle ?s0 = is_idle s" "live_threads ?s0 = live_threads s" "places ?s0 = places s" "\<And>k. core_ok ?s0 k = core_ok s k"
    by (simp_all add: live_threads_def places_def core_ok_def)
  ultimately have "inv_with 1 ?s0"
    using inv on unfolding sched_inv_def inv_with_def same by simp
  then have s1: "inv_with 1 s1" "next_thread s1 = next_thread s" "\<not> powered_off s1"
    using reap_list_ok [of 1 ?s0 "reaper_queue s"] on by (simp_all add: s1_def reap_def)
  let ?t = "next_thread s1"
  let ?s2 = "s1\<lparr>next_thread := ?t + 1, ready_queue := ready_queue s1 @ [?t]\<rparr>"
  have idle: "is_idle ?s2 = is_idle s1"
    by (simp add: is_idle_def fun_eq_iff)
  have t: "\<not> is_idle s1 ?t" "?t \<notin> set (dead_threads s1)" "?t \<notin> live_threads s1"
    using s1(1) by (auto simp: inv_with_def live_threads_def)
  then have live: "live_threads ?s2 = insert ?t (live_threads s1)"
    using idle by (auto simp: live_threads_def less_Suc_eq)
  have "places ?s2 = add_mset ?t (places s1)"
    using idle by (simp add: places_def)
  moreover have "core_ok ?s2 k = core_ok s1 k" for k
    by (simp add: core_ok_def idle)
  ultimately have "sched_inv ?s2"
    using s1 t unfolding sched_inv_def inv_with_def idle live by (auto simp: less_Suc_eq)
  then show ?thesis
    using s1 by (simp add: make_thread_def s1_def [symmetric] Let_def)
qed

lemma event_loop_ok:
  assumes inv: "sched_inv s" and c: "core_runs c s" and idle: "\<not> in_thread c s"
  shows "\<exists>s'. event_loop c s = Inr s' \<and> sched_inv s' \<and> next_thread s' = next_thread s"
proof -
  have c': "c < length (sched_cores s)" "cphase (sched_cores s ! c) = Runs" "\<not> powered_off s" "is_idle s (running (sched_cores s ! c))"
    using c idle by (simp_all add: core_runs_def in_thread_def)
  define s1 where "s1 = reap s"
  have s1: "sched_inv s1" "next_thread s1 = next_thread s" "sched_cores s1 = sched_cores s"
    using reap_ok [OF inv c'(3)] by (simp_all add: s1_def)
  have i: "is_idle s1 = is_idle s"
    using s1(3) by (intro is_idle_cong) simp
  show ?thesis
  proof (cases "powered_off s1 \<or> ready_queue s1 = []")
    case True
    then show ?thesis
      using s1 by (auto simp: event_loop_def s1_def [symmetric] Let_def)
  next
    case False
    then obtain nxt rest where r: "ready_queue s1 = nxt # rest"
      by (cases "ready_queue s1") auto
    have "\<not> is_idle s1 nxt"
      by (rule ready_live [OF s1(1)]) (simp add: r)
    moreover have "sched_inv (context_switch c Act_None nxt (s1\<lparr>ready_queue := rest\<rparr>))"
      by (rule context_switch_plain [OF s1(1)]) (use c' s1(3) i r in auto)
    ultimately show ?thesis
      using False r s1 i by (simp add: event_loop_def s1_def [symmetric] Let_def bind_outcome_def assert_that_def context_switch_def)
  qed
qed

section \<open>Any run\<close>

lemma step_ok:
  assumes inv: "sched_inv s" and n: "Suc (next_thread s) < 2 ^ 64"
  shows "\<exists>s'. sched_step e s = Inr s' \<and> sched_inv s' \<and> next_thread s' \<le> Suc (next_thread s)"
proof (cases e)
  case (Ev_create c)
  then show ?thesis
    using make_thread_ok [OF inv _ n] inv by (auto simp: core_runs_def)
next
  case (Ev_yield c)
  then show ?thesis
    using yield_ok [OF inv, of c] inv by fastforce
next
  case (Ev_stop c)
  then show ?thesis
    using stop_ok [OF inv, of c] inv by fastforce
next
  case (Ev_idle c)
  then show ?thesis
    using event_loop_ok [OF inv, of c] inv by fastforce
next
  case (Ev_reap c)
  then show ?thesis
    using reap_ok [OF inv] inv by (auto simp: core_runs_def)
next
  case (Ev_wait c k)
  then show ?thesis
    using wait_enter_ok [OF inv, of c k] inv by auto
next
  case (Ev_go_on c)
  then show ?thesis
    using wait_switch_ok [OF inv, of c] finish_switch_ok [OF inv, of c] inv by (fastforce split: core_phase.split)
next
  case (Ev_notify c k)
  then show ?thesis
    using notify_first_ok [OF inv, of k] inv by auto
next
  case (Ev_notify_all c k)
  then show ?thesis
    using notify_every_ok [OF inv, of k] inv by auto
qed

lemma run_ok:
  assumes "sched_inv s" and "next_thread s + length es < 2 ^ 64"
  shows "\<exists>s'. sched_run es s = Inr s' \<and> sched_inv s'"
  using assms
proof (induction es arbitrary: s)
  case (Cons e es)
  obtain s1 where s1: "sched_step e s = Inr s1" "sched_inv s1" "next_thread s1 \<le> Suc (next_thread s)"
    using step_ok [OF Cons.prems(1), of e] Cons.prems(2) by auto
  then have "next_thread s1 + length es < 2 ^ 64"
    using Cons.prems(2) by simp
  then show ?case
    using Cons.IH [OF s1(2)] s1(1) by (simp add: bind_outcome_def)
qed simp

lemma boot_ok: "sched_inv (sched_boot n conds act cnd ep)"
proof -
  let ?s = "sched_boot n conds act cnd ep"
  have idle: "is_idle ?s t \<longleftrightarrow> t < n" for t
    by (simp add: is_idle_list sched_boot_def comp_def del: set_map)
  have live: "live_threads ?s = {}"
    by (auto simp: live_threads_def idle) (simp add: sched_boot_def)
  have cores: "sched_cores ?s = map (\<lambda>i. \<lparr>idle_thread = i, running = i, cphase = Runs\<rparr>) [0..<n]"
    by (simp add: sched_boot_def)
  have "map (core_threads (Collect (is_idle ?s))) (sched_cores ?s) = map (\<lambda>_. {#}) (sched_cores ?s)"
    unfolding cores by (simp add: core_threads_def idle)
  then have "sum_list (map (core_threads (Collect (is_idle ?s))) (sched_cores ?s)) = {#}"
    by (simp only: sum_list_0)
  moreover have "sum_list (replicate conds ({#} :: nat multiset)) = {#}"
    by (induction conds) simp_all
  then have "waiters ?s = {#}"
    by (simp add: waiters_def sched_boot_def)
  ultimately have "places ?s = {#}"
    unfolding places_waiters by (simp add: sched_boot_def)
  moreover have "core_ok ?s k" if "k \<in> set (sched_cores ?s)" for k
    using that by (auto simp: cores core_ok_def)
  moreover have "distinct (map idle_thread (sched_cores ?s))"
    by (simp add: cores comp_def)
  moreover have "next_thread ?s = n" "n_active ?s = 0" "dead_threads ?s = []" "\<not> powered_off ?s"
    by (simp_all add: sched_boot_def)
  ultimately show ?thesis
    unfolding sched_inv_def inv_with_def idle live by simp
qed

lemma running_distinct:
  assumes inv: "sched_inv s" and i: "i < length (sched_cores s)" and j: "j < length (sched_cores s)" "i \<noteq> j"
  shows "running (sched_cores s ! i) \<noteq> running (sched_cores s ! j)"
proof
  assume eq: "running (sched_cores s ! i) = running (sched_cores s ! j)"
  let ?t = "running (sched_cores s ! j)"
  show False
  proof (cases "is_idle s ?t")
    case True
    then have "idle_thread (sched_cores s ! i) = idle_thread (sched_cores s ! j)"
      using sched_invD(3) [OF inv i] sched_invD(3) [OF inv j(1)] eq by (simp add: core_ok_def)
    then show False
      using sched_invD(1) [OF inv] i j by (simp add: distinct_conv_nth)
  next
    case False
    then have "{#?t#} + {#?t#} \<subseteq># core_threads (Collect (is_idle s)) (sched_cores s ! i) + core_threads (Collect (is_idle s)) (sched_cores s ! j)"
      using eq by (intro subset_mset.add_mono) (simp_all add: core_threads_def)
    also have "\<dots> \<subseteq># sum_list (map (core_threads (Collect (is_idle s))) (sched_cores s))"
      by (rule sum_list_two_mset [OF i j])
    also have "\<dots> \<subseteq># places s"
      by (simp add: places_def)
    finally have "{#?t, ?t#} \<subseteq># places s"
      by simp
    then have "2 \<le> count (places s) ?t"
      using mset_subset_eq_count [of "{#?t, ?t#}" "places s" ?t] by simp
    then show False
      using places_live(3) [OF inv running_place [OF j(1) False]] by simp
  qed
qed

text \<open>
  C8. Whatever the cores do, in any order of their steps: no assertion of the scheduler fails; every thread that
  has been created and not been reaped is in exactly one place (running on a core, being put away by one,
  ready, waiting, or to be reaped), and no other thread is in any; no two cores run the same thread, and each
  runs its idle thread or a live one, so that no stack is freed under it; the counter is the number of live
  threads; and the machine is off exactly when there were threads and all have been reaped.
\<close>

theorem sched_safe:
  assumes "n + length es < 2 ^ 64"
  shows "\<exists>s. sched_run es (sched_boot n conds act cnd ep) = Inr s \<and>
    (\<forall>t. count (places s) t = (if t \<in> live_threads s then 1 else 0)) \<and>
    (\<forall>i j. i < length (sched_cores s) \<and> j < length (sched_cores s) \<and> i \<noteq> j \<longrightarrow> running (sched_cores s ! i) \<noteq> running (sched_cores s ! j)) \<and>
    (\<forall>k \<in> set (sched_cores s). running k = idle_thread k \<or> running k \<in> live_threads s) \<and>
    unat (n_active s) = card (live_threads s) \<and>
    (powered_off s \<longleftrightarrow> live_threads s = {} \<and> dead_threads s \<noteq> [])"
proof -
  have "next_thread (sched_boot n conds act cnd ep) = n"
    by (simp add: sched_boot_def)
  then obtain s where run: "sched_run es (sched_boot n conds act cnd ep) = Inr s" and inv: "sched_inv s"
    using run_ok [OF boot_ok, of n conds act cnd ep es] assms by auto
  have "running k = idle_thread k \<or> running k \<in> live_threads s" if k: "k \<in> set (sched_cores s)" for k
  proof -
    obtain c where c: "c < length (sched_cores s)" "k = sched_cores s ! c"
      using k by (auto simp: in_set_conv_nth)
    then show ?thesis
      using sched_invD(3) [OF inv c(1)] places_live(1) [OF inv running_place [OF c(1)]] by (auto simp: core_ok_def)
  qed
  moreover have "count (places s) t = (if t \<in> live_threads s then 1 else 0)" for t
    unfolding sched_invD(4) [OF inv] by simp
  ultimately show ?thesis
    using run sched_invD(5,6) [OF inv] running_distinct [OF inv] by blast
qed

text \<open>Two cores, one thread: it is created, runs on the second core, stops, and is reaped.\<close>

theorem sched_safe_witness:
  "\<exists>s. sched_run [Ev_create 0, Ev_idle 1, Ev_go_on 1, Ev_stop 1, Ev_go_on 1, Ev_idle 0]
      (sched_boot 2 0 (\<lambda>_. Act_None) (\<lambda>_. 0) (\<lambda>_. 0)) = Inr s \<and> powered_off s \<and> live_threads s = {}"
proof -
  let ?es = "[Ev_create 0, Ev_idle 1, Ev_go_on 1, Ev_stop 1, Ev_go_on 1, Ev_idle 0]"
    and ?s0 = "sched_boot 2 0 (\<lambda>_. Act_None) (\<lambda>_. 0) (\<lambda>_. 0)"
  obtain s where s: "sched_run ?es ?s0 = Inr s" "powered_off s \<longleftrightarrow> live_threads s = {} \<and> dead_threads s \<noteq> []"
    using sched_safe [of 2 ?es 0 "\<lambda>_. Act_None" "\<lambda>_. 0" "\<lambda>_. 0"] by auto
  have "case sched_run ?es ?s0 of Inr s \<Rightarrow> powered_off s | Inl e \<Rightarrow> False"
    by code_simp
  then show ?thesis
    using s by simp
qed

section \<open>Round robin\<close>

lemma one_round:
  assumes inv: "sched_inv s" and c: "in_thread c s" and r: "ready_queue s = t # ts"
  shows "\<exists>s'. sched_run [Ev_yield c, Ev_go_on c] s = Inr s' \<and> sched_inv s' \<and> in_thread c s' \<and>
    running (sched_cores s' ! c) = t \<and> ready_queue s' = ts @ [running (sched_cores s ! c)]"
proof -
  let ?me = "running (sched_cores s ! c)"
  have c': "c < length (sched_cores s)" "cphase (sched_cores s ! c) = Runs" "\<not> is_idle s ?me" "\<not> powered_off s"
    using c by (simp_all add: in_thread_def core_runs_def)
  let ?s1 = "context_switch c Act_Ready t (s\<lparr>ready_queue := ts\<rparr>)"
  have y: "yield c s = Inr ?s1" "sched_inv ?s1"
  proof -
    have "?me \<noteq> t"
      by (rule running_not_ready [OF inv c'(1)]) (simp add: r)
    then show "yield c s = Inr ?s1"
      by (simp add: yield_def Let_def r bind_outcome_def assert_that_def)
    show "sched_inv ?s1"
      by (rule context_switch_plain [OF inv c'(1,2)]) (use c'(3) r in auto)
  qed
  have k1: "sched_cores ?s1 = (sched_cores s)[c := (sched_cores s ! c)\<lparr>running := t, cphase := Switched ?me\<rparr>]"
    "th_action ?s1 ?me = Act_Ready" "ready_queue ?s1 = ts" "\<not> powered_off ?s1"
    using c'(4) by (simp_all add: context_switch_def Let_def)
  have idle1: "is_idle ?s1 = is_idle s"
    by (rule is_idle_cong, unfold k1, rule put_core_idle [OF c'(1)]) simp
  let ?s2 = "put_core c ((sched_cores ?s1 ! c)\<lparr>cphase := Runs\<rparr>) ?s1"
  have idle2: "is_idle ?s2 = is_idle s"
    unfolding idle1 [symmetric] by (rule is_idle_cong, unfold put_core_simps, rule put_core_idle) (simp_all add: k1 c')
  have "finish_switch c ?me ?s1 = Inr (?s2\<lparr>ready_queue := ts @ [?me]\<rparr>)"
    using k1 idle2 c'(3) by (simp add: finish_switch_def Let_def bind_outcome_def assert_that_def)
  moreover have "sched_inv (?s2\<lparr>ready_queue := ts @ [?me]\<rparr>)"
    using finish_switch_ok [OF y(2), of c ?me] calculation c'(1) k1 by auto
  moreover have "\<not> is_idle s t"
    by (rule ready_live [OF inv]) (simp add: r)
  ultimately show ?thesis
    using y c c' k1 idle2
    by (intro exI [of _ "?s2\<lparr>ready_queue := ts @ [?me]\<rparr>"]) (simp add: in_thread_def core_runs_def bind_outcome_def)
qed

lemma sched_run_append: "sched_run (es @ fs) s = bind_outcome (sched_run es s) (sched_run fs)"
  by (induction es arbitrary: s) (auto simp: bind_outcome_def split: sum.splits)

text \<open>
  C17. Yielding is round robin: in every reachable state, when the threads on a core keep yielding and the other cores do
  nothing, the ready thread at position \<open>k\<close> runs after \<open>k + 1\<close> turns, the thread that began is behind
  all that were ready before it, and nobody has overtaken.
\<close>

theorem yield_round_robin:
  assumes run: "sched_run es (sched_boot n conds act cnd ep) = Inr s" "n + length es < 2 ^ 64"
    and c: "in_thread c s" and k: "k < length (ready_queue s)"
  shows "\<exists>s'. sched_run (concat (replicate (Suc k) [Ev_yield c, Ev_go_on c])) s = Inr s' \<and>
    running (sched_cores s' ! c) = ready_queue s ! k \<and> in_thread c s' \<and>
    ready_queue s' = drop (Suc k) (ready_queue s) @ running (sched_cores s ! c) # take k (ready_queue s)"
proof -
  have "next_thread (sched_boot n conds act cnd ep) = n"
    by (simp add: sched_boot_def)
  then have inv: "sched_inv s"
    using run_ok [OF boot_ok, of n conds act cnd ep es] run by auto
  have "\<exists>s'. sched_run (concat (replicate (Suc k) [Ev_yield c, Ev_go_on c])) s = Inr s' \<and> sched_inv s' \<and>
    running (sched_cores s' ! c) = ready_queue s ! k \<and> in_thread c s' \<and>
    ready_queue s' = drop (Suc k) (ready_queue s) @ running (sched_cores s ! c) # take k (ready_queue s)"
    using k
  proof (induction k)
    case 0
    then obtain t ts where "ready_queue s = t # ts"
      by (cases "ready_queue s") auto
    then show ?case
      using one_round [OF inv c, of t ts] by (auto simp del: sched_run.simps)
  next
    case (Suc k)
    then obtain s1 where s1: "sched_run (concat (replicate (Suc k) [Ev_yield c, Ev_go_on c])) s = Inr s1" "sched_inv s1"
        "running (sched_cores s1 ! c) = ready_queue s ! k" "in_thread c s1"
        "ready_queue s1 = drop (Suc k) (ready_queue s) @ running (sched_cores s ! c) # take k (ready_queue s)"
      by auto
    have d: "drop (Suc k) (ready_queue s) = ready_queue s ! Suc k # drop (Suc (Suc k)) (ready_queue s)"
      using Suc.prems by (simp add: Cons_nth_drop_Suc)
    have "concat (replicate (Suc m) xs) = concat (replicate m xs) @ xs" for m and xs :: "sched_event list"
      by (induction m) simp_all
    note more = this [of "Suc k" "[Ev_yield c, Ev_go_on c]"]
    have r: "ready_queue s1 = ready_queue s ! Suc k # drop (Suc (Suc k)) (ready_queue s) @ running (sched_cores s ! c) # take k (ready_queue s)"
      using s1(5) d by simp
    obtain s2 where s2: "sched_run [Ev_yield c, Ev_go_on c] s1 = Inr s2" "sched_inv s2" "in_thread c s2"
        "running (sched_cores s2 ! c) = ready_queue s ! Suc k"
        "ready_queue s2 = (drop (Suc (Suc k)) (ready_queue s) @ running (sched_cores s ! c) # take k (ready_queue s)) @ [ready_queue s ! k]"
      using one_round [OF s1(2,4) r] s1(3) by auto
    have "sched_run (concat (replicate (Suc (Suc k)) [Ev_yield c, Ev_go_on c])) s = Inr s2"
      by (simp only: more sched_run_append s1(1) s2(1) bind_outcome_def sum.case)
    then show ?case
      using s2 Suc.prems by (intro exI [of _ s2]) (simp add: take_Suc_conv_app_nth del: sched_run.simps replicate.simps)
  qed
  then show ?thesis
    by blast
qed

text \<open>One core and three threads; the first one has begun to run.\<close>

theorem yield_round_robin_witness:
  "\<exists>s s'. sched_run [Ev_create 0, Ev_create 0, Ev_create 0, Ev_idle 0, Ev_go_on 0] (sched_boot 1 0 (\<lambda>_. Act_None) (\<lambda>_. 0) (\<lambda>_. 0)) = Inr s \<and>
     sched_run [Ev_yield 0, Ev_go_on 0, Ev_yield 0, Ev_go_on 0] s = Inr s' \<and> ready_queue s' = [1, 2] \<and> running (sched_cores s' ! 0) = 3"
proof -
  let ?es = "[Ev_create 0, Ev_create 0, Ev_create 0, Ev_idle 0, Ev_go_on 0]" and ?s0 = "sched_boot 1 0 (\<lambda>_. Act_None) (\<lambda>_. 0) (\<lambda>_. 0)"
  have "case sched_run ?es ?s0 of Inr s \<Rightarrow> in_thread 0 s \<and> ready_queue s = [2, 3] \<and> running (sched_cores s ! 0) = 1 | Inl e \<Rightarrow> False"
    by code_simp
  then obtain s where s: "sched_run ?es ?s0 = Inr s" "in_thread 0 s" "ready_queue s = [2, 3]" "running (sched_cores s ! 0) = 1"
    by (auto split: sum.splits)
  then show ?thesis
    using yield_round_robin [OF s(1) _ s(2), of 1] by (auto simp del: sched_run.simps)
qed

end
