(* ===== verification/Queue.thy ===== *)
theory Queue
  imports Prelude
begin

text \<open>
  The intrusive queue of \<^verbatim>\<open>queue.h\<close>: its elements are linked by a field of their own, so that all queues of
  threads share one memory of links. A queue is a list as long as an element is added to one queue at a
  time; the loop of \<open>Condition::notify_all\<close> over a detached chain moves every element once.
\<close>

section \<open>The code\<close>

text \<open>The field \<open>next\<close> of every element, and the fields of a queue.\<close>

type_synonym links = "nat \<Rightarrow> nat option"

record Queue =
  q_first :: "nat option"
  q_last :: "nat option"
  q_size :: u64

definition empty_queue :: Queue where "empty_queue = \<lparr>q_first = None, q_last = None, q_size = 0\<rparr>"

definition queue_add :: "nat \<Rightarrow> Queue \<Rightarrow> links \<Rightarrow> (Queue \<times> links) outcome" where
  "queue_add t q nx =
     (let nx1 = nx(t := None)
      in bind_outcome
           (case q_first q of
              None \<Rightarrow> Inr (q\<lparr>q_first := Some t\<rparr>, nx1)
            | Some _ \<Rightarrow> (case q_last q of None \<Rightarrow> Inl Undefined | Some l \<Rightarrow> Inr (q, nx1(l := Some t))))
           (\<lambda>(q1, nx2). Inr (q1\<lparr>q_last := Some t, q_size := q_size q1 + 1\<rparr>, nx2)))"

definition queue_remove :: "Queue \<Rightarrow> links \<Rightarrow> nat option \<times> Queue" where
  "queue_remove q nx =
     (case q_first q of
        None \<Rightarrow> (None, q)
      | Some it \<Rightarrow>
          let q1 = q\<lparr>q_first := nx it\<rparr>;
              q2 = (if q_first q1 = None then q1\<lparr>q_last := None\<rparr> else q1)
          in (Some it, q2\<lparr>q_size := q_size q2 - 1\<rparr>))"

definition queue_remove_all :: "Queue \<Rightarrow> nat option \<times> Queue" where
  "queue_remove_all q = (q_first q, q\<lparr>q_first := None, q_last := None, q_size := 0\<rparr>)"

definition queue_peek :: "Queue \<Rightarrow> nat option" where "queue_peek q = q_first q"

text \<open>The loop of \<open>notify_all\<close>, which need not end if the chain does not.\<close>

partial_function (option) add_chain :: "nat option \<Rightarrow> Queue \<Rightarrow> links \<Rightarrow> (Queue \<times> links) outcome option" where
  "add_chain p q nx =
     (case p of
        None \<Rightarrow> Some (Inr (q, nx))
      | Some t \<Rightarrow>
          (let nxt = nx t
           in case queue_add t q nx of Inl e \<Rightarrow> Some (Inl e) | Inr (q1, nx1) \<Rightarrow> add_chain nxt q1 nx1))"

section \<open>A queue is a list\<close>

fun chain_of :: "links \<Rightarrow> nat option \<Rightarrow> nat list \<Rightarrow> bool" where
  "chain_of nx p [] \<longleftrightarrow> p = None"
| "chain_of nx p (x # xs) \<longleftrightarrow> p = Some x \<and> chain_of nx (nx x) xs"

definition is_queue :: "links \<Rightarrow> Queue \<Rightarrow> nat list \<Rightarrow> bool" where
  "is_queue nx q xs \<longleftrightarrow>
     chain_of nx (q_first q) xs \<and> q_last q = (if xs = [] then None else Some (last xs)) \<and> distinct xs \<and>
     q_size q = word_of_nat (length xs)"

lemma chain_cong: "\<forall>x \<in> set xs. nx' x = nx x \<Longrightarrow> chain_of nx' p xs = chain_of nx p xs"
  by (induction xs arbitrary: p) auto

lemma is_queue_cong: "\<forall>x \<in> set xs. nx' x = nx x \<Longrightarrow> is_queue nx' q xs = is_queue nx q xs"
  using chain_cong [of xs nx' nx "q_first q"] by (simp add: is_queue_def)

lemma chain_snoc: "chain_of nx p xs \<Longrightarrow> distinct xs \<Longrightarrow> t \<notin> set xs \<Longrightarrow> xs \<noteq> [] \<Longrightarrow>
    chain_of (nx(t := None, last xs := Some t)) p (xs @ [t])"
proof (induction xs arbitrary: p)
  case (Cons x xs)
  show ?case
  proof (cases "xs = []")
    case False
    then have "x \<noteq> last xs" "x \<noteq> t"
      using Cons.prems by auto
    then show ?thesis
      using Cons False by simp
  qed (use Cons.prems in simp)
qed simp

lemma queue_add_ok:
  assumes q: "is_queue nx q xs" and t: "t \<notin> set xs"
  obtains q' nx' where "queue_add t q nx = Inr (q', nx')" and "is_queue nx' q' (xs @ [t])"
    and "\<And>x. x \<noteq> t \<Longrightarrow> x \<notin> set xs \<Longrightarrow> nx' x = nx x"
proof (cases "xs = []")
  case True
  then have "queue_add t q nx = Inr (q\<lparr>q_first := Some t, q_last := Some t, q_size := q_size q + 1\<rparr>, nx(t := None))"
    using q by (simp add: is_queue_def queue_add_def bind_outcome_def)
  moreover have "is_queue (nx(t := None)) (q\<lparr>q_first := Some t, q_last := Some t, q_size := q_size q + 1\<rparr>) (xs @ [t])"
    using q True by (simp add: is_queue_def)
  ultimately show thesis
    by (rule that) simp
next
  case False
  let ?nx = "nx(t := None, last xs := Some t)" and ?q = "q\<lparr>q_last := Some t, q_size := q_size q + 1\<rparr>"
  obtain x ys where x: "xs = x # ys"
    using False by (cases xs) simp_all
  have "queue_add t q nx = Inr (?q, ?nx)"
    using q x False by (simp add: is_queue_def queue_add_def bind_outcome_def)
  moreover have "is_queue ?nx ?q (xs @ [t])"
    using q t chain_snoc [of nx "q_first q" xs t] False by (simp add: is_queue_def)
  moreover have "?nx y = nx y" if "y \<noteq> t" "y \<notin> set xs" for y
    using that False by auto
  ultimately show thesis
    by (rule that)
qed

lemma queue_remove_ok:
  assumes "is_queue nx q xs"
  shows "case queue_remove q nx of (r, q') \<Rightarrow> r = (if xs = [] then None else Some (hd xs)) \<and> is_queue nx q' (tl xs)"
proof (cases xs)
  case (Cons x ys)
  then show ?thesis
    using assms by (cases ys) (auto simp: is_queue_def queue_remove_def)
qed (use assms in \<open>simp add: is_queue_def queue_remove_def\<close>)

lemma queue_remove_all_ok:
  assumes "is_queue nx q xs"
  shows "case queue_remove_all q of (p, q') \<Rightarrow> chain_of nx p xs \<and> is_queue nx q' []"
  using assms by (simp add: is_queue_def queue_remove_all_def)

lemma add_chain_ok:
  assumes "is_queue nx q xs" and "chain_of nx p ws" and "distinct ws" and "set ws \<inter> set xs = {}"
  shows "\<exists>q' nx'. add_chain p q nx = Some (Inr (q', nx')) \<and> is_queue nx' q' (xs @ ws) \<and>
    (\<forall>x. x \<notin> set xs \<union> set ws \<longrightarrow> nx' x = nx x)"
  using assms
proof (induction ws arbitrary: p q nx xs)
  case Nil
  then show ?case
    by (subst add_chain.simps) auto
next
  case (Cons t ws)
  obtain q1 nx1 where a: "queue_add t q nx = Inr (q1, nx1)" "is_queue nx1 q1 (xs @ [t])"
      and same: "\<And>x. x \<noteq> t \<Longrightarrow> x \<notin> set xs \<Longrightarrow> nx1 x = nx x"
    by (rule queue_add_ok [OF Cons.prems(1), of t]) (use Cons.prems that in auto)
  have "nx1 x = nx x" if "x \<in> set ws" for x
    using Cons.prems(3,4) that by (intro same) auto
  then have ch: "chain_of nx1 (nx t) ws"
    using chain_cong [of ws nx1 nx "nx t"] Cons.prems(2) by simp
  have "distinct ws" "set ws \<inter> set (xs @ [t]) = {}"
    using Cons.prems(3,4) by auto
  then obtain q' nx' where "add_chain (nx t) q1 nx1 = Some (Inr (q', nx'))" "is_queue nx' q' ((xs @ [t]) @ ws)"
      "\<forall>x. x \<notin> set (xs @ [t]) \<union> set ws \<longrightarrow> nx' x = nx1 x"
    using Cons.IH [OF a(2) ch] by blast
  then show ?case
    using a Cons.prems(2) same by (subst add_chain.simps) auto
qed

text \<open>
  C18. A queue behaves as a list: adding an element that is in no queue appends it, removing takes the first one
  off or returns null, and taking all leaves it empty and returns the chain of its elements, which the loop of
  \<open>notify_all\<close> then moves, each once and in order, behind those of another queue. A third queue over the
  same links is not disturbed.
\<close>

theorem queue_is_list:
  assumes q: "is_queue nx q xs" and t: "t \<notin> set xs" and r: "is_queue nx r ys" and disj: "set xs \<inter> set ys = {}"
    and z: "is_queue nx z zs" "set zs \<inter> (set xs \<union> set ys \<union> {t}) = {}"
  shows "(\<exists>q' nx'. queue_add t q nx = Inr (q', nx') \<and> is_queue nx' q' (xs @ [t]) \<and> is_queue nx' z zs) \<and>
    (case queue_remove q nx of (it, q') \<Rightarrow> it = (if xs = [] then None else Some (hd xs)) \<and> is_queue nx q' (tl xs)) \<and>
    (case queue_remove_all q of (p, q') \<Rightarrow> is_queue nx q' [] \<and>
      (\<exists>r' nx'. add_chain p r nx = Some (Inr (r', nx')) \<and> is_queue nx' r' (ys @ xs) \<and> is_queue nx' q' [] \<and> is_queue nx' z zs))"
proof (intro conjI)
  obtain q' nx' where a: "queue_add t q nx = Inr (q', nx')" "is_queue nx' q' (xs @ [t])"
      and same: "\<And>x. x \<noteq> t \<Longrightarrow> x \<notin> set xs \<Longrightarrow> nx' x = nx x"
    by (rule queue_add_ok [OF q t]) (rule that)
  have "is_queue nx' z zs"
    using z same is_queue_cong [of zs nx' nx z] by blast
  then show "\<exists>q' nx'. queue_add t q nx = Inr (q', nx') \<and> is_queue nx' q' (xs @ [t]) \<and> is_queue nx' z zs"
    using a by blast
  show "case queue_remove q nx of (it, q') \<Rightarrow> it = (if xs = [] then None else Some (hd xs)) \<and> is_queue nx q' (tl xs)"
    by (rule queue_remove_ok [OF q])
  obtain p q2 where all: "queue_remove_all q = (p, q2)" "chain_of nx p xs" "is_queue nx q2 []"
    using queue_remove_all_ok [OF q] by (cases "queue_remove_all q") auto
  have d: "distinct xs"
    using q by (simp add: is_queue_def)
  obtain r' nx2 where "add_chain p r nx = Some (Inr (r', nx2))" "is_queue nx2 r' (ys @ xs)"
      "\<forall>x. x \<notin> set ys \<union> set xs \<longrightarrow> nx2 x = nx x"
    using add_chain_ok [OF r all(2) d disj] by blast
  moreover have "is_queue nx2 q2 []"
    using all(3) by (simp add: is_queue_def)
  moreover have "is_queue nx2 z zs"
    using z calculation(3) is_queue_cong [of zs nx2 nx z] by blast
  ultimately show "case queue_remove_all q of (p, q') \<Rightarrow> is_queue nx q' [] \<and>
      (\<exists>r' nx'. add_chain p r nx = Some (Inr (r', nx')) \<and> is_queue nx' r' (ys @ xs) \<and> is_queue nx' q' [] \<and> is_queue nx' z zs)"
    using all by auto
qed

theorem queue_is_list_witness:
  "is_queue [4 \<mapsto> 2] \<lparr>q_first = Some 4, q_last = Some 2, q_size = 2\<rparr> [4, 2] \<and>
   (\<exists>r' nx'. add_chain (Some 4) empty_queue [4 \<mapsto> 2] = Some (Inr (r', nx')) \<and> is_queue nx' r' [4, 2])"
proof -
  let ?q = "\<lparr>q_first = Some 4, q_last = Some 2, q_size = 2\<rparr>"
  have q: "is_queue [4 \<mapsto> 2] ?q [4, 2]" "is_queue [4 \<mapsto> 2] empty_queue []"
    by (simp_all add: is_queue_def empty_queue_def)
  then show ?thesis
    using queue_is_list [OF q(1) _ q(2) _ q(2), of 9] by (auto simp: queue_remove_all_def)
qed

end
