(* ===== verification/Print.thy ===== *)
theory Print
  imports Prelude
begin

text \<open>
  Text output, \<^verbatim>\<open>print.h\<close>: numbers in decimal and hexadecimal and the two format functions. The output of a
  call is the string of the characters that it passes to \<open>putch\<close>. What is printed can be read back.
\<close>

section \<open>Numbers\<close>

text \<open>
  Decimal digits, on the value of the unsigned type (division and remainder by 10 cannot leave it); the
  digit \<open>d\<close> is the character \<open>'0' + d\<close>.
\<close>

fun dec_digits :: "nat \<Rightarrow> string" where
  "dec_digits v =
     (if v = 0 then ''0''
      else
        let r = v mod 10; q = v div 10
        in (if q > 0 then dec_digits q else []) @ [char_of (48 + r)])"

declare dec_digits.simps [simp del]

definition dec_unsigned :: "'a::len word \<Rightarrow> string" where
  "dec_unsigned v = dec_digits (unat v)"

text \<open>A negation in a type below \<open>int\<close> is one of \<open>int\<close>; else it overflows for the least value.\<close>

definition dec_signed :: "'a::len word \<Rightarrow> string outcome" where
  "dec_signed v =
     (if sint v < 0 then
        if 32 \<le> LENGTH('a) \<and> sint v = - (2 ^ (LENGTH('a) - 1)) then Inl Undefined
        else Inr (CHR ''-'' # dec_unsigned (- v))
      else Inr (dec_unsigned v))"

definition print_bool :: "bool \<Rightarrow> string" where
  "print_bool v = (if v then ''true'' else ''false'')"

definition hex_digits :: string where "hex_digits = ''0123456789abcdef''"

definition print_u8 :: "u8 \<Rightarrow> string" where
  "print_u8 v = [hex_digits ! unat (drop_bit 4 v), hex_digits ! unat (v AND 0x0f)]"

definition print_u16 :: "u16 \<Rightarrow> string" where
  "print_u16 v = print_u8 (ucast (drop_bit 8 v)) @ print_u8 (ucast (v AND 0xff))"

definition print_u32 :: "u32 \<Rightarrow> string" where
  "print_u32 v = print_u16 (ucast (drop_bit 16 v)) @ print_u16 (ucast (v AND 0xffff))"

definition print_u64 :: "u64 \<Rightarrow> string" where
  "print_u64 v = print_u32 (ucast (drop_bit 32 v)) @ print_u32 (ucast (v AND 0xffffffff))"

section \<open>Formats\<close>

text \<open>
  The arguments are given by their output. \<open>puts\<close> prints up to the terminating zero, at which the message
  ends here.
\<close>

definition puts :: "string \<Rightarrow> string" where "puts msg = msg"

text \<open>\<open>print\<close> replaces \<open>{}\<close> by an argument each.\<close>

fun print_args :: "string \<Rightarrow> string list \<Rightarrow> string" where
  "print_args msg [] = puts msg"
| "print_args [] (arg # args) = puts '' ...''"
| "print_args (c1 # msg) (arg # args) =
     (if c1 = CHR ''{'' \<and> msg \<noteq> [] \<and> hd msg = CHR ''}'' then arg @ print_args (tl msg) args
      else c1 # print_args msg (arg # args))"

text \<open>\<open>xprint\<close> replaces each question mark; it does not compile if there are too few of them.\<close>

fun xprint :: "string \<Rightarrow> string list \<Rightarrow> string option" where
  "xprint str [] = Some (puts str)"
| "xprint [] (arg # args) = None"
| "xprint (c # str) (arg # args) =
     (if c = CHR ''?'' then map_option (\<lambda>out. arg @ out) (xprint str args)
      else map_option (\<lambda>out. c # out) (xprint str (arg # args)))"

section \<open>Reading a number back\<close>

definition digit_value :: "char \<Rightarrow> nat" where
  "digit_value c = (if of_char c < (97 :: nat) then of_char c - 48 else of_char c - 87)"

definition read_base :: "nat \<Rightarrow> string \<Rightarrow> nat" where
  "read_base b s = foldl (\<lambda>n c. n * b + digit_value c) 0 s"

definition is_digit :: "char \<Rightarrow> bool" where
  "is_digit c \<longleftrightarrow> c \<in> set ''0123456789''"

text \<open>A decimal number as it is written: digits, without a zero in front.\<close>

definition is_decimal :: "string \<Rightarrow> bool" where
  "is_decimal s \<longleftrightarrow> s \<noteq> [] \<and> (\<forall>c \<in> set s. is_digit c) \<and> (hd s = CHR ''0'' \<longrightarrow> s = ''0'')"

definition read_int :: "string \<Rightarrow> int" where
  "read_int s = (if s \<noteq> [] \<and> hd s = CHR ''-'' then - int (read_base 10 (tl s)) else int (read_base 10 s))"

lemma digit_char:
  assumes "r < 10"
  shows "digit_value (char_of (48 + r)) = r" and "is_digit (char_of (48 + r))" and "char_of (48 + r) = CHR ''0'' \<longleftrightarrow> r = 0"
proof -
  have "\<forall>r \<in> set [0..<10].
      digit_value (char_of (48 + r)) = r \<and> is_digit (char_of (48 + r)) \<and> (char_of (48 + r) = CHR ''0'' \<longleftrightarrow> r = 0)"
    by code_simp
  then show "digit_value (char_of (48 + r)) = r" "is_digit (char_of (48 + r))" "char_of (48 + r) = CHR ''0'' \<longleftrightarrow> r = 0"
    using assms by simp_all
qed

lemma read_base_snoc: "read_base b (s @ [c]) = read_base b s * b + digit_value c"
  by (simp add: read_base_def)

lemma dec_digits_read: "read_base 10 (dec_digits v) = v \<and> is_decimal (dec_digits v)"
proof (induction v rule: less_induct)
  case (less v)
  have r: "v mod 10 < 10"
    by simp
  consider "v = 0" | "0 < v" "v < 10" | "10 \<le> v"
    by linarith
  then show ?case
  proof cases
    case 1
    then show ?thesis
      by (simp add: dec_digits.simps [of 0] read_base_def digit_value_def is_decimal_def is_digit_def)
  next
    case 2
    then show ?thesis
      using digit_char [of v] by (simp add: dec_digits.simps [of v] read_base_def is_decimal_def)
  next
    case 3
    then have q: "0 < v div 10" "v div 10 < v"
      by (simp_all add: div_greater_zero_iff)
    have d: "dec_digits v = dec_digits (v div 10) @ [char_of (48 + v mod 10)]"
      using 3 q by (simp add: dec_digits.simps [of v])
    note IH = less.IH [OF q(2)]
    then have "dec_digits (v div 10) \<noteq> ''0''"
      using q(1) by (auto simp: read_base_def digit_value_def)
    then show ?thesis
      using IH digit_char [OF r] unfolding d read_base_snoc by (auto simp: is_decimal_def)
  qed
qed

lemma nibble_digit: "n < 16 \<Longrightarrow> digit_value (hex_digits ! n) = n"
proof -
  assume n: "n < 16"
  have "\<forall>n \<in> set [0..<16]. digit_value (hex_digits ! n) = n"
    by code_simp
  then show ?thesis
    using n by simp
qed

lemma read_base_append: "read_base b (s @ t) = read_base b s * b ^ length t + read_base b t"
proof (induction t rule: rev_induct)
  case (snoc c t)
  then show ?case
    by (simp add: read_base_snoc append_assoc [symmetric] algebra_simps del: append_assoc)
qed (simp add: read_base_def)

lemma print_u8_read: "length (print_u8 v) = 2" "read_base 16 (print_u8 v) = unat v"
proof -
  have hi: "unat (drop_bit 4 v) = unat v div 16"
    by (simp add: drop_bit_eq_div unat_div)
  have "v AND 0x0f = take_bit 4 v"
    by (simp add: take_bit_eq_mask mask_eq_exp_minus_1)
  then have lo: "unat (v AND 0x0f) = unat v mod 16"
    by (simp add: take_bit_eq_mod unat_mod)
  have "unat v div 16 < 16"
    using u8_bound [of v] by linarith
  then show "read_base 16 (print_u8 v) = unat v"
    unfolding print_u8_def hi lo by (simp add: read_base_def nibble_digit)
qed (simp add: print_u8_def)

lemma print_u16_read: "length (print_u16 v) = 4" "read_base 16 (print_u16 v) = unat v"
proof -
  have hi: "unat (ucast (drop_bit 8 v) :: u8) = unat v div 256"
    using u16_bound [of v] by (simp add: unsigned_ucast_eq take_bit_nat_eq_self drop_bit_eq_div unat_div less_mult_imp_div_less)
  have "v AND 0xff = take_bit 8 v"
    by (simp add: take_bit_eq_mask mask_eq_exp_minus_1)
  then have lo: "unat (ucast (v AND 0xff) :: u8) = unat v mod 256"
    by (simp add: unsigned_ucast_eq take_bit_eq_mod unat_mod)
  show "read_base 16 (print_u16 v) = unat v"
    unfolding print_u16_def read_base_append print_u8_read hi lo by simp
qed (simp add: print_u16_def print_u8_read)

lemma print_u32_read: "length (print_u32 v) = 8" "read_base 16 (print_u32 v) = unat v"
proof -
  have hi: "unat (ucast (drop_bit 16 v) :: u16) = unat v div 65536"
    using u32_bound [of v] by (simp add: unsigned_ucast_eq take_bit_nat_eq_self drop_bit_eq_div unat_div less_mult_imp_div_less)
  have "v AND 0xffff = take_bit 16 v"
    by (simp add: take_bit_eq_mask mask_eq_exp_minus_1)
  then have lo: "unat (ucast (v AND 0xffff) :: u16) = unat v mod 65536"
    by (simp add: unsigned_ucast_eq take_bit_eq_mod unat_mod)
  show "read_base 16 (print_u32 v) = unat v"
    unfolding print_u32_def read_base_append print_u16_read hi lo by simp
qed (simp add: print_u32_def print_u16_read)

lemma print_u64_read: "length (print_u64 v) = 16" "read_base 16 (print_u64 v) = unat v"
proof -
  have "unat v < 2 ^ 64"
    using unsigned_less [of v, where ?'a = nat] by simp
  then have hi: "unat (ucast (drop_bit 32 v) :: u32) = unat v div 2 ^ 32"
    by (simp add: unsigned_ucast_eq take_bit_nat_eq_self drop_bit_eq_div unat_div less_mult_imp_div_less)
  have "v AND 0xffffffff = take_bit 32 v"
    by (simp add: take_bit_eq_mask mask_eq_exp_minus_1)
  then have lo: "unat (ucast (v AND 0xffffffff) :: u32) = unat v mod 2 ^ 32"
    by (simp add: unsigned_ucast_eq take_bit_eq_mod unat_mod)
  show "read_base 16 (print_u64 v) = unat v"
    unfolding print_u64_def read_base_append print_u32_read hi lo by simp
qed (simp add: print_u64_def print_u32_read)

lemma read_int_decimal: "is_decimal s \<Longrightarrow> read_int s = int (read_base 10 s) \<and> read_int (CHR ''-'' # s) = - int (read_base 10 s)"
  by (cases s) (auto simp: is_decimal_def is_digit_def read_int_def)

text \<open>The value of a number that is not negative, and of a negated negative one.\<close>

lemma sint_range: "- (2 ^ (LENGTH('a) - 1)) \<le> sint (v :: 'a::len word)" "sint v < 2 ^ LENGTH('a)" "- sint v < 2 ^ LENGTH('a)"
proof -
  have p: "(2 :: int) ^ (LENGTH('a) - 1) < 2 ^ LENGTH('a)"
    by (rule power_strict_increasing) simp_all
  show "- (2 ^ (LENGTH('a) - 1)) \<le> sint v"
    using sint_greater_eq [of v] by simp
  then show "- sint v < 2 ^ LENGTH('a)"
    using p by linarith
  show "sint v < 2 ^ LENGTH('a)"
    by (rule order.strict_trans [OF _ p]) (use sint_less [of v] in simp)
qed

lemma unat_sint:
  fixes v :: "'a::len word"
  shows "0 \<le> sint v \<Longrightarrow> uint v = sint v" and "sint v < 0 \<Longrightarrow> uint (- v) = - sint v"
proof -
  show "uint v = sint v" if "0 \<le> sint v"
    using that sint_range(2) [of v] by (simp add: uint_sint take_bit_int_eq_self)
  have "- v = word_of_int (- sint v)"
    by simp
  then have "uint (- v) = take_bit LENGTH('a) (- sint v)"
    by (metis uint_word_of_int_eq)
  then show "uint (- v) = - sint v" if "sint v < 0"
    using that sint_range(3) [of v] by (simp add: take_bit_int_eq_self)
qed

text \<open>
  What is printed can be read back: an unsigned number prints as a decimal number without leading zeros that
  stands for it; a signed one with its sign, unless it is the least of a type of 32 bits or more, whose
  negation is undefined; a 64-bit word prints as the sixteen hexadecimal digits of its value.
\<close>

theorem numbers_read_back:
  fixes v :: "'a::len word"
  shows "is_decimal (dec_unsigned v) \<and> read_int (dec_unsigned v) = uint v \<and>
    (case dec_signed v of
       Inr s \<Rightarrow> read_int s = sint v \<and> is_decimal (if sint v < 0 then tl s else s)
     | Inl e \<Rightarrow> 32 \<le> LENGTH('a) \<and> sint v = - (2 ^ (LENGTH('a) - 1))) \<and>
    length (print_u64 w) = 16 \<and> read_base 16 (print_u64 w) = unat w"
proof (intro conjI)
  have dec: "is_decimal (dec_unsigned u)" "read_int (dec_unsigned u) = uint u" "read_int (CHR ''-'' # dec_unsigned u) = - uint u"
    for u :: "'a word"
    using dec_digits_read [of "unat u"] read_int_decimal [of "dec_unsigned u"] by (simp_all add: dec_unsigned_def)
  show "is_decimal (dec_unsigned v)" "read_int (dec_unsigned v) = uint v"
    by (rule dec)+
  show "case dec_signed v of
       Inr s \<Rightarrow> read_int s = sint v \<and> is_decimal (if sint v < 0 then tl s else s)
     | Inl e \<Rightarrow> 32 \<le> LENGTH('a) \<and> sint v = - (2 ^ (LENGTH('a) - 1))"
    using dec [of v] dec [of "- v"] unat_sint [of v] by (auto simp: dec_signed_def)
qed (rule print_u64_read)+

section \<open>Filling in a format\<close>

lemma xprint_too_few: "xprint msg args = None \<longleftrightarrow> length (filter ((=) CHR ''?'') msg) < length args"
  by (induction msg args rule: xprint.induct) auto

lemma xprint_piece: "CHR ''?'' \<notin> set p \<Longrightarrow> xprint (p @ CHR ''?'' # msg) (arg # args) = map_option (\<lambda>out. p @ arg @ out) (xprint msg args)"
  by (induction p) (auto simp: option.map_comp comp_def)

lemma xprint_filled:
  "length ps = length args \<Longrightarrow> \<forall>p \<in> set ps. CHR ''?'' \<notin> set p \<Longrightarrow>
    xprint (concat (map (\<lambda>p. p @ ''?'') ps) @ rest) args = Some (concat (map2 (@) ps args) @ rest)"
proof (induction ps args rule: list_induct2)
  case (Cons p ps arg args)
  then show ?case
    using xprint_piece [of p "concat (map (\<lambda>p. p @ ''?'') ps) @ rest" arg args] by simp
qed (simp add: puts_def)

lemma print_piece: "CHR ''{'' \<notin> set p \<Longrightarrow> print_args (p @ ''{}'' @ msg) (arg # args) = p @ arg @ print_args msg args"
  by (induction p) auto

lemma print_filled:
  "length ps = length args \<Longrightarrow> \<forall>p \<in> set ps. CHR ''{'' \<notin> set p \<Longrightarrow>
    print_args (concat (map (\<lambda>p. p @ ''{}'') ps) @ rest) (args @ more) = concat (map2 (@) ps args) @ print_args rest more"
proof (induction ps args rule: list_induct2)
  case (Cons p ps arg args)
  then show ?case
    using print_piece [of p "concat (map (\<lambda>p. p @ ''{}'') ps) @ rest" arg "args @ more"] by simp
qed simp

lemma print_surplus: "CHR ''{'' \<notin> set p \<Longrightarrow> print_args p (arg # args) = p @ '' ...''"
  by (induction p) (auto simp: puts_def)

text \<open>
  The two format functions fill the holes of a message with the arguments in order and print the text
  around them as it is. With fewer question marks than arguments, \<open>xprint\<close> does not compile, and with
  exactly then; \<open>print\<close> shows surplus arguments by an ellipsis at the end of the message.
\<close>

theorem formats_fill:
  assumes len: "length ps = length args" and p: "\<forall>p \<in> set ps. CHR ''?'' \<notin> set p \<and> CHR ''{'' \<notin> set p" and rest: "CHR ''{'' \<notin> set rest"
  shows "xprint (concat (map (\<lambda>p. p @ ''?'') ps) @ rest) args = Some (concat (map2 (@) ps args) @ rest) \<and>
    (xprint msg args = None \<longleftrightarrow> length (filter ((=) CHR ''?'') msg) < length args) \<and>
    print_args (concat (map (\<lambda>p. p @ ''{}'') ps) @ rest) (args @ more) =
      concat (map2 (@) ps args) @ rest @ (if more = [] then [] else '' ...'')"
  using xprint_filled [OF len, of rest] xprint_too_few print_filled [OF len, of rest more] p print_surplus [OF rest]
  by (cases more) (simp_all add: puts_def)

theorem formats_fill_witness:
  "xprint ''counter=? for ?Hz'' [''5'', ''20''] = Some ''counter=5 for 20Hz'' \<and>
   print_args ''counter={} for {}Hz'' [''5'', ''20'', ''1''] = ''counter=5 for 20Hz ...''"
  using formats_fill [of "[''counter='', '' for '']" "[''5'', ''20'']" "''Hz''" "''?''" "[''1'']"] by simp

end
