(* ===== verification/Timer.thy ===== *)
theory Timer
  imports Prelude
begin

text \<open>
  The timer, \<^verbatim>\<open>pit.cc\<close>, and the interrupt table, \<^verbatim>\<open>idt.cc\<close>. The hardware is given by what is read from
  it; what is written to it is a log.
\<close>

section \<open>Descriptors\<close>

definition KERNEL_CS :: u16 where "KERNEL_CS = 40"
definition USER_CS :: u16 where "USER_CS = 27"

text \<open>The four words of a gate.\<close>

type_synonym IdtEntry = "u32 list"

definition IdtEntry_set :: "u64 \<Rightarrow> u8 \<Rightarrow> u8 \<Rightarrow> IdtEntry" where
  "IdtEntry_set offset type dpl =
     [push_bit 16 (ucast KERNEL_CS) OR ucast (ucast offset :: u16),
      push_bit 16 (ucast (ucast (drop_bit 16 offset) :: u16)) OR 0x8000 OR push_bit 13 (ucast dpl) OR push_bit 8 (ucast type),
      ucast (drop_bit 32 offset), 0]"

text \<open>The table of 256 gates, empty at start.\<close>

type_synonym Idt = "IdtEntry list"

definition empty_idt :: Idt where "empty_idt = replicate 256 [0, 0, 0, 0]"

definition IDT_interrupt :: "u32 \<Rightarrow> u64 \<Rightarrow> Idt \<Rightarrow> Idt outcome" where
  "IDT_interrupt index handler idt =
     (if unat index < length idt then Inr (idt[unat index := IdtEntry_set handler 0xe 0]) else Inl OutOfBounds)"

definition IDT_trap :: "u32 \<Rightarrow> u64 \<Rightarrow> u32 \<Rightarrow> Idt \<Rightarrow> Idt outcome" where
  "IDT_trap index handler dpl idt =
     (if unat index < length idt then Inr (idt[unat index := IdtEntry_set handler 0xf (ucast dpl)]) else Inl OutOfBounds)"

definition spurious_index :: u8 where "spurious_index = 50"

text \<open>\<open>SpuriousInterruptVector\<close> is the value read from the register, the second argument the handler.\<close>

definition IDT_init_system :: "u64 \<Rightarrow> u64 \<Rightarrow> Idt \<Rightarrow> Idt outcome" where
  "IDT_init_system vector handler idt = IDT_interrupt (ucast (vector AND 0xff)) handler idt"

text \<open>The value written to the register.\<close>

definition IDT_init_core :: u64 where
  "IDT_init_core = 0x100 OR ucast spurious_index"

section \<open>Calibration\<close>

definition PIT_FREQ :: u32 where "PIT_FREQ = 1193182"
definition APIT_vector :: u32 where "APIT_vector = 40"

record pit =
  jiffies :: u64
  jiffiesPerSecond :: u64
  apitCounter :: u64
  n_preempt :: u64

definition pit_start :: pit where
  "pit_start = \<lparr>jiffies = 0, jiffiesPerSecond = 0, apitCounter = 0, n_preempt = 0\<rparr>"

datatype hw_write = Outb u16 u8 | Wrmsr u32 u64

text \<open>The divider for 20 Hz, cut to 16 bits if it does not fit.\<close>

definition pit_divider :: u32 where
  "pit_divider = (let d = PIT_FREQ div 20 in if d AND 0xffff \<noteq> d then 0xffff else d)"

text \<open>
  The loop that waits for forty changes of the output bit of the timer; \<open>port n\<close> is the \<open>n\<close>th value read from
  port \<open>0x61\<close>, and the result the number of reads.
\<close>

partial_function (option) count_changes :: "(nat \<Rightarrow> u8) \<Rightarrow> nat \<Rightarrow> u8 \<Rightarrow> nat \<Rightarrow> nat option" where
  "count_changes port n prev changes =
     (if changes < 40 then
        let t = port n AND 0x20
        in if t \<noteq> prev then count_changes port (n + 1) t (changes + 1) else count_changes port (n + 1) prev changes
      else Some n)"

text \<open>\<open>current\<close> is the value of the current count register after the loop.\<close>

definition Pit_init_system :: "u32 \<Rightarrow> (nat \<Rightarrow> u8) \<Rightarrow> u32 \<Rightarrow> u64 \<Rightarrow> Idt \<Rightarrow> pit \<Rightarrow> (hw_write list \<times> Idt \<times> pit) outcome option" where
  "Pit_init_system hz port current handler idt s =
     (let d = pit_divider; initial = 0xffffffff;
          before = [Wrmsr 0x832 0x10000, Wrmsr 0x83E 0xB, Wrmsr 0x838 (ucast initial), Outb 0x61 1, Outb 0x43 0xB6,
            Outb 0x42 (ucast d), Outb 0x42 (ucast (drop_bit 8 d))]
      in map_option (\<lambda>_.
           let diff = initial - current
           in if hz = 0 then Inl Undefined
              else bind_outcome (IDT_interrupt APIT_vector handler idt) (\<lambda>idt1.
                     Inr (before @ [Outb 0x61 0], idt1, s\<lparr>apitCounter := ucast (diff div hz), jiffiesPerSecond := ucast hz\<rparr>)))
         (count_changes port 1 (port 0 AND 0x20) 0))"

definition Pit_init_core :: "pit \<Rightarrow> hw_write list outcome" where
  "Pit_init_core s =
     (if apitCounter s = 0 then Inl (Panic ''apiCounter == ?, did you call Pit::calibrate'')
      else Inr [Wrmsr 0x83E 0xB, Wrmsr 0x832 (push_bit 17 1 OR ucast APIT_vector), Wrmsr 0x838 (apitCounter s)])"

section \<open>The interrupt\<close>

text \<open>
  \<open>tcb\<close> says whether there is a current thread and whether it is idle; the result says whether the handler
  goes on to \<open>Thread::yield\<close>.
\<close>

definition apitHandler :: "bool option \<Rightarrow> u64 \<Rightarrow> u64 \<Rightarrow> u64 \<Rightarrow> pit \<Rightarrow> (bool \<times> hw_write list \<times> pit) outcome" where
  "apitHandler tcb core_id cs rip s =
     (case tcb of
        None \<Rightarrow> Inr (False, [], s)
      | Some idle \<Rightarrow>
          let s1 = (if core_id = 0 then s\<lparr>jiffies := jiffies s + 1\<rparr> else s);
              eoi = [Wrmsr 0x80B 0];
              half = (- 1 :: u64) div 2
          in if cs = ucast KERNEL_CS then bind_outcome (assert_that (rip \<ge> half) ''frame->rip >= UINT64_MAX / 2'') (\<lambda>_. Inr (False, eoi, s1))
             else
               bind_outcome (assert_that (\<not> idle) ''!tcb->is_idle'') (\<lambda>_.
               bind_outcome (assert_that (cs = ucast USER_CS) ''cs == Sys::USER_CS'') (\<lambda>_.
               bind_outcome (assert_that (rip < half) ''rip < UINT64_MAX / 2'') (\<lambda>_.
                 Inr (True, eoi, s1\<lparr>n_preempt := n_preempt s1 + 1\<rparr>)))))"

section \<open>What a descriptor means to the processor\<close>

definition gate_offset :: "IdtEntry \<Rightarrow> u64" where
  "gate_offset e = (ucast (e ! 0) AND 0xFFFF) OR (ucast (e ! 1) AND 0xFFFF0000) OR push_bit 32 (ucast (e ! 2))"

definition gate_selector :: "IdtEntry \<Rightarrow> u16" where "gate_selector e = ucast (drop_bit 16 (e ! 0))"
definition gate_present :: "IdtEntry \<Rightarrow> bool" where "gate_present e \<longleftrightarrow> bit (e ! 1) 15"
definition gate_dpl :: "IdtEntry \<Rightarrow> u8" where "gate_dpl e = ucast (drop_bit 13 (e ! 1)) AND 3"
definition gate_type :: "IdtEntry \<Rightarrow> u8" where "gate_type e = ucast (drop_bit 8 (e ! 1)) AND 0x1F"

lemma mask_bits [simp]:
  "bit (0xFFFF :: int) k \<longleftrightarrow> k < 16" "bit (0xFFFF0000 :: int) k \<longleftrightarrow> 16 \<le> k \<and> k < 32" "bit (0xFF :: int) k \<longleftrightarrow> k < 8"
  "bit (0xF :: int) k \<longleftrightarrow> k < 4" "bit (0xFFFFFFFF :: int) k \<longleftrightarrow> k < 32" "bit (3 :: int) k \<longleftrightarrow> k < 2" "bit (0x1F :: int) k \<longleftrightarrow> k < 5"
  "bit (0x8000 :: int) k \<longleftrightarrow> k = 15" "bit (4 :: int) k \<longleftrightarrow> k = 2" "bit (128 :: int) k \<longleftrightarrow> k = 7"
proof -
  have m: "(0xFFFF :: int) = mask 16" "(0xFFFF0000 :: int) = push_bit 16 (mask 16)" "(0xFF :: int) = mask 8" "(0xF :: int) = mask 4"
    "(0xFFFFFFFF :: int) = mask 32" "(3 :: int) = mask 2" "(0x1F :: int) = mask 5" "(0x8000 :: int) = push_bit 15 1" "(4 :: int) = push_bit 2 1" "(128 :: int) = push_bit 7 1"
    by (simp_all add: mask_eq_exp_minus_1 push_bit_eq_mult)
  show "bit (0xFFFF :: int) k \<longleftrightarrow> k < 16" "bit (0xFFFF0000 :: int) k \<longleftrightarrow> 16 \<le> k \<and> k < 32" "bit (0xFF :: int) k \<longleftrightarrow> k < 8"
    "bit (0xF :: int) k \<longleftrightarrow> k < 4" "bit (0xFFFFFFFF :: int) k \<longleftrightarrow> k < 32" "bit (3 :: int) k \<longleftrightarrow> k < 2" "bit (0x1F :: int) k \<longleftrightarrow> k < 5"
    unfolding m(1-7) by (auto simp: bit_simps)
  show "bit (0x8000 :: int) k \<longleftrightarrow> k = 15" "bit (4 :: int) k \<longleftrightarrow> k = 2" "bit (128 :: int) k \<longleftrightarrow> k = 7"
    unfolding m(8-10) bit_push_bit_iff_int bit_1_iff by auto
qed

lemma gate_fields:
  assumes "type < 16" and "dpl < 4"
  shows "gate_offset (IdtEntry_set offset type dpl) = offset" and "gate_selector (IdtEntry_set offset type dpl) = KERNEL_CS"
    and "gate_present (IdtEntry_set offset type dpl)" and "gate_dpl (IdtEntry_set offset type dpl) = dpl"
    and "gate_type (IdtEntry_set offset type dpl) = type"
proof -
  have t: "k < 4" if "bit type k" for k
    by (rule bit_below [OF that]) (use assms(1) in \<open>simp add: word_less_nat_alt\<close>)
  have d: "k < 2" if "bit dpl k" for k
    by (rule bit_below [OF that]) (use assms(2) in \<open>simp add: word_less_nat_alt\<close>)
  note B = IdtEntry_set_def bit_simps
  show "gate_offset (IdtEntry_set offset type dpl) = offset"
  proof (rule bit_word_eqI)
    fix k
    assume "k < LENGTH(64)"
    then consider "k < 16" | "16 \<le> k" "k < 32" | "32 \<le> k" "k < 64"
      by (auto simp: not_less [symmetric])
    then show "bit (gate_offset (IdtEntry_set offset type dpl)) k = bit offset k"
    proof cases
      case 2
      then have "\<not> bit dpl (k - 13)" "\<not> bit type (k - 8)" "k \<noteq> 15" "k - 16 < 16"
        using d [of "k - 13"] t [of "k - 8"] by auto
      then show ?thesis
        using 2 by (simp add: gate_offset_def B)
    qed (auto simp: gate_offset_def B)
  qed
  show "gate_selector (IdtEntry_set offset type dpl) = KERNEL_CS"
    by (rule bit_word_eqI) (auto simp: gate_selector_def B)
  show "gate_present (IdtEntry_set offset type dpl)"
    by (simp add: gate_present_def B)
  show "gate_dpl (IdtEntry_set offset type dpl) = dpl"
    by (rule bit_word_eqI) (auto simp: gate_dpl_def B dest: t d)
  show "gate_type (IdtEntry_set offset type dpl) = type"
    by (rule bit_word_eqI) (auto simp: gate_type_def B dest: t d)
qed

section \<open>The calibration ends\<close>

definition changes_at :: "(nat \<Rightarrow> u8) \<Rightarrow> nat \<Rightarrow> bool" where
  "changes_at port k \<longleftrightarrow> 0 < k \<and> port k AND 0x20 \<noteq> port (k - 1) AND 0x20"

definition changes_in :: "(nat \<Rightarrow> u8) \<Rightarrow> nat \<Rightarrow> nat \<Rightarrow> nat set" where
  "changes_in port n m = {k. n \<le> k \<and> k < m \<and> changes_at port k}"

lemma changes_in_finite [simp]: "finite (changes_in port n m)"
  by (rule finite_subset [of _ "{n..<m}"]) (auto simp: changes_in_def)

lemma changes_in_step: "n < m \<Longrightarrow> changes_in port n m = (if changes_at port n then insert n (changes_in port (Suc n) m) else changes_in port (Suc n) m)"
  by (auto simp: changes_in_def le_less Suc_le_eq)

lemma changes_in_card: "n < m \<Longrightarrow> card (changes_in port n m) = (if changes_at port n then 1 else 0) + card (changes_in port (Suc n) m)"
  unfolding changes_in_step by (simp add: card_insert_disjoint) (simp add: changes_in_def)

lemma count_changes_returns:
  assumes "0 < n" and "40 \<le> c + card (changes_in port n m)"
  shows "\<exists>r. count_changes port n (port (n - 1) AND 0x20) c = Some r"
  using assms
proof (induction "m - n" arbitrary: n c)
  case 0
  then have "changes_in port n m = {}"
    by (auto simp: changes_in_def)
  then show ?case
    using 0 by (subst count_changes.simps) simp
next
  case (Suc d)
  then have nm: "n < m" "d = m - Suc n"
    by simp_all
  show ?case
  proof (cases "c < 40")
    case True
    let ?c = "if changes_at port n then Suc c else c"
    have "count_changes port n (port (n - 1) AND 0x20) c = count_changes port (Suc n) (port n AND 0x20) ?c"
      using True Suc.prems(1) by (subst count_changes.simps) (auto simp: changes_at_def Let_def)
    moreover have "\<exists>r. count_changes port (Suc n) (port (Suc n - 1) AND 0x20) ?c = Some r"
      by (rule Suc.hyps(1) [OF nm(2)]) (use Suc.prems(2) nm(1) changes_in_card in \<open>auto split: if_splits\<close>)
    ultimately show ?thesis
      by simp
  qed (subst count_changes.simps, simp)
qed

lemma count_changes_counts:
  assumes "count_changes port n l c = Some r" and "0 < n" and "l = port (n - 1) AND 0x20"
  shows "n \<le> r \<and> 40 \<le> c + card (changes_in port n r)"
proof -
  let ?P = "\<lambda>port n l c r. 0 < n \<longrightarrow> l = port (n - 1) AND 0x20 \<longrightarrow> n \<le> r \<and> 40 \<le> c + card (changes_in port n r)"
  have "?P port n l c r"
  proof (rule count_changes.raw_induct [where P = ?P, OF _ assms(1)])
    fix cc :: "(nat \<Rightarrow> u8) \<Rightarrow> nat \<Rightarrow> u8 \<Rightarrow> nat \<Rightarrow> nat option" and port n l c r
    assume IH: "\<And>port n l c r. cc port n l c = Some r \<Longrightarrow> ?P port n l c r"
      and body: "(if c < 40
        then let t = port n AND 0x20 in if t \<noteq> l then cc port (n + 1) t (c + 1) else cc port (n + 1) l c
        else Some n) = Some r"
    show "?P port n l c r"
    proof (cases "c < 40")
      case True
      let ?c = "if port n AND 0x20 \<noteq> l then c + 1 else c"
      have "cc port (n + 1) (port n AND 0x20) ?c = Some r"
        using body True by (auto simp: Let_def split: if_splits)
      then have step: "n + 1 \<le> r" "40 \<le> ?c + card (changes_in port (n + 1) r)"
        using IH [of port "n + 1" "port n AND 0x20" ?c r] by simp_all
      show ?thesis
      proof (intro impI)
        assume "0 < n" "l = port (n - 1) AND 0x20"
        then have "changes_at port n \<longleftrightarrow> port n AND 0x20 \<noteq> l"
          by (simp add: changes_at_def)
        then show "n \<le> r \<and> 40 \<le> c + card (changes_in port n r)"
          using step changes_in_card [of n r port] by (auto split: if_splits)
      qed
    qed (use body in simp)
  qed
  then show ?thesis
    using assms(2,3) by blast
qed

lemma Pit_init_system_Some:
  assumes "Pit_init_system hz port current handler idt s = Some (Inr (writes, idt', s'))"
  shows "idt' = idt[40 := IdtEntry_set handler 0xe 0] \<and>
    s' = s\<lparr>apitCounter := ucast ((0xffffffff - current) div hz), jiffiesPerSecond := ucast hz\<rparr>"
  using assms by (auto simp: Pit_init_system_def Let_def bind_outcome_def IDT_interrupt_def APIT_vector_def split: if_splits)

text \<open>
  The calibration of the timer returns exactly if the output bit of the old timer changes forty times. The
  counter for one tick is then the count of the new timer in that time divided by the frequency, and
  starting a core panics exactly if the frequency is larger than that count.
\<close>

theorem calibration_returns:
  assumes "0 < hz"
  shows "(Pit_init_system hz port current handler empty_idt pit_start \<noteq> None \<longleftrightarrow> (\<exists>m. 40 \<le> card (changes_in port 1 m))) \<and>
    (\<forall>writes idt s. Pit_init_system hz port current handler empty_idt pit_start = Some (Inr (writes, idt, s)) \<longrightarrow>
      unat (apitCounter s) = unat (0xffffffff - current) div unat hz \<and> gate_offset (idt ! 40) = handler \<and> gate_present (idt ! 40) \<and>
      (Inl (Panic ''apiCounter == ?, did you call Pit::calibrate'') = Pit_init_core s \<longleftrightarrow> unat (0xffffffff - current) < unat hz))"
proof (intro conjI allI impI)
  have "count_changes port 1 (port 0 AND 0x20) 0 \<noteq> None \<longleftrightarrow> (\<exists>m. 40 \<le> card (changes_in port 1 m))"
  proof
    assume "count_changes port 1 (port 0 AND 0x20) 0 \<noteq> None"
    then obtain r where "count_changes port 1 (port 0 AND 0x20) 0 = Some r"
      by blast
    then have "40 \<le> card (changes_in port 1 r)"
      using count_changes_counts [of port 1 _ 0 r] by simp
    then show "\<exists>m. 40 \<le> card (changes_in port 1 m)"
      by (rule exI)
  next
    assume "\<exists>m. 40 \<le> card (changes_in port 1 m)"
    then obtain m where "40 \<le> 0 + card (changes_in port 1 m)"
      by auto
    then obtain r where "count_changes port 1 (port (1 - 1) AND 0x20) 0 = Some r"
      using count_changes_returns [of 1 0 port m] by auto
    then show "count_changes port 1 (port 0 AND 0x20) 0 \<noteq> None"
      by simp
  qed
  then show "Pit_init_system hz port current handler empty_idt pit_start \<noteq> None \<longleftrightarrow> (\<exists>m. 40 \<le> card (changes_in port 1 m))"
    by (simp add: Pit_init_system_def Let_def)
  fix writes idt s
  assume "Pit_init_system hz port current handler empty_idt pit_start = Some (Inr (writes, idt, s))"
  then have s: "s = pit_start\<lparr>apitCounter := ucast ((0xffffffff - current) div hz), jiffiesPerSecond := ucast hz\<rparr>"
      and idt: "idt = empty_idt[40 := IdtEntry_set handler 0xe 0]"
    using Pit_init_system_Some by blast+
  show c: "unat (apitCounter s) = unat (0xffffffff - current) div unat hz"
    by (simp add: s unat_ucast_up unat_div)
  show "gate_offset (idt ! 40) = handler" "gate_present (idt ! 40)"
    using gate_fields [where type = 14 and dpl = 0 and offset = handler] by (simp_all add: idt empty_idt_def)
  have "apitCounter s = 0 \<longleftrightarrow> unat (0xffffffff - current) < unat hz"
    using c assms by (metis div_eq_0_iff unat_eq_zero word_gt_0)
  then show "Inl (Panic ''apiCounter == ?, did you call Pit::calibrate'') = Pit_init_core s \<longleftrightarrow> unat (0xffffffff - current) < unat hz"
    by (auto simp: Pit_init_core_def)
qed

text \<open>
  The gate for spurious interrupts is set for the vector that the register holds before start-up, but
  each core then selects vector 50. Unless the register held 50, no gate is set for the selected vector after all
  of the gates of the kernel have been: a spurious interrupt finds a gate that is not present.
\<close>

theorem spurious_not_handled:
  assumes "vector AND 0xff \<noteq> 50"
    and "IDT_init_system vector spurious empty_idt = Inr idt1"
    and "Pit_init_system hz port current timer idt1 pit_start = Some (Inr (writes, idt2, s))"
    and "IDT_trap 14 fault 0 idt2 = Inr idt3"
  shows "IDT_init_core AND 0xff = 50 \<and> \<not> gate_present (idt3 ! unat (IDT_init_core AND 0xff))"
proof -
  have v: "IDT_init_core AND 0xff = 50"
    by (simp add: IDT_init_core_def spurious_index_def)
  let ?v = "ucast (vector AND 0xff) :: u32"
  have "vector AND 0xff = take_bit 8 vector"
    by (simp add: take_bit_eq_mask mask_eq_exp_minus_1)
  then have x: "unat (vector AND 0xff) = unat vector mod 256"
    by (simp add: take_bit_eq_mod unat_mod)
  then have "unat ?v = unat (vector AND 0xff)"
    by (simp add: unsigned_ucast_eq take_bit_nat_eq_self)
  moreover have "unat (vector AND 0xff) \<noteq> 50"
    using assms(1) by (auto dest: arg_cong [of _ _ "word_of_nat :: nat \<Rightarrow> u64"])
  ultimately have ne: "unat ?v \<noteq> 50"
    by simp
  have idt1: "idt1 = empty_idt[unat ?v := IdtEntry_set spurious 0xe 0]"
    using assms(2) by (simp add: IDT_init_system_def IDT_interrupt_def split: if_splits)
  have idt2: "idt2 = idt1[40 := IdtEntry_set timer 0xe 0]"
    using Pit_init_system_Some [OF assms(3)] by blast
  have "idt3 = idt2[14 := IdtEntry_set fault 0xf 0]"
    using assms(4) by (simp add: IDT_trap_def split: if_splits)
  then have "idt3 ! 50 = empty_idt ! 50"
    using ne by (simp add: idt1 idt2)
  then have "idt3 ! 50 = [0, 0, 0, 0]"
    by (simp add: empty_idt_def)
  then show ?thesis
    unfolding v by (simp add: gate_present_def)
qed

section \<open>A sample machine\<close>

text \<open>A timer whose output bit changes at every read, and a register that holds 0x1FF.\<close>

definition demo_port :: "nat \<Rightarrow> u8" where "demo_port n = (if even n then 0 else 0x20)"

lemma demo_port_changes: "card (changes_in demo_port 1 41) = 40"
proof -
  have "changes_at demo_port (Suc k)" for k
    by (cases "even k") (simp_all add: changes_at_def demo_port_def)
  then have "changes_at demo_port k \<longleftrightarrow> 0 < k" for k
    by (cases k) (simp_all add: changes_at_def)
  then have "changes_in demo_port 1 41 = {1..<41}"
    by (simp add: changes_in_def set_eq_iff) linarith
  then show ?thesis
    by simp
qed

theorem calibration_returns_witness:
  "\<exists>r. Pit_init_system 1000 demo_port 0 2 empty_idt pit_start = Some r"
proof -
  have "\<exists>m. 40 \<le> card (changes_in demo_port 1 m)"
    by (rule exI [of _ 41]) (simp only: demo_port_changes)
  then have "Pit_init_system 1000 demo_port 0 2 empty_idt pit_start \<noteq> None"
    using calibration_returns [of 1000 demo_port 0 2] by simp
  then show ?thesis
    by simp
qed

theorem spurious_not_handled_witness:
  "\<exists>idt1 writes idt2 s idt3. IDT_init_system 0x1FF 1 empty_idt = Inr idt1 \<and>
     Pit_init_system 1000 demo_port 0 2 idt1 pit_start = Some (Inr (writes, idt2, s)) \<and>
     IDT_trap 14 3 0 idt2 = Inr idt3 \<and> \<not> gate_present (idt3 ! 50)"
proof -
  have len: "length empty_idt = 256"
    by (simp add: empty_idt_def)
  let ?idt1 = "empty_idt[255 := IdtEntry_set 1 0xe 0]"
  have i1: "IDT_init_system 0x1FF 1 empty_idt = Inr ?idt1"
    by (simp add: IDT_init_system_def IDT_interrupt_def len)
  obtain r where "count_changes demo_port 1 (demo_port 0 AND 0x20) 0 = Some r"
    using count_changes_returns [of 1 0 demo_port 41] demo_port_changes by auto
  then obtain writes idt2 s where i2: "Pit_init_system 1000 demo_port 0 2 ?idt1 pit_start = Some (Inr (writes, idt2, s))"
    by (simp add: Pit_init_system_def Let_def IDT_interrupt_def APIT_vector_def bind_outcome_def len)
  have "length idt2 = 256"
    using Pit_init_system_Some [OF i2] len by simp
  then obtain idt3 where i3: "IDT_trap 14 3 0 idt2 = Inr idt3"
    by (simp add: IDT_trap_def)
  show ?thesis
    using spurious_not_handled [OF _ i1 i2 i3] i1 i2 i3 by auto
qed

end
