(* ===== verification/Start.thy ===== *)
theory Start
  imports Timer
begin

text \<open>
  Segments at start-up: the table of descriptors that \<^verbatim>\<open>system_main.cc\<close> builds from the boot loader's, the task
  segment that each core adds to it in \<^verbatim>\<open>core_main.cc\<close>, and the selectors of \<^verbatim>\<open>system_main.h\<close>. Each core finds
  its own task segment, and the processor switches to the right code and data segments. The task segment opens
  ports to user programs.
\<close>

section \<open>The task segment and its descriptor\<close>

record TSS =
  rsp0 :: u64
  rsp1 :: u64
  rsp2 :: u64
  ist :: "u64 list"
  iopb_offset :: u16

definition new_TSS :: TSS where
  "new_TSS = \<lparr>rsp0 = 0, rsp1 = 0, rsp2 = 0, ist = replicate 7 0, iopb_offset = 0\<rparr>"

definition bytes_of_u64 :: "u64 \<Rightarrow> bytes" where
  "bytes_of_u64 w = map (\<lambda>k. ucast (drop_bit (8 * k) w)) [0..<8]"

text \<open>The packed structure in memory, 104 bytes.\<close>

definition TSS_bytes :: "TSS \<Rightarrow> bytes" where
  "TSS_bytes t =
     replicate 4 0 @ bytes_of_u64 (rsp0 t) @ bytes_of_u64 (rsp1 t) @ bytes_of_u64 (rsp2 t) @ replicate 8 0 @
     concat (map bytes_of_u64 (ist t)) @ replicate 8 0 @ replicate 2 0 @ le16_bytes (iopb_offset t)"

record TSSDescriptor =
  limit_15_0 :: u16
  base_15_0 :: u16
  base_23_16 :: u8
  seg_type :: u8
  seg_dpl :: u8
  seg_present :: bool
  limit_19_16 :: u8
  seg_avl :: bool
  granular :: bool
  base_31_24 :: u8
  base_63_32 :: u32

definition TSSDescriptor_init :: "u64 \<Rightarrow> u64 \<Rightarrow> TSSDescriptor" where
  "TSSDescriptor_init base limit =
     \<lparr>limit_15_0 = ucast (limit AND 0xFFFF), base_15_0 = ucast (base AND 0xFFFF), base_23_16 = ucast (drop_bit 16 base AND 0xFF),
      seg_type = 9, seg_dpl = 0, seg_present = True, limit_19_16 = ucast (drop_bit 16 limit AND 0xF), seg_avl = False,
      granular = True, base_31_24 = ucast (drop_bit 24 base AND 0xFF), base_63_32 = ucast (drop_bit 32 base AND 0xFFFFFFFF)\<rparr>"

text \<open>The two words of the packed descriptor in the table; the fields \<open>_1\<close>, \<open>_2\<close> and \<open>_3\<close> are zero.\<close>

definition descriptor_low :: "TSSDescriptor \<Rightarrow> u64" where
  "descriptor_low d =
     ucast (limit_15_0 d) OR push_bit 16 (ucast (base_15_0 d)) OR push_bit 32 (ucast (base_23_16 d)) OR
     push_bit 40 (ucast (seg_type d)) OR push_bit 45 (ucast (seg_dpl d)) OR push_bit 47 (of_bool (seg_present d)) OR
     push_bit 48 (ucast (limit_19_16 d)) OR push_bit 52 (of_bool (seg_avl d)) OR push_bit 55 (of_bool (granular d)) OR
     push_bit 56 (ucast (base_31_24 d))"

definition descriptor_high :: "TSSDescriptor \<Rightarrow> u64" where
  "descriptor_high d = ucast (base_63_32 d)"

section \<open>The table\<close>

text \<open>The register, with the words of the table it points to.\<close>

record GDTR =
  gdt_limit :: u16
  gdt :: "u64 list"

text \<open>
  \<open>fresh\<close> is what the new memory contains. The result is \<open>base_tss_index\<close> and the new register, whose limit is
  cut to 16 bits.
\<close>

definition DPL_3 :: u64 where "DPL_3 = 0x600000000000"

definition extend_gdt :: "u64 \<Rightarrow> (nat \<Rightarrow> u64) \<Rightarrow> GDTR \<Rightarrow> (u64 \<times> GDTR) outcome" where
  "extend_gdt core_count fresh gdtr =
     (let base_tss_index = (ucast (gdt_limit gdtr) + 1) div 8;
          new_gdt_entries = base_tss_index + 2 * core_count;
          new = map fresh [0..<unat new_gdt_entries];
          old = gdt gdtr
      in if length old < 7 \<or> length new < 7 then Inl OutOfBounds
         else Inr (base_tss_index,
           \<lparr>gdt_limit = ucast (new_gdt_entries * 8 - 1),
            gdt = new[0 := old ! 0, 1 := old ! 5 OR DPL_3, 2 := old ! 6 OR DPL_3, 3 := old ! 5 OR DPL_3,
              4 := old ! 6 OR DPL_3, 5 := old ! 5, 6 := old ! 6]\<rparr>))"

text \<open>One core: \<open>lapic_id\<close> is the number of its APIC, \<open>tss\<close> the address of its segment. The result is what is loaded
  into the task register.\<close>

definition install_tss :: "u64 \<Rightarrow> u64 \<times> u64 \<Rightarrow> u64 list \<Rightarrow> (u16 \<times> u64 list) outcome" where
  "install_tss base_tss_index core table =
     (case core of (lapic_id, tss) \<Rightarrow>
        let tss_index = base_tss_index + 2 * lapic_id;
            d = TSSDescriptor_init tss (104 - 1);
            at = unat tss_index
        in if at + 1 < length table
           then Inr (ucast (push_bit 3 tss_index), table[at := descriptor_low d, at + 1 := descriptor_high d])
           else Inl OutOfBounds)"

text \<open>All cores, in the order in which they get there.\<close>

fun install_all :: "u64 \<Rightarrow> (u64 \<times> u64) list \<Rightarrow> u64 list \<Rightarrow> (u16 list \<times> u64 list) outcome" where
  "install_all base [] table = Inr ([], table)"
| "install_all base (c # cs) table =
     bind_outcome (install_tss base c table) (\<lambda>(sel, table1).
     bind_outcome (install_all base cs table1) (\<lambda>(sels, table2). Inr (sel # sels, table2)))"

section \<open>Selectors\<close>

definition USER_BASE_SELECTOR :: u16 where "USER_BASE_SELECTOR = push_bit 3 1 OR 3"
definition KERNEL_BASE_SELECTOR :: u16 where "KERNEL_BASE_SELECTOR = push_bit 3 5"
definition USER_DS :: u16 where "USER_DS = push_bit 3 4 OR 3"
definition KERNEL_DS :: u16 where "KERNEL_DS = push_bit 3 6"

definition STAR :: u64 where
  "STAR = push_bit 32 (ucast KERNEL_BASE_SELECTOR) OR push_bit 48 (ucast USER_BASE_SELECTOR)"

section \<open>What the processor reads\<close>

text \<open>The segments that the processor takes from \<open>STAR\<close>: code and stack, on entry and on return.\<close>

definition syscall_selectors :: "u64 \<Rightarrow> u16 \<times> u16" where
  "syscall_selectors star = (ucast (drop_bit 32 star) AND 0xFFFC, ucast (drop_bit 32 star) + 8)"

definition sysret_selectors :: "u64 \<Rightarrow> u16 \<times> u16" where
  "sysret_selectors star = ((ucast (drop_bit 48 star) + 16) OR 3, (ucast (drop_bit 48 star) + 8) OR 3)"

definition entry_of :: "u16 \<Rightarrow> nat" where "entry_of sel = unat (drop_bit 3 sel)"

definition segment_base :: "u64 \<Rightarrow> u64 \<Rightarrow> u64" where
  "segment_base low high = (drop_bit 16 low AND 0xFFFFFF) OR push_bit 24 (drop_bit 56 low) OR push_bit 32 high"

definition segment_limit :: "u64 \<Rightarrow> u64" where
  "segment_limit low =
     (let n = (low AND 0xFFFF) OR push_bit 16 (drop_bit 48 low AND 0xF)
      in if bit low 55 then n * 4096 + 4095 else n)"

definition segment_dpl :: "u64 \<Rightarrow> u64" where "segment_dpl low = drop_bit 45 low AND 3"

definition is_available_tss :: "u64 \<Rightarrow> bool" where
  "is_available_tss low \<longleftrightarrow> bit low 47 \<and> drop_bit 40 low AND 0x1F = 9"

text \<open>
  Whether a program at level 3, above its I/O privilege level, may access one byte of a port: the processor reads
  two bytes of the map behind the task segment, which must be inside the limit.
\<close>

definition user_port_allowed :: "(u64 \<Rightarrow> u8) \<Rightarrow> u64 \<Rightarrow> u64 \<Rightarrow> u16 \<Rightarrow> bool" where
  "user_port_allowed mem base limit port =
     (let at = unat (le16 (mem (base + 102)) (mem (base + 103))) + unat port div 8
      in at + 1 \<le> unat limit \<and> \<not> bit (mem (base + word_of_nat at)) (unat port mod 8))"

section \<open>Descriptors and selectors\<close>

lemma word_masks: "(0xFFFF :: u64) = mask 16" "(0xFF :: u64) = mask 8" "(0xFFFFFFFF :: u64) = mask 32"
  "(0xF :: u64) = mask 4" "(0xFFFFFF :: u64) = mask 24" "(0x1F :: u64) = mask 5" "(3 :: u64) = mask 2"
  by (simp_all add: mask_eq_exp_minus_1)

text \<open>The descriptor of a task segment, with the constant parts in one word.\<close>

lemma descriptor_low_init:
  "descriptor_low (TSSDescriptor_init base 103) =
     0x80890000000067 OR push_bit 16 (base AND mask 24) OR push_bit 56 (drop_bit 24 base)"
proof -
  have f: "ucast (ucast (base AND 0xFFFF) :: u16) = base AND mask 16"
    "ucast (ucast (drop_bit 16 base AND 0xFF) :: u8) = drop_bit 16 base AND mask 8"
    "push_bit 56 (ucast (ucast (drop_bit 24 base AND 0xFF) :: u8)) = push_bit 56 (drop_bit 24 base)"
    by (rule bit_word_eqI; auto simp: word_masks bit_simps)+
  have "push_bit 16 (base AND mask 16) OR push_bit 32 (drop_bit 16 base AND mask 8) = push_bit 16 (base AND mask 24)"
  proof (rule bit_word_eqI)
    fix k :: nat
    have "32 \<le> k \<Longrightarrow> 16 + (k - 32) = k - 16"
      by simp
    then show "bit (push_bit 16 (base AND mask 16) OR push_bit 32 (drop_bit 16 base AND mask 8)) k =
       bit (push_bit 16 (base AND mask 24)) k"
      by (cases "32 \<le> k") (auto simp: bit_simps)
  qed
  then have b: "push_bit 16 (base AND mask 16) OR (push_bit 32 (drop_bit 16 base AND mask 8) OR x) =
     push_bit 16 (base AND mask 24) OR x" for x
    by (simp add: or.assoc [symmetric])
  have c: "9895604649984 OR (140737488355328 OR (36028797018963968 OR x)) = 36179430111969280 OR x" for x :: u64
    by (simp flip: or.assoc)
  have "descriptor_low (TSSDescriptor_init base 103) =
     103 OR (push_bit 16 (base AND mask 16) OR (push_bit 32 (drop_bit 16 base AND mask 8) OR
       (0x80890000000000 OR push_bit 56 (drop_bit 24 base))))"
    by (simp add: descriptor_low_def TSSDescriptor_init_def f or.assoc c)
  also have "\<dots> = 0x80890000000067 OR push_bit 16 (base AND mask 24) OR push_bit 56 (drop_bit 24 base)"
  proof -
    have "(0x80890000000067 :: u64) = 103 OR 0x80890000000000"
      by simp
    then show ?thesis
      by (simp only: b or.assoc) (simp only: or.left_commute)
  qed
  finally show ?thesis .
qed

lemma shifted_masks [simp]:
  fixes w :: u64
  shows "push_bit 16 w AND mask 16 = 0" "push_bit 56 w AND mask 16 = 0"
    "drop_bit 48 (push_bit 16 (w AND mask 24)) = 0" "drop_bit 48 (push_bit 56 w) AND mask 4 = 0"
    "drop_bit 16 (push_bit 16 (w AND mask 24)) = w AND mask 24" "drop_bit 16 (push_bit 56 w) AND mask 24 = 0"
    "drop_bit 56 (push_bit 16 (w AND mask 24)) = 0" "drop_bit 56 (push_bit 56 w) = w AND mask 8"
    "drop_bit 40 (push_bit 16 (w AND mask 24)) = 0" "drop_bit 40 (push_bit 56 w) AND mask 5 = 0"
  by (rule bit_word_eqI; auto simp: bit_simps)+

lemma tss_descriptor:
  shows "segment_base (descriptor_low (TSSDescriptor_init base 103)) (descriptor_high (TSSDescriptor_init base 103)) = base"
    and "segment_limit (descriptor_low (TSSDescriptor_init base 103)) = 425983"
    and "is_available_tss (descriptor_low (TSSDescriptor_init base 103))"
proof -
  let ?low = "descriptor_low (TSSDescriptor_init base 103)"
  have c: "drop_bit 16 (0x80890000000067 :: u64) AND mask 24 = 0" "drop_bit 56 (0x80890000000067 :: u64) = 0"
    "(0x80890000000067 :: u64) AND mask 16 = 103" "drop_bit 48 (0x80890000000067 :: u64) AND mask 4 = 0"
    "drop_bit 40 (0x80890000000067 :: u64) AND mask 5 = 9" "bit (0x80890000000067 :: u64) 55"
    "bit (0x80890000000067 :: u64) 47"
    by (simp_all flip: word_masks)
  note low = descriptor_low_init bit.conj_disj_distrib2 drop_bit_or shifted_masks c or.left_neutral or.right_neutral
    and_zero_eq zero_and_eq bit_or_iff and.assoc and.idem
  have "drop_bit 16 ?low AND mask 24 = base AND mask 24" "drop_bit 56 ?low = drop_bit 24 base AND mask 8"
    by (simp_all only: low)
  moreover have "(base AND mask 24) OR push_bit 24 (drop_bit 24 base AND mask 8) OR
     push_bit 32 (ucast (ucast (drop_bit 32 base AND 0xFFFFFFFF) :: u32)) = base"
  proof (rule bit_word_eqI)
    fix k
    assume "k < LENGTH(64)"
    then consider "k < 24" | "24 \<le> k" "k < 32" | "32 \<le> k" "k < 64"
      by (auto simp: not_less [symmetric])
    then show "bit ((base AND mask 24) OR push_bit 24 (drop_bit 24 base AND mask 8) OR
       push_bit 32 (ucast (ucast (drop_bit 32 base AND 0xFFFFFFFF) :: u32))) k = bit base k"
      by cases (auto simp: bit_simps word_masks)
  qed
  ultimately show "segment_base ?low (descriptor_high (TSSDescriptor_init base 103)) = base"
    by (simp add: segment_base_def descriptor_high_def TSSDescriptor_init_def word_masks(5))
  have "?low AND mask 16 = 103" "drop_bit 48 ?low AND mask 4 = 0" "bit ?low 55"
    by (simp_all only: low simp_thms)
  then show "segment_limit ?low = 425983"
    by (simp add: segment_limit_def word_masks(1,4))
  have "drop_bit 40 ?low AND mask 5 = 9" "bit ?low 47"
    by (simp_all only: low simp_thms)
  then show "is_available_tss ?low"
    by (simp add: is_available_tss_def word_masks(6))
qed

lemma selectors:
  "syscall_selectors STAR = (KERNEL_CS, KERNEL_DS)" "sysret_selectors STAR = (USER_CS, 19)"
  "entry_of KERNEL_CS = 5" "entry_of KERNEL_DS = 6" "entry_of USER_CS = 3" "entry_of USER_DS = 4" "entry_of 19 = 2"
  by (simp_all add: syscall_selectors_def sysret_selectors_def STAR_def KERNEL_CS_def KERNEL_DS_def USER_CS_def
      USER_DS_def KERNEL_BASE_SELECTOR_def USER_BASE_SELECTOR_def entry_of_def)

section \<open>The table after start-up\<close>

lemma selector_index:
  assumes "unat (k :: u64) < 8192"
  shows "entry_of (ucast (push_bit 3 k)) = unat k"
proof -
  have "unat (push_bit 3 k) = 8 * unat k"
    using assms by (simp add: push_bit_eq_mult unat_word_ariths)
  moreover have "take_bit 16 (8 * unat k) = 8 * unat k"
    using assms by (simp add: take_bit_nat_eq_self_iff)
  ultimately have "unat (ucast (push_bit 3 k) :: u16) = 8 * unat k"
    by (simp add: unsigned_ucast_eq)
  then show ?thesis
    by (simp add: entry_of_def drop_bit_eq_div unat_div)
qed

lemma install_tss_ok:
  assumes "unat (base + 2 * lapic_id) = at" and "at + 1 < length table" and "length table \<le> 8192"
  shows "\<exists>sel. install_tss base (lapic_id, tss) table =
       Inr (sel, table[at := descriptor_low (TSSDescriptor_init tss 103), at + 1 := descriptor_high (TSSDescriptor_init tss 103)]) \<and>
     entry_of sel = at"
  using assms selector_index [of "base + 2 * lapic_id"] by (simp add: install_tss_def Let_def)

text \<open>A task segment is found through a selector.\<close>

definition names_tss :: "u64 list \<Rightarrow> u16 \<Rightarrow> u64 \<Rightarrow> bool" where
  "names_tss table sel tss \<longleftrightarrow>
     entry_of sel + 1 < length table \<and> is_available_tss (table ! entry_of sel) \<and>
     segment_base (table ! entry_of sel) (table ! (entry_of sel + 1)) = tss"

lemma install_all_ok:
  assumes "\<And>lapic_id tss. (lapic_id, tss) \<in> set cores \<Longrightarrow> lapic_id < n"
    and "distinct (map fst cores)" and "length table = b + 2 * unat n" and "length table \<le> 8192" and "unat base = b"
  shows "\<exists>sels table1. install_all base cores table = Inr (sels, table1) \<and> length table1 = length table \<and>
     take b table1 = take b table \<and>
     (\<forall>k. (\<forall>c \<in> set cores. k \<noteq> b + 2 * unat (fst c) \<and> k \<noteq> b + 2 * unat (fst c) + 1) \<longrightarrow> table1 ! k = table ! k) \<and>
     list_all2 (\<lambda>c sel. names_tss table1 sel (snd c) \<and> entry_of sel = b + 2 * unat (fst c)) cores sels"
  using assms
proof (induction cores arbitrary: table)
  case (Cons c cores)
  obtain lapic_id tss where c: "c = (lapic_id, tss)"
    by (cases c)
  let ?at = "b + 2 * unat lapic_id"
  let ?low = "descriptor_low (TSSDescriptor_init tss 103)" and ?high = "descriptor_high (TSSDescriptor_init tss 103)"
  let ?t = "table[?at := ?low, ?at + 1 := ?high]"
  have "lapic_id < n"
    using Cons.prems(1) [of lapic_id tss] c by simp
  then have lt: "unat lapic_id < unat n"
    by (simp add: word_less_nat_alt)
  then have at: "unat (base + 2 * lapic_id) = ?at" "?at + 1 < length table"
    using Cons.prems(3-5) by (simp_all add: unat_word_ariths)
  obtain sel where sel: "install_tss base c table = Inr (sel, ?t)" "entry_of sel = ?at"
    using install_tss_ok [OF at Cons.prems(4)] c by blast
  obtain sels table1 where rest: "install_all base cores ?t = Inr (sels, table1)" "length table1 = length ?t"
    "take b table1 = take b ?t"
    "\<forall>k. (\<forall>c \<in> set cores. k \<noteq> b + 2 * unat (fst c) \<and> k \<noteq> b + 2 * unat (fst c) + 1) \<longrightarrow> table1 ! k = ?t ! k"
    "list_all2 (\<lambda>c sel. names_tss table1 sel (snd c) \<and> entry_of sel = b + 2 * unat (fst c)) cores sels"
    using Cons.IH [of ?t] Cons.prems by auto
  have other: "unat (fst c') \<noteq> unat lapic_id" if "c' \<in> set cores" for c'
    using that Cons.prems(2) c by (auto simp: word_unat_eq_iff [symmetric] image_iff)
  have "table1 ! ?at = ?low" "table1 ! (?at + 1) = ?high"
    using rest(4) [rule_format, of ?at] rest(4) [rule_format, of "?at + 1"] other at(2) by (fastforce dest: other)+
  then have "names_tss table1 sel tss"
    using tss_descriptor [of tss] at(2) rest(2) sel(2) by (simp add: names_tss_def)
  then show ?case
    using sel rest c by (auto simp: bind_outcome_def)
qed simp

lemma extend_gdt_ok:
  assumes "7 \<le> length (gdt g)" and "unat (gdt_limit g) + 1 = 8 * length (gdt g)"
    and "length (gdt g) + 2 * unat n \<le> 8192"
  shows "\<exists>base g1. extend_gdt n fresh g = Inr (base, g1) \<and> unat base = length (gdt g) \<and>
     length (gdt g1) = length (gdt g) + 2 * unat n \<and> unat (gdt_limit g1) + 1 = 8 * length (gdt g1) \<and>
     gdt g1 ! 2 = gdt g ! 6 OR DPL_3 \<and> gdt g1 ! 3 = gdt g ! 5 OR DPL_3 \<and> gdt g1 ! 4 = gdt g ! 6 OR DPL_3 \<and>
     gdt g1 ! 5 = gdt g ! 5 \<and> gdt g1 ! 6 = gdt g ! 6"
proof -
  let ?base = "(ucast (gdt_limit g) + 1) div 8 :: u64" and ?len = "length (gdt g)"
  have "unat (ucast (gdt_limit g) + 1 :: u64) = 8 * ?len"
    using assms(2,3) by (simp add: unat_word_ariths unat_ucast_up)
  then have base: "unat ?base = ?len"
    by (simp add: unat_div)
  then have entries: "unat (?base + 2 * n) = ?len + 2 * unat n"
    using assms(3) by (simp add: unat_word_ariths)
  then have "unat ((?base + 2 * n) * 8 - 1) = 8 * (?len + 2 * unat n) - 1"
    using assms(1,3) by (subst unat_minus_one) (auto simp: unat_word_ariths unat_eq_0 [symmetric])
  moreover have "take_bit 16 (8 * (?len + 2 * unat n) - 1) = 8 * (?len + 2 * unat n) - 1"
    using assms(3) by (simp add: take_bit_nat_eq_self_iff)
  ultimately have "unat (ucast ((?base + 2 * n) * 8 - 1) :: u16) = 8 * (?len + 2 * unat n) - 1"
    by (simp add: unsigned_ucast_eq)
  then show ?thesis
    using assms(1) base entries by (simp add: extend_gdt_def Let_def)
qed

text \<open>After start-up, whatever the order in which the cores come, each core's task register names a descriptor of
  its own task segment; the code and stack segments that the processor takes from \<open>STAR\<close> on entry to the kernel are
  the boot loader's 64-bit ones, those on return to a program are the same with privilege level 3, and the limit of
  the table is its length. A core whose APIC number is not below the number of cores writes behind the table.\<close>

theorem segments_installed:
  assumes "7 \<le> length (gdt g)" and "unat (gdt_limit g) + 1 = 8 * length (gdt g)"
    and "length (gdt g) + 2 * unat n \<le> 8192"
    and "\<forall>c \<in> set cores. fst c < n" and "distinct (map fst cores)"
  shows "\<exists>base g1 sels table. extend_gdt n fresh g = Inr (base, g1) \<and> install_all base cores (gdt g1) = Inr (sels, table) \<and>
     list_all2 (\<lambda>c sel. names_tss table sel (snd c)) cores sels \<and> unat (gdt_limit g1) + 1 = 8 * length table \<and>
     (case syscall_selectors STAR of (cs, ss) \<Rightarrow>
        cs = KERNEL_CS \<and> table ! entry_of cs = gdt g ! 5 \<and> table ! entry_of ss = gdt g ! 6) \<and>
     (case sysret_selectors STAR of (cs, ss) \<Rightarrow>
        cs = USER_CS \<and> table ! entry_of cs = gdt g ! 5 OR DPL_3 \<and> table ! entry_of ss = gdt g ! 6 OR DPL_3) \<and>
     (\<forall>lapic_id tss. n \<le> lapic_id \<and> lapic_id < 0x100000000 \<longrightarrow> install_tss base (lapic_id, tss) (gdt g1) = Inl OutOfBounds)"
proof -
  obtain base g1 where ext: "extend_gdt n fresh g = Inr (base, g1)" and base: "unat base = length (gdt g)"
    and len: "length (gdt g1) = length (gdt g) + 2 * unat n" and lim: "unat (gdt_limit g1) + 1 = 8 * length (gdt g1)"
    and code: "gdt g1 ! 2 = gdt g ! 6 OR DPL_3" "gdt g1 ! 3 = gdt g ! 5 OR DPL_3" "gdt g1 ! 5 = gdt g ! 5" "gdt g1 ! 6 = gdt g ! 6"
    using extend_gdt_ok [OF assms(1-3), of fresh] by blast
  obtain sels table where all: "install_all base cores (gdt g1) = Inr (sels, table)" "length table = length (gdt g1)"
    "take (length (gdt g)) table = take (length (gdt g)) (gdt g1)"
    "list_all2 (\<lambda>c sel. names_tss table sel (snd c) \<and> entry_of sel = length (gdt g) + 2 * unat (fst c)) cores sels"
    using install_all_ok [OF _ assms(5) len _ base] assms(3,4) len by fastforce
  have same: "table ! k = gdt g1 ! k" if "k < 7" for k
    using all(3) assms(1) that nth_take [of k "length (gdt g)"] by (metis less_le_trans)
  have "list_all2 (\<lambda>c sel. names_tss table sel (snd c)) cores sels"
    using all(4) by (rule list_all2_mono) simp
  moreover have "install_tss base (lapic_id, tss) (gdt g1) = Inl OutOfBounds"
    if "n \<le> lapic_id" "lapic_id < 0x100000000" for lapic_id tss
  proof -
    have "unat (base + 2 * lapic_id) = length (gdt g) + 2 * unat lapic_id"
      using that(2) base assms(3) by (simp add: unat_word_ariths word_less_nat_alt)
    then show ?thesis
      using that(1) len by (simp add: install_tss_def Let_def word_le_nat_alt)
  qed
  ultimately show ?thesis
    using ext all(1,2) lim code same by (simp add: selectors)
qed

text \<open>C19. The task segment gives user programs access to ports, because the offset of its permission map is zero
  and so its own bytes are the map: whatever the kernel stack, every port up to 31 and from 96 to 831 is allowed, among
  them \<open>0xf4\<close>, with which the kernel shuts the machine down. The descriptor counts its limit in pages, so that
  for all higher ports the answer is the memory behind the segment.\<close>

theorem user_ports_open:
  assumes "\<forall>k < 104. mem (tss + word_of_nat k) = TSS_bytes (new_TSS\<lparr>rsp0 := stack\<rparr>) ! k"
  defines "limit \<equiv> segment_limit (descriptor_low (TSSDescriptor_init tss (104 - 1)))"
  shows "(unat port < 32 \<or> 96 \<le> unat port \<and> unat port < 832 \<longrightarrow> user_port_allowed mem tss limit port) \<and>
     (832 \<le> unat port \<longrightarrow> user_port_allowed mem tss limit port =
        (\<not> bit (mem (tss + word_of_nat (unat port div 8))) (unat port mod 8)))"
proof -
  have bytes: "TSS_bytes (new_TSS\<lparr>rsp0 := stack\<rparr>) =
     replicate 4 0 @ bytes_of_u64 stack @ replicate 92 0"
    by (simp add: TSS_bytes_def new_TSS_def bytes_of_u64_def le16_bytes_def lo8_def hi8_def numeral_eq_Suc)
  have "mem (tss + 102) = 0" "mem (tss + 103) = 0"
    using assms(1) [rule_format, of 102] assms(1) [rule_format, of 103]
    by (simp_all add: bytes nth_append bytes_of_u64_def)
  moreover have "mem (tss + word_of_nat (unat port div 8)) = 0"
    if "unat port < 32 \<or> 96 \<le> unat port \<and> unat port < 832"
  proof -
    have "unat port div 8 < 4 \<or> 12 \<le> unat port div 8 \<and> unat port div 8 < 104"
      using that by auto
    then show ?thesis
      using assms(1) [rule_format, of "unat port div 8"] by (auto simp: bytes nth_append bytes_of_u64_def)
  qed
  moreover have "limit = 425983"
    by (simp add: limit_def tss_descriptor(2))
  moreover have "unat port div 8 < 8192"
    using u16_bound [of port] by simp
  ultimately show ?thesis
    by (auto simp: user_port_allowed_def le16_def)
qed

section \<open>Two cores\<close>

text \<open>A boot loader's table of seven entries, and the segments of cores 1 and 0.\<close>

definition demo_gdt :: GDTR where
  "demo_gdt = \<lparr>gdt_limit = 55, gdt = [0, 0x8F9A000000FFFF, 0x8F93000000FFFF, 0xCF9A000000FFFF, 0xCF93000000FFFF,
     0x209A0000000000, 0x930000000000]\<rparr>"

theorem segments_installed_witness:
  "\<exists>base g1 sels table. extend_gdt 2 (\<lambda>_. 7) demo_gdt = Inr (base, g1) \<and>
     install_all base [(1, 0xFFFF800000123000), (0, 0xFFFF800000456000)] (gdt g1) = Inr (sels, table) \<and>
     list_all2 (\<lambda>c sel. names_tss table sel (snd c)) [(1 :: u64, 0xFFFF800000123000), (0, 0xFFFF800000456000)] sels"
  using segments_installed [of demo_gdt 2 "[(1, 0xFFFF800000123000), (0, 0xFFFF800000456000)]" "\<lambda>_. 7"]
  by (auto simp: demo_gdt_def)

theorem user_ports_open_witness:
  "user_port_allowed (\<lambda>a. if unat a < 104 then TSS_bytes (new_TSS\<lparr>rsp0 := 0x1000\<rparr>) ! unat a else 0xFF) 0
     (segment_limit (descriptor_low (TSSDescriptor_init 0 (104 - 1)))) 0xF4"
  using user_ports_open [of "\<lambda>a. if unat a < 104 then TSS_bytes (new_TSS\<lparr>rsp0 := 0x1000\<rparr>) ! unat a else 0xFF"
      0 "0x1000" "0xF4"]
  by (simp add: unat_of_nat take_bit_nat_eq_self_iff)

end
