(* ===== verification/Spec2Isabelle.thy ===== *)
theory Spec2Isabelle
  imports Hosts Heap_Run Path_Spec Brk_Spec Proc_Spec Shared_Spec Spin Sched_Spec Queue Print Start
begin

text \<open>
  A model of a small x86-64 kernel and the theorems that make it correct: its network stack with the
  virtio-net driver, its memory (frames, heap, page tables, address spaces), its file system, its threads'
  synchronisation, and the system calls over all of these. The sources are under \<^verbatim>\<open>src/kernel\<close>.

  \<^bold>\<open>The program.\<close> \<^verbatim>\<open>virtio_net.cc\<close> moves raw Ethernet frames, through a PCI device or a fake
  backend with the same rings; \<^verbatim>\<open>net_proto.cc\<close> classifies received frames, answers ARP requests
  and pings, sends IPv4 packets with the help of the cache in \<^verbatim>\<open>arp_cache.cc\<close>; \<^verbatim>\<open>udp.cc\<close> hands
  datagrams to registered handlers; \<^verbatim>\<open>net_chat.cc\<close> is the one client, a store of messages over
  UDP; \<^verbatim>\<open>net_stats.cc\<close> counts events at every step. \<^verbatim>\<open>pcie.cc\<close> finds and enables the device,
  \<^verbatim>\<open>physmem.cc\<close> provides frames to the rings, to \<^verbatim>\<open>heap.cc\<close> and to \<^verbatim>\<open>vmm.cc\<close>, which maps them, keeps
  the regions of each thread and loads their pages on demand. \<^verbatim>\<open>block_io.cc\<close> and \<^verbatim>\<open>ramdisk.cc\<close> are the
  disk, \<^verbatim>\<open>ext2.cc\<close> the files on it, \<^verbatim>\<open>elf.cc\<close> starts a program from one. \<^verbatim>\<open>condition.h\<close> and the headers over
  it let threads wait for each other. \<^verbatim>\<open>syscall.cc\<close> is what user programs see: files, memory, processes
  and semaphores.

  \<^bold>\<open>The theories\<close>, in the order in which they build on each other:

  \<^item> \<open>Prelude\<close>: byte strings, pointers as options, the outcome type (a fault is \<open>Inl\<close>), bounded
    copies, little- and big-endian words, indices of rings of eight.
  \<^item> \<open>Checksum\<close>: \<open>bswap16\<close> and \<open>checksum16\<close>, equal to the RFC 1071 checksum; filling a checksum
    in makes data verify; one changed word makes it fail.
  \<^item> \<open>Packets\<close>: the packed headers as records with readers and writers, which are inverse.
  \<^item> \<open>Net_Stats\<close>: the counters.
  \<^item> \<open>Arp_Cache\<close>: the eight-entry cache with least-recently-used replacement refines a map.
  \<^item> \<open>Virtqueue\<close>, \<open>Virtio_Fake\<close>: descriptor, available and used rings, and the fake backend over
    them; its receive ring refines a queue of frames.
  \<^item> \<open>Physmem\<close>: the frame allocator; a frame in use is never given out again.
  \<^item> \<open>Pcie\<close>: configuration reads over a given configuration space, writes as a log; search and
    enumeration.
  \<^item> \<open>Virtio_Hw\<close>: the PCI backend: capability parsing, register protocol, ring set-up, sending and
    receiving; a buffer the device owns is never reused.
  \<^item> \<open>Virtio_Net\<close>: the interface over both backends and the bring-up sequence.
  \<^item> \<open>Chat_Store\<close>, \<open>Udp_Table\<close>: the message rings and text handling; the port table.
  \<^item> \<open>Net_Tx\<close>, \<open>Net_Rx\<close>, \<open>Net_Chat\<close>: the state of the whole stack, its senders, its receiver, and
    the chat functions over them.
  \<^item> \<open>Net_Inv\<close>: the invariant of the stack on the fake backend, the exact frames and counters of
    every function; \<open>Net_Run\<close>: sequences of operations; \<open>Hosts\<close>: exchanges between hosts.

  \<^item> \<open>Block_Device\<close>, \<open>Ext2\<close>: reads of any range over a device of blocks, the ramdisk, and the file
    system; a node is an array of bytes, a directory a list of names, and a scan ends unless an entry
    has length zero.
  \<^item> \<open>Heap\<close>, \<open>Heap_Run\<close>: the boundary-tag allocator on its array of words; every run of allocations
    and releases keeps its blocks apart and its lists and counters right.
  \<^item> \<open>Elf\<close>: loading a program and building its first stack.
  \<^item> \<open>Page_Table\<close>, \<open>Page_Lookup\<close>, \<open>Address_Space\<close>: page tables in memory as a map from pages to
    frames, the walk, the check of user buffers, and the invariant of a user address space.
  \<^item> \<open>Vme\<close>, \<open>Vmm\<close>, \<open>Vm_Unmap\<close>, \<open>Vm_Ops\<close>: the list of regions, the operations of the memory manager,
    what mmap and munmap change, and demand paging, which a program cannot see.
  \<^item> \<open>User_Mem\<close>: bytes of user memory through the page tables.
  \<^item> \<open>Monitor\<close>, \<open>Sync\<close>, \<open>Kernel_Sem\<close>: conditions and the end of a thread switch as steps of threads in
    any order; the objects built on them lose no wake-up, except kernel semaphores for a wait for zero.
  \<^item> \<open>Sys_File\<close>, \<open>Syscall\<close>: the state of processes, every system call, and the dispatcher;
    \<open>File_Spec\<close>, \<open>Path_Spec\<close>: descriptors as a finite map, reads and writes as bytes of a file,
    opening as a lookup along a path in the tree on the disk.
  \<^item> \<open>Fresh_Page\<close>, \<open>Brk_Spec\<close>: what mapping a new page changes; growing and shrinking the break.
  \<^item> \<open>Spin\<close>: the spin lock step by step: one holder, and the interrupt flag restored by nested releases.
  \<^item> \<open>Queue\<close>: the intrusive queue over shared links, which refines a list.
  \<^item> \<open>Shared\<close>, \<open>Shared_Spec\<close>: reference-counted handles; whatever a program does with them, nothing is
    used after its deletion, deleted twice or left over.
  \<^item> \<open>Sched\<close>, \<open>Sched_Spec\<close>: the scheduler on any number of cores; every thread is in one place at a time,
    the machine goes off exactly when all threads are gone, and yielding is round robin.
  \<^item> \<open>Timer\<close>: calibration of the timer, the timer interrupt and the table of gates; calibration returns
    exactly when the port it watches changes often enough.
  \<^item> \<open>Start\<close>: the descriptor table, task segments and selectors at start-up; every core finds its own
    segment, and the segment opens ports to user programs.
  \<^item> \<open>Print\<close>: numbers and formats; a printed number reads back, a format is filled in order.
  \<^item> \<open>Proc_Spec\<close>: the tree of processes under any sequence of calls and switches; exit and wait.

  \<^bold>\<open>How the state corresponds.\<close> A file's static variables are a record with the same names
  (\<open>g_arp_cache\<close>, \<open>g_inbox\<close>, \<open>g_net\<close>, \<open>g_hw\<close>, \dots); an array of eight is a list of length eight,
  which the invariants state; integers are words of their C++ width, sizes and array positions are
  natural numbers. A function takes the state and returns it with its result. A null pointer is
  \<open>None\<close>; a pointer to a buffer is \<open>Some\<close> of the bytes it points to, and an output buffer is
  returned with its new content. Memory behind page tables is a function from frames to their words;
  a linked list whose nodes nobody else points to is a list; pointers to processes are positions in
  the list of all of them. Each function that takes a lock takes it for one access to one
  component, so a function of the stack is a sequence of atomic steps; sequences of calls are lists
  of operations in \<open>Net_Run\<close>.

  \<^bold>\<open>Faults.\<close> Where the code writes through a fixed-size buffer whose bound does not follow from a
  check just before, the model's write is \<open>store_at\<close>, which is the fault \<open>OutOfBounds\<close> when it does
  not fit; running out of frames is the kernel's panic. Theorem \<open>stack_never_faults\<close> shows that no
  run with frames of at most 1514 bytes faults; \<open>long_echo_overflows\<close> that longer frames, which the
  driver accepts, do.

  \<^bold>\<open>Interfaces.\<close> The locales \<open>resolver\<close> (the cache as its sender sees it), \<open>frame_queue\<close> (the receive
  ring as the poll loop sees it), \<open>mailbox\<close> (the chat rings), the packed-structure codec,
  \<open>block_device\<close> (an array of bytes behind whole-block reads: ramdisk, node, any device that serves
  a content), \<open>signalling\<close> and \<open>token_passing\<close> (what an object must promise so that threads waiting on its
  condition are woken) state what one component promises another; each is interpreted on the definitions that provide it.

  \<^bold>\<open>Bounds and fuel.\<close> Loops that end by a measure are functions with a termination proof. Two loops
  have an explicit bound in the source and the same bound here: at most 48 capabilities are parsed,
  and the reset of the device is polled at most 1000000 times. The checksum theorems hold for data of
  up to 65536 bytes, more than any frame. Loops that may not end are \<open>partial_function (option)\<close>, and
  that they return is part of the theorems about them; \<open>entries_hang\<close> says when one does not.

  \<^bold>\<open>Parameters.\<close> The PCI configuration space is a function from addresses to 32-bit values; the
  device behind the registers is a pair of read and write functions on a state of its own; the
  address a region is mapped to is a function; what the timer hardware returns when it is read is an
  argument. Nothing is assumed of them.

  \<^bold>\<open>Not modelled.\<close> The serial port, debug output and the printing of tables; the assembly of context
  switches, which here is the exchange of the running thread, and the allocation of stacks and control
  blocks; the rest of start-up, sleep and shutdown; the translation buffer; the destructors of objects that own
  others, so the objects of \<open>Shared\<close> hold no handles. Outside \<open>Spin\<close> what a spin lock protects is one
  step. The vendored boot loader and its headers, and the tests, are not part of the program's logic.
\<close>

section \<open>Safety of the whole stack\<close>

definition mac_a :: bytes where "mac_a = [0x52, 0x54, 0, 0, 0, 1]"
definition mac_b :: bytes where "mac_b = [0x52, 0x54, 0, 0, 0, 2]"
definition ip_a :: bytes where "ip_a = [10, 0, 2, 15]"
definition ip_b :: bytes where "ip_b = [10, 0, 2, 16]"

lemma addresses:
  "length mac_a = 6" "length mac_b = 6" "length ip_a = 4" "length ip_b = 4"
  by (simp_all add: mac_a_def mac_b_def ip_a_def ip_b_def)

lemmas host_a = host_inv [OF addresses(1,3)] host_fields [OF addresses(1,3)] host_queue [OF addresses(1,3)]
lemmas host_b = host_inv [OF addresses(2,4)] host_fields [OF addresses(2,4)] host_queue [OF addresses(2,4)]



text \<open>
  C5. The echo responder overflows its reply buffer: a well-formed echo request for this host with
  more than 1472 bytes of payload, which the driver delivers since frames may have 2048 bytes, makes
  it write past the end of \<open>reply[1514]\<close>.
\<close>

theorem long_echo_overflows:
  assumes "net_inv s" and "length mac = 6" and "length ip = 4"
    and "1472 < length payload" and "length payload \<le> 2006"
  shows "frame_ok (echo_request mac ip ident seqno payload s) \<and>
    net_handle_frame (echo_request mac ip ident seqno payload s) s = Inl OutOfBounds"
  using echo_request_outcome(1) [OF assms(1-3,5,4)] echo_request_parts(1) [OF assms(1-3)] assms(5)
  by (simp add: frame_ok_def VIRTIO_NET_MAX_FRAME_SIZE_def)

theorem long_echo_overflows_witness:
  "net_handle_frame (echo_request mac_b ip_b 1 1 (replicate 1473 0x41) (host mac_a ip_a)) (host mac_a ip_a) =
     Inl OutOfBounds"
  using long_echo_overflows [OF host_a(2) addresses(2,4), of "replicate 1473 0x41" 1 1] by simp

text \<open>
  C3. Ping: an echo request of up to 1472 bytes of payload is answered with exactly one frame, back
  to the sender's MAC and IP address, with the same identifier, sequence number and payload, a time
  to live of 64 and both checksums valid; the counters rise by one receive and one transmit per
  layer, and no ARP binding, chat message or handler is touched.
\<close>

theorem echo_request_answered:
  assumes "net_inv s" and "length mac = 6" and "length ip = 4" and "length payload \<le> 1472"
  shows "\<exists>s'. net_handle_frame (echo_request mac ip ident seqno payload s) s = Inr s' \<and>
    kept s s' \<and> net_arp s' = net_arp s \<and> net_chat s' = net_chat s \<and> handler_calls s' = handler_calls s \<and>
    stats s' = count_events [Ipv4Rx, IcmpRx, RawTx, Ipv4Tx, IcmpTx] (stats s) \<and>
    (let reply = last_tx s'; e = read_EthernetHeader reply; h = read_Ipv4Header (drop 14 reply);
         c = read_IcmpEchoHeader (drop 34 reply)
     in eth_dst e = mac \<and> eth_src e = g_my_mac s \<and> bswap16 (ether_type e) = ETH_TYPE_IPV4 \<and>
        src_ip h = g_my_ip s \<and> dst_ip h = ip \<and> ttl h = 64 \<and> protocol h = IPV4_PROTO_ICMP \<and>
        unat (bswap16 (total_length h)) = 28 + length payload \<and>
        checksum16 (segment 14 20 reply) = 0 \<and> icmp_type c = ICMP_ECHO_REPLY \<and> icmp_code c = 0 \<and>
        icmp_identifier c = ident \<and> icmp_sequence c = seqno \<and> checksum16 (drop 34 reply) = 0 \<and>
        drop 42 reply = payload)"
proof -
  let ?e = "eth_header (g_my_mac s) mac ETH_TYPE_IPV4"
  let ?h = "ipv4_header ip (g_my_ip s) IPV4_PROTO_ICMP (8 + length payload)"
  let ?c = "icmp_request ident seqno payload"
  have n: "length payload \<le> 2006" "length payload \<le> 60000"
    using assms(4) by simp_all
  have id: "wf_identity s"
    using assms(1) by (simp add: net_inv_def)
  have e: "length (eth_src ?e) = 6" and h: "length (src_ip ?h) = 4"
    using assms(2,3) by simp_all
  obtain s' where s': "net_handle_frame (echo_request mac ip ident seqno payload s) s = Inr s'" "kept s s'"
    "stats s' = count_events [Ipv4Rx, IcmpRx, RawTx, Ipv4Tx, IcmpTx] (stats s)"
    "net_arp s' = net_arp s" "net_chat s' = net_chat s" "handler_calls s' = handler_calls s"
    "last_tx s' = echo_reply_frame s ?e ?h ?c 20 payload"
    using echo_request_outcome(2) [OF assms(1-3) n(1) assms(4)] by blast
  have len: "unat (bswap16 (total_length ?h)) = 28 + length payload"
    using assms(4) by (simp add: unat_word_ariths unat_of_nat)
  have sums: "checksum16 (write_Ipv4Header (reply_ip s ?h 20)) = 0"
    "checksum16 (write_IcmpEchoHeader (reply_icmp ?c payload) @ payload) = 0"
    using reply_checksums(1) [OF id h, of 20 "[]"] reply_checksums(2) [OF id h, of 20 payload ?c] n by simp_all
  have c: "read_IcmpEchoHeader (write_IcmpEchoHeader (reply_icmp ?c payload) @ payload) = reply_icmp ?c payload"
    using icmp.decode_encode [of "reply_icmp ?c payload" payload] by simp
  show ?thesis
    using s' len sums by (intro exI [of _ s'])
      (simp add: Let_def echo_reply_parts [OF id e h] reply_fields c)
qed

theorem echo_request_answered_witness:
  "\<exists>s'. net_handle_frame (echo_request mac_b ip_b 7 1 [1, 2, 3] (host mac_a ip_a)) (host mac_a ip_a) = Inr s' \<and>
    drop 42 (last_tx s') = [1, 2, 3]"
  using echo_request_answered [OF host_a(2) addresses(2,4), of "[1, 2, 3]" 7 1] by (auto simp: Let_def)

section \<open>Two hosts\<close>

text \<open>
  C4. Address resolution and the first packet: \<open>a\<close> does not know \<open>b\<close>, so its first datagram is
  not sent (the call returns false) but a broadcast ARP request is; \<open>b\<close> answers it and learns
  \<open>a\<close>'s address, \<open>a\<close> learns \<open>b\<close>'s from the answer, and sending the datagram again succeeds and
  hands exactly its payload to the handler \<open>b\<close> has for the port.
\<close>

theorem resolve_then_deliver:
  assumes "net_inv a" and "net_inv b" and "arp_map (net_arp a) (g_my_ip b) = None"
    and "length payload \<le> 1472" and "sp \<noteq> 0" and "dp \<noteq> 0"
    and "lookup_handler (g_udp_handlers b) dp = Some h"
  shows "\<exists>a1 a2 a3 b1 b2.
    udp_send_to (Some (g_my_ip b)) sp dp (Some payload) (length payload) a = (False, a1) \<and>
    net_handle_frame (last_tx a1) b = Inr b1 \<and> net_handle_frame (last_tx b1) a1 = Inr a2 \<and>
    arp_map (net_arp a2) (g_my_ip b) = Some (g_my_mac b) \<and>
    arp_map (net_arp b1) (g_my_ip a) = Some (g_my_mac a) \<and>
    udp_send_to (Some (g_my_ip b)) sp dp (Some payload) (length payload) a2 = (True, a3) \<and>
    net_handle_frame (last_tx a3) b1 = Inr b2 \<and>
    b2 = call_handler h (g_my_ip a) sp payload (stat UdpRx (stat Ipv4Rx b1)) \<and>
    stats a3 = count_events [RawTx, ArpTx, ArpRx, RawTx, Ipv4Tx, UdpTx] (stats a)"
proof -
  have ida: "length (g_my_mac a) = 6" "length (g_my_ip a) = 4"
    and idb: "length (g_my_mac b) = 6" "length (g_my_ip b) = 4"
    using assms(1,2) by (simp_all add: net_inv_def wf_identity_def)
  let ?n = "length payload"
  have n: "8 + ?n \<le> 2014" "?n \<le> ?n"
    using assms(4) by simp_all
  obtain a1 where a1: "net_send_ipv4 (Some (g_my_ip b)) IPV4_PROTO_UDP (Some (udp_datagram sp dp payload ?n))
      (8 + ?n) a = (False, a1)" "kept a a1" "stats a1 = count_events [RawTx, ArpTx] (stats a)"
    "last_tx a1 = write_EthernetHeader (eth_header broadcast_mac (g_my_mac a) ETH_TYPE_ARP) @
      write_ArpPacket (arp_packet ARP_OP_REQUEST (g_my_mac a) (g_my_ip a) (replicate 6 0) (g_my_ip b))"
    using ipv4_miss [OF assms(1) idb(2) assms(3) n(1), of "Some (udp_datagram sp dp payload ?n)"] by auto
  have send1: "udp_send_to (Some (g_my_ip b)) sp dp (Some payload) ?n a = (False, a1)"
    using a1(1) assms(4-6) by (simp add: udp_send_to_def sizeof_defs Let_def)
  obtain b1 a2 where d: "net_handle_frame (last_tx a1) b = Inr b1" "net_handle_frame (last_tx b1) a1 = Inr a2"
    "net_inv b1" "kept a1 a2" "g_my_mac b1 = g_my_mac b" "g_my_ip b1 = g_my_ip b"
    "net_arp b1 = arp_cache_insert (Some (g_my_ip a)) (Some (g_my_mac a)) (net_arp b)"
    "a2 = stat ArpRx (a1\<lparr>net_arp := arp_cache_insert (Some (g_my_ip b)) (Some (g_my_mac b)) (net_arp a1)\<rparr>)"
    "g_udp_handlers b1 = g_udp_handlers b"
    using arp_dialogue [OF assms(1,2) a1(4,2)] by blast
  have inv: "net_inv a1" "net_inv a2" and my: "g_my_mac a2 = g_my_mac a" "g_my_ip a2 = g_my_ip a"
    using a1(2) d(4) by (simp_all add: kept_def)
  have map_a: "arp_map (net_arp a2) (g_my_ip b) = Some (g_my_mac b)"
    using learnt [OF inv(1) idb(2,1)] d(8) by simp
  have map_b: "arp_map (net_arp b1) (g_my_ip a) = Some (g_my_mac a)"
    using learnt [OF assms(2) ida(2,1)] d(7) by simp
  obtain a3 where a3: "udp_send_to (Some (g_my_ip b)) sp dp (Some payload) ?n a2 = (True, a3)"
    "stats a3 = count_events [RawTx, Ipv4Tx, UdpTx] (stats a2)"
    "net_handle_frame (last_tx a3) b1 = Inr (call_handler h (g_my_ip a) sp payload (stat UdpRx (stat Ipv4Rx b1)))"
    using udp_delivery [OF inv(2) assms(2) map_a n(2) assms(4-6)] d assms(7) my by auto
  have "stats a2 = count_events [RawTx, ArpTx, ArpRx] (stats a)"
    using d(8) a1(3) by (simp add: count_events_def)
  then show ?thesis
    using send1 d map_a map_b a3 by (simp add: count_events_def)
qed

text \<open>A host that has started its chat, and the result of starting it.\<close>

lemma chat_started:
  assumes "net_inv s" and "fst (net_chat_init s)"
  obtains t where "net_chat_init s = (True, s\<lparr>g_udp_handlers := t\<rparr>)" "udp_inv t"
    "lookup_handler t NET_CHAT_PORT = Some Chat_Handler"
    "udp_register_handler NET_CHAT_PORT (Some Chat_Handler) (g_udp_handlers s) = (True, t)"
proof -
  obtain t where t: "udp_register_handler NET_CHAT_PORT (Some Chat_Handler) (g_udp_handlers s) = (True, t)"
    using assms(2) by (cases "udp_register_handler NET_CHAT_PORT (Some Chat_Handler) (g_udp_handlers s)")
      (auto simp: net_chat_init_def)
  then show ?thesis
    using that [of t] t udp_register [OF _ t] assms(1) by (simp add: net_chat_init_def net_inv_def)
qed

lemma host_chat:
  assumes "length mac = 6" and "length ip = 4"
  shows "fst (net_chat_init (host mac ip))"
  by (simp add: net_chat_init_def host_fields [OF assms] udp_register_handler_def find_port_def
      UDP_HANDLER_CAPACITY_def NET_CHAT_PORT_def upt_conv_Cons empty_handler_entry_def)

theorem resolve_then_deliver_witness:
  "\<exists>a1 b a2 b1. fst (udp_send_to (Some ip_b) 5000 NET_CHAT_PORT (Some [72, 105]) 2 (host mac_a ip_a)) = False \<and>
    net_handle_frame (last_tx a1) b = Inr b1 \<and> net_handle_frame (last_tx b1) a1 = Inr a2 \<and>
    fst (udp_send_to (Some ip_b) 5000 NET_CHAT_PORT (Some [72, 105]) 2 a2)"
proof -
  obtain t where t: "net_chat_init (host mac_b ip_b) = (True, (host mac_b ip_b)\<lparr>g_udp_handlers := t\<rparr>)" "udp_inv t"
    "lookup_handler t NET_CHAT_PORT = Some Chat_Handler"
    by (rule chat_started [OF host_b(2) host_chat [OF addresses(2,4)]])
  let ?b = "(host mac_b ip_b)\<lparr>g_udp_handlers := t\<rparr>"
  have b: "net_inv ?b" "g_my_ip ?b = ip_b"
    using net_chat_init_kept [OF host_b(2)] t(1) by (simp_all add: kept_def host_b)
  have miss: "arp_map (net_arp (host mac_a ip_a)) (g_my_ip ?b) = None"
    using arp_reset_map [of ip_b 0] addresses by (simp add: host_a host_b)
  have "(5000 :: u16) \<noteq> 0" "NET_CHAT_PORT \<noteq> 0" "length [72, 105 :: u8] \<le> 1472"
    "lookup_handler (g_udp_handlers ?b) NET_CHAT_PORT = Some Chat_Handler"
    by (simp_all add: NET_CHAT_PORT_def t(3) [unfolded NET_CHAT_PORT_def])
  note r = resolve_then_deliver [OF host_a(2) b(1) miss this(3,1,2,4)]
  have two: "length [72, 105 :: u8] = 2"
    by simp
  obtain a1 a2 a3 b1 where
    "udp_send_to (Some ip_b) 5000 NET_CHAT_PORT (Some [72, 105]) 2 (host mac_a ip_a) = (False, a1)"
    "net_handle_frame (last_tx a1) ?b = Inr b1" "net_handle_frame (last_tx b1) a1 = Inr a2"
    "udp_send_to (Some ip_b) 5000 NET_CHAT_PORT (Some [72, 105]) 2 a2 = (True, a3)"
    using r unfolding b(2) two by blast
  then show ?thesis
    by (intro exI [of _ a1] exI [of _ ?b] exI [of _ a2] exI [of _ b1]) simp
qed

text \<open>
  C1. Chat, end to end: the text given to \<open>net_chat_send\<close> on one host, carried as one frame to
  another, is what \<open>net_chat_recv\<close> returns there after \<open>net_chat_poll\<close>, with unprintable
  characters as dots and cut to 127 characters; the frame fits the driver, and the message is
  unread on the receiver exactly until it is received.
\<close>

theorem chat_end_to_end:
  assumes "net_inv a" and "net_inv b" and "fst (net_chat_init a)" and "fst (net_chat_init b)"
    and "arp_map (net_arp a) (g_my_ip b) = Some (g_my_mac b)"
    and "terminated str" and "cstr str \<noteq> []"
    and "rx_queue b = []" and "unread (net_chat b) = []" and "length out = 128"
  shows "\<exists>a1 n b1 out' c.
    net_chat_send (Some (g_my_ip b)) (Some str) a = (True, a1) \<and>
    inject_rx (Some (last_tx a1)) (length (last_tx a1)) (net_nic b) = (True, n) \<and>
    net_chat_poll (b\<lparr>net_nic := n\<rparr>) = Inr (True, b1) \<and> net_inv b1 \<and> rx_queue b1 = [] \<and>
    length (unread (net_chat b1)) = 1 \<and>
    net_chat_recv (Some out) 128 (net_chat b1) = (True, Some out', c) \<and>
    cstr out' = map sanitize_char (take 127 (cstr str)) \<and> unread c = []"
proof -
  let ?k = "min 127 (length (cstr str))"
  let ?txt = "map sanitize_char (take 127 (cstr str))"
  let ?p = "?txt @ 0 # drop (Suc ?k) (replicate 128 0)"
  have idb: "length (g_my_mac b) = 6" "length (g_my_ip b) = 4"
    using assms(2) by (simp_all add: net_inv_def wf_identity_def)
  obtain ta where ta: "net_chat_init a = (True, a\<lparr>g_udp_handlers := ta\<rparr>)" "udp_inv ta"
    by (rule chat_started [OF assms(1,3)])
  let ?a = "a\<lparr>g_udp_handlers := ta\<rparr>"
  have inva: "net_inv ?a"
    using net_chat_init_kept [OF assms(1)] ta(1) by (simp add: kept_def)
  have k: "?k \<le> length ?p" "?k \<le> 1472" "take ?k ?p = ?txt" "0 < ?k"
    using assms(7) by (auto simp: min_def)
  have port: "NET_CHAT_PORT \<noteq> 0"
    by (simp add: NET_CHAT_PORT_def)
  have hit: "arp_map (net_arp ?a) (g_my_ip b) = Some (g_my_mac b)"
    using assms(5) by simp
  obtain a1 where a1: "udp_send_to (Some (g_my_ip b)) NET_CHAT_PORT NET_CHAT_PORT (Some ?p) ?k ?a = (True, a1)"
    "length (last_tx a1) = 42 + ?k"
    and deliver: "\<And>s. net_inv s \<Longrightarrow> g_my_mac s = g_my_mac b \<Longrightarrow> g_my_ip s = g_my_ip b \<Longrightarrow>
      net_handle_frame (last_tx a1) s = Inr (case lookup_handler (g_udp_handlers s) NET_CHAT_PORT of
        None \<Rightarrow> stat Ipv4Rx s
      | Some h \<Rightarrow> call_handler h (g_my_ip ?a) NET_CHAT_PORT ?txt (stat UdpRx (stat Ipv4Rx s)))"
    using udp_delivery [OF inva assms(2) hit k(1,2) port port] unfolding k(3) by metis
  have sent: "net_chat_send (Some (g_my_ip b)) (Some str) a = (True, a1)"
    using a1(1) ta(1) k(4) sanitize_cstr_eq [OF assms(6), of "replicate 128 0"]
    by (simp add: net_chat_send_def NET_CHAT_TEXT_SIZE_def)
  have fb: "fake_inv (net_nic b)" and frame: "frame_ok (last_tx a1)" and room: "length (rx_queue b) < 8"
    using assms(2,8) a1(2) by (simp_all add: net_inv_def frame_ok_def VIRTIO_NET_MAX_FRAME_SIZE_def)
  obtain n where n: "inject_rx (Some (last_tx a1)) (length (last_tx a1)) (net_nic b) = (True, n)"
    "fake_inv n" "rx_frames (g_net n) = [last_tx a1]"
    using inject_rx_room [OF fb frame room] assms(8) by auto
  obtain tb where tb: "net_chat_init b = (True, b\<lparr>g_udp_handlers := tb\<rparr>)" "udp_inv tb"
    "lookup_handler tb NET_CHAT_PORT = Some Chat_Handler"
    "udp_register_handler NET_CHAT_PORT (Some Chat_Handler) (g_udp_handlers b) = (True, tb)"
    by (rule chat_started [OF assms(2,4)])
  let ?b = "b\<lparr>net_nic := n, g_udp_handlers := tb\<rparr>"
  have initb: "net_chat_init (b\<lparr>net_nic := n\<rparr>) = (True, ?b)"
    using tb(4) by (simp add: net_chat_init_def)
  have invb: "net_inv ?b" and qb: "rx_queue ?b = [last_tx a1]"
    using assms(2) n(2,3) tb(2) by (simp_all add: net_inv_def wf_identity_def)
  obtain m where m: "net_poll_once ?b =
      bind_outcome (net_handle_frame (last_tx a1) (?b\<lparr>net_nic := m\<rparr>)) (\<lambda>s2. Inr (True, s2))"
    "net_inv (?b\<lparr>net_nic := m\<rparr>)" "rx_frames (g_net m) = []"
    using poll_head [OF invb qb] by blast
  let ?m = "chat_message (g_my_ip ?a) NET_CHAT_PORT ?txt"
  define b1 where "b1 = call_handler Chat_Handler (g_my_ip ?a) NET_CHAT_PORT ?txt
      (stat UdpRx (stat Ipv4Rx (?b\<lparr>net_nic := m\<rparr>)))"
  have "net_handle_frame (last_tx a1) (?b\<lparr>net_nic := m\<rparr>) = Inr b1"
    using deliver [OF m(2)] tb(3) by (simp add: b1_def)
  then have polled: "net_chat_poll (b\<lparr>net_nic := n\<rparr>) = Inr (True, b1)"
    using m(1) initb by (simp add: net_chat_poll_def)
  have kb: "kept (stat UdpRx (stat Ipv4Rx (?b\<lparr>net_nic := m\<rparr>))) b1"
    unfolding b1_def using m(2) by (intro call_handler_kept) simp
  then have invb1: "net_inv b1" and qb1: "rx_queue b1 = []"
    using m(3) by (simp_all add: kept_def)
  have chat: "net_chat b1 = store_message_locked ?m (net_chat b)" and cinv: "chat_inv (net_chat b)"
    using assms(2) by (simp_all add: b1_def call_handler_def chat_udp_handler_def net_inv_def)
  have u: "unread (net_chat b1) = [?m]"
    unfolding chat using store_message_unread [OF cinv] assms(9) by simp
  have cinv1: "chat_inv (net_chat b1)"
    using invb1 by (simp add: net_inv_def)
  obtain c out' where "net_chat_recv (Some out) 128 (net_chat b1) = (True, Some out', c)"
    "cstr out' = take 127 (cstr (chat_text ?m))" "unread c = []"
    using net_chat_recv_pop [OF cinv1 u chat_message_terminated, of 128 out] assms(10) by auto
  then show ?thesis
    using sent n(1) polled invb1 qb1 u by (auto simp: chat_message_cstr o_def simp flip: length_unread)
qed

lemma known_peer:
  "net_inv ((host mac_a ip_a)\<lparr>net_arp := arp_cache_insert (Some ip_b) (Some mac_b) (net_arp (host mac_a ip_a))\<rparr>)"
  "arp_map (arp_cache_insert (Some ip_b) (Some mac_b) (net_arp (host mac_a ip_a))) ip_b = Some mac_b"
proof -
  have "arp_inv (net_arp (host mac_a ip_a))"
    using host_a(2) by (simp add: net_inv_def)
  from arp_cache_insert_inv [OF this addresses(4,2)] have "kept (host mac_a ip_a) ((host mac_a ip_a)\<lparr>net_arp :=
      arp_cache_insert (Some ip_b) (Some mac_b) (net_arp (host mac_a ip_a))\<rparr>)"
    by (rule kept_arp [OF host_a(2)])
  then show "net_inv ((host mac_a ip_a)\<lparr>net_arp := arp_cache_insert (Some ip_b) (Some mac_b) (net_arp (host mac_a ip_a))\<rparr>)"
    by (simp add: kept_def)
  show "arp_map (arp_cache_insert (Some ip_b) (Some mac_b) (net_arp (host mac_a ip_a))) ip_b = Some mac_b"
    by (rule learnt [OF host_a(2) addresses(4,2)])
qed

theorem chat_end_to_end_witness:
  "\<exists>a1 n b1 out' c. net_chat_send (Some ip_b) (Some [72, 7, 105, 0])
      ((host mac_a ip_a)\<lparr>net_arp := arp_cache_insert (Some ip_b) (Some mac_b) (net_arp (host mac_a ip_a))\<rparr>) = (True, a1) \<and>
    net_chat_poll ((host mac_b ip_b)\<lparr>net_nic := n\<rparr>) = Inr (True, b1) \<and>
    net_chat_recv (Some (replicate 128 0)) 128 (net_chat b1) = (True, Some out', c) \<and> cstr out' = [72, 46, 105]"
proof -
  let ?a = "(host mac_a ip_a)\<lparr>net_arp := arp_cache_insert (Some ip_b) (Some mac_b) (net_arp (host mac_a ip_a))\<rparr>"
  have "fst (net_chat_init ?a)"
    using host_chat [OF addresses(1,3)] by (simp add: net_chat_init_def case_prod_beta)
  moreover have "arp_map (net_arp ?a) (g_my_ip (host mac_b ip_b)) = Some (g_my_mac (host mac_b ip_b))"
    using known_peer(2) by (simp add: host_b)
  moreover have "cstr [72, 7, 105, 0] = [72, 7, 105]" "terminated [72, 7, 105, 0]"
    by (simp_all add: cstr_def terminated_def)
  moreover have "map sanitize_char (take 127 [72, 7, 105]) = [72, 46, 105]"
    by (simp add: sanitize_char_def is_printable_def)
  ultimately show ?thesis
    using chat_end_to_end [OF known_peer(1) host_b(2) _ host_chat [OF addresses(2,4)], of "[72, 7, 105, 0]" "replicate 128 0"]
      boot_chat_inv(2) init_fake_inv(2) [OF boot_nic_wf] by (simp add: host_b) blast
qed

section \<open>The receiver\<close>

text \<open>
  Polling handles the frames in the order in which they arrived, one per call: with an empty
  ring it returns false and changes nothing; otherwise it takes exactly the oldest frame, counts it
  and returns true with the state its handling leads to, in which the other frames still wait.
\<close>

theorem poll_handles_in_order:
  assumes "net_inv s" and "\<forall>f \<in> set (rx_queue s). length f \<le> 1514"
  shows "case rx_queue s of
      [] \<Rightarrow> net_poll_once s = Inr (False, s)
    | f # fs \<Rightarrow> \<exists>n s'. net_handle_frame f (s\<lparr>net_nic := n\<rparr>) = Inr s' \<and> net_poll_once s = Inr (True, s') \<and>
        g_stats n = net_stats_increment RawRx (stats s) \<and> rx_queue s' = fs \<and> net_inv s'"
proof (cases "rx_queue s")
  case Nil
  then show ?thesis
    using poll_empty [OF assms(1)] by simp
next
  case (Cons f fs)
  obtain n where n: "net_poll_once s = bind_outcome (net_handle_frame f (s\<lparr>net_nic := n\<rparr>)) (\<lambda>s2. Inr (True, s2))"
    "net_inv (s\<lparr>net_nic := n\<rparr>)" "rx_frames (g_net n) = fs" "g_stats n = net_stats_increment RawRx (stats s)"
    using poll_head [OF assms(1) Cons] by blast
  moreover obtain s' where "net_handle_frame f (s\<lparr>net_nic := n\<rparr>) = Inr s'" "kept (s\<lparr>net_nic := n\<rparr>) s'"
    using net_handle_frame_safe [OF n(2), of f] assms(2) Cons by (auto simp: safe_outcome_def split: sum.splits)
  ultimately show ?thesis
    using Cons by (auto simp: kept_def)
qed

theorem poll_handles_in_order_witness:
  "\<exists>n s'. inject_rx (Some [1, 2, 3]) 3 (net_nic (host mac_a ip_a)) = (True, n) \<and>
    net_poll_once ((host mac_a ip_a)\<lparr>net_nic := n\<rparr>) = Inr (True, s') \<and> rx_queue s' = []"
proof -
  let ?f = "[1, 2, 3 :: u8]"
  have len: "length (rx_queue (host mac_a ip_a)) < 8"
    unfolding host_a(10) by simp
  have "fake_inv (net_nic (host mac_a ip_a))"
    using host_a(2) by (simp add: net_inv_def)
  then obtain n where n: "inject_rx (Some ?f) (length ?f) (net_nic (host mac_a ip_a)) = (True, n)" "fake_inv n"
    "rx_frames (g_net n) = [?f]"
    using inject_rx_room [OF _ _ len, of ?f] host_a(10)
    by (auto simp: frame_ok_def VIRTIO_NET_MAX_FRAME_SIZE_def)
  moreover from this have "net_inv ((host mac_a ip_a)\<lparr>net_nic := n\<rparr>)"
    using host_a(2) by (simp add: net_inv_def wf_identity_def)
  ultimately show ?thesis
    using poll_handles_in_order [of "(host mac_a ip_a)\<lparr>net_nic := n\<rparr>"] by (auto simp: numeral_3_eq_3)
qed

text \<open>
  A corrupted IPv4 header never reaches a protocol handler: if any one of the 16-bit words of a
  valid header after the first is replaced by another value (other than the two representations of
  zero by each other), the frame is dropped and counted as a bad checksum, and nothing else happens.
\<close>

theorem corrupted_header_dropped:
  assumes "wf_EthernetHeader e" and "mac_is_for_me s (eth_dst e)" and "bswap16 (ether_type e) = ETH_TYPE_IPV4"
    and "checksum16 (pre @ [a, b] @ post) = 0" and "length (pre @ [a, b] @ post) = 20"
    and "even (length pre)" and "pre \<noteq> []" and "hd pre AND 0x0F = 5"
    and "word_at a b \<noteq> word_at c d" and "{word_at a b, word_at c d} \<noteq> {0, 65535}"
  shows "net_handle_frame (write_EthernetHeader e @ (pre @ [c, d] @ post) @ payload) s =
    Inr (stat DroppedBadChecksum s)"
proof -
  let ?h = "pre @ [c, d] @ post"
  let ?f = "write_EthernetHeader e @ ?h @ payload"
  have bad: "checksum16 ?h \<noteq> 0"
    using assms(4-6,9,10) by (intro checksum16_one_word [where a = a and b = b]) auto
  note rf = read_frame [OF assms(1), where rest = "?h @ payload"]
  have h20: "length ?h = 20"
    using assms(5) by simp
  have d: "drop 14 ?f = ?h @ payload" and len: "34 \<le> length ?f"
    using rf(2,3) assms(5) by simp_all
  have seg: "segment 14 20 ?f = ?h"
    using rf(6) [where n = 20] h20 by (simp only: take_append) simp
  obtain v pre' where pre: "pre = v # pre'"
    using assms(7) by (cases pre) auto
  have "version_ihl (read_Ipv4Header (?h @ payload)) = v"
    by (simp add: read_Ipv4Header_def pre)
  then have k: "ipv4_header_length (read_Ipv4Header (drop 14 ?f)) = 20"
    unfolding d using assms(8) pre by (simp add: ipv4_header_length_def)
  have "handle_ipv4 ?f s = Inr (stat DroppedBadChecksum s)"
    using len bad k seg by (simp add: handle_ipv4_def Let_def sizeof_defs)
  then show ?thesis
    using net_handle_frame_ipv4 [OF assms(1-3), of "?h @ payload"] by simp
qed

theorem corrupted_header_dropped_witness:
  "net_handle_frame (write_EthernetHeader (eth_header (g_my_mac (host mac_a ip_a)) mac_b ETH_TYPE_IPV4) @
      ([0x45, 0, 0, 0, 0, 0, 0, 0, 0, 0] @ [0xBB, 0xFF] @ [0, 0, 0, 0, 0, 0, 0, 0]) @ [])
      (host mac_a ip_a) = Inr (stat DroppedBadChecksum (host mac_a ip_a))"
proof (rule corrupted_header_dropped)
  show "wf_EthernetHeader (eth_header (g_my_mac (host mac_a ip_a)) mac_b ETH_TYPE_IPV4)"
    by (rule wf_eth_header) (simp_all add: host_a addresses)
  show "mac_is_for_me (host mac_a ip_a) (eth_dst (eth_header (g_my_mac (host mac_a ip_a)) mac_b ETH_TYPE_IPV4))"
    using mac_for_me(1) [of "host mac_a ip_a"] host_a(2) by (simp add: net_inv_def)
  have "sum_words ([0x45, 0, 0, 0, 0, 0, 0, 0, 0, 0] @ [0xBA, 0xFF] @ [0, 0, 0, 0, 0, 0, 0, 0]) = 65535"
    by simp
  then show "checksum16 ([0x45, 0, 0, 0, 0, 0, 0, 0, 0, 0] @ [0xBA, 0xFF] @ [0, 0, 0, 0, 0, 0, 0, 0]) = 0"
    by (subst checksum16_zero_iff) simp_all
qed (simp_all add: word_at_def doubleton_eq_iff)

text \<open>
  An IPv4 packet for an address that is not in the ARP cache is not sent: the sender returns
  false, broadcasts exactly one ARP request for the address, counts it, and leaves the bindings, the
  handlers, the chat and the receive ring as they are.
\<close>

theorem ipv4_miss_requests:
  assumes "net_inv s" and "length dst = 4" and "arp_map (net_arp s) dst = None" and "length payload \<le> 2014"
  shows "\<exists>s'. net_send_ipv4 (Some dst) proto (Some payload) (length payload) s = (False, s') \<and> kept s s' \<and>
    (\<forall>x. length x = 4 \<longrightarrow> arp_map (net_arp s') x = arp_map (net_arp s) x) \<and>
    stats s' = count_events [RawTx, ArpTx] (stats s) \<and>
    g_udp_handlers s' = g_udp_handlers s \<and> net_chat s' = net_chat s \<and>
    (let e = read_EthernetHeader (last_tx s'); q = read_ArpPacket (drop 14 (last_tx s'))
     in eth_dst e = broadcast_mac \<and> eth_src e = g_my_mac s \<and> bswap16 (oper q) = ARP_OP_REQUEST \<and>
        sha q = g_my_mac s \<and> spa q = g_my_ip s \<and> tpa q = dst \<and> length (last_tx s') = 42)"
proof -
  let ?e = "eth_header broadcast_mac (g_my_mac s) ETH_TYPE_ARP"
  let ?q = "arp_packet ARP_OP_REQUEST (g_my_mac s) (g_my_ip s) (replicate 6 0) dst"
  have id: "length (g_my_mac s) = 6" "length (g_my_ip s) = 4"
    using assms(1) by (simp_all add: net_inv_def wf_identity_def)
  have wf: "wf_EthernetHeader ?e" "wf_ArpPacket ?q"
    using id assms(2) wf_request_header by (simp_all add: wf_arp_packet)
  have q: "read_ArpPacket (write_ArpPacket ?q) = ?q"
    using arp.decode_encode [OF wf(2), of "[]"] by simp
  show ?thesis
    using ipv4_miss [OF assms(1-4), of "Some payload" proto] read_frame(1-3) [OF wf(1)] q
      length_write_headers(2) [OF wf(2)]
    by (auto simp: Let_def)
qed

theorem ipv4_miss_requests_witness:
  "\<exists>s'. net_send_ipv4 (Some ip_b) IPV4_PROTO_UDP (Some [1, 2]) 2 (host mac_a ip_a) = (False, s') \<and>
    tpa (read_ArpPacket (drop 14 (last_tx s'))) = ip_b"
  using ipv4_miss_requests [OF host_a(2) addresses(4), of "[1, 2]" IPV4_PROTO_UDP] arp_reset_map [of ip_b 0] addresses
  by (auto simp: host_a Let_def numeral_2_eq_2)

end
